(* ===== verification/Prelude.thy ===== *)
theory Prelude
  imports Main "HOL-Library.Word"
begin

text \<open>
  The vocabulary the component theories share: Rust's byte strings, \<open>Option\<close>/\<open>Result\<close> plumbing,
  UTF-8, \<open>from_str_radix\<close> and the other pieces of the Rust standard library that the compiler
  sources call, with the generic lemmas the component proofs rest on.
  A \<open>&[u8]\<close>, a \<open>&str\<close> and a \<open>String\<close> are all \<open>string\<close>: an Isabelle \<open>char\<close> is one byte. A Rust
  \<open>char\<close> (a Unicode scalar value) is a \<open>nat\<close>, and a \<open>usize\<close> that counts bytes of a buffer is a
  \<open>nat\<close>: a buffer never exceeds \<open>isize::MAX\<close> bytes, so such a counter cannot wrap.
\<close>

named_theorems result_simps \<open>rewriting of the error monad\<close>
named_theorems slice_simps \<open>byte ranges of a buffer\<close>
named_theorems ascii_simps \<open>the character classes of the sources\<close>

section \<open>Results\<close>

text \<open>Rust's \<open>Result<T, E>\<close> is \<open>'e + 't\<close>; \<open>rbind\<close> is the \<open>?\<close> operator, \<open>map_err\<close> its namesake.\<close>

definition rbind :: "'e + 'a \<Rightarrow> ('a \<Rightarrow> 'e + 'b) \<Rightarrow> 'e + 'b" where
  "rbind r f = (case r of Inl e \<Rightarrow> Inl e | Inr x \<Rightarrow> f x)"

definition map_err :: "('e \<Rightarrow> 'f) \<Rightarrow> 'e + 'a \<Rightarrow> 'f + 'a" where
  "map_err f r = (case r of Inl e \<Rightarrow> Inl (f e) | Inr x \<Rightarrow> Inr x)"

definition ok_or :: "'e \<Rightarrow> 'a option \<Rightarrow> 'e + 'a" where
  "ok_or e x = (case x of None \<Rightarrow> Inl e | Some y \<Rightarrow> Inr y)"

lemma rbind_Inl [simp, result_simps]: "rbind (Inl e) f = Inl e"
  by (simp add: rbind_def)

lemma rbind_Inr [simp, result_simps]: "rbind (Inr x) f = f x"
  by (simp add: rbind_def)

lemma rbind_eq_Inr [simp, result_simps]:
  "rbind r f = Inr y \<longleftrightarrow> (\<exists>x. r = Inr x \<and> f x = Inr y)"
  by (cases r) auto

lemma rbind_eq_Inl:
  "rbind r f = Inl e \<longleftrightarrow> r = Inl e \<or> (\<exists>x. r = Inr x \<and> f x = Inl e)"
  by (cases r) auto

lemma rbind_cong [fundef_cong]:
  "r = r' \<Longrightarrow> (\<And>x. r' = Inr x \<Longrightarrow> f x = g x) \<Longrightarrow> rbind r f = rbind r' g"
  by (cases r') (auto simp: rbind_def)

text \<open>Evaluation by \<open>simp\<close> works outside-in: a continuation is rewritten only once it is applied.\<close>

lemma rbind_weak_cong: "r = r' \<Longrightarrow> rbind r f = rbind r' f"
  by simp

lemma map_err_Inr_iff [simp, result_simps]: "map_err f r = Inr x \<longleftrightarrow> r = Inr x"
  by (cases r) (auto simp: map_err_def)

lemma map_err_Inl [simp]: "map_err f (Inl e) = Inl (f e)"
  by (simp add: map_err_def)

lemma map_err_Inr [simp]: "map_err f (Inr x) = Inr x"
  by (simp add: map_err_def)

lemma ok_or_Inr_iff [simp, result_simps]: "ok_or e x = Inr y \<longleftrightarrow> x = Some y"
  by (cases x) (auto simp: ok_or_def)

lemma ok_or_simps [simp]: "ok_or e None = Inl e" "ok_or e (Some y) = Inr y"
  by (simp_all add: ok_or_def)

section \<open>Buffers\<close>

text \<open>\<open>xs.get(i)\<close> and the range index \<open>&xs[a..b]\<close> (the sources only use \<open>a \<le> b \<le> xs.len()\<close>).\<close>

definition get_at :: "'a list \<Rightarrow> nat \<Rightarrow> 'a option" where
  "get_at xs i = (if i < length xs then Some (xs ! i) else None)"

definition byte_range :: "'a list \<Rightarrow> nat \<Rightarrow> nat \<Rightarrow> 'a list" where
  "byte_range xs a b = take (b - a) (drop a xs)"

lemma get_at_None_iff [simp]: "get_at xs i = None \<longleftrightarrow> length xs \<le> i"
  by (auto simp: get_at_def)

lemma get_at_Some_iff: "get_at xs i = Some x \<longleftrightarrow> i < length xs \<and> xs ! i = x"
  by (auto simp: get_at_def)

lemma get_at_SomeD [dest]: "get_at xs i = Some x \<Longrightarrow> i < length xs \<and> xs ! i = x"
  by (simp add: get_at_Some_iff)

lemma get_at_append1 [simp]: "i < length xs \<Longrightarrow> get_at (xs @ ys) i = Some (xs ! i)"
  by (simp add: get_at_def nth_append)

lemma get_at_append2: "get_at (xs @ ys) (length xs + i) = get_at ys i"
  by (simp add: get_at_def nth_append)

lemma byte_range_empty [simp, slice_simps]: "byte_range xs a a = []"
  by (simp add: byte_range_def)

lemma length_byte_range [simp, slice_simps]:
  "b \<le> length xs \<Longrightarrow> length (byte_range xs a b) = b - a"
  by (simp add: byte_range_def)

lemma byte_range_Suc [slice_simps]:
  "a \<le> b \<Longrightarrow> b < length xs \<Longrightarrow> byte_range xs a (Suc b) = byte_range xs a b @ [xs ! b]"
  by (simp add: byte_range_def Suc_diff_le take_Suc_conv_app_nth)

lemma byte_range_Cons [slice_simps]:
  "a < b \<Longrightarrow> b \<le> length xs \<Longrightarrow> byte_range xs a b = xs ! a # byte_range xs (Suc a) b"
  by (simp add: byte_range_def Cons_nth_drop_Suc [symmetric] take_Cons' Suc_diff_le)

lemma nth_byte_range [slice_simps]:
  "i < b - a \<Longrightarrow> b \<le> length xs \<Longrightarrow> byte_range xs a b ! i = xs ! (a + i)"
  by (simp add: byte_range_def)

lemma byte_range_append:
  "a \<le> b \<Longrightarrow> b \<le> c \<Longrightarrow> c \<le> length xs \<Longrightarrow>
   byte_range xs a b @ byte_range xs b c = byte_range xs a c"
  by (intro nth_equalityI) (auto simp: nth_append nth_byte_range add.commute)

lemma set_byte_range: "b \<le> length xs \<Longrightarrow> set (byte_range xs a b) = (\<lambda>i. xs ! i) ` {a..<b}"
proof -
  assume b: "b \<le> length xs"
  have "set (byte_range xs a b) = {byte_range xs a b ! i |i. i < b - a}"
    using b by (simp add: set_conv_nth)
  also have "\<dots> = (\<lambda>i. xs ! i) ` {a..<b}"
  proof (intro set_eqI iffI)
    fix x assume "x \<in> {byte_range xs a b ! i |i. i < b - a}"
    then obtain i where "i < b - a" "x = xs ! (a + i)" using b by (auto simp: nth_byte_range)
    then show "x \<in> (\<lambda>i. xs ! i) ` {a..<b}" by (intro image_eqI [of _ _ "a + i"]) auto
  next
    fix x assume "x \<in> (\<lambda>i. xs ! i) ` {a..<b}"
    then obtain i where "a \<le> i" "i < b" "x = xs ! i" by auto
    then show "x \<in> {byte_range xs a b ! i |i. i < b - a}"
      using b by (intro CollectI exI [of _ "i - a"]) (simp add: nth_byte_range)
  qed
  finally show ?thesis .
qed

section \<open>Bytes and ASCII classes\<close>

definition byte :: "char \<Rightarrow> nat" where
  "byte c = of_char c"

lemma byte_lt_256 [simp]: "byte c < 256"
  by (simp add: byte_def)

lemma byte_eq_iff: "byte c = byte d \<longleftrightarrow> c = d"
  by (simp add: byte_def)

definition is_ascii_digit :: "char \<Rightarrow> bool" where
  "is_ascii_digit c \<longleftrightarrow> 48 \<le> byte c \<and> byte c \<le> 57"

definition is_ascii_upper :: "char \<Rightarrow> bool" where
  "is_ascii_upper c \<longleftrightarrow> 65 \<le> byte c \<and> byte c \<le> 90"

definition is_ascii_lower :: "char \<Rightarrow> bool" where
  "is_ascii_lower c \<longleftrightarrow> 97 \<le> byte c \<and> byte c \<le> 122"

definition is_ascii_alphabetic :: "char \<Rightarrow> bool" where
  "is_ascii_alphabetic c \<longleftrightarrow> is_ascii_upper c \<or> is_ascii_lower c"

definition is_ascii_alphanumeric :: "char \<Rightarrow> bool" where
  "is_ascii_alphanumeric c \<longleftrightarrow> is_ascii_alphabetic c \<or> is_ascii_digit c"

definition is_ascii_hexdigit :: "char \<Rightarrow> bool" where
  "is_ascii_hexdigit c \<longleftrightarrow>
     is_ascii_digit c \<or> (65 \<le> byte c \<and> byte c \<le> 70) \<or> (97 \<le> byte c \<and> byte c \<le> 102)"

definition newline :: char where
  "newline = CHR 0x0A"

definition to_ascii_uppercase :: "string \<Rightarrow> string" where
  "to_ascii_uppercase = map (\<lambda>c. if is_ascii_lower c then char_of (byte c - 32) else c)"

definition eq_ignore_ascii_case :: "string \<Rightarrow> string \<Rightarrow> bool" where
  "eq_ignore_ascii_case s t \<longleftrightarrow> to_ascii_uppercase s = to_ascii_uppercase t"

lemmas ascii_class_defs =
  is_ascii_digit_def is_ascii_upper_def is_ascii_lower_def is_ascii_alphabetic_def
  is_ascii_alphanumeric_def is_ascii_hexdigit_def newline_def byte_def

declare ascii_class_defs [ascii_simps]

section \<open>UTF-8\<close>

text \<open>
  The strict decoder behind \<open>str::from_utf8\<close> and \<open>str::chars\<close>: no overlong forms, no surrogates,
  nothing above \<open>U+10FFFF\<close>.
\<close>

definition is_scalar :: "nat \<Rightarrow> bool" where
  "is_scalar n \<longleftrightarrow> n < 0xD800 \<or> (0xE000 \<le> n \<and> n \<le> 0x10FFFF)"

definition char_from_u32 :: "nat \<Rightarrow> nat option" where
  "char_from_u32 n = (if is_scalar n then Some n else None)"

definition is_cont :: "char \<Rightarrow> bool" where
  "is_cont c \<longleftrightarrow> 0x80 \<le> byte c \<and> byte c < 0xC0"

fun utf8_decode :: "string \<Rightarrow> nat list option" where
  "utf8_decode [] = Some []"
| "utf8_decode (a # r) =
     (if byte a < 0x80 then map_option ((#) (byte a)) (utf8_decode r)
      else (case r of
        [] \<Rightarrow> None
      | b # r1 \<Rightarrow>
        if \<not> is_cont b then None
        else if 0xC2 \<le> byte a \<and> byte a < 0xE0
        then map_option ((#) ((byte a - 0xC0) * 64 + (byte b - 0x80))) (utf8_decode r1)
        else (case r1 of
          [] \<Rightarrow> None
        | c # r2 \<Rightarrow>
          if \<not> is_cont c then None
          else if 0xE0 \<le> byte a \<and> byte a < 0xF0
          then (let n = (byte a - 0xE0) * 4096 + (byte b - 0x80) * 64 + (byte c - 0x80)
                in if n < 0x800 \<or> \<not> is_scalar n then None
                   else map_option ((#) n) (utf8_decode r2))
          else (case r2 of
            [] \<Rightarrow> None
          | d # r3 \<Rightarrow>
            if \<not> is_cont d \<or> byte a < 0xF0 \<or> 0xF5 \<le> byte a then None
            else (let n = (byte a - 0xF0) * 262144 + (byte b - 0x80) * 4096
                          + (byte c - 0x80) * 64 + (byte d - 0x80)
                  in if n < 0x10000 \<or> \<not> is_scalar n then None
                     else map_option ((#) n) (utf8_decode r3))))))"

text \<open>\<open>from_utf8(b).unwrap_or("")\<close>, and the scalar values \<open>s.chars()\<close> of a valid string.\<close>

definition from_utf8_or_empty :: "string \<Rightarrow> string" where
  "from_utf8_or_empty b = (case utf8_decode b of None \<Rightarrow> [] | Some _ \<Rightarrow> b)"

definition chars_of :: "string \<Rightarrow> nat list" where
  "chars_of s = (case utf8_decode s of None \<Rightarrow> [] | Some cs \<Rightarrow> cs)"

text \<open>\<open>String::push(c)\<close>: the UTF-8 encoding of a scalar value.\<close>

definition utf8_encode :: "nat \<Rightarrow> string" where
  "utf8_encode n =
     (if n < 0x80 then [char_of n]
      else if n < 0x800 then [char_of (0xC0 + n div 64), char_of (0x80 + n mod 64)]
      else if n < 0x10000
      then [char_of (0xE0 + n div 4096), char_of (0x80 + n div 64 mod 64),
            char_of (0x80 + n mod 64)]
      else [char_of (0xF0 + n div 262144), char_of (0x80 + n div 4096 mod 64),
            char_of (0x80 + n div 64 mod 64), char_of (0x80 + n mod 64)])"

lemma utf8_decode_ascii: "\<forall>c \<in> set s. byte c < 0x80 \<Longrightarrow> utf8_decode s = Some (map byte s)"
  by (induction s) auto

lemma chars_of_ascii: "\<forall>c \<in> set s. byte c < 0x80 \<Longrightarrow> chars_of s = map byte s"
  by (simp add: chars_of_def utf8_decode_ascii)

text \<open>\<open>str::trim\<close>: Unicode \<open>White_Space\<close> off both ends; \<open>strip_prefix\<close> and \<open>split(c)\<close>.\<close>

definition is_whitespace :: "nat \<Rightarrow> bool" where
  "is_whitespace n \<longleftrightarrow>
     (9 \<le> n \<and> n \<le> 13) \<or> n = 0x20 \<or> n = 0x85 \<or> n = 0xA0 \<or> n = 0x1680 \<or>
     (0x2000 \<le> n \<and> n \<le> 0x200A) \<or> n = 0x2028 \<or> n = 0x2029 \<or> n = 0x202F \<or> n = 0x205F \<or>
     n = 0x3000"

definition str_trim :: "string \<Rightarrow> string" where
  "str_trim s =
     concat (map utf8_encode
       (rev (dropWhile is_whitespace (rev (dropWhile is_whitespace (chars_of s))))))"

definition strip_prefix :: "string \<Rightarrow> string \<Rightarrow> string option" where
  "strip_prefix pre s = (if take (length pre) s = pre then Some (drop (length pre) s) else None)"

fun split_on :: "char \<Rightarrow> string \<Rightarrow> string list" where
  "split_on d [] = [[]]"
| "split_on d (c # cs) =
     (if c = d then [] # split_on d cs
      else (case split_on d cs of [] \<Rightarrow> [[c]] | w # ws \<Rightarrow> (c # w) # ws))"

section \<open>Integer parsing\<close>

text \<open>\<open>uN::from_str_radix\<close>: \<open>maxv\<close> is the type's largest value.\<close>

datatype parse_int_error = PieEmpty | PieInvalidDigit | PiePosOverflow

definition digit_val :: "nat \<Rightarrow> char \<Rightarrow> nat option" where
  "digit_val radix c =
     (let d = (if is_ascii_digit c then Some (byte c - 48)
               else if is_ascii_upper c then Some (byte c - 55)
               else if is_ascii_lower c then Some (byte c - 87) else None)
      in case d of None \<Rightarrow> None | Some v \<Rightarrow> if v < radix then Some v else None)"

fun radix_loop :: "nat \<Rightarrow> nat \<Rightarrow> nat \<Rightarrow> string \<Rightarrow> parse_int_error + nat" where
  "radix_loop maxv radix acc [] = Inr acc"
| "radix_loop maxv radix acc (c # cs) =
     (case digit_val radix c of
        None \<Rightarrow> Inl PieInvalidDigit
      | Some d \<Rightarrow>
        if maxv < acc * radix then Inl PiePosOverflow
        else if maxv < acc * radix + d then Inl PiePosOverflow
        else radix_loop maxv radix (acc * radix + d) cs)"

definition from_str_radix :: "nat \<Rightarrow> nat \<Rightarrow> string \<Rightarrow> parse_int_error + nat" where
  "from_str_radix maxv radix s =
     (case s of
        [] \<Rightarrow> Inl PieEmpty
      | c # cs \<Rightarrow>
        if cs = [] \<and> (c = CHR ''+'' \<or> c = CHR ''-'') then Inl PieInvalidDigit
        else if c = CHR ''+'' then radix_loop maxv radix 0 cs
        else radix_loop maxv radix 0 s)"

text \<open>The positional value the parser is specified by.\<close>

definition digit_or_0 :: "nat \<Rightarrow> char \<Rightarrow> nat" where
  "digit_or_0 radix c = (case digit_val radix c of None \<Rightarrow> 0 | Some d \<Rightarrow> d)"

definition positional :: "nat \<Rightarrow> string \<Rightarrow> nat" where
  "positional radix s = foldl (\<lambda>acc c. acc * radix + digit_or_0 radix c) 0 s"

lemma digit_val_less: "digit_val radix c = Some d \<Longrightarrow> d < radix"
  by (auto simp: digit_val_def Let_def split: option.splits if_splits)

lemma radix_loop_Inr:
  "radix_loop maxv radix acc s = Inr v \<Longrightarrow> acc \<le> maxv \<Longrightarrow>
   v \<le> maxv \<and> v = foldl (\<lambda>acc c. acc * radix + digit_or_0 radix c) acc s \<and>
   (\<forall>c \<in> set s. digit_val radix c \<noteq> None)"
  by (induction maxv radix acc s rule: radix_loop.induct)
     (auto simp: digit_or_0_def split: option.splits if_splits)

lemma foldl_digits_mono:
  "0 < radix \<Longrightarrow> acc \<le> foldl (\<lambda>acc c. acc * radix + digit_or_0 radix c) acc s"
proof (induction s arbitrary: acc)
  case (Cons c s)
  have h: "acc \<le> acc * radix" using Cons.prems by (cases radix) auto
  have "acc \<le> acc * radix + digit_or_0 radix c" by (rule trans_le_add1 [OF h])
  also have "\<dots> \<le> foldl (\<lambda>acc c. acc * radix + digit_or_0 radix c) (acc * radix + digit_or_0 radix c) s"
    using Cons by blast
  finally show ?case by simp
qed simp

lemma radix_loop_complete:
  assumes "\<forall>c \<in> set s. digit_val radix c \<noteq> None" and "0 < radix"
    and "foldl (\<lambda>acc c. acc * radix + digit_or_0 radix c) acc s \<le> maxv"
  shows "radix_loop maxv radix acc s =
    Inr (foldl (\<lambda>acc c. acc * radix + digit_or_0 radix c) acc s)"
  using assms
proof (induction s arbitrary: acc)
  case (Cons c s)
  then obtain d where d: "digit_val radix c = Some d" by auto
  have le: "acc * radix + d \<le> maxv"
    using foldl_digits_mono [of radix "acc * radix + d" s] Cons.prems d
    by (simp add: digit_or_0_def)
  then show ?case
    using Cons d by (simp add: digit_or_0_def)
qed simp

text \<open>
  A parse succeeds exactly on non-empty digit strings whose value fits, and returns that value
  (the strings without a sign, the only ones the lexer passes).
\<close>

lemma from_str_radix_iff:
  assumes "0 < radix" and "s \<noteq> []" and "hd s \<noteq> CHR ''+''" and "hd s \<noteq> CHR ''-''"
  shows "from_str_radix maxv radix s = Inr v \<longleftrightarrow>
    (\<forall>c \<in> set s. digit_val radix c \<noteq> None) \<and> v = positional radix s \<and> v \<le> maxv"
proof -
  have eq: "from_str_radix maxv radix s = radix_loop maxv radix 0 s"
    using assms by (auto simp: from_str_radix_def split: list.splits)
  show ?thesis unfolding eq positional_def
    using radix_loop_Inr [of maxv radix 0 s v] radix_loop_complete [of s radix 0 maxv] assms(1)
    by auto
qed

text \<open>\<open>u64::to_string\<close>.\<close>

fun dec :: "nat \<Rightarrow> string" where
  "dec n = (if n < 10 then [char_of (48 + n)] else dec (n div 10) @ [char_of (48 + n mod 10)])"

declare dec.simps [simp del]

lemma digit_char: "d < 10 \<Longrightarrow> is_ascii_digit (char_of (48 + d)) \<and> digit_or_0 10 (char_of (48 + d)) = d"
  by (simp add: is_ascii_digit_def byte_def digit_or_0_def digit_val_def)

lemma dec_digits: "dec n \<noteq> [] \<and> list_all is_ascii_digit (dec n)"
proof (induction n rule: dec.induct)
  case (1 n)
  then show ?case by (subst (1 2) dec.simps) (auto simp: digit_char)
qed

lemma positional_snoc: "positional radix (s @ [c]) = positional radix s * radix + digit_or_0 radix c"
  by (simp add: positional_def)

lemma positional_dec: "positional 10 (dec n) = n"
proof (induction n rule: dec.induct)
  case (1 n)
  then show ?case
    by (subst dec.simps) (auto simp: positional_snoc digit_char, simp add: positional_def digit_char)
qed

section \<open>Machine integers\<close>

type_synonym u64 = "64 word"

abbreviation u64_max :: nat where
  "u64_max \<equiv> 2 ^ 64 - 1"

abbreviation u32_max :: nat where
  "u32_max \<equiv> 2 ^ 32 - 1"

text \<open>\<open>slice::sort\<close> and \<open>sort\<close> + \<open>dedup\<close> on a linearly ordered element type keep these facts.\<close>

lemma sort_distinct_unique:
  assumes "sorted xs" "distinct xs" "sorted ys" "distinct ys" "set xs = set ys"
  shows "xs = ys"
  using assms by (metis sorted_distinct_set_unique)

end
