(* ===== verification/Source.thy ===== *)
theory Source
  imports Prelude
begin

text \<open>
  Source positions, spans and lexical errors (\<open>newm2-lexer/src/lib.rs\<close>), shared by the lexer and
  the conditional-compilation preprocessor, and the interface of a cursor: a scanner that only
  moves its position by consuming the byte under it. The locale proves once, for both scanners,
  that every position it can reach is the one obtained by counting lines and columns from the
  start of the file.
\<close>

section \<open>Positions and spans\<close>

record position =
  line :: nat
  column :: nat
  offset :: nat

record span =
  span_start :: position
  span_end :: position

definition START :: position where
  "START = \<lparr>line = 1, column = 1, offset = 0\<rparr>"

text \<open>One consumed byte: the body of \<open>advance\<close> in both scanners.\<close>

definition next_pos :: "char \<Rightarrow> position \<Rightarrow> position" where
  "next_pos c p =
     (if c = newline
      then \<lparr>line = line p + 1, column = 1, offset = offset p + 1\<rparr>
      else \<lparr>line = line p, column = column p + 1, offset = offset p + 1\<rparr>)"

text \<open>
  The templates of the messages the lexer and the preprocessor put into a \<open>LexError\<close>, with the
  values each is formatted from. Two are the model's own: \<open>OutputNotUtf8\<close> is the panic of the
  \<open>expect\<close> on the preprocessor's output, and \<open>OutOfFuel\<close> ends a directive-expression parser that
  has used up its bound on nested calls; \<open>PreprocessSpec\<close> proves that neither ever happens.
\<close>

datatype lex_message =
    UnterminatedBlockComment
  | UnterminatedPragma
  | UnterminatedString
  | InvalidHex string char parse_int_error
  | RealPartNotDecimal
  | InvalidReal string
  | EmptyBinary
  | NonBinaryDigit string
  | InvalidBinary string parse_int_error
  | NonOctalDigit char string
  | EmptyOctal char
  | InvalidOctal string parse_int_error
  | InvalidCharLiteral string parse_int_error
  | InvalidCharCode string nat
  | InvalidInteger string parse_int_error
  | HexWithoutSuffix string
  | UnexpectedCharacter char
  | UnterminatedIf
  | ElsifOutsideIf
  | ElseOutsideIf
  | EndOutsideIf
  | UnknownDirective string
  | MissingThen
  | UnexpectedInIf string
  | ExprExpectedParen
  | ExprUnexpectedEnd
  | ExprUnexpectedChar char
  | ExprUnterminatedString
  | ExprTrailing string
  | OutputNotUtf8
  | OutOfFuel

record lex_error =
  message :: lex_message
  err_position :: position

definition lex_err :: "lex_message \<Rightarrow> position \<Rightarrow> lex_error" where
  "lex_err m p = \<lparr>message = m, err_position = p\<rparr>"

section \<open>The specification of a position\<close>

text \<open>\<open>pos_at src k\<close> is the position of byte \<open>k\<close> of \<open>src\<close>.\<close>

definition pos_after :: "string \<Rightarrow> position" where
  "pos_after s = foldl (\<lambda>p c. next_pos c p) START s"

definition pos_at :: "string \<Rightarrow> nat \<Rightarrow> position" where
  "pos_at src k = pos_after (take k src)"

definition located :: "string \<Rightarrow> position \<Rightarrow> bool" where
  "located src p \<longleftrightarrow> offset p \<le> length src \<and> p = pos_at src (offset p)"

lemma pos_after_Nil [simp]: "pos_after [] = START"
  by (simp add: pos_after_def)

lemma pos_after_snoc [simp]: "pos_after (s @ [c]) = next_pos c (pos_after s)"
  by (simp add: pos_after_def)

lemma offset_next_pos [simp]: "offset (next_pos c p) = Suc (offset p)"
  by (simp add: next_pos_def)

lemma offset_pos_after [simp]: "offset (pos_after s) = length s"
  by (induction s rule: rev_induct) (auto simp: START_def)

lemma offset_START [simp]: "offset START = 0"
  by (simp add: START_def)

lemma line_pos_after: "line (pos_after s) = 1 + count_list s newline"
  by (induction s rule: rev_induct) (auto simp: START_def next_pos_def)

lemma column_pos_after:
  "column (pos_after s) = 1 + length (takeWhile (\<lambda>c. c \<noteq> newline) (rev s))"
  by (induction s rule: rev_induct) (auto simp: START_def next_pos_def)

lemma pos_at_0 [simp]: "pos_at src 0 = START"
  by (simp add: pos_at_def)

lemma pos_at_Suc: "k < length src \<Longrightarrow> pos_at src (Suc k) = next_pos (src ! k) (pos_at src k)"
  by (simp add: pos_at_def take_Suc_conv_app_nth)

lemma located_START [simp]: "located src START"
  by (simp add: located_def)

lemma located_step:
  "located src p \<Longrightarrow> offset p < length src \<Longrightarrow> located src (next_pos (src ! offset p) p)"
  by (simp add: located_def pos_at_Suc)

lemma located_unique: "located src p \<Longrightarrow> located src q \<Longrightarrow> offset p = offset q \<Longrightarrow> p = q"
  by (metis located_def)

section \<open>Cursors\<close>

locale cursor =
  fixes src_of :: "'s \<Rightarrow> string"
    and pos_of :: "'s \<Rightarrow> position"
    and step :: "'s \<Rightarrow> 's \<Rightarrow> bool"
  assumes step_src: "step s t \<Longrightarrow> src_of t = src_of s"
    and step_pos: "step s t \<Longrightarrow> pos_of t = pos_of s \<or>
      (offset (pos_of s) < length (src_of s) \<and>
       pos_of t = next_pos (src_of s ! offset (pos_of s)) (pos_of s))"
begin

lemma steps_src: "step\<^sup>*\<^sup>* s t \<Longrightarrow> src_of t = src_of s"
  by (induction rule: rtranclp_induct) (auto dest: step_src)

lemma steps_offset: "step\<^sup>*\<^sup>* s t \<Longrightarrow> offset (pos_of s) \<le> offset (pos_of t)"
  by (induction rule: rtranclp_induct) (auto dest: step_pos)

lemma steps_located: "step\<^sup>*\<^sup>* s t \<Longrightarrow> located (src_of s) (pos_of s) \<Longrightarrow> located (src_of t) (pos_of t)"
proof (induction rule: rtranclp_induct)
  case (step t u)
  then show ?case using step_src [of t u] step_pos [of t u] by (auto intro: located_step)
qed simp

lemma steps_end: "step\<^sup>*\<^sup>* s t \<Longrightarrow> offset (pos_of s) \<le> length (src_of s) \<Longrightarrow>
  offset (pos_of t) \<le> length (src_of t)"
proof (induction rule: rtranclp_induct)
  case (step t u)
  then show ?case using step_src [of t u] step_pos [of t u] by auto
qed simp

end

end
