(* ===== verification/Token.thy ===== *)
theory Token
  imports Source
begin

text \<open>
  The token kinds and the keyword table (\<open>newm2-lexer/src/token.rs\<close>). Constructors carry the
  source's names with a letter before them (\<open>Plus\<close> is \<open>TPlus\<close>, \<open>Keyword::And\<close> is \<open>KAnd\<close>), because
  several of the plain names belong to HOL. An \<open>f64\<close> is its bit pattern.
\<close>

type_synonym f64 = "64 word"

datatype literal_flavor = FlavorDefault | FlavorAchar | FlavorUchar

fun flavor_suffix :: "literal_flavor \<Rightarrow> string" where
  "flavor_suffix FlavorDefault = ''''"
| "flavor_suffix FlavorAchar = ''A''"
| "flavor_suffix FlavorUchar = ''U''"

record char_literal =
  char_value :: nat
  char_flavor :: literal_flavor

record string_literal =
  str_value :: string
  str_flavor :: literal_flavor

datatype keyword =
    KAnd | KArray | KBegin | KBy | KCase | KConst | KDefinition | KDiv | KDo | KElse | KElsif
  | KEnd | KExcept | KExit | KExport | KFinally | KFor | KForward | KFrom | KGeneric | KIf
  | KImplementation | KImport | KIn | KLoop | KMod | KModule | KNot | KOf | KOr | KPackedset
  | KPointer | KProcedure | KQualified | KRecord | KRem | KRepeat | KRetry | KReturn | KSet
  | KThen | KTo | KType | KUntil | KVar | KWhile | KWith | KAbstract | KAsm | KBor | KBand
  | KBxor | KBnot | KShl | KShr

datatype token_kind =
    TIdent string
  | TKeyword keyword
  | TInteger u64
  | TReal f64
  | TChar char_literal
  | TString string_literal
  | TPragma string
  | TPlus | TMinus | TStar | TSlash | TAmp | TTilde | TEqual | THash | TLess | TLessEq
  | TGreater | TGreaterEq | TNotEqual | TAssign | TDot | TDotDot | TComma | TSemicolon | TColon
  | TLParen | TRParen | TLBracket | TRBracket | TLBrace | TRBrace | TPipe | TCaret | TAt | TEof

record token =
  kind :: token_kind
  tok_span :: span

fun as_str :: "keyword \<Rightarrow> string" where
  "as_str KAnd = ''AND''"
| "as_str KArray = ''ARRAY''"
| "as_str KBegin = ''BEGIN''"
| "as_str KBy = ''BY''"
| "as_str KCase = ''CASE''"
| "as_str KConst = ''CONST''"
| "as_str KDefinition = ''DEFINITION''"
| "as_str KDiv = ''DIV''"
| "as_str KDo = ''DO''"
| "as_str KElse = ''ELSE''"
| "as_str KElsif = ''ELSIF''"
| "as_str KEnd = ''END''"
| "as_str KExcept = ''EXCEPT''"
| "as_str KExit = ''EXIT''"
| "as_str KExport = ''EXPORT''"
| "as_str KFinally = ''FINALLY''"
| "as_str KFor = ''FOR''"
| "as_str KForward = ''FORWARD''"
| "as_str KFrom = ''FROM''"
| "as_str KGeneric = ''GENERIC''"
| "as_str KIf = ''IF''"
| "as_str KImplementation = ''IMPLEMENTATION''"
| "as_str KImport = ''IMPORT''"
| "as_str KIn = ''IN''"
| "as_str KLoop = ''LOOP''"
| "as_str KMod = ''MOD''"
| "as_str KModule = ''MODULE''"
| "as_str KNot = ''NOT''"
| "as_str KOf = ''OF''"
| "as_str KOr = ''OR''"
| "as_str KPackedset = ''PACKEDSET''"
| "as_str KPointer = ''POINTER''"
| "as_str KProcedure = ''PROCEDURE''"
| "as_str KQualified = ''QUALIFIED''"
| "as_str KRecord = ''RECORD''"
| "as_str KRem = ''REM''"
| "as_str KRepeat = ''REPEAT''"
| "as_str KRetry = ''RETRY''"
| "as_str KReturn = ''RETURN''"
| "as_str KSet = ''SET''"
| "as_str KThen = ''THEN''"
| "as_str KTo = ''TO''"
| "as_str KType = ''TYPE''"
| "as_str KUntil = ''UNTIL''"
| "as_str KVar = ''VAR''"
| "as_str KWhile = ''WHILE''"
| "as_str KWith = ''WITH''"
| "as_str KAbstract = ''ABSTRACT''"
| "as_str KAsm = ''ASM''"
| "as_str KBor = ''BOR''"
| "as_str KBand = ''BAND''"
| "as_str KBxor = ''BXOR''"
| "as_str KBnot = ''BNOT''"
| "as_str KShl = ''SHL''"
| "as_str KShr = ''SHR''"

text \<open>\<open>Keyword::from_str\<close>: the string table of the match, in the order of its arms.\<close>

definition keyword_table :: "(string \<times> keyword) list" where
  "keyword_table =
    [(''AND'', KAnd), (''ARRAY'', KArray), (''BEGIN'', KBegin), (''BY'', KBy), (''CASE'', KCase),
     (''CONST'', KConst), (''DEFINITION'', KDefinition), (''DIV'', KDiv), (''DO'', KDo),
     (''ELSE'', KElse), (''ELSIF'', KElsif), (''END'', KEnd), (''EXCEPT'', KExcept),
     (''EXIT'', KExit), (''EXPORT'', KExport), (''FINALLY'', KFinally), (''FOR'', KFor),
     (''FORWARD'', KForward), (''FROM'', KFrom), (''GENERIC'', KGeneric), (''IF'', KIf),
     (''IMPLEMENTATION'', KImplementation), (''IMPORT'', KImport), (''IN'', KIn),
     (''LOOP'', KLoop), (''MOD'', KMod), (''MODULE'', KModule), (''NOT'', KNot), (''OF'', KOf),
     (''OR'', KOr), (''PACKEDSET'', KPackedset), (''POINTER'', KPointer),
     (''PROCEDURE'', KProcedure), (''QUALIFIED'', KQualified), (''RECORD'', KRecord),
     (''REM'', KRem), (''REPEAT'', KRepeat), (''RETRY'', KRetry), (''RETURN'', KReturn),
     (''SET'', KSet), (''THEN'', KThen), (''TO'', KTo), (''TYPE'', KType), (''UNTIL'', KUntil),
     (''VAR'', KVar), (''WHILE'', KWhile), (''WITH'', KWith), (''ABSTRACT'', KAbstract),
     (''ASM'', KAsm), (''BOR'', KBor), (''BAND'', KBand), (''BXOR'', KBxor), (''BNOT'', KBnot),
     (''SHL'', KShl), (''SHR'', KShr)]"

definition keyword_from_str :: "string \<Rightarrow> keyword option" where
  "keyword_from_str s = map_of keyword_table s"

lemma keyword_table_as_str: "list_all (\<lambda>(s, k). as_str k = s) keyword_table"
  by (simp add: keyword_table_def)

lemma keyword_from_str_as_str: "keyword_from_str s = Some k \<Longrightarrow> as_str k = s"
  using keyword_table_as_str
  by (auto simp: keyword_from_str_def list_all_iff dest!: map_of_SomeD)

lemma keyword_as_str_from_str: "keyword_from_str (as_str k) = Some k"
  by (cases k) (simp_all add: keyword_from_str_def keyword_table_def)

end
