(* ===== verification/Floats.thy ===== *)
theory Floats
  imports Token
begin

text \<open>
  The parts of Rust's \<open>f64\<close> the front end computes with at compile time: \<open>str::parse::<f64>\<close>,
  \<open>from_bits\<close>/\<open>to_bits\<close>, \<open>as f64\<close>, the four arithmetic operators, negation, \<open>abs\<close> and the
  comparisons, on IEEE-754 binary64 bit patterns with round-to-nearest-even. A NaN result is the
  canonical quiet NaN.
\<close>

unbundle bit_operations_syntax

section \<open>Fields of a bit pattern\<close>

definition f64_neg_sign :: "f64 \<Rightarrow> bool" where
  "f64_neg_sign x = bit x 63"

definition f64_exp_field :: "f64 \<Rightarrow> nat" where
  "f64_exp_field x = unat x div 2 ^ 52 mod 2048"

definition f64_fraction :: "f64 \<Rightarrow> nat" where
  "f64_fraction x = unat x mod 2 ^ 52"

definition f64_is_nan :: "f64 \<Rightarrow> bool" where
  "f64_is_nan x \<longleftrightarrow> f64_exp_field x = 2047 \<and> f64_fraction x \<noteq> 0"

definition f64_is_inf :: "f64 \<Rightarrow> bool" where
  "f64_is_inf x \<longleftrightarrow> f64_exp_field x = 2047 \<and> f64_fraction x = 0"

definition f64_is_zero :: "f64 \<Rightarrow> bool" where
  "f64_is_zero x \<longleftrightarrow> unat x mod 2 ^ 63 = 0"

definition f64_nan :: f64 where
  "f64_nan = 0x7FF8000000000000"

definition f64_signed :: "bool \<Rightarrow> nat \<Rightarrow> f64" where
  "f64_signed neg bits = of_nat (bits + (if neg then 2 ^ 63 else 0))"

definition f64_inf :: "bool \<Rightarrow> f64" where
  "f64_inf neg = f64_signed neg (2047 * 2 ^ 52)"

text \<open>A finite value is \<open>\<plusminus> mantissa * 2 ^ (scale - 1074)\<close>.\<close>

definition f64_mantissa :: "f64 \<Rightarrow> nat" where
  "f64_mantissa x = (if f64_exp_field x = 0 then f64_fraction x else 2 ^ 52 + f64_fraction x)"

definition f64_scale :: "f64 \<Rightarrow> nat" where
  "f64_scale x = f64_exp_field x - 1"

text \<open>The value times \<open>2 ^ 1074\<close>: an integer for every finite pattern.\<close>

definition f64_fixed :: "f64 \<Rightarrow> int" where
  "f64_fixed x = (if f64_neg_sign x then - 1 else 1) * int (f64_mantissa x) * 2 ^ f64_scale x"

section \<open>Rounding a ratio to nearest, ties to even\<close>

fun bit_len :: "nat \<Rightarrow> nat" where
  "bit_len n = (if n = 0 then 0 else Suc (bit_len (n div 2)))"

declare bit_len.simps [simp del]

definition round_half_even :: "nat \<Rightarrow> nat \<Rightarrow> nat" where
  "round_half_even n d =
     (let q = n div d; r = n mod d
      in if d < 2 * r \<or> (2 * r = d \<and> odd q) then Suc q else q)"

text \<open>\<open>n / d\<close> in the binary64 grid; the last place of the result weighs \<open>2 ^ (u - 1074)\<close>.\<close>

definition f64_round_bits :: "nat \<Rightarrow> nat \<Rightarrow> nat" where
  "f64_round_bits n d =
     (if n = 0 then 0
      else
        let e0 = int (bit_len n) - int (bit_len d);
            e = (if n * 2 ^ nat (- e0) < d * 2 ^ nat e0 then e0 - 1 else e0);
            u = max (e - 52) (- 1074);
            m = round_half_even (n * 2 ^ nat (- u)) (d * 2 ^ nat u);
            bits = nat (u + 1074) * 2 ^ 52 + m
        in if 2047 * 2 ^ 52 \<le> bits then 2047 * 2 ^ 52 else bits)"

definition f64_round :: "bool \<Rightarrow> nat \<Rightarrow> nat \<Rightarrow> f64" where
  "f64_round neg n d = f64_signed neg (f64_round_bits n d)"

section \<open>Operations\<close>

definition f64_of_int :: "int \<Rightarrow> f64" where
  "f64_of_int n = f64_round (n < 0) (nat \<bar>n\<bar>) 1"

definition f64_neg :: "f64 \<Rightarrow> f64" where
  "f64_neg x = x XOR 0x8000000000000000"

definition f64_abs :: "f64 \<Rightarrow> f64" where
  "f64_abs x = x AND 0x7FFFFFFFFFFFFFFF"

definition f64_add :: "f64 \<Rightarrow> f64 \<Rightarrow> f64" where
  "f64_add x y =
     (if f64_is_nan x \<or> f64_is_nan y then f64_nan
      else if f64_is_inf x
      then (if f64_is_inf y \<and> f64_neg_sign x \<noteq> f64_neg_sign y then f64_nan else x)
      else if f64_is_inf y then y
      else
        let z = f64_fixed x + f64_fixed y
        in if z = 0 then f64_signed (f64_neg_sign x \<and> f64_neg_sign y) 0
           else f64_round (z < 0) (nat \<bar>z\<bar>) (2 ^ 1074))"

definition f64_sub :: "f64 \<Rightarrow> f64 \<Rightarrow> f64" where
  "f64_sub x y = f64_add x (f64_neg y)"

definition f64_mul :: "f64 \<Rightarrow> f64 \<Rightarrow> f64" where
  "f64_mul x y =
     (let neg = (f64_neg_sign x \<noteq> f64_neg_sign y)
      in if f64_is_nan x \<or> f64_is_nan y then f64_nan
         else if f64_is_inf x \<or> f64_is_inf y
         then (if f64_is_zero x \<or> f64_is_zero y then f64_nan else f64_inf neg)
         else f64_round neg (nat \<bar>f64_fixed x\<bar> * nat \<bar>f64_fixed y\<bar>) (2 ^ 2148))"

definition f64_div :: "f64 \<Rightarrow> f64 \<Rightarrow> f64" where
  "f64_div x y =
     (let neg = (f64_neg_sign x \<noteq> f64_neg_sign y)
      in if f64_is_nan x \<or> f64_is_nan y then f64_nan
         else if f64_is_inf x then (if f64_is_inf y then f64_nan else f64_inf neg)
         else if f64_is_inf y then f64_signed neg 0
         else if f64_is_zero y then (if f64_is_zero x then f64_nan else f64_inf neg)
         else f64_round neg (nat \<bar>f64_fixed x\<bar>) (nat \<bar>f64_fixed y\<bar>))"

definition f64_eq :: "f64 \<Rightarrow> f64 \<Rightarrow> bool" where
  "f64_eq x y \<longleftrightarrow> \<not> f64_is_nan x \<and> \<not> f64_is_nan y \<and> f64_fixed x = f64_fixed y"

text \<open>\<open>partial_cmp\<close>: \<open>None\<close> on a NaN. An infinity's \<open>f64_fixed\<close> exceeds every finite one's.\<close>

definition f64_partial_cmp :: "f64 \<Rightarrow> f64 \<Rightarrow> int option" where
  "f64_partial_cmp x y =
     (if f64_is_nan x \<or> f64_is_nan y then None
      else Some (if f64_fixed x < f64_fixed y then - 1
                 else if f64_fixed x = f64_fixed y then 0 else 1))"

text \<open>\<open>f32::from_bits(n) as f64\<close>, which is exact.\<close>

definition f64_of_f32_bits :: "32 word \<Rightarrow> f64" where
  "f64_of_f32_bits w =
     (let neg = bit w 31; e = unat w div 2 ^ 23 mod 256; f = unat w mod 2 ^ 23
      in if e = 255 then (if f = 0 then f64_inf neg else f64_nan)
         else f64_round neg ((if e = 0 then f else 2 ^ 23 + f) * 2 ^ (e - 1)) (2 ^ 149))"

section \<open>Parsing\<close>

text \<open>
  \<open>str::parse::<f64>\<close> on the texts the lexer passes, which start with a digit: digits, a point,
  digits, and an optional exponent, which needs at least one digit. \<open>None\<close> is the parse error.
\<close>

definition parse_f64_exponent :: "string \<Rightarrow> int option" where
  "parse_f64_exponent s =
     (case s of
        [] \<Rightarrow> Some 0
      | c # r \<Rightarrow>
        if c = CHR ''E'' \<or> c = CHR ''e''
        then (let neg = (r \<noteq> [] \<and> hd r = CHR ''-'');
                  ds = (if r \<noteq> [] \<and> (hd r = CHR ''+'' \<or> hd r = CHR ''-'') then tl r else r)
              in if ds = [] \<or> \<not> list_all is_ascii_digit ds then None
                 else Some ((if neg then - 1 else 1) * int (positional 10 ds)))
        else None)"

definition parse_f64 :: "string \<Rightarrow> f64 option" where
  "parse_f64 s =
     (let ip = takeWhile is_ascii_digit s;
          r = dropWhile is_ascii_digit s;
          pt = (r \<noteq> [] \<and> hd r = CHR ''.'');
          fp = (if pt then takeWhile is_ascii_digit (tl r) else []);
          rest = (if pt then dropWhile is_ascii_digit (tl r) else r)
      in if ip = [] \<and> fp = [] then None
         else case parse_f64_exponent rest of
           None \<Rightarrow> None
         | Some e \<Rightarrow>
             let m = positional 10 (ip @ fp); x = e - int (length fp)
             in Some (f64_round False (m * 10 ^ nat x) (10 ^ nat (- x))))"

section \<open>Facts used by the components\<close>

lemma f64_round_bits_le: "f64_round_bits n d \<le> 2047 * 2 ^ 52"
  by (simp add: f64_round_bits_def Let_def)

lemma f64_one: "f64_of_int 1 = 0x3FF0000000000000"
  by (simp add: f64_of_int_def f64_round_def f64_round_bits_def bit_len.simps Let_def
    round_half_even_def f64_signed_def)

end
