(* ===== verification/Lexer.thy ===== *)
theory Lexer
  imports Floats
begin

text \<open>
  The lexer (\<open>newm2-lexer/src/lib.rs\<close>): the \<open>Lexer\<close> struct is the record \<open>lexer\<close>, every method is
  a function that returns the lexer it leaves behind, and a \<open>Result\<close> is a sum whose left side is
  the \<open>LexError\<close>. The \<open>while let\<close> loops are recursive functions that terminate because each round
  consumes a byte.
\<close>

section \<open>State and character access\<close>

record lexer =
  lx_src :: string
  lx_pos :: position

definition lexer_new :: "string \<Rightarrow> lexer" where
  "lexer_new src = \<lparr>lx_src = src, lx_pos = START\<rparr>"

definition peek :: "lexer \<Rightarrow> char option" where
  "peek l = get_at (lx_src l) (offset (lx_pos l))"

definition peek_at :: "lexer \<Rightarrow> nat \<Rightarrow> char option" where
  "peek_at l ahead = get_at (lx_src l) (offset (lx_pos l) + ahead)"

definition advance :: "lexer \<Rightarrow> lexer" where
  "advance l = (case peek l of None \<Rightarrow> l | Some c \<Rightarrow> l\<lparr>lx_pos := next_pos c (lx_pos l)\<rparr>)"

definition is_ident_start :: "char \<Rightarrow> bool" where
  "is_ident_start c \<longleftrightarrow> is_ascii_alphabetic c \<or> c = CHR ''_''"

definition is_ident_cont :: "char \<Rightarrow> bool" where
  "is_ident_cont c \<longleftrightarrow> is_ascii_alphanumeric c \<or> c = CHR ''_''"

definition mk_token :: "token_kind \<Rightarrow> position \<Rightarrow> lexer \<Rightarrow> token" where
  "mk_token k start l = \<lparr>kind = k, tok_span = \<lparr>span_start = start, span_end = lx_pos l\<rparr>\<rparr>"

text \<open>The source text from byte \<open>a\<close> up to the lexer's position.\<close>

definition text_from :: "nat \<Rightarrow> lexer \<Rightarrow> string" where
  "text_from a l = byte_range (lx_src l) a (offset (lx_pos l))"

definition remaining :: "lexer \<Rightarrow> nat" where
  "remaining l = length (lx_src l) - offset (lx_pos l)"

section \<open>One step of the cursor\<close>

definition lx_step :: "lexer \<Rightarrow> lexer \<Rightarrow> bool" where
  "lx_step l m \<longleftrightarrow> peek l \<noteq> None \<and> m = advance l"

lemma lx_src_advance [simp]: "lx_src (advance l) = lx_src l"
  by (simp add: advance_def split: option.splits)

lemma advance_pos: "peek l = Some c \<Longrightarrow> lx_pos (advance l) = next_pos c (lx_pos l)"
  by (simp add: advance_def)

lemma advance_at_end: "peek l = None \<Longrightarrow> advance l = l"
  by (simp add: advance_def)

lemma offset_advance: "peek l = Some c \<Longrightarrow> offset (lx_pos (advance l)) = Suc (offset (lx_pos l))"
  by (simp add: advance_pos)

lemma remaining_advance: "peek l = Some c \<Longrightarrow> remaining (advance l) < remaining l"
  by (auto simp: remaining_def offset_advance peek_def)

lemma remaining_advance_le: "remaining (advance l) \<le> remaining l"
  by (cases "peek l") (auto simp: advance_at_end dest: remaining_advance)

lemma remaining_advance2: "peek l = Some c \<Longrightarrow> remaining (advance (advance l)) < remaining l"
  by (rule le_less_trans [OF remaining_advance_le remaining_advance])

lemma lx_step_pos:
  "lx_step l m \<Longrightarrow> offset (lx_pos l) < length (lx_src l) \<and>
   lx_pos m = next_pos (lx_src l ! offset (lx_pos l)) (lx_pos l)"
  by (cases "peek l") (auto simp: lx_step_def advance_pos peek_def)

lemma lx_step_src: "lx_step l m \<Longrightarrow> lx_src m = lx_src l"
  by (auto simp: lx_step_def)

interpretation lx: cursor lx_src lx_pos lx_step
  by unfold_locales (auto dest: lx_step_pos lx_step_src)

lemma lx_steps_advance [simp]: "lx_step\<^sup>*\<^sup>* l (advance l)"
  by (cases "peek l") (auto simp: advance_at_end lx_step_def)

lemma lx_steps_adv_trans: "lx_step\<^sup>*\<^sup>* (advance l) m \<Longrightarrow> lx_step\<^sup>*\<^sup>* l m"
  by (rule rtranclp_trans [OF lx_steps_advance])

lemma lx_steps_adv2_trans: "lx_step\<^sup>*\<^sup>* (advance (advance l)) m \<Longrightarrow> lx_step\<^sup>*\<^sup>* l m"
  by (rule lx_steps_adv_trans [OF lx_steps_adv_trans])

lemma lx_steps_remaining: "lx_step\<^sup>*\<^sup>* l m \<Longrightarrow> remaining m \<le> remaining l"
  using lx.steps_src [of l m] lx.steps_offset [of l m] by (simp add: remaining_def)

section \<open>Loops that consume bytes\<close>

text \<open>\<open>while let Some(c) = self.peek() { if P(c) { self.advance(); } else { break; } }\<close>\<close>

function advance_while :: "(char \<Rightarrow> bool) \<Rightarrow> lexer \<Rightarrow> lexer" where
  "advance_while P l =
     (case peek l of
        None \<Rightarrow> l
      | Some c \<Rightarrow> if P c then advance_while P (advance l) else l)"
  by pat_completeness auto
termination
  by (relation "measure (\<lambda>(P, l). remaining l)") (auto dest: remaining_advance)

declare advance_while.simps [simp del]

function comment_loop :: "position \<Rightarrow> nat \<Rightarrow> lexer \<Rightarrow> lex_error + lexer" where
  "comment_loop start depth l =
     (if depth = 0 then Inr l
      else case peek l of
        None \<Rightarrow> Inl (lex_err UnterminatedBlockComment start)
      | Some c \<Rightarrow>
        if c = CHR ''('' \<and> peek_at l 1 = Some CHR ''*''
        then comment_loop start (depth + 1) (advance (advance l))
        else if c = CHR ''*'' \<and> peek_at l 1 = Some CHR ''>''
        then comment_loop start depth (advance l)
        else if c = CHR ''*'' \<and> peek_at l 1 = Some CHR '')''
        then comment_loop start (depth - 1) (advance (advance l))
        else comment_loop start depth (advance l))"
  by pat_completeness auto
termination
  by (relation "measure (\<lambda>(start, depth, l). remaining l)")
     (auto dest: remaining_advance intro: le_less_trans [OF remaining_advance_le])

declare comment_loop.simps [simp del]

definition skip_block_comment :: "lexer \<Rightarrow> lex_error + lexer" where
  "skip_block_comment l = comment_loop (lx_pos l) 1 (advance (advance l))"

lemma advance_while_steps: "lx_step\<^sup>*\<^sup>* l (advance_while P l)"
proof (induction P l rule: advance_while.induct)
  case (1 P l)
  then show ?case
    by (subst advance_while.simps) (auto split: option.split intro: lx_steps_adv_trans)
qed

lemma advance_while_step: "peek l = Some c \<Longrightarrow> P c \<Longrightarrow> advance_while P l = advance_while P (advance l)"
  by (subst advance_while.simps) simp

lemma advance_while_less: "peek l = Some c \<Longrightarrow> P c \<Longrightarrow> remaining (advance_while P l) < remaining l"
  using lx_steps_remaining [OF advance_while_steps [of "advance l" P]] remaining_advance [of l c]
  by (simp add: advance_while_step)

lemma comment_loop_steps: "comment_loop start depth l = Inr m \<Longrightarrow> lx_step\<^sup>*\<^sup>* l m"
proof (induction l arbitrary: depth rule: measure_induct_rule [of remaining])
  case (less l)
  show ?case
  proof (cases "depth = 0")
    case True
    then show ?thesis using less.prems by (simp add: comment_loop.simps [of start 0 l])
  next
    case False
    then obtain c where c: "peek l = Some c"
      using less.prems by (cases "peek l") (auto simp: comment_loop.simps [of start depth l])
    then have "(\<exists>d. comment_loop start d (advance l) = Inr m) \<or>
      (\<exists>d. comment_loop start d (advance (advance l)) = Inr m)"
      using False less.prems by (simp add: comment_loop.simps [of start depth l] split: if_splits) blast+
    then show ?thesis
      using less.IH remaining_advance [OF c] remaining_advance2 [OF c]
        lx_steps_adv_trans [of l m] lx_steps_adv2_trans [of l m] by blast
  qed
qed

lemma skip_block_comment_steps: "skip_block_comment l = Inr m \<Longrightarrow> lx_step\<^sup>*\<^sup>* l m"
  by (auto simp: skip_block_comment_def dest: comment_loop_steps intro: lx_steps_adv2_trans)

lemma skip_block_comment_less:
  "skip_block_comment l = Inr m \<Longrightarrow> peek l = Some c \<Longrightarrow> remaining m < remaining l"
  unfolding skip_block_comment_def
  by (rule le_less_trans [OF lx_steps_remaining [OF comment_loop_steps] remaining_advance2])

function skip_trivia :: "lexer \<Rightarrow> lex_error + lexer" where
  "skip_trivia l =
     (case peek l of
        None \<Rightarrow> Inr l
      | Some c \<Rightarrow>
        if c = CHR '' '' \<or> c = CHR 0x09 \<or> c = CHR 0x0D \<or> c = newline
        then skip_trivia (advance l)
        else if c = CHR ''('' \<and> peek_at l 1 = Some CHR ''*''
        then rbind (skip_block_comment l) skip_trivia
        else if c = CHR ''/'' \<and> peek_at l 1 = Some CHR ''/''
        then skip_trivia (advance_while (\<lambda>d. d \<noteq> newline) l)
        else Inr l)"
  by pat_completeness auto
termination
  by (relation "measure remaining")
     (auto dest: remaining_advance skip_block_comment_less intro: advance_while_less simp: newline_def)

declare skip_trivia.simps [simp del]

section \<open>Pragmas and identifiers\<close>

text \<open>\<open>lex_pragma\<close> after the opening \<open><*\<close>; \<open>body_start\<close> is the offset of the body.\<close>

function pragma_loop :: "position \<Rightarrow> nat \<Rightarrow> lexer \<Rightarrow> lex_error + token \<times> lexer" where
  "pragma_loop start body_start l =
     (case peek l of
        None \<Rightarrow> Inl (lex_err UnterminatedPragma start)
      | Some c \<Rightarrow>
        if c = CHR ''*'' \<and> peek_at l 1 = Some CHR ''>''
        then (let body = from_utf8_or_empty (text_from body_start l);
                  l' = advance (advance l)
              in Inr (mk_token (TPragma body) start l', l'))
        else pragma_loop start body_start (advance l))"
  by pat_completeness auto
termination
  by (relation "measure (\<lambda>(start, b, l). remaining l)") (auto dest: remaining_advance)

declare pragma_loop.simps [simp del]

definition lex_pragma :: "position \<Rightarrow> lexer \<Rightarrow> lex_error + token \<times> lexer" where
  "lex_pragma start l =
     (let l' = advance (advance l) in pragma_loop start (offset (lx_pos l')) l')"

definition lex_ident :: "position \<Rightarrow> lexer \<Rightarrow> token \<times> lexer" where
  "lex_ident start l =
     (let l' = advance_while is_ident_cont l;
          s = text_from (offset start) l';
          k = (case keyword_from_str s of Some kw \<Rightarrow> TKeyword kw | None \<Rightarrow> TIdent s)
      in (mk_token k start l', l'))"

section \<open>Numbers\<close>

definition is_number_run :: "char \<Rightarrow> bool" where
  "is_number_run c \<longleftrightarrow> is_ascii_digit c \<or> (65 \<le> byte c \<and> byte c \<le> 70) \<or> (97 \<le> byte c \<and> byte c \<le> 102)"

definition is_octal_digit :: "char \<Rightarrow> bool" where
  "is_octal_digit c \<longleftrightarrow> 48 \<le> byte c \<and> byte c \<le> 55"

definition lex_hex :: "position \<Rightarrow> string \<Rightarrow> char \<Rightarrow> lexer \<Rightarrow> lex_error + token \<times> lexer" where
  "lex_hex start run c l =
     (let l' = advance l in
      rbind (map_err (\<lambda>e. lex_err (InvalidHex run c e) start) (from_str_radix u64_max 16 run))
        (\<lambda>v. Inr (mk_token (TInteger (of_nat v)) start l', l')))"

definition skip_scale_factor :: "lexer \<Rightarrow> lexer" where
  "skip_scale_factor l =
     (if peek l = Some CHR ''E'' \<or> peek l = Some CHR ''e''
      then (let l1 = advance l;
                l2 = (if peek l1 = Some CHR ''+'' \<or> peek l1 = Some CHR ''-'' then advance l1 else l1)
            in advance_while is_ascii_digit l2)
      else l)"

definition lex_real :: "position \<Rightarrow> string \<Rightarrow> lexer \<Rightarrow> lex_error + token \<times> lexer" where
  "lex_real start run l =
     (if \<not> list_all is_ascii_digit run then Inl (lex_err RealPartNotDecimal start)
      else
        let l' = skip_scale_factor (advance_while is_ascii_digit (advance l));
            s = text_from (offset start) l'
        in rbind (ok_or (lex_err (InvalidReal s) start) (parse_f64 s))
             (\<lambda>v. Inr (mk_token (TReal v) start l', l')))"

definition lex_binary :: "position \<Rightarrow> string \<Rightarrow> string \<Rightarrow> lexer \<Rightarrow> lex_error + token \<times> lexer" where
  "lex_binary start run digits l =
     (if digits = [] then Inl (lex_err EmptyBinary start)
      else if \<not> list_all (\<lambda>b. b = CHR ''0'' \<or> b = CHR ''1'') digits
      then Inl (lex_err (NonBinaryDigit run) start)
      else rbind (map_err (\<lambda>e. lex_err (InvalidBinary run e) start) (from_str_radix u64_max 2 digits))
        (\<lambda>v. Inr (mk_token (TInteger (of_nat v)) start l, l)))"

definition lex_octal :: "position \<Rightarrow> char \<Rightarrow> string \<Rightarrow> string \<Rightarrow> lexer \<Rightarrow> lex_error + token \<times> lexer" where
  "lex_octal start suffix run digits l =
     (if \<not> list_all is_octal_digit digits then Inl (lex_err (NonOctalDigit suffix run) start)
      else if digits = [] then Inl (lex_err (EmptyOctal suffix) start)
      else if suffix = CHR ''B''
      then rbind (map_err (\<lambda>e. lex_err (InvalidOctal run e) start) (from_str_radix u64_max 8 digits))
        (\<lambda>v. Inr (mk_token (TInteger (of_nat v)) start l, l))
      else rbind (map_err (\<lambda>e. lex_err (InvalidCharLiteral run e) start) (from_str_radix u32_max 8 digits))
        (\<lambda>code. rbind (ok_or (lex_err (InvalidCharCode digits code) start) (char_from_u32 code))
          (\<lambda>ch. Inr (mk_token (TChar \<lparr>char_value = ch, char_flavor = FlavorDefault\<rparr>) start l, l))))"

definition suffix_kind :: "char \<Rightarrow> char option" where
  "suffix_kind c =
     (if c = CHR ''B'' \<or> c = CHR ''b'' then Some CHR ''B''
      else if c = CHR ''C'' \<or> c = CHR ''c'' then Some CHR ''C''
      else if c = CHR ''A'' \<or> c = CHR ''a'' then Some CHR ''A''
      else None)"

definition lex_plain_number :: "position \<Rightarrow> string \<Rightarrow> lexer \<Rightarrow> lex_error + token \<times> lexer" where
  "lex_plain_number start run l =
     (case suffix_kind (if run = [] then CHR ''0'' else last run) of
        Some k \<Rightarrow>
          if k = CHR ''A'' then lex_binary start run (butlast run) l
          else lex_octal start k run (butlast run) l
      | None \<Rightarrow>
          if list_all is_ascii_digit run
          then rbind (map_err (\<lambda>e. lex_err (InvalidInteger run e) start) (from_str_radix u64_max 10 run))
            (\<lambda>v. Inr (mk_token (TInteger (of_nat v)) start l, l))
          else Inl (lex_err (HexWithoutSuffix run) start))"

definition lex_number :: "position \<Rightarrow> lexer \<Rightarrow> lex_error + token \<times> lexer" where
  "lex_number start l =
     (let l' = advance_while is_number_run l;
          run = text_from (offset start) l'
      in case peek l' of
           Some c \<Rightarrow>
             if c = CHR ''H'' \<or> c = CHR ''h'' then lex_hex start run c l'
             else if c = CHR ''.'' \<and> peek_at l' 1 \<noteq> Some CHR ''.'' then lex_real start run l'
             else lex_plain_number start run l'
         | None \<Rightarrow> lex_plain_number start run l')"

section \<open>Strings and punctuation\<close>

definition lex_flavor :: "lexer \<Rightarrow> literal_flavor \<times> lexer" where
  "lex_flavor l =
     (if peek l = Some CHR ''U'' \<or> peek l = Some CHR ''u'' then (FlavorUchar, advance l)
      else if peek l = Some CHR ''A'' \<or> peek l = Some CHR ''a'' then (FlavorAchar, advance l)
      else (FlavorDefault, l))"

definition string_token_kind :: "string \<Rightarrow> literal_flavor \<Rightarrow> token_kind" where
  "string_token_kind body flavor =
     (case chars_of body of
        [c] \<Rightarrow> TChar \<lparr>char_value = c, char_flavor = flavor\<rparr>
      | _ \<Rightarrow> TString \<lparr>str_value = body, str_flavor = flavor\<rparr>)"

function string_loop :: "position \<Rightarrow> char \<Rightarrow> nat \<Rightarrow> lexer \<Rightarrow> lex_error + token \<times> lexer" where
  "string_loop start quote body_start l =
     (case peek l of
        None \<Rightarrow> Inl (lex_err UnterminatedString start)
      | Some c \<Rightarrow>
        if c = newline then Inl (lex_err UnterminatedString start)
        else if c = quote
        then (let body = from_utf8_or_empty (text_from body_start l);
                  (flavor, l') = lex_flavor (advance l)
              in Inr (mk_token (string_token_kind body flavor) start l', l'))
        else string_loop start quote body_start (advance l))"
  by pat_completeness auto
termination
  by (relation "measure (\<lambda>(start, q, b, l). remaining l)") (auto dest: remaining_advance)

declare string_loop.simps [simp del]

definition lex_string :: "position \<Rightarrow> char \<Rightarrow> lexer \<Rightarrow> lex_error + token \<times> lexer" where
  "lex_string start quote l =
     (let l' = advance l in string_loop start quote (offset (lx_pos l')) l')"

text \<open>\<open>lex_punct\<close>: the token a byte starts, with the longer token when the next byte continues it.\<close>

definition lex_punct :: "position \<Rightarrow> char \<Rightarrow> lexer \<Rightarrow> lex_error + token \<times> lexer" where
  "lex_punct start c l =
     (let one = (\<lambda>k. Inr (mk_token k start (advance l), advance l));
          two = (\<lambda>k. Inr (mk_token k start (advance (advance l)), advance (advance l)));
          nxt = peek (advance l)
      in if c = CHR ''+'' then one TPlus
         else if c = CHR ''-'' then one TMinus
         else if c = CHR ''*'' then one TStar
         else if c = CHR ''/'' then one TSlash
         else if c = CHR ''&'' then one TAmp
         else if c = CHR ''~'' then one TTilde
         else if c = CHR ''='' then one TEqual
         else if c = CHR ''#'' then one THash
         else if c = CHR ''<''
         then (if nxt = Some CHR ''='' then two TLessEq
               else if nxt = Some CHR ''>'' then two TNotEqual
               else one TLess)
         else if c = CHR ''>''
         then (if nxt = Some CHR ''='' then two TGreaterEq else one TGreater)
         else if c = CHR '':''
         then (if nxt = Some CHR ''='' then two TAssign else one TColon)
         else if c = CHR ''.''
         then (if nxt = Some CHR ''.'' then two TDotDot else one TDot)
         else if c = CHR '','' then one TComma
         else if c = CHR '';'' then one TSemicolon
         else if c = CHR ''('' then one TLParen
         else if c = CHR '')'' then one TRParen
         else if c = CHR ''['' then one TLBracket
         else if c = CHR '']'' then one TRBracket
         else if c = CHR ''{'' then one TLBrace
         else if c = CHR ''}'' then one TRBrace
         else if c = CHR ''|'' then one TPipe
         else if c = CHR ''!'' then one TPipe
         else if c = CHR ''^'' then one TCaret
         else if c = CHR ''@'' then one TAt
         else Inl (lex_err (UnexpectedCharacter c) start))"

section \<open>Tokens and the token stream\<close>

definition lex_token_at :: "lexer \<Rightarrow> lex_error + token \<times> lexer" where
  "lex_token_at l =
     (let start = lx_pos l
      in case peek l of
           None \<Rightarrow> Inr (mk_token TEof start l, l)
         | Some c \<Rightarrow>
           if c = CHR ''<'' \<and> peek_at l 1 = Some CHR ''*'' then lex_pragma start l
           else if is_ident_start c then Inr (lex_ident start l)
           else if is_ascii_digit c then lex_number start l
           else if c = CHR 0x22 \<or> c = CHR 0x27 then lex_string start c l
           else lex_punct start c l)"

definition next_token :: "lexer \<Rightarrow> lex_error + token \<times> lexer" where
  "next_token l = rbind (skip_trivia l) lex_token_at"

section \<open>Every scanner only moves the cursor forward\<close>

named_theorems lex_steps \<open>a scanning function leaves the lexer where advances take it\<close>

declare advance_while_steps [lex_steps] skip_block_comment_steps [lex_steps]

lemma skip_trivia_steps [lex_steps]: "skip_trivia l = Inr m \<Longrightarrow> lx_step\<^sup>*\<^sup>* l m"
proof (induction l rule: measure_induct_rule [of remaining])
  case (less l)
  show ?case
  proof (cases "peek l")
    case None
    then show ?thesis using less.prems by (simp add: skip_trivia.simps [of l])
  next
    case (Some c)
    then consider "m = l" | "skip_trivia (advance l) = Inr m"
      | k where "skip_block_comment l = Inr k" "skip_trivia k = Inr m"
      | "c = CHR ''/''" "skip_trivia (advance_while (\<lambda>d. d \<noteq> newline) l) = Inr m"
      using less.prems by (fastforce simp: skip_trivia.simps [of l] split: if_splits)
    then show ?thesis
    proof cases
      case 2
      then show ?thesis using less.IH remaining_advance [OF Some] by (blast intro: lx_steps_adv_trans)
    next
      case 3
      then show ?thesis
        using less.IH skip_block_comment_less [OF _ Some] skip_block_comment_steps
        by (blast intro: rtranclp_trans)
    next
      case 4
      then have "remaining (advance_while (\<lambda>d. d \<noteq> newline) l) < remaining l"
        using Some by (intro advance_while_less) (auto simp: newline_def)
      then show ?thesis
        using 4 less.IH advance_while_steps by (blast intro: rtranclp_trans)
    qed simp
  qed
qed

lemma pragma_loop_steps [lex_steps]: "pragma_loop start b l = Inr (t, m) \<Longrightarrow> lx_step\<^sup>*\<^sup>* l m"
proof (induction l rule: measure_induct_rule [of remaining])
  case (less l)
  show ?case
    using less.prems less.IH [of "advance l"]
    by (subst (asm) pragma_loop.simps)
       (auto simp: Let_def split: option.splits if_splits dest: remaining_advance
             intro: lx_steps_adv_trans lx_steps_adv2_trans)
qed

lemma skip_scale_factor_steps [lex_steps]: "lx_step\<^sup>*\<^sup>* l (skip_scale_factor l)"
  by (auto simp: skip_scale_factor_def Let_def
      intro: lx_steps_adv_trans lx_steps_adv2_trans advance_while_steps)

lemma lex_flavor_steps [lex_steps]: "lex_flavor l = (f, m) \<Longrightarrow> lx_step\<^sup>*\<^sup>* l m"
  by (auto simp: lex_flavor_def split: if_splits)

lemma string_loop_steps [lex_steps]: "string_loop start q b l = Inr (t, m) \<Longrightarrow> lx_step\<^sup>*\<^sup>* l m"
proof (induction l rule: measure_induct_rule [of remaining])
  case (less l)
  show ?case
    using less.prems less.IH [of "advance l"]
    by (subst (asm) string_loop.simps)
       (auto simp: Let_def split: option.splits if_splits prod.splits dest: remaining_advance
             intro: lx_steps_adv_trans lex_flavor_steps)
qed

lemma lex_real_lexer:
  "lex_real start run l = Inr (t, m) \<Longrightarrow> m = skip_scale_factor (advance_while is_ascii_digit (advance l))"
  by (auto simp: lex_real_def Let_def split: if_splits)

lemma lex_real_steps [lex_steps]: "lex_real start run l = Inr (t, m) \<Longrightarrow> lx_step\<^sup>*\<^sup>* l m"
  using rtranclp_trans [OF rtranclp_trans [OF lx_steps_advance advance_while_steps] skip_scale_factor_steps]
  by (auto dest: lex_real_lexer)

lemma lex_plain_number_stays: "lex_plain_number start run l = Inr (t, m) \<Longrightarrow> m = l"
  by (auto simp: lex_plain_number_def lex_binary_def lex_octal_def Let_def
      split: if_splits option.splits)

lemma lex_number_steps [lex_steps]: "lex_number start l = Inr (t, m) \<Longrightarrow> lx_step\<^sup>*\<^sup>* l m"
  by (auto simp: lex_number_def lex_hex_def Let_def split: option.splits if_splits
      dest!: lex_plain_number_stays lex_real_steps
      intro: rtranclp_trans [OF advance_while_steps] rtranclp_trans [OF advance_while_steps lx_steps_advance]
        advance_while_steps)

lemma lex_punct_steps [lex_steps]: "lex_punct start c l = Inr (t, m) \<Longrightarrow> lx_step\<^sup>*\<^sup>* l m"
proof -
  assume "lex_punct start c l = Inr (t, m)"
  then have "m = advance l \<or> m = advance (advance l)"
    by (simp add: lex_punct_def Let_def split: if_splits)
  then show ?thesis by (auto intro: lx_steps_adv_trans)
qed

lemma lex_token_at_steps [lex_steps]: "lex_token_at l = Inr (t, m) \<Longrightarrow> lx_step\<^sup>*\<^sup>* l m"
  by (auto simp: lex_token_at_def lex_pragma_def lex_ident_def lex_string_def Let_def
      split: option.splits if_splits
      intro: lex_steps lx_steps_adv_trans lx_steps_adv2_trans)

lemma next_token_steps [lex_steps]: "next_token l = Inr (t, m) \<Longrightarrow> lx_step\<^sup>*\<^sup>* l m"
  by (auto simp: next_token_def intro: rtranclp_trans lex_steps)

section \<open>Tokens cover the bytes they were read from\<close>

lemma pragma_loop_span: "pragma_loop start b l = Inr (t, m) \<Longrightarrow>
  tok_span t = \<lparr>span_start = start, span_end = lx_pos m\<rparr> \<and> (\<exists>body. kind t = TPragma body)"
proof (induction l rule: measure_induct_rule [of remaining])
  case (less l)
  show ?case
    using less.prems less.IH [of "advance l"]
    by (subst (asm) pragma_loop.simps)
       (auto simp: Let_def mk_token_def split: option.splits if_splits dest: remaining_advance)
qed

lemma string_token_kind_not_eof: "string_token_kind body f \<noteq> TEof"
  by (simp add: string_token_kind_def split: list.splits)

lemma string_loop_span: "string_loop start q b l = Inr (t, m) \<Longrightarrow>
  tok_span t = \<lparr>span_start = start, span_end = lx_pos m\<rparr> \<and> kind t \<noteq> TEof"
proof (induction l rule: measure_induct_rule [of remaining])
  case (less l)
  show ?case
    using less.prems less.IH [of "advance l"]
    by (subst (asm) string_loop.simps)
       (auto simp: Let_def mk_token_def string_token_kind_not_eof
             split: option.splits if_splits prod.splits dest: remaining_advance)
qed

lemma lex_number_span: "lex_number start l = Inr (t, m) \<Longrightarrow>
  tok_span t = \<lparr>span_start = start, span_end = lx_pos m\<rparr> \<and> kind t \<noteq> TEof"
  by (auto simp: lex_number_def lex_hex_def lex_real_def lex_plain_number_def lex_binary_def
      lex_octal_def mk_token_def Let_def split: option.splits if_splits)

lemma lex_punct_span: "lex_punct start c l = Inr (t, m) \<Longrightarrow>
  tok_span t = \<lparr>span_start = start, span_end = lx_pos m\<rparr> \<and> kind t \<noteq> TEof \<and>
  (m = advance l \<or> m = advance (advance l))"
  by (simp add: lex_punct_def mk_token_def Let_def split: if_splits) auto

lemma lex_token_at_span:
  assumes "lex_token_at l = Inr (t, m)"
  shows "tok_span t = \<lparr>span_start = lx_pos l, span_end = lx_pos m\<rparr>"
  using assms
  by (auto simp: lex_token_at_def lex_pragma_def lex_ident_def lex_string_def Let_def
      split: option.splits if_splits
      dest: pragma_loop_span string_loop_span lex_number_span lex_punct_span)
     (simp_all add: mk_token_def)

lemma lex_token_at_eof: "lex_token_at l = Inr (t, m) \<Longrightarrow> kind t = TEof \<longleftrightarrow> peek l = None"
  by (auto simp: lex_token_at_def lex_pragma_def lex_ident_def lex_string_def Let_def
      split: option.splits if_splits
      dest: pragma_loop_span string_loop_span lex_number_span lex_punct_span)
     (simp_all add: mk_token_def)

lemma lex_number_less:
  assumes "lex_number start l = Inr (t, m)" "peek l = Some c" "is_ascii_digit c"
  shows "remaining m < remaining l"
proof -
  have less: "remaining (advance_while is_number_run l) < remaining l"
    using assms(2,3) by (intro advance_while_less) (auto simp: is_number_run_def)
  from assms(1) have "lx_step\<^sup>*\<^sup>* (advance_while is_number_run l) m"
    by (auto simp: lex_number_def lex_hex_def Let_def split: option.splits if_splits
        dest!: lex_plain_number_stays lex_real_steps)
  from lx_steps_remaining [OF this] less show ?thesis by simp
qed

lemma lex_token_at_less:
  assumes "lex_token_at l = Inr (t, m)" and "peek l = Some c"
  shows "remaining m < remaining l"
proof -
  note adv = remaining_advance [OF assms(2)] remaining_advance2 [OF assms(2)]
  consider "lex_pragma (lx_pos l) l = Inr (t, m)"
    | "is_ident_start c" "lex_ident (lx_pos l) l = (t, m)"
    | "is_ascii_digit c" "lex_number (lx_pos l) l = Inr (t, m)"
    | "lex_string (lx_pos l) c l = Inr (t, m)" | "lex_punct (lx_pos l) c l = Inr (t, m)"
    using assms by (auto simp: lex_token_at_def Let_def split: if_splits)
  then show ?thesis
  proof cases
    case 1
    then show ?thesis using adv
      by (auto simp: lex_pragma_def Let_def dest!: pragma_loop_steps lx_steps_remaining)
  next
    case 2
    then have "is_ident_cont c" by (auto simp: is_ident_start_def is_ident_cont_def is_ascii_alphanumeric_def)
    then show ?thesis using 2 assms(2) advance_while_less by (auto simp: lex_ident_def Let_def)
  next
    case 3
    then show ?thesis using lex_number_less assms(2) by blast
  next
    case 4
    then show ?thesis using adv
      by (auto simp: lex_string_def Let_def dest!: string_loop_steps lx_steps_remaining)
  next
    case 5
    then show ?thesis using adv by (auto dest!: lex_punct_span)
  qed
qed

lemma next_token_less:
  assumes "next_token l = Inr (t, m)" and "kind t \<noteq> TEof"
  shows "remaining m < remaining l"
proof -
  obtain k where k: "skip_trivia l = Inr k" "lex_token_at k = Inr (t, m)"
    using assms(1) by (auto simp: next_token_def)
  then obtain c where "peek k = Some c" using assms(2) lex_token_at_eof by auto
  then have "remaining m < remaining k" using k(2) lex_token_at_less by blast
  then show ?thesis using lx_steps_remaining [OF skip_trivia_steps [OF k(1)]] by simp
qed

section \<open>tokenize\<close>

text \<open>The loop of \<open>tokenize\<close>: push the token, stop after \<open>Eof\<close>.\<close>

function tokens_from :: "lexer \<Rightarrow> lex_error + token list" where
  "tokens_from l =
     rbind (next_token l) (\<lambda>(t, l').
       if kind t = TEof then Inr [t]
       else rbind (tokens_from l') (\<lambda>ts. Inr (t # ts)))"
  by pat_completeness auto
termination
  by (relation "measure remaining") (auto dest: next_token_less)

declare tokens_from.simps [simp del]

definition tokenize :: "string \<Rightarrow> lex_error + token list" where
  "tokenize src = tokens_from (lexer_new src)"

text \<open>The equations that evaluate the lexer on a concrete source (with \<open>rbind_weak_cong\<close>).\<close>

lemmas lex_eval =
  tokenize_def tokens_from.simps next_token_def skip_trivia.simps lex_token_at_def lex_number_def
  lex_ident_def lex_pragma_def pragma_loop.simps lex_string_def string_loop.simps lex_flavor_def
  string_token_kind_def from_utf8_or_empty_def chars_of_def lex_plain_number_def suffix_kind_def
  lex_binary_def lex_octal_def is_octal_digit_def advance_while.simps comment_loop.simps
  skip_block_comment_def lexer_new_def peek_def peek_at_def get_at_def advance_def START_def
  next_pos_def mk_token_def is_ident_start_def is_ident_cont_def is_number_run_def
  ascii_class_defs text_from_def byte_range_def lex_hex_def from_str_radix_def digit_val_def
  lex_punct_def keyword_from_str_def keyword_table_def lex_err_def char_from_u32_def is_scalar_def

end
