(* ===== verification/LexerSpec.thy ===== *)
theory LexerSpec
  imports Lexer
begin

text \<open>
  What the token stream promises (\<open>newm2-lexer/src/lib.rs\<close>): its shape, the position of every
  span and error, the text and the value of identifiers, keywords and integers, and the round
  trip from a spelled-out list of tokens. The proofs view a lexer as the suffix of the source
  it has not consumed yet.
\<close>

section \<open>The suffix view\<close>

definition rest :: "lexer \<Rightarrow> string" where
  "rest l = drop (offset (lx_pos l)) (lx_src l)"

lemma peek_rest: "peek l = (case rest l of [] \<Rightarrow> None | c # _ \<Rightarrow> Some c)"
  by (auto simp: peek_def rest_def get_at_def Cons_nth_drop_Suc [symmetric] split: list.split)

lemma peek_at_rest: "peek_at l k = get_at (rest l) k"
  by (auto simp: peek_at_def rest_def get_at_def)

lemma rest_advance [simp]: "rest (advance l) = tl (rest l)"
proof (cases "peek l")
  case None
  then show ?thesis by (simp add: advance_at_end rest_def peek_def)
next
  case (Some c)
  then show ?thesis
    by (simp add: rest_def advance_pos drop_Suc drop_tl)
qed

lemma rest_advance_while [simp]: "rest (advance_while P l) = dropWhile P (rest l)"
proof (induction P l rule: advance_while.induct)
  case (1 P l)
  show ?case
    by (subst advance_while.simps) (use 1 in \<open>auto simp: peek_rest split: list.split\<close>)
qed

lemma lx_src_advance_while [simp]: "lx_src (advance_while P l) = lx_src l"
  by (rule lx.steps_src [OF advance_while_steps])

lemma offset_advance_while:
  "offset (lx_pos (advance_while P l)) = offset (lx_pos l) + length (takeWhile P (rest l))"
proof (induction P l rule: advance_while.induct)
  case (1 P l)
  show ?case
    by (subst advance_while.simps) (use 1 in \<open>auto simp: peek_rest offset_advance split: list.split\<close>)
qed

lemma text_advance_while:
  "text_from (offset (lx_pos l)) (advance_while P l) = takeWhile P (rest l)"
  by (simp add: text_from_def byte_range_def offset_advance_while rest_def takeWhile_eq_take [symmetric])

lemma rest_new [simp]: "rest (lexer_new src) = src"
  by (simp add: rest_def lexer_new_def)

lemma lx_new [simp]: "lx_src (lexer_new src) = src" "lx_pos (lexer_new src) = START"
  by (simp_all add: lexer_new_def)

section \<open>Where tokens and errors come from\<close>

lemma tokens_from_source:
  "tokens_from l = Inr ts \<Longrightarrow> t \<in> set ts \<Longrightarrow>
   \<exists>k m. lx_step\<^sup>*\<^sup>* l k \<and> lex_token_at k = Inr (t, m)"
proof (induction l arbitrary: ts rule: tokens_from.induct)
  case (1 l)
  from "1.prems"(1) obtain u m where u: "next_token l = Inr (u, m)"
    by (subst (asm) tokens_from.simps) auto
  then obtain k where k: "skip_trivia l = Inr k" "lex_token_at k = Inr (u, m)"
    by (auto simp: next_token_def)
  show ?case
  proof (cases "t = u")
    case True
    then show ?thesis using k skip_trivia_steps by blast
  next
    case False
    then obtain us where us: "tokens_from m = Inr us" "t \<in> set us" "kind u \<noteq> TEof"
      using "1.prems" u by (subst (asm) tokens_from.simps) (auto split: if_splits)
    from "1.IH" [OF u refl us(3,1,2)] show ?thesis
      using next_token_steps [OF u] by (blast intro: rtranclp_trans)
  qed
qed

text \<open>The stream is a chain: every span is located, non-empty and starts where the last ended.\<close>

fun token_chain :: "string \<Rightarrow> nat \<Rightarrow> token list \<Rightarrow> bool" where
  "token_chain src a [] = False"
| "token_chain src a (t # ts) =
     (located src (span_start (tok_span t)) \<and> located src (span_end (tok_span t)) \<and>
      a \<le> offset (span_start (tok_span t)) \<and>
      (if kind t = TEof
       then ts = [] \<and> tok_span t = \<lparr>span_start = pos_at src (length src), span_end = pos_at src (length src)\<rparr>
       else offset (span_start (tok_span t)) < offset (span_end (tok_span t)) \<and>
            token_chain src (offset (span_end (tok_span t))) ts))"

lemma tokens_from_chain:
  "tokens_from l = Inr ts \<Longrightarrow> located (lx_src l) (lx_pos l) \<Longrightarrow>
   token_chain (lx_src l) (offset (lx_pos l)) ts"
proof (induction l arbitrary: ts rule: tokens_from.induct)
  case (1 l)
  from "1.prems"(1) obtain t m where t: "next_token l = Inr (t, m)"
    by (subst (asm) tokens_from.simps) auto
  then obtain k where k: "skip_trivia l = Inr k" "lex_token_at k = Inr (t, m)"
    by (auto simp: next_token_def)
  note lk = skip_trivia_steps [OF k(1)] and km = lex_token_at_steps [OF k(2)]
  have loc: "located (lx_src l) (lx_pos k)" "located (lx_src l) (lx_pos m)"
    using lx.steps_located [OF lk "1.prems"(2)] lx.steps_src [OF lk]
      lx.steps_located [OF km] lx.steps_src [OF km] by auto
  have off: "offset (lx_pos l) \<le> offset (lx_pos k)" "offset (lx_pos k) \<le> offset (lx_pos m)"
    using lx.steps_offset lk km by auto
  have sp: "tok_span t = \<lparr>span_start = lx_pos k, span_end = lx_pos m\<rparr>"
    by (rule lex_token_at_span [OF k(2)])
  show ?case
  proof (cases "kind t = TEof")
    case True
    then have "peek k = None" and "ts = [t]"
      using lex_token_at_eof [OF k(2)] "1.prems"(1) t by (auto simp: tokens_from.simps [of l])
    moreover from this have "m = k" using k(2) by (simp add: lex_token_at_def Let_def)
    ultimately show ?thesis
      using True loc off sp lx.steps_src [OF lk] by (auto simp: located_def peek_def)
  next
    case False
    then obtain us where us: "tokens_from m = Inr us" "ts = t # us"
      using "1.prems"(1) t by (auto simp: tokens_from.simps [of l])
    have "lx_src m = lx_src l" using lx.steps_src lk km by metis
    then have "token_chain (lx_src l) (offset (lx_pos m)) us"
      using "1.IH" [OF t refl False us(1)] loc by simp
    moreover have "offset (lx_pos k) < offset (lx_pos m)"
    proof -
      obtain c where "peek k = Some c" using False lex_token_at_eof [OF k(2)] by auto
      then have "remaining m < remaining k" using lex_token_at_less k(2) by blast
      then show ?thesis using lx.steps_src [OF km] by (simp add: remaining_def)
    qed
    ultimately show ?thesis using False loc off sp us by simp
  qed
qed

lemma token_chain_shape:
  "token_chain src a ts \<Longrightarrow>
   (\<exists>us e. ts = us @ [e] \<and> kind e = TEof \<and> (\<forall>u \<in> set us. kind u \<noteq> TEof))"
proof (induction src a ts rule: token_chain.induct)
  case (2 src a t ts)
  show ?case
  proof (cases "kind t = TEof")
    case True
    then show ?thesis using 2 by (intro exI [of _ "[]"]) auto
  next
    case False
    then obtain us e where "ts = us @ [e]" "kind e = TEof" "\<forall>u \<in> set us. kind u \<noteq> TEof"
      using 2 by auto
    then show ?thesis using False by (intro exI [of _ "t # us"]) auto
  qed
qed simp

lemma comment_loop_err: "comment_loop start depth l = Inl e \<Longrightarrow> err_position e = start"
proof (induction l arbitrary: depth rule: measure_induct_rule [of remaining])
  case (less l)
  then obtain d where d: "depth = Suc d"
    by (cases depth) (auto simp: comment_loop.simps [of start 0 l])
  show ?case
  proof (cases "peek l")
    case None
    then show ?thesis using less.prems d by (auto simp: comment_loop.simps [of start "Suc d" l] lex_err_def)
  next
    case (Some c)
    then have "(\<exists>d. comment_loop start d (advance l) = Inl e) \<or>
      (\<exists>d. comment_loop start d (advance (advance l)) = Inl e)"
      using d less.prems by (simp add: comment_loop.simps [of start "Suc d" l] split: if_splits) blast+
    then show ?thesis
      using less.IH remaining_advance [OF Some] remaining_advance2 [OF Some] by blast
  qed
qed

lemma skip_trivia_err: "skip_trivia l = Inl e \<Longrightarrow> \<exists>k. lx_step\<^sup>*\<^sup>* l k \<and> err_position e = lx_pos k"
proof (induction l rule: measure_induct_rule [of remaining])
  case (less l)
  then obtain c where c: "peek l = Some c"
    by (cases "peek l") (auto simp: skip_trivia.simps [of l])
  consider "skip_trivia (advance l) = Inl e" | "skip_block_comment l = Inl e"
    | k where "skip_block_comment l = Inr k" "skip_trivia k = Inl e"
    | "c = CHR ''/''" "skip_trivia (advance_while (\<lambda>d. d \<noteq> newline) l) = Inl e"
    using less.prems c by (fastforce simp: skip_trivia.simps [of l] rbind_eq_Inl split: if_splits)
  then show ?case
  proof cases
    case 1
    then show ?thesis using less.IH remaining_advance [OF c] by (blast intro: lx_steps_adv_trans)
  next
    case 2
    then have "err_position e = lx_pos l" by (auto simp: skip_block_comment_def dest: comment_loop_err)
    then show ?thesis by blast
  next
    case 3
    then show ?thesis
      using less.IH skip_block_comment_less [OF _ c] skip_block_comment_steps
      by (blast intro: rtranclp_trans)
  next
    case 4
    then have "remaining (advance_while (\<lambda>d. d \<noteq> newline) l) < remaining l"
      using c by (intro advance_while_less) (auto simp: newline_def)
    then show ?thesis using 4 less.IH advance_while_steps by (blast intro: rtranclp_trans)
  qed
qed

lemma pragma_loop_err: "pragma_loop start b l = Inl e \<Longrightarrow> err_position e = start"
proof (induction l rule: measure_induct_rule [of remaining])
  case (less l)
  show ?case
    using less.prems less.IH [of "advance l"]
    by (subst (asm) pragma_loop.simps)
       (auto simp: Let_def lex_err_def split: option.splits if_splits dest: remaining_advance)
qed

lemma string_loop_err: "string_loop start q b l = Inl e \<Longrightarrow> err_position e = start"
proof (induction l rule: measure_induct_rule [of remaining])
  case (less l)
  show ?case
    using less.prems less.IH [of "advance l"]
    by (subst (asm) string_loop.simps)
       (auto simp: Let_def lex_err_def split: option.splits if_splits prod.splits dest: remaining_advance)
qed

lemma map_err_Inl_iff: "map_err f r = Inl e \<longleftrightarrow> (\<exists>x. r = Inl x \<and> e = f x)"
  by (cases r) auto

lemma ok_or_Inl_iff: "ok_or e x = Inl y \<longleftrightarrow> x = None \<and> y = e"
  by (cases x) auto

lemma lex_number_err: "lex_number start l = Inl e \<Longrightarrow> err_position e = start"
  by (auto simp: lex_number_def lex_hex_def lex_real_def lex_plain_number_def lex_binary_def
      lex_octal_def lex_err_def Let_def rbind_eq_Inl map_err_Inl_iff ok_or_Inl_iff
      split: option.splits if_splits)

lemma lex_punct_err: "lex_punct start c l = Inl e \<Longrightarrow> err_position e = start"
  by (simp add: lex_punct_def lex_err_def Let_def split: if_splits) auto

lemma lex_token_at_err: "lex_token_at l = Inl e \<Longrightarrow> err_position e = lx_pos l"
  by (auto simp: lex_token_at_def lex_pragma_def lex_ident_def lex_string_def Let_def
      split: option.splits if_splits
      dest: pragma_loop_err string_loop_err lex_number_err lex_punct_err)

lemma tokens_from_err:
  "tokens_from l = Inl e \<Longrightarrow> \<exists>k. lx_step\<^sup>*\<^sup>* l k \<and> err_position e = lx_pos k"
proof (induction l rule: tokens_from.induct)
  case (1 l)
  show ?case
  proof (cases "next_token l")
    case (Inl e')
    then have "e' = e" using "1.prems" by (simp add: tokens_from.simps [of l])
    with Inl show ?thesis
      using skip_trivia_err lex_token_at_err skip_trivia_steps
      by (fastforce simp: next_token_def rbind_eq_Inl)
  next
    case (Inr tm)
    obtain t m where tm: "tm = (t, m)" by (cases tm)
    then have "kind t \<noteq> TEof" "tokens_from m = Inl e"
      using "1.prems" Inr by (auto simp: tokens_from.simps [of l] rbind_eq_Inl split: if_splits)
    then show ?thesis
      using "1.IH" [OF Inr] tm next_token_steps [of l t m] Inr by (blast intro: rtranclp_trans)
  qed
qed

section \<open>Text and value of a token\<close>

lemma pragma_loop_kind: "pragma_loop start b l = Inr (t, m) \<Longrightarrow> \<exists>body. kind t = TPragma body"
  using pragma_loop_span by blast

lemma string_token_kind_cases:
  "(\<exists>c. string_token_kind body f = TChar c) \<or> (\<exists>s. string_token_kind body f = TString s)"
  by (simp add: string_token_kind_def split: list.splits)

lemma string_loop_kind:
  "string_loop start q b l = Inr (t, m) \<Longrightarrow> (\<exists>c. kind t = TChar c) \<or> (\<exists>s. kind t = TString s)"
proof (induction l rule: measure_induct_rule [of remaining])
  case (less l)
  show ?case
    using less.prems less.IH [of "advance l"] string_token_kind_cases
    by (subst (asm) string_loop.simps)
       (fastforce simp: Let_def mk_token_def split: option.splits if_splits prod.splits
             dest: remaining_advance)
qed

lemma lex_number_kind: "lex_number start l = Inr (t, m) \<Longrightarrow>
  (\<exists>v. kind t = TInteger v) \<or> (\<exists>v. kind t = TReal v) \<or> (\<exists>v. kind t = TChar v)"
  by (auto simp: lex_number_def lex_hex_def lex_real_def lex_plain_number_def lex_binary_def
      lex_octal_def mk_token_def Let_def split: option.splits if_splits)

lemma lex_punct_kind: "lex_punct start c l = Inr (t, m) \<Longrightarrow>
  kind t \<noteq> TInteger v \<and> kind t \<noteq> TIdent s \<and> kind t \<noteq> TKeyword k"
  by (simp add: lex_punct_def mk_token_def Let_def split: if_splits) auto

lemma lex_token_at_ident:
  assumes "lex_token_at l = Inr (t, m)" and "\<exists>s k. kind t = TIdent s \<or> kind t = TKeyword k"
  shows "(\<exists>c. peek l = Some c \<and> is_ident_start c) \<and> lex_ident (lx_pos l) l = (t, m)"
  using assms
  by (auto simp: lex_token_at_def lex_pragma_def lex_string_def Let_def mk_token_def
      split: option.splits if_splits
      dest: pragma_loop_kind string_loop_kind lex_number_kind lex_punct_kind)

lemma lex_token_at_integer:
  assumes "lex_token_at l = Inr (t, m)" and "kind t = TInteger v"
  shows "(\<exists>c. peek l = Some c \<and> is_ascii_digit c) \<and> lex_number (lx_pos l) l = Inr (t, m)"
  using assms
  by (auto simp: lex_token_at_def lex_pragma_def lex_ident_def lex_string_def Let_def mk_token_def
      split: option.splits if_splits
      dest: pragma_loop_kind string_loop_kind lex_punct_kind)

lemma is_ident_start_cont: "is_ident_start c \<Longrightarrow> is_ident_cont c"
  by (auto simp: is_ident_start_def is_ident_cont_def is_ascii_alphanumeric_def)

text \<open>The text a token was read from.\<close>

definition token_text :: "string \<Rightarrow> token \<Rightarrow> string" where
  "token_text src t =
     byte_range src (offset (span_start (tok_span t))) (offset (span_end (tok_span t)))"

definition ident_shape :: "string \<Rightarrow> bool" where
  "ident_shape s \<longleftrightarrow> s \<noteq> [] \<and> is_ident_start (hd s) \<and> list_all is_ident_cont s"

lemma lex_ident_text:
  assumes "lex_ident (lx_pos l) l = (t, m)" "peek l = Some c" "is_ident_start c"
  shows "ident_shape (takeWhile is_ident_cont (rest l)) \<and>
    token_text (lx_src l) t = takeWhile is_ident_cont (rest l) \<and>
    kind t = (case keyword_from_str (takeWhile is_ident_cont (rest l)) of
      Some kw \<Rightarrow> TKeyword kw | None \<Rightarrow> TIdent (takeWhile is_ident_cont (rest l)))"
proof -
  obtain r where r: "rest l = c # r" using assms(2) by (auto simp: peek_rest split: list.splits)
  have "token_text (lx_src l) t = text_from (offset (lx_pos l)) (advance_while is_ident_cont l)"
    using assms(1) by (auto simp: lex_ident_def Let_def mk_token_def token_text_def text_from_def)
  moreover have "ident_shape (takeWhile is_ident_cont (rest l))"
    using r assms(3) is_ident_start_cont [OF assms(3)]
    by (auto simp: ident_shape_def list_all_iff dest: set_takeWhileD)
  ultimately show ?thesis
    using assms(1)
    by (auto simp: lex_ident_def Let_def mk_token_def text_advance_while split: option.split)
qed

text \<open>The value the language gives to the text of an integer literal.\<close>

definition literal_value :: "string \<Rightarrow> nat" where
  "literal_value s =
     (if last s \<in> {CHR ''H'', CHR ''h''} then positional 16 (butlast s)
      else if last s \<in> {CHR ''B'', CHR ''b''} then positional 8 (butlast s)
      else if last s \<in> {CHR ''A'', CHR ''a''} then positional 2 (butlast s)
      else positional 10 s)"

lemma digit_run_plain:
  assumes "list_all is_ascii_digit s" "s \<noteq> []"
  shows "last s \<notin> {CHR ''H'', CHR ''h'', CHR ''B'', CHR ''b'', CHR ''A'', CHR ''a''}"
proof -
  have "is_ascii_digit (last s)" using assms by (simp add: list_all_iff)
  then show ?thesis by (auto simp: ascii_simps)
qed

lemma from_str_radix_run:
  assumes "from_str_radix maxv radix s = Inr v" "0 < radix" "s \<noteq> []" "list_all is_number_run s"
  shows "v = positional radix s \<and> v \<le> maxv"
proof -
  have "is_number_run (hd s)" using assms(3,4) by (cases s) auto
  then have "hd s \<noteq> CHR ''+''" "hd s \<noteq> CHR ''-''" by (auto simp: is_number_run_def ascii_simps)
  then show ?thesis using from_str_radix_iff [of radix s maxv v] assms by blast
qed

lemma text_from_advance:
  "peek l = Some c \<Longrightarrow> a \<le> offset (lx_pos l) \<Longrightarrow> text_from a (advance l) = text_from a l @ [c]"
  by (auto simp: text_from_def offset_advance peek_def byte_range_Suc)

lemma number_text:
  assumes "l' = advance_while is_number_run l" "run = takeWhile is_number_run (rest l)"
  shows "text_from (offset (lx_pos l)) l' = run"
    and "peek l' = Some c \<Longrightarrow> text_from (offset (lx_pos l)) (advance l') = run @ [c]"
  using assms text_advance_while text_from_advance [of l' c "offset (lx_pos l)"]
  by (auto simp: offset_advance_while)

lemma mk_token_text: "token_text src (mk_token k p m) = byte_range src (offset p) (offset (lx_pos m))"
  by (simp add: token_text_def mk_token_def)

lemma kind_mk_token [simp]: "kind (mk_token k p m) = k"
  by (simp add: mk_token_def)

lemma unat_of_u64: "v \<le> u64_max \<Longrightarrow> unat (of_nat v :: u64) = v"
  by (simp add: unat_of_nat)

lemma lex_hex_value:
  assumes "lex_hex start run c l = Inr (t, m)" "kind t = TInteger v"
    "c = CHR ''H'' \<or> c = CHR ''h''" "run \<noteq> []" "list_all is_number_run run"
  shows "unat v = literal_value (run @ [c])"
proof -
  from assms(1,2) obtain n where n: "from_str_radix u64_max 16 run = Inr n" "v = of_nat n"
    by (auto simp: lex_hex_def Let_def)
  then show ?thesis
    using from_str_radix_run [OF n(1) _ assms(4,5)] assms(3) unat_of_u64 by (auto simp: literal_value_def)
qed

lemma suffix_kind_last:
  "suffix_kind c = Some k \<Longrightarrow>
   (k = CHR ''A'' \<and> c \<in> {CHR ''A'', CHR ''a''}) \<or> (k = CHR ''B'' \<and> c \<in> {CHR ''B'', CHR ''b''}) \<or>
   (k = CHR ''C'' \<and> c \<in> {CHR ''C'', CHR ''c''})"
  by (auto simp: suffix_kind_def split: if_splits)

lemma lex_plain_number_value:
  assumes "lex_plain_number start run l = Inr (t, m)" "kind t = TInteger v"
    "run \<noteq> []" "list_all is_number_run run"
  shows "unat v = literal_value run"
proof (cases "suffix_kind (last run)")
  case None
  then obtain n where n: "from_str_radix u64_max 10 run = Inr n" "v = of_nat n" "list_all is_ascii_digit run"
    using assms by (auto simp: lex_plain_number_def split: if_splits)
  then show ?thesis
    using from_str_radix_run [OF n(1) _ assms(3,4)] digit_run_plain [OF n(3) assms(3)] unat_of_u64
    by (auto simp: literal_value_def)
next
  case (Some k)
  have all: "list_all is_number_run (butlast run)"
    using assms(4) by (auto simp: list_all_iff dest: in_set_butlastD)
  show ?thesis
  proof (cases "k = CHR ''A''")
    case True
    then obtain n where n: "from_str_radix u64_max 2 (butlast run) = Inr n" "v = of_nat n" "butlast run \<noteq> []"
      using assms Some by (auto simp: lex_plain_number_def lex_binary_def split: if_splits)
    then show ?thesis
      using from_str_radix_run [OF n(1) _ n(3) all] suffix_kind_last [OF Some] True unat_of_u64
      by (auto simp: literal_value_def)
  next
    case False
    then obtain n where n: "k = CHR ''B''" "from_str_radix u64_max 8 (butlast run) = Inr n" "v = of_nat n"
      "butlast run \<noteq> []"
      using assms Some by (auto simp: lex_plain_number_def lex_octal_def split: if_splits)
    then show ?thesis
      using from_str_radix_run [OF n(2) _ n(4) all] suffix_kind_last [OF Some] unat_of_u64
      by (auto simp: literal_value_def)
  qed
qed

lemma lex_real_not_integer: "lex_real start run l = Inr (t, m) \<Longrightarrow> kind t \<noteq> TInteger v"
  by (auto simp: lex_real_def Let_def split: if_splits)

lemma lex_number_value:
  assumes "lex_number (lx_pos l) l = Inr (t, m)" "kind t = TInteger v"
    and "peek l = Some c" "is_ascii_digit c"
  shows "unat v = literal_value (token_text (lx_src l) t)"
proof -
  define l' where "l' = advance_while is_number_run l"
  define run where "run = takeWhile is_number_run (rest l)"
  have run: "run \<noteq> []" "list_all is_number_run run"
    using assms(3,4)
    by (auto simp: run_def peek_rest is_number_run_def list_all_iff split: list.splits dest: set_takeWhileD)
  have tx: "text_from (offset (lx_pos l)) l' = run" and src: "lx_src l' = lx_src l"
    by (simp_all add: number_text [OF l'_def run_def]) (simp add: l'_def)
  consider (hex) d where "peek l' = Some d" "d = CHR ''H'' \<or> d = CHR ''h''" "lex_hex (lx_pos l) run d l' = Inr (t, m)"
    | (plain) "lex_plain_number (lx_pos l) run l' = Inr (t, m)"
    using assms(1,2) tx lex_real_not_integer
    by (fastforce simp: lex_number_def Let_def l'_def [symmetric] split: option.splits if_splits)
  then show ?thesis
  proof cases
    case hex
    then have "token_text (lx_src l) t = run @ [d]"
      using number_text(2) [OF l'_def run_def hex(1)] src
      by (auto simp: lex_hex_def Let_def mk_token_text text_from_def)
    then show ?thesis using lex_hex_value [OF hex(3) assms(2) hex(2) run] by simp
  next
    case plain
    then have "token_text (lx_src l) t = run"
      using lex_plain_number_stays [OF plain] tx src
      by (auto simp: lex_plain_number_def lex_binary_def lex_octal_def mk_token_text text_from_def
          split: option.splits if_splits)
    then show ?thesis using lex_plain_number_value [OF plain assms(2) run] by simp
  qed
qed

section \<open>Spelling tokens\<close>

text \<open>
  A spelling for identifiers, keywords, integers and punctuation. \<open>None\<close> marks what has none
  here: \<open>Eof\<close>, reals, quoted literals, pragmas, and names the lexer could not return.
\<close>

fun spell :: "token_kind \<Rightarrow> string option" where
  "spell (TIdent s) = (if ident_shape s \<and> keyword_from_str s = None then Some s else None)"
| "spell (TKeyword k) = Some (as_str k)"
| "spell (TInteger v) = Some (dec (unat v))"
| "spell (TReal _) = None"
| "spell (TChar _) = None"
| "spell (TString _) = None"
| "spell (TPragma _) = None"
| "spell TPlus = Some ''+''"
| "spell TMinus = Some ''-''"
| "spell TStar = Some ''*''"
| "spell TSlash = Some ''/''"
| "spell TAmp = Some ''&''"
| "spell TTilde = Some ''~''"
| "spell TEqual = Some ''=''"
| "spell THash = Some ''#''"
| "spell TLess = Some ''<''"
| "spell TLessEq = Some ''<=''"
| "spell TGreater = Some ''>''"
| "spell TGreaterEq = Some ''>=''"
| "spell TNotEqual = Some ''<>''"
| "spell TAssign = Some '':=''"
| "spell TDot = Some ''.''"
| "spell TDotDot = Some ''..''"
| "spell TComma = Some '',''"
| "spell TSemicolon = Some '';''"
| "spell TColon = Some '':''"
| "spell TLParen = Some ''(''"
| "spell TRParen = Some '')''"
| "spell TLBracket = Some ''[''"
| "spell TRBracket = Some '']''"
| "spell TLBrace = Some ''{''"
| "spell TRBrace = Some ''}''"
| "spell TPipe = Some ''|''"
| "spell TCaret = Some ''^''"
| "spell TAt = Some ''@''"
| "spell TEof = None"

definition spell_all :: "token_kind list \<Rightarrow> string" where
  "spell_all ks = concat (map (\<lambda>k. the (spell k) @ '' '') ks)"

definition is_blank :: "char \<Rightarrow> bool" where
  "is_blank c \<longleftrightarrow> c = CHR '' '' \<or> c = CHR 0x09 \<or> c = CHR 0x0D \<or> c = newline"

lemma skip_trivia_blank: "rest l = c # r \<Longrightarrow> is_blank c \<Longrightarrow> skip_trivia l = skip_trivia (advance l)"
  by (subst skip_trivia.simps) (auto simp: peek_rest is_blank_def)

lemma skip_trivia_stop:
  assumes "rest l = c # r" "\<not> is_blank c" "c \<noteq> CHR ''('' \<or> get_at r 0 \<noteq> Some CHR ''*''"
    "c \<noteq> CHR ''/'' \<or> get_at r 0 \<noteq> Some CHR ''/''"
  shows "skip_trivia l = Inr l"
  using assms by (subst skip_trivia.simps) (auto simp: peek_rest peek_at_rest is_blank_def get_at_def)

lemma next_token_at:
  assumes "rest l = c # r" "\<not> is_blank c" "c \<noteq> CHR ''('' \<or> get_at r 0 \<noteq> Some CHR ''*''"
    "c \<noteq> CHR ''/'' \<or> get_at r 0 \<noteq> Some CHR ''/''"
  shows "next_token l = lex_token_at l"
  by (simp add: next_token_def skip_trivia_stop [OF assms])

lemma ident_start_other: "is_ident_start c \<Longrightarrow> \<not> is_blank c \<and> c \<noteq> CHR ''('' \<and> c \<noteq> CHR ''/'' \<and> c \<noteq> CHR ''<''"
  by (auto simp: is_ident_start_def is_blank_def ascii_simps)

lemma digit_other:
  "is_ascii_digit c \<Longrightarrow> \<not> is_blank c \<and> c \<noteq> CHR ''('' \<and> c \<noteq> CHR ''/'' \<and> c \<noteq> CHR ''<'' \<and> \<not> is_ident_start c"
  by (auto simp: is_ident_start_def is_blank_def ascii_simps)

lemma ident_text_stops:
  "ident_shape s \<Longrightarrow> rest l = s @ CHR '' '' # r \<Longrightarrow>
   takeWhile is_ident_cont (rest l) = s \<and> dropWhile is_ident_cont (rest l) = CHR '' '' # r"
  by (simp add: ident_shape_def list_all_iff takeWhile_append dropWhile_append)
     (simp add: is_ident_cont_def ascii_simps)

lemma next_token_ident:
  assumes "ident_shape s" and "rest l = s @ CHR '' '' # r"
  shows "\<exists>t m. next_token l = Inr (t, m) \<and> rest m = CHR '' '' # r \<and>
    kind t = (case keyword_from_str s of Some kw \<Rightarrow> TKeyword kw | None \<Rightarrow> TIdent s)"
proof -
  obtain c s' where s: "s = c # s'" "is_ident_start c" using assms(1) by (cases s) (auto simp: ident_shape_def)
  have "next_token l = lex_token_at l"
    using assms(2) s ident_start_other [OF s(2)] by (intro next_token_at [of l c "s' @ CHR '' '' # r"]) auto
  also have "\<dots> = Inr (lex_ident (lx_pos l) l)"
    using assms(2) s ident_start_other [OF s(2)] by (simp add: lex_token_at_def peek_rest)
  finally show ?thesis
    using ident_text_stops [OF assms]
    by (cases "lex_ident (lx_pos l) l") (auto simp: lex_ident_def Let_def text_advance_while split: option.split)
qed

lemma ident_shape_keyword: "ident_shape (as_str k)"
  by (cases k) (simp_all add: ident_shape_def is_ident_start_def is_ident_cont_def
    is_ascii_alphanumeric_def is_ascii_alphabetic_def is_ascii_upper_def byte_def)

lemma next_token_number:
  assumes "s \<noteq> []" "list_all is_ascii_digit s" and "rest l = s @ CHR '' '' # r"
    and "positional 10 s \<le> u64_max"
  shows "\<exists>t m. next_token l = Inr (t, m) \<and> rest m = CHR '' '' # r \<and>
    kind t = TInteger (of_nat (positional 10 s))"
proof -
  obtain c s' where s: "s = c # s'" "is_ascii_digit c" using assms(1,2) by (cases s) auto
  have dig: "list_all is_number_run s" using assms(2) by (auto simp: list_all_iff is_number_run_def)
  have tk: "takeWhile is_number_run (rest l) = s" "dropWhile is_number_run (rest l) = CHR '' '' # r"
    using dig assms(3)
    by (auto simp: list_all_iff takeWhile_append dropWhile_append) (auto simp: is_number_run_def ascii_simps)
  have suf: "suffix_kind (last s) = None"
    using digit_run_plain [OF assms(2,1)] assms(2) last_in_set [OF assms(1)]
    by (auto simp: suffix_kind_def list_all_iff ascii_simps)
  have hd: "hd s \<noteq> CHR ''+''" "hd s \<noteq> CHR ''-''" using s by (auto simp: ascii_simps)
  have val: "\<forall>c \<in> set s. digit_val 10 c \<noteq> None"
    using assms(2) by (auto simp: list_all_iff digit_val_def is_ascii_digit_def)
  have "from_str_radix u64_max 10 s = Inr (positional 10 s)"
    using from_str_radix_iff [of 10 s u64_max "positional 10 s"] assms(1,4) hd val by simp
  then have num: "lex_plain_number (lx_pos l) s (advance_while is_number_run l) =
    Inr (mk_token (TInteger (of_nat (positional 10 s))) (lx_pos l) (advance_while is_number_run l),
         advance_while is_number_run l)"
    using suf assms(1,2) by (simp add: lex_plain_number_def)
  have "next_token l = lex_token_at l"
    using assms(3) s digit_other [OF s(2)] by (intro next_token_at [of l c "s' @ CHR '' '' # r"]) auto
  also have "\<dots> = lex_number (lx_pos l) l"
    using assms(3) s digit_other [OF s(2)] by (simp add: lex_token_at_def peek_rest)
  also have "\<dots> = lex_plain_number (lx_pos l) s (advance_while is_number_run l)"
    using tk by (simp add: lex_number_def Let_def peek_rest text_advance_while)
  finally show ?thesis using num tk by simp
qed

lemma next_token_spell:
  assumes "spell k = Some s" and "rest l = s @ CHR '' '' # r"
  shows "\<exists>t m. next_token l = Inr (t, m) \<and> kind t = k \<and> rest m = CHR '' '' # r"
proof -
  note punct = next_token_at is_blank_def newline_def lex_token_at_def peek_rest peek_at_rest get_at_def
    is_ident_start_def lex_punct_def
  show ?thesis
  proof (cases k)
    case (TIdent n)
    then show ?thesis using next_token_ident [of s l r] assms by (auto split: if_splits)
  next
    case (TKeyword kw)
    then show ?thesis
      using next_token_ident [of s l r] assms ident_shape_keyword keyword_as_str_from_str by auto
  next
    case (TInteger v)
    have "unat v \<le> u64_max" using unsigned_less [of v, where ?'a = nat] by simp
    then show ?thesis
      using next_token_number [of s l r] assms TInteger dec_digits [of "unat v"] positional_dec [of "unat v"]
      by auto
  qed (use assms in \<open>auto simp: punct ascii_simps\<close>)
qed

lemma spell_nonempty: "spell k = Some s \<Longrightarrow> k \<noteq> TEof"
  by auto

lemma tokens_from_blank: "rest l = CHR '' '' # r \<Longrightarrow> tokens_from l = tokens_from (advance l)"
  by (simp add: tokens_from.simps [of l] tokens_from.simps [of "advance l"] next_token_def
      skip_trivia_blank is_blank_def)

lemma tokens_from_spell:
  "\<forall>k \<in> set ks. spell k \<noteq> None \<Longrightarrow> rest l = spell_all ks \<Longrightarrow>
   \<exists>ts. tokens_from l = Inr ts \<and> map kind ts = ks @ [TEof]"
proof (induction ks arbitrary: l)
  case Nil
  then have "next_token l = Inr (mk_token TEof (lx_pos l) l, l)"
    by (simp add: next_token_def skip_trivia.simps [of l] peek_rest spell_all_def lex_token_at_def)
  then show ?case by (simp add: tokens_from.simps [of l])
next
  case (Cons k ks)
  then obtain s where s: "spell k = Some s" by auto
  obtain t m where t: "next_token l = Inr (t, m)" "kind t = k" "rest m = CHR '' '' # spell_all ks"
    using next_token_spell [OF s, of l "spell_all ks"] Cons.prems s by (auto simp: spell_all_def)
  obtain ts where ts: "tokens_from (advance m) = Inr ts" "map kind ts = ks @ [TEof]"
    using Cons.IH [of "advance m"] Cons.prems t(3) by auto
  show ?case
    using t ts spell_nonempty [OF s] tokens_from_blank [OF t(3)] by (simp add: tokens_from.simps [of l])
qed

section \<open>Properties\<close>

text \<open>
  C31: when \<open>tokenize\<close> succeeds, its tokens form a chain over the source: every span starts and
  ends at a true position (line and column are those obtained by counting newlines and bytes from
  the start of the file), no token starts before the previous one ends, every token but the last
  is non-empty, and the last is the only \<open>Eof\<close> and sits at the end of the source.
\<close>

theorem tokenize_chain: "tokenize src = Inr ts \<Longrightarrow> token_chain src 0 ts"
  using tokens_from_chain [of "lexer_new src" ts] by (simp add: tokenize_def)

theorem tokenize_chain_witness:
  "\<exists>ts. tokenize ''x1 := 0FFH'' = Inr ts \<and> length ts = 4 \<and> token_chain ''x1 := 0FFH'' 0 ts"
proof -
  obtain ts where ts: "tokenize ''x1 := 0FFH'' = Inr ts" "length ts = 4"
    by (simp add: lex_eval Let_def cong: rbind_weak_cong)
  then show ?thesis using tokenize_chain [OF ts(1)] by blast
qed

text \<open>
  C3: print/lex round trip. Writing any list of identifiers, keywords, 64-bit integers, operators
  and punctuation with a blank after each token and tokenizing the text gives back exactly that
  list, followed by \<open>Eof\<close>.
\<close>

theorem tokenize_spell:
  assumes "\<forall>k \<in> set ks. spell k \<noteq> None"
  shows "\<exists>ts. tokenize (spell_all ks) = Inr ts \<and> map kind ts = ks @ [TEof]"
  using tokens_from_spell [OF assms, of "lexer_new (spell_all ks)"] by (simp add: tokenize_def)

theorem tokenize_spell_witness:
  "\<exists>ts. tokenize ''WHILE x <= 18446744073709551615 DO '' = Inr ts \<and>
     map kind ts = [TKeyword KWhile, TIdent ''x'', TLessEq, TInteger (- 1), TKeyword KDo] @ [TEof]"
proof -
  let ?ks = "[TKeyword KWhile, TIdent ''x'', TLessEq, TInteger (- 1), TKeyword KDo]"
  have "unat (- 1 :: u64) = 18446744073709551615" by (simp add: unsigned_minus_1_eq_mask mask_eq_exp_minus_1)
  then have "\<forall>k \<in> set ?ks. spell k \<noteq> None"
    and "spell_all ?ks = ''WHILE x <= 18446744073709551615 DO ''"
    by (simp_all add: ident_shape_def is_ident_start_def is_ident_cont_def ascii_class_defs
        keyword_from_str_def keyword_table_def spell_all_def dec.simps char_of_def bit_iff_odd)
  then show ?thesis using tokenize_spell [of ?ks] by simp
qed

text \<open>
  C28: an integer token carries the value its text denotes: base 16, 8 or 2 by its suffix and base
  10 without one. The \<open>u64\<close> never wraps, so a literal that does not fit is an error and not a
  smaller number.
\<close>

theorem tokenize_integer_value:
  assumes "tokenize src = Inr ts" and "t \<in> set ts" and "kind t = TInteger v"
  shows "unat v = literal_value (token_text src t)"
proof -
  obtain k m where k: "lx_step\<^sup>*\<^sup>* (lexer_new src) k" "lex_token_at k = Inr (t, m)"
    using tokens_from_source assms(1,2) by (fastforce simp: tokenize_def)
  have "lx_src k = src" using lx.steps_src [OF k(1)] by simp
  then show ?thesis using lex_token_at_integer [OF k(2) assms(3)] lex_number_value assms(3) by blast
qed

theorem tokenize_integer_value_witness:
  "\<exists>ts t. tokenize ''0FFH'' = Inr ts \<and> t \<in> set ts \<and> kind t = TInteger 255 \<and>
     unat (255 :: u64) = literal_value (token_text ''0FFH'' t)"
proof -
  obtain t u where t: "tokenize ''0FFH'' = Inr [t, u]" "kind t = TInteger 255"
    by (simp add: lex_eval Let_def cong: rbind_weak_cong)
  then show ?thesis using tokenize_integer_value [OF t(1) _ t(2)] by auto
qed

text \<open>
  C18: an identifier or keyword token is exactly the source text of its span, has the shape of an
  identifier, and the keyword table alone decides which of the two it is.
\<close>

theorem tokenize_names:
  assumes "tokenize src = Inr ts" and "t \<in> set ts"
  shows "(\<forall>s. kind t = TIdent s \<longrightarrow>
      s = token_text src t \<and> ident_shape s \<and> keyword_from_str s = None) \<and>
    (\<forall>kw. kind t = TKeyword kw \<longrightarrow> token_text src t = as_str kw)"
proof -
  obtain k m where k: "lx_step\<^sup>*\<^sup>* (lexer_new src) k" "lex_token_at k = Inr (t, m)"
    using tokens_from_source assms by (fastforce simp: tokenize_def)
  have src: "lx_src k = src" using lx.steps_src [OF k(1)] by simp
  show ?thesis
  proof (cases "\<exists>s kw. kind t = TIdent s \<or> kind t = TKeyword kw")
    case True
    then obtain c where c: "peek k = Some c" "is_ident_start c" "lex_ident (lx_pos k) k = (t, m)"
      using lex_token_at_ident [OF k(2)] by blast
    show ?thesis
      using lex_ident_text [OF c(3,1,2), unfolded src]
      by (auto split: option.splits dest: keyword_from_str_as_str)
  qed auto
qed

theorem tokenize_names_witness:
  "\<exists>ts t u. tokenize ''END Foo'' = Inr ts \<and> t \<in> set ts \<and> u \<in> set ts \<and>
     token_text ''END Foo'' t = as_str KEnd \<and>
     ''Foo'' = token_text ''END Foo'' u \<and> ident_shape ''Foo'' \<and> keyword_from_str ''Foo'' = None"
proof -
  obtain t u v where t: "tokenize ''END Foo'' = Inr [t, u, v]" "kind t = TKeyword KEnd" "kind u = TIdent ''Foo''"
    by (simp add: lex_eval Let_def cong: rbind_weak_cong)
  then show ?thesis
    using tokenize_names [OF t(1), of t] tokenize_names [OF t(1), of u] by auto
qed

text \<open>
  C26: a lexical error is reported at a true position of the source (line, column and offset agree),
  never past its end.
\<close>

theorem tokenize_error_located: "tokenize src = Inl e \<Longrightarrow> located src (err_position e)"
proof -
  assume "tokenize src = Inl e"
  then obtain k where k: "lx_step\<^sup>*\<^sup>* (lexer_new src) k" "err_position e = lx_pos k"
    using tokens_from_err by (auto simp: tokenize_def)
  then show ?thesis using lx.steps_located [OF k(1)] lx.steps_src [OF k(1)] by simp
qed

theorem tokenize_error_located_witness:
  "\<exists>e. tokenize ''a (* b'' = Inl e \<and> message e = UnterminatedBlockComment \<and>
     located ''a (* b'' (err_position e)"
proof -
  obtain e where e: "tokenize ''a (* b'' = Inl e" "message e = UnterminatedBlockComment"
    by (simp add: lex_eval Let_def cong: rbind_weak_cong)
  then show ?thesis using tokenize_error_located [OF e(1)] by blast
qed

text \<open>
  C21: the keyword table and the spelling table are inverse to each other: a string is recognised
  as a keyword exactly when it is that keyword's spelling.
\<close>

theorem keyword_tables_inverse: "keyword_from_str s = Some k \<longleftrightarrow> as_str k = s"
  using keyword_from_str_as_str keyword_as_str_from_str by blast

end
