(* ===== verification/Preprocess.thy ===== *)
theory Preprocess
  imports Lexer
begin

text \<open>
  Conditional compilation (\<open>newm2-lexer/src/preprocess.rs\<close>): \<open>%IF\<close>/\<open>%ELSIF\<close>/\<open>%ELSE\<close>/\<open>%END\<close> over a
  table of symbols, \<open>VERSION:\<close> pragmas that define symbols, and the evaluator of directive
  expressions. The \<open>Preproc\<close> struct is the record \<open>preproc\<close>; its stack of branch states has the
  innermost \<open>%IF\<close> at the head of the list.
\<close>

section \<open>The symbol environment\<close>

record env =
  symbols :: "string \<rightharpoonup> string"

definition adw_win64_unicode :: env where
  "adw_win64_unicode = \<lparr>symbols = map_of
    [(''AMD64'', ''true''), (''IA32'', ''false''), (''Bits64'', ''true''), (''Bits32'', ''false''),
     (''WordSize'', ''64''), (''WINDOWS'', ''true''), (''Windows'', ''true''), (''UNIX'', ''false''),
     (''MAC'', ''false''), (''UNICODE'', ''true''), (''DLL'', ''false''), (''PROTECT'', ''true''),
     (''ALIGN8'', ''true''), (''InlineFpp'', ''false'')]\<rparr>"

definition target_default :: env where
  "target_default = adw_win64_unicode"

definition env_empty :: env where
  "env_empty = \<lparr>symbols = Map.empty\<rparr>"

definition define_value :: "string \<Rightarrow> string \<Rightarrow> env \<Rightarrow> env" where
  "define_value name v e = e\<lparr>symbols := (symbols e)(name \<mapsto> v)\<rparr>"

definition define_bool :: "string \<Rightarrow> bool \<Rightarrow> env \<Rightarrow> env" where
  "define_bool name v e = define_value name (if v then ''true'' else ''false'') e"

definition env_with :: "string \<Rightarrow> bool \<Rightarrow> env \<Rightarrow> env" where
  "env_with name v e = define_bool name v e"

definition env_with_value :: "string \<Rightarrow> string \<Rightarrow> env \<Rightarrow> env" where
  "env_with_value name v e = define_value name v e"

definition truthy_value :: "string \<Rightarrow> bool" where
  "truthy_value v \<longleftrightarrow> \<not> (v = [] \<or> v = ''0'') \<and> \<not> eq_ignore_ascii_case v ''false''"

definition lookup_value :: "env \<Rightarrow> string \<Rightarrow> string option" where
  "lookup_value e name = symbols e name"

definition lookup_bool :: "env \<Rightarrow> string \<Rightarrow> bool" where
  "lookup_bool e name = (case lookup_value e name of None \<Rightarrow> False | Some v \<Rightarrow> truthy_value v)"

section \<open>Directive expressions\<close>

record expr_parser =
  ep_src :: string
  ep_pos :: nat
  ep_env :: env

datatype expr_value = EvBool bool | EvIdent string | EvText string

fun as_bool :: "expr_value \<Rightarrow> bool" where
  "as_bool (EvBool v) = v"
| "as_bool (EvIdent name) = truthy_value name"
| "as_bool (EvText v) = truthy_value v"

fun as_compare_text :: "env \<Rightarrow> expr_value \<Rightarrow> string" where
  "as_compare_text e (EvBool v) = (if v then ''true'' else ''false'')"
| "as_compare_text e (EvIdent name) = (case lookup_value e name of None \<Rightarrow> name | Some v \<Rightarrow> v)"
| "as_compare_text e (EvText v) = v"

definition ep_peek :: "expr_parser \<Rightarrow> char option" where
  "ep_peek p = get_at (ep_src p) (ep_pos p)"

definition ep_bump :: "expr_parser \<Rightarrow> expr_parser" where
  "ep_bump p = (case ep_peek p of None \<Rightarrow> p | Some _ \<Rightarrow> p\<lparr>ep_pos := ep_pos p + 1\<rparr>)"

definition ep_left :: "expr_parser \<Rightarrow> nat" where
  "ep_left p = length (ep_src p) - ep_pos p"

lemma ep_left_bump: "ep_peek p = Some c \<Longrightarrow> ep_left (ep_bump p) < ep_left p"
  by (auto simp: ep_left_def ep_bump_def ep_peek_def)

text \<open>\<open>while let Some(c) = self.peek() { if P(c) { self.pos += 1 } else { break } }\<close>\<close>

function ep_while :: "(char \<Rightarrow> bool) \<Rightarrow> expr_parser \<Rightarrow> expr_parser" where
  "ep_while P p =
     (case ep_peek p of None \<Rightarrow> p | Some c \<Rightarrow> if P c then ep_while P (ep_bump p) else p)"
  by pat_completeness auto
termination
  by (relation "measure (\<lambda>(P, p). ep_left p)") (auto dest: ep_left_bump)

declare ep_while.simps [simp del]

definition skip_ws :: "expr_parser \<Rightarrow> expr_parser" where
  "skip_ws = ep_while (\<lambda>c. c = CHR '' '' \<or> c = CHR 0x09 \<or> c = CHR 0x0D \<or> c = newline)"

definition ep_matches :: "string \<Rightarrow> expr_parser \<Rightarrow> expr_parser option" where
  "ep_matches s p =
     (if take (length s) (drop (ep_pos p) (ep_src p)) = s
      then Some (p\<lparr>ep_pos := ep_pos p + length s\<rparr>) else None)"

definition ep_text :: "nat \<Rightarrow> expr_parser \<Rightarrow> string" where
  "ep_text a p = byte_range (ep_src p) a (ep_pos p)"

definition parse_identifier_value :: "expr_parser \<Rightarrow> lex_message + expr_value \<times> expr_parser" where
  "parse_identifier_value p =
     (let p' = ep_while (\<lambda>c. is_ascii_alphanumeric c \<or> c = CHR ''_'') p
      in Inr (EvIdent (ep_text (ep_pos p) p'), p'))"

definition parse_number_value :: "expr_parser \<Rightarrow> lex_message + expr_value \<times> expr_parser" where
  "parse_number_value p =
     (let p' = ep_while (\<lambda>c. is_ascii_alphanumeric c \<or> c = CHR ''_'') p
      in Inr (EvText (ep_text (ep_pos p) p'), p'))"

definition parse_string_value :: "char \<Rightarrow> expr_parser \<Rightarrow> lex_message + expr_value \<times> expr_parser" where
  "parse_string_value quote p =
     (let p1 = ep_bump p;
          p2 = ep_while (\<lambda>c. c \<noteq> quote) p1
      in case ep_peek p2 of
           None \<Rightarrow> Inl ExprUnterminatedString
         | Some _ \<Rightarrow> Inr (EvText (ep_text (ep_pos p1) p2), ep_bump p2))"

definition parse_value :: "expr_parser \<Rightarrow> lex_message + expr_value \<times> expr_parser" where
  "parse_value p0 =
     (let p = skip_ws p0
      in case ep_peek p of
           None \<Rightarrow> Inl ExprUnexpectedEnd
         | Some c \<Rightarrow>
             if is_ascii_alphabetic c \<or> c = CHR ''_'' then parse_identifier_value p
             else if is_ascii_digit c then parse_number_value p
             else if c = CHR 0x27 \<or> c = CHR 0x22 then parse_string_value c p
             else Inl (ExprUnexpectedChar c))"

definition parse_comparison :: "expr_parser \<Rightarrow> lex_message + expr_value \<times> expr_parser" where
  "parse_comparison p =
     rbind (parse_value p) (\<lambda>(left, p1).
       let p2 = skip_ws p1; e = ep_env p
       in case ep_matches ''='' p2 of
            Some p3 \<Rightarrow> rbind (parse_value p3) (\<lambda>(right, p4).
              Inr (EvBool (as_compare_text e left = as_compare_text e right), p4))
          | None \<Rightarrow>
            (case ep_matches ''#'' p2 of
               Some p3 \<Rightarrow> rbind (parse_value p3) (\<lambda>(right, p4).
                 Inr (EvBool (as_compare_text e left \<noteq> as_compare_text e right), p4))
             | None \<Rightarrow>
               (case left of
                  EvIdent name \<Rightarrow> Inr (EvBool (lookup_bool e name), p2)
                | _ \<Rightarrow> Inr (left, p2))))"

text \<open>The recursive-descent evaluator, with a bound on the number of nested calls.\<close>

fun parse_or :: "nat \<Rightarrow> expr_parser \<Rightarrow> lex_message + bool \<times> expr_parser"
and or_loop :: "nat \<Rightarrow> bool \<Rightarrow> expr_parser \<Rightarrow> lex_message + bool \<times> expr_parser"
and parse_and :: "nat \<Rightarrow> expr_parser \<Rightarrow> lex_message + bool \<times> expr_parser"
and and_loop :: "nat \<Rightarrow> bool \<Rightarrow> expr_parser \<Rightarrow> lex_message + bool \<times> expr_parser"
and parse_unary :: "nat \<Rightarrow> expr_parser \<Rightarrow> lex_message + bool \<times> expr_parser"
and parse_primary :: "nat \<Rightarrow> expr_parser \<Rightarrow> lex_message + bool \<times> expr_parser" where
  "parse_or 0 p = Inl OutOfFuel"
| "parse_or (Suc n) p = rbind (parse_and n p) (\<lambda>(left, p1). or_loop n left p1)"
| "or_loop 0 left p = Inl OutOfFuel"
| "or_loop (Suc n) left p =
     (let p1 = skip_ws p
      in case ep_matches ''||'' p1 of
           Some p2 \<Rightarrow> rbind (parse_and n p2) (\<lambda>(right, p3). or_loop n (left \<or> right) p3)
         | None \<Rightarrow> Inr (left, p1))"
| "parse_and 0 p = Inl OutOfFuel"
| "parse_and (Suc n) p = rbind (parse_unary n p) (\<lambda>(left, p1). and_loop n left p1)"
| "and_loop 0 left p = Inl OutOfFuel"
| "and_loop (Suc n) left p =
     (let p1 = skip_ws p
      in case ep_matches ''&&'' p1 of
           Some p2 \<Rightarrow> rbind (parse_unary n p2) (\<lambda>(right, p3). and_loop n (left \<and> right) p3)
         | None \<Rightarrow> Inr (left, p1))"
| "parse_unary 0 p = Inl OutOfFuel"
| "parse_unary (Suc n) p =
     (let p1 = skip_ws p
      in case ep_matches ''!'' p1 of
           Some p2 \<Rightarrow> rbind (parse_unary n p2) (\<lambda>(v, p3). Inr (\<not> v, p3))
         | None \<Rightarrow> parse_primary n p1)"
| "parse_primary 0 p = Inl OutOfFuel"
| "parse_primary (Suc n) p =
     (let p1 = skip_ws p
      in case ep_peek p1 of
           None \<Rightarrow> Inl ExprUnexpectedEnd
         | Some c \<Rightarrow>
             if c = CHR ''(''
             then rbind (parse_or n (ep_bump p1)) (\<lambda>(v, p2).
               let p3 = skip_ws p2
               in if ep_peek p3 = Some CHR '')'' then Inr (v, ep_bump p3) else Inl ExprExpectedParen)
             else rbind (parse_comparison p1) (\<lambda>(v, p2). Inr (as_bool v, p2)))"

definition expect_eof :: "expr_parser \<Rightarrow> lex_message + unit" where
  "expect_eof p0 =
     (let p = skip_ws p0
      in if ep_pos p = length (ep_src p) then Inr () else Inl (ExprTrailing (drop (ep_pos p) (ep_src p))))"

definition expr_fuel :: "string \<Rightarrow> nat" where
  "expr_fuel s = 6 * length s + 6"

definition eval_text :: "env \<Rightarrow> string \<Rightarrow> lex_message + bool" where
  "eval_text e s =
     rbind (parse_or (expr_fuel s) \<lparr>ep_src = s, ep_pos = 0, ep_env = e\<rparr>)
       (\<lambda>(v, p). rbind (expect_eof p) (\<lambda>_. Inr v))"

section \<open>The preprocessor state\<close>

record branch_state =
  parent_active :: bool
  any_taken :: bool
  current_take :: bool

record preproc =
  pp_src :: string
  pp_out :: string
  pp_pos :: position
  pp_env :: env
  pp_stack :: "branch_state list"

definition preproc_new :: "string \<Rightarrow> env \<Rightarrow> preproc" where
  "preproc_new src e = \<lparr>pp_src = src, pp_out = [], pp_pos = START, pp_env = e, pp_stack = []\<rparr>"

definition active :: "preproc \<Rightarrow> bool" where
  "active p = list_all current_take (pp_stack p)"

definition pp_peek :: "preproc \<Rightarrow> char option" where
  "pp_peek p = get_at (pp_src p) (offset (pp_pos p))"

definition pp_peek_at :: "preproc \<Rightarrow> nat \<Rightarrow> char option" where
  "pp_peek_at p ahead = get_at (pp_src p) (offset (pp_pos p) + ahead)"

definition pp_advance :: "preproc \<Rightarrow> preproc" where
  "pp_advance p = (case pp_peek p of None \<Rightarrow> p | Some c \<Rightarrow> p\<lparr>pp_pos := next_pos c (pp_pos p)\<rparr>)"

definition blank :: "char \<Rightarrow> char" where
  "blank c = (if c = newline then newline else CHR '' '')"

definition emit_byte :: "char \<Rightarrow> preproc \<Rightarrow> preproc" where
  "emit_byte c p = pp_advance (p\<lparr>pp_out := pp_out p @ [if active p then c else blank c]\<rparr>)"

definition erase_byte :: "preproc \<Rightarrow> preproc" where
  "erase_byte p =
     (case pp_peek p of
        None \<Rightarrow> p
      | Some c \<Rightarrow> pp_advance (p\<lparr>pp_out := pp_out p @ [blank c]\<rparr>))"

definition pp_left :: "preproc \<Rightarrow> nat" where
  "pp_left p = length (pp_src p) - offset (pp_pos p)"

text \<open>What one call of a scanning function can do: copy a byte, erase one, or leave the text alone.\<close>

definition copy_step :: "preproc \<Rightarrow> preproc \<Rightarrow> bool" where
  "copy_step p q \<longleftrightarrow>
     (\<exists>c. pp_peek p = Some c \<and> q = emit_byte c p) \<or>
     (active p \<and> (\<exists>names. q = p\<lparr>pp_env := fold (\<lambda>n. define_bool n True) names (pp_env p)\<rparr>))"

definition pp_step :: "preproc \<Rightarrow> preproc \<Rightarrow> bool" where
  "pp_step p q \<longleftrightarrow>
     copy_step p q \<or> (pp_peek p \<noteq> None \<and> q = erase_byte p) \<or> (\<exists>st. q = p\<lparr>pp_stack := st\<rparr>)"

lemma pp_peek_update [simp]:
  "pp_peek (p\<lparr>pp_out := w\<rparr>) = pp_peek p" "pp_peek (p\<lparr>pp_env := e\<rparr>) = pp_peek p"
  "pp_peek (p\<lparr>pp_stack := st\<rparr>) = pp_peek p"
  by (simp_all add: pp_peek_def)

lemma pp_advance_fields [simp]:
  "pp_src (pp_advance p) = pp_src p" "pp_out (pp_advance p) = pp_out p"
  "pp_env (pp_advance p) = pp_env p" "pp_stack (pp_advance p) = pp_stack p"
  by (simp_all add: pp_advance_def split: option.split)

lemma pp_advance_pos: "pp_peek p = Some c \<Longrightarrow> pp_pos (pp_advance p) = next_pos c (pp_pos p)"
  by (simp add: pp_advance_def)

lemma emit_byte_fields [simp]:
  "pp_src (emit_byte c p) = pp_src p" "pp_env (emit_byte c p) = pp_env p"
  "pp_stack (emit_byte c p) = pp_stack p" "active (emit_byte c p) = active p"
  "pp_out (emit_byte c p) = pp_out p @ [if active p then c else blank c]"
  by (simp_all add: emit_byte_def active_def)

lemma emit_byte_pos: "pp_peek p = Some c \<Longrightarrow> pp_pos (emit_byte d p) = next_pos c (pp_pos p)"
  by (simp add: emit_byte_def pp_advance_pos)

lemma erase_byte_fields [simp]:
  "pp_src (erase_byte p) = pp_src p" "pp_env (erase_byte p) = pp_env p"
  "pp_stack (erase_byte p) = pp_stack p" "active (erase_byte p) = active p"
  by (simp_all add: erase_byte_def active_def split: option.split)

lemma erase_byte_pos: "pp_peek p = Some c \<Longrightarrow> pp_pos (erase_byte p) = next_pos c (pp_pos p)"
  by (simp add: erase_byte_def pp_advance_pos)

lemma erase_byte_out: "pp_peek p = Some c \<Longrightarrow> pp_out (erase_byte p) = pp_out p @ [blank c]"
  by (simp add: erase_byte_def)

lemma pp_left_emit: "pp_peek p = Some c \<Longrightarrow> pp_left (emit_byte d p) < pp_left p"
  by (auto simp: pp_left_def emit_byte_pos) (auto simp: pp_peek_def)

lemma pp_left_erase: "pp_peek p = Some c \<Longrightarrow> pp_left (erase_byte p) < pp_left p"
  by (auto simp: pp_left_def erase_byte_pos) (auto simp: pp_peek_def)

lemma pp_left_emit_le: "pp_left (emit_byte d p) \<le> pp_left p"
  by (cases "pp_peek p") (auto simp: pp_left_def emit_byte_def pp_advance_def)

lemma pp_left_emit2: "pp_peek p = Some c \<Longrightarrow> pp_left (emit_byte d (emit_byte c' p)) < pp_left p"
  by (rule le_less_trans [OF pp_left_emit_le pp_left_emit])

lemma copy_step_pp_step: "copy_step p q \<Longrightarrow> pp_step p q"
  by (simp add: pp_step_def)

lemma pp_step_src: "pp_step p q \<Longrightarrow> pp_src q = pp_src p"
  by (auto simp: pp_step_def copy_step_def)

lemma pp_step_pos:
  "pp_step p q \<Longrightarrow> pp_pos q = pp_pos p \<or>
     (offset (pp_pos p) < length (pp_src p) \<and>
      pp_pos q = next_pos (pp_src p ! offset (pp_pos p)) (pp_pos p))"
  by (auto simp: pp_step_def copy_step_def emit_byte_pos erase_byte_pos) (auto simp: pp_peek_def erase_byte_pos)

interpretation pp: cursor pp_src pp_pos pp_step
  by unfold_locales (simp add: pp_step_src, rule pp_step_pos)

lemma copy_steps_pp_steps: "copy_step\<^sup>*\<^sup>* p q \<Longrightarrow> pp_step\<^sup>*\<^sup>* p q"
  by (induction rule: rtranclp_induct) (auto dest: copy_step_pp_step)

lemma copy_emit [simp]: "pp_peek p = Some c \<Longrightarrow> copy_step p (emit_byte c p)"
  by (auto simp: copy_step_def)

lemma copy_steps_emit: "copy_step\<^sup>*\<^sup>* (emit_byte c p) q \<Longrightarrow> pp_peek p = Some c \<Longrightarrow> copy_step\<^sup>*\<^sup>* p q"
  by (rule converse_rtranclp_into_rtranclp, rule copy_emit)

lemma pp_steps_left: "pp_step\<^sup>*\<^sup>* p q \<Longrightarrow> pp_left q \<le> pp_left p"
  using pp.steps_src [of p q] pp.steps_offset [of p q] by (simp add: pp_left_def)

lemma copy_steps_left: "copy_step\<^sup>*\<^sup>* p q \<Longrightarrow> pp_left q \<le> pp_left p"
  by (rule pp_steps_left [OF copy_steps_pp_steps])

lemma copy_steps_stack: "copy_step\<^sup>*\<^sup>* p q \<Longrightarrow> pp_stack q = pp_stack p"
  by (induction rule: rtranclp_induct) (auto simp: copy_step_def)

section \<open>Copying comments, strings and pragmas\<close>

function copy_line_comment :: "preproc \<Rightarrow> preproc" where
  "copy_line_comment p =
     (case pp_peek p of
        None \<Rightarrow> p
      | Some c \<Rightarrow> if c = newline then emit_byte c p else copy_line_comment (emit_byte c p))"
  by pat_completeness auto
termination
  by (relation "measure pp_left") (auto dest: pp_left_emit)

declare copy_line_comment.simps [simp del]

function copy_string_loop :: "position \<Rightarrow> char \<Rightarrow> preproc \<Rightarrow> lex_error + preproc" where
  "copy_string_loop start quote p =
     (case pp_peek p of
        None \<Rightarrow> Inl (lex_err UnterminatedString start)
      | Some c \<Rightarrow>
        if c = newline then Inl (lex_err UnterminatedString start)
        else if c = quote then Inr (emit_byte c p)
        else copy_string_loop start quote (emit_byte c p))"
  by pat_completeness auto
termination
  by (relation "measure (\<lambda>(start, quote, p). pp_left p)") (auto dest: pp_left_emit)

declare copy_string_loop.simps [simp del]

definition copy_string :: "char \<Rightarrow> preproc \<Rightarrow> lex_error + preproc" where
  "copy_string quote p = copy_string_loop (pp_pos p) quote (emit_byte quote p)"

text \<open>The scan of \<open>pragma_closes_within_comment\<close> over the bytes after the \<open><*\<close>.\<close>

fun closes_before_comment :: "string \<Rightarrow> bool" where
  "closes_before_comment (c # d # s) =
     (if c = CHR ''*'' \<and> d = CHR ''>'' then True
      else if c = CHR ''*'' \<and> d = CHR '')'' then False
      else closes_before_comment (d # s))"
| "closes_before_comment [c] = False"
| "closes_before_comment [] = False"

definition pragma_closes_within_comment :: "preproc \<Rightarrow> bool" where
  "pragma_closes_within_comment p = closes_before_comment (drop (offset (pp_pos p) + 2) (pp_src p))"

definition version_names :: "string \<Rightarrow> string list" where
  "version_names names = filter (\<lambda>n. n \<noteq> []) (map str_trim (split_on CHR '','' names))"

definition apply_version_names :: "string \<Rightarrow> preproc \<Rightarrow> preproc" where
  "apply_version_names names p =
     p\<lparr>pp_env := fold (\<lambda>n. define_bool n True) (version_names names) (pp_env p)\<rparr>"

definition version_pragma_names :: "string \<Rightarrow> string option" where
  "version_pragma_names rest =
     (case strip_prefix ''VERSION:'' rest of
        Some names \<Rightarrow> Some names
      | None \<Rightarrow>
        (case strip_prefix ''VALIDVERSION:'' rest of
           Some names \<Rightarrow> Some names
         | None \<Rightarrow> strip_prefix ''VALIDVER:'' rest))"

definition apply_pragma_body :: "string \<Rightarrow> preproc \<Rightarrow> preproc" where
  "apply_pragma_body body p =
     (case utf8_decode body of
        None \<Rightarrow> p
      | Some _ \<Rightarrow>
        (case strip_prefix ''/'' (str_trim body) of
           None \<Rightarrow> p
         | Some rest \<Rightarrow>
           (case version_pragma_names rest of
              Some names \<Rightarrow>
                if strip_prefix ''VERSION:'' rest \<noteq> None then apply_version_names names p else p
            | None \<Rightarrow> p)))"

function copy_pragma_loop :: "position \<Rightarrow> nat \<Rightarrow> preproc \<Rightarrow> lex_error + preproc" where
  "copy_pragma_loop start body_start p =
     (case pp_peek p of
        None \<Rightarrow> Inl (lex_err UnterminatedPragma start)
      | Some c \<Rightarrow>
        if c = CHR ''*'' \<and> pp_peek_at p 1 = Some CHR ''>''
        then (let body = byte_range (pp_src p) body_start (offset (pp_pos p));
                  p' = (if active p then apply_pragma_body body p else p)
              in Inr (emit_byte CHR ''>'' (emit_byte CHR ''*'' p')))
        else copy_pragma_loop start body_start (emit_byte c p))"
  by pat_completeness auto
termination
  by (relation "measure (\<lambda>(start, b, p). pp_left p)") (auto dest: pp_left_emit)

declare copy_pragma_loop.simps [simp del]

definition copy_pragma :: "preproc \<Rightarrow> lex_error + preproc" where
  "copy_pragma p =
     (let p' = emit_byte CHR ''*'' (emit_byte CHR ''<'' p)
      in copy_pragma_loop (pp_pos p) (offset (pp_pos p')) p')"

lemma pp_peek_at_1: "pp_peek p = Some c \<Longrightarrow> pp_peek_at p 1 = pp_peek (emit_byte d p)"
  by (simp add: pp_peek_at_def pp_peek_def [of "emit_byte d p"] emit_byte_pos)

lemma apply_pragma_body_names:
  "\<exists>names. apply_pragma_body body p = p\<lparr>pp_env := fold (\<lambda>n. define_bool n True) names (pp_env p)\<rparr>"
proof -
  have "\<exists>names. p = p\<lparr>pp_env := fold (\<lambda>n. define_bool n True) names (pp_env p)\<rparr>"
    by (rule exI [of _ "[]"]) simp
  moreover have "\<exists>names. apply_version_names ns p = p\<lparr>pp_env := fold (\<lambda>n. define_bool n True) names (pp_env p)\<rparr>" for ns
    by (auto simp: apply_version_names_def)
  ultimately show ?thesis
    by (simp add: apply_pragma_body_def split: option.split)
qed

lemma copy_step_pragma_body: "active p \<Longrightarrow> copy_step p (apply_pragma_body body p)"
  using apply_pragma_body_names [of body p] by (auto simp: copy_step_def)

lemma copy_line_comment_steps: "copy_step\<^sup>*\<^sup>* p (copy_line_comment p)"
proof (induction p rule: copy_line_comment.induct)
  case (1 p)
  then show ?case
    by (subst copy_line_comment.simps) (auto split: option.split intro: copy_steps_emit)
qed

lemma copy_string_loop_steps: "copy_string_loop start quote p = Inr q \<Longrightarrow> copy_step\<^sup>*\<^sup>* p q"
proof (induction start quote p rule: copy_string_loop.induct)
  case (1 start quote p)
  show ?case
    using "1.prems" "1.IH"
    by (simp add: copy_string_loop.simps [of start quote p] split: option.splits if_splits)
       (auto intro: copy_steps_emit)
qed

lemma copy_pragma_loop_steps: "copy_pragma_loop start b p = Inr q \<Longrightarrow> copy_step\<^sup>*\<^sup>* p q"
proof (induction start b p rule: copy_pragma_loop.induct)
  case (1 start b p)
  then obtain c where c: "pp_peek p = Some c"
    by (cases "pp_peek p") (auto simp: copy_pragma_loop.simps [of start b p])
  show ?case
  proof (cases "c = CHR ''*'' \<and> pp_peek_at p 1 = Some CHR ''>''")
    case True
    define p' where "p' = (if active p then apply_pragma_body (byte_range (pp_src p) b (offset (pp_pos p))) p else p)"
    have q: "q = emit_byte CHR ''>'' (emit_byte CHR ''*'' p')"
      using "1.prems" c True by (simp add: copy_pragma_loop.simps [of start b p] p'_def Let_def)
    obtain names where names: "p' = p\<lparr>pp_env := fold (\<lambda>n. define_bool n True) names (pp_env p)\<rparr> \<or> p' = p"
      using apply_pragma_body_names by (metis p'_def)
    have "copy_step\<^sup>*\<^sup>* p p'" by (auto simp: p'_def intro: copy_step_pragma_body)
    moreover have pk: "pp_peek p' = Some CHR ''*''" using names c True by auto
    moreover have "pp_peek_at p' 1 = Some CHR ''>''"
      using names True by (auto simp: pp_peek_at_def)
    then have "pp_peek (emit_byte CHR ''*'' p') = Some CHR ''>''"
      by (simp add: pp_peek_at_1 [OF pk, symmetric])
    ultimately show ?thesis
      unfolding q by (meson copy_emit rtranclp.rtrancl_into_rtrancl)
  next
    case False
    then have "copy_pragma_loop start b (emit_byte c p) = Inr q"
      using "1.prems" c by (simp add: copy_pragma_loop.simps [of start b p] split: if_splits)
    then show ?thesis using "1.IH" [OF c False] c by (blast intro: copy_steps_emit)
  qed
qed

lemma copy_string_steps:
  "copy_string quote p = Inr q \<Longrightarrow> pp_peek p = Some quote \<Longrightarrow> copy_step\<^sup>*\<^sup>* p q"
  unfolding copy_string_def by (blast intro: copy_steps_emit copy_string_loop_steps)

lemma copy_pragma_steps:
  assumes "copy_pragma p = Inr q" "pp_peek p = Some CHR ''<''" "pp_peek_at p 1 = Some CHR ''*''"
  shows "copy_step\<^sup>*\<^sup>* p q"
proof -
  have "copy_step\<^sup>*\<^sup>* (emit_byte CHR ''*'' (emit_byte CHR ''<'' p)) q"
    using assms(1) by (auto simp: copy_pragma_def Let_def dest: copy_pragma_loop_steps)
  then show ?thesis
    using assms(2,3) by (metis copy_steps_emit pp_peek_at_1)
qed

lemma copy_pragma_left:
  "copy_pragma p = Inr q \<Longrightarrow> pp_peek p = Some c \<Longrightarrow> pp_left q < pp_left p"
  unfolding copy_pragma_def Let_def
  by (rule le_less_trans [OF copy_steps_left [OF copy_pragma_loop_steps] pp_left_emit2])

function copy_comment_loop :: "position \<Rightarrow> nat \<Rightarrow> preproc \<Rightarrow> lex_error + preproc" where
  "copy_comment_loop start depth p =
     (if depth = 0 then Inr p
      else case pp_peek p of
        None \<Rightarrow> Inl (lex_err UnterminatedBlockComment start)
      | Some c \<Rightarrow>
        if c = CHR ''('' \<and> pp_peek_at p 1 = Some CHR ''*''
        then copy_comment_loop start (depth + 1) (emit_byte CHR ''*'' (emit_byte CHR ''('' p))
        else if c = CHR ''<'' \<and> pp_peek_at p 1 = Some CHR ''*''
        then (if pragma_closes_within_comment p
              then rbind (copy_pragma p) (copy_comment_loop start depth)
              else copy_comment_loop start depth (emit_byte CHR ''<'' p))
        else if c = CHR ''*'' \<and> pp_peek_at p 1 = Some CHR '')''
        then copy_comment_loop start (depth - 1) (emit_byte CHR '')'' (emit_byte CHR ''*'' p))
        else copy_comment_loop start depth (emit_byte c p))"
  by pat_completeness auto
termination
  by (relation "measure (\<lambda>(start, depth, p). pp_left p)")
     (auto dest: pp_left_emit pp_left_emit2 copy_pragma_left)

declare copy_comment_loop.simps [simp del]

definition copy_block_comment :: "preproc \<Rightarrow> lex_error + preproc" where
  "copy_block_comment p =
     copy_comment_loop (pp_pos p) 1 (emit_byte CHR ''*'' (emit_byte CHR ''('' p))"

lemma copy_steps_emit2:
  "copy_step\<^sup>*\<^sup>* (emit_byte d (emit_byte c p)) q \<Longrightarrow> pp_peek p = Some c \<Longrightarrow> pp_peek_at p 1 = Some d \<Longrightarrow>
   copy_step\<^sup>*\<^sup>* p q"
  by (metis copy_steps_emit pp_peek_at_1)

lemma copy_comment_loop_steps: "copy_comment_loop start depth p = Inr q \<Longrightarrow> copy_step\<^sup>*\<^sup>* p q"
proof (induction p arbitrary: depth rule: measure_induct_rule [of pp_left])
  case (less p)
  show ?case
  proof (cases "depth = 0")
    case True
    then show ?thesis using less.prems by (simp add: copy_comment_loop.simps [of start 0 p])
  next
    case False
    then obtain c where c: "pp_peek p = Some c"
      using less.prems by (cases "pp_peek p") (auto simp: copy_comment_loop.simps [of start depth p])
    note unf = copy_comment_loop.simps [of start depth p]
    show ?thesis
    proof (cases "c = CHR ''<'' \<and> pp_peek_at p 1 = Some CHR ''*'' \<and> pragma_closes_within_comment p")
      case True
      then obtain r where r: "copy_pragma p = Inr r" "copy_comment_loop start depth r = Inr q"
        using less.prems False c unf by auto
      then show ?thesis
        using less.IH [OF copy_pragma_left [OF r(1) c] r(2)] copy_pragma_steps [OF r(1)] c True
        by (auto intro: rtranclp_trans)
    next
      case plain: False
      then have "(\<exists>e. copy_comment_loop start e (emit_byte c p) = Inr q) \<or>
        (\<exists>d e. pp_peek_at p 1 = Some d \<and> copy_comment_loop start e (emit_byte d (emit_byte c p)) = Inr q)"
        using less.prems False c by (simp add: unf split: if_splits) blast+
      then show ?thesis
        using less.IH [OF pp_left_emit [OF c]] less.IH [OF pp_left_emit2 [OF c]]
          copy_steps_emit [OF _ c] copy_steps_emit2 [OF _ c] by blast
    qed
  qed
qed

lemma copy_block_comment_steps:
  assumes "copy_block_comment p = Inr q" "pp_peek p = Some CHR ''(''" "pp_peek_at p 1 = Some CHR ''*''"
  shows "copy_step\<^sup>*\<^sup>* p q"
  using assms copy_comment_loop_steps copy_steps_emit2 unfolding copy_block_comment_def by blast

section \<open>Directives\<close>

text \<open>\<open>while let Some(c) = self.peek() { if c.is_ascii_alphabetic() { self.erase_byte() } .. }\<close>\<close>

function erase_letters :: "preproc \<Rightarrow> preproc" where
  "erase_letters p =
     (case pp_peek p of
        None \<Rightarrow> p
      | Some c \<Rightarrow> if is_ascii_alphabetic c then erase_letters (erase_byte p) else p)"
  by pat_completeness auto
termination
  by (relation "measure pp_left") (auto dest: pp_left_erase)

declare erase_letters.simps [simp del]

text \<open>\<open>for _ in 0..n { self.erase_byte(); }\<close>\<close>

definition erase_bytes :: "nat \<Rightarrow> preproc \<Rightarrow> preproc" where
  "erase_bytes n p = (erase_byte ^^ n) p"

text \<open>The keyword the probe of \<open>read_expr_then\<close> reads after a \<open>%\<close>, and the text it stands for.\<close>

definition probe_keyword :: "preproc \<Rightarrow> string" where
  "probe_keyword p = takeWhile is_ascii_alphabetic (drop (offset (pp_pos p) + 1) (pp_src p))"

definition operator_text :: "string \<Rightarrow> string option" where
  "operator_text kw =
     (if kw = ''AND'' then Some '' && ''
      else if kw = ''OR'' then Some '' || ''
      else if kw = ''NOT'' then Some '' ! ''
      else None)"

definition eval_expr :: "string \<Rightarrow> position \<Rightarrow> preproc \<Rightarrow> lex_error + bool" where
  "eval_expr s start p = map_err (\<lambda>m. lex_err m start) (eval_text (pp_env p) s)"

lemma erase_byte_steps [simp]: "pp_step\<^sup>*\<^sup>* p (erase_byte p)"
  by (cases "pp_peek p") (auto simp: erase_byte_def pp_step_def)

lemma erase_bytes_steps [simp]: "pp_step\<^sup>*\<^sup>* p (erase_bytes n p)"
  unfolding erase_bytes_def
  by (induction n) (auto intro: rtranclp_trans)

lemma erase_bytes_Suc: "erase_bytes (Suc n) p = erase_bytes n (erase_byte p)"
  by (simp only: erase_bytes_def funpow_Suc_right o_def)

lemma pp_left_erase_bytes: "pp_peek p = Some c \<Longrightarrow> pp_left (erase_bytes (Suc n) p) < pp_left p"
  unfolding erase_bytes_Suc
  by (rule le_less_trans [OF pp_steps_left [OF erase_bytes_steps] pp_left_erase])

function read_expr_loop :: "position \<Rightarrow> string \<Rightarrow> preproc \<Rightarrow> lex_error + bool \<times> preproc" where
  "read_expr_loop start buf p =
     (case pp_peek p of
        None \<Rightarrow> Inl (lex_err MissingThen start)
      | Some c \<Rightarrow>
        if c = CHR ''%''
        then (let kw = probe_keyword p; q = erase_bytes (Suc (length kw)) p
              in if kw = ''THEN'' then rbind (eval_expr buf start q) (\<lambda>v. Inr (v, q))
                 else (case operator_text kw of
                         None \<Rightarrow> Inl (lex_err (UnexpectedInIf kw) (pp_pos p))
                       | Some replacement \<Rightarrow> read_expr_loop start (buf @ replacement) q))
        else read_expr_loop start (buf @ utf8_encode (byte c)) (erase_byte p))"
  by pat_completeness auto
termination
  by (relation "measure (\<lambda>(start, buf, p). pp_left p)") (auto dest: pp_left_erase pp_left_erase_bytes)

declare read_expr_loop.simps [simp del]

definition read_expr_then :: "preproc \<Rightarrow> lex_error + bool \<times> preproc" where
  "read_expr_then p = read_expr_loop (pp_pos p) [] p"

definition handle_directive :: "preproc \<Rightarrow> lex_error + preproc" where
  "handle_directive p0 =
     (let start = pp_pos p0;
          p1 = erase_byte p0;
          p = erase_letters p1;
          kw = byte_range (pp_src p) (offset (pp_pos p1)) (offset (pp_pos p))
      in if kw = ''IF'' then
           rbind (read_expr_then p) (\<lambda>(cond, q).
             let up = active q; take = up \<and> cond
             in Inr (q\<lparr>pp_stack := \<lparr>parent_active = up, any_taken = take, current_take = take\<rparr> # pp_stack q\<rparr>))
         else if kw = ''ELSIF'' then
           (case pp_stack p of
              [] \<Rightarrow> Inl (lex_err ElsifOutsideIf start)
            | _ \<Rightarrow> rbind (read_expr_then p) (\<lambda>(cond, q).
                let fr = hd (pp_stack q);
                    take = parent_active fr \<and> \<not> any_taken fr \<and> cond
                in Inr (q\<lparr>pp_stack := fr\<lparr>current_take := take, any_taken := any_taken fr \<or> take\<rparr>
                          # tl (pp_stack q)\<rparr>)))
         else if kw = ''ELSE'' then
           (case pp_stack p of
              [] \<Rightarrow> Inl (lex_err ElseOutsideIf start)
            | fr # below \<Rightarrow>
                let take = parent_active fr \<and> \<not> any_taken fr
                in Inr (p\<lparr>pp_stack := fr\<lparr>current_take := take, any_taken := any_taken fr \<or> take\<rparr> # below\<rparr>))
         else if kw = ''END'' then
           (case pp_stack p of
              [] \<Rightarrow> Inl (lex_err EndOutsideIf start)
            | _ # below \<Rightarrow> Inr (p\<lparr>pp_stack := below\<rparr>))
         else Inl (lex_err (UnknownDirective kw) start))"


lemma erase_letters_steps: "pp_step\<^sup>*\<^sup>* p (erase_letters p)"
proof (induction p rule: erase_letters.induct)
  case (1 p)
  then show ?case
    by (subst erase_letters.simps) (auto split: option.split intro: rtranclp_trans [OF erase_byte_steps])
qed

lemma read_expr_loop_steps: "read_expr_loop start buf p = Inr (v, q) \<Longrightarrow> pp_step\<^sup>*\<^sup>* p q"
proof (induction p arbitrary: buf rule: measure_induct_rule [of pp_left])
  case (less p)
  then obtain c where c: "pp_peek p = Some c"
    by (cases "pp_peek p") (auto simp: read_expr_loop.simps [of start buf p])
  then consider
    (stop) n where "q = erase_bytes n p"
  | (oper) n b where "read_expr_loop start b (erase_bytes (Suc n) p) = Inr (v, q)"
  | (byte) b where "read_expr_loop start b (erase_byte p) = Inr (v, q)"
    using less.prems
    by (simp add: read_expr_loop.simps [of start buf p] Let_def split: if_splits option.splits) blast+
  then show ?case
  proof cases
    case oper
    then show ?thesis
      using less.IH [OF pp_left_erase_bytes [OF c]] by (blast intro: rtranclp_trans [OF erase_bytes_steps])
  next
    case byte
    then show ?thesis
      using less.IH [OF pp_left_erase [OF c]] by (blast intro: rtranclp_trans [OF erase_byte_steps])
  qed simp
qed

lemma read_expr_then_steps: "read_expr_then p = Inr (v, q) \<Longrightarrow> pp_step\<^sup>*\<^sup>* p q"
  unfolding read_expr_then_def by (rule read_expr_loop_steps)

lemma pp_step_stack: "pp_step p (p\<lparr>pp_stack := st\<rparr>)"
  by (auto simp: pp_step_def)

lemma handle_directive_head:
  assumes "handle_directive p = Inr q"
  obtains r st where "pp_step\<^sup>*\<^sup>* (erase_byte p) r" "q = r\<lparr>pp_stack := st\<rparr>"
proof -
  define p1 where "p1 = erase_letters (erase_byte p)"
  have "\<exists>st. q = p1\<lparr>pp_stack := st\<rparr> \<or> (\<exists>v r. read_expr_then p1 = Inr (v, r) \<and> q = r\<lparr>pp_stack := st\<rparr>)"
    using assms unfolding handle_directive_def Let_def p1_def [symmetric]
    by (auto split: if_splits list.splits)
  moreover have st: "pp_step\<^sup>*\<^sup>* (erase_byte p) p1"
    unfolding p1_def by (rule erase_letters_steps)
  ultimately show ?thesis
    using that rtranclp_trans [OF st read_expr_then_steps] by blast
qed

lemma handle_directive_steps: "handle_directive p = Inr q \<Longrightarrow> pp_step\<^sup>*\<^sup>* p q"
  by (elim handle_directive_head) (metis erase_byte_steps pp_step_stack rtranclp.rtrancl_into_rtrancl rtranclp_trans)

lemma handle_directive_left: "handle_directive p = Inr q \<Longrightarrow> pp_peek p = Some c \<Longrightarrow> pp_left q < pp_left p"
  by (elim handle_directive_head)
     (metis le_less_trans pp_left_erase pp_step_stack pp_steps_left rtranclp.rtrancl_into_rtrancl)

section \<open>The main loop\<close>

lemma copy_line_comment_less: "pp_peek p = Some c \<Longrightarrow> pp_left (copy_line_comment p) < pp_left p"
  using copy_steps_left [OF copy_line_comment_steps [of "emit_byte c p"]] pp_left_emit [of p c c]
  by (subst copy_line_comment.simps) auto

lemma copy_string_less: "copy_string c p = Inr q \<Longrightarrow> pp_peek p = Some d \<Longrightarrow> pp_left q < pp_left p"
  unfolding copy_string_def
  by (rule le_less_trans [OF copy_steps_left [OF copy_string_loop_steps] pp_left_emit])

lemma copy_block_comment_less: "copy_block_comment p = Inr q \<Longrightarrow> pp_peek p = Some d \<Longrightarrow> pp_left q < pp_left p"
  unfolding copy_block_comment_def
  by (rule le_less_trans [OF copy_steps_left [OF copy_comment_loop_steps] pp_left_emit2])

function run :: "preproc \<Rightarrow> lex_error + preproc" where
  "run p =
     (case pp_peek p of
        None \<Rightarrow> if pp_stack p \<noteq> [] then Inl (lex_err UnterminatedIf (pp_pos p)) else Inr p
      | Some c \<Rightarrow>
        if c = CHR ''('' \<and> pp_peek_at p 1 = Some CHR ''*'' then rbind (copy_block_comment p) run
        else if c = CHR ''/'' \<and> pp_peek_at p 1 = Some CHR ''/'' then run (copy_line_comment p)
        else if c = CHR 0x22 \<or> c = CHR 0x27 then rbind (copy_string c p) run
        else if c = CHR ''<'' \<and> pp_peek_at p 1 = Some CHR ''*'' then rbind (copy_pragma p) run
        else if c = CHR ''%'' then rbind (handle_directive p) run
        else run (emit_byte c p))"
  by pat_completeness auto
termination
  by (relation "measure pp_left")
     (auto dest: copy_block_comment_less copy_line_comment_less copy_string_less copy_pragma_left
       handle_directive_left pp_left_emit)

declare run.simps [simp del]

definition preprocess :: "string \<Rightarrow> env \<Rightarrow> lex_error + string" where
  "preprocess src e =
     (if CHR ''%'' \<notin> set src then Inr src
      else rbind (run (preproc_new src e)) (\<lambda>p.
        case utf8_decode (pp_out p) of
          None \<Rightarrow> Inl (lex_err OutputNotUtf8 (pp_pos p))
        | Some _ \<Rightarrow> Inr (pp_out p)))"

text \<open>The driver's convenience call: preprocess against the target's symbols, then lex.\<close>

definition preprocess_and_tokenize :: "string \<Rightarrow> lex_error + token list" where
  "preprocess_and_tokenize src = rbind (preprocess src target_default) tokenize"

lemma copy_line_comment_pp_steps: "pp_step\<^sup>*\<^sup>* p (copy_line_comment p)"
  by (rule copy_steps_pp_steps [OF copy_line_comment_steps])

end
