(* ===== verification/Utf8.thy ===== *)
theory Utf8
  imports Prelude
begin

text \<open>
  Facts about UTF-8 validity the components share: a valid string is a sequence of encoded scalar
  values, so validity is preserved by concatenation and every encoding of a scalar value is valid.
\<close>

abbreviation valid_utf8 :: "string \<Rightarrow> bool" where
  "valid_utf8 s \<equiv> utf8_decode s \<noteq> None"

text \<open>A valid string that starts with a non-ASCII byte starts with one encoded scalar value.\<close>

lemma utf8_decode_first:
  "utf8_decode (a # r) \<noteq> None \<Longrightarrow> \<not> byte a < 0x80 \<Longrightarrow>
   \<exists>ms ls n. r = ms @ ls \<and> list_all is_cont ms \<and> is_scalar n \<and>
     (\<forall>v. utf8_decode (a # ms @ v) = map_option ((#) n) (utf8_decode v))"
proof (cases r)
  case (Cons b r1)
  assume v: "utf8_decode (a # r) \<noteq> None" and na: "\<not> byte a < 0x80"
  have b: "is_cont b" using v na Cons by (auto split: if_splits)
  show ?thesis
  proof (cases "0xC2 \<le> byte a \<and> byte a < 0xE0")
    case True
    define n where "n = (byte a - 0xC0) * 64 + (byte b - 0x80)"
    have "utf8_decode (a # b # w) = map_option ((#) n) (utf8_decode w)" for w
      unfolding n_def using True na b by (subst utf8_decode.simps(2)) (simp del: utf8_decode.simps)
    moreover have "is_scalar n" using True b by (auto simp: n_def is_cont_def is_scalar_def)
    ultimately show ?thesis using Cons b
      by (intro exI [of _ "[b]"] exI [of _ r1] exI [of _ n]) (simp del: utf8_decode.simps)
  next
    case three: False
    then obtain c r2 where r1: "r1 = c # r2" "is_cont c"
      using v na Cons b by (auto split: if_splits list.splits)
    show ?thesis
    proof (cases "0xE0 \<le> byte a \<and> byte a < 0xF0")
      case True
      define n where "n = (byte a - 0xE0) * 4096 + (byte b - 0x80) * 64 + (byte c - 0x80)"
      have step: "utf8_decode (a # b # c # w) =
          (if n < 0x800 \<or> \<not> is_scalar n then None else map_option ((#) n) (utf8_decode w))" for w
        unfolding n_def using na b three r1(2) True
        by (subst utf8_decode.simps(2)) (auto simp add: Let_def simp del: utf8_decode.simps)
      have ok: "\<not> (n < 0x800 \<or> \<not> is_scalar n)"
        using v unfolding Cons r1(1) step by (metis option.distinct(1))
      then show ?thesis using b r1(2) unfolding Cons r1(1)
        by (intro exI [of _ "[b, c]"] exI [of _ r2] exI [of _ n]) (simp add: step del: utf8_decode.simps)
    next
      case False
      then obtain d r3 where r2: "r2 = d # r3" "is_cont d"
        using v na Cons b three r1 by (auto split: if_splits list.splits)
      define n where "n = (byte a - 0xF0) * 262144 + (byte b - 0x80) * 4096 + (byte c - 0x80) * 64 + (byte d - 0x80)"
      have step: "utf8_decode (a # b # c # d # w) =
          (if byte a < 0xF0 \<or> 0xF5 \<le> byte a \<or> n < 0x10000 \<or> \<not> is_scalar n then None
           else map_option ((#) n) (utf8_decode w))" for w
        unfolding n_def using na b three r1(2) False r2(2)
        by (subst utf8_decode.simps(2)) (auto simp add: Let_def simp del: utf8_decode.simps)
      have "\<not> (byte a < 0xF0 \<or> 0xF5 \<le> byte a \<or> n < 0x10000 \<or> \<not> is_scalar n)"
        using v unfolding Cons r1(1) r2(1) step by (metis option.distinct(1))
      then show ?thesis using b r1(2) r2(2) unfolding Cons r1(1) r2(1)
        by (intro exI [of _ "[b, c, d]"] exI [of _ r3] exI [of _ n]) (simp add: step del: utf8_decode.simps)
    qed
  qed
qed auto

lemma utf8_decode_head:
  assumes "valid_utf8 (a # r)" "\<not> byte a < 0x80"
  obtains ms ls where "r = ms @ ls" "list_all is_cont ms" "valid_utf8 ls"
    "\<And>v. valid_utf8 v \<Longrightarrow> valid_utf8 (a # ms @ v)"
proof -
  obtain ms ls n where h: "r = ms @ ls" "list_all is_cont ms"
      "\<And>v. utf8_decode (a # ms @ v) = map_option ((#) n) (utf8_decode v)"
    using utf8_decode_first [OF assms] by blast
  show ?thesis
    by (rule that [OF h(1,2)]) (use assms(1) h(1) in \<open>simp_all add: h(3) del: utf8_decode.simps\<close>)
qed

lemma valid_utf8_append: "valid_utf8 s \<Longrightarrow> valid_utf8 t \<Longrightarrow> valid_utf8 (s @ t)"
proof (induction s rule: measure_induct_rule [of length])
  case (less s)
  show ?case
  proof (cases s)
    case Nil
    then show ?thesis using less.prems by simp
  next
    case (Cons a r)
    show ?thesis
    proof (cases "byte a < 0x80")
      case True
      then have "valid_utf8 (r @ t)" using less.IH [of r] less.prems Cons by simp
      then show ?thesis using Cons True by simp
    next
      case False
      obtain ms ls where r: "r = ms @ ls" "valid_utf8 ls"
        and keep: "\<And>v. valid_utf8 v \<Longrightarrow> valid_utf8 (a # ms @ v)"
        using utf8_decode_head [of a r] less.prems(1) Cons False by metis
      then have "valid_utf8 (ls @ t)" using less.IH [of ls] less.prems(2) Cons by simp
      then show ?thesis using keep [of "ls @ t"] Cons r(1) by simp
    qed
  qed
qed

lemma byte_char_of: "n < 256 \<Longrightarrow> byte (char_of n) = n"
  by (simp add: byte_def)

lemma base64_3: "n div 4096 * 4096 + n div 64 mod 64 * 64 + n mod 64 = (n::nat)"
proof -
  have "n div 4096 = n div 64 div 64" using div_mult2_eq [of n 64 64] by simp
  moreover have "n div 64 div 64 * 64 + n div 64 mod 64 = n div 64" "n div 64 * 64 + n mod 64 = n" by simp_all
  ultimately show ?thesis by linarith
qed

lemma base64_4: "n div 262144 * 262144 + n div 4096 mod 64 * 4096 + n div 64 mod 64 * 64 + n mod 64 = (n::nat)"
proof -
  have "n div 262144 = n div 4096 div 64" using div_mult2_eq [of n 4096 64] by simp
  moreover have "n div 4096 div 64 * 64 + n div 4096 mod 64 = n div 4096" by simp
  ultimately show ?thesis using base64_3 [of n] by linarith
qed

lemma utf8_decode_encode: "is_scalar n \<Longrightarrow> utf8_decode (utf8_encode n) = Some [n]"
proof -
  assume n: "is_scalar n"
  have m: "k mod 64 < 64" for k :: nat by simp
  consider "n < 0x80" | "0x80 \<le> n" "n < 0x800" | "0x800 \<le> n" "n < 0x10000" | "0x10000 \<le> n" by linarith
  then show ?thesis
  proof cases
    case 1
    then show ?thesis by (simp add: utf8_encode_def byte_char_of)
  next
    case 2
    then have "2 \<le> n div 64" "n div 64 < 32" by auto
    then show ?thesis using 2 by (simp add: utf8_encode_def byte_char_of is_cont_def)
  next
    case 3
    define x y z where "x = n div 4096" and "y = n div 64 mod 64" and "z = n mod 64"
    have e: "x * 4096 + y * 64 + z = n" unfolding x_def y_def z_def by (rule base64_3)
    have b: "x < 16" "y < 64" "z < 64" using 3 by (auto simp: x_def y_def z_def)
    have "utf8_encode n = [char_of (0xE0 + x), char_of (0x80 + y), char_of (0x80 + z)]"
      using 3 by (simp add: utf8_encode_def x_def y_def z_def)
    then show ?thesis using b e n 3 by (simp add: byte_char_of is_cont_def Let_def)
  next
    case 4
    define w x y z where "w = n div 262144" and "x = n div 4096 mod 64" and "y = n div 64 mod 64"
      and "z = n mod 64"
    have e: "w * 262144 + x * 4096 + y * 64 + z = n" unfolding w_def x_def y_def z_def by (rule base64_4)
    have b: "w < 5" "x < 64" "y < 64" "z < 64" using n by (auto simp: w_def x_def y_def z_def is_scalar_def)
    have "utf8_encode n = [char_of (0xF0 + w), char_of (0x80 + x), char_of (0x80 + y), char_of (0x80 + z)]"
      using 4 by (simp add: utf8_encode_def w_def x_def y_def z_def)
    then show ?thesis using b e n 4 by (simp add: byte_char_of is_cont_def Let_def)
  qed
qed

lemma utf8_decode_scalars: "utf8_decode s = Some cs \<Longrightarrow> c \<in> set cs \<Longrightarrow> is_scalar c"
proof (induction s arbitrary: cs rule: measure_induct_rule [of length])
  case (less s)
  show ?case
  proof (cases s)
    case (Cons a r)
    show ?thesis
    proof (cases "byte a < 0x80")
      case True
      then have "is_scalar (byte a)" by (simp add: is_scalar_def)
      then show ?thesis using less.IH [of r] less.prems Cons True by auto
    next
      case False
      then obtain ms ls n where h: "r = ms @ ls" "is_scalar n"
          "\<And>v. utf8_decode (a # ms @ v) = map_option ((#) n) (utf8_decode v)"
        using utf8_decode_first [of a r] less.prems(1) Cons by fastforce
      then show ?thesis using less.IH [of ls] less.prems Cons by auto
    qed
  qed (use less.prems in simp)
qed

end
