(* ===== verification/PreprocessSpec.thy ===== *)
theory PreprocessSpec
  imports Preprocess Utf8
begin

text \<open>
  What conditional compilation promises (\<open>newm2-lexer/src/preprocess.rs\<close>): the output has the
  layout of the input and is valid UTF-8, every error is located and none is the model's own,
  directive expressions mean what their operators say, and a nest of \<open>%IF\<close> blocks keeps exactly
  the branches its conditions select.
\<close>

section \<open>Masks\<close>

text \<open>
  \<open>mask s t\<close>: \<open>t\<close> is \<open>s\<close> with some bytes blanked, and a run of non-ASCII bytes is blanked as a
  whole or not at all.
\<close>

definition high :: "char \<Rightarrow> bool" where
  "high c \<longleftrightarrow> 0x80 \<le> byte c"

fun mask :: "string \<Rightarrow> string \<Rightarrow> bool" where
  "mask [] t \<longleftrightarrow> t = []"
| "mask (c # s) t \<longleftrightarrow>
     (case t of [] \<Rightarrow> False
      | d # t' \<Rightarrow> (d = c \<or> d = blank c) \<and>
          (s \<noteq> [] \<longrightarrow> high c \<longrightarrow> high (hd s) \<longrightarrow> (d = c \<longleftrightarrow> hd t' = hd s)) \<and> mask s t')"

lemma mask_length: "mask s t \<Longrightarrow> length t = length s"
  by (induction s arbitrary: t) (auto split: list.splits)

lemma mask_nth: "mask s t \<Longrightarrow> i < length s \<Longrightarrow> t ! i = s ! i \<or> t ! i = blank (s ! i)"
  by (induction s arbitrary: t i) (auto split: list.splits simp: nth_Cons')

lemma mask_snoc:
  "mask (s @ [c]) (t @ [d]) \<longleftrightarrow>
     mask s t \<and> (d = c \<or> d = blank c) \<and>
     (s \<noteq> [] \<longrightarrow> high (last s) \<longrightarrow> high c \<longrightarrow> (last t = last s \<longleftrightarrow> d = c))"
proof (induction s arbitrary: t)
  case Nil
  show ?case by (cases t) (auto split: list.splits)
next
  case (Cons a s)
  show ?case
  proof (cases t)
    case Nil
    then show ?thesis using mask_length [of "s @ [c]" "[]"] by auto
  next
    case (Cons x t')
    show ?thesis
    proof (cases "s = []")
      case True
      then show ?thesis using Cons by (cases t') auto
    next
      case False
      then show ?thesis
        using Cons Cons.IH [of t'] mask_length [of s t'] by (cases t') (auto simp: hd_append)
    qed
  qed
qed

lemma blank_newline_iff: "blank c = newline \<longleftrightarrow> c = newline"
  by (simp add: blank_def newline_def)

lemma byte_blank: "byte (blank c) < 0x80"
  by (simp add: blank_def newline_def byte_def)

lemma blank_high: "high c \<Longrightarrow> blank c = CHR '' ''"
  by (auto simp: blank_def high_def newline_def byte_def)

lemma high_kept: "high c \<Longrightarrow> c \<noteq> CHR '' ''"
  by (auto simp: high_def byte_def)

lemma mask_high_run:
  "mask (xs @ s) t \<Longrightarrow> list_all high xs \<Longrightarrow>
   \<exists>t'. (t = xs @ t' \<or> t = replicate (length xs) CHR '' '' @ t') \<and> mask s t'"
proof (induction xs arbitrary: t)
  case (Cons a xs)
  then obtain d t' where t: "t = d # t'" "d = a \<or> d = CHR '' ''" "mask (xs @ s) t'"
    by (auto split: list.splits simp: blank_high)
  from Cons.IH [OF t(3)] Cons.prems(2) obtain u
    where u: "t' = xs @ u \<or> t' = replicate (length xs) CHR '' '' @ u" "mask s u" by auto
  show ?case
  proof (cases xs)
    case Nil
    then show ?thesis using t u by auto
  next
    case (Cons b ys)
    then have "d = a \<longleftrightarrow> hd t' = b"
      using \<open>mask ((a # xs) @ s) t\<close> \<open>list_all high (a # xs)\<close> t(1) by (auto split: list.splits)
    then show ?thesis
      using t u Cons \<open>list_all high (a # xs)\<close> by (auto dest: high_kept)
  qed
qed auto

lemma utf8_decode_spaces: "utf8_decode v \<noteq> None \<Longrightarrow> utf8_decode (replicate n CHR '' '' @ v) \<noteq> None"
  by (induction n) (auto simp: byte_def)

lemma cont_high: "is_cont c \<Longrightarrow> high c"
  by (simp add: is_cont_def high_def)

lemma mask_utf8: "utf8_decode s \<noteq> None \<Longrightarrow> mask s t \<Longrightarrow> utf8_decode t \<noteq> None"
proof (induction s arbitrary: t rule: measure_induct_rule [of length])
  case (less s)
  show ?case
  proof (cases s)
    case Nil
    then show ?thesis using less.prems by simp
  next
    case (Cons a r)
    show ?thesis
    proof (cases "byte a < 0x80")
      case True
      obtain d t' where t: "t = d # t'" "d = a \<or> d = blank a" "mask r t'"
        using less.prems(2) Cons by (auto split: list.splits)
      have "utf8_decode t' \<noteq> None"
        using less.IH [of r t'] less.prems(1) Cons True t(3) by simp
      then show ?thesis using t(1,2) True byte_blank by auto
    next
      case False
      obtain ms ls where r: "r = ms @ ls" "list_all is_cont ms" "utf8_decode ls \<noteq> None"
        and keep: "\<And>v. utf8_decode v \<noteq> None \<Longrightarrow> utf8_decode (a # ms @ v) \<noteq> None"
        using utf8_decode_head [of a r] less.prems(1) Cons False by metis
      have "list_all high (a # ms)" using r(2) False by (auto simp: high_def list_all_iff is_cont_def)
      then obtain t' where t: "t = (a # ms) @ t' \<or> t = replicate (length (a # ms)) CHR '' '' @ t'" "mask ls t'"
        using mask_high_run [of "a # ms" ls t] less.prems(2) Cons r(1) by auto
      have "utf8_decode t' \<noteq> None" using less.IH [OF _ r(3) t(2)] Cons r(1) by simp
      then show ?thesis using t(1) keep [of t'] utf8_decode_spaces [of t'] by (metis append_Cons)
    qed
  qed
qed

section \<open>The mask invariant of the scan\<close>

text \<open>\<open>masked b p\<close>: what is written masks what is read, and a multi-byte character the cursor may
  be inside of has been kept so far exactly if \<open>b\<close>.\<close>

definition masked :: "bool \<Rightarrow> preproc \<Rightarrow> bool" where
  "masked b p \<longleftrightarrow>
     offset (pp_pos p) \<le> length (pp_src p) \<and>
     (let done = take (offset (pp_pos p)) (pp_src p)
      in mask done (pp_out p) \<and> (done \<noteq> [] \<longrightarrow> high (last done) \<longrightarrow> (last (pp_out p) = last done \<longleftrightarrow> b)))"

lemma masked_new: "masked b (preproc_new src e)"
  by (simp add: masked_def preproc_new_def)

lemma masked_fields [simp]:
  "masked b (p\<lparr>pp_env := e\<rparr>) = masked b p" "masked b (p\<lparr>pp_stack := st\<rparr>) = masked b p"
  by (simp_all add: masked_def)

lemma masked_write:
  assumes "masked b p" "pp_peek p = Some c" "pp_src q = pp_src p"
    "offset (pp_pos q) = Suc (offset (pp_pos p))" "pp_out q = pp_out p @ [d]" "d = c \<or> d = blank c"
    "high c \<Longrightarrow> (d = c \<longleftrightarrow> b) \<and> b' = b"
  shows "masked b' q"
proof -
  have "offset (pp_pos p) < length (pp_src p)" "pp_src p ! offset (pp_pos p) = c"
    using assms(2) by (auto simp: pp_peek_def)
  then show ?thesis
    using assms by (auto simp: masked_def Let_def take_Suc_conv_app_nth mask_snoc)
qed

lemma high_blank: "high c \<Longrightarrow> blank c \<noteq> c"
  using blank_high high_kept by metis

lemma masked_emit: "masked (active p) p \<Longrightarrow> pp_peek p = Some c \<Longrightarrow> masked (active p) (emit_byte c p)"
  by (rule masked_write [of "active p" p c]) (auto simp: emit_byte_pos dest: high_blank split: if_splits)

lemma masked_erase: "masked False p \<Longrightarrow> pp_peek p = Some c \<Longrightarrow> masked False (erase_byte p)"
  by (rule masked_write [of False p c]) (auto simp: erase_byte_pos erase_byte_out blank_high dest: high_kept)

lemma masked_erase_ascii:
  "masked b p \<Longrightarrow> pp_peek p = Some c \<Longrightarrow> \<not> high c \<Longrightarrow> masked b' (erase_byte p)"
  by (rule masked_write [of b p c]) (auto simp: erase_byte_pos erase_byte_out)

lemma active_env [simp]: "active (p\<lparr>pp_env := e\<rparr>) = active p"
  by (simp add: active_def)

lemma masked_copy_step: "copy_step p q \<Longrightarrow> masked (active p) p \<Longrightarrow> masked (active q) q \<and> active q = active p"
  by (auto simp: copy_step_def intro: masked_emit)

lemma masked_copy_steps: "copy_step\<^sup>*\<^sup>* p q \<Longrightarrow> masked (active p) p \<Longrightarrow> masked (active q) q"
  by (induction rule: rtranclp_induct) (auto dest: masked_copy_step)

section \<open>The directive parser always finishes\<close>

lemma ep_while_left: "ep_left (ep_while P p) \<le> ep_left p"
proof (induction P p rule: ep_while.induct)
  case (1 P p)
  show ?case
  proof (cases "ep_peek p")
    case None
    then show ?thesis by (simp add: ep_while.simps [of P p])
  next
    case (Some c)
    then show ?thesis
      using "1.IH" [OF Some] less_imp_le [OF ep_left_bump [OF Some]]
      by (auto simp: ep_while.simps [of P p])
  qed
qed

lemma skip_ws_left: "ep_left (skip_ws p) \<le> ep_left p"
  by (simp add: skip_ws_def ep_while_left)

lemma ep_bump_left: "ep_left (ep_bump p) \<le> ep_left p"
  by (auto simp: ep_bump_def ep_left_def split: option.split)

lemma ep_matches_left: "ep_matches s p = Some q \<Longrightarrow> s \<noteq> [] \<Longrightarrow> ep_left q < ep_left p"
proof -
  assume "ep_matches s p = Some q" "s \<noteq> []"
  then have t: "take (length s) (drop (ep_pos p) (ep_src p)) = s" "q = p\<lparr>ep_pos := ep_pos p + length s\<rparr>"
    by (auto simp: ep_matches_def split: if_splits)
  then have "0 < length (drop (ep_pos p) (ep_src p))" using \<open>s \<noteq> []\<close> by (metis length_greater_0_conv take_Nil)
  then show ?thesis using t(2) \<open>s \<noteq> []\<close> by (cases s) (auto simp: ep_left_def)
qed

lemma parse_value_left: "parse_value p = Inr (v, q) \<Longrightarrow> ep_left q \<le> ep_left p"
  by (auto simp: parse_value_def parse_identifier_value_def parse_number_value_def parse_string_value_def Let_def
      split: option.splits if_splits
      intro: order_trans [OF ep_while_left] order_trans [OF ep_bump_left] skip_ws_left)

lemma parse_comparison_left:
  assumes "parse_comparison p = Inr (v, q)"
  shows "ep_left q \<le> ep_left p"
proof -
  obtain w r where w: "parse_value p = Inr (w, r)"
    using assms by (auto simp: parse_comparison_def)
  then have "ep_left (skip_ws r) \<le> ep_left p" by (rule order_trans [OF skip_ws_left parse_value_left])
  moreover have "q = skip_ws r \<or> (\<exists>s t u. s \<noteq> [] \<and> ep_matches s (skip_ws r) = Some t \<and> parse_value t = Inr (u, q))"
    using assms w by (auto simp: parse_comparison_def Let_def split: option.splits expr_value.splits)
  ultimately show ?thesis by (auto dest!: ep_matches_left parse_value_left)
qed

lemma parse_left:
  "parse_or n p = Inr (v, q) \<Longrightarrow> ep_left q \<le> ep_left p"
  "or_loop n a p = Inr (v, q) \<Longrightarrow> ep_left q \<le> ep_left p"
  "parse_and n p = Inr (v, q) \<Longrightarrow> ep_left q \<le> ep_left p"
  "and_loop n a p = Inr (v, q) \<Longrightarrow> ep_left q \<le> ep_left p"
  "parse_unary n p = Inr (v, q) \<Longrightarrow> ep_left q \<le> ep_left p"
  "parse_primary n p = Inr (v, q) \<Longrightarrow> ep_left q \<le> ep_left p"
proof (induction n p and n a p and n p and n a p and n p and n p
    arbitrary: v q and v q and v q and v q and v q and v q
    rule: parse_or_or_loop_parse_and_and_loop_parse_unary_parse_primary.induct)
  case (4 n a p)
  show ?case
  proof (cases "ep_matches ''||'' (skip_ws p)")
    case None
    then show ?thesis using "4.prems" skip_ws_left [of p] by (auto simp: Let_def)
  next
    case (Some r)
    then obtain b s where r: "parse_and n r = Inr (b, s)" "or_loop n (a \<or> b) s = Inr (v, q)"
      using "4.prems" by (auto simp: Let_def)
    then show ?thesis
      using "4.IH"(1) [OF refl Some r(1)] "4.IH"(2) [OF refl Some r(1) refl r(2)]
        ep_matches_left [OF Some] skip_ws_left [of p] by simp
  qed
next
  case (8 n a p)
  show ?case
  proof (cases "ep_matches ''&&'' (skip_ws p)")
    case None
    then show ?thesis using "8.prems" skip_ws_left [of p] by (auto simp: Let_def)
  next
    case (Some r)
    then obtain b s where r: "parse_unary n r = Inr (b, s)" "and_loop n (a \<and> b) s = Inr (v, q)"
      using "8.prems" by (auto simp: Let_def)
    then show ?thesis
      using "8.IH"(1) [OF refl Some r(1)] "8.IH"(2) [OF refl Some r(1) refl r(2)]
        ep_matches_left [OF Some] skip_ws_left [of p] by simp
  qed
next
  case (10 n p)
  show ?case
  proof (cases "ep_matches ''!'' (skip_ws p)")
    case None
    then show ?thesis using "10.prems" "10.IH"(1) [OF refl None] skip_ws_left [of p]
      by (auto simp: Let_def intro: order_trans)
  next
    case (Some r)
    then obtain b where r: "parse_unary n r = Inr (b, q)"
      using "10.prems" by (auto simp: Let_def)
    then show ?thesis
      using "10.IH"(2) [OF refl Some r] ep_matches_left [OF Some] skip_ws_left [of p] by simp
  qed
next
  case (12 n p)
  obtain c where c: "ep_peek (skip_ws p) = Some c"
    using "12.prems" by (cases "ep_peek (skip_ws p)") (auto simp: Let_def)
  show ?case
  proof (cases "c = CHR ''(''")
    case True
    then obtain r where r: "parse_or n (ep_bump (skip_ws p)) = Inr (v, r)" "q = ep_bump (skip_ws r)"
      using "12.prems" c by (auto simp: Let_def split: if_splits)
    then show ?thesis
      using "12.IH" [OF refl c True r(1)] ep_bump_left [of "skip_ws r"] ep_bump_left [of "skip_ws p"]
        skip_ws_left [of p] skip_ws_left [of r] by simp
  next
    case False
    then obtain w where "parse_comparison (skip_ws p) = Inr (w, q)"
      using "12.prems" c by (auto simp: Let_def)
    then show ?thesis using parse_comparison_left skip_ws_left [of p] by (blast intro: order_trans)
  qed
qed fastforce+

text \<open>The errors a directive expression can end in.\<close>

fun expr_message :: "lex_message \<Rightarrow> bool" where
  "expr_message ExprExpectedParen = True"
| "expr_message ExprUnexpectedEnd = True"
| "expr_message (ExprUnexpectedChar c) = True"
| "expr_message ExprUnterminatedString = True"
| "expr_message (ExprTrailing s) = True"
| "expr_message _ = False"

definition expr_fine :: "lex_message + 'a \<Rightarrow> bool" where
  "expr_fine r = (case r of Inl m \<Rightarrow> expr_message m | Inr _ \<Rightarrow> True)"

lemma expr_fine_simps [simp]: "expr_fine (Inl m) = expr_message m" "expr_fine (Inr x)"
  by (simp_all add: expr_fine_def)

lemma expr_fine_bind: "expr_fine (rbind r f) \<longleftrightarrow> expr_fine r \<and> (\<forall>x. r = Inr x \<longrightarrow> expr_fine (f x))"
  by (cases r) simp_all

lemma parse_value_fuel: "expr_fine (parse_value p)"
  by (auto simp: parse_value_def parse_identifier_value_def parse_number_value_def parse_string_value_def Let_def
      split: option.splits)

lemma parse_comparison_fuel: "expr_fine (parse_comparison p)"
  by (auto simp: parse_comparison_def Let_def parse_value_fuel expr_fine_bind
      split: option.splits expr_value.splits)

text \<open>Enough fuel: six calls for each byte left, plus the depth of the grammar below the call.\<close>

lemma parse_fuel:
  "6 * ep_left p + 5 < n \<Longrightarrow> expr_fine (parse_or n p)"
  "6 * ep_left p + 4 < n \<Longrightarrow> expr_fine (or_loop n a p)"
  "6 * ep_left p + 4 < n \<Longrightarrow> expr_fine (parse_and n p)"
  "6 * ep_left p + 3 < n \<Longrightarrow> expr_fine (and_loop n a p)"
  "6 * ep_left p + 3 < n \<Longrightarrow> expr_fine (parse_unary n p)"
  "6 * ep_left p + 2 < n \<Longrightarrow> expr_fine (parse_primary n p)"
proof (induction n p and n a p and n p and n a p and n p and n p
    rule: parse_or_or_loop_parse_and_and_loop_parse_unary_parse_primary.induct)
  case (2 n p)
  show ?case
  proof (cases "parse_and n p")
    case (Inr r)
    then obtain v q where r: "r = (v, q)" "parse_and n p = Inr (v, q)" by (cases r) auto
    have "expr_fine (or_loop n v q)"
      using "2.IH"(2) [OF r(2) refl] "2.prems" parse_left(3) [OF r(2)] by simp
    then show ?thesis using r by simp
  qed (use 2 in auto)
next
  case (4 n a p)
  show ?case
  proof (cases "ep_matches ''||'' (skip_ws p)")
    case (Some r)
    have less: "ep_left r < ep_left p"
      using ep_matches_left [OF Some] skip_ws_left [of p] by simp
    have and_ok: "expr_fine (parse_and n r)"
      using "4.IH"(1) [OF refl Some] less "4.prems" by simp
    show ?thesis
    proof (cases "parse_and n r")
      case (Inr w)
      then obtain b s where r: "w = (b, s)" "parse_and n r = Inr (b, s)" by (cases w) auto
      then show ?thesis
        using "4.IH"(2) [OF refl Some r(2) refl] less "4.prems" parse_left(3) [OF r(2)] Some by simp
    qed (use and_ok Some in simp)
  qed simp
next
  case (6 n p)
  show ?case
  proof (cases "parse_unary n p")
    case (Inr r)
    then obtain v q where r: "r = (v, q)" "parse_unary n p = Inr (v, q)" by (cases r) auto
    have "expr_fine (and_loop n v q)"
      using "6.IH"(2) [OF r(2) refl] "6.prems" parse_left(5) [OF r(2)] by simp
    then show ?thesis using r by simp
  qed (use 6 in auto)
next
  case (8 n a p)
  show ?case
  proof (cases "ep_matches ''&&'' (skip_ws p)")
    case (Some r)
    have less: "ep_left r < ep_left p"
      using ep_matches_left [OF Some] skip_ws_left [of p] by simp
    have and_ok: "expr_fine (parse_unary n r)"
      using "8.IH"(1) [OF refl Some] less "8.prems" by simp
    show ?thesis
    proof (cases "parse_unary n r")
      case (Inr w)
      then obtain b s where r: "w = (b, s)" "parse_unary n r = Inr (b, s)" by (cases w) auto
      then show ?thesis
        using "8.IH"(2) [OF refl Some r(2) refl] less "8.prems" parse_left(5) [OF r(2)] Some by simp
    qed (use and_ok Some in simp)
  qed simp
next
  case (10 n p)
  show ?case
  proof (cases "ep_matches ''!'' (skip_ws p)")
    case None
    then show ?thesis using "10.IH"(1) [OF refl None] "10.prems" skip_ws_left [of p] by simp
  next
    case (Some r)
    have "expr_fine (parse_unary n r)"
      using "10.IH"(2) [OF refl Some] "10.prems" ep_matches_left [OF Some] skip_ws_left [of p] by simp
    then show ?thesis using Some by (auto simp: expr_fine_bind)
  qed
next
  case (12 n p)
  show ?case
  proof (cases "ep_peek (skip_ws p)")
    case (Some c)
    show ?thesis
    proof (cases "c = CHR ''(''")
      case True
      have "expr_fine (parse_or n (ep_bump (skip_ws p)))"
        using "12.IH" [OF refl Some True] "12.prems" ep_left_bump [OF Some] skip_ws_left [of p] by simp
      then show ?thesis using Some True by (auto simp: expr_fine_bind Let_def)
    next
      case False
      then show ?thesis using Some by (auto simp: expr_fine_bind parse_comparison_fuel)
    qed
  qed simp
qed auto

lemma eval_text_fuel: "expr_fine (eval_text e s)"
proof -
  have "expr_fine (parse_or (expr_fuel s) \<lparr>ep_src = s, ep_pos = 0, ep_env = e\<rparr>)"
    by (rule parse_fuel(1)) (simp add: ep_left_def expr_fuel_def)
  then show ?thesis
    by (auto simp: eval_text_def expr_fine_bind expect_eof_def Let_def split: if_splits)
qed

section \<open>Positions and messages of errors\<close>

text \<open>\<open>bad_at p err\<close>: the error lies at a position the scan passes, or at \<open>start\<close>.\<close>

definition bad_from :: "position \<Rightarrow> preproc \<Rightarrow> lex_error \<Rightarrow> bool" where
  "bad_from start p err \<longleftrightarrow>
     message err \<noteq> OutOfFuel \<and> message err \<noteq> OutputNotUtf8 \<and>
     (err_position err = start \<or> (\<exists>r. pp_step\<^sup>*\<^sup>* p r \<and> err_position err = pp_pos r))"

definition bad_at :: "preproc \<Rightarrow> lex_error \<Rightarrow> bool" where
  "bad_at p = bad_from (pp_pos p) p"

lemma bad_from_later: "bad_from start q err \<Longrightarrow> pp_step\<^sup>*\<^sup>* p q \<Longrightarrow> bad_from start p err"
  unfolding bad_from_def by (blast intro: rtranclp_trans)

lemma bad_at_from: "bad_at p err \<Longrightarrow> bad_from start p err"
  unfolding bad_at_def bad_from_def by blast

lemma bad_at_later: "bad_at q err \<Longrightarrow> pp_step\<^sup>*\<^sup>* p q \<Longrightarrow> bad_at p err"
  unfolding bad_at_def bad_from_def by (blast intro: rtranclp_trans)

lemma bad_from_at: "bad_from (pp_pos p) p err \<Longrightarrow> bad_at p err"
  by (simp add: bad_at_def)

lemma bad_start:
  "m \<noteq> OutOfFuel \<Longrightarrow> m \<noteq> OutputNotUtf8 \<Longrightarrow> bad_from start p (lex_err m start)"
  by (simp add: bad_from_def lex_err_def)

lemma emit_pp_steps [simp]: "pp_peek p = Some c \<Longrightarrow> pp_step\<^sup>*\<^sup>* p (emit_byte c p)"
  by (blast intro: copy_steps_pp_steps copy_emit)

lemma pp_steps_emit2:
  "pp_peek p = Some c \<Longrightarrow> pp_peek_at p 1 = Some d \<Longrightarrow> pp_step\<^sup>*\<^sup>* p (emit_byte d (emit_byte c p))"
  by (metis emit_pp_steps pp_peek_at_1 rtranclp_trans)

lemma copy_string_loop_bad: "copy_string_loop start quote p = Inl err \<Longrightarrow> bad_from start p err"
proof (induction start quote p rule: copy_string_loop.induct)
  case (1 start quote p)
  show ?case
    using "1.prems" "1.IH" bad_start [of UnterminatedString start p]
    by (auto simp: copy_string_loop.simps [of start quote p] split: option.splits if_splits
        intro: bad_from_later)
qed

lemma copy_pragma_loop_bad: "copy_pragma_loop start b p = Inl err \<Longrightarrow> bad_from start p err"
proof (induction start b p rule: copy_pragma_loop.induct)
  case (1 start b p)
  show ?case
    using "1.prems" "1.IH" bad_start [of UnterminatedPragma start p]
    by (auto simp: copy_pragma_loop.simps [of start b p] Let_def split: option.splits if_splits
        intro: bad_from_later)
qed

lemma copy_string_bad: "copy_string c p = Inl err \<Longrightarrow> pp_peek p = Some c \<Longrightarrow> bad_at p err"
  unfolding copy_string_def by (blast intro: bad_from_at bad_from_later copy_string_loop_bad emit_pp_steps)

lemma copy_pragma_bad:
  "copy_pragma p = Inl err \<Longrightarrow> pp_peek p = Some CHR ''<'' \<Longrightarrow> pp_peek_at p 1 = Some CHR ''*'' \<Longrightarrow> bad_at p err"
  unfolding copy_pragma_def Let_def
  by (blast intro: bad_from_at bad_from_later copy_pragma_loop_bad pp_steps_emit2)

lemma copy_comment_loop_bad: "copy_comment_loop start depth p = Inl err \<Longrightarrow> bad_from start p err"
proof (induction p arbitrary: depth rule: measure_induct_rule [of pp_left])
  case (less p)
  note unf = copy_comment_loop.simps [of start depth p]
  have d: "depth \<noteq> 0"
    using less.prems copy_comment_loop.simps [of start 0 p] by (cases "depth = 0") simp_all
  show ?case
  proof (cases "pp_peek p")
    case None
    then show ?thesis using less.prems d bad_start [of UnterminatedBlockComment start p] by (simp add: unf)
  next
    case (Some c)
    note IH = less.IH [THEN bad_from_later]
    show ?thesis
    proof (cases "c = CHR ''<'' \<and> pp_peek_at p 1 = Some CHR ''*'' \<and> pragma_closes_within_comment p")
      case True
      then consider "copy_pragma p = Inl err"
        | r where "copy_pragma p = Inr r" "copy_comment_loop start depth r = Inl err"
        using less.prems d Some by (auto simp: unf rbind_eq_Inl)
      then show ?thesis
      proof cases
        case 1
        then show ?thesis using copy_pragma_bad True Some by (blast intro: bad_at_from)
      next
        case 2
        then show ?thesis
          using IH [OF copy_pragma_left [OF _ Some] 2(2) copy_steps_pp_steps] copy_pragma_steps True Some by blast
      qed
    next
      case plain: False
      then have "(\<exists>e. copy_comment_loop start e (emit_byte c p) = Inl err) \<or>
        (\<exists>x e. pp_peek_at p 1 = Some x \<and> copy_comment_loop start e (emit_byte x (emit_byte c p)) = Inl err)"
        using less.prems d Some by (simp add: unf split: if_splits) blast+
      then show ?thesis
        using IH [OF pp_left_emit [OF Some]] IH [OF pp_left_emit2 [OF Some]] emit_pp_steps [OF Some]
          pp_steps_emit2 [OF Some] by blast
    qed
  qed
qed

lemma copy_block_comment_bad:
  "copy_block_comment p = Inl err \<Longrightarrow> pp_peek p = Some CHR ''('' \<Longrightarrow> pp_peek_at p 1 = Some CHR ''*'' \<Longrightarrow>
   bad_at p err"
  unfolding copy_block_comment_def
  by (blast intro: bad_from_at bad_from_later copy_comment_loop_bad pp_steps_emit2)

lemma eval_expr_bad: "eval_expr s start p = Inl err \<Longrightarrow> bad_from start q err"
  using eval_text_fuel [of "pp_env p" s]
  by (auto simp: eval_expr_def map_err_def split: sum.splits intro: bad_start)

lemma read_expr_loop_bad: "read_expr_loop start buf p = Inl err \<Longrightarrow> bad_from start p err"
proof (induction p arbitrary: buf rule: measure_induct_rule [of pp_left])
  case (less p)
  note unf = read_expr_loop.simps [of start buf p] and IH = less.IH [THEN bad_from_later]
  show ?case
  proof (cases "pp_peek p")
    case None
    then show ?thesis using less.prems bad_start [of MissingThen start p] by (simp add: unf)
  next
    case (Some c)
    have here: "bad_from start p (lex_err (UnexpectedInIf kw) (pp_pos p))" for kw
      by (auto simp: bad_from_def lex_err_def)
    then show ?thesis
      using less.prems Some eval_expr_bad IH [OF pp_left_erase [OF Some]]
        IH [OF pp_left_erase_bytes [OF Some]]
      by (auto simp: unf Let_def rbind_eq_Inl split: if_splits option.splits)
  qed
qed

lemma handle_directive_bad: "handle_directive p = Inl err \<Longrightarrow> bad_at p err"
proof -
  assume err: "handle_directive p = Inl err"
  define q where "q = erase_letters (erase_byte p)"
  have pq: "pp_step\<^sup>*\<^sup>* p q"
    unfolding q_def by (rule rtranclp_trans [OF erase_byte_steps erase_letters_steps])
  have "read_expr_then q = Inl err \<or>
      (\<exists>m. message err = m \<and> err_position err = pp_pos p \<and> m \<noteq> OutOfFuel \<and> m \<noteq> OutputNotUtf8)"
    using err unfolding handle_directive_def Let_def q_def [symmetric]
    by (auto simp: rbind_eq_Inl lex_err_def split: if_splits list.splits)
  then show ?thesis
  proof
    assume "read_expr_then q = Inl err"
    then have "bad_at q err" unfolding read_expr_then_def by (rule bad_from_at [OF read_expr_loop_bad])
    then show ?thesis using pq by (rule bad_at_later)
  qed (auto simp: bad_at_def bad_from_def)
qed

text \<open>Every round of the main loop goes on from a state the scan has stepped to.\<close>

definition run_round :: "preproc \<Rightarrow> lex_error + preproc" where
  "run_round p =
     (case pp_peek p of
        None \<Rightarrow> Inr p
      | Some c \<Rightarrow>
        if c = CHR ''('' \<and> pp_peek_at p 1 = Some CHR ''*'' then copy_block_comment p
        else if c = CHR ''/'' \<and> pp_peek_at p 1 = Some CHR ''/'' then Inr (copy_line_comment p)
        else if c = CHR 0x22 \<or> c = CHR 0x27 then copy_string c p
        else if c = CHR ''<'' \<and> pp_peek_at p 1 = Some CHR ''*'' then copy_pragma p
        else if c = CHR ''%'' then handle_directive p
        else Inr (emit_byte c p))"

lemma run_unfold:
  "run p =
     (if pp_peek p = None then (if pp_stack p \<noteq> [] then Inl (lex_err UnterminatedIf (pp_pos p)) else Inr p)
      else rbind (run_round p) run)"
  by (subst run.simps) (simp add: run_round_def split: option.split)

lemma run_round_steps: "run_round p = Inr q \<Longrightarrow> pp_step\<^sup>*\<^sup>* p q"
  by (auto simp: run_round_def copy_line_comment_pp_steps copy_steps_pp_steps copy_block_comment_steps
      copy_string_steps copy_pragma_steps handle_directive_steps split: option.splits if_splits)

lemma run_round_left: "run_round p = Inr q \<Longrightarrow> pp_peek p \<noteq> None \<Longrightarrow> pp_left q < pp_left p"
  by (auto simp: run_round_def copy_block_comment_less copy_line_comment_less copy_string_less
      copy_pragma_left handle_directive_left pp_left_emit split: option.splits if_splits)

lemma run_round_bad: "run_round p = Inl err \<Longrightarrow> bad_at p err"
  by (auto simp: run_round_def copy_block_comment_bad copy_string_bad copy_pragma_bad handle_directive_bad
      split: option.splits if_splits)

lemma run_bad: "run p = Inl err \<Longrightarrow> bad_at p err"
proof (induction p rule: measure_induct_rule [of pp_left])
  case (less p)
  show ?case
  proof (cases "pp_peek p")
    case None
    then show ?thesis
      using less.prems bad_start [of UnterminatedIf "pp_pos p" p]
      by (auto simp: run_unfold [of p] bad_at_def split: if_splits)
  next
    case (Some c)
    then consider "run_round p = Inl err" | q where "run_round p = Inr q" "run q = Inl err"
      using less.prems by (auto simp: run_unfold [of p] rbind_eq_Inl)
    then show ?thesis
    proof cases
      case 1
      then show ?thesis by (rule run_round_bad)
    next
      case 2
      then show ?thesis
        using less.IH [OF run_round_left] Some run_round_steps bad_at_later by blast
    qed
  qed
qed

section \<open>Directives leave no character half blanked\<close>

definition between_chars :: "preproc \<Rightarrow> bool" where
  "between_chars p \<longleftrightarrow> (\<forall>b. masked b p)"

lemma between_fields [simp]: "between_chars (p\<lparr>pp_stack := st\<rparr>) = between_chars p"
  by (simp add: between_chars_def)

lemma between_erase: "masked b p \<Longrightarrow> pp_peek p = Some c \<Longrightarrow> \<not> high c \<Longrightarrow> between_chars (erase_byte p)"
  by (simp add: between_chars_def masked_erase_ascii)

lemma alphabetic_not_high: "is_ascii_alphabetic c \<Longrightarrow> \<not> high c"
  by (auto simp: ascii_class_defs high_def)

lemma between_erase_letters: "between_chars p \<Longrightarrow> between_chars (erase_letters p)"
proof (induction p rule: erase_letters.induct)
  case (1 p)
  show ?case
    using "1.prems" "1.IH" between_erase [of True p] alphabetic_not_high
    by (auto simp: erase_letters.simps [of p] between_chars_def split: option.split)
qed

lemma between_erase_bytes:
  "between_chars p \<Longrightarrow> (\<And>i. i < n \<Longrightarrow> \<exists>c. pp_peek_at p i = Some c \<and> \<not> high c) \<Longrightarrow>
   between_chars (erase_bytes n p)"
proof (induction n arbitrary: p)
  case 0
  then show ?case by (simp add: erase_bytes_def)
next
  case (Suc n)
  obtain c where c: "pp_peek p = Some c" "\<not> high c"
    using Suc.prems(2) [of 0] by (auto simp: pp_peek_at_def pp_peek_def)
  have "\<exists>c. pp_peek_at (erase_byte p) i = Some c \<and> \<not> high c" if "i < n" for i
    using Suc.prems(2) [of "Suc i"] that by (simp add: pp_peek_at_def erase_byte_pos [OF c(1)])
  then show ?case
    using Suc.IH [of "erase_byte p"] between_erase [OF _ c] Suc.prems(1)
    unfolding erase_bytes_Suc between_chars_def by blast
qed

lemma probe_peek:
  assumes "i < length (probe_keyword p)"
  shows "\<exists>c. pp_peek_at p (Suc i) = Some c \<and> \<not> high c"
proof -
  let ?d = "drop (offset (pp_pos p) + 1) (pp_src p)"
  have "i < length ?d" using assms length_takeWhile_le [of is_ascii_alphabetic ?d]
    by (simp add: probe_keyword_def)
  moreover have "is_ascii_alphabetic (?d ! i)"
    using assms unfolding probe_keyword_def by (metis nth_mem set_takeWhileD takeWhile_nth)
  ultimately show ?thesis
    by (auto simp: pp_peek_at_def get_at_def add_ac dest: alphabetic_not_high)
qed

lemma between_erase_directive:
  assumes "masked b p" "pp_peek p = Some CHR ''%''"
  shows "between_chars (erase_bytes (Suc (length (probe_keyword p))) p)"
proof -
  have "\<not> high CHR ''%''" by (simp add: high_def byte_def)
  with assms have "between_chars (erase_byte p)" by (rule between_erase)
  moreover have "\<exists>c. pp_peek_at (erase_byte p) i = Some c \<and> \<not> high c" if "i < length (probe_keyword p)" for i
    using probe_peek [OF that] by (simp add: pp_peek_at_def erase_byte_pos [OF assms(2)])
  ultimately show ?thesis unfolding erase_bytes_Suc by (rule between_erase_bytes)
qed

lemma between_read_expr_loop:
  "read_expr_loop start buf p = Inr (v, q) \<Longrightarrow> masked False p \<Longrightarrow> between_chars q"
proof (induction p arbitrary: buf rule: measure_induct_rule [of pp_left])
  case (less p)
  then obtain c where c: "pp_peek p = Some c"
    by (cases "pp_peek p") (auto simp: read_expr_loop.simps [of start buf p])
  note unf = read_expr_loop.simps [of start buf p]
  show ?case
  proof (cases "c = CHR ''%''")
    case True
    have free: "between_chars (erase_bytes (Suc (length (probe_keyword p))) p)"
      using between_erase_directive less.prems(2) c True by blast
    then show ?thesis
      using less.prems(1) c True less.IH [OF pp_left_erase_bytes [OF c]]
      by (auto simp: unf Let_def between_chars_def split: if_splits option.splits)
  next
    case False
    then show ?thesis
      using less.prems c less.IH [OF pp_left_erase [OF c]] masked_erase by (auto simp: unf)
  qed
qed

lemma between_directive:
  assumes "handle_directive p = Inr q" "masked b p" "pp_peek p = Some CHR ''%''"
  shows "between_chars q"
proof -
  define r where "r = erase_letters (erase_byte p)"
  have r: "between_chars r"
    unfolding r_def
    by (rule between_erase_letters [OF between_erase [OF assms(2,3)]]) (simp add: high_def byte_def)
  have "(\<exists>st. q = r\<lparr>pp_stack := st\<rparr>) \<or> (\<exists>v s st. read_expr_then r = Inr (v, s) \<and> q = s\<lparr>pp_stack := st\<rparr>)"
    using assms(1) unfolding handle_directive_def Let_def r_def [symmetric]
    by (auto split: if_splits list.splits)
  then show ?thesis
    using r between_read_expr_loop unfolding read_expr_then_def by (auto simp: between_chars_def)
qed

lemma masked_round:
  assumes "run_round p = Inr q" "masked (active p) p"
  shows "masked (active q) q"
proof (cases "copy_step\<^sup>*\<^sup>* p q")
  case True
  then show ?thesis using masked_copy_steps assms(2) by blast
next
  case False
  then have "handle_directive p = Inr q" "pp_peek p = Some CHR ''%''"
    using assms(1) copy_line_comment_steps copy_block_comment_steps copy_string_steps copy_pragma_steps copy_emit
    by (auto simp: run_round_def split: option.splits if_splits)
  then show ?thesis using between_directive assms(2) by (auto simp: between_chars_def)
qed

lemma masked_run:
  "run p = Inr q \<Longrightarrow> masked (active p) p \<Longrightarrow>
   mask (pp_src p) (pp_out q) \<and> pp_stack q = [] \<and> pp_peek q = None"
proof (induction p rule: measure_induct_rule [of pp_left])
  case (less p)
  show ?case
  proof (cases "pp_peek p")
    case None
    then show ?thesis
      using less.prems by (auto simp: run_unfold [of p] masked_def Let_def pp_peek_def split: if_splits)
  next
    case (Some c)
    then obtain r where r: "run_round p = Inr r" "run r = Inr q"
      using less.prems(1) by (auto simp: run_unfold [of p])
    then show ?thesis
      using less.IH [OF run_round_left [OF r(1)] r(2)] masked_round [OF r(1) less.prems(2)] Some
        pp.steps_src [OF run_round_steps [OF r(1)]] by simp
  qed
qed

section \<open>Layout\<close>

lemma mask_newlines:
  "mask s t \<Longrightarrow> pos_at t k = pos_at s k"
proof (induction k)
  case (Suc k)
  show ?case
  proof (cases "k < length s")
    case True
    moreover have "next_pos (t ! k) p = next_pos (s ! k) p" for p
      using mask_nth [OF Suc.prems True] by (auto simp: next_pos_def blank_newline_iff eq_commute [of newline])
    ultimately show ?thesis
      using Suc mask_length [OF Suc.prems] by (simp add: pos_at_Suc)
  next
    case False
    then show ?thesis using Suc mask_length [OF Suc.prems] by (simp add: pos_at_def)
  qed
qed simp

lemma mask_refl: "mask s s"
  by (induction s) auto

lemma run_new_mask: "run (preproc_new src e) = Inr q \<Longrightarrow> mask src (pp_out q)"
  using masked_run [of "preproc_new src e" q] masked_new by (simp add: preproc_new_def)

lemma preprocess_mask: "preprocess src e = Inr out \<Longrightarrow> mask src out"
  by (auto simp: preprocess_def mask_refl run_new_mask split: if_splits option.splits)

text \<open>
  C30 (layout): the preprocessor's output has the length of its input, keeps each byte or blanks
  it, and every byte stands at the line and column it stood at in the input, so the positions the
  lexer reports on the output are positions of the original file. If the input is valid UTF-8 so
  is the output.
\<close>

theorem preprocess_layout:
  "preprocess src e = Inr out \<Longrightarrow>
     length out = length src \<and>
     (\<forall>i < length src. out ! i = src ! i \<or> out ! i = blank (src ! i)) \<and>
     (\<forall>k. pos_at out k = pos_at src k) \<and>
     (utf8_decode src \<noteq> None \<longrightarrow> utf8_decode out \<noteq> None)"
  using preprocess_mask [of src e out] mask_length mask_nth mask_newlines mask_utf8 by blast

lemmas parse_numeral =
  parse_or.simps(2) [of "pred_numeral k", folded numeral_eq_Suc]
  or_loop.simps(2) [of "pred_numeral k", folded numeral_eq_Suc]
  parse_and.simps(2) [of "pred_numeral k", folded numeral_eq_Suc]
  and_loop.simps(2) [of "pred_numeral k", folded numeral_eq_Suc]
  parse_unary.simps(2) [of "pred_numeral k", folded numeral_eq_Suc]
  parse_primary.simps(2) [of "pred_numeral k", folded numeral_eq_Suc] for k

lemmas preprocess_loops =
  run.simps [of "\<lparr>pp_src = s, pp_out = w, pp_pos = k, pp_env = e, pp_stack = st\<rparr>"]
  erase_letters.simps [of "\<lparr>pp_src = s, pp_out = w, pp_pos = k, pp_env = e, pp_stack = st\<rparr>"]
  copy_line_comment.simps [of "\<lparr>pp_src = s, pp_out = w, pp_pos = k, pp_env = e, pp_stack = st\<rparr>"]
  read_expr_loop.simps [of a b "\<lparr>pp_src = s, pp_out = w, pp_pos = k, pp_env = e, pp_stack = st\<rparr>"]
  copy_string_loop.simps [of a c "\<lparr>pp_src = s, pp_out = w, pp_pos = k, pp_env = e, pp_stack = st\<rparr>"]
  copy_pragma_loop.simps [of a n "\<lparr>pp_src = s, pp_out = w, pp_pos = k, pp_env = e, pp_stack = st\<rparr>"]
  copy_comment_loop.simps [of a n "\<lparr>pp_src = s, pp_out = w, pp_pos = k, pp_env = e, pp_stack = st\<rparr>"]
  for s w k e st a b c n

lemmas preprocess_eval =
  parse_numeral preprocess_loops
  ep_while.simps [of P "\<lparr>ep_src = s, ep_pos = k, ep_env = e\<rparr>" for P s k e]
  preprocess_def preproc_new_def handle_directive_def read_expr_then_def
  erase_bytes_def erase_byte_def pp_peek_def pp_peek_at_def pp_advance_def
  copy_string_def copy_pragma_def
  copy_block_comment_def pragma_closes_within_comment_def
  apply_pragma_body_def apply_version_names_def version_pragma_names_def version_names_def str_trim_def
  strip_prefix_def emit_byte_def active_def blank_def probe_keyword_def operator_text_def eval_expr_def
  eval_text_def expr_fuel_def parse_comparison_def parse_value_def parse_identifier_value_def
  parse_number_value_def parse_string_value_def ep_text_def ep_matches_def skip_ws_def
  ep_bump_def ep_peek_def expect_eof_def env_empty_def lookup_bool_def lookup_value_def
  define_bool_def define_value_def truthy_value_def eq_ignore_ascii_case_def to_ascii_uppercase_def
  utf8_encode_def chars_of_def is_whitespace_def
  get_at_def byte_range_def next_pos_def START_def newline_def byte_def ascii_class_defs
  char_of_def bit_iff_odd

theorem preprocess_layout_witness:
  "let src = ''%IF A%THEN x%END y''; out = ''                 y''
   in preprocess src env_empty = Inr out \<and> length out = length src \<and> pos_at out 17 = pos_at src 17"
proof -
  have "preprocess ''%IF A%THEN x%END y'' env_empty = Inr ''                 y''"
    by (simp add: preprocess_eval Let_def cong: rbind_weak_cong let_weak_cong)
  from this preprocess_layout [OF this] show ?thesis by simp
qed

text \<open>
  C35 (errors): on valid UTF-8 every failure of the preprocessor carries a position obtained by
  counting lines and columns of the source, and it is one of the code's own messages: the
  \<open>expect\<close> on the output never panics and the directive parser never runs out of its bound.
\<close>

theorem preprocess_errors:
  assumes "preprocess src e = Inl err" "utf8_decode src \<noteq> None"
  shows "located src (err_position err) \<and> message err \<noteq> OutputNotUtf8 \<and> message err \<noteq> OutOfFuel"
proof -
  have "run (preproc_new src e) = Inl err"
    using assms mask_utf8 [OF assms(2) run_new_mask [of src e]]
    by (auto simp: preprocess_def rbind_eq_Inl split: if_splits option.splits)
  then have "bad_at (preproc_new src e) err" by (rule run_bad)
  moreover have "located src (pp_pos r)" if "pp_step\<^sup>*\<^sup>* (preproc_new src e) r" for r
    using pp.steps_located [OF that] pp.steps_src [OF that] by (simp add: preproc_new_def)
  ultimately show ?thesis by (auto simp: bad_at_def bad_from_def)
qed

theorem preprocess_errors_witness:
  "preprocess ''%IF A %THEN x'' env_empty = Inl (lex_err UnterminatedIf (pos_at ''%IF A %THEN x'' 13)) \<and>
   located ''%IF A %THEN x'' (pos_at ''%IF A %THEN x'' 13)"
proof -
  have e: "preprocess ''%IF A %THEN x'' env_empty = Inl (lex_err UnterminatedIf (pos_at ''%IF A %THEN x'' 13))"
    by (simp add: preprocess_eval Let_def pos_at_def pos_after_def cong: rbind_weak_cong let_weak_cong)
  show ?thesis
    using e preprocess_errors [OF e] by (simp add: lex_err_def byte_def)
qed

section \<open>The fast path\<close>

lemma copy_steps_verbatim:
  "copy_step\<^sup>*\<^sup>* p q \<Longrightarrow> active p \<Longrightarrow> pp_out p = take (offset (pp_pos p)) (pp_src p) \<Longrightarrow>
   active q \<and> pp_out q = take (offset (pp_pos q)) (pp_src q)"
proof (induction rule: rtranclp_induct)
  case (step q r)
  then show ?case
    by (auto simp: copy_step_def emit_byte_pos) (auto simp: pp_peek_def take_Suc_conv_app_nth)
qed simp

lemma get_at_mem: "get_at xs i = Some x \<Longrightarrow> x \<in> set xs"
  by (auto simp: get_at_Some_iff)

lemma run_verbatim:
  "run p = Inr q \<Longrightarrow> CHR ''%'' \<notin> set (pp_src p) \<Longrightarrow> active p \<Longrightarrow>
   pp_out p = take (offset (pp_pos p)) (pp_src p) \<Longrightarrow> pp_out q = pp_src p"
proof (induction p rule: measure_induct_rule [of pp_left])
  case (less p)
  show ?case
  proof (cases "pp_peek p")
    case None
    then show ?thesis using less.prems by (auto simp: run_unfold [of p] pp_peek_def split: if_splits)
  next
    case (Some c)
    then obtain r where r: "run_round p = Inr r" "run r = Inr q"
      using less.prems(1) by (auto simp: run_unfold [of p])
    have "c \<noteq> CHR ''%''" using get_at_mem Some less.prems(2) unfolding pp_peek_def by metis
    then have "copy_step\<^sup>*\<^sup>* p r"
      using r(1) Some copy_line_comment_steps copy_block_comment_steps copy_string_steps copy_pragma_steps
        copy_emit by (auto simp: run_round_def split: if_splits)
    from copy_steps_verbatim [OF this less.prems(3,4)] show ?thesis
      using less.IH [OF run_round_left [OF r(1)] r(2)] Some less.prems(2)
        pp.steps_src [OF run_round_steps [OF r(1)]] by simp
  qed
qed

text \<open>
  C36 (equivalence of the fast path): on a source without \<open>%\<close>, whenever the byte-by-byte pass
  succeeds it writes the source itself, which is what the fast path returns.
\<close>

theorem preprocess_fast_path:
  "CHR ''%'' \<notin> set src \<Longrightarrow> run (preproc_new src e) = Inr p \<Longrightarrow> preprocess src e = Inr (pp_out p)"
  using run_verbatim [of "preproc_new src e" p]
  by (simp add: preprocess_def preproc_new_def active_def)

theorem preprocess_fast_path_witness:
  "\<exists>p. run (preproc_new ''(* a *) b'' env_empty) = Inr p \<and> preprocess ''(* a *) b'' env_empty = Inr (pp_out p)"
proof -
  have "\<exists>p. run (preproc_new ''(* a *) b'' env_empty) = Inr p"
    by (simp add: preprocess_eval Let_def cong: rbind_weak_cong let_weak_cong)
  then obtain p where p: "run (preproc_new ''(* a *) b'' env_empty) = Inr p" by blast
  with preprocess_fast_path [OF _ p] show ?thesis by simp
qed

text \<open>
  The fast path is not the byte-by-byte pass where that one fails: on an unterminated string or
  comment the pass reports an error and the fast path leaves the report to the lexer.
\<close>

lemma fast_path_accepts_unterminated:
  "preprocess ''(* a'' env_empty = Inr ''(* a''"
  "run (preproc_new ''(* a'' env_empty) = Inl (lex_err UnterminatedBlockComment START)"
  by (simp_all add: preprocess_eval Let_def cong: rbind_weak_cong let_weak_cong)

end
