(* ===== verification/DirectiveSpec.thy ===== *)
theory DirectiveSpec
  imports PreprocessSpec
begin

text \<open>
  The meaning of conditional compilation (\<open>newm2-lexer/src/preprocess.rs\<close>), stated on structured
  input: conditions as a syntax tree whose printed form the recursive-descent evaluator must give
  its boolean value, and nests of \<open>%IF\<close> blocks whose printed form the preprocessor must turn into
  the text of the selected branches, everything else blanked.
\<close>

section \<open>Conditions\<close>

datatype operand = OName string | ONum string | OStr char string

datatype condition =
    Test operand
  | Same operand operand
  | Differ operand operand
  | CNot condition
  | CAnd condition condition
  | COr condition condition

definition ident_byte :: "char \<Rightarrow> bool" where
  "ident_byte c \<longleftrightarrow> is_ascii_alphanumeric c \<or> c = CHR ''_''"

fun wf_operand :: "operand \<Rightarrow> bool" where
  "wf_operand (OName s) \<longleftrightarrow> s \<noteq> [] \<and> (is_ascii_alphabetic (hd s) \<or> hd s = CHR ''_'') \<and> list_all ident_byte s"
| "wf_operand (ONum s) \<longleftrightarrow> s \<noteq> [] \<and> is_ascii_digit (hd s) \<and> list_all ident_byte s"
| "wf_operand (OStr q s) \<longleftrightarrow> (q = CHR 0x27 \<or> q = CHR 0x22) \<and> q \<notin> set s"

fun wf_condition :: "condition \<Rightarrow> bool" where
  "wf_condition (Test a) = wf_operand a"
| "wf_condition (Same a b) \<longleftrightarrow> wf_operand a \<and> wf_operand b"
| "wf_condition (Differ a b) \<longleftrightarrow> wf_operand a \<and> wf_operand b"
| "wf_condition (CNot c) = wf_condition c"
| "wf_condition (CAnd c d) \<longleftrightarrow> wf_condition c \<and> wf_condition d"
| "wf_condition (COr c d) \<longleftrightarrow> wf_condition c \<and> wf_condition d"

fun show_operand :: "operand \<Rightarrow> string" where
  "show_operand (OName s) = s"
| "show_operand (ONum s) = s"
| "show_operand (OStr q s) = q # s @ [q]"

text \<open>The condition printed where the grammar expects an \<open>or\<close> (0), an \<open>and\<close> (1) or a \<open>unary\<close> (2).\<close>

fun show_condition :: "nat \<Rightarrow> condition \<Rightarrow> string" where
  "show_condition l (Test a) = show_operand a"
| "show_condition l (Same a b) = show_operand a @ '' = '' @ show_operand b"
| "show_condition l (Differ a b) = show_operand a @ '' # '' @ show_operand b"
| "show_condition l (CNot c) = ''! '' @ show_condition 2 c"
| "show_condition l (CAnd c d) =
     (if 1 < l then ''('' @ show_condition 1 c @ '' && '' @ show_condition 2 d @ '')''
      else show_condition 1 c @ '' && '' @ show_condition 2 d)"
| "show_condition l (COr c d) =
     (if 0 < l then ''('' @ show_condition 0 c @ '' || '' @ show_condition 1 d @ '')''
      else show_condition 0 c @ '' || '' @ show_condition 1 d)"

fun operand_value :: "operand \<Rightarrow> expr_value" where
  "operand_value (OName s) = EvIdent s"
| "operand_value (ONum s) = EvText s"
| "operand_value (OStr q s) = EvText s"

text \<open>What the condition means: symbols are looked up, anything else stands for itself.\<close>

fun operand_text :: "env \<Rightarrow> operand \<Rightarrow> string" where
  "operand_text e (OName s) = (case symbols e s of None \<Rightarrow> s | Some v \<Rightarrow> v)"
| "operand_text e (ONum s) = s"
| "operand_text e (OStr q s) = s"

fun holds :: "env \<Rightarrow> condition \<Rightarrow> bool" where
  "holds e (Test (OName s)) \<longleftrightarrow> (\<exists>v. symbols e s = Some v \<and> truthy_value v)"
| "holds e (Test a) = truthy_value (operand_text e a)"
| "holds e (Same a b) \<longleftrightarrow> operand_text e a = operand_text e b"
| "holds e (Differ a b) \<longleftrightarrow> operand_text e a \<noteq> operand_text e b"
| "holds e (CNot c) \<longleftrightarrow> \<not> holds e c"
| "holds e (CAnd c d) \<longleftrightarrow> holds e c \<and> holds e d"
| "holds e (COr c d) \<longleftrightarrow> holds e c \<or> holds e d"

section \<open>The parser's view of the text ahead\<close>

definition is_ws :: "char \<Rightarrow> bool" where
  "is_ws c \<longleftrightarrow> c = CHR '' '' \<or> c = CHR 0x09 \<or> c = CHR 0x0D \<or> c = newline"

definition ep_rest :: "expr_parser \<Rightarrow> string" where
  "ep_rest p = drop (ep_pos p) (ep_src p)"

definition ahead :: "expr_parser \<Rightarrow> string" where
  "ahead p = dropWhile is_ws (ep_rest p)"

definition ep_in :: "expr_parser \<Rightarrow> bool" where
  "ep_in p \<longleftrightarrow> ep_pos p \<le> length (ep_src p)"

definition lands :: "expr_parser \<Rightarrow> expr_parser \<Rightarrow> string \<Rightarrow> bool" where
  "lands p q t \<longleftrightarrow> ep_env q = ep_env p \<and> ahead q = dropWhile is_ws t \<and> (ep_in p \<longrightarrow> ep_in q)"

lemma ep_left_rest: "ep_left p = length (ep_rest p)"
  by (simp add: ep_left_def ep_rest_def)

lemma ep_peek_rest: "ep_peek p = (case ep_rest p of [] \<Rightarrow> None | c # _ \<Rightarrow> Some c)"
  by (auto simp: ep_peek_def ep_rest_def get_at_def Cons_nth_drop_Suc [symmetric] split: list.split)

lemma ep_bump_fields [simp]:
  "ep_rest (ep_bump p) = tl (ep_rest p)" "ep_env (ep_bump p) = ep_env p" "ep_src (ep_bump p) = ep_src p"
  by (auto simp: ep_bump_def ep_rest_def ep_peek_def drop_Suc drop_tl split: option.split)

lemma ep_bump_pos: "ep_peek p = Some c \<Longrightarrow> ep_pos (ep_bump p) = Suc (ep_pos p)"
  by (simp add: ep_bump_def)

lemma ep_while_fields [simp]:
  "ep_rest (ep_while P p) = dropWhile P (ep_rest p)" "ep_env (ep_while P p) = ep_env p"
  "ep_src (ep_while P p) = ep_src p"
  "ep_pos (ep_while P p) = ep_pos p + length (takeWhile P (ep_rest p))"
proof -
  have "ep_rest (ep_while P p) = dropWhile P (ep_rest p) \<and> ep_env (ep_while P p) = ep_env p \<and>
    ep_src (ep_while P p) = ep_src p \<and> ep_pos (ep_while P p) = ep_pos p + length (takeWhile P (ep_rest p))"
  proof (induction P p rule: ep_while.induct)
    case (1 P p)
    show ?case
      by (subst (1 2 3 4) ep_while.simps)
         (use 1 in \<open>auto simp: ep_peek_rest ep_bump_pos split: list.split\<close>)
  qed
  then show "ep_rest (ep_while P p) = dropWhile P (ep_rest p)" "ep_env (ep_while P p) = ep_env p"
    "ep_src (ep_while P p) = ep_src p" "ep_pos (ep_while P p) = ep_pos p + length (takeWhile P (ep_rest p))"
    by auto
qed

lemma ep_in_while: "ep_in p \<Longrightarrow> ep_in (ep_while P p)"
  using length_takeWhile_le [of P "ep_rest p"] by (simp add: ep_in_def ep_rest_def)

lemma ep_in_bump: "ep_in p \<Longrightarrow> ep_in (ep_bump p)"
  by (auto simp: ep_in_def ep_bump_def ep_peek_def split: option.split)

lemma ep_in_skip: "ep_in p \<Longrightarrow> ep_in (skip_ws p)"
  by (simp add: skip_ws_def ep_in_while)

lemma ep_text_while: "ep_text (ep_pos p) (ep_while P p) = takeWhile P (ep_rest p)"
  by (simp add: ep_text_def byte_range_def ep_rest_def takeWhile_eq_take [symmetric])

lemma skip_ws_fields [simp]: "ep_rest (skip_ws p) = ahead p" "ep_env (skip_ws p) = ep_env p"
  by (simp_all add: skip_ws_def ahead_def is_ws_def [abs_def])

lemma dropWhile_idem [simp]: "dropWhile P (dropWhile P xs) = dropWhile P xs"
  by (induction xs) auto

lemma ahead_skip [simp]: "ahead (skip_ws p) = ahead p"
  by (simp add: ahead_def [of "skip_ws p"]) (simp add: ahead_def)

lemma ep_left_ahead: "length (ahead p) \<le> ep_left p"
  by (simp add: ep_left_rest ahead_def length_dropWhile_le)

lemma ep_matches_rest:
  "ep_matches s p = Some q \<longleftrightarrow>
     take (length s) (ep_rest p) = s \<and> q = p\<lparr>ep_pos := ep_pos p + length s\<rparr>"
  by (auto simp: ep_matches_def ep_rest_def)

lemma ep_rest_move: "ep_rest (p\<lparr>ep_pos := ep_pos p + k\<rparr>) = drop k (ep_rest p)"
  by (simp add: ep_rest_def add.commute)

lemma ep_matches_skip:
  "ahead p = s @ t \<Longrightarrow> s \<noteq> [] \<Longrightarrow>
   \<exists>q. ep_matches s (skip_ws p) = Some q \<and> ep_rest q = t \<and> ep_env q = ep_env p \<and> ep_in q"
proof -
  assume a: "ahead p = s @ t" "s \<noteq> []"
  then have "length (ep_rest (skip_ws p)) = length s + length t" by simp
  then have "ep_pos (skip_ws p) + length s \<le> length (ep_src (skip_ws p))"
    using a(2) by (cases s) (simp_all add: ep_rest_def del: skip_ws_fields)
  then show ?thesis using a by (auto simp: ep_matches_rest ep_rest_move ep_in_def)
qed

lemma ep_matches_no:
  "take (length s) (ahead p) \<noteq> s \<Longrightarrow> ep_matches s (skip_ws p) = None"
  by (cases "ep_matches s (skip_ws p)") (auto simp: ep_matches_rest)

section \<open>What may follow a condition\<close>

definition follows :: "nat \<Rightarrow> string \<Rightarrow> bool" where
  "follows l t \<longleftrightarrow> t = [] \<or> (\<exists>u. t = CHR '')'' # u) \<or> (\<exists>u. t = '' || '' @ u) \<or>
     (0 < l \<and> (\<exists>u. t = '' && '' @ u))"

lemma follows_mono: "follows 0 t \<Longrightarrow> follows l t"
  by (auto simp: follows_def)

lemma is_ws_chars [simp]:
  "is_ws CHR '' ''" "\<not> is_ws CHR '')''" "\<not> is_ws CHR ''(''" "\<not> is_ws CHR ''|''" "\<not> is_ws CHR ''&''"
  "\<not> is_ws CHR ''!''" "\<not> is_ws CHR ''=''" "\<not> is_ws CHR ''#''" "\<not> is_ws CHR 0x27" "\<not> is_ws CHR 0x22"
  "\<not> is_ws CHR ''_''"
  by (simp_all add: is_ws_def newline_def)

lemma ident_byte_not_ws: "ident_byte c \<Longrightarrow> \<not> is_ws c"
  by (auto simp: ident_byte_def is_ws_def newline_def ascii_class_defs byte_def)

lemma follows_stops:
  assumes "follows l t"
  shows "takeWhile ident_byte t = []" "dropWhile ident_byte t = t"
    "take 1 (dropWhile is_ws t) \<noteq> ''=''" "take 1 (dropWhile is_ws t) \<noteq> ''#''"
    "l = 0 \<Longrightarrow> take 2 (dropWhile is_ws t) \<noteq> ''&&''"
  using assms by (auto simp: follows_def ident_byte_def ascii_class_defs byte_def)

text \<open>What may follow an operand: nothing that goes on with its bytes.\<close>

definition ends_operand :: "string \<Rightarrow> bool" where
  "ends_operand t \<longleftrightarrow> takeWhile ident_byte t = []"

lemma takeWhile_run: "list_all P s \<Longrightarrow> takeWhile P t = [] \<Longrightarrow> takeWhile P (s @ t) = s \<and> dropWhile P (s @ t) = t"
  by (induction s) (auto simp: takeWhile_eq_Nil_iff, cases t, auto)

lemma quoted_run: "q \<notin> set s \<Longrightarrow>
  takeWhile (\<lambda>c. c \<noteq> q) (s @ q # t) = s \<and> dropWhile (\<lambda>c. c \<noteq> q) (s @ q # t) = q # t"
  by (induction s) auto

lemma parse_operand:
  assumes "wf_operand a" "ahead p = show_operand a @ t" "ends_operand t"
  shows "\<exists>q. parse_value p = Inr (operand_value a, q) \<and> ep_rest q = t \<and> ep_env q = ep_env p \<and>
    (ep_in p \<longrightarrow> ep_in q)"
proof (cases a)
  case (OStr qc s)
  have "ep_peek (ep_while (\<lambda>c. c \<noteq> qc) (ep_bump (skip_ws p))) = Some qc"
    using assms OStr quoted_run [of qc s t] by (simp add: ep_peek_rest)
  moreover have "ep_peek (skip_ws p) = Some qc" using assms OStr by (simp add: ep_peek_rest)
  ultimately show ?thesis
    using assms OStr quoted_run [of qc s t]
    by (auto simp: parse_value_def parse_string_value_def ep_text_while Let_def ep_in_while ep_in_bump ep_in_skip ascii_class_defs byte_def)
next
  case (OName s)
  obtain c u where s: "s = c # u" using assms OName by (cases s) auto
  have "ep_peek (skip_ws p) = Some c" using assms OName s by (simp add: ep_peek_rest)
  then show ?thesis
    using assms OName s takeWhile_run [of ident_byte s t]
    by (auto simp: parse_value_def parse_identifier_value_def ep_text_while Let_def ep_in_while ep_in_bump ep_in_skip ends_operand_def
        ident_byte_def [abs_def])
next
  case (ONum s)
  obtain c u where s: "s = c # u" using assms ONum by (cases s) auto
  have "ep_peek (skip_ws p) = Some c" using assms ONum s by (simp add: ep_peek_rest)
  moreover have "\<not> is_ascii_alphabetic c" "c \<noteq> CHR ''_''"
    using assms ONum s by (auto simp: ascii_class_defs byte_def)
  ultimately show ?thesis
    using assms ONum s takeWhile_run [of ident_byte s t]
    by (auto simp: parse_value_def parse_number_value_def ep_text_while Let_def ep_in_while ep_in_bump ep_in_skip ends_operand_def
        ident_byte_def [abs_def])
qed

lemma compare_operand: "as_compare_text e (operand_value a) = operand_text e a"
  by (cases a) (auto simp: lookup_value_def split: option.split)

lemma show_operand_ahead:
  "wf_operand a \<Longrightarrow> dropWhile is_ws (show_operand a @ t) = show_operand a @ t"
  by (cases a; cases "show_operand a") (auto simp: ident_byte_not_ws)

lemma ends_operand_space [simp]: "ends_operand (CHR '' '' # t)"
  by (simp add: ends_operand_def ident_byte_def ascii_class_defs byte_def)

lemma parse_relation:
  assumes "wf_operand a" "wf_operand b" "ahead p = show_operand a @ '' '' @ [r] @ '' '' @ show_operand b @ t"
    "r = CHR ''='' \<or> r = CHR ''#''" "ends_operand t"
  shows "\<exists>q. parse_comparison p =
      Inr (EvBool ((operand_text (ep_env p) a = operand_text (ep_env p) b) \<longleftrightarrow> r = CHR ''=''), q) \<and>
      ep_rest q = t \<and> ep_env q = ep_env p \<and> ep_in q"
proof -
  obtain p1 where p1: "parse_value p = Inr (operand_value a, p1)"
      "ep_rest p1 = '' '' @ [r] @ '' '' @ show_operand b @ t" "ep_env p1 = ep_env p"
    using parse_operand [OF assms(1,3)] by auto
  have ah: "ahead p1 = [r] @ '' '' @ show_operand b @ t"
    using p1(2) assms(4) by (auto simp: ahead_def)
  obtain p3 where p3: "ep_matches [r] (skip_ws p1) = Some p3" "ep_rest p3 = '' '' @ show_operand b @ t"
      "ep_env p3 = ep_env p" "ep_in p3"
    using ep_matches_skip [OF ah] p1(3) by auto
  have "ahead p3 = show_operand b @ t" using p3(2) show_operand_ahead [OF assms(2)] by (simp add: ahead_def)
  then obtain q where q: "parse_value p3 = Inr (operand_value b, q)" "ep_rest q = t" "ep_env q = ep_env p" "ep_in q"
    using parse_operand [OF assms(2) _ assms(5), of p3] p3(3,4) by metis
  have "r = CHR ''#'' \<Longrightarrow> ep_matches ''='' (skip_ws p1) = None"
    by (rule ep_matches_no) (simp add: ah)
  then show ?thesis
    using assms(4) p1 p3 q by (auto simp: parse_comparison_def Let_def compare_operand)
qed

lemma parse_test:
  assumes "wf_operand a" "ahead p = show_operand a @ t" "follows l t"
  shows "\<exists>v q. parse_comparison p = Inr (v, q) \<and> as_bool v = holds (ep_env p) (Test a) \<and> lands p q t"
proof -
  have "ends_operand t" using follows_stops(1) [OF assms(3)] by (simp add: ends_operand_def)
  from parse_operand [OF assms(1,2) this] obtain p1 where p1: "parse_value p = Inr (operand_value a, p1)"
      "ep_rest p1 = t" "ep_env p1 = ep_env p" "ep_in p \<longrightarrow> ep_in p1" by auto
  have "ep_matches ''='' (skip_ws p1) = None" "ep_matches ''#'' (skip_ws p1) = None"
    using follows_stops [OF assms(3)] p1(2) by (auto intro!: ep_matches_no simp: ahead_def)
  then show ?thesis
    using p1 by (cases a)
      (auto simp: parse_comparison_def Let_def lands_def lookup_bool_def lookup_value_def ahead_def ep_in_skip
        split: option.splits)
qed

section \<open>The evaluator reads back every printed condition\<close>

definition unary_reads :: "condition \<Rightarrow> bool" where
  "unary_reads c \<longleftrightarrow> (\<forall>p n t. ahead p = show_condition 2 c @ t \<longrightarrow> follows 1 t \<longrightarrow> 6 * ep_left p + 3 < n \<longrightarrow>
     (\<exists>q. parse_unary n p = Inr (holds (ep_env p) c, q) \<and> lands p q t))"

definition and_reads :: "condition \<Rightarrow> bool" where
  "and_reads c \<longleftrightarrow> (\<forall>p n t. ahead p = show_condition 1 c @ t \<longrightarrow> follows 1 t \<longrightarrow> 6 * ep_left p + 4 < n \<longrightarrow>
     (\<exists>m q. parse_and n p = and_loop m (holds (ep_env p) c) q \<and> lands p q t \<and> 6 * ep_left q + 3 < m))"

definition or_reads :: "condition \<Rightarrow> bool" where
  "or_reads c \<longleftrightarrow> (\<forall>p n t. ahead p = show_condition 0 c @ t \<longrightarrow> follows 0 t \<longrightarrow> 6 * ep_left p + 5 < n \<longrightarrow>
     (\<exists>m q. parse_or n p = or_loop m (holds (ep_env p) c) q \<and> lands p q t \<and> 6 * ep_left q + 4 < m))"

lemma unary_readsE:
  assumes "unary_reads c" "ahead p = show_condition 2 c @ t" "follows 1 t" "6 * ep_left p + 3 < n"
  obtains q where "parse_unary n p = Inr (holds (ep_env p) c, q)" "lands p q t"
  using assms unfolding unary_reads_def by blast

lemma and_readsE:
  assumes "and_reads c" "ahead p = show_condition 1 c @ t" "follows 1 t" "6 * ep_left p + 4 < n"
  obtains m q where "parse_and n p = and_loop m (holds (ep_env p) c) q" "lands p q t" "6 * ep_left q + 3 < m"
  using assms unfolding and_reads_def by blast

lemma or_readsE:
  assumes "or_reads c" "ahead p = show_condition 0 c @ t" "follows 0 t" "6 * ep_left p + 5 < n"
  obtains m q where "parse_or n p = or_loop m (holds (ep_env p) c) q" "lands p q t" "6 * ep_left q + 4 < m"
  using assms unfolding or_reads_def by blast

lemma lands_skip: "lands p q t \<Longrightarrow> lands p (skip_ws q) t"
  by (simp add: lands_def ep_in_skip)

lemma lands_trans: "lands p q t \<Longrightarrow> lands q r u \<Longrightarrow> lands p r u"
  by (simp add: lands_def)

lemma and_reads_unary:
  assumes "unary_reads c" "show_condition 1 c = show_condition 2 c"
  shows "and_reads c"
  unfolding and_reads_def
proof (intro allI impI)
  fix p n t
  assume h: "ahead p = show_condition 1 c @ t" "follows 1 t" "6 * ep_left p + 4 < n"
  then obtain m where m: "n = Suc m" "6 * ep_left p + 3 < m" by (cases n) auto
  obtain q where q: "parse_unary m p = Inr (holds (ep_env p) c, q)" "lands p q t"
    using unary_readsE [OF assms(1) _ h(2) m(2)] h(1) assms(2) by metis
  then show "\<exists>m q. parse_and n p = and_loop m (holds (ep_env p) c) q \<and> lands p q t \<and> 6 * ep_left q + 3 < m"
    using m parse_left(5) [OF q(1)] by (intro exI [of _ m] exI [of _ q]) simp
qed

lemma and_loop_ends:
  assumes "lands p q t" "follows 0 t" "0 < m"
  shows "and_loop m v q = Inr (v, skip_ws q)"
proof -
  have "ep_matches ''&&'' (skip_ws q) = None"
    by (rule ep_matches_no)
       (use assms(1,2) in \<open>auto simp: lands_def follows_def\<close>)
  then show ?thesis using assms(3) by (cases m) simp_all
qed

lemma or_reads_and:
  assumes "and_reads c" "show_condition 0 c = show_condition 1 c"
  shows "or_reads c"
  unfolding or_reads_def
proof (intro allI impI)
  fix p n t
  assume h: "ahead p = show_condition 0 c @ t" "follows 0 t" "6 * ep_left p + 5 < n"
  then obtain m where m: "n = Suc m" "6 * ep_left p + 4 < m" by (cases n) auto
  obtain k q where q: "parse_and m p = and_loop k (holds (ep_env p) c) q" "lands p q t" "6 * ep_left q + 3 < k"
    using and_readsE [OF assms(1) _ follows_mono [OF h(2)] m(2)] h(1) assms(2) by metis
  have fin: "parse_and m p = Inr (holds (ep_env p) c, skip_ws q)"
    using q and_loop_ends [OF q(2) h(2), of k] by simp
  then show "\<exists>m q. parse_or n p = or_loop m (holds (ep_env p) c) q \<and> lands p q t \<and> 6 * ep_left q + 4 < m"
    using m q(2) parse_left(3) [OF fin]
    by (intro exI [of _ m] exI [of _ "skip_ws q"]) (simp add: lands_skip)
qed

lemma or_loop_ends:
  assumes "ahead q = CHR '')'' # t \<or> ahead q = []" "0 < m"
  shows "or_loop m v q = Inr (v, skip_ws q)"
proof -
  have "ep_matches ''||'' (skip_ws q) = None" by (rule ep_matches_no) (use assms(1) in auto)
  then show ?thesis using assms(2) by (cases m) simp_all
qed

lemma takeWhile_dropWhile_same [simp]: "takeWhile P (dropWhile P xs) = []"
  by (induction xs) auto

lemma skip_ws_idem [simp]: "skip_ws (skip_ws p) = skip_ws p"
  unfolding skip_ws_def by (rule expr_parser.equality) simp_all

lemma show_condition_ahead:
  "wf_condition c \<Longrightarrow> dropWhile is_ws (show_condition l c @ t) = show_condition l c @ t"
  by (induction l c arbitrary: t rule: show_condition.induct) (simp_all add: show_operand_ahead)

lemma parse_unary_plain:
  assumes "ahead p = c # t" "c \<noteq> CHR ''!''"
  shows "parse_unary (Suc n) p = parse_primary n (skip_ws p)"
proof -
  have "ep_matches ''!'' (skip_ws p) = None" by (rule ep_matches_no) (use assms in auto)
  then show ?thesis by simp
qed

lemma unary_reads_paren:
  assumes "or_reads c" "show_condition 2 c = ''('' @ show_condition 0 c @ '')''" "wf_condition c"
  shows "unary_reads c"
  unfolding unary_reads_def
proof (intro allI impI)
  fix p n t
  assume h: "ahead p = show_condition 2 c @ t" "follows 1 t" "6 * ep_left p + 3 < n"
  obtain m where m: "n = Suc (Suc m)" using h(3) by (cases n; cases "n - 1") auto
  define p1 where "p1 = ep_bump (skip_ws p)"
  have paren: "ahead p = CHR ''('' # show_condition 0 c @ '')'' @ t" using h(1) assms(2) by simp
  have rest: "ep_rest p1 = show_condition 0 c @ '')'' @ t" by (simp add: p1_def paren)
  have a1: "ahead p1 = show_condition 0 c @ '')'' @ t"
    using rest show_condition_ahead [OF assms(3)] by (simp add: ahead_def)
  have "ep_left p1 < ep_left p"
    using ep_left_ahead [of p] rest by (simp add: ep_left_rest paren)
  then have fuel: "6 * ep_left p1 + 5 < m" using h(3) m by simp
  have "follows 0 ('')'' @ t)" by (simp add: follows_def)
  from or_readsE [OF assms(1) a1 this fuel] obtain k q
    where q: "parse_or m p1 = or_loop k (holds (ep_env p1) c) q" "lands p1 q ('')'' @ t)" "6 * ep_left q + 4 < k"
    by blast
  have aq: "ahead q = CHR '')'' # t" using q(2) by (simp add: lands_def)
  then have r: "parse_or m p1 = Inr (holds (ep_env p) c, skip_ws q)"
    using q or_loop_ends [of q t k] by (simp add: p1_def)
  have "parse_unary n p = Inr (holds (ep_env p) c, ep_bump (skip_ws q))"
    unfolding m using parse_unary_plain [OF paren] r
    by (simp add: ep_peek_rest paren aq p1_def [symmetric] Let_def)
  moreover have "lands p (ep_bump (skip_ws q)) t"
    using q(2) aq by (simp add: lands_def p1_def ahead_def [of "ep_bump (skip_ws q)"] ep_in_bump ep_in_skip)
  ultimately show "\<exists>q. parse_unary n p = Inr (holds (ep_env p) c, q) \<and> lands p q t" by blast
qed

lemma unary_reads_comparison:
  assumes "\<And>p t. ahead p = show_condition 2 c @ t \<Longrightarrow> follows 1 t \<Longrightarrow>
      \<exists>v q. parse_comparison p = Inr (v, q) \<and> as_bool v = holds (ep_env p) c \<and> lands p q t"
    "\<And>t. \<exists>d u. show_condition 2 c @ t = d # u \<and> d \<noteq> CHR ''!'' \<and> d \<noteq> CHR ''(''"
  shows "unary_reads c"
  unfolding unary_reads_def
proof (intro allI impI)
  fix p n t
  assume h: "ahead p = show_condition 2 c @ t" "follows 1 t" "6 * ep_left p + 3 < n"
  obtain m where m: "n = Suc (Suc m)" using h(3) by (cases n; cases "n - 1") auto
  obtain d u where d: "ahead p = d # u" "d \<noteq> CHR ''!''" "d \<noteq> CHR ''(''" using assms(2) [of t] h(1) by auto
  obtain v q where q: "parse_comparison (skip_ws p) = Inr (v, q)" "as_bool v = holds (ep_env p) c"
      "lands (skip_ws p) q t"
    using assms(1) [of "skip_ws p" t] h by auto
  then show "\<exists>q. parse_unary n p = Inr (holds (ep_env p) c, q) \<and> lands p q t"
    unfolding m using parse_unary_plain [OF d(1,2), of "Suc m"] d
    by (simp add: ep_peek_rest lands_def ep_in_skip)
qed

lemma show_operand_head:
  "wf_operand a \<Longrightarrow> \<exists>d u. show_operand a @ t = d # u \<and> d \<noteq> CHR ''!'' \<and> d \<noteq> CHR ''(''"
  by (cases a; cases "show_operand a") (auto simp: ascii_class_defs byte_def)

lemma ends_operand_follows: "follows l t \<Longrightarrow> ends_operand t"
  using follows_stops(1) by (simp add: ends_operand_def)

lemma unary_reads_atoms:
  "wf_operand a \<Longrightarrow> unary_reads (Test a)"
  "wf_operand a \<Longrightarrow> wf_operand b \<Longrightarrow> unary_reads (Same a b)"
  "wf_operand a \<Longrightarrow> wf_operand b \<Longrightarrow> unary_reads (Differ a b)"
proof -
  assume a: "wf_operand a"
  show "unary_reads (Test a)"
    using a parse_test show_operand_head by (intro unary_reads_comparison) simp_all
  assume b: "wf_operand b"
  have rel: "\<exists>v q. parse_comparison p = Inr (v, q) \<and> as_bool v = holds (ep_env p) c \<and> lands p q t"
    if "ahead p = show_condition 2 c @ t" "follows 1 t" "c = Same a b \<or> c = Differ a b" for p c t
    using that parse_relation [OF a b, of p "CHR ''=''" t] parse_relation [OF a b, of p "CHR ''#''" t]
      ends_operand_follows [OF that(2)] by (auto simp: lands_def ahead_def)
  have hd: "\<exists>d u. show_condition 2 c @ t = d # u \<and> d \<noteq> CHR ''!'' \<and> d \<noteq> CHR ''(''"
    if "c = Same a b \<or> c = Differ a b" for c t
    using that show_operand_head [OF a, of "'' = '' @ show_operand b @ t"]
      show_operand_head [OF a, of "'' # '' @ show_operand b @ t"] by auto
  show "unary_reads (Same a b)"
    by (rule unary_reads_comparison) (use rel hd in blast)+
  show "unary_reads (Differ a b)"
    by (rule unary_reads_comparison) (use rel hd in blast)+
qed

lemma unary_reads_not:
  assumes "unary_reads c" "wf_condition c"
  shows "unary_reads (CNot c)"
  unfolding unary_reads_def
proof (intro allI impI)
  fix p n t
  assume h: "ahead p = show_condition 2 (CNot c) @ t" "follows 1 t" "6 * ep_left p + 3 < n"
  obtain m where m: "n = Suc m" using h(3) by (cases n) auto
  have "ahead p = ''!'' @ CHR '' '' # show_condition 2 c @ t" using h(1) by simp
  from ep_matches_skip [OF this] obtain r where r: "ep_matches ''!'' (skip_ws p) = Some r"
      "ep_rest r = CHR '' '' # show_condition 2 c @ t" "ep_env r = ep_env p" "ep_in r" by auto
  have "ahead r = show_condition 2 c @ t"
    using r(2) show_condition_ahead [OF assms(2)] by (simp add: ahead_def)
  moreover have "6 * ep_left r + 3 < m"
    using ep_matches_left [OF r(1)] skip_ws_left [of p] h(3) m by simp
  ultimately obtain q where "parse_unary m r = Inr (holds (ep_env r) c, q)" "lands r q t"
    using unary_readsE [OF assms(1) _ h(2)] by metis
  then show "\<exists>q. parse_unary n p = Inr (holds (ep_env p) (CNot c), q) \<and> lands p q t"
    using m r by (auto simp: lands_def)
qed

lemma and_reads_and:
  assumes "and_reads c" "unary_reads d" "wf_condition d"
  shows "and_reads (CAnd c d)"
  unfolding and_reads_def
proof (intro allI impI)
  fix p n t
  assume h: "ahead p = show_condition 1 (CAnd c d) @ t" "follows 1 t" "6 * ep_left p + 4 < n"
  have ah: "ahead p = show_condition 1 c @ '' && '' @ show_condition 2 d @ t" using h(1) by simp
  have "follows 1 ('' && '' @ show_condition 2 d @ t)" by (simp add: follows_def)
  from and_readsE [OF assms(1) ah this h(3)] obtain k q
    where q: "parse_and n p = and_loop k (holds (ep_env p) c) q"
      "lands p q ('' && '' @ show_condition 2 d @ t)" "6 * ep_left q + 3 < k" by blast
  have "ahead q = ''&&'' @ CHR '' '' # show_condition 2 d @ t" using q(2) by (simp add: lands_def)
  from ep_matches_skip [OF this] obtain r where r: "ep_matches ''&&'' (skip_ws q) = Some r"
      "ep_rest r = CHR '' '' # show_condition 2 d @ t" "ep_env r = ep_env p" "ep_in r"
    using q(2) by (auto simp: lands_def)
  obtain m where m: "k = Suc m" using q(3) by (cases k) auto
  have ar: "ahead r = show_condition 2 d @ t"
    using r(2) show_condition_ahead [OF assms(3)] by (simp add: ahead_def)
  have fuel: "6 * ep_left r + 3 < m"
    using ep_matches_left [OF r(1)] skip_ws_left [of q] q(3) m by simp
  from unary_readsE [OF assms(2) ar h(2) fuel] obtain s
    where s: "parse_unary m r = Inr (holds (ep_env r) d, s)" "lands r s t" by blast
  show "\<exists>m q. parse_and n p = and_loop m (holds (ep_env p) (CAnd c d)) q \<and> lands p q t \<and> 6 * ep_left q + 3 < m"
    using q(1) m r s fuel parse_left(5) [OF s(1)]
    by (intro exI [of _ m] exI [of _ s]) (auto simp: lands_def)
qed

lemma or_reads_or:
  assumes "or_reads c" "and_reads d" "wf_condition d"
  shows "or_reads (COr c d)"
  unfolding or_reads_def
proof (intro allI impI)
  fix p n t
  assume h: "ahead p = show_condition 0 (COr c d) @ t" "follows 0 t" "6 * ep_left p + 5 < n"
  have ah: "ahead p = show_condition 0 c @ '' || '' @ show_condition 1 d @ t" using h(1) by simp
  have "follows 0 ('' || '' @ show_condition 1 d @ t)" by (simp add: follows_def)
  from or_readsE [OF assms(1) ah this h(3)] obtain k q
    where q: "parse_or n p = or_loop k (holds (ep_env p) c) q"
      "lands p q ('' || '' @ show_condition 1 d @ t)" "6 * ep_left q + 4 < k" by blast
  have "ahead q = ''||'' @ CHR '' '' # show_condition 1 d @ t" using q(2) by (simp add: lands_def)
  from ep_matches_skip [OF this] obtain r where r: "ep_matches ''||'' (skip_ws q) = Some r"
      "ep_rest r = CHR '' '' # show_condition 1 d @ t" "ep_env r = ep_env p" "ep_in r"
    using q(2) by (auto simp: lands_def)
  obtain m where m: "k = Suc m" using q(3) by (cases k) auto
  have ar: "ahead r = show_condition 1 d @ t"
    using r(2) show_condition_ahead [OF assms(3)] by (simp add: ahead_def)
  have fuel: "6 * ep_left r + 4 < m"
    using ep_matches_left [OF r(1)] skip_ws_left [of q] q(3) m by simp
  from and_readsE [OF assms(2) ar follows_mono [OF h(2)] fuel] obtain j s
    where s: "parse_and m r = and_loop j (holds (ep_env r) d) s" "lands r s t" "6 * ep_left s + 3 < j" by blast
  then have fin: "parse_and m r = Inr (holds (ep_env r) d, skip_ws s)"
    using and_loop_ends [OF s(2) h(2), of j] by simp
  show "\<exists>m q. parse_or n p = or_loop m (holds (ep_env p) (COr c d)) q \<and> lands p q t \<and> 6 * ep_left q + 4 < m"
    using q(1) m r s(2) fin fuel parse_left(3) [OF fin]
    by (intro exI [of _ m] exI [of _ "skip_ws s"]) (auto simp: lands_def ep_in_skip)
qed

lemma condition_reads: "wf_condition c \<Longrightarrow> unary_reads c \<and> and_reads c \<and> or_reads c"
proof (induction c)
  case (CAnd c d)
  then have "and_reads (CAnd c d)" by (auto intro: and_reads_and)
  moreover from this have "or_reads (CAnd c d)" by (rule or_reads_and) simp
  moreover from this have "unary_reads (CAnd c d)" by (rule unary_reads_paren) (use CAnd.prems in simp_all)
  ultimately show ?case by blast
next
  case (COr c d)
  then have "or_reads (COr c d)" by (auto intro: or_reads_or)
  moreover from this have "unary_reads (COr c d)" by (rule unary_reads_paren) (use COr.prems in simp_all)
  moreover from this have "and_reads (COr c d)" by (rule and_reads_unary) simp
  ultimately show ?case by blast
next
  case (CNot c)
  then have "unary_reads (CNot c)" by (auto intro: unary_reads_not)
  then show ?case using or_reads_and and_reads_unary by simp
qed (use unary_reads_atoms or_reads_and and_reads_unary in simp_all)

text \<open>
  (round trip): the text of a condition, printed with the fewest parentheses, evaluates to the
  meaning of the condition: \<open>!\<close> binds tighter than \<open>&&\<close> and \<open>&&\<close> tighter than \<open>||\<close>, both associate
  to the left, a bare symbol is true if it is defined and truthy, and a comparison compares the
  value of a defined symbol, or else the name itself. The parser's bound is never reached.
\<close>

theorem eval_text_condition:
  "wf_condition c \<Longrightarrow> eval_text e (show_condition 0 c) = Inr (holds e c)"
proof -
  assume wf: "wf_condition c"
  define p where "p = \<lparr>ep_src = show_condition 0 c, ep_pos = 0, ep_env = e\<rparr>"
  have "ahead p = show_condition 0 c @ []"
    using show_condition_ahead [OF wf, of 0 "[]"] by (simp add: p_def ahead_def ep_rest_def)
  moreover have "6 * ep_left p + 5 < expr_fuel (show_condition 0 c)"
    by (simp add: p_def ep_left_def expr_fuel_def)
  moreover have "follows 0 []" by (simp add: follows_def)
  ultimately obtain k q where q: "parse_or (expr_fuel (show_condition 0 c)) p = or_loop k (holds (ep_env p) c) q"
      "lands p q []" "6 * ep_left q + 4 < k"
    using or_readsE condition_reads [OF wf] by metis
  then have "parse_or (expr_fuel (show_condition 0 c)) p = Inr (holds e c, skip_ws q)"
    using or_loop_ends [of q _ k] by (simp add: lands_def p_def)
  moreover have "ep_in (skip_ws q)"
    by (rule ep_in_skip) (use q(2) in \<open>simp add: lands_def p_def ep_in_def\<close>)
  moreover have "ep_rest (skip_ws q) = []" using q(2) by (simp add: lands_def)
  ultimately show ?thesis
    by (simp add: eval_text_def p_def expect_eof_def ep_in_def ep_rest_def)
qed

theorem eval_text_condition_witness:
  "show_condition 0 (COr (Test (OName ''UNIX'')) (CAnd (CNot (Test (OName ''DLL'')))
       (Same (OName ''WordSize'') (ONum ''64'')))) = ''UNIX || ! DLL && WordSize = 64'' \<and>
   eval_text adw_win64_unicode ''UNIX || ! DLL && WordSize = 64'' = Inr True"
proof -
  have "wf_condition (COr (Test (OName ''UNIX'')) (CAnd (CNot (Test (OName ''DLL'')))
      (Same (OName ''WordSize'') (ONum ''64''))))"
    by (simp add: ident_byte_def ascii_class_defs byte_def)
  from eval_text_condition [OF this, of adw_win64_unicode] show ?thesis
    by (simp add: adw_win64_unicode_def truthy_value_def eq_ignore_ascii_case_def to_ascii_uppercase_def
        ascii_class_defs byte_def char_of_def bit_iff_odd)
qed

section \<open>Nests of conditional blocks\<close>

datatype piece = CText string | COp string

datatype chunks = Done | Plain string chunks | IfBlock "piece list" chunks arms chunks
and arms = EndIf | Else chunks | Elsif "piece list" chunks arms

fun show_pieces :: "piece list \<Rightarrow> string" where
  "show_pieces [] = []"
| "show_pieces (CText s # ps) = s @ show_pieces ps"
| "show_pieces (COp kw # ps) = CHR ''%'' # kw @ CHR '' '' # show_pieces ps"

text \<open>The expression text the directive parser is given: operators replaced, the rest verbatim.\<close>

fun expand_pieces :: "piece list \<Rightarrow> string" where
  "expand_pieces [] = []"
| "expand_pieces (CText s # ps) = s @ expand_pieces ps"
| "expand_pieces (COp kw # ps) =
     (case operator_text kw of None \<Rightarrow> [] | Some r \<Rightarrow> r) @ CHR '' '' # expand_pieces ps"

fun wf_piece :: "piece \<Rightarrow> bool" where
  "wf_piece (CText s) \<longleftrightarrow> CHR ''%'' \<notin> set s \<and> (\<forall>c \<in> set s. byte c < 0x80)"
| "wf_piece (COp kw) \<longleftrightarrow> kw \<in> {''AND'', ''OR'', ''NOT''}"

definition truth :: "env \<Rightarrow> piece list \<Rightarrow> bool" where
  "truth e c \<longleftrightarrow> eval_text e (CHR '' '' # expand_pieces c) = Inr True"

definition wf_pieces :: "env \<Rightarrow> piece list \<Rightarrow> bool" where
  "wf_pieces e c \<longleftrightarrow> list_all wf_piece c \<and> (\<exists>b. eval_text e (CHR '' '' # expand_pieces c) = Inr b)"

text \<open>Text the main loop copies byte by byte: no directive, string, comment or pragma opens in it.\<close>

definition opens :: "char \<Rightarrow> char \<Rightarrow> bool" where
  "opens c d \<longleftrightarrow> ((c = CHR ''('' \<or> c = CHR ''<'') \<and> d = CHR ''*'') \<or> (c = CHR ''/'' \<and> d = CHR ''/'')"

fun plain_text :: "string \<Rightarrow> bool" where
  "plain_text [] = True"
| "plain_text (c # s) \<longleftrightarrow>
     c \<notin> {CHR ''%'', CHR 0x22, CHR 0x27} \<and>
     (case s of [] \<Rightarrow> c \<notin> {CHR ''('', CHR ''<'', CHR ''/''} | d # _ \<Rightarrow> \<not> opens c d) \<and> plain_text s"

fun source_of :: "chunks \<Rightarrow> string" and source_of_arms :: "arms \<Rightarrow> string" where
  "source_of Done = []"
| "source_of (Plain s cs) = s @ source_of cs"
| "source_of (IfBlock c b a cs) =
     ''%IF '' @ show_pieces c @ ''%THEN '' @ source_of b @ source_of_arms a @ source_of cs"
| "source_of_arms EndIf = ''%END ''"
| "source_of_arms (Else b) = ''%ELSE '' @ source_of b @ ''%END ''"
| "source_of_arms (Elsif c b a) =
     ''%ELSIF '' @ show_pieces c @ ''%THEN '' @ source_of b @ source_of_arms a"

fun wf_chunks :: "env \<Rightarrow> chunks \<Rightarrow> bool" and wf_arms :: "env \<Rightarrow> arms \<Rightarrow> bool" where
  "wf_chunks e Done = True"
| "wf_chunks e (Plain s cs) \<longleftrightarrow> plain_text s \<and> wf_chunks e cs"
| "wf_chunks e (IfBlock c b a cs) \<longleftrightarrow> wf_pieces e c \<and> wf_chunks e b \<and> wf_arms e a \<and> wf_chunks e cs"
| "wf_arms e EndIf = True"
| "wf_arms e (Else b) = wf_chunks e b"
| "wf_arms e (Elsif c b a) \<longleftrightarrow> wf_pieces e c \<and> wf_chunks e b \<and> wf_arms e a"

text \<open>
  What is left of the text: \<open>live\<close> says whether the block itself is in an active branch, \<open>taken\<close>
  whether a branch of the chain has been taken before.
\<close>

fun selected :: "env \<Rightarrow> bool \<Rightarrow> chunks \<Rightarrow> string"
and selected_arms :: "env \<Rightarrow> bool \<Rightarrow> bool \<Rightarrow> arms \<Rightarrow> string" where
  "selected e live Done = []"
| "selected e live (Plain s cs) = (if live then s else map blank s) @ selected e live cs"
| "selected e live (IfBlock c b a cs) =
     map blank (''%IF '' @ show_pieces c @ ''%THEN '') @ selected e (live \<and> truth e c) b @
     selected_arms e live (live \<and> truth e c) a @ selected e live cs"
| "selected_arms e live taken EndIf = map blank ''%END ''"
| "selected_arms e live taken (Else b) =
     map blank ''%ELSE '' @ selected e (live \<and> \<not> taken) b @ map blank ''%END ''"
| "selected_arms e live taken (Elsif c b a) =
     map blank (''%ELSIF '' @ show_pieces c @ ''%THEN '') @ selected e (live \<and> \<not> taken \<and> truth e c) b @
     selected_arms e live (taken \<or> (live \<and> truth e c)) a"

section \<open>The scan at a given byte\<close>

definition scan :: "string \<Rightarrow> string \<Rightarrow> nat \<Rightarrow> env \<Rightarrow> branch_state list \<Rightarrow> preproc" where
  "scan src w k e st = \<lparr>pp_src = src, pp_out = w, pp_pos = pos_at src k, pp_env = e, pp_stack = st\<rparr>"

definition live_in :: "branch_state list \<Rightarrow> bool" where
  "live_in st = list_all current_take st"

lemma offset_pos_at: "k \<le> length src \<Longrightarrow> offset (pos_at src k) = k"
  by (simp add: pos_at_def)

lemma scan_fields [simp]:
  "pp_src (scan src w k e st) = src" "pp_env (scan src w k e st) = e" "pp_stack (scan src w k e st) = st"
  "(scan src w k e st)\<lparr>pp_stack := st'\<rparr> = scan src w k e st'" "active (scan src w k e st) = live_in st"
  "pp_pos (scan src w k e st) = pos_at src k" "pp_out (scan src w k e st) = w"
  by (simp_all add: scan_def active_def live_in_def)

lemma drop_ConsD: "drop k xs = c # t \<Longrightarrow> k < length xs \<and> xs ! k = c \<and> drop (Suc k) xs = t"
proof -
  assume h: "drop k xs = c # t"
  then have "k < length xs" by (metis drop_all leI list.distinct(1))
  then show ?thesis using h by (metis Cons_nth_drop_Suc list.inject)
qed

lemma drop_appendD: "drop k xs = s @ t \<Longrightarrow> drop (k + length s) xs = t"
  by (metis add.commute append_eq_conv_conj drop_drop)

lemma scan_peek:
  assumes "drop k src = c # t"
  shows "pp_peek (scan src w k e st) = Some c"
    "pp_peek_at (scan src w k e st) (Suc 0) = (case t of [] \<Rightarrow> None | d # _ \<Rightarrow> Some d)"
  using drop_ConsD [OF assms] drop_ConsD [of "Suc k" src]
  by (auto simp: pp_peek_def pp_peek_at_def offset_pos_at get_at_def split: list.splits)

lemma scan_emit:
  assumes "drop k src = c # t"
  shows "emit_byte d (scan src w k e st) = scan src (w @ [if live_in st then d else blank d]) (Suc k) e st"
    "erase_byte (scan src w k e st) = scan src (w @ [blank c]) (Suc k) e st"
proof -
  have "pp_peek (scan src v k e st) = Some c" for v by (rule scan_peek [OF assms])
  then show "emit_byte d (scan src w k e st) = scan src (w @ [if live_in st then d else blank d]) (Suc k) e st"
    "erase_byte (scan src w k e st) = scan src (w @ [blank c]) (Suc k) e st"
    using drop_ConsD [OF assms]
    by (simp_all add: emit_byte_def erase_byte_def pp_advance_def pos_at_Suc scan_def active_def live_in_def pp_peek_def)
qed

lemma scan_erase_bytes:
  "drop k src = s @ t \<Longrightarrow> erase_bytes (length s) (scan src w k e st) = scan src (w @ map blank s) (k + length s) e st"
proof (induction s arbitrary: k w)
  case (Cons c s)
  then have d: "drop k src = c # s @ t" by simp
  from Cons.IH [of "Suc k" "w @ [blank c]"] drop_ConsD [OF d] show ?case
    by (simp add: erase_bytes_Suc scan_emit [OF d])
qed (simp add: erase_bytes_def)

definition no_letter :: "string \<Rightarrow> bool" where
  "no_letter t \<longleftrightarrow> (case t of [] \<Rightarrow> True | c # _ \<Rightarrow> \<not> is_ascii_alphabetic c)"

lemma scan_erase_letters:
  "drop k src = s @ t \<Longrightarrow> list_all is_ascii_alphabetic s \<Longrightarrow> no_letter t \<Longrightarrow> k \<le> length src \<Longrightarrow>
   erase_letters (scan src w k e st) = scan src (w @ map blank s) (k + length s) e st"
proof (induction s arbitrary: k w)
  case Nil
  then show ?case
    using scan_peek(1) [of k src "hd t" "tl t"]
    by (cases t) (auto simp: erase_letters.simps [of "scan src w k e st"] no_letter_def pp_peek_def offset_pos_at get_at_def)
next
  case (Cons c s)
  then have d: "drop k src = c # s @ t" by simp
  show ?case
    using Cons.prems Cons.IH [of "Suc k" "w @ [blank c]"] drop_ConsD [OF d]
    by (simp add: erase_letters.simps [of "scan src w k e st"] scan_peek [OF d] scan_emit [OF d])
qed

lemma scan_probe:
  assumes "drop k src = CHR ''%'' # kw @ t" "list_all is_ascii_alphabetic kw" "no_letter t"
  shows "probe_keyword (scan src w k e st) = kw"
proof -
  have "takeWhile is_ascii_alphabetic t = []" using assms(3) by (cases t) (auto simp: no_letter_def)
  then show ?thesis
    using takeWhile_run [OF assms(2)] drop_ConsD [OF assms(1)] by (simp add: probe_keyword_def offset_pos_at)
qed

section \<open>Reading a directive\<close>

lemma letters_ascii: "byte c < 0x80 \<Longrightarrow> utf8_encode (byte c) = [c]"
  by (simp add: utf8_encode_def byte_def)

lemma read_text:
  "drop k src = s @ t \<Longrightarrow> wf_piece (CText s) \<Longrightarrow>
   read_expr_loop start buf (scan src w k e st) =
   read_expr_loop start (buf @ s) (scan src (w @ map blank s) (k + length s) e st)"
proof (induction s arbitrary: k w buf)
  case (Cons c s)
  then have d: "drop k src = c # s @ t" by simp
  show ?case
    using Cons.prems Cons.IH [of "Suc k" "buf @ [c]" "w @ [blank c]"] drop_ConsD [OF d]
    by (auto simp: read_expr_loop.simps [of start buf "scan src w k e st"] scan_peek [OF d] scan_emit [OF d]
        letters_ascii)
qed simp

lemma read_op:
  assumes "drop k src = CHR ''%'' # kw @ t" "kw \<in> {''AND'', ''OR'', ''NOT''}" "no_letter t"
  shows "read_expr_loop start buf (scan src w k e st) =
    read_expr_loop start (buf @ the (operator_text kw))
      (scan src (w @ map blank (CHR ''%'' # kw)) (k + length (CHR ''%'' # kw)) e st)"
proof -
  have kw: "list_all is_ascii_alphabetic kw" "kw \<noteq> ''THEN''"
    using assms(2) by (auto simp: ascii_class_defs byte_def)
  obtain r where r: "operator_text kw = Some r" using assms(2) by (auto simp: operator_text_def)
  have e: "erase_bytes (length (CHR ''%'' # kw)) (scan src w k e st) =
      scan src (w @ map blank (CHR ''%'' # kw)) (k + length (CHR ''%'' # kw)) e st"
    by (rule scan_erase_bytes) (use assms(1) in simp)
  show ?thesis
    using e kw(2) r scan_peek(1) [OF assms(1)] scan_probe [OF assms(1) kw(1) assms(3)]
    by (simp add: read_expr_loop.simps [of start buf "scan src w k e st"] Let_def)
qed

lemma read_then:
  assumes "drop k src = ''%THEN '' @ t" "eval_text e buf = Inr v"
  shows "read_expr_loop start buf (scan src w k e st) =
    Inr (v, scan src (w @ map blank ''%THEN'') (k + length ''%THEN'') e st)"
proof -
  have d: "drop k src = CHR ''%'' # ''THEN'' @ CHR '' '' # t" using assms(1) by simp
  have "list_all is_ascii_alphabetic ''THEN''" "no_letter (CHR '' '' # t)"
    by (simp_all add: ascii_class_defs byte_def no_letter_def)
  note kw = scan_probe [OF d this]
  have e: "erase_bytes (length ''%THEN'') (scan src w k e st) =
      scan src (w @ map blank ''%THEN'') (k + length ''%THEN'') e st"
    by (rule scan_erase_bytes [of _ _ _ "CHR '' '' # t"]) (use d in simp)
  then have "erase_bytes (Suc (length (probe_keyword (scan src w k e st)))) (scan src w k e st) =
      scan src (w @ map blank ''%THEN'') (k + length ''%THEN'') e st"
    by (simp add: kw)
  then show ?thesis
    using kw scan_peek(1) [OF d] assms(2)
    by (simp add: read_expr_loop.simps [of start buf "scan src w k e st"] eval_expr_def Let_def)
qed

lemma read_pieces:
  "drop k src = show_pieces c @ ''%THEN '' @ t \<Longrightarrow> list_all wf_piece c \<Longrightarrow>
   eval_text e (buf @ expand_pieces c) = Inr v \<Longrightarrow>
   read_expr_loop start buf (scan src w k e st) =
   Inr (v, scan src (w @ map blank (show_pieces c @ ''%THEN'')) (k + length (show_pieces c @ ''%THEN'')) e st)"
proof (induction c arbitrary: k buf w)
  case Nil
  then show ?case using read_then [of k src t] by simp
next
  case (Cons x c)
  show ?case
  proof (cases x)
    case (CText s)
    then have d: "drop k src = s @ show_pieces c @ ''%THEN '' @ t" using Cons.prems(1) by simp
    show ?thesis
      using CText Cons.prems(2,3) Cons.IH [OF drop_appendD [OF d], of "buf @ s"]
      by (simp add: read_text [OF d] add.assoc)
  next
    case (COp kw)
    let ?u = "show_pieces c @ ''%THEN '' @ t"
    have d: "drop k src = CHR ''%'' # kw @ CHR '' '' # ?u" using Cons.prems(1) COp by simp
    have kw: "kw \<in> {''AND'', ''OR'', ''NOT''}" using Cons.prems(2) COp by simp
    have nl: "no_letter (CHR '' '' # ?u)" by (simp add: no_letter_def ascii_class_defs byte_def)
    have d2: "drop (k + length (CHR ''%'' # kw)) src = '' '' @ ?u"
      using drop_appendD [of k src "CHR ''%'' # kw" "CHR '' '' # ?u"] d by simp
    have d3: "drop (k + length (CHR ''%'' # kw) + 1) src = ?u" using drop_appendD [OF d2] by simp
    have "wf_piece (CText '' '')" by (simp add: byte_def)
    note step = read_op [OF d kw nl] and space = read_text [OF d2 this]
    obtain r where r: "operator_text kw = Some r" using kw by (auto simp: operator_text_def)
    have "eval_text e ((buf @ r @ '' '') @ expand_pieces c) = Inr v" using Cons.prems(3) COp r by simp
    from Cons.IH [OF d3 _ this] Cons.prems(2) show ?thesis
      using step space r COp by (simp add: blank_def newline_def add.assoc)
  qed
qed

lemma directive_keyword:
  assumes "drop k src = CHR ''%'' # kw @ t" "list_all is_ascii_alphabetic kw" "no_letter t"
  shows "erase_letters (erase_byte (scan src w k e st)) =
      scan src (w @ map blank (CHR ''%'' # kw)) (k + length (CHR ''%'' # kw)) e st"
    "offset (pp_pos (erase_byte (scan src w k e st))) = Suc k"
    "byte_range src (Suc k) (offset (pos_at src (k + length (CHR ''%'' # kw)))) = kw"
    "drop (k + length (CHR ''%'' # kw)) src = t"
proof -
  note d = drop_ConsD [OF assms(1)]
  have d1: "drop (Suc k) src = kw @ t" using d by blast
  have "length src - Suc k = length kw + length t" by (metis d1 length_append length_drop)
  moreover have "k < length src" using d by blast
  ultimately have len: "k + length (CHR ''%'' # kw) \<le> length src" by simp
  have e1: "erase_byte (scan src w k e st) = scan src (w @ [blank CHR ''%'']) (Suc k) e st"
    by (rule scan_emit(2) [OF assms(1)])
  show "erase_letters (erase_byte (scan src w k e st)) =
      scan src (w @ map blank (CHR ''%'' # kw)) (k + length (CHR ''%'' # kw)) e st"
    using scan_erase_letters [OF d1 assms(2,3)] d by (simp add: e1)
  show "offset (pp_pos (erase_byte (scan src w k e st))) = Suc k"
    using d by (simp add: e1 offset_pos_at)
  show "byte_range src (Suc k) (offset (pos_at src (k + length (CHR ''%'' # kw)))) = kw"
    using len d1 by (simp add: offset_pos_at byte_range_def)
  show "drop (k + length (CHR ''%'' # kw)) src = t"
    using drop_appendD [OF d1] by simp
qed

lemma letters_of_directives:
  "list_all is_ascii_alphabetic ''IF''" "list_all is_ascii_alphabetic ''ELSIF''"
  "list_all is_ascii_alphabetic ''ELSE''" "list_all is_ascii_alphabetic ''END''" "no_letter (CHR '' '' # t)"
  by (simp_all add: ascii_class_defs byte_def no_letter_def)

lemma directive_if:
  assumes "drop k src = ''%IF '' @ show_pieces c @ ''%THEN '' @ t" "wf_pieces e c"
  shows "handle_directive (scan src w k e st) =
    Inr (scan src (w @ map blank (''%IF '' @ show_pieces c @ ''%THEN'')) (k + length (''%IF '' @ show_pieces c @ ''%THEN'')) e
      (\<lparr>parent_active = live_in st, any_taken = live_in st \<and> truth e c, current_take = live_in st \<and> truth e c\<rparr> # st))"
proof -
  let ?u = "show_pieces c @ ''%THEN '' @ t"
  have d: "drop k src = CHR ''%'' # ''IF'' @ CHR '' '' # ?u" using assms(1) by simp
  note kw = directive_keyword [OF d letters_of_directives(1,5)]
  obtain v where v: "eval_text e (CHR '' '' # expand_pieces c) = Inr v" using assms(2) by (auto simp: wf_pieces_def)
  have wf: "list_all wf_piece (CText '' '' # c)" using assms(2) by (simp add: wf_pieces_def byte_def)
  have "read_expr_then (scan src w' (k + length ''%IF'') e st) =
      Inr (v, scan src (w' @ map blank ('' '' @ show_pieces c @ ''%THEN'')) (k + length ''%IF'' + length ('' '' @ show_pieces c @ ''%THEN'')) e st)" for w'
    unfolding read_expr_then_def
    using read_pieces [of "k + length ''%IF''" src "CText '' '' # c" t e "[]" v _ w'] wf v kw(4) by simp
  moreover have "truth e c = v" using v by (simp add: truth_def)
  ultimately show ?thesis
    unfolding handle_directive_def Let_def kw(1)
    using kw(2,3) by (simp add: Let_def)
qed

lemma directive_elsif:
  assumes "drop k src = ''%ELSIF '' @ show_pieces c @ ''%THEN '' @ t" "wf_pieces e c"
  shows "handle_directive (scan src w k e (fr # st)) =
    Inr (scan src (w @ map blank (''%ELSIF '' @ show_pieces c @ ''%THEN'')) (k + length (''%ELSIF '' @ show_pieces c @ ''%THEN'')) e
      (fr\<lparr>current_take := parent_active fr \<and> \<not> any_taken fr \<and> truth e c,
          any_taken := any_taken fr \<or> (parent_active fr \<and> \<not> any_taken fr \<and> truth e c)\<rparr> # st))"
proof -
  let ?u = "show_pieces c @ ''%THEN '' @ t"
  have d: "drop k src = CHR ''%'' # ''ELSIF'' @ CHR '' '' # ?u" using assms(1) by simp
  note kw = directive_keyword [OF d letters_of_directives(2,5)]
  obtain v where v: "eval_text e (CHR '' '' # expand_pieces c) = Inr v" using assms(2) by (auto simp: wf_pieces_def)
  have wf: "list_all wf_piece (CText '' '' # c)" using assms(2) by (simp add: wf_pieces_def byte_def)
  have "read_expr_then (scan src w' (k + length ''%ELSIF'') e st') =
      Inr (v, scan src (w' @ map blank ('' '' @ show_pieces c @ ''%THEN'')) (k + length ''%ELSIF'' + length ('' '' @ show_pieces c @ ''%THEN'')) e st')" for w' st'
    unfolding read_expr_then_def
    using read_pieces [of "k + length ''%ELSIF''" src "CText '' '' # c" t e "[]" v _ w'] wf v kw(4) by simp
  moreover have "truth e c = v" using v by (simp add: truth_def)
  ultimately show ?thesis
    unfolding handle_directive_def Let_def kw(1)
    using kw(2,3) by (simp add: Let_def)
qed

lemma directive_else:
  assumes "drop k src = ''%ELSE '' @ t"
  shows "handle_directive (scan src w k e (fr # st)) =
    Inr (scan src (w @ map blank ''%ELSE'') (k + length ''%ELSE'') e
      (fr\<lparr>current_take := parent_active fr \<and> \<not> any_taken fr,
          any_taken := any_taken fr \<or> (parent_active fr \<and> \<not> any_taken fr)\<rparr> # st))"
proof -
  have d: "drop k src = CHR ''%'' # ''ELSE'' @ CHR '' '' # t" using assms by simp
  note kw = directive_keyword [OF d letters_of_directives(3,5)]
  show ?thesis unfolding handle_directive_def Let_def kw(1) using kw(2,3) by (simp add: Let_def)
qed

lemma directive_end:
  assumes "drop k src = ''%END '' @ t"
  shows "handle_directive (scan src w k e (fr # st)) = Inr (scan src (w @ map blank ''%END'') (k + length ''%END'') e st)"
proof -
  have d: "drop k src = CHR ''%'' # ''END'' @ CHR '' '' # t" using assms by simp
  note kw = directive_keyword [OF d letters_of_directives(4,5)]
  show ?thesis unfolding handle_directive_def Let_def kw(1) using kw(2,3) by (simp add: Let_def)
qed

section \<open>The main loop on a nest of blocks\<close>

lemma run_directive:
  assumes "drop k src = CHR ''%'' # t" "handle_directive (scan src w k e st) = Inr q"
  shows "run (scan src w k e st) = run q"
  using assms(2) by (subst run.simps) (simp add: scan_peek [OF assms(1)])

lemma run_copy:
  assumes "drop k src = c # t" "c \<notin> {CHR ''%'', CHR 0x22, CHR 0x27}"
    "case t of [] \<Rightarrow> True | d # _ \<Rightarrow> \<not> opens c d"
  shows "run (scan src w k e st) = run (scan src (w @ [if live_in st then c else blank c]) (Suc k) e st)"
proof (cases t)
  case Nil
  show ?thesis
    using assms(2) by (subst run.simps) (simp add: scan_peek [OF assms(1)] scan_emit [OF assms(1)] Nil)
next
  case (Cons d u)
  then have "\<not> (c = CHR ''('' \<and> d = CHR ''*'')" "\<not> (c = CHR ''/'' \<and> d = CHR ''/'')" "\<not> (c = CHR ''<'' \<and> d = CHR ''*'')"
    using assms(3) by (auto simp: opens_def)
  then show ?thesis
    using assms(2) by (subst run.simps) (auto simp: scan_peek [OF assms(1)] scan_emit [OF assms(1)] Cons)
qed

lemma run_plain:
  "drop k src = s @ t \<Longrightarrow> plain_text s \<Longrightarrow>
   run (scan src w k e st) = run (scan src (w @ (if live_in st then s else map blank s)) (k + length s) e st)"
proof (induction s arbitrary: k w)
  case (Cons c s)
  then have d: "drop k src = c # s @ t" by simp
  have "case s @ t of [] \<Rightarrow> True | d # _ \<Rightarrow> \<not> opens c d"
    using Cons.prems(2) by (auto simp: opens_def split: list.splits)
  from run_copy [OF d _ this] Cons.IH [of "Suc k"] Cons.prems(2) drop_ConsD [OF d] show ?case by simp
qed simp

lemma run_space:
  assumes "drop k src = CHR '' '' # t"
  shows "run (scan src w k e st) = run (scan src (w @ [blank CHR '' '']) (Suc k) e st)"
proof -
  have "case t of [] \<Rightarrow> True | d # _ \<Rightarrow> \<not> opens (CHR '' '') d" by (auto simp: opens_def split: list.split)
  from run_copy [OF assms _ this] show ?thesis by (simp add: blank_def newline_def)
qed

lemma run_chunks:
  "drop k src = source_of cs @ t \<Longrightarrow> wf_chunks e cs \<Longrightarrow>
   run (scan src w k e st) = run (scan src (w @ selected e (live_in st) cs) (k + length (source_of cs)) e st)"
  "drop k src = source_of_arms a @ t \<Longrightarrow> wf_arms e a \<Longrightarrow> parent_active fr = live_in st \<Longrightarrow>
   current_take fr \<longrightarrow> live_in st \<Longrightarrow> any_taken fr \<longrightarrow> live_in st \<Longrightarrow>
   run (scan src w k e (fr # st)) =
   run (scan src (w @ selected_arms e (live_in st) (any_taken fr) a) (k + length (source_of_arms a)) e st)"
proof (induction cs and a arbitrary: k w st t and k w st t fr)
  case Done
  then show ?case by simp
next
  case (Plain s cs)
  then have d: "drop k src = s @ source_of cs @ t" by simp
  show ?case
    using Plain.prems(2) Plain.IH [OF drop_appendD [OF d]] run_plain [OF d] by (simp add: add.assoc)
next
  case (IfBlock c b a cs)
  let ?h = "''%IF '' @ show_pieces c @ ''%THEN''"
  let ?take = "live_in st \<and> truth e c"
  let ?fr = "\<lparr>parent_active = live_in st, any_taken = ?take, current_take = ?take\<rparr>"
  have lv: "live_in (?fr # st) = ?take" by (auto simp: live_in_def)
  have d: "drop k src = ?h @ '' '' @ source_of b @ source_of_arms a @ source_of cs @ t"
    using IfBlock.prems(1) by simp
  note d1 = drop_appendD [OF d] and wf = IfBlock.prems(2)
  note d2 = drop_appendD [OF d1] note d3 = drop_appendD [OF d2] note d4 = drop_appendD [OF d3]
  have "run (scan src w k e st) = run (scan src (w @ map blank ?h) (k + length ?h) e (?fr # st))"
    by (rule run_directive [OF _ directive_if]) (use d wf in simp_all)
  also have "\<dots> = run (scan src (w @ map blank (?h @ '' '')) (k + length ?h + length '' '') e (?fr # st))"
    using run_space [of "k + length ?h" src] d1 by simp
  also have "\<dots> = run (scan src (w @ map blank (?h @ '' '') @ selected e ?take b)
      (k + length ?h + length '' '' + length (source_of b)) e (?fr # st))"
    using IfBlock.IH(1) [OF d2, where st = "?fr # st"] wf lv by simp
  also have "\<dots> = run (scan src (w @ map blank (?h @ '' '') @ selected e ?take b @ selected_arms e (live_in st) ?take a)
      (k + length ?h + length '' '' + length (source_of b) + length (source_of_arms a)) e st)"
    using IfBlock.IH(2) [OF d3, of ?fr st] wf by simp
  finally show ?case
    using IfBlock.IH(3) [OF d4] wf by (simp add: add.assoc)
next
  case EndIf
  have d: "drop k src = ''%END'' @ '' '' @ t" using EndIf.prems(1) by simp
  have "run (scan src w k e (fr # st)) = run (scan src (w @ map blank ''%END'') (k + length ''%END'') e st)"
    by (rule run_directive [OF _ directive_end]) (use d in simp_all)
  then show ?case
    using run_space [of "k + length ''%END''" src t] drop_appendD [OF d] by simp
next
  case (Else b)
  let ?take = "live_in st \<and> \<not> any_taken fr"
  let ?fr = "fr\<lparr>current_take := ?take, any_taken := any_taken fr \<or> ?take\<rparr>"
  have lv: "live_in (?fr # st) = ?take" by (auto simp: live_in_def)
  have d: "drop k src = ''%ELSE'' @ '' '' @ source_of b @ ''%END'' @ '' '' @ t" using Else.prems(1) by simp
  note d1 = drop_appendD [OF d] note d2 = drop_appendD [OF d1] note d3 = drop_appendD [OF d2]
  note d4 = drop_appendD [OF d3]
  have "run (scan src w k e (fr # st)) = run (scan src (w @ map blank ''%ELSE'') (k + length ''%ELSE'') e (?fr # st))"
    using directive_else [of k src "source_of b @ ''%END '' @ t" w e fr st] d Else.prems(3)
    by (intro run_directive) simp_all
  also have "\<dots> = run (scan src (w @ map blank ''%ELSE '') (k + length ''%ELSE'' + length '' '') e (?fr # st))"
    using run_space [of "k + length ''%ELSE''" src] d1 by simp
  also have "\<dots> = run (scan src (w @ map blank ''%ELSE '' @ selected e ?take b)
      (k + length ''%ELSE'' + length '' '' + length (source_of b)) e (?fr # st))"
    using Else.IH [OF d2, where st = "?fr # st"] Else.prems(2) lv by simp
  also have "\<dots> = run (scan src (w @ map blank ''%ELSE '' @ selected e ?take b @ map blank ''%END'')
      (k + length ''%ELSE'' + length '' '' + length (source_of b) + length ''%END'') e st)"
    using run_directive [OF _ directive_end] d3 by simp
  finally show ?case
    using run_space [OF d4 [unfolded append_Cons append_Nil]] by (simp add: add.assoc)
next
  case (Elsif c b a)
  let ?h = "''%ELSIF '' @ show_pieces c @ ''%THEN''"
  let ?take = "live_in st \<and> \<not> any_taken fr \<and> truth e c"
  let ?fr = "fr\<lparr>current_take := ?take, any_taken := any_taken fr \<or> ?take\<rparr>"
  have lv: "live_in (?fr # st) = ?take" by (auto simp: live_in_def)
  have d: "drop k src = ?h @ '' '' @ source_of b @ source_of_arms a @ t"
    using Elsif.prems(1) by simp
  note d1 = drop_appendD [OF d] and wf = Elsif.prems(2)
  note d2 = drop_appendD [OF d1] note d3 = drop_appendD [OF d2]
  have "run (scan src w k e (fr # st)) = run (scan src (w @ map blank ?h) (k + length ?h) e (?fr # st))"
    using directive_elsif [of k src c "source_of b @ source_of_arms a @ t" e w fr st] d wf Elsif.prems(3)
    by (intro run_directive) simp_all
  also have "\<dots> = run (scan src (w @ map blank (?h @ '' '')) (k + length ?h + length '' '') e (?fr # st))"
    using run_space [of "k + length ?h" src] d1 by simp
  also have "\<dots> = run (scan src (w @ map blank (?h @ '' '') @ selected e ?take b)
      (k + length ?h + length '' '' + length (source_of b)) e (?fr # st))"
    using Elsif.IH(1) [OF d2, where st = "?fr # st"] wf lv by simp
  finally show ?case
    using Elsif.IH(2) [OF d3, of ?fr st] wf Elsif.prems(3,5)
    by (cases "any_taken fr"; cases "live_in st") (simp_all add: add.assoc)
qed

text \<open>
  C2 (branch selection): on a well-formed nest of \<open>%IF\<close> blocks the preprocessor's output is the
  text of the selected branches with every directive, every condition and every other branch
  blanked byte for byte. A branch is selected exactly if the block itself is live, no branch before
  it in the chain was taken and its condition holds, so at most one branch of a chain survives.
\<close>

theorem preprocess_selects:
  assumes "wf_chunks e cs" "utf8_decode (source_of cs) \<noteq> None"
  shows "preprocess (source_of cs) e = Inr (selected e True cs)"
proof -
  let ?src = "source_of cs"
  have "preproc_new ?src e = scan ?src [] 0 e []" by (simp add: preproc_new_def scan_def)
  then have "run (preproc_new ?src e) = run (scan ?src (selected e True cs) (length ?src) e [])"
    using run_chunks(1) [of 0 ?src cs "[]" e "[]" "[]"] assms(1) by (simp add: live_in_def)
  also have "\<dots> = Inr (scan ?src (selected e True cs) (length ?src) e [])"
    by (subst run.simps) (simp add: pp_peek_def offset_pos_at get_at_def)
  finally have r: "run (preproc_new ?src e) = Inr (scan ?src (selected e True cs) (length ?src) e [])" .
  show ?thesis
  proof (cases "CHR ''%'' \<in> set ?src")
    case True
    then show ?thesis using r mask_utf8 [OF assms(2) run_new_mask [OF r]]
      by (auto simp: preprocess_def)
  next
    case False
    then show ?thesis using run_verbatim [OF r] by (simp add: preproc_new_def active_def preprocess_def)
  qed
qed

theorem preprocess_selects_witness:
  "preprocess ''%IF A %THEN x%ELSIF B %THEN y%ELSE z%END w'' (define_bool ''B'' True env_empty) =
     Inr ''                            y            w''"
proof -
  let ?e = "define_bool ''B'' True env_empty"
  let ?cs = "IfBlock [CText ''A ''] (Plain ''x'' Done)
      (Elsif [CText ''B ''] (Plain ''y'' Done) (Else (Plain ''z'' Done))) (Plain ''w'' Done)"
  have "eval_text ?e '' A '' = Inr False" "eval_text ?e '' B '' = Inr True"
    by (simp_all add: preprocess_eval Let_def ep_rest_def cong: rbind_weak_cong let_weak_cong)
  then have t: "truth ?e [CText ''A ''] = False" "truth ?e [CText ''B ''] = True"
      "wf_pieces ?e [CText ''A '']" "wf_pieces ?e [CText ''B '']"
    by (auto simp add: truth_def wf_pieces_def byte_def)
  have "wf_chunks ?e ?cs" using t by simp
  moreover have "utf8_decode (source_of ?cs) \<noteq> None" by (simp add: byte_def)
  ultimately show ?thesis
    using preprocess_selects [of ?e ?cs] t by (simp add: blank_def newline_def)
qed

end
