(* ===== verification/Ast.thy ===== *)
theory Ast
  imports Token
begin

text \<open>
  The expression part of the syntax tree (\<open>newm2-parser/src/ast.rs\<close>): the enums are datatypes
  with the source's variants in its order, structs that are not part of the recursion are records,
  and those that are (\<open>Designator\<close>) are one-constructor datatypes.
\<close>

record qual_name =
  segments :: "string list"
  qn_span :: span

definition simple :: "string \<Rightarrow> span \<Rightarrow> qual_name" where
  "simple name sp = \<lparr>segments = [name], qn_span = sp\<rparr>"

datatype binary_op =
    OpAdd | OpSub | OpMul | OpDiv | OpDivKw | OpMod | OpRem
  | OpEq | OpNe | OpLt | OpLe | OpGt | OpGe | OpAnd | OpOr | OpIn
  | OpBor | OpBand | OpBxor | OpShl | OpShr

datatype unary_op = OpPos | OpNeg | OpNot

datatype expr =
    EInteger u64 span
  | EReal f64 span
  | EChar char_literal span
  | EString string_literal span
  | ENil span
  | EDesignator designator
  | ECall expr "expr list" span
  | EBinary binary_op expr expr span
  | EUnary unary_op expr span
  | ESet "qual_name option" "set_elem list" span
and designator = Designator qual_name "selector list" span
and selector =
    SField string span
  | SIndex "expr list" span
  | SDeref span
  | STypeGuard qual_name span
and set_elem = Single expr | Range expr expr

fun d_base :: "designator \<Rightarrow> qual_name" where
  "d_base (Designator b ss sp) = b"

fun d_selectors :: "designator \<Rightarrow> selector list" where
  "d_selectors (Designator b ss sp) = ss"

fun d_span :: "designator \<Rightarrow> span" where
  "d_span (Designator b ss sp) = sp"

text \<open>\<open>segments.join(".")\<close>, and the pushes of \<open>'.'\<close> and a name that follow it.\<close>

fun join_dots :: "string list \<Rightarrow> string" where
  "join_dots [] = []"
| "join_dots [s] = s"
| "join_dots (s # t # ss) = s @ CHR ''.'' # join_dots (t # ss)"

definition push_field :: "string \<Rightarrow> string \<Rightarrow> string" where
  "push_field name f = name @ CHR ''.'' # f"

definition is_field :: "selector \<Rightarrow> bool" where
  "is_field s = (case s of SField _ _ \<Rightarrow> True | _ \<Rightarrow> False)"

text \<open>The dotted name of a designator: base segments and field selectors, other selectors skipped.\<close>

definition designator_key :: "designator \<Rightarrow> string" where
  "designator_key d =
     foldl (\<lambda>key s. case s of SField f _ \<Rightarrow> push_field key f | _ \<Rightarrow> key)
       (join_dots (segments (d_base d))) (d_selectors d)"

end
