(* ===== verification/ConstEval.thy ===== *)
theory ConstEval
  imports Ast Floats
begin

text \<open>
  The evaluator of constant expressions (\<open>newm2-sema/src/constant.rs\<close>). An \<open>i128\<close> is an \<open>int\<close>
  with the range written out: the checked operations fail outside it, the bit operations wrap, and
  the count of a string is a \<open>usize\<close>, and an operation that panics on overflow (\<open>/\<close>, \<open>%\<close> and \<open>abs\<close> at the smallest value) is the error
  \<open>Panic\<close>. A \<open>char\<close> is its scalar value, a \<open>String\<close> its UTF-8 bytes, an \<open>f64\<close> its bit pattern.
\<close>

section \<open>128-bit integers\<close>

definition i128_min :: int where
  "i128_min = - (2 ^ 127)"

definition i128_max :: int where
  "i128_max = 2 ^ 127 - 1"

definition in_i128 :: "int \<Rightarrow> bool" where
  "in_i128 n \<longleftrightarrow> i128_min \<le> n \<and> n \<le> i128_max"

definition wrap_i128 :: "int \<Rightarrow> int" where
  "wrap_i128 n = (n + 2 ^ 127) mod 2 ^ 128 - 2 ^ 127"

definition checked :: "int \<Rightarrow> int option" where
  "checked n = (if in_i128 n then Some n else None)"

text \<open>Division and remainder that truncate towards zero, as \<open>/\<close> and \<open>%\<close> do.\<close>

definition trunc_div :: "int \<Rightarrow> int \<Rightarrow> int" where
  "trunc_div a b = (if (a < 0) = (b < 0) then \<bar>a\<bar> div \<bar>b\<bar> else - (\<bar>a\<bar> div \<bar>b\<bar>))"

definition trunc_rem :: "int \<Rightarrow> int \<Rightarrow> int" where
  "trunc_rem a b = (if a < 0 then - (\<bar>a\<bar> mod \<bar>b\<bar>) else \<bar>a\<bar> mod \<bar>b\<bar>)"

section \<open>Values and errors\<close>

datatype const_value =
    CInt int
  | CReal f64
  | CBool bool
  | CChar nat
  | CStr string
  | CSet "int list"
  | CNil
  | CFuncRef string
  | CComplex f64 f64
  | CAggregate "const_value list"

fun type_name :: "const_value \<Rightarrow> string" where
  "type_name (CInt n) = ''integer''"
| "type_name (CReal f) = ''real''"
| "type_name (CBool b) = ''BOOLEAN''"
| "type_name (CChar c) = ''CHAR''"
| "type_name (CStr s) = ''string''"
| "type_name (CSet s) = ''set''"
| "type_name CNil = ''NIL''"
| "type_name (CFuncRef f) = ''procedure''"
| "type_name (CComplex x y) = ''complex''"
| "type_name (CAggregate vs) = ''aggregate''"

fun as_int :: "const_value \<Rightarrow> int option" where
  "as_int (CInt n) = Some n"
| "as_int (CBool b) = Some (if b then 1 else 0)"
| "as_int (CChar c) = Some (int c)"
| "as_int _ = None"

text \<open>The messages, with what they are formatted from; \<open>Panic\<close> is an arithmetic panic.\<close>

datatype eval_message =
    NotConstant string
  | SetElementNotOrdinal
  | SetRangeNotOrdinal
  | DivisionByZero
  | DivTypeMismatch
  | InRequiresSet
  | PosRequiresNumeric
  | NegRequiresNumeric
  | ConstantOverflow
  | NotRequiresBoolean
  | CallNotConstant
  | WrongArity string nat
  | ChrOutOfRange
  | OrdRequiresOrdinal
  | AbsRequiresNumeric
  | CapOutOfRange
  | LengthRequiresString
  | RequiresComplex
  | CastArity
  | ConversionOutOfRange int string
  | ExpectedInteger
  | ExpectedReal
  | ExpectedBoolean
  | ArithTypeMismatch
  | CompareTypeMismatch
  | Panic

record eval_error =
  ev_message :: eval_message
  ev_span :: span

definition eval_err :: "span \<Rightarrow> eval_message \<Rightarrow> eval_error" where
  "eval_err sp m = \<lparr>ev_message = m, ev_span = sp\<rparr>"

type_synonym evaluated = "eval_error + const_value"
type_synonym const_lookup = "string \<Rightarrow> const_value option"

section \<open>Synthetic keys\<close>

definition key_mark :: char where
  "key_mark = CHR 0x01"

definition marked_key :: "string \<Rightarrow> string \<Rightarrow> string" where
  "marked_key op name = key_mark # op @ key_mark # name"

definition type_builtin_key :: "string \<Rightarrow> expr \<Rightarrow> string option" where
  "type_builtin_key op arg =
     (case arg of
        EDesignator d \<Rightarrow>
          if list_all is_field (d_selectors d) then Some (marked_key op (designator_key d)) else None
      | _ \<Rightarrow> None)"

definition type_conv_key :: "string \<Rightarrow> string" where
  "type_conv_key name = marked_key ''conv'' name"

definition type_conv_lo_key :: "string \<Rightarrow> string" where
  "type_conv_lo_key name = marked_key ''convlo'' name"

definition type_conv_hi_key :: "string \<Rightarrow> string" where
  "type_conv_hi_key name = marked_key ''convhi'' name"

section \<open>Helpers\<close>

definition int_val :: "const_value \<Rightarrow> span \<Rightarrow> eval_error + int" where
  "int_val v sp = ok_or (eval_err sp ExpectedInteger) (as_int v)"

definition real_val :: "const_value \<Rightarrow> span \<Rightarrow> eval_error + f64" where
  "real_val v sp =
     (case v of
        CReal f \<Rightarrow> Inr f
      | CInt n \<Rightarrow> Inr (f64_of_int n)
      | _ \<Rightarrow> Inl (eval_err sp ExpectedReal))"

definition bool_val :: "const_value \<Rightarrow> span \<Rightarrow> eval_error + bool" where
  "bool_val v sp = (case v of CBool b \<Rightarrow> Inr b | _ \<Rightarrow> Inl (eval_err sp ExpectedBoolean))"

definition arith_op ::
  "const_value \<Rightarrow> const_value \<Rightarrow> span \<Rightarrow> (int \<Rightarrow> int \<Rightarrow> int option) \<Rightarrow> (f64 \<Rightarrow> f64 \<Rightarrow> f64) \<Rightarrow> evaluated" where
  "arith_op lv rv sp int_op real_op =
     (case (lv, rv) of
        (CInt a, CInt b) \<Rightarrow> rbind (ok_or (eval_err sp ConstantOverflow) (int_op a b)) (\<lambda>n. Inr (CInt n))
      | (CReal a, CReal b) \<Rightarrow> Inr (CReal (real_op a b))
      | (CInt a, CReal b) \<Rightarrow> Inr (CReal (real_op (f64_of_int a) b))
      | (CReal a, CInt b) \<Rightarrow> Inr (CReal (real_op a (f64_of_int b)))
      | _ \<Rightarrow> Inl (eval_err sp ArithTypeMismatch))"

text \<open>\<open>if !members.contains(&n) { members.push(n) }\<close>\<close>

definition push_new :: "int list \<Rightarrow> int \<Rightarrow> int list" where
  "push_new ms n = (if n \<in> set ms then ms else ms @ [n])"

definition set_union :: "int list \<Rightarrow> int list \<Rightarrow> int list" where
  "set_union a b = sort (foldl push_new a b)"

definition set_diff :: "int list \<Rightarrow> int list \<Rightarrow> int list" where
  "set_diff a b = sort (filter (\<lambda>x. x \<notin> set b) a)"

definition set_inter :: "int list \<Rightarrow> int list \<Rightarrow> int list" where
  "set_inter a b = sort (filter (\<lambda>x. x \<in> set b) a)"

text \<open>\<open>Vec::dedup\<close>: drops an element equal to the one before it.\<close>

fun dedup :: "int list \<Rightarrow> int list" where
  "dedup [] = []"
| "dedup [x] = [x]"
| "dedup (x # y # ys) = (if x = y then dedup (y # ys) else x # dedup (y # ys))"

definition set_symdiff :: "int list \<Rightarrow> int list \<Rightarrow> int list" where
  "set_symdiff a b =
     dedup (sort (filter (\<lambda>x. x \<notin> set b) a @ filter (\<lambda>x. x \<notin> set a) b))"

definition const_eq :: "const_value \<Rightarrow> const_value \<Rightarrow> bool" where
  "const_eq a b =
     (case (a, b) of
        (CInt x, CInt y) \<Rightarrow> x = y
      | (CReal x, CReal y) \<Rightarrow> f64_eq x y
      | (CBool x, CBool y) \<Rightarrow> x = y
      | (CChar x, CChar y) \<Rightarrow> x = y
      | (CStr x, CStr y) \<Rightarrow> x = y
      | (CSet x, CSet y) \<Rightarrow> x = y
      | (CNil, CNil) \<Rightarrow> True
      | _ \<Rightarrow> False)"

definition cmp_of :: "'a::linorder \<Rightarrow> 'a \<Rightarrow> int" where
  "cmp_of x y = (if x < y then - 1 else if x = y then 0 else 1)"

text \<open>\<open>str::cmp\<close> compares bytes.\<close>

fun str_cmp :: "string \<Rightarrow> string \<Rightarrow> int" where
  "str_cmp [] [] = 0"
| "str_cmp [] (d # t) = - 1"
| "str_cmp (c # s) [] = 1"
| "str_cmp (c # s) (d # t) = (if c = d then str_cmp s t else cmp_of (byte c) (byte d))"

definition const_cmp :: "const_value \<Rightarrow> const_value \<Rightarrow> span \<Rightarrow> eval_error + int" where
  "const_cmp a b sp =
     (case (a, b) of
        (CInt x, CInt y) \<Rightarrow> Inr (cmp_of x y)
      | (CReal x, CReal y) \<Rightarrow> Inr (case f64_partial_cmp x y of Some res \<Rightarrow> res | None \<Rightarrow> 0)
      | (CChar x, CChar y) \<Rightarrow> Inr (cmp_of x y)
      | (CStr x, CStr y) \<Rightarrow> Inr (str_cmp x y)
      | _ \<Rightarrow> Inl (eval_err sp CompareTypeMismatch))"

text \<open>\<open>a / b\<close> and \<open>a % b\<close> on \<open>i128\<close>: the quotient of the smallest value by \<open>-1\<close> panics.\<close>

definition i128_div :: "span \<Rightarrow> int \<Rightarrow> int \<Rightarrow> eval_error + int" where
  "i128_div sp a b = (if a = i128_min \<and> b = - 1 then Inl (eval_err sp Panic) else Inr (trunc_div a b))"

definition i128_rem :: "span \<Rightarrow> int \<Rightarrow> int \<Rightarrow> eval_error + int" where
  "i128_rem sp a b = (if a = i128_min \<and> b = - 1 then Inl (eval_err sp Panic) else Inr (trunc_rem a b))"

definition m2_div :: "span \<Rightarrow> int \<Rightarrow> int \<Rightarrow> eval_error + int" where
  "m2_div sp a b =
     rbind (i128_div sp a b) (\<lambda>q. rbind (i128_rem sp a b) (\<lambda>r.
       if r \<noteq> 0 \<and> (r < 0) \<noteq> (b < 0) then Inr (q - 1) else Inr q))"

definition m2_mod :: "span \<Rightarrow> int \<Rightarrow> int \<Rightarrow> eval_error + int" where
  "m2_mod sp a b =
     rbind (i128_rem sp a b) (\<lambda>r.
       if r \<noteq> 0 \<and> (r < 0) \<noteq> (b < 0) then Inr (r + b) else Inr r)"

definition const_string_part :: "const_value \<Rightarrow> string" where
  "const_string_part v = (case v of CStr s \<Rightarrow> s | CChar c \<Rightarrow> utf8_encode c | _ \<Rightarrow> [])"

definition is_text :: "const_value \<Rightarrow> bool" where
  "is_text v = (case v of CStr _ \<Rightarrow> True | CChar _ \<Rightarrow> True | _ \<Rightarrow> False)"

section \<open>Operators on values\<close>

definition int_op2 :: "const_value \<Rightarrow> const_value \<Rightarrow> span \<Rightarrow> (int \<Rightarrow> int \<Rightarrow> evaluated) \<Rightarrow> evaluated" where
  "int_op2 lv rv sp f = rbind (int_val lv sp) (\<lambda>a. rbind (int_val rv sp) (\<lambda>b. f a b))"

definition bool_op2 :: "const_value \<Rightarrow> const_value \<Rightarrow> span \<Rightarrow> (bool \<Rightarrow> bool \<Rightarrow> bool) \<Rightarrow> evaluated" where
  "bool_op2 lv rv sp f = rbind (bool_val lv sp) (\<lambda>a. rbind (bool_val rv sp) (\<lambda>b. Inr (CBool (f a b))))"

definition compare_op :: "const_value \<Rightarrow> const_value \<Rightarrow> span \<Rightarrow> (int \<Rightarrow> bool) \<Rightarrow> evaluated" where
  "compare_op lv rv sp f = rbind (const_cmp lv rv sp) (\<lambda>c. Inr (CBool (f c)))"

fun binary_values :: "binary_op \<Rightarrow> const_value \<Rightarrow> const_value \<Rightarrow> span \<Rightarrow> evaluated" where
  "binary_values OpAdd lv rv sp =
     (case (lv, rv) of
        (CSet a, CSet b) \<Rightarrow> Inr (CSet (set_union a b))
      | _ \<Rightarrow>
        if is_text lv \<and> is_text rv then Inr (CStr (const_string_part lv @ const_string_part rv))
        else arith_op lv rv sp (\<lambda>a b. checked (a + b)) f64_add)"
| "binary_values OpSub lv rv sp =
     (case (lv, rv) of
        (CSet a, CSet b) \<Rightarrow> Inr (CSet (set_diff a b))
      | _ \<Rightarrow> arith_op lv rv sp (\<lambda>a b. checked (a - b)) f64_sub)"
| "binary_values OpMul lv rv sp =
     (case (lv, rv) of
        (CSet a, CSet b) \<Rightarrow> Inr (CSet (set_inter a b))
      | _ \<Rightarrow> arith_op lv rv sp (\<lambda>a b. checked (a * b)) f64_mul)"
| "binary_values OpDiv lv rv sp =
     (case (lv, rv) of
        (CReal a, CReal b) \<Rightarrow>
          if f64_eq b 0 then Inl (eval_err sp DivisionByZero) else Inr (CReal (f64_div a b))
      | (CInt a, CInt b) \<Rightarrow>
          if b = 0 then Inl (eval_err sp DivisionByZero)
          else rbind (i128_div sp a b) (\<lambda>q. Inr (CInt q))
      | (CSet a, CSet b) \<Rightarrow> Inr (CSet (set_symdiff a b))
      | _ \<Rightarrow> Inl (eval_err sp DivTypeMismatch))"
| "binary_values OpDivKw lv rv sp = int_op2 lv rv sp (\<lambda>a b.
     if b = 0 then Inl (eval_err sp DivisionByZero) else rbind (m2_div sp a b) (\<lambda>q. Inr (CInt q)))"
| "binary_values OpMod lv rv sp = int_op2 lv rv sp (\<lambda>a b.
     if b = 0 then Inl (eval_err sp DivisionByZero) else rbind (m2_mod sp a b) (\<lambda>r. Inr (CInt r)))"
| "binary_values OpRem lv rv sp = int_op2 lv rv sp (\<lambda>a b.
     if b = 0 then Inl (eval_err sp DivisionByZero) else Inr (CInt (trunc_rem a b)))"
| "binary_values OpEq lv rv sp = Inr (CBool (const_eq lv rv))"
| "binary_values OpNe lv rv sp = Inr (CBool (\<not> const_eq lv rv))"
| "binary_values OpLt lv rv sp = compare_op lv rv sp (\<lambda>c. c < 0)"
| "binary_values OpLe lv rv sp = compare_op lv rv sp (\<lambda>c. c \<le> 0)"
| "binary_values OpGt lv rv sp = compare_op lv rv sp (\<lambda>c. 0 < c)"
| "binary_values OpGe lv rv sp = compare_op lv rv sp (\<lambda>c. 0 \<le> c)"
| "binary_values OpAnd lv rv sp = bool_op2 lv rv sp (\<and>)"
| "binary_values OpOr lv rv sp = bool_op2 lv rv sp (\<or>)"
| "binary_values OpIn lv rv sp =
     rbind (int_val lv sp) (\<lambda>n.
       case rv of
         CSet s \<Rightarrow> Inr (CBool (n \<in> set s))
       | _ \<Rightarrow> Inl (eval_err sp InRequiresSet))"
| "binary_values OpBor lv rv sp = int_op2 lv rv sp (\<lambda>a b. Inr (CInt (or a b)))"
| "binary_values OpBand lv rv sp = int_op2 lv rv sp (\<lambda>a b. Inr (CInt (and a b)))"
| "binary_values OpBxor lv rv sp = int_op2 lv rv sp (\<lambda>a b. Inr (CInt (xor a b)))"
| "binary_values OpShl lv rv sp = int_op2 lv rv sp (\<lambda>a b.
     Inr (CInt (wrap_i128 (a * 2 ^ nat (b mod 64)))))"
| "binary_values OpShr lv rv sp = int_op2 lv rv sp (\<lambda>a b.
     Inr (CInt (a mod 2 ^ 64 div 2 ^ nat (b mod 64))))"

fun unary_value :: "unary_op \<Rightarrow> const_value \<Rightarrow> span \<Rightarrow> evaluated" where
  "unary_value OpPos v sp =
     (case v of CInt _ \<Rightarrow> Inr v | CReal _ \<Rightarrow> Inr v | _ \<Rightarrow> Inl (eval_err sp PosRequiresNumeric))"
| "unary_value OpNeg v sp =
     (case v of
        CInt n \<Rightarrow> rbind (ok_or (eval_err sp ConstantOverflow) (checked (- n))) (\<lambda>m. Inr (CInt m))
      | CReal f \<Rightarrow> Inr (CReal (f64_neg f))
      | _ \<Rightarrow> Inl (eval_err sp NegRequiresNumeric))"
| "unary_value OpNot v sp =
     (case v of
        CBool b \<Rightarrow> Inr (CBool (\<not> b))
      | CInt n \<Rightarrow> Inr (CInt (- n - 1))
      | _ \<Rightarrow> Inl (eval_err sp NotRequiresBoolean))"

section \<open>Builtin calls\<close>

definition cast_target_name :: "expr \<Rightarrow> string option" where
  "cast_target_name e =
     (case e of
        EDesignator d \<Rightarrow>
          (case (if d_selectors d = [] then None else Some (last (d_selectors d))) of
             Some (SField name _) \<Rightarrow> Some (to_ascii_uppercase name)
           | _ \<Rightarrow>
             if segments (d_base d) = [] then None
             else Some (to_ascii_uppercase (last (segments (d_base d)))))
      | _ \<Rightarrow> None)"

definition reinterpret_cast_const :: "expr \<Rightarrow> const_value \<Rightarrow> const_value" where
  "reinterpret_cast_const e v =
     (case cast_target_name e of
        None \<Rightarrow> v
      | Some name \<Rightarrow>
          (case v of
             CInt n \<Rightarrow>
               if name \<in> {''REAL'', ''LONGREAL'', ''REAL64''} then CReal (word_of_int n)
               else if name \<in> {''REAL32'', ''SHORTREAL''} then CReal (f64_of_f32_bits (word_of_int n))
               else v
           | CReal f \<Rightarrow>
               if name \<in> {''CARDINAL'', ''INTEGER'', ''LONGINT'', ''LONGCARD'', ''CARDINAL64'',
                           ''INTEGER64'', ''ADRCARD'', ''ADRINT''}
               then CInt (uint f) else v
           | _ \<Rightarrow> v))"

text \<open>\<open>char::from_u32(n as u32)\<close> and \<open>char::to_ascii_uppercase\<close>.\<close>

definition char_of_int :: "int \<Rightarrow> nat option" where
  "char_of_int n = char_from_u32 (nat (n mod 2 ^ 32))"

definition scalar_uppercase :: "nat \<Rightarrow> nat" where
  "scalar_uppercase c = (if 97 \<le> c \<and> c \<le> 122 then c - 32 else c)"

text \<open>The builtins of one argument, on its value.\<close>

definition fold_chr :: "span \<Rightarrow> const_value \<Rightarrow> evaluated" where
  "fold_chr sp v =
     rbind (int_val v sp) (\<lambda>n.
     rbind (ok_or (eval_err sp ChrOutOfRange) (char_of_int n)) (\<lambda>c. Inr (CChar c)))"

definition fold_ord :: "span \<Rightarrow> const_value \<Rightarrow> evaluated" where
  "fold_ord sp v = rbind (ok_or (eval_err sp OrdRequiresOrdinal) (as_int v)) (\<lambda>n. Inr (CInt n))"

definition fold_abs :: "span \<Rightarrow> const_value \<Rightarrow> evaluated" where
  "fold_abs sp v =
     (case v of
        CInt n \<Rightarrow> if n = i128_min then Inl (eval_err sp Panic) else Inr (CInt \<bar>n\<bar>)
      | CReal f \<Rightarrow> Inr (CReal (f64_abs f))
      | _ \<Rightarrow> Inl (eval_err sp AbsRequiresNumeric))"

definition fold_odd :: "span \<Rightarrow> const_value \<Rightarrow> evaluated" where
  "fold_odd sp v = rbind (int_val v sp) (\<lambda>n. Inr (CBool (n mod 2 \<noteq> 0)))"

definition fold_cap :: "span \<Rightarrow> const_value \<Rightarrow> evaluated" where
  "fold_cap sp v =
     (let other = rbind (int_val v sp) (\<lambda>n. ok_or (eval_err sp CapOutOfRange) (char_of_int n));
          ch = (case v of
                  CChar c \<Rightarrow> Inr c
                | CStr s \<Rightarrow> (case chars_of s of [c] \<Rightarrow> Inr c | _ \<Rightarrow> other)
                | _ \<Rightarrow> other)
      in rbind ch (\<lambda>c. Inr (CChar (scalar_uppercase c))))"

definition fold_length :: "span \<Rightarrow> const_value \<Rightarrow> evaluated" where
  "fold_length sp v =
     (case v of
        CStr s \<Rightarrow> Inr (CInt (int (length (chars_of s) mod 2 ^ 64)))
      | CChar _ \<Rightarrow> Inr (CInt 1)
      | _ \<Rightarrow> Inl (eval_err sp LengthRequiresString))"

definition fold_part :: "string \<Rightarrow> span \<Rightarrow> const_value \<Rightarrow> evaluated" where
  "fold_part name sp v =
     (case v of
        CComplex re im \<Rightarrow> Inr (CReal (if name = ''RE'' then re else im))
      | _ \<Rightarrow> Inl (eval_err sp RequiresComplex))"

definition fold_int :: "span \<Rightarrow> const_value \<Rightarrow> evaluated" where
  "fold_int sp v = rbind (int_val v sp) (\<lambda>n. Inr (CInt n))"

text \<open>
  A builtin sees its arguments unevaluated and evaluates only those it needs. Evaluation has no
  effects, so the model passes the results along: \<open>rs ! i\<close> is \<open>eval_const(&args[i], lookup)\<close>.
  \<open>None\<close> is the fall through to the cases after the \<open>match\<close>.
\<close>

definition one_arg :: "string \<Rightarrow> evaluated list \<Rightarrow> span \<Rightarrow> (span \<Rightarrow> const_value \<Rightarrow> evaluated) \<Rightarrow> evaluated" where
  "one_arg name rs sp f =
     (case rs of [r] \<Rightarrow> rbind r (f sp) | _ \<Rightarrow> Inl (eval_err sp (WrongArity name 1)))"

definition fold_cmplx :: "evaluated list \<Rightarrow> span \<Rightarrow> evaluated" where
  "fold_cmplx rs sp =
     (case rs of
        [r, i] \<Rightarrow>
          rbind r (\<lambda>v. rbind (real_val v sp) (\<lambda>re.
          rbind i (\<lambda>w. rbind (real_val w sp) (\<lambda>im. Inr (CComplex re im)))))
      | _ \<Rightarrow> Inl (eval_err sp (WrongArity ''CMPLX'' 2)))"

definition fold_type_builtin :: "string \<Rightarrow> expr list \<Rightarrow> const_lookup \<Rightarrow> evaluated" where
  "fold_type_builtin name args lookup =
     (case (case args of [a] \<Rightarrow> Option.bind (type_builtin_key name a) lookup | _ \<Rightarrow> None) of
        Some v \<Rightarrow> Inr v
      | None \<Rightarrow> Inr (CInt 0))"

definition fold_cast :: "expr list \<Rightarrow> evaluated list \<Rightarrow> span \<Rightarrow> evaluated" where
  "fold_cast args rs sp =
     (case (args, rs) of
        (a # _, _ # r # _) \<Rightarrow> rbind r (\<lambda>v. Inr (reinterpret_cast_const a v))
      | _ \<Rightarrow> Inl (eval_err sp CastArity))"

definition builtin_call ::
  "string \<Rightarrow> expr list \<Rightarrow> evaluated list \<Rightarrow> span \<Rightarrow> const_lookup \<Rightarrow> evaluated option" where
  "builtin_call name args rs sp lookup =
     (if name = ''CHR'' then Some (one_arg name rs sp fold_chr)
      else if name = ''ORD'' then Some (one_arg name rs sp fold_ord)
      else if name = ''ABS'' then Some (one_arg name rs sp fold_abs)
      else if name = ''ODD'' then Some (one_arg name rs sp fold_odd)
      else if name = ''CAP'' then Some (one_arg name rs sp fold_cap)
      else if name = ''LENGTH'' then Some (one_arg name rs sp fold_length)
      else if name = ''CMPLX'' then Some (fold_cmplx rs sp)
      else if name = ''RE'' \<or> name = ''IM'' then Some (one_arg name rs sp (fold_part name))
      else if name \<in> {''MAX'', ''MIN'', ''SIZE'', ''TSIZE'', ''TBITSIZE''}
      then Some (fold_type_builtin name args lookup)
      else if name = ''VAL'' then Some (case rs of [_, r] \<Rightarrow> r | _ \<Rightarrow> Inr (CInt 0))
      else if name = ''OFFS'' then Some (Inr (CInt 0))
      else if name = ''CAST'' then Some (fold_cast args rs sp)
      else if name = ''MAKEADR'' then Some (one_arg name rs sp fold_int)
      else if name = ''UCHR'' \<or> name = ''WCHR'' \<or> name = ''ACHAR'' then Some (one_arg name rs sp fold_int)
      else None)"

text \<open>A conversion \<open>T(x)\<close> to a type the analyzer has marked, with its bounds when it has any.\<close>

definition conversion_call :: "string \<Rightarrow> evaluated \<Rightarrow> span \<Rightarrow> const_lookup \<Rightarrow> evaluated" where
  "conversion_call name r sp lookup =
     rbind r (\<lambda>v.
       case (lookup (type_conv_lo_key name), lookup (type_conv_hi_key name), as_int v) of
         (Some (CInt lo), Some (CInt hi), Some n) \<Rightarrow>
           if n < lo \<or> n > hi then Inl (eval_err sp (ConversionOutOfRange n name)) else Inr v
       | _ \<Rightarrow> Inr v)"

definition eval_builtin_call ::
  "expr \<Rightarrow> expr list \<Rightarrow> evaluated list \<Rightarrow> span \<Rightarrow> const_lookup \<Rightarrow> evaluated" where
  "eval_builtin_call func args rs sp lookup =
     (case func of
        EDesignator d \<Rightarrow>
          if d_selectors d \<noteq> [] then Inl (eval_err sp CallNotConstant)
          else
            (case segments (d_base d) of
               [name] \<Rightarrow>
                 (case builtin_call name args rs sp lookup of
                    Some r \<Rightarrow> r
                  | None \<Rightarrow>
                      (case rs of
                         [r] \<Rightarrow>
                           if lookup (type_conv_key name) \<noteq> None
                           then conversion_call name r sp lookup
                           else Inl (eval_err sp CallNotConstant)
                       | _ \<Rightarrow> Inl (eval_err sp CallNotConstant)))
             | [_, name] \<Rightarrow>
                 if eq_ignore_ascii_case name ''CAST''
                 then fold_cast args rs sp
                 else Inl (eval_err sp CallNotConstant)
             | _ \<Rightarrow> Inl (eval_err sp CallNotConstant))
      | _ \<Rightarrow> Inl (eval_err sp CallNotConstant))"

section \<open>The evaluator\<close>

definition eval_designator :: "designator \<Rightarrow> const_lookup \<Rightarrow> evaluated" where
  "eval_designator d lookup =
     (let key = designator_key d
      in case lookup key of
           Some v \<Rightarrow> Inr v
         | None \<Rightarrow>
             if key = ''TRUE'' then Inr (CBool True)
             else if key = ''FALSE'' then Inr (CBool False)
             else if key = ''NIL'' then Inr CNil
             else Inl (eval_err (d_span d) (NotConstant key)))"

text \<open>The members a set element contributes, evaluated left to right.\<close>

definition element_members :: "span \<Rightarrow> evaluated \<Rightarrow> evaluated option \<Rightarrow> eval_error + int list" where
  "element_members sp lo hi =
     rbind lo (\<lambda>v.
       case hi of
         None \<Rightarrow> rbind (ok_or (eval_err sp SetElementNotOrdinal) (as_int v)) (\<lambda>n. Inr [n])
       | Some r \<Rightarrow>
           rbind (ok_or (eval_err sp SetRangeNotOrdinal) (as_int v)) (\<lambda>a.
           rbind r (\<lambda>w.
           rbind (ok_or (eval_err sp SetRangeNotOrdinal) (as_int w)) (\<lambda>b. Inr [a..b]))))"

fun collect_members :: "span \<Rightarrow> int list \<Rightarrow> (evaluated \<times> evaluated option) list \<Rightarrow> eval_error + int list" where
  "collect_members sp ms [] = Inr ms"
| "collect_members sp ms ((lo, hi) # es) =
     rbind (element_members sp lo hi) (\<lambda>ns. collect_members sp (foldl push_new ms ns) es)"

fun eval_const :: "const_lookup \<Rightarrow> expr \<Rightarrow> evaluated"
and eval_elem :: "const_lookup \<Rightarrow> set_elem \<Rightarrow> evaluated \<times> evaluated option" where
  "eval_const lookup (EInteger n sp) = Inr (CInt (uint n))"
| "eval_const lookup (EReal f sp) = Inr (CReal f)"
| "eval_const lookup (EChar c sp) = Inr (CChar (char_value c))"
| "eval_const lookup (EString s sp) = Inr (CStr (str_value s))"
| "eval_const lookup (ENil sp) = Inr CNil"
| "eval_const lookup (EDesignator d) = eval_designator d lookup"
| "eval_const lookup (ECall func args sp) =
     eval_builtin_call func args (map (eval_const lookup) args) sp lookup"
| "eval_const lookup (EBinary op lhs rhs sp) =
     rbind (eval_const lookup lhs) (\<lambda>lv. rbind (eval_const lookup rhs) (\<lambda>rv. binary_values op lv rv sp))"
| "eval_const lookup (EUnary op e sp) = rbind (eval_const lookup e) (\<lambda>v. unary_value op v sp)"
| "eval_const lookup (ESet t elements sp) =
     rbind (collect_members sp [] (map (eval_elem lookup) elements)) (\<lambda>ms. Inr (CSet (sort ms)))"
| "eval_elem lookup (Single e) = (eval_const lookup e, None)"
| "eval_elem lookup (Range lo hi) = (eval_const lookup lo, Some (eval_const lookup hi))"

end
