(* ===== verification/ConstEvalSpec.thy ===== *)
theory ConstEvalSpec
  imports ConstEval Utf8
begin

text \<open>
  What constant folding promises (\<open>newm2-sema/src/constant.rs\<close>): every value it returns is well
  formed, integer expressions fold to their exact mathematical value or fail, the two families of
  division satisfy their laws, sets are the sets they denote, and comparisons are a total order.
\<close>

section \<open>Well-formed values\<close>

fun wf_value :: "const_value \<Rightarrow> bool" where
  "wf_value (CInt n) = in_i128 n"
| "wf_value (CChar c) = is_scalar c"
| "wf_value (CStr s) = valid_utf8 s"
| "wf_value (CSet ms) \<longleftrightarrow> sorted ms \<and> distinct ms \<and> (\<forall>m \<in> set ms. in_i128 m)"
| "wf_value _ = True"

definition wf_result :: "evaluated \<Rightarrow> bool" where
  "wf_result r = (case r of Inl _ \<Rightarrow> True | Inr v \<Rightarrow> wf_value v)"

definition wf_lookup :: "const_lookup \<Rightarrow> bool" where
  "wf_lookup lookup \<longleftrightarrow> (\<forall>k v. lookup k = Some v \<longrightarrow> wf_value v)"

text \<open>The literals of an expression are what the lexer produces.\<close>

fun wf_expr :: "expr \<Rightarrow> bool" and wf_elem :: "set_elem \<Rightarrow> bool" where
  "wf_expr (EChar c sp) = is_scalar (char_value c)"
| "wf_expr (EString s sp) = valid_utf8 (str_value s)"
| "wf_expr (ECall func args sp) = list_all wf_expr args"
| "wf_expr (EBinary op lhs rhs sp) \<longleftrightarrow> wf_expr lhs \<and> wf_expr rhs"
| "wf_expr (EUnary op e sp) = wf_expr e"
| "wf_expr (ESet t elements sp) = list_all wf_elem elements"
| "wf_expr _ = True"
| "wf_elem (Single e) = wf_expr e"
| "wf_elem (Range lo hi) \<longleftrightarrow> wf_expr lo \<and> wf_expr hi"

lemma wf_result_simps [simp]: "wf_result (Inl e)" "wf_result (Inr v) = wf_value v"
  by (simp_all add: wf_result_def)

lemma wf_result_bind: "wf_result (rbind r f) \<longleftrightarrow> (\<forall>x. r = Inr x \<longrightarrow> wf_result (f x))"
  by (cases r) simp_all

lemma in_i128_bool [simp]: "in_i128 0" "in_i128 1"
  by (simp_all add: in_i128_def i128_min_def i128_max_def)

lemma scalar_in_i128: "is_scalar c \<Longrightarrow> in_i128 (int c)"
  by (auto simp: is_scalar_def in_i128_def i128_min_def i128_max_def)

lemma as_int_range: "wf_value v \<Longrightarrow> as_int v = Some n \<Longrightarrow> in_i128 n"
  by (cases v) (auto simp: scalar_in_i128)

lemma checked_range: "checked n = Some m \<longleftrightarrow> m = n \<and> in_i128 n"
  by (auto simp: checked_def)

section \<open>Division\<close>

lemma trunc_div_rem: "b \<noteq> 0 \<Longrightarrow> trunc_div a b * b + trunc_rem a b = a"
proof -
  define q r where "q = \<bar>a\<bar> div \<bar>b\<bar>" and "r = \<bar>a\<bar> mod \<bar>b\<bar>"
  have e: "q * \<bar>b\<bar> + r = \<bar>a\<bar>" unfolding q_def r_def by (rule div_mult_mod_eq)
  show ?thesis
    using e unfolding trunc_div_def trunc_rem_def q_def [symmetric] r_def [symmetric]
    by (cases "a < 0"; cases "b < 0") simp_all
qed

lemma trunc_rem_bound:
  assumes "b \<noteq> 0"
  shows "\<bar>trunc_rem a b\<bar> < \<bar>b\<bar>" "trunc_rem a b \<noteq> 0 \<Longrightarrow> (trunc_rem a b < 0) = (a < 0)"
proof -
  have "0 \<le> \<bar>a\<bar> mod \<bar>b\<bar>" "\<bar>a\<bar> mod \<bar>b\<bar> < \<bar>b\<bar>" using assms by simp_all
  then show "\<bar>trunc_rem a b\<bar> < \<bar>b\<bar>" "trunc_rem a b \<noteq> 0 \<Longrightarrow> (trunc_rem a b < 0) = (a < 0)"
    unfolding trunc_rem_def by (cases "a < 0"; simp)+
qed

text \<open>The code's adjusted quotient and remainder are floor division and its remainder.\<close>

lemma floor_of_trunc:
  assumes "b \<noteq> 0"
  shows "(if trunc_rem a b \<noteq> 0 \<and> (trunc_rem a b < 0) \<noteq> (b < 0) then trunc_div a b - 1 else trunc_div a b) = a div b"
    (is "?q = _")
    and "(if trunc_rem a b \<noteq> 0 \<and> (trunc_rem a b < 0) \<noteq> (b < 0) then trunc_rem a b + b else trunc_rem a b) = a mod b"
    (is "?r = _")
proof -
  have e: "a = b * ?q + ?r"
    using trunc_div_rem [OF assms, of a] by (simp add: algebra_simps)
  have "\<bar>trunc_rem a b\<bar> < \<bar>b\<bar>" by (rule trunc_rem_bound(1) [OF assms])
  then have r: "0 < b \<Longrightarrow> 0 \<le> ?r \<and> ?r < b" "b < 0 \<Longrightarrow> b < ?r \<and> ?r \<le> 0" by auto
  show "?q = a div b" "?r = a mod b"
    using assms int_div_pos_eq [OF e] int_div_neg_eq [OF e] int_mod_pos_eq [OF e] int_mod_neg_eq [OF e] r
    by (metis linorder_neqE)+
qed

lemma m2_div_floor:
  "b \<noteq> 0 \<Longrightarrow> m2_div sp a b = (if a = i128_min \<and> b = - 1 then Inl (eval_err sp Panic) else Inr (a div b))"
  by (simp add: m2_div_def i128_div_def i128_rem_def floor_of_trunc(1) [symmetric, of b a])

lemma m2_mod_floor:
  "b \<noteq> 0 \<Longrightarrow> m2_mod sp a b = (if a = i128_min \<and> b = - 1 then Inl (eval_err sp Panic) else Inr (a mod b))"
  by (simp add: m2_mod_def i128_rem_def floor_of_trunc(2) [symmetric, of b a])

lemma div_in_i128:
  assumes "in_i128 a" "b \<noteq> 0" "\<not> (a = i128_min \<and> b = - 1)"
  shows "in_i128 (trunc_div a b)" "in_i128 (a div b)"
proof -
  consider "b = 1" | "b = - 1" | "2 \<le> \<bar>b\<bar>" using assms(2) by linarith
  then have "in_i128 (trunc_div a b) \<and> in_i128 (a div b)"
  proof cases
    case 3
    have "\<bar>a\<bar> \<le> 2 ^ 127" using assms(1) by (auto simp: in_i128_def i128_min_def i128_max_def)
    moreover have "\<bar>a\<bar> div \<bar>b\<bar> \<le> \<bar>a\<bar> div 2" using 3 by (intro zdiv_mono2) auto
    moreover have "\<bar>a\<bar> div 2 \<le> 2 ^ 127 div 2" using calculation(1) by (intro zdiv_mono1) auto
    ultimately have "\<bar>a\<bar> div \<bar>b\<bar> \<le> 2 ^ 126" by simp
    moreover have "0 \<le> \<bar>a\<bar> div \<bar>b\<bar>" using 3 by (simp add: pos_imp_zdiv_nonneg_iff)
    ultimately have t: "- (2 ^ 126) \<le> trunc_div a b" "trunc_div a b \<le> 2 ^ 126" by (auto simp: trunc_div_def)
    moreover have "a div b = trunc_div a b \<or> a div b = trunc_div a b - 1"
      using floor_of_trunc(1) [OF assms(2), of a] by (simp split: if_splits)
    ultimately show ?thesis by (auto simp: in_i128_def i128_min_def i128_max_def)
  qed (use assms(1,3) in \<open>auto simp: trunc_div_def in_i128_def i128_min_def i128_max_def\<close>)
  then show "in_i128 (trunc_div a b)" "in_i128 (a div b)" by auto
qed

lemma mod_in_i128:
  assumes "in_i128 b" "b \<noteq> 0"
  shows "in_i128 (a mod b)"
proof (cases "0 < b")
  case True
  then have "0 \<le> a mod b" "a mod b < b" by simp_all
  then show ?thesis using assms(1) by (auto simp: in_i128_def i128_min_def i128_max_def)
next
  case False
  then have "b < a mod b" "a mod b \<le> 0" using assms(2) by simp_all
  then show ?thesis using assms(1) by (auto simp: in_i128_def i128_min_def i128_max_def)
qed

lemma rem_in_i128: "in_i128 b \<Longrightarrow> b \<noteq> 0 \<Longrightarrow> in_i128 (trunc_rem a b)"
  using trunc_rem_bound(1) [of b a] by (auto simp: in_i128_def i128_min_def i128_max_def)

section \<open>Sets\<close>

lemma foldl_push_new: "set (foldl push_new ms ns) = set ms \<union> set ns \<and> (distinct ms \<longrightarrow> distinct (foldl push_new ms ns))"
  by (induction ns arbitrary: ms) (auto simp: push_new_def)

lemma dedup_sorted: "sorted xs \<Longrightarrow> sorted (dedup xs) \<and> distinct (dedup xs) \<and> set (dedup xs) = set xs"
proof (induction xs rule: dedup.induct)
  case (3 x y ys)
  show ?case
  proof (cases "x = y")
    case False
    then have "\<forall>z \<in> set (y # ys). x < z" using "3.prems" by (auto simp: order_less_le)
    then show ?thesis using 3 False by fastforce
  qed (use 3 in simp)
qed simp_all

definition canonical :: "int set \<Rightarrow> int list" where
  "canonical S = sorted_list_of_set S"

lemma canonicalI: "sorted xs \<Longrightarrow> distinct xs \<Longrightarrow> set xs = S \<Longrightarrow> xs = canonical S"
  using sorted_list_of_set.idem_if_sorted_distinct [of xs] by (simp add: canonical_def)

lemma set_ops_canonical:
  assumes "distinct a" "distinct b"
  shows "set_union a b = canonical (set a \<union> set b)"
    "set_diff a b = canonical (set a - set b)"
    "set_inter a b = canonical (set a \<inter> set b)"
    "set_symdiff a b = canonical ((set a - set b) \<union> (set b - set a))"
proof -
  show "set_union a b = canonical (set a \<union> set b)"
    using foldl_push_new [of a b] assms(1) unfolding set_union_def by (intro canonicalI) auto
  show "set_diff a b = canonical (set a - set b)"
    using assms(1) unfolding set_diff_def by (intro canonicalI) auto
  show "set_inter a b = canonical (set a \<inter> set b)"
    using assms(1) unfolding set_inter_def by (intro canonicalI) auto
  show "set_symdiff a b = canonical ((set a - set b) \<union> (set b - set a))"
    using dedup_sorted [OF sorted_sort] unfolding set_symdiff_def by (intro canonicalI) auto
qed

lemma wf_canonical: "finite S \<Longrightarrow> \<forall>m \<in> S. in_i128 m \<Longrightarrow> wf_value (CSet (canonical S))"
  by (simp add: canonical_def)

section \<open>Bit operations\<close>

lemma in_i128_bits: "in_i128 n \<longleftrightarrow> signed_take_bit 127 n = n"
  by (auto simp: in_i128_def i128_min_def i128_max_def signed_take_bit_int_eq_self_iff)

lemma bit_op_range:
  assumes "in_i128 a" "in_i128 b"
  shows "in_i128 (or a b)" "in_i128 (and a b)" "in_i128 (xor a b)"
proof -
  have "signed_take_bit n (or a b) = or (signed_take_bit n a) (signed_take_bit n b)"
    "signed_take_bit n (and a b) = and (signed_take_bit n a) (signed_take_bit n b)"
    "signed_take_bit n (xor a b) = xor (signed_take_bit n a) (signed_take_bit n b)" for n
    by (auto intro!: bit_eqI simp: bit_signed_take_bit_iff bit_or_iff bit_and_iff bit_xor_iff)
  then show "in_i128 (or a b)" "in_i128 (and a b)" "in_i128 (xor a b)"
    using assms by (simp_all add: in_i128_bits)
qed

lemma wrap_range: "in_i128 (wrap_i128 n)"
  using pos_mod_bound [of "2 ^ 128" "n + 2 ^ 127"] pos_mod_sign [of "2 ^ 128" "n + 2 ^ 127"]
  by (simp add: wrap_i128_def in_i128_def i128_min_def i128_max_def)

lemma shr_range: "in_i128 (a mod 2 ^ 64 div 2 ^ k)"
proof -
  define x :: int where "x = a mod 2 ^ 64"
  have x: "0 \<le> x" "x < 2 ^ 64" by (simp_all add: x_def)
  have "0 \<le> x div 2 ^ k" using x by (simp add: pos_imp_zdiv_nonneg_iff)
  moreover have "x div 2 ^ k \<le> x div 1" by (rule zdiv_mono2) (use x in simp_all)
  ultimately show ?thesis using x unfolding x_def [symmetric]
    by (simp add: in_i128_def i128_min_def i128_max_def)
qed

section \<open>Every value is well formed\<close>

lemma wf_const_string_part: "wf_value v \<Longrightarrow> valid_utf8 (const_string_part v)"
  by (cases v) (auto simp: const_string_part_def utf8_decode_encode)

lemma wf_arith_op:
  "(\<And>a b n. int_op a b = Some n \<Longrightarrow> in_i128 n) \<Longrightarrow> wf_result (arith_op lv rv sp int_op real_op)"
  by (auto simp: arith_op_def wf_result_bind split: const_value.split)

lemma wf_int_op2:
  assumes "wf_value lv" "wf_value rv" "\<And>a b. in_i128 a \<Longrightarrow> in_i128 b \<Longrightarrow> wf_result (f a b)"
  shows "wf_result (int_op2 lv rv sp f)"
  using assms by (auto simp: int_op2_def int_val_def wf_result_bind dest: as_int_range)

lemma wf_set_ops:
  assumes "wf_value (CSet a)" "wf_value (CSet b)"
  shows "wf_value (CSet (set_union a b))" "wf_value (CSet (set_diff a b))"
    "wf_value (CSet (set_inter a b))" "wf_value (CSet (set_symdiff a b))"
proof -
  have d: "distinct a" "distinct b" and r: "\<forall>m \<in> set a. in_i128 m" "\<forall>m \<in> set b. in_i128 m"
    using assms by auto
  show "wf_value (CSet (set_union a b))" "wf_value (CSet (set_diff a b))"
    "wf_value (CSet (set_inter a b))" "wf_value (CSet (set_symdiff a b))"
    unfolding set_ops_canonical [OF d] by (rule wf_canonical; use r in auto)+
qed

text \<open>The set cases of the three overloaded operators, and all the others.\<close>

definition both_sets :: "const_value \<Rightarrow> const_value \<Rightarrow> bool" where
  "both_sets lv rv \<longleftrightarrow> (case (lv, rv) of (CSet _, CSet _) \<Rightarrow> True | _ \<Rightarrow> False)"

lemma both_setsE:
  assumes "both_sets lv rv"
  obtains a b where "lv = CSet a" "rv = CSet b"
  using assms by (cases lv; cases rv) (auto simp: both_sets_def)

lemma binary_values_other:
  assumes "\<not> both_sets lv rv"
  shows "binary_values OpAdd lv rv sp =
      (if is_text lv \<and> is_text rv then Inr (CStr (const_string_part lv @ const_string_part rv))
       else arith_op lv rv sp (\<lambda>a b. checked (a + b)) f64_add)"
    "binary_values OpSub lv rv sp = arith_op lv rv sp (\<lambda>a b. checked (a - b)) f64_sub"
    "binary_values OpMul lv rv sp = arith_op lv rv sp (\<lambda>a b. checked (a * b)) f64_mul"
  using assms by (cases lv; cases rv; simp add: both_sets_def)+

lemma wf_binary_values:
  assumes l: "wf_value lv" and r: "wf_value rv"
  shows "wf_result (binary_values op lv rv sp)"
proof (cases "both_sets lv rv \<and> op \<in> {OpAdd, OpSub, OpMul, OpDiv}")
  case True
  then obtain a b where "lv = CSet a" "rv = CSet b" by (blast elim: both_setsE)
  then show ?thesis using True l r wf_set_ops [of a b] by auto
next
  case False
  show ?thesis
  proof (cases op)
    case OpAdd
    then have ns: "\<not> both_sets lv rv" using False by simp
    show ?thesis
      unfolding OpAdd binary_values_other [OF ns]
      using valid_utf8_append [OF wf_const_string_part [OF l] wf_const_string_part [OF r]]
      by (auto simp: checked_range intro!: wf_arith_op)
  next
    case OpSub
    then have ns: "\<not> both_sets lv rv" using False by simp
    show ?thesis unfolding OpSub binary_values_other [OF ns] by (rule wf_arith_op) (simp add: checked_range)
  next
    case OpMul
    then have ns: "\<not> both_sets lv rv" using False by simp
    show ?thesis unfolding OpMul binary_values_other [OF ns] by (rule wf_arith_op) (simp add: checked_range)
  next
    case OpDiv
    then show ?thesis using l r False div_in_i128(1)
      by (cases lv; cases rv) (simp_all add: i128_div_def both_sets_def wf_result_bind)
  next
    case OpDivKw
    then show ?thesis using l r div_in_i128(2)
      by (auto simp: m2_div_floor wf_result_bind intro!: wf_int_op2)
  next
    case OpMod
    then show ?thesis using l r mod_in_i128
      by (auto simp: m2_mod_floor wf_result_bind intro!: wf_int_op2)
  next
    case OpRem
    then show ?thesis using l r rem_in_i128 by (auto intro!: wf_int_op2)
  qed (use l r bit_op_range wrap_range shr_range in
    \<open>auto simp: compare_op_def bool_op2_def wf_result_bind int_val_def split: const_value.split intro!: wf_int_op2\<close>)
qed

lemma wf_unary_value: "wf_value v \<Longrightarrow> wf_result (unary_value op v sp)"
  by (cases op) (auto simp: checked_range wf_result_bind in_i128_def i128_min_def i128_max_def split: const_value.split)

lemma wf_char_of_int: "char_of_int n = Some c \<Longrightarrow> is_scalar c"
  by (auto simp: char_of_int_def char_from_u32_def split: if_splits)

lemma wf_scalar_uppercase: "is_scalar c \<Longrightarrow> is_scalar (scalar_uppercase c)"
  by (auto simp: is_scalar_def scalar_uppercase_def)

lemma wf_resultD: "wf_result r \<Longrightarrow> r = Inr v \<Longrightarrow> wf_value v"
  by simp

lemma wf_one_arg:
  assumes "list_all wf_result rs" "\<And>v. wf_value v \<Longrightarrow> wf_result (f sp v)"
  shows "wf_result (one_arg name rs sp f)"
proof -
  consider r where "rs = [r]" | "one_arg name rs sp f = Inl (eval_err sp (WrongArity name 1))"
    by (cases rs rule: remdups_adj.cases) (auto simp: one_arg_def)
  then show ?thesis
  proof cases
    case 1
    then show ?thesis using assms by (auto simp: one_arg_def wf_result_bind dest: wf_resultD)
  qed simp
qed

lemma count_in_i128: "in_i128 (int (n mod 2 ^ 64))"
proof -
  have "n mod 2 ^ 64 < 2 ^ 64" by simp
  then have "int (n mod 2 ^ 64) < int (2 ^ 64)" by (simp only: of_nat_less_iff)
  then show ?thesis by (simp add: in_i128_def i128_min_def i128_max_def)
qed

lemma u64_in_i128: "0 \<le> n \<Longrightarrow> n < 2 ^ 64 \<Longrightarrow> in_i128 n"
  by (simp add: in_i128_def i128_min_def i128_max_def)

lemma uint_in_i128: "in_i128 (uint (w :: 64 word))"
  by (rule u64_in_i128) (use unsigned_less [of w, where ?'a = int] in simp_all)

lemma wf_reinterpret: "wf_value v \<Longrightarrow> wf_value (reinterpret_cast_const e v)"
  by (auto simp: reinterpret_cast_const_def uint_in_i128 split: option.split const_value.split)

lemma wf_value_bind: "wf_result r \<Longrightarrow> (\<And>v. wf_value v \<Longrightarrow> wf_result (f v)) \<Longrightarrow> wf_result (rbind r f)"
  by (auto simp: wf_result_bind dest: wf_resultD)

lemma abs_in_i128: "in_i128 n \<Longrightarrow> n \<noteq> i128_min \<Longrightarrow> in_i128 \<bar>n\<bar>"
  by (auto simp: in_i128_def i128_min_def i128_max_def)

lemma wf_folds:
  "wf_result (fold_chr sp v)"
  "wf_value v \<Longrightarrow> wf_result (fold_ord sp v)"
  "wf_value v \<Longrightarrow> wf_result (fold_abs sp v)"
  "wf_result (fold_odd sp v)"
  "wf_result (fold_length sp v)"
  "wf_result (fold_part name sp v)"
  "wf_value v \<Longrightarrow> wf_result (fold_int sp v)"
proof -
  show "wf_result (fold_chr sp v)" by (auto simp: fold_chr_def wf_result_bind dest: wf_char_of_int)
  show "wf_value v \<Longrightarrow> wf_result (fold_ord sp v)" by (auto simp: fold_ord_def wf_result_bind dest: as_int_range)
  show "wf_value v \<Longrightarrow> wf_result (fold_abs sp v)" by (cases v) (auto simp: fold_abs_def abs_in_i128)
  show "wf_result (fold_odd sp v)" by (auto simp: fold_odd_def wf_result_bind)
  show "wf_result (fold_length sp v)"
    by (cases v) (simp_all only: fold_length_def count_in_i128 wf_result_simps wf_value.simps const_value.case in_i128_bool)
  show "wf_result (fold_part name sp v)" by (cases v) (auto simp: fold_part_def)
  show "wf_value v \<Longrightarrow> wf_result (fold_int sp v)"
    by (auto simp: fold_int_def int_val_def wf_result_bind dest: as_int_range)
qed

lemma wf_chars_of: "c \<in> set (chars_of s) \<Longrightarrow> is_scalar c"
  by (cases "utf8_decode s") (auto simp: chars_of_def intro: utf8_decode_scalars)

lemma wf_fold_cap:
  assumes "wf_value v"
  shows "wf_result (fold_cap sp v)"
proof -
  define other where "other = rbind (int_val v sp) (\<lambda>n. ok_or (eval_err sp CapOutOfRange) (char_of_int n))"
  have other: "other = Inr c \<Longrightarrow> is_scalar c" for c
    by (auto simp: other_def dest: wf_char_of_int)
  have "(case v of CChar c \<Rightarrow> Inr c
      | CStr s \<Rightarrow> (case chars_of s of [c] \<Rightarrow> Inr c | _ \<Rightarrow> other) | _ \<Rightarrow> other) = Inr c \<Longrightarrow> is_scalar c" for c
  proof (cases v)
    case (CStr s)
    assume h: "(case v of CChar c \<Rightarrow> Inr c
      | CStr s \<Rightarrow> (case chars_of s of [c] \<Rightarrow> Inr c | _ \<Rightarrow> other) | _ \<Rightarrow> other) = Inr c"
    consider "chars_of s = [c]" | "other = Inr c"
      using h CStr by (auto split: list.splits)
    then show ?thesis
    proof cases
      case 1
      then show ?thesis using wf_chars_of [of c s] by simp
    qed (rule other)
  qed (use assms other in auto)
  then show ?thesis
    by (simp add: fold_cap_def Let_def other_def [symmetric] wf_result_bind wf_scalar_uppercase)
qed

lemma wf_fold_cast: "list_all wf_result rs \<Longrightarrow> wf_result (fold_cast args rs sp)"
  by (auto simp: fold_cast_def wf_result_bind wf_reinterpret split: list.split dest: wf_resultD)

text \<open>To take a chain of alternatives apart without looking at its conditions.\<close>

lemma if_some_elim: "(if P then x else y) = Some r \<Longrightarrow> (x = Some r \<Longrightarrow> Q) \<Longrightarrow> (y = Some r \<Longrightarrow> Q) \<Longrightarrow> Q"
  by (cases P) simp_all

lemma wf_builtin_call:
  assumes rs: "list_all wf_result rs" and lookup: "wf_lookup lookup"
    and some: "builtin_call name args rs sp lookup = Some r"
  shows "wf_result r"
proof -
  have cmplx: "wf_result (fold_cmplx rs sp)"
    by (auto simp: fold_cmplx_def wf_result_bind split: list.split)
  have val: "wf_result (case rs of [_, r] \<Rightarrow> r | _ \<Rightarrow> Inr (CInt 0))"
    using rs by (auto split: list.split)
  have ty: "wf_result (fold_type_builtin name args lookup)"
    using lookup by (auto simp: fold_type_builtin_def wf_lookup_def bind_eq_Some_conv split: list.split option.split)
  show ?thesis
    using some unfolding builtin_call_def
    by (elim if_some_elim) (auto simp: cmplx val ty wf_fold_cast [OF rs] wf_folds wf_fold_cap intro!: wf_one_arg [OF rs])
qed

lemma wf_eval_builtin_call:
  assumes rs: "list_all wf_result rs" and lookup: "wf_lookup lookup"
  shows "wf_result (eval_builtin_call func args rs sp lookup)"
proof -
  have conv: "wf_result (conversion_call name r sp lookup)" if "wf_result r" for name r
  proof -
    have "wf_result (case (lookup (type_conv_lo_key name), lookup (type_conv_hi_key name), as_int v) of
         (Some (CInt lo), Some (CInt hi), Some n) \<Rightarrow>
           if n < lo \<or> n > hi then Inl (eval_err sp (ConversionOutOfRange n name)) else Inr v
       | _ \<Rightarrow> Inr v)" if "wf_value v" for v
      using that by (auto split: option.split const_value.split)
    then show ?thesis unfolding conversion_call_def by (rule wf_value_bind [OF that])
  qed
  have one: "wf_result (case rs of [r] \<Rightarrow>
      if lookup (type_conv_key name) \<noteq> None then conversion_call name r sp lookup
      else Inl (eval_err sp CallNotConstant) | _ \<Rightarrow> Inl (eval_err sp CallNotConstant))" for name
    using rs conv by (auto split: list.split)
  have plain: "wf_result (case builtin_call name args rs sp lookup of Some r \<Rightarrow> r | None \<Rightarrow>
      (case rs of [r] \<Rightarrow>
        if lookup (type_conv_key name) \<noteq> None then conversion_call name r sp lookup
        else Inl (eval_err sp CallNotConstant) | _ \<Rightarrow> Inl (eval_err sp CallNotConstant)))" for name
    using wf_builtin_call [OF rs lookup] one by (cases "builtin_call name args rs sp lookup") auto
  show ?thesis
  proof (cases func)
    case (EDesignator d)
    consider "segments (d_base d) = []" | x where "segments (d_base d) = [x]"
      | x y where "segments (d_base d) = [x, y]" | x y z zs where "segments (d_base d) = x # y # z # zs"
      by (metis list.exhaust)
    then show ?thesis
    proof cases
      case (2 x)
      then show ?thesis using EDesignator plain [of x] by (simp add: eval_builtin_call_def)
    qed (use EDesignator wf_fold_cast [OF rs] in \<open>simp_all add: eval_builtin_call_def\<close>)
  qed (simp_all add: eval_builtin_call_def)
qed

lemma wf_element_members:
  "wf_result lo \<Longrightarrow> (\<And>r. hi = Some r \<Longrightarrow> wf_result r) \<Longrightarrow> element_members sp lo hi = Inr ns \<Longrightarrow>
   n \<in> set ns \<Longrightarrow> in_i128 n"
  by (cases hi) (auto simp: element_members_def in_i128_def dest!: as_int_range wf_resultD)

lemma wf_collect_members:
  "collect_members sp ms es = Inr ns \<Longrightarrow> distinct ms \<Longrightarrow> \<forall>m \<in> set ms. in_i128 m \<Longrightarrow>
   \<forall>(lo, hi) \<in> set es. wf_result lo \<and> (\<forall>r. hi = Some r \<longrightarrow> wf_result r) \<Longrightarrow>
   distinct ns \<and> (\<forall>m \<in> set ns. in_i128 m)"
proof (induction sp ms es rule: collect_members.induct)
  case (2 sp ms lo hi es)
  obtain ks where ks: "element_members sp lo hi = Inr ks" "collect_members sp (foldl push_new ms ks) es = Inr ns"
    using "2.prems"(1) by auto
  have "\<forall>m \<in> set ks. in_i128 m" using wf_element_members [OF _ _ ks(1)] "2.prems"(4) by auto
  then show ?case using "2.IH" [OF ks] foldl_push_new [of ms ks] "2.prems"(2-4) by auto
qed simp

lemma wf_eval:
  "wf_lookup lookup \<Longrightarrow> wf_expr e \<Longrightarrow> wf_result (eval_const lookup e)"
  "wf_lookup lookup \<Longrightarrow> wf_elem x \<Longrightarrow>
   (case eval_elem lookup x of (lo, hi) \<Rightarrow> wf_result lo \<and> (\<forall>r. hi = Some r \<longrightarrow> wf_result r))"
proof (induction lookup e and lookup x rule: eval_const_eval_elem.induct)
  case (1 lookup n sp)
  then show ?case by (simp add: uint_in_i128)
next
  case (6 lookup d)
  then show ?case by (auto simp: eval_designator_def Let_def wf_lookup_def split: option.split)
next
  case (7 lookup func args sp)
  then have "list_all wf_result (map (eval_const lookup) args)" by (auto simp: list_all_iff)
  then show ?case using wf_eval_builtin_call "7.prems"(1) by simp
next
  case (8 lookup op lhs rhs sp)
  then show ?case by (auto simp: wf_result_bind intro!: wf_binary_values)
next
  case (9 lookup op e sp)
  then show ?case by (auto intro!: wf_value_bind wf_unary_value)
next
  case (10 lookup t elements sp)
  have "\<forall>(lo, hi) \<in> set (map (eval_elem lookup) elements). wf_result lo \<and> (\<forall>r. hi = Some r \<longrightarrow> wf_result r)"
    using 10 by (auto simp: list_all_iff)
  then show ?case
    using wf_collect_members [of sp "[]" "map (eval_elem lookup) elements"] by (auto simp: wf_result_bind)
qed auto

text \<open>
  C37 (well-formed constants): whatever a constant expression over lexer-produced literals folds
  to is a well-formed value, given that the named constants are: integers fit 128 bits, a
  character is a Unicode scalar value, a string is valid UTF-8 and the members of a set are in
  increasing order, distinct and in range.
\<close>

theorem const_values_well_formed:
  "wf_lookup lookup \<Longrightarrow> wf_expr e \<Longrightarrow> eval_const lookup e = Inr v \<Longrightarrow> wf_value v"
  using wf_eval(1) [of lookup e] by simp

abbreviation lit :: "64 word \<Rightarrow> expr" where
  "lit n \<equiv> EInteger n \<lparr>span_start = START, span_end = START\<rparr>"

abbreviation at_start :: span where
  "at_start \<equiv> \<lparr>span_start = START, span_end = START\<rparr>"

theorem const_values_well_formed_witness:
  "eval_const (\<lambda>k. None) (ESet None [Single (lit 5), Range (lit 1) (lit 3), Single (lit 2)] at_start) =
     Inr (CSet [1, 2, 3, 5]) \<and> wf_value (CSet [1, 2, 3, 5])"
proof -
  have e: "eval_const (\<lambda>k. None) (ESet None [Single (lit 5), Range (lit 1) (lit 3), Single (lit 2)] at_start) =
     Inr (CSet [1, 2, 3, 5])"
    by (simp add: element_members_def push_new_def upto.simps)
  show ?thesis using e const_values_well_formed [OF _ _ e] by (simp add: wf_lookup_def)
qed

section \<open>Integer expressions\<close>

text \<open>The mathematical value of an integer expression, with floor division.\<close>

fun int_expr :: "expr \<Rightarrow> bool" where
  "int_expr (EInteger n sp) = True"
| "int_expr (EUnary op e sp) \<longleftrightarrow> op \<noteq> OpNot \<and> int_expr e"
| "int_expr (EBinary op a b sp) \<longleftrightarrow> op \<in> {OpAdd, OpSub, OpMul, OpDivKw, OpMod} \<and> int_expr a \<and> int_expr b"
| "int_expr _ = False"

fun exact_op :: "binary_op \<Rightarrow> int \<Rightarrow> int \<Rightarrow> int option" where
  "exact_op OpAdd x y = Some (x + y)"
| "exact_op OpSub x y = Some (x - y)"
| "exact_op OpMul x y = Some (x * y)"
| "exact_op OpDivKw x y = (if y = 0 then None else Some (x div y))"
| "exact_op OpMod x y = (if y = 0 then None else Some (x mod y))"
| "exact_op _ x y = None"

fun exact :: "expr \<Rightarrow> int option" where
  "exact (EInteger n sp) = Some (uint n)"
| "exact (EUnary op e sp) = map_option (if op = OpNeg then uminus else id) (exact e)"
| "exact (EBinary op a b sp) = Option.bind (exact a) (\<lambda>x. Option.bind (exact b) (\<lambda>y. exact_op op x y))"
| "exact _ = None"

text \<open>No intermediate result, and no quotient a division or modulus computes, leaves 128 bits.\<close>

fun fits_op :: "binary_op \<Rightarrow> int \<Rightarrow> int \<Rightarrow> bool" where
  "fits_op op x y \<longleftrightarrow>
     (\<forall>z. exact_op op x y = Some z \<longrightarrow> in_i128 z) \<and> (op = OpDivKw \<or> op = OpMod \<longrightarrow> in_i128 (x div y))"

fun fits :: "expr \<Rightarrow> bool" where
  "fits (EUnary op e sp) \<longleftrightarrow> fits e \<and> (\<forall>x. exact (EUnary op e sp) = Some x \<longrightarrow> in_i128 x)"
| "fits (EBinary op a b sp) \<longleftrightarrow> fits a \<and> fits b \<and>
     (\<forall>x y. exact a = Some x \<longrightarrow> exact b = Some y \<longrightarrow> fits_op op x y)"
| "fits _ = True"

lemma min_div: "i128_min div - 1 = 2 ^ 127"
  by (simp add: i128_min_def)

lemma binary_values_exact:
  assumes "op \<in> {OpAdd, OpSub, OpMul, OpDivKw, OpMod}" "in_i128 x" "in_i128 y"
  shows "binary_values op (CInt x) (CInt y) sp = Inr v \<longleftrightarrow>
    (\<exists>z. v = CInt z \<and> exact_op op x y = Some z \<and> fits_op op x y)"
proof -
  have big: "\<not> in_i128 (2 ^ 127)" by (simp add: in_i128_def i128_max_def)
  have d: "y \<noteq> 0 \<Longrightarrow> in_i128 (x div y) \<longleftrightarrow> \<not> (x = i128_min \<and> y = - 1)"
    using div_in_i128(2) [OF assms(2), of y] big min_div by metis
  show ?thesis
    using assms(1)
    by (auto simp: arith_op_def is_text_def checked_range int_op2_def int_val_def m2_div_floor m2_mod_floor d
        mod_in_i128 assms split: if_splits)
qed

lemma fold_int_expr:
  "int_expr e \<Longrightarrow>
   (\<forall>v. eval_const lookup e = Inr v \<longleftrightarrow> (\<exists>n. v = CInt n \<and> exact e = Some n \<and> fits e)) \<and>
   (\<forall>n. exact e = Some n \<longrightarrow> fits e \<longrightarrow> in_i128 n)"
proof (induction e rule: int_expr.induct)
  case (2 op e sp)
  then have IH: "\<And>v. eval_const lookup e = Inr v \<longleftrightarrow> (\<exists>n. v = CInt n \<and> exact e = Some n \<and> fits e)"
    by auto
  show ?case
    using 2 by (cases op) (auto simp: IH checked_range)
next
  case (3 op a b sp)
  then have a: "\<And>v. eval_const lookup a = Inr v \<longleftrightarrow> (\<exists>n. v = CInt n \<and> exact a = Some n \<and> fits a)"
    and b: "\<And>v. eval_const lookup b = Inr v \<longleftrightarrow> (\<exists>n. v = CInt n \<and> exact b = Some n \<and> fits b)"
    and r: "\<And>x. exact a = Some x \<Longrightarrow> fits a \<Longrightarrow> in_i128 x" "\<And>x. exact b = Some x \<Longrightarrow> fits b \<Longrightarrow> in_i128 x"
    and op: "op \<in> {OpAdd, OpSub, OpMul, OpDivKw, OpMod}" by auto
  have "eval_const lookup (EBinary op a b sp) = Inr v \<longleftrightarrow>
      (\<exists>x y. exact a = Some x \<and> fits a \<and> exact b = Some y \<and> fits b \<and> binary_values op (CInt x) (CInt y) sp = Inr v)" for v
    by (auto simp: a b simp del: binary_values.simps) 
  also have "\<dots> v \<longleftrightarrow> (\<exists>n. v = CInt n \<and> exact (EBinary op a b sp) = Some n \<and> fits (EBinary op a b sp))" for v
    using r binary_values_exact [OF op] by (auto simp: bind_eq_Some_conv simp del: fits_op.simps binary_values.simps)
  finally show ?case
    using r by (auto simp: bind_eq_Some_conv)
qed (auto simp: uint_in_i128)



text \<open>
  (division): on integers in range, unless the divisor is zero or the quotient overflows, \<open>/\<close>
  and \<open>REM\<close> are truncated division and its remainder (smaller than the divisor, sign of the
  dividend) and \<open>DIV\<close> and \<open>MOD\<close> are floor division and its remainder (sign of the divisor).
\<close>

theorem const_division_laws:
  assumes "in_i128 a" "in_i128 b" "b \<noteq> 0" "\<not> (a = i128_min \<and> b = - 1)"
  shows "\<exists>q r. binary_values OpDiv (CInt a) (CInt b) sp = Inr (CInt q) \<and>
      binary_values OpRem (CInt a) (CInt b) sp = Inr (CInt r) \<and>
      a = q * b + r \<and> \<bar>r\<bar> < \<bar>b\<bar> \<and> (r \<noteq> 0 \<longrightarrow> (r < 0) = (a < 0)) \<and>
      binary_values OpDivKw (CInt a) (CInt b) sp = Inr (CInt (a div b)) \<and>
      binary_values OpMod (CInt a) (CInt b) sp = Inr (CInt (a mod b))"
  using assms trunc_div_rem [of b a] trunc_rem_bound [of b a]
  by (intro exI [of _ "trunc_div a b"] exI [of _ "trunc_rem a b"])
     (auto simp: i128_div_def int_op2_def int_val_def m2_div_floor m2_mod_floor)

theorem const_division_laws_witness:
  "binary_values OpDivKw (CInt (- 7)) (CInt 3) at_start = Inr (CInt (- 3)) \<and>
   binary_values OpMod (CInt (- 7)) (CInt 3) at_start = Inr (CInt 2)"
  using const_division_laws [of "- 7" 3 at_start]
  by (auto simp add: in_i128_def i128_min_def i128_max_def simp del: binary_values.simps)

text \<open>
  (overflow panics): a binary operator on two integers in range panics in exactly one case, the
  quotient of the smallest 128-bit value by \<open>-1\<close> in \<open>/\<close>, \<open>DIV\<close> or \<open>MOD\<close>. Every other overflow is the
  reported error \<open>constant overflow\<close>, and \<open>REM\<close> is total there.
\<close>

theorem const_int_panics:
  assumes "in_i128 a" "in_i128 b"
  shows "binary_values op (CInt a) (CInt b) sp = Inl (eval_err sp Panic) \<longleftrightarrow>
    op \<in> {OpDiv, OpDivKw, OpMod} \<and> a = i128_min \<and> b = - 1"
  by (cases op)
     (auto simp: arith_op_def is_text_def rbind_eq_Inl checked_def ok_or_def eval_err_def int_op2_def int_val_def
       i128_div_def m2_div_floor m2_mod_floor compare_op_def const_cmp_def bool_op2_def bool_val_def
       split: if_splits)

theorem const_int_panics_witness:
  "binary_values OpMod (CInt i128_min) (CInt (- 1)) at_start = Inl (eval_err at_start Panic) \<and>
   binary_values OpRem (CInt i128_min) (CInt (- 1)) at_start \<noteq> Inl (eval_err at_start Panic)"
  using const_int_panics [of i128_min "- 1" _ at_start]
  by (simp add: in_i128_def i128_min_def i128_max_def del: binary_values.simps)

section \<open>Set expressions\<close>

text \<open>
  (set algebra): on well-formed sets \<open>+\<close>, \<open>-\<close>, \<open>*\<close> and \<open>/\<close> are union, difference, intersection
  and symmetric difference, \<open>IN\<close> is membership and \<open>=\<close> is equality of sets, whatever the order in
  which the members were written.
\<close>

theorem const_set_algebra:
  assumes "wf_value (CSet a)" "wf_value (CSet b)"
  shows "binary_values OpAdd (CSet a) (CSet b) sp = Inr (CSet (canonical (set a \<union> set b))) \<and>
    binary_values OpSub (CSet a) (CSet b) sp = Inr (CSet (canonical (set a - set b))) \<and>
    binary_values OpMul (CSet a) (CSet b) sp = Inr (CSet (canonical (set a \<inter> set b))) \<and>
    binary_values OpDiv (CSet a) (CSet b) sp = Inr (CSet (canonical ((set a - set b) \<union> (set b - set a)))) \<and>
    binary_values OpIn (CInt n) (CSet a) sp = Inr (CBool (n \<in> set a)) \<and>
    binary_values OpEq (CSet a) (CSet b) sp = Inr (CBool (set a = set b))"
proof -
  have d: "distinct a" "distinct b" using assms by auto
  have "a = b \<longleftrightarrow> set a = set b" using assms by (auto dest: sort_distinct_unique sorted_distinct_set_unique)
  then show ?thesis by (simp add: set_ops_canonical [OF d] int_val_def const_eq_def)
qed

theorem const_set_algebra_witness:
  "binary_values OpDiv (CSet [1, 2]) (CSet [2, 3]) at_start = Inr (CSet (canonical {1, 3}))"
proof -
  have "wf_value (CSet [1, 2])" "wf_value (CSet [2, 3])"
    by (simp_all add: in_i128_def i128_min_def i128_max_def)
  moreover have "(set [1, 2] - set [2, 3]) \<union> (set [2, 3] - set [1, 2]) = {1, 3 :: int}" by auto
  ultimately show ?thesis using const_set_algebra [of "[1, 2]" "[2, 3]" at_start 0] by metis
qed

text \<open>What one element of a set constructor denotes.\<close>

fun elem_set :: "const_lookup \<Rightarrow> set_elem \<Rightarrow> int set" where
  "elem_set lookup (Single e) = {n. \<exists>v. eval_const lookup e = Inr v \<and> as_int v = Some n}"
| "elem_set lookup (Range lo hi) =
     {n. \<exists>v w a b. eval_const lookup lo = Inr v \<and> eval_const lookup hi = Inr w \<and>
        as_int v = Some a \<and> as_int w = Some b \<and> a \<le> n \<and> n \<le> b}"

lemma element_members_set:
  "eval_elem lookup x = (lo, hi) \<Longrightarrow> element_members sp lo hi = Inr ns \<Longrightarrow> set ns = elem_set lookup x"
  by (cases x) (auto simp: element_members_def)

lemma collect_members_set:
  "collect_members sp ms (map (eval_elem lookup) xs) = Inr ns \<Longrightarrow>
   set ns = set ms \<union> (\<Union>x \<in> set xs. elem_set lookup x) \<and> (distinct ms \<longrightarrow> distinct ns)"
proof (induction xs arbitrary: ms)
  case (Cons x xs)
  obtain lo hi where x: "eval_elem lookup x = (lo, hi)" by (cases "eval_elem lookup x")
  then obtain ks where ks: "element_members sp lo hi = Inr ks"
      "collect_members sp (foldl push_new ms ks) (map (eval_elem lookup) xs) = Inr ns"
    using Cons.prems by auto
  show ?case
    using Cons.IH [OF ks(2)] element_members_set [OF x ks(1)] foldl_push_new [of ms ks] by auto
qed simp

text \<open>
  (set constructors): a set constructor that folds yields the union of its elements, a single
  ordinal or a range from its lower to its upper bound (empty when they are reversed), in
  increasing order and without duplicates.
\<close>

theorem const_set_constructor:
  "eval_const lookup (ESet t xs sp) = Inr v \<Longrightarrow> v = CSet (canonical (\<Union>x \<in> set xs. elem_set lookup x))"
proof -
  assume "eval_const lookup (ESet t xs sp) = Inr v"
  then obtain ms where ms: "collect_members sp [] (map (eval_elem lookup) xs) = Inr ms" "v = CSet (sort ms)"
    by auto
  then show ?thesis using collect_members_set [OF ms(1)] by (auto intro!: canonicalI)
qed

theorem const_set_constructor_witness:
  "eval_const (\<lambda>k. None) (ESet None [Single (lit 5), Range (lit 3) (lit 1)] at_start) = Inr (CSet [5]) \<and>
   canonical (\<Union>x \<in> {Single (lit 5), Range (lit 3) (lit 1)}. elem_set (\<lambda>k. None) x) = [5]"
proof -
  have e: "eval_const (\<lambda>k. None) (ESet None [Single (lit 5), Range (lit 3) (lit 1)] at_start) = Inr (CSet [5])"
    by (simp add: element_members_def push_new_def)
  show ?thesis using e const_set_constructor [OF e] by simp
qed

section \<open>Comparison\<close>

lemma str_cmp_refl: "str_cmp s s = 0"
  by (induction s) auto

lemma str_cmp_zero: "str_cmp s t = 0 \<longleftrightarrow> s = t"
  by (induction s t rule: str_cmp.induct) (auto simp: cmp_of_def byte_eq_iff)

lemma str_cmp_swap: "str_cmp t s = - str_cmp s t"
  by (induction s t rule: str_cmp.induct) (auto simp: cmp_of_def byte_eq_iff)

fun same_ordered :: "const_value \<Rightarrow> const_value \<Rightarrow> bool" where
  "same_ordered (CInt x) (CInt y) = True"
| "same_ordered (CChar x) (CChar y) = True"
| "same_ordered (CStr x) (CStr y) = True"
| "same_ordered _ _ = False"

text \<open>
  (comparison): on two integers, two characters or two strings the six relations are one total
  order: exactly one of \<open><\<close>, \<open>=\<close> and \<open>>\<close> holds, \<open><=\<close> and \<open>>=\<close> are their unions with \<open>=\<close>, \<open>#\<close> is the
  negation of \<open>=\<close>, and exchanging the operands exchanges \<open><\<close> and \<open>>\<close>.
\<close>

theorem const_compare_total:
  "same_ordered v w \<Longrightarrow>
   \<exists>lt eq gt. binary_values OpLt v w sp = Inr (CBool lt) \<and> binary_values OpEq v w sp = Inr (CBool eq) \<and>
     binary_values OpGt v w sp = Inr (CBool gt) \<and> eq = (v = w) \<and>
     (lt \<longleftrightarrow> \<not> eq \<and> \<not> gt) \<and> (eq \<longrightarrow> \<not> gt) \<and>
     binary_values OpLe v w sp = Inr (CBool (lt \<or> eq)) \<and> binary_values OpGe v w sp = Inr (CBool (gt \<or> eq)) \<and>
     binary_values OpNe v w sp = Inr (CBool (\<not> eq)) \<and> binary_values OpLt w v sp = Inr (CBool gt)"
proof -
  assume "same_ordered v w"
  then consider x y where "v = CInt x" "w = CInt y" | x y where "v = CChar x" "w = CChar y"
    | s t where "v = CStr s" "w = CStr t"
    by (cases "(v, w)" rule: same_ordered.cases) auto
  then obtain c where c: "const_cmp v w sp = Inr c" "const_cmp w v sp = Inr (- c)" "const_eq v w = (v = w)"
      "c = 0 \<longleftrightarrow> v = w"
  proof cases
    case (1 x y)
    show ?thesis by (rule that [of "cmp_of x y"]) (auto simp: 1 const_cmp_def const_eq_def cmp_of_def)
  next
    case (2 x y)
    show ?thesis by (rule that [of "cmp_of x y"]) (auto simp: 2 const_cmp_def const_eq_def cmp_of_def)
  next
    case (3 s t)
    show ?thesis
      by (rule that [of "str_cmp s t"]) (simp_all add: 3 const_cmp_def const_eq_def str_cmp_zero str_cmp_swap [of t s])
  qed
  then show ?thesis
    by (intro exI [of _ "c < 0"] exI [of _ "v = w"] exI [of _ "0 < c"]) (auto simp: compare_op_def)
qed

theorem const_compare_total_witness:
  "binary_values OpLt (CStr ''ab'') (CStr ''b'') at_start = Inr (CBool True) \<and>
   binary_values OpGt (CStr ''ab'') (CStr ''b'') at_start = Inr (CBool False)"
  using const_compare_total [of "CStr ''ab''" "CStr ''b''" at_start]
  by (simp add: compare_op_def const_cmp_def cmp_of_def byte_def)

text \<open>
  On reals the folded relations are not IEEE comparisons: a NaN compares as equal, so \<open><=\<close> and \<open>>=\<close>
  fold to \<open>TRUE\<close> while \<open>=\<close> folds to \<open>FALSE\<close>.
\<close>

lemma compare_nan_folds_true:
  "f64_is_nan x \<Longrightarrow> binary_values OpLe (CReal x) (CReal y) sp = Inr (CBool True) \<and>
   binary_values OpGe (CReal x) (CReal y) sp = Inr (CBool True) \<and>
   binary_values OpEq (CReal x) (CReal y) sp = Inr (CBool False)"
  by (simp add: compare_op_def const_cmp_def const_eq_def f64_partial_cmp_def f64_eq_def)

end
