(* ===== verification/Arena.thy ===== *)
theory Arena
  imports Prelude
begin

text \<open>
  The pattern the three arenas of \<open>newm2-sema\<close> share: a vector of slots that only grows, addressed
  by a \<open>u32\<close> handle. A handle is the length of the vector at the time of the push, cast by
  \<open>as u32\<close>, which wraps. Indexing past the end panics; the model returns \<open>None\<close> there.
  The locale states the contract of such an arena once; \<open>Types\<close>, \<open>Scopes\<close> and \<open>Classes\<close>
  discharge it for \<open>TypeArena\<close>, \<open>ScopeArena\<close> and \<open>ClassArena\<close>.
\<close>

type_synonym u32 = "32 word"

definition handle_at :: "nat \<Rightarrow> u32" where
  "handle_at n = of_nat n"

definition slot_get :: "'a list \<Rightarrow> u32 \<Rightarrow> 'a option" where
  "slot_get xs h = get_at xs (unat h)"

definition slot_put :: "'a list \<Rightarrow> u32 \<Rightarrow> ('a \<Rightarrow> 'a) \<Rightarrow> 'a list option" where
  "slot_put xs h f = map_option (\<lambda>x. xs[unat h := f x]) (slot_get xs h)"

lemma unat_handle_at: "n < 2 ^ 32 \<Longrightarrow> unat (handle_at n) = n"
  by (simp add: handle_at_def unat_of_nat)

lemma unat_handle_at_literal [simp]: "n < 4294967296 \<Longrightarrow> unat (handle_at n) = n"
  by (simp add: unat_handle_at)

lemma unat_handle_at_mod: "unat (handle_at n) = n mod 2 ^ 32"
  by (simp add: handle_at_def unat_of_nat)

lemma slot_get_None_iff [simp]: "slot_get xs h = None \<longleftrightarrow> length xs \<le> unat h"
  by (simp add: slot_get_def)

lemma slot_get_append [simp]: "unat h < length xs \<Longrightarrow> slot_get (xs @ ys) h = slot_get xs h"
  by (simp add: slot_get_def get_at_def nth_append)

lemma slot_get_new [simp]: "length xs < 2 ^ 32 \<Longrightarrow> slot_get (xs @ [x]) (handle_at (length xs)) = Some x"
  by (simp add: slot_get_def get_at_def unat_handle_at)

lemma slot_get_Some_iff: "slot_get xs h = Some x \<longleftrightarrow> unat h < length xs \<and> xs ! unat h = x"
  by (simp add: slot_get_def get_at_Some_iff)

lemma slot_put_eq: "slot_put xs h f = Some ys \<longleftrightarrow> unat h < length xs \<and> ys = xs[unat h := f (xs ! unat h)]"
  by (auto simp: slot_put_def slot_get_Some_iff)

lemma slot_put_None_iff [simp]: "slot_put xs h f = None \<longleftrightarrow> length xs \<le> unat h"
  by (simp add: slot_put_def)

lemma slot_get_update:
  "unat h < length xs \<Longrightarrow> slot_get (xs[unat h := x]) j = (if j = h then Some x else slot_get xs j)"
  by (auto simp: slot_get_def get_at_def nth_list_update word_unat_eq_iff)

lemma slot_get_put:
  "slot_put xs h f = Some ys \<Longrightarrow> slot_get ys j = (if j = h then map_option f (slot_get xs h) else slot_get xs j)"
  by (auto simp: slot_put_eq slot_get_def get_at_def nth_list_update word_unat_eq_iff)

text \<open>A batch of allocations, in order.\<close>

fun alloc_all :: "('b \<Rightarrow> 's \<Rightarrow> u32 \<times> 's) \<Rightarrow> 'b list \<Rightarrow> 's \<Rightarrow> u32 list \<times> 's" where
  "alloc_all alloc [] s = ([], s)"
| "alloc_all alloc (x # xs) s =
     (let (h, s1) = alloc x s; (hs, s2) = alloc_all alloc xs s1 in (h # hs, s2))"

locale arena =
  fixes slots :: "'s \<Rightarrow> nat"
    and get :: "'s \<Rightarrow> u32 \<Rightarrow> 'a option"
    and alloc :: "'b \<Rightarrow> 's \<Rightarrow> u32 \<times> 's"
    and make :: "'b \<Rightarrow> 'a"
    and put :: "u32 \<Rightarrow> 'a \<Rightarrow> 's \<Rightarrow> 's option"
  assumes get_defined: "get s h = None \<longleftrightarrow> slots s \<le> unat h"
    and alloc_handle: "alloc x s = (h, s') \<Longrightarrow> h = handle_at (slots s)"
    and alloc_slots: "alloc x s = (h, s') \<Longrightarrow> slots s' = Suc (slots s)"
    and alloc_old: "alloc x s = (h, s') \<Longrightarrow> unat j < slots s \<Longrightarrow> get s' j = get s j"
    and alloc_new: "alloc x s = (h, s') \<Longrightarrow> slots s < 2 ^ 32 \<Longrightarrow> get s' h = Some (make x)"
    and put_defined: "put h y s = None \<longleftrightarrow> slots s \<le> unat h"
    and put_slots: "put h y s = Some s' \<Longrightarrow> slots s' = slots s"
    and put_get: "put h y s = Some s' \<Longrightarrow> get s' j = (if j = h then Some y else get s j)"
begin

lemma alloc_all_slots: "alloc_all alloc xs s = (hs, s') \<Longrightarrow> slots s' = slots s + length xs"
  by (induction xs arbitrary: s hs s') (auto simp: Let_def dest: alloc_slots split: prod.splits)

lemma alloc_all_old:
  "alloc_all alloc xs s = (hs, s') \<Longrightarrow> unat j < slots s \<Longrightarrow> get s' j = get s j"
  by (induction xs arbitrary: s hs s')
     (auto simp: Let_def alloc_old alloc_slots split: prod.splits)

lemma alloc_all_handles:
  "alloc_all alloc xs s = (hs, s') \<Longrightarrow> hs = map handle_at [slots s..<slots s + length xs]"
proof (induction xs arbitrary: s hs s')
  case (Cons x xs)
  then obtain h s1 hs1 where s: "alloc x s = (h, s1)" "alloc_all alloc xs s1 = (hs1, s')" "hs = h # hs1"
    by (auto simp: Let_def split: prod.splits)
  have "[slots s..<slots s + length (x # xs)] = slots s # [slots s1..<slots s1 + length xs]"
    using alloc_slots [OF s(1)] by (simp add: upt_conv_Cons del: upt_Suc)
  then show ?case
    using s(3) Cons.IH [OF s(2)] alloc_handle [OF s(1)] by simp
qed simp

text \<open>Until the handles wrap, a batch yields fresh handles, each reading what it was made from.\<close>

lemma alloc_all_new:
  assumes "alloc_all alloc xs s = (hs, s')" "slots s + length xs \<le> 2 ^ 32"
  shows "map (get s') hs = map (Some \<circ> make) xs"
  using assms
proof (induction xs arbitrary: s hs s')
  case (Cons x xs)
  then obtain h s1 hs1 where s: "alloc x s = (h, s1)" "alloc_all alloc xs s1 = (hs1, s')" "hs = h # hs1"
    by (auto simp: Let_def split: prod.splits)
  have b: "slots s < 2 ^ 32" using Cons.prems(2) by simp
  have l: "slots s1 = Suc (slots s)" "unat h = slots s"
    using alloc_slots [OF s(1)] alloc_handle [OF s(1)] unat_handle_at [OF b] by simp_all
  then have "get s' h = Some (make x)"
    using alloc_all_old [OF s(2), of h] alloc_new [OF s(1) b] by simp
  then show ?case using Cons.IH [OF s(2)] Cons.prems(2) l(1) s(3) by simp
qed simp

lemma alloc_all_distinct:
  assumes "alloc_all alloc xs s = (hs, s')" "slots s + length xs \<le> 2 ^ 32"
  shows "distinct hs"
proof -
  have "inj_on handle_at {slots s..<slots s + length xs}"
  proof (rule inj_onI)
    fix i j assume "i \<in> {slots s..<slots s + length xs}" "j \<in> {slots s..<slots s + length xs}"
      "handle_at i = handle_at j"
    moreover from this have "i < 2 ^ 32" "j < 2 ^ 32" using assms(2) by simp_all
    ultimately show "i = j" using unat_handle_at [of i] unat_handle_at [of j] by metis
  qed
  then show ?thesis using alloc_all_handles [OF assms(1)] by (simp add: distinct_map)
qed

end

end
