(* ===== verification/Types.thy ===== *)
theory Types
  imports Arena ConstEval
begin

text \<open>
  The type arena of the analyzer (\<open>newm2-sema/src/types.rs\<close>): the kinds of type with the handles
  they refer to each other by, the builtins and their families, ordinal bounds. A \<open>TypeId\<close> is its
  \<open>u32\<close>. The hash map from builtins to handles is a map; the one operation that iterates it,
  \<open>builtin_by_name\<close>, takes the order of the iteration as an argument, since Rust leaves it open.
\<close>

type_synonym type_id = u32

section \<open>Builtins\<close>

datatype builtin =
    BBoolean | BChar | BInteger | BCardinal | BReal | BLongInt | BLongCard | BLongReal
  | BReal32 | BReal16 | BBitset | BProc | BNil | BComplex | BLongComplex
  | BInteger8 | BInteger16 | BInteger32 | BInteger64
  | BCardinal8 | BCardinal16 | BCardinal32 | BCardinal64
  | BByte | BWord | BDword | BQword | BAddress | BAdrint | BAdrcard | BAchar | BUchar
  | BSysAddress | BSysLoc | BSysByte | BSysWord | BSysBitset

fun builtin_name :: "builtin \<Rightarrow> string" where
  "builtin_name BBoolean = ''BOOLEAN''"
| "builtin_name BChar = ''CHAR''"
| "builtin_name BInteger = ''INTEGER''"
| "builtin_name BCardinal = ''CARDINAL''"
| "builtin_name BReal = ''REAL''"
| "builtin_name BLongInt = ''LONGINT''"
| "builtin_name BLongCard = ''LONGCARD''"
| "builtin_name BLongReal = ''LONGREAL''"
| "builtin_name BReal32 = ''REAL32''"
| "builtin_name BReal16 = ''REAL16''"
| "builtin_name BBitset = ''BITSET''"
| "builtin_name BProc = ''PROC''"
| "builtin_name BNil = ''NIL''"
| "builtin_name BComplex = ''COMPLEX''"
| "builtin_name BLongComplex = ''LONGCOMPLEX''"
| "builtin_name BInteger8 = ''INTEGER8''"
| "builtin_name BInteger16 = ''INTEGER16''"
| "builtin_name BInteger32 = ''INTEGER32''"
| "builtin_name BInteger64 = ''INTEGER64''"
| "builtin_name BCardinal8 = ''CARDINAL8''"
| "builtin_name BCardinal16 = ''CARDINAL16''"
| "builtin_name BCardinal32 = ''CARDINAL32''"
| "builtin_name BCardinal64 = ''CARDINAL64''"
| "builtin_name BByte = ''BYTE''"
| "builtin_name BWord = ''WORD''"
| "builtin_name BDword = ''DWORD''"
| "builtin_name BQword = ''QWORD''"
| "builtin_name BAddress = ''ADDRESS''"
| "builtin_name BAdrint = ''ADRINT''"
| "builtin_name BAdrcard = ''ADRCARD''"
| "builtin_name BAchar = ''ACHAR''"
| "builtin_name BUchar = ''UCHAR''"
| "builtin_name BSysAddress = ''ADDRESS''"
| "builtin_name BSysLoc = ''LOC''"
| "builtin_name BSysByte = ''BYTE''"
| "builtin_name BSysWord = ''WORD''"
| "builtin_name BSysBitset = ''BITSET''"

definition is_ordinal :: "builtin \<Rightarrow> bool" where
  "is_ordinal b \<longleftrightarrow> b \<in>
     {BBoolean, BChar, BAchar, BUchar, BInteger, BCardinal, BLongInt, BLongCard,
      BInteger8, BInteger16, BInteger32, BInteger64,
      BCardinal8, BCardinal16, BCardinal32, BCardinal64,
      BByte, BWord, BDword, BQword, BAddress, BAdrint, BAdrcard}"

text \<open>The arms of \<open>is_same_family\<close>, in their order.\<close>

definition is_same_family :: "builtin \<Rightarrow> builtin \<Rightarrow> bool" where
  "is_same_family a b \<longleftrightarrow>
     (let cardinals = {BCardinal, BCardinal8, BCardinal16, BCardinal32, BCardinal64, BLongCard};
          integers = {BInteger, BInteger8, BInteger16, BInteger32, BInteger64, BLongInt};
          addresses = {BAddress, BAdrint, BAdrcard, BSysAddress}
      in a = b
         \<or> a \<in> cardinals \<and> b \<in> cardinals
         \<or> a \<in> integers \<and> b \<in> integers
         \<or> a \<in> {BReal, BLongReal} \<and> b \<in> {BReal, BLongReal}
         \<or> a \<in> {BComplex, BLongComplex} \<and> b \<in> {BComplex, BLongComplex}
         \<or> a \<in> {BChar, BAchar, BUchar} \<and> b \<in> {BChar, BAchar, BUchar}
         \<or> a \<in> addresses \<and> b \<in> addresses
         \<or> a = BNil \<and> b \<in> addresses
         \<or> a \<in> addresses \<and> b = BNil)"

section \<open>Type kinds\<close>

datatype param_mode = PmValue | PmVar | PmConst

record proc_param =
  pp_mode :: param_mode
  pp_ty :: type_id

record record_field_slot =
  rf_name :: string
  rf_ty :: type_id

datatype variant_label = VlSingle int | VlRange int int

record variant_arm_layout =
  arm_labels :: "variant_label list"
  arm_fields :: "record_field_slot list"

record variant_layout =
  tag_field :: "string option"
  tag_type :: type_id
  var_arms :: "variant_arm_layout list"
  else_fields :: "record_field_slot list"

record record_layout =
  rl_name :: "string option"
  rl_fields :: "record_field_slot list"
  rl_variant :: "variant_layout option"

datatype type_kind =
    TkUnresolved
  | TkBuiltin builtin
  | TkEnum "string option" "string list" "int list"
  | TkSubrange type_id int int
  | TkArray "type_id list" type_id
  | TkOpenArray type_id
  | TkPointer type_id
  | TkRecord record_layout
  | TkSet bool type_id
  | TkVector u32 type_id
  | TkProc "proc_param list" "type_id option"
  | TkClass u32

text \<open>\<open>RecordLayout::flatten_fields\<close>: fixed fields, a named tag, the arms, the \<open>ELSE\<close> arm.\<close>

definition field_entry :: "record_field_slot \<Rightarrow> string \<times> type_id" where
  "field_entry f = (rf_name f, rf_ty f)"

definition flatten_fields :: "record_layout \<Rightarrow> (string \<times> type_id) list" where
  "flatten_fields l =
     map field_entry (rl_fields l) @
     (case rl_variant l of
        None \<Rightarrow> []
      | Some v \<Rightarrow>
          (case tag_field v of None \<Rightarrow> [] | Some t \<Rightarrow> [(t, tag_type v)]) @
          concat (map (\<lambda>a. map field_entry (arm_fields a)) (var_arms v)) @
          map field_entry (else_fields v))"

section \<open>The arena\<close>

record type_arena =
  kinds :: "type_kind list"
  builtins :: "builtin \<rightharpoonup> type_id"

definition type_alloc :: "type_kind \<Rightarrow> type_arena \<Rightarrow> type_id \<times> type_arena" where
  "type_alloc k a = (handle_at (length (kinds a)), a\<lparr>kinds := kinds a @ [k]\<rparr>)"

definition type_alloc_unresolved :: "type_arena \<Rightarrow> type_id \<times> type_arena" where
  "type_alloc_unresolved a = type_alloc TkUnresolved a"

definition type_set :: "type_id \<Rightarrow> type_kind \<Rightarrow> type_arena \<Rightarrow> type_arena option" where
  "type_set h k a = map_option (\<lambda>ks. a\<lparr>kinds := ks\<rparr>) (slot_put (kinds a) h (\<lambda>_. k))"

definition type_get :: "type_arena \<Rightarrow> type_id \<Rightarrow> type_kind option" where
  "type_get a h = slot_get (kinds a) h"

definition type_len :: "type_arena \<Rightarrow> nat" where
  "type_len a = length (kinds a)"

definition arena_builtin :: "type_arena \<Rightarrow> builtin \<Rightarrow> type_id option" where
  "arena_builtin a b = builtins a b"

definition all_builtins :: "builtin list" where
  "all_builtins =
     [BBoolean, BChar, BInteger, BCardinal, BReal, BLongInt, BLongCard, BLongReal,
      BReal32, BReal16,
      BBitset, BProc, BNil, BComplex, BLongComplex, BInteger8, BInteger16,
      BInteger32, BInteger64, BCardinal8, BCardinal16, BCardinal32, BCardinal64,
      BByte, BWord, BDword, BQword, BAddress, BAdrint, BAdrcard, BAchar, BUchar,
      BSysAddress, BSysLoc, BSysByte, BSysWord, BSysBitset]"

definition intern_builtin :: "type_arena \<Rightarrow> builtin \<Rightarrow> type_arena" where
  "intern_builtin a b =
     (let (h, a1) = type_alloc (TkBuiltin b) a in a1\<lparr>builtins := (builtins a1)(b \<mapsto> h)\<rparr>)"

definition intern_builtins :: "type_arena \<Rightarrow> type_arena" where
  "intern_builtins a = foldl intern_builtin a all_builtins"

definition type_arena_new :: type_arena where
  "type_arena_new = intern_builtins \<lparr>kinds = [], builtins = Map.empty\<rparr>"

text \<open>\<open>HashMap::iter().find(..)\<close>: \<open>order\<close> lists the keys of the map in the order iterated.\<close>

definition builtin_by_name :: "builtin list \<Rightarrow> type_arena \<Rightarrow> string \<Rightarrow> type_id option" where
  "builtin_by_name order a name =
     Option.bind (find (\<lambda>b. builtin_name b = name) order) (builtins a)"

section \<open>Ordinal bounds\<close>

definition builtin_ordinal_bounds :: "builtin \<Rightarrow> (int \<times> int) option" where
  "builtin_ordinal_bounds b =
     (case b of
        BBoolean \<Rightarrow> Some (0, 1)
      | BChar \<Rightarrow> Some (0, 0xFFFF) | BUchar \<Rightarrow> Some (0, 0xFFFF)
      | BAchar \<Rightarrow> Some (0, 0xFF) | BByte \<Rightarrow> Some (0, 0xFF) | BSysByte \<Rightarrow> Some (0, 0xFF)
      | BSysLoc \<Rightarrow> Some (0, 0xFF) | BCardinal8 \<Rightarrow> Some (0, 0xFF)
      | BInteger8 \<Rightarrow> Some (- 128, 127)
      | BCardinal16 \<Rightarrow> Some (0, 0xFFFF) | BWord \<Rightarrow> Some (0, 0xFFFF)
      | BInteger16 \<Rightarrow> Some (- 32768, 32767)
      | BCardinal32 \<Rightarrow> Some (0, 0xFFFFFFFF) | BDword \<Rightarrow> Some (0, 0xFFFFFFFF)
      | BInteger32 \<Rightarrow> Some (- 2147483648, 2147483647)
      | BCardinal \<Rightarrow> Some (0, 2 ^ 64 - 1) | BCardinal64 \<Rightarrow> Some (0, 2 ^ 64 - 1)
      | BQword \<Rightarrow> Some (0, 2 ^ 64 - 1) | BLongCard \<Rightarrow> Some (0, 2 ^ 64 - 1)
      | BAddress \<Rightarrow> Some (0, 2 ^ 64 - 1) | BAdrcard \<Rightarrow> Some (0, 2 ^ 64 - 1)
      | BSysAddress \<Rightarrow> Some (0, 2 ^ 64 - 1)
      | BInteger \<Rightarrow> Some (- (2 ^ 63), 2 ^ 63 - 1) | BInteger64 \<Rightarrow> Some (- (2 ^ 63), 2 ^ 63 - 1)
      | BLongInt \<Rightarrow> Some (- (2 ^ 63), 2 ^ 63 - 1) | BAdrint \<Rightarrow> Some (- (2 ^ 63), 2 ^ 63 - 1)
      | BBitset \<Rightarrow> Some (0, 255) | BSysBitset \<Rightarrow> Some (0, 255)
      | _ \<Rightarrow> None)"

text \<open>
  The bounds of a type. A set has those of its element type, which the code follows by recursion
  with no bound of its own, so the outer option says whether the call returns; a dangling handle
  panics, and so does a difference that leaves 128 bits.
\<close>

datatype type_panic = IndexOutOfBounds | ArithmeticOverflow

type_synonym ordinal_range = "type_panic + (int \<times> int) option"

definition enum_bounds :: "int list \<Rightarrow> (int \<times> int) option" where
  "enum_bounds vs = (if vs = [] then None else Some (Min (set vs), Max (set vs)))"

partial_function (option) ordinal_bounds :: "type_arena \<Rightarrow> type_id \<Rightarrow> ordinal_range option" where
  "ordinal_bounds a ty =
     (case type_get a ty of
        None \<Rightarrow> Some (Inl IndexOutOfBounds)
      | Some k \<Rightarrow>
          (case k of
             TkSubrange host lo hi \<Rightarrow> Some (Inr (Some (lo, hi)))
           | TkEnum n ns vs \<Rightarrow> Some (Inr (enum_bounds vs))
           | TkSet p base \<Rightarrow> ordinal_bounds a base
           | TkBuiltin b \<Rightarrow> Some (Inr (builtin_ordinal_bounds b))
           | _ \<Rightarrow> Some (Inr None)))"

definition range_size :: "int \<times> int \<Rightarrow> type_panic + int option" where
  "range_size r =
     (case checked (snd r - fst r) of
        None \<Rightarrow> Inl ArithmeticOverflow
      | Some d \<Rightarrow> Inr (checked (d + 1)))"

definition ordinal_cardinality :: "type_arena \<Rightarrow> type_id \<Rightarrow> (type_panic + int option) option" where
  "ordinal_cardinality a ty =
     map_option (\<lambda>r. rbind r (\<lambda>bs. case bs of None \<Rightarrow> Inr None | Some b \<Rightarrow> range_size b))
       (ordinal_bounds a ty)"

end
