(* ===== verification/TypesSpec.thy ===== *)
theory TypesSpec
  imports Types
begin

text \<open>
  What the type arena promises (\<open>newm2-sema/src/types.rs\<close>): the laws of an arena, builtins that stay
  where they were interned whatever the analysis allocates and patches, families that partition the
  builtins, bounds that are those of the machine representation, cardinalities that count.
\<close>

section \<open>The arena laws\<close>

lemmas arena_defs = type_get_def type_len_def type_alloc_def type_set_def slot_put_def

interpretation types: arena type_len type_get type_alloc "\<lambda>k. k" type_set
  by unfold_locales
     (auto simp: arena_defs slot_get_update slot_get_Some_iff)

lemma type_alloc_builtins: "type_alloc k a = (h, a') \<Longrightarrow> builtins a' = builtins a"
  by (auto simp: type_alloc_def)

lemma type_set_builtins: "type_set h k a = Some a' \<Longrightarrow> builtins a' = builtins a"
  by (auto simp: type_set_def)

section \<open>Histories of an arena\<close>

datatype type_op = OpAlloc type_kind | OpSet type_id type_kind

fun type_step :: "type_arena \<Rightarrow> type_op \<Rightarrow> type_arena option" where
  "type_step a (OpAlloc k) = Some (snd (type_alloc k a))"
| "type_step a (OpSet h k) = type_set h k a"

fun type_run :: "type_arena \<Rightarrow> type_op list \<Rightarrow> type_arena option" where
  "type_run a [] = Some a"
| "type_run a (x # xs) = Option.bind (type_step a x) (\<lambda>a1. type_run a1 xs)"

fun touches :: "type_id \<Rightarrow> type_op \<Rightarrow> bool" where
  "touches h (OpAlloc k) = False"
| "touches h (OpSet j k) = (j = h)"

lemma type_step_get:
  assumes "type_step a x = Some a'" "unat h < type_len a" "\<not> touches h x"
  shows "type_get a' h = type_get a h" "type_len a \<le> type_len a'" "builtins a' = builtins a"
  using assms
  by (cases x; auto simp: types.alloc_old [OF prod.collapse [symmetric]] types.put_get types.put_slots
        types.alloc_slots [OF prod.collapse [symmetric]] type_set_builtins
        type_alloc_builtins [OF prod.collapse [symmetric]])+

lemma type_run_get:
  "type_run a xs = Some a' \<Longrightarrow> unat h < type_len a \<Longrightarrow> (\<And>x. x \<in> set xs \<Longrightarrow> \<not> touches h x) \<Longrightarrow>
    type_get a' h = type_get a h \<and> builtins a' = builtins a \<and> type_len a \<le> type_len a'"
proof (induction xs arbitrary: a)
  case (Cons x xs)
  then obtain a1 where a1: "type_step a x = Some a1" "type_run a1 xs = Some a'"
    by (auto split: Option.bind_splits)
  show ?case using Cons.IH [OF a1(2)] Cons.prems type_step_get [OF a1(1), of h] by auto
qed simp

section \<open>Interned builtins\<close>

lemma intern_kinds: "kinds (foldl intern_builtin a bs) = kinds a @ map TkBuiltin bs"
  by (induction bs arbitrary: a) (simp_all add: intern_builtin_def type_alloc_def)

lemma intern_resolves:
  assumes "distinct bs" "length (kinds a) + length bs \<le> 2 ^ 32" "b \<in> set bs"
  shows "\<exists>h. builtins (foldl intern_builtin a bs) b = Some h \<and>
    type_get (foldl intern_builtin a bs) h = Some (TkBuiltin b)"
  using assms
proof (induction bs rule: rev_induct)
  case (snoc c bs)
  let ?a = "foldl intern_builtin a bs"
  have l: "length (kinds ?a) < 2 ^ 32" using snoc.prems(2) by (simp add: intern_kinds)
  have step: "foldl intern_builtin a (bs @ [c]) =
      ?a\<lparr>kinds := kinds ?a @ [TkBuiltin c], builtins := (builtins ?a)(c \<mapsto> handle_at (length (kinds ?a)))\<rparr>"
    by (simp add: intern_builtin_def type_alloc_def)
  show ?case
  proof (cases "b = c")
    case True
    then show ?thesis unfolding step using slot_get_new [OF l] by (simp add: type_get_def)
  next
    case False
    then obtain h where "builtins ?a b = Some h" "type_get ?a h = Some (TkBuiltin b)"
      using snoc by auto
    then show ?thesis unfolding step using False
      by (auto simp: type_get_def slot_get_Some_iff nth_append)
  qed
qed simp

lemma all_builtins_complete: "b \<in> set all_builtins" "distinct all_builtins"
  by (cases b; simp add: all_builtins_def) (simp add: all_builtins_def)

lemma arena_new_builtin:
  "\<exists>h. builtins type_arena_new b = Some h \<and> type_get type_arena_new h = Some (TkBuiltin b)"
  unfolding type_arena_new_def intern_builtins_def
  by (rule intern_resolves) (simp_all add: all_builtins_complete, simp add: all_builtins_def)

lemma arena_new_len: "type_len type_arena_new = length all_builtins"
  by (simp add: type_arena_new_def intern_builtins_def type_len_def intern_kinds)

text \<open>
  (builtins stay): whatever sequence of allocations and patches of non-builtin slots the
  analysis performs, every builtin keeps a handle of its own that reads back as that builtin.
\<close>

theorem builtins_always_resolve:
  assumes "type_run type_arena_new xs = Some a"
    and "\<forall>x \<in> set xs. \<forall>h. touches h x \<longrightarrow> length all_builtins \<le> unat h"
  shows "\<exists>h. arena_builtin a b = Some h \<and> type_get a h = Some (TkBuiltin b) \<and>
    (\<forall>c. arena_builtin a c = Some h \<longrightarrow> c = b)"
proof -
  have r: "\<exists>h. arena_builtin a c = Some h \<and> type_get a h = Some (TkBuiltin c)" for c
  proof -
    obtain h where h: "builtins type_arena_new c = Some h" "type_get type_arena_new h = Some (TkBuiltin c)"
      using arena_new_builtin by blast
    then have l: "unat h < type_len type_arena_new"
      using types.get_defined [of type_arena_new h] by (auto simp: not_le)
    moreover from this have "\<not> touches h x" if "x \<in> set xs" for x
      using assms(2) that l unfolding arena_new_len by (meson not_le)
    ultimately show ?thesis
      using type_run_get [OF assms(1) l] h by (auto simp: arena_builtin_def)
  qed
  then show ?thesis by (metis option.inject type_kind.inject(1))
qed

theorem builtins_always_resolve_witness:
  "\<exists>a h. type_run type_arena_new [OpAlloc TkUnresolved, OpSet 37 (TkPointer 2)] = Some a \<and>
     arena_builtin a BSysBitset = Some h \<and> type_get a h = Some (TkBuiltin BSysBitset)"
proof -
  let ?xs = "[OpAlloc TkUnresolved, OpSet 37 (TkPointer 2)]"
  have "type_len (snd (type_alloc TkUnresolved type_arena_new)) = 38"
    using types.alloc_slots [OF prod.collapse [symmetric]] by (simp add: arena_new_len all_builtins_def)
  then obtain a where a: "type_run type_arena_new ?xs = Some a"
    using types.put_defined [of 37 "TkPointer 2" "snd (type_alloc TkUnresolved type_arena_new)"] by auto
  have "\<forall>x \<in> set ?xs. \<forall>h. touches h x \<longrightarrow> length all_builtins \<le> unat h"
    by (auto simp: all_builtins_def)
  note builtins_always_resolve [OF a this]
  then show ?thesis using a by blast
qed

text \<open>A forward reference reads its real kind once patched, and nothing else moves.\<close>

lemma forward_reference:
  assumes "type_alloc_unresolved a = (h, a1)" "type_len a < 2 ^ 32"
    and "type_run a1 xs = Some a2" "\<And>x. x \<in> set xs \<Longrightarrow> \<not> touches h x"
    and "type_set h k a2 = Some a3"
  shows "type_get a2 h = Some TkUnresolved" "type_get a3 h = Some k"
    and "j \<noteq> h \<Longrightarrow> type_get a3 j = type_get a2 j"
proof -
  have a1: "type_alloc TkUnresolved a = (h, a1)" using assms(1) by (simp add: type_alloc_unresolved_def)
  have n: "type_get a1 h = Some TkUnresolved" by (rule types.alloc_new [OF a1 assms(2)])
  then have "unat h < type_len a1" using types.get_defined [of a1 h] by (auto simp: not_le)
  then show "type_get a2 h = Some TkUnresolved" using type_run_get [OF assms(3) _ assms(4)] n by auto
qed (use types.put_get [OF assms(5)] in auto)

text \<open>Handles wrap: after \<open>2 ^ 32\<close> types the next one is given the handle of \<open>BOOLEAN\<close>.\<close>

lemma alloc_wraps: "type_len a = 2 ^ 32 \<Longrightarrow> fst (type_alloc k a) = 0"
  by (simp add: type_alloc_def type_len_def handle_at_def)

section \<open>Builtins by name\<close>

text \<open>An order in which the hash map of builtins may be iterated.\<close>

definition iteration_order :: "builtin list \<Rightarrow> bool" where
  "iteration_order bs \<longleftrightarrow> distinct bs \<and> set bs = UNIV"

definition shared_names :: "string set" where
  "shared_names = {''ADDRESS'', ''BYTE'', ''WORD'', ''BITSET''}"

fun name_twin :: "builtin \<Rightarrow> builtin" where
  "name_twin BAddress = BSysAddress" | "name_twin BSysAddress = BAddress"
| "name_twin BByte = BSysByte" | "name_twin BSysByte = BByte"
| "name_twin BWord = BSysWord" | "name_twin BSysWord = BWord"
| "name_twin BBitset = BSysBitset" | "name_twin BSysBitset = BBitset"
| "name_twin b = b"

lemma name_twin: "builtin_name (name_twin b) = builtin_name b"
    "builtin_name b \<in> shared_names \<longleftrightarrow> name_twin b \<noteq> b"
  by (cases b; simp add: shared_names_def)+

lemma builtin_name_inj: "builtin_name b = builtin_name c \<Longrightarrow> c = b \<or> c = name_twin b"
  by (cases b; cases c; simp)

lemma find_order:
  assumes "iteration_order order" "builtin_name b = n"
  obtains c where "find (\<lambda>b. builtin_name b = n) order = Some c" "builtin_name c = n"
proof (cases "find (\<lambda>b. builtin_name b = n) order")
  case None
  then show ?thesis using assms by (auto simp: find_None_iff iteration_order_def)
next
  case (Some c)
  then show ?thesis using that by (auto simp: find_Some_iff)
qed

definition order_from :: "builtin \<Rightarrow> builtin list" where
  "order_from b = b # remove1 b all_builtins"

lemma order_from: "iteration_order (order_from b)"
  using all_builtins_complete by (auto simp: iteration_order_def order_from_def set_remove1_eq)

lemma builtin_by_name_from:
  "builtin_by_name (order_from b) a (builtin_name b) = builtins a b"
  by (simp add: builtin_by_name_def order_from_def)

text \<open>
  (lookup by name): looking a builtin up by its source name gives the same type for every
  iteration order of the hash map exactly if the name is not one of the four that two builtins share
  (\<open>ADDRESS\<close>, \<open>BYTE\<close>, \<open>WORD\<close>, \<open>BITSET\<close>).
\<close>

theorem builtin_by_name_deterministic:
  "(\<forall>o1 o2. iteration_order o1 \<longrightarrow> iteration_order o2 \<longrightarrow>
      builtin_by_name o1 type_arena_new n = builtin_by_name o2 type_arena_new n) \<longleftrightarrow> n \<notin> shared_names"
proof
  assume same: "\<forall>o1 o2. iteration_order o1 \<longrightarrow> iteration_order o2 \<longrightarrow>
    builtin_by_name o1 type_arena_new n = builtin_by_name o2 type_arena_new n"
  show "n \<notin> shared_names"
  proof
    assume "n \<in> shared_names"
    then obtain b where b: "builtin_name b = n" "name_twin b \<noteq> b"
      using that [of BAddress] that [of BByte] that [of BWord] that [of BBitset]
      by (auto simp: shared_names_def)
    have "builtins type_arena_new b = builtins type_arena_new (name_twin b)"
      using same order_from [of b] order_from [of "name_twin b"] b(1) name_twin(1) [of b]
        builtin_by_name_from [of b type_arena_new] builtin_by_name_from [of "name_twin b" type_arena_new]
      by metis
    then show False
      using arena_new_builtin [of b] arena_new_builtin [of "name_twin b"] b(2) by auto
  qed
next
  assume n: "n \<notin> shared_names"
  have eq: "find (\<lambda>b. builtin_name b = n) o1 = find (\<lambda>b. builtin_name b = n) o2"
    if ords: "iteration_order o1" "iteration_order o2" for o1 o2
  proof (cases "\<exists>b. builtin_name b = n")
    case True
    then obtain b where b: "builtin_name b = n" by blast
    obtain c where c: "find (\<lambda>b. builtin_name b = n) o1 = Some c" "builtin_name c = n"
      using find_order [OF ords(1) b] .
    obtain d where d: "find (\<lambda>b. builtin_name b = n) o2 = Some d" "builtin_name d = n"
      using find_order [OF ords(2) b] .
    have "d = c" using builtin_name_inj [of c d] c(2) d(2) name_twin(2) [of c] n by auto
    then show ?thesis using c d by simp
  next
    case False
    then show ?thesis by (simp add: find_None_iff [THEN iffD2])
  qed
  show "\<forall>o1 o2. iteration_order o1 \<longrightarrow> iteration_order o2 \<longrightarrow>
      builtin_by_name o1 type_arena_new n = builtin_by_name o2 type_arena_new n"
    unfolding builtin_by_name_def using eq by metis
qed

theorem builtin_by_name_deterministic_witness:
  "\<exists>o1 o2. iteration_order o1 \<and> iteration_order o2 \<and>
     builtin_by_name o1 type_arena_new ''WORD'' \<noteq> builtin_by_name o2 type_arena_new ''WORD''"
  using builtin_by_name_deterministic [of "''WORD''"] by (auto simp: shared_names_def)

section \<open>Families\<close>

text \<open>The family a builtin belongs to, by a representative.\<close>

fun family :: "builtin \<Rightarrow> builtin" where
  "family BCardinal8 = BCardinal" | "family BCardinal16 = BCardinal" | "family BCardinal32 = BCardinal"
| "family BCardinal64 = BCardinal" | "family BLongCard = BCardinal"
| "family BInteger8 = BInteger" | "family BInteger16 = BInteger" | "family BInteger32 = BInteger"
| "family BInteger64 = BInteger" | "family BLongInt = BInteger"
| "family BLongReal = BReal" | "family BLongComplex = BComplex"
| "family BAchar = BChar" | "family BUchar = BChar"
| "family BAdrint = BAddress" | "family BAdrcard = BAddress" | "family BSysAddress = BAddress"
| "family BNil = BAddress"
| "family b = b"

lemma same_family_iff: "is_same_family a b \<longleftrightarrow> family a = family b"
  by (cases a; cases b; simp add: is_same_family_def)

text \<open>
  (families): \<open>is_same_family\<close> is an equivalence relation, although its arms are listed pair by
  pair: assignment between scalar builtins is symmetric and composes.
\<close>

theorem same_family_equivalence:
  "equivp is_same_family \<and> \<not> is_same_family BInteger BCardinal \<and> is_same_family BNil BAdrcard"
  by (auto simp: equivp_def same_family_iff fun_eq_iff)

section \<open>Ordinal bounds\<close>

text \<open>The edges \<open>ordinal_bounds\<close> follows: from a set type to its element type.\<close>

definition element_of :: "type_arena \<Rightarrow> type_id \<Rightarrow> type_id \<Rightarrow> bool" where
  "element_of a b ty \<longleftrightarrow> (\<exists>p. type_get a ty = Some (TkSet p b))"

lemma ordinal_bounds_set: "type_get a ty = Some (TkSet p b) \<Longrightarrow> ordinal_bounds a ty = ordinal_bounds a b"
  by (subst ordinal_bounds.simps) simp

lemma ordinal_bounds_not_set:
  "(\<And>p b. type_get a ty \<noteq> Some (TkSet p b)) \<Longrightarrow> ordinal_bounds a ty \<noteq> None"
  by (subst ordinal_bounds.simps) (auto split: option.splits type_kind.splits)

lemma ordinal_bounds_accp: "Wellfounded.accp (element_of a) ty \<Longrightarrow> ordinal_bounds a ty \<noteq> None"
proof (induction rule: accp.induct)
  case (accI ty)
  show ?case
  proof (cases "\<exists>p b. type_get a ty = Some (TkSet p b)")
    case True
    then obtain p b where t: "type_get a ty = Some (TkSet p b)" by blast
    then show ?thesis using accI ordinal_bounds_set [OF t] by (auto simp: element_of_def)
  qed (use ordinal_bounds_not_set in blast)
qed

lemma ordinal_bounds_returns_accp: "ordinal_bounds a ty = Some r \<Longrightarrow> Wellfounded.accp (element_of a) ty"
proof (erule ordinal_bounds.raw_induct [rotated])
  fix f :: "type_arena \<Rightarrow> type_id \<Rightarrow> ordinal_range option" and a ty r
  assume ih: "\<And>a ty r. f a ty = Some r \<Longrightarrow> Wellfounded.accp (element_of a) ty"
    and r: "(case type_get a ty of
        None \<Rightarrow> Some (Inl IndexOutOfBounds)
      | Some k \<Rightarrow>
          (case k of
             TkSubrange host lo hi \<Rightarrow> Some (Inr (Some (lo, hi)))
           | TkEnum n ns vs \<Rightarrow> Some (Inr (enum_bounds vs))
           | TkSet p base \<Rightarrow> f a base
           | TkBuiltin b \<Rightarrow> Some (Inr (builtin_ordinal_bounds b))
           | _ \<Rightarrow> Some (Inr None))) = Some r"
  show "Wellfounded.accp (element_of a) ty"
  proof (rule accp.accI)
    fix b assume "element_of a b ty"
    then show "Wellfounded.accp (element_of a) b" using ih r by (auto simp: element_of_def)
  qed
qed

text \<open>
  (termination): \<open>ordinal_bounds\<close> returns exactly on the types from which the chain of element
  types is finite. A type that is a set of itself sends the compiler into unbounded recursion; on
  an arena whose sets have non-set elements it always returns.
\<close>

theorem ordinal_bounds_terminates_iff:
  "ordinal_bounds a ty \<noteq> None \<longleftrightarrow> Wellfounded.accp (element_of a) ty"
  using ordinal_bounds_accp ordinal_bounds_returns_accp by (metis not_None_eq)

lemma self_set_diverges: "type_get a ty = Some (TkSet p ty) \<Longrightarrow> ordinal_bounds a ty = None"
proof -
  assume t: "type_get a ty = Some (TkSet p ty)"
  have "Wellfounded.accp (element_of a) x \<Longrightarrow> x \<noteq> ty" for x
    by (induction rule: accp.induct) (use t in \<open>auto simp: element_of_def\<close>)
  then have "\<not> Wellfounded.accp (element_of a) ty" by blast
  then show ?thesis using ordinal_bounds_returns_accp by (metis not_None_eq)
qed

text \<open>Bits and signedness of the representation codegen gives an ordinal builtin.\<close>

fun machine_bits :: "builtin \<Rightarrow> nat" where
  "machine_bits BBoolean = 1"
| "machine_bits BAchar = 8" | "machine_bits BByte = 8" | "machine_bits BSysByte = 8"
| "machine_bits BSysLoc = 8" | "machine_bits BInteger8 = 8" | "machine_bits BCardinal8 = 8"
| "machine_bits BBitset = 8" | "machine_bits BSysBitset = 8"
| "machine_bits BChar = 16" | "machine_bits BUchar = 16" | "machine_bits BWord = 16"
| "machine_bits BInteger16 = 16" | "machine_bits BCardinal16 = 16"
| "machine_bits BInteger32 = 32" | "machine_bits BCardinal32 = 32" | "machine_bits BDword = 32"
| "machine_bits b = 64"

lemma builtin_range:
  "builtin_ordinal_bounds b = Some (lo, hi) \<Longrightarrow>
    hi - lo + 1 = 2 ^ machine_bits b \<and> (lo = 0 \<or> lo = - (2 ^ (machine_bits b - 1)) \<and> hi = 2 ^ (machine_bits b - 1) - 1)"
  by (cases b) (auto simp: builtin_ordinal_bounds_def)

lemma ordinal_has_bounds: "is_ordinal b \<Longrightarrow> builtin_ordinal_bounds b \<noteq> None"
  by (auto simp: is_ordinal_def builtin_ordinal_bounds_def)

text \<open>Builtins with bounds that do not count as ordinals, among them the \<open>SYSTEM\<close> spellings.\<close>

lemma bounded_not_ordinal:
  "builtin_ordinal_bounds b \<noteq> None \<and> \<not> is_ordinal b \<longleftrightarrow>
    b \<in> {BBitset, BSysAddress, BSysLoc, BSysByte, BSysBitset}"
  by (cases b) (simp_all add: is_ordinal_def builtin_ordinal_bounds_def)

text \<open>
  (cardinality): whenever the bounds of a type are known, its cardinality is the number of
  values between them, unless that number leaves 128 bits; and an ordinal builtin of width \<open>w\<close> has
  exactly \<open>2 ^ w\<close> values, unsigned from 0 or signed in two's complement.
\<close>

theorem ordinal_cardinality_counts:
  assumes "ordinal_bounds a ty = Some (Inr (Some (lo, hi)))" "lo \<le> hi" "hi - lo < i128_max"
  shows "ordinal_cardinality a ty = Some (Inr (Some (int (card {lo..hi})))) \<and>
    (\<forall>b. type_get a ty = Some (TkBuiltin b) \<longrightarrow> card {lo..hi} = 2 ^ machine_bits b)"
proof
  have "checked (hi - lo) = Some (hi - lo)" "checked (hi - lo + 1) = Some (hi - lo + 1)"
    using assms(2,3) by (simp_all add: checked_def in_i128_def i128_min_def)
  then show "ordinal_cardinality a ty = Some (Inr (Some (int (card {lo..hi}))))"
    using assms by (simp add: ordinal_cardinality_def range_size_def)
  show "\<forall>b. type_get a ty = Some (TkBuiltin b) \<longrightarrow> card {lo..hi} = 2 ^ machine_bits b"
  proof (intro allI impI)
    fix b assume "type_get a ty = Some (TkBuiltin b)"
    then have "builtin_ordinal_bounds b = Some (lo, hi)"
      using assms(1) by (subst (asm) ordinal_bounds.simps) simp
    from builtin_range [OF this] have "int (card {lo..hi}) = 2 ^ machine_bits b"
      using assms(2) by simp
    then have "int (card {lo..hi}) = int (2 ^ machine_bits b)" by simp
    then show "card {lo..hi} = 2 ^ machine_bits b" by (simp only: of_nat_eq_iff)
  qed
qed

theorem ordinal_cardinality_counts_witness:
  "ordinal_cardinality \<lparr>kinds = [TkBuiltin BInteger8], builtins = Map.empty\<rparr> 0 = Some (Inr (Some 256))"
proof -
  let ?a = "\<lparr>kinds = [TkBuiltin BInteger8], builtins = Map.empty\<rparr>"
  have "ordinal_bounds ?a 0 = Some (Inr (Some (- 128, 127)))"
    by (subst ordinal_bounds.simps) (simp add: type_get_def slot_get_def get_at_def builtin_ordinal_bounds_def)
  then show ?thesis using ordinal_cardinality_counts [of ?a 0 "- 128" 127] by (simp add: i128_max_def)
qed

section \<open>Record layouts\<close>

text \<open>Every declared field and a named tag appear once, in declaration order.\<close>

lemma flatten_fields_length:
  "length (flatten_fields l) = length (rl_fields l) +
     (case rl_variant l of
        None \<Rightarrow> 0
      | Some v \<Rightarrow> (if tag_field v = None then 0 else 1) +
          sum_list (map (length \<circ> arm_fields) (var_arms v)) + length (else_fields v))"
  by (auto simp: flatten_fields_def length_concat comp_def split: option.splits)

end
