(* ===== verification/Scopes.thy ===== *)
theory Scopes
  imports Types
begin

text \<open>
  The symbol table (\<open>newm2-sema/src/scope.rs\<close>): symbols with their provenance, one scope per
  syntactic block, the arena of scopes linked by parents and the two lookups that walk the links.
  A \<open>HashMap\<close> that is only read by key is a map; the insertion-ordered vector beside it is a list.
\<close>

type_synonym scope_id = u32
type_synonym module_id = nat
type_synonym class_symbol_id = u32

section \<open>Procedure signatures\<close>

datatype calling_conv = CcDefault | CcWindows | CcCdecl | CcAsm
datatype proc_attr_kind = PaInline | PaNoOptimize | PaVarargs

record proc_external_linkage =
  link_name :: string
  dll_name :: "string option"
  is_external :: bool

record named_param =
  np_name :: "string option"
  np_mode :: param_mode
  np_ty :: type_id

record proc_sig =
  sig_params :: "named_param list"
  sig_return :: "type_id option"
  sig_conv :: calling_conv
  sig_attrs :: "proc_attr_kind list"
  sig_linkage :: "proc_external_linkage option"

definition type_compatible :: "proc_sig \<Rightarrow> proc_sig \<Rightarrow> bool" where
  "type_compatible s t =
     (if sig_return s \<noteq> sig_return t then False
      else if length (sig_params s) \<noteq> length (sig_params t) then False
      else list_all (\<lambda>(p, q). np_mode p = np_mode q \<and> np_ty p = np_ty q) (zip (sig_params s) (sig_params t)))"

section \<open>Symbols\<close>

record import_hop =
  hop_module :: module_id
  hop_module_name :: string
  hop_span :: span

datatype provenance =
    PvPervasive
  | PvDeclared module_id string
  | PvImported module_id string "module_id option" "string option" string span "import_hop list"
  | PvIntrinsic module_id string

fun declaring_module :: "provenance \<Rightarrow> (module_id \<times> string) option" where
  "declaring_module PvPervasive = None"
| "declaring_module (PvDeclared m n) = Some (m, n)"
| "declaring_module (PvIntrinsic m n) = Some (m, n)"
| "declaring_module (PvImported fm fn om on orig sp ch) =
     (case (om, on) of (Some m, Some n) \<Rightarrow> Some (m, n) | _ \<Rightarrow> None)"

fun import_chain :: "provenance \<Rightarrow> import_hop list" where
  "import_chain (PvImported fm fn om on orig sp ch) = ch"
| "import_chain _ = []"

fun immediate_import :: "provenance \<Rightarrow> import_hop option" where
  "immediate_import (PvImported fm fn om on orig sp ch) = get_at ch 0"
| "immediate_import _ = None"

fun root_name :: "provenance \<Rightarrow> string option" where
  "root_name (PvImported fm fn om on orig sp ch) = Some orig"
| "root_name _ = None"

fun is_imported :: "provenance \<Rightarrow> bool" where
  "is_imported (PvImported fm fn om on orig sp ch) = True"
| "is_imported _ = False"

datatype symbol_kind =
    SkConst type_id const_value
  | SkType type_id
  | SkVar type_id "param_mode option"
  | SkProc proc_sig
  | SkModule module_id scope_id
  | SkClass class_symbol_id
  | SkEnumMember type_id int

fun kind_name :: "symbol_kind \<Rightarrow> string" where
  "kind_name (SkConst t v) = ''constant''"
| "kind_name (SkType t) = ''type''"
| "kind_name (SkVar t m) = ''variable''"
| "kind_name (SkProc s) = ''procedure''"
| "kind_name (SkModule m s) = ''module''"
| "kind_name (SkClass c) = ''class''"
| "kind_name (SkEnumMember t n) = ''enumeration member''"

record symbol =
  sym_name :: string
  sym_kind :: symbol_kind
  sym_span :: span
  declaration_id :: u32
  binding_id :: u32
  sym_provenance :: provenance
  exported :: bool

text \<open>What an import keeps of the symbol it imports: origin, original name, hops so far.\<close>

fun import_origin :: "symbol \<Rightarrow> provenance \<Rightarrow> module_id option \<times> string option \<times> string \<times> import_hop list" where
  "import_origin s (PvImported fm fn om on orig sp ch) = (om, on, orig, ch)"
| "import_origin s (PvIntrinsic m n) = (Some m, Some n, sym_name s, [])"
| "import_origin s (PvDeclared m n) = (Some m, Some n, sym_name s, [])"
| "import_origin s PvPervasive = (None, None, sym_name s, [])"

definition imported_from :: "symbol \<Rightarrow> module_id \<Rightarrow> string \<Rightarrow> span \<Rightarrow> u32 \<Rightarrow> symbol" where
  "imported_from s fm fn sp b =
     (let (om, on, orig, ch) = import_origin s (sym_provenance s);
          hop = \<lparr>hop_module = fm, hop_module_name = fn, hop_span = sp\<rparr>
      in s\<lparr>binding_id := b, sym_provenance := PvImported fm fn om on orig sp (hop # ch)\<rparr>)"

section \<open>Scopes\<close>

datatype scope_kind = ScPervasive | ScModule | ScProcedure | ScLocalModule | ScBlock

record scope =
  sc_kind :: scope_kind
  sc_parent :: "scope_id option"
  sc_symbols :: "(string \<times> symbol) list"
  sc_index :: "string \<rightharpoonup> nat"

definition scope_new :: "scope_kind \<Rightarrow> scope_id option \<Rightarrow> scope" where
  "scope_new k p = \<lparr>sc_kind = k, sc_parent = p, sc_symbols = [], sc_index = Map.empty\<rparr>"

definition scope_insert :: "symbol \<Rightarrow> scope \<Rightarrow> scope" where
  "scope_insert symb s =
     (let name = sym_name symb
      in case sc_index s name of
           Some i \<Rightarrow> s\<lparr>sc_symbols := (sc_symbols s)[i := (fst (sc_symbols s ! i), symb)]\<rparr>
         | None \<Rightarrow>
             s\<lparr>sc_symbols := sc_symbols s @ [(name, symb)],
               sc_index := (sc_index s)(name \<mapsto> length (sc_symbols s))\<rparr>)"

definition scope_get :: "scope \<Rightarrow> string \<Rightarrow> symbol option" where
  "scope_get s name = map_option (\<lambda>i. snd (sc_symbols s ! i)) (sc_index s name)"

text \<open>\<open>get_mut\<close> and a write through the reference it returns.\<close>

definition scope_update :: "string \<Rightarrow> (symbol \<Rightarrow> symbol) \<Rightarrow> scope \<Rightarrow> scope" where
  "scope_update name f s =
     (case sc_index s name of
        None \<Rightarrow> s
      | Some i \<Rightarrow> s\<lparr>sc_symbols := (sc_symbols s)[i := (fst (sc_symbols s ! i), f (snd (sc_symbols s ! i)))]\<rparr>)"

definition symbol_count :: "scope \<Rightarrow> nat" where
  "symbol_count s = length (sc_symbols s)"

definition scope_iter :: "scope \<Rightarrow> symbol list" where
  "scope_iter s = map snd (sc_symbols s)"

section \<open>The arena of scopes\<close>

record scope_arena =
  scopes :: "scope list"

definition scope_arena_new :: scope_arena where
  "scope_arena_new = \<lparr>scopes = []\<rparr>"

definition scope_push :: "scope_kind \<times> scope_id option \<Rightarrow> scope_arena \<Rightarrow> scope_id \<times> scope_arena" where
  "scope_push kp a = (handle_at (length (scopes a)), a\<lparr>scopes := scopes a @ [scope_new (fst kp) (snd kp)]\<rparr>)"

definition scope_at :: "scope_arena \<Rightarrow> scope_id \<Rightarrow> scope option" where
  "scope_at a h = slot_get (scopes a) h"

definition scope_modify :: "scope_id \<Rightarrow> (scope \<Rightarrow> scope) \<Rightarrow> scope_arena \<Rightarrow> scope_arena option" where
  "scope_modify h f a = map_option (\<lambda>ss. a\<lparr>scopes := ss\<rparr>) (slot_put (scopes a) h f)"

text \<open>
  The walks along parent links. The loops have no bound of their own: the outer option says whether
  they return, the sum whether a dangling handle panics, the inner option is the answer.
\<close>

partial_function (option) lookup :: "scope_arena \<Rightarrow> scope_id \<Rightarrow> string \<Rightarrow> (type_panic + symbol option) option" where
  "lookup a h name =
     (case scope_at a h of
        None \<Rightarrow> Some (Inl IndexOutOfBounds)
      | Some s \<Rightarrow>
          (case scope_get s name of
             Some symb \<Rightarrow> Some (Inr (Some symb))
           | None \<Rightarrow>
               (case sc_parent s of
                  None \<Rightarrow> Some (Inr None)
                | Some p \<Rightarrow> lookup a p name)))"

definition at_module_level :: "scope \<Rightarrow> bool" where
  "at_module_level s \<longleftrightarrow> sc_kind s = ScModule \<or> sc_kind s = ScPervasive"

partial_function (option) lookup_module_level ::
  "scope_arena \<Rightarrow> scope_id \<Rightarrow> string \<Rightarrow> (type_panic + symbol option) option" where
  "lookup_module_level a h name =
     (case scope_at a h of
        None \<Rightarrow> Some (Inl IndexOutOfBounds)
      | Some s \<Rightarrow>
          (case (if at_module_level s then scope_get s name else None) of
             Some symb \<Rightarrow> Some (Inr (Some symb))
           | None \<Rightarrow>
               (case sc_parent s of
                  None \<Rightarrow> Some (Inr None)
                | Some p \<Rightarrow> lookup_module_level a p name)))"

end
