(* ===== verification/ScopesSpec.thy ===== *)
theory ScopesSpec
  imports Scopes TypesSpec
begin

text \<open>
  What the symbol table promises (\<open>newm2-sema/src/scope.rs\<close>): a scope is the map its insertions
  denote, iterated in the order names were first inserted; the lookups return the first match along
  the parent links and always return; imports keep a symbol's origin and record every hop.
\<close>

section \<open>Keyed tables that remember insertion order\<close>

locale ordered_table =
  fixes inv :: "'t \<Rightarrow> bool" and insert_in :: "'v \<Rightarrow> 't \<Rightarrow> 't" and find_in :: "'t \<Rightarrow> 'k \<Rightarrow> 'v option"
    and keys :: "'t \<Rightarrow> 'k list" and key :: "'v \<Rightarrow> 'k"
  assumes inv_insert: "inv t \<Longrightarrow> inv (insert_in y t)"
    and find_insert: "inv t \<Longrightarrow> find_in (insert_in y t) n = (if n = key y then Some y else find_in t n)"
    and keys_insert: "inv t \<Longrightarrow> keys (insert_in y t) = (if key y \<in> set (keys t) then keys t else keys t @ [key y])"
    and find_keys: "inv t \<Longrightarrow> find_in t n \<noteq> None \<longleftrightarrow> n \<in> set (keys t)"
begin

lemma inv_inserts: "inv t \<Longrightarrow> inv (fold insert_in ys t)"
  by (induction ys arbitrary: t) (simp_all add: inv_insert)

lemma find_inserts:
  "inv t \<Longrightarrow> find_in (fold insert_in ys t) n =
     (case map_of (rev (map (\<lambda>y. (key y, y)) ys)) n of Some y \<Rightarrow> Some y | None \<Rightarrow> find_in t n)"
  by (induction ys arbitrary: t) (auto simp: inv_insert find_insert map_add_def split: option.splits)

lemma keys_inserts:
  "inv t \<Longrightarrow> distinct (keys t) \<Longrightarrow> keys (fold insert_in ys t) = rev (remdups (rev (keys t @ map key ys)))"
proof (induction ys arbitrary: t)
  case Nil
  then show ?case by (simp add: distinct_remdups_id)
next
  case (Cons y ys)
  have r: "rev (remdups (rev (ks @ [k] @ zs))) = rev (remdups (rev (ks @ zs)))" if "k \<in> set ks" for ks zs :: "'k list" and k
  proof -
    have "remdups (us @ k # rev ks) = remdups (us @ rev ks)" for us
      using that by (induction us) auto
    then show ?thesis by simp
  qed
  then show ?case using Cons inv_insert keys_insert by (cases "key y \<in> set (keys t)") simp_all
qed

lemma keys_are_those_inserted:
  "inv t \<Longrightarrow> set (keys (fold insert_in ys t)) = set (keys t) \<union> key ` set ys"
  by (induction ys arbitrary: t) (auto simp: inv_insert keys_insert)

end

section \<open>A scope is such a table\<close>

definition scope_keys :: "scope \<Rightarrow> string list" where
  "scope_keys s = map fst (sc_symbols s)"

definition scope_inv :: "scope \<Rightarrow> bool" where
  "scope_inv s \<longleftrightarrow>
     (\<forall>n i. sc_index s n = Some i \<longleftrightarrow> i < length (sc_symbols s) \<and> fst (sc_symbols s ! i) = n) \<and>
     (\<forall>p \<in> set (sc_symbols s). sym_name (snd p) = fst p)"

lemma scope_inv_new [simp]: "scope_inv (scope_new k p)"
  by (simp add: scope_inv_def scope_new_def)

lemma scope_new_empty [simp]: "scope_keys (scope_new k p) = []" "scope_get (scope_new k p) n = None"
  by (simp_all add: scope_keys_def scope_get_def scope_new_def)

lemma scope_inv_nth: "scope_inv s \<Longrightarrow> i < length (sc_symbols s) \<Longrightarrow> sc_index s (fst (sc_symbols s ! i)) = Some i"
  by (simp add: scope_inv_def)

lemma scope_inv_index:
  "scope_inv s \<Longrightarrow> sc_index s n = Some i \<Longrightarrow> i < length (sc_symbols s) \<and> fst (sc_symbols s ! i) = n"
  by (simp add: scope_inv_def)

lemma scope_inv_distinct: "scope_inv s \<Longrightarrow> distinct (scope_keys s)"
  using scope_inv_nth by (auto simp: distinct_conv_nth scope_keys_def) (metis option.inject)

lemma scope_inv_names: "scope_inv s \<Longrightarrow> map sym_name (scope_iter s) = scope_keys s"
  by (auto simp: scope_inv_def scope_iter_def scope_keys_def)

lemma scope_inv_update:
  assumes "scope_inv s" "sc_index s n = Some i" "sym_name y = n"
  shows "scope_inv (s\<lparr>sc_symbols := (sc_symbols s)[i := (fst (sc_symbols s ! i), y)]\<rparr>)"
  using assms scope_inv_index [OF assms(1,2)]
  by (auto simp: scope_inv_def nth_list_update dest!: set_update_subset_insert [THEN subsetD])

lemma scope_insert_new:
  "sc_index s (sym_name y) = None \<Longrightarrow> scope_insert y s =
    s\<lparr>sc_symbols := sc_symbols s @ [(sym_name y, y)],
      sc_index := (sc_index s)(sym_name y \<mapsto> length (sc_symbols s))\<rparr>"
  by (simp add: scope_insert_def Let_def)

lemma scope_insert_old:
  "sc_index s (sym_name y) = Some i \<Longrightarrow> scope_insert y s =
    s\<lparr>sc_symbols := (sc_symbols s)[i := (fst (sc_symbols s ! i), y)]\<rparr>"
  by (simp add: scope_insert_def Let_def)

lemma scope_inv_insert: "scope_inv s \<Longrightarrow> scope_inv (scope_insert y s)"
proof (cases "sc_index s (sym_name y)")
  case None
  assume i: "scope_inv s"
  then have "\<And>j. j < length (sc_symbols s) \<Longrightarrow> fst (sc_symbols s ! j) \<noteq> sym_name y"
    using None scope_inv_nth by fastforce
  then show ?thesis using i unfolding scope_insert_new [OF None]
    by (auto simp: scope_inv_def nth_append less_Suc_eq)
next
  case (Some i)
  assume "scope_inv s"
  then show ?thesis using Some scope_inv_update by (simp add: scope_insert_old)
qed

lemma scope_get_insert:
  assumes "scope_inv s"
  shows "scope_get (scope_insert y s) n = (if n = sym_name y then Some y else scope_get s n)"
proof (cases "sc_index s (sym_name y)")
  case None
  then show ?thesis
    using scope_inv_index [OF assms, of n] unfolding scope_insert_new [OF None] scope_get_def
    by (cases "sc_index s n") (auto simp: nth_append)
next
  case (Some i)
  then show ?thesis
    using scope_inv_index [OF assms, of n] scope_inv_index [OF assms Some]
    unfolding scope_insert_old [OF Some] scope_get_def
    by (cases "sc_index s n") (auto simp: nth_list_update)
qed

lemma scope_get_keys: "scope_inv s \<Longrightarrow> scope_get s n \<noteq> None \<longleftrightarrow> n \<in> set (scope_keys s)"
proof -
  assume s: "scope_inv s"
  have "scope_get s n \<noteq> None \<longleftrightarrow> (\<exists>i. sc_index s n = Some i)" by (simp add: scope_get_def)
  also have "\<dots> \<longleftrightarrow> (\<exists>i < length (scope_keys s). scope_keys s ! i = n)"
    using s by (auto simp: scope_inv_def scope_keys_def)
  finally show ?thesis by (simp add: in_set_conv_nth)
qed

lemma scope_keys_insert:
  assumes "scope_inv s"
  shows "scope_keys (scope_insert y s) =
    (if sym_name y \<in> set (scope_keys s) then scope_keys s else scope_keys s @ [sym_name y])"
proof (cases "sc_index s (sym_name y)")
  case None
  then show ?thesis using scope_get_keys [OF assms, of "sym_name y"]
    by (simp add: scope_get_def scope_insert_new scope_keys_def)
next
  case (Some i)
  then show ?thesis
    using scope_get_keys [OF assms, of "sym_name y"] scope_inv_index [OF assms Some]
    by (simp add: scope_get_def scope_insert_old scope_keys_def map_update list_update_same_conv)
qed

interpretation symtab: ordered_table scope_inv scope_insert scope_get scope_keys sym_name
  by (unfold_locales; rule scope_inv_insert scope_get_insert scope_keys_insert scope_get_keys; assumption)

text \<open>
  C34 (scope as a map): after any sequence of insertions a scope answers with the symbol last
  inserted under a name, and iterates its symbols in the order their names first appeared.
\<close>

theorem scope_is_insertion_map:
  "scope_get (fold scope_insert ys (scope_new k p)) n = map_of (rev (map (\<lambda>y. (sym_name y, y)) ys)) n \<and>
   map sym_name (scope_iter (fold scope_insert ys (scope_new k p))) = rev (remdups (rev (map sym_name ys))) \<and>
   symbol_count (fold scope_insert ys (scope_new k p)) = card (sym_name ` set ys)"
proof -
  let ?s = "fold scope_insert ys (scope_new k p)"
  have i: "scope_inv ?s" by (rule symtab.inv_inserts) simp
  have k: "scope_keys ?s = rev (remdups (rev (map sym_name ys)))"
    using symtab.keys_inserts [of "scope_new k p" ys] by simp
  have "symbol_count ?s = length (scope_keys ?s)" by (simp add: symbol_count_def scope_keys_def)
  also have "\<dots> = card (sym_name ` set ys)" by (simp add: k length_remdups_card_conv)
  finally show ?thesis
    using symtab.find_inserts [of "scope_new k p" ys n] scope_inv_names [OF i] k
    by (simp split: option.splits)
qed

text \<open>A write through \<open>get_mut\<close> that keeps the name changes that symbol only.\<close>

lemma scope_update_inv:
  assumes "scope_inv s" "\<And>y. sym_name (f y) = sym_name y"
  shows "scope_inv (scope_update n f s)"
proof (cases "sc_index s n")
  case None
  then show ?thesis using assms(1) by (simp add: scope_update_def)
next
  case (Some i)
  have "sym_name (snd (sc_symbols s ! i)) = n"
    using assms(1) scope_inv_index [OF assms(1) Some] unfolding scope_inv_def by (metis nth_mem)
  then show ?thesis using scope_inv_update [OF assms(1) Some] assms(2) Some by (simp add: scope_update_def)
qed

lemma scope_get_update:
  "scope_inv s \<Longrightarrow> scope_get (scope_update n f s) m = (if m = n then map_option f (scope_get s n) else scope_get s m)"
  using scope_inv_index [of s n] scope_inv_index [of s m]
  by (cases "sc_index s m") (auto simp: scope_update_def scope_get_def nth_list_update split: option.splits)

section \<open>The arena and its links\<close>

interpretation scope_slots: arena "\<lambda>a. length (scopes a)" scope_at scope_push
    "\<lambda>kp. scope_new (fst kp) (snd kp)" "\<lambda>h s. scope_modify h (\<lambda>_. s)"
  by unfold_locales
     (auto simp: scope_at_def scope_push_def scope_modify_def slot_put_def slot_get_update slot_get_Some_iff)

lemma scope_at_push:
  assumes "length (scopes a) < 2 ^ 32"
  shows "scope_at (snd (scope_push kp a)) h =
    (if unat h = length (scopes a) then Some (scope_new (fst kp) (snd kp)) else scope_at a h)"
  using assms by (auto simp: scope_push_def scope_at_def slot_get_def get_at_def nth_append)

lemma scope_at_modify:
  "scope_modify h f a = Some a' \<Longrightarrow> scope_at a' j = (if j = h then map_option f (scope_at a h) else scope_at a j)"
  by (auto simp: scope_modify_def scope_at_def slot_get_put)

lemma scope_modify_scopes: "scope_modify h f a = Some a' \<Longrightarrow> length (scopes a') = length (scopes a)"
  by (auto simp: scope_modify_def slot_put_eq)

text \<open>
  The arenas the analyzer can build: a pushed scope has an existing parent, symbols are inserted, and
  a symbol is patched in place without renaming it.
\<close>

inductive scope_reach :: "scope_arena \<Rightarrow> bool" where
  reach_new: "scope_reach scope_arena_new"
| reach_push: "scope_reach a \<Longrightarrow> length (scopes a) < 2 ^ 32 \<Longrightarrow>
    (\<And>q. p = Some q \<Longrightarrow> unat q < length (scopes a)) \<Longrightarrow> scope_reach (snd (scope_push (k, p) a))"
| reach_insert: "scope_reach a \<Longrightarrow> scope_modify h (scope_insert y) a = Some a' \<Longrightarrow> scope_reach a'"
| reach_update: "scope_reach a \<Longrightarrow> (\<And>y. sym_name (f y) = sym_name y) \<Longrightarrow>
    scope_modify h (scope_update n f) a = Some a' \<Longrightarrow> scope_reach a'"

definition arena_inv :: "scope_arena \<Rightarrow> bool" where
  "arena_inv a \<longleftrightarrow> (\<forall>h s. scope_at a h = Some s \<longrightarrow>
     scope_inv s \<and> (\<forall>q. sc_parent s = Some q \<longrightarrow> unat q < unat h))"

lemma arena_inv_modify:
  assumes "arena_inv a" "scope_modify h f a = Some a'"
    and "\<And>s. scope_inv s \<Longrightarrow> scope_inv (f s) \<and> sc_parent (f s) = sc_parent s"
  shows "arena_inv a'"
  using assms(1,3) unfolding arena_inv_def
  by (auto simp: scope_at_modify [OF assms(2)] split: if_splits)

lemma scope_parent_insert [simp]: "sc_parent (scope_insert y s) = sc_parent s"
    "sc_kind (scope_insert y s) = sc_kind s"
  by (simp_all add: scope_insert_def Let_def split: option.splits)

lemma scope_parent_update [simp]: "sc_parent (scope_update n f s) = sc_parent s"
    "sc_kind (scope_update n f s) = sc_kind s"
  by (simp_all add: scope_update_def split: option.splits)

lemma scope_reach_inv: "scope_reach a \<Longrightarrow> arena_inv a"
proof (induction rule: scope_reach.induct)
  case reach_new
  then show ?case by (simp add: arena_inv_def scope_arena_new_def scope_at_def slot_get_def get_at_def)
next
  case (reach_push a p k)
  have "unat q < unat h" if "scope_at (snd (scope_push (k, p) a)) h = Some s" "sc_parent s = Some q" for h s q
    using that reach_push by (auto simp: scope_at_push arena_inv_def scope_new_def split: if_splits)
  moreover have "scope_inv s" if "scope_at (snd (scope_push (k, p) a)) h = Some s" for h s
    using that reach_push by (auto simp: scope_at_push arena_inv_def split: if_splits)
  ultimately show ?case by (auto simp: arena_inv_def)
next
  case (reach_insert a h y a')
  then show ?case using arena_inv_modify scope_inv_insert by (metis scope_parent_insert(1))
next
  case (reach_update a f h n a')
  then show ?case using arena_inv_modify scope_update_inv by (metis scope_parent_update(1))
qed

section \<open>Lookup\<close>

text \<open>A scope and the scopes around it, innermost first.\<close>

inductive encloses :: "scope_arena \<Rightarrow> scope_id \<Rightarrow> scope list \<Rightarrow> bool" where
  outermost: "scope_at a h = Some s \<Longrightarrow> sc_parent s = None \<Longrightarrow> encloses a h [s]"
| nested: "scope_at a h = Some s \<Longrightarrow> sc_parent s = Some p \<Longrightarrow> encloses a p ss \<Longrightarrow> encloses a h (s # ss)"

lemma arena_inv_encloses: "arena_inv a \<Longrightarrow> unat h < length (scopes a) \<Longrightarrow> \<exists>ss. encloses a h ss"
proof (induction "unat h" arbitrary: h rule: less_induct)
  case less
  obtain s where s: "scope_at a h = Some s"
    using less.prems(2) scope_slots.get_defined [of a h] by (cases "scope_at a h") auto
  show ?case
  proof (cases "sc_parent s")
    case None
    then show ?thesis using encloses.outermost [OF s] by blast
  next
    case (Some p)
    then have p: "unat p < unat h" using less.prems(1) s by (auto simp: arena_inv_def)
    then obtain ss where "encloses a p ss" using less.hyps less.prems by (meson less_trans)
    then show ?thesis using encloses.nested [OF s Some] by blast
  qed
qed

definition first_match :: "scope list \<Rightarrow> string \<Rightarrow> symbol option" where
  "first_match ss name = foldr (\<lambda>s r. case scope_get s name of Some y \<Rightarrow> Some y | None \<Rightarrow> r) ss None"

lemma lookup_encloses: "encloses a h ss \<Longrightarrow> lookup a h name = Some (Inr (first_match ss name))"
  by (induction rule: encloses.induct)
     (subst lookup.simps; simp add: first_match_def split: option.splits)+

lemma lookup_module_level_encloses:
  "encloses a h ss \<Longrightarrow>
    lookup_module_level a h name = Some (Inr (first_match (filter at_module_level ss) name))"
  by (induction rule: encloses.induct)
     (subst lookup_module_level.simps; simp add: first_match_def split: option.splits)+

text \<open>
  C5 (lookup): in every arena the analyzer can build, both walks return, without a panic, the
  innermost symbol of that name among the enclosing scopes, the module-level walk skipping the
  procedure, block and local-module scopes.
\<close>

theorem lookup_innermost:
  assumes "scope_reach a" "unat h < length (scopes a)"
  shows "\<exists>ss. encloses a h ss \<and>
    lookup a h name = Some (Inr (first_match ss name)) \<and>
    lookup_module_level a h name = Some (Inr (first_match (filter at_module_level ss) name))"
  using arena_inv_encloses [OF scope_reach_inv [OF assms(1)] assms(2)] lookup_encloses
    lookup_module_level_encloses by metis

text \<open>A small arena: a module scope declaring one variable, a procedure scope inside it.\<close>

definition sample_symbol :: "string \<Rightarrow> symbol" where
  "sample_symbol n =
     \<lparr>sym_name = n, sym_kind = SkType 0, sym_span = \<lparr>span_start = START, span_end = START\<rparr>,
      declaration_id = 0, binding_id = 0, sym_provenance = PvDeclared 0 ''M'', exported = False\<rparr>"

definition sample_arena :: scope_arena where
  "sample_arena = \<lparr>scopes =
     [scope_insert (sample_symbol ''v'') (scope_new ScModule None), scope_new ScProcedure (Some 0)]\<rparr>"

lemma sample_arena_reach: "scope_reach sample_arena"
proof -
  let ?a = "snd (scope_push (ScModule, None) scope_arena_new)"
  have a: "scope_reach ?a" by (rule reach_push [OF reach_new]) (simp_all add: scope_arena_new_def)
  have "scope_modify 0 (scope_insert (sample_symbol ''v'')) ?a =
      Some \<lparr>scopes = [scope_insert (sample_symbol ''v'') (scope_new ScModule None)]\<rparr>"
    by (simp add: scope_modify_def scope_push_def scope_arena_new_def slot_put_def slot_get_def get_at_def)
  from reach_push [OF reach_insert [OF a this], of "Some 0" ScProcedure] show ?thesis
    by (simp add: sample_arena_def scope_push_def)
qed

theorem lookup_innermost_witness:
  "\<exists>ss. encloses sample_arena 1 ss \<and>
     lookup sample_arena 1 ''v'' = Some (Inr (first_match ss ''v'')) \<and> first_match ss ''w'' = None"
proof -
  have l: "unat (1 :: u32) < length (scopes sample_arena)" by (simp add: sample_arena_def)
  obtain ss where ss: "encloses sample_arena 1 ss"
      "lookup sample_arena 1 ''v'' = Some (Inr (first_match ss ''v''))"
    using lookup_innermost [OF sample_arena_reach l, of "''v''"] by blast
  have at: "scope_at sample_arena 1 = Some (scope_new ScProcedure (Some 0))"
      "scope_at sample_arena 0 = Some (scope_insert (sample_symbol ''v'') (scope_new ScModule None))"
    by (simp_all add: sample_arena_def scope_at_def slot_get_def get_at_def)
  have "lookup sample_arena 0 ''w'' = Some (Inr None)"
    by (subst lookup.simps) (simp add: at scope_get_insert sample_symbol_def, simp add: scope_new_def)
  then have "lookup sample_arena 1 ''w'' = Some (Inr None)"
    by (subst lookup.simps) (simp add: at, simp add: scope_new_def)
  then show ?thesis using ss lookup_encloses [OF ss(1), of "''w''"] by auto
qed

text \<open>A new inner scope shadows exactly the names it declares.\<close>

lemma lookup_new_scope:
  assumes "scope_reach a" "length (scopes a) < 2 ^ 32" "unat q < length (scopes a)"
    and "scope_push (k, Some q) a = (h, a1)" "scope_modify h (scope_insert y) a1 = Some a2"
  shows "lookup a2 h name = (if name = sym_name y then Some (Inr (Some y)) else lookup a2 q name)"
proof -
  have h: "unat h = length (scopes a)" using assms(2,4) by (auto simp: scope_push_def)
  have "scope_at a1 h = Some (scope_new k (Some q))"
    using scope_at_push [OF assms(2), of "(k, Some q)" h] assms(4) h by simp
  then have "scope_at a2 h = Some (scope_insert y (scope_new k (Some q)))"
    using scope_at_modify [OF assms(5), of h] by simp
  then show ?thesis
    by (subst lookup.simps) (simp add: scope_get_insert, simp add: scope_new_def)
qed

section \<open>Imports\<close>

type_synonym import_step = "module_id \<times> string \<times> span \<times> u32"

definition import_via :: "import_step \<Rightarrow> symbol \<Rightarrow> symbol" where
  "import_via st s = (case st of (m, n, sp, b) \<Rightarrow> imported_from s m n sp b)"

definition hop_of :: "import_step \<Rightarrow> import_hop" where
  "hop_of st = (case st of (m, n, sp, b) \<Rightarrow> \<lparr>hop_module = m, hop_module_name = n, hop_span = sp\<rparr>)"

definition original_name :: "symbol \<Rightarrow> string" where
  "original_name s = (case root_name (sym_provenance s) of Some n \<Rightarrow> n | None \<Rightarrow> sym_name s)"

lemma import_via_facts:
  "import_chain (sym_provenance (import_via st s)) = hop_of st # import_chain (sym_provenance s)"
  "declaring_module (sym_provenance (import_via st s)) = declaring_module (sym_provenance s)"
  "root_name (sym_provenance (import_via st s)) = Some (original_name s)"
  "sym_name (import_via st s) = sym_name s" "sym_kind (import_via st s) = sym_kind s"
  "declaration_id (import_via st s) = declaration_id s"
  by (cases "sym_provenance s";
      simp add: import_via_def hop_of_def imported_from_def original_name_def Let_def split: prod.splits)+

lemma original_name_import [simp]: "original_name (import_via st s) = original_name s"
  using import_via_facts(3) [of st s] unfolding original_name_def [of "import_via st s"] by simp

text \<open>
  (provenance): a symbol imported through any chain of modules keeps its name, kind, declaration,
  declaring module and original name, and its chain lists every hop, the latest first.
\<close>

theorem imports_keep_origin:
  assumes "steps \<noteq> []"
  shows "let t = fold import_via steps s
    in import_chain (sym_provenance t) = rev (map hop_of steps) @ import_chain (sym_provenance s) \<and>
       immediate_import (sym_provenance t) = Some (hop_of (last steps)) \<and>
       declaring_module (sym_provenance t) = declaring_module (sym_provenance s) \<and>
       root_name (sym_provenance t) = Some (original_name s) \<and>
       sym_name t = sym_name s \<and> sym_kind t = sym_kind s \<and> declaration_id t = declaration_id s"
proof -
  have r: "is_imported (sym_provenance (import_via st u))" for st u
    by (cases "sym_provenance u"; simp add: import_via_def imported_from_def Let_def split: prod.splits)
  have imm: "is_imported p \<Longrightarrow> immediate_import p = get_at (import_chain p) 0" for p
    by (cases p) simp_all
  show ?thesis
    using assms
  proof (induction steps arbitrary: s)
    case (Cons st steps)
    show ?case
    proof (cases steps)
      case Nil
      then show ?thesis using imm [OF r [of st s]] by (simp add: import_via_facts get_at_def)
    next
      case (Cons st' ss)
      then show ?thesis using Cons.IH [of "import_via st s"] by (simp add: Let_def import_via_facts)
    qed
  qed simp
qed

theorem imports_keep_origin_witness:
  "let t = fold import_via [(1, ''A'', \<lparr>span_start = START, span_end = START\<rparr>, 7),
                            (2, ''B'', \<lparr>span_start = START, span_end = START\<rparr>, 8)] (sample_symbol ''v'')
   in map hop_module_name (import_chain (sym_provenance t)) = [''B'', ''A''] \<and>
      declaring_module (sym_provenance t) = Some (0, ''M'')"
  using imports_keep_origin [of "[(1, ''A'', \<lparr>span_start = START, span_end = START\<rparr>, 7),
      (2, ''B'', \<lparr>span_start = START, span_end = START\<rparr>, 8)]" "sample_symbol ''v''"]
  by (simp add: Let_def hop_of_def sample_symbol_def)

end
