(* ===== verification/Classes.thy ===== *)
theory Classes
  imports Scopes "HOL-Library.Monad_Syntax"
begin

text \<open>
  Classes and COM interfaces: the class arena and its layout rules (\<open>newm2-sema/src/class.rs\<close>), and
  the part of the analyzer that drives them for one scope (\<open>resolve_classes_in_scope\<close> of
  \<open>newm2-sema/src/analyze.rs\<close> with the two functions that synthesize the object record and the
  types of virtual calls). An operation that indexes an arena panics on a dangling handle; such a
  panic is \<open>None\<close>.
\<close>

section \<open>Class symbols\<close>

record field_slot =
  fs_name :: string
  fs_ty :: type_id

record method_slot =
  ms_name :: string
  ms_sig :: proc_sig
  ms_abstract :: bool
  ms_override :: bool
  vtable_index :: nat
  declared_slot :: "nat option"

record vtable_slot =
  vs_name :: string
  vs_sig :: proc_sig
  defining_class :: class_symbol_id
  vs_abstract :: bool
  call_sig :: "type_id option"

record class_symbol =
  cls_name :: string
  cls_abstract :: bool
  cls_interface :: bool
  cls_iid :: "string option"
  body_resolved :: bool
  ptr_type :: "type_id option"
  cls_base :: "class_symbol_id option"
  cls_type_id :: type_id
  object_record :: "type_id option"
  own_fields :: "field_slot list"
  all_fields :: "field_slot list"
  own_methods :: "method_slot list"
  revealed :: "string list"
  vtable :: "vtable_slot list"
  cls_span :: span

record class_arena =
  classes :: "class_symbol list"
  by_name :: "string \<rightharpoonup> class_symbol_id"

definition class_arena_new :: class_arena where
  "class_arena_new = \<lparr>classes = [], by_name = Map.empty\<rparr>"

type_synonym class_seed = "string \<times> bool \<times> type_id \<times> span"

definition class_seed_symbol :: "class_seed \<Rightarrow> class_symbol" where
  "class_seed_symbol x = (case x of (name, abstr, ty, sp) \<Rightarrow>
     \<lparr>cls_name = name, cls_abstract = abstr, cls_interface = False, cls_iid = None,
      body_resolved = False, ptr_type = None, cls_base = None, cls_type_id = ty,
      object_record = None, own_fields = [], all_fields = [], own_methods = [], revealed = [],
      vtable = [], cls_span = sp\<rparr>)"

definition class_alloc :: "class_seed \<Rightarrow> class_arena \<Rightarrow> class_symbol_id \<times> class_arena" where
  "class_alloc x a =
     (let h = handle_at (length (classes a))
      in (h, a\<lparr>classes := classes a @ [class_seed_symbol x], by_name := (by_name a)(fst x \<mapsto> h)\<rparr>))"

definition class_at :: "class_arena \<Rightarrow> class_symbol_id \<Rightarrow> class_symbol option" where
  "class_at a h = slot_get (classes a) h"

definition class_modify :: "class_symbol_id \<Rightarrow> (class_symbol \<Rightarrow> class_symbol) \<Rightarrow> class_arena \<Rightarrow> class_arena option" where
  "class_modify h f a = map_option (\<lambda>cs. a\<lparr>classes := cs\<rparr>) (slot_put (classes a) h f)"

definition class_lookup :: "class_arena \<Rightarrow> string \<Rightarrow> class_symbol_id option" where
  "class_lookup a name = by_name a name"

section \<open>Layout\<close>

text \<open>\<open>iter().position(..)\<close>.\<close>

fun position_of :: "('a \<Rightarrow> bool) \<Rightarrow> 'a list \<Rightarrow> nat option" where
  "position_of P [] = None"
| "position_of P (x # xs) = (if P x then Some 0 else map_option Suc (position_of P xs))"

definition new_slot :: "class_symbol_id \<Rightarrow> method_slot \<Rightarrow> vtable_slot" where
  "new_slot h m =
     \<lparr>vs_name = ms_name m, vs_sig = ms_sig m, defining_class = h, vs_abstract = ms_abstract m, call_sig = None\<rparr>"

definition append_method ::
  "class_symbol_id \<Rightarrow> vtable_slot list \<Rightarrow> method_slot \<Rightarrow> vtable_slot list \<times> method_slot" where
  "append_method h vt m = (vt @ [new_slot h m], m\<lparr>vtable_index := length vt\<rparr>)"

text \<open>One round of the loop of \<open>resolve_vtable\<close>; an override without a slot is a new method.\<close>

definition place_method ::
  "class_symbol_id \<Rightarrow> vtable_slot list \<Rightarrow> method_slot \<Rightarrow> vtable_slot list \<times> method_slot" where
  "place_method h vt m =
     (if ms_override m then
        (case position_of (\<lambda>s. vs_name s = ms_name m) vt of
           Some i \<Rightarrow>
             (vt[i := (vt ! i)\<lparr>defining_class := h, vs_sig := ms_sig m, vs_abstract := ms_abstract m\<rparr>],
              m\<lparr>vtable_index := i\<rparr>)
         | None \<Rightarrow> append_method h vt m)
      else append_method h vt m)"

fun place_methods ::
  "class_symbol_id \<Rightarrow> vtable_slot list \<Rightarrow> method_slot list \<Rightarrow> vtable_slot list \<times> method_slot list" where
  "place_methods h vt [] = (vt, [])"
| "place_methods h vt (m # ms) =
     (let (vt1, m1) = place_method h vt m; (vt2, ms2) = place_methods h vt1 ms in (vt2, m1 # ms2))"

definition base_part :: "class_arena \<Rightarrow> class_symbol \<Rightarrow> (class_symbol \<Rightarrow> 'x list) \<Rightarrow> 'x list option" where
  "base_part a c part =
     (case cls_base c of None \<Rightarrow> Some [] | Some b \<Rightarrow> map_option part (class_at a b))"

definition resolve_vtable :: "class_symbol_id \<Rightarrow> class_arena \<Rightarrow> class_arena option" where
  "resolve_vtable h a = do {
     c \<leftarrow> class_at a h;
     base_vtable \<leftarrow> base_part a c vtable;
     let (vt, ms) = place_methods h base_vtable (own_methods c);
     class_modify h (\<lambda>c. c\<lparr>vtable := vt, own_methods := ms\<rparr>) a
   }"

definition resolve_fields :: "class_symbol_id \<Rightarrow> class_arena \<Rightarrow> class_arena option" where
  "resolve_fields h a = do {
     c \<leftarrow> class_at a h;
     base_fields \<leftarrow> base_part a c all_fields;
     class_modify h (\<lambda>c. c\<lparr>all_fields := base_fields @ own_fields c\<rparr>) a
   }"

section \<open>Validation\<close>

datatype class_message =
    UnimplementedAbstract string string
  | InterfaceBaseNotInterface string
  | SlotMismatch string string nat nat

type_synonym class_error = "class_message \<times> span"

definition abstract_errors :: "class_symbol \<Rightarrow> class_error list" where
  "abstract_errors c =
     (if cls_abstract c then []
      else map (\<lambda>s. (UnimplementedAbstract (cls_name c) (vs_name s), cls_span c)) (filter vs_abstract (vtable c)))"

definition slot_errors :: "class_symbol \<Rightarrow> class_error list" where
  "slot_errors c = concat (map (\<lambda>m.
     case declared_slot m of
       Some n \<Rightarrow>
         if vtable_index m \<noteq> n
         then [(SlotMismatch (ms_name m) (cls_name c) n (vtable_index m), cls_span c)] else []
     | None \<Rightarrow> []) (own_methods c))"

definition interface_errors :: "class_arena \<Rightarrow> class_symbol \<Rightarrow> class_error list option" where
  "interface_errors a c =
     (if cls_interface c
      then (case cls_base c of
              None \<Rightarrow> Some []
            | Some b \<Rightarrow>
                map_option (\<lambda>bc. if cls_interface bc then [] else [(InterfaceBaseNotInterface (cls_name c), cls_span c)])
                  (class_at a b))
      else Some [])"

definition validate :: "class_arena \<Rightarrow> class_symbol_id \<Rightarrow> class_error list option" where
  "validate a h = do {
     c \<leftarrow> class_at a h;
     ie \<leftarrow> interface_errors a c;
     Some (abstract_errors c @ ie @ slot_errors c)
   }"

section \<open>Resolving the classes of a scope\<close>

text \<open>
  The depth of a class below the first base outside the scope, with the guard against cycles: the
  walk stops at a base that it has already counted, so it takes at most one step per class.
\<close>

lemma card_Diff_insert_less: "b \<in> set xs \<Longrightarrow> b \<notin> set ys \<Longrightarrow> card (set xs - set ys) - Suc 0 < card (set xs - set ys)"
  using card_gt_0_iff [of "set xs - set ys"] by (auto intro: diff_less)

function depth_walk ::
  "class_arena \<Rightarrow> class_symbol_id list \<Rightarrow> class_symbol_id list \<Rightarrow> class_symbol_id option \<Rightarrow> nat \<Rightarrow> nat option" where
  "depth_walk a in_scope seen cur depth =
     (case cur of
        None \<Rightarrow> Some depth
      | Some b \<Rightarrow>
          if b \<notin> set in_scope \<or> b \<in> set seen then Some depth
          else (case class_at a b of
                  None \<Rightarrow> None
                | Some c \<Rightarrow> depth_walk a in_scope (b # seen) (cls_base c) (depth + 1)))"
  by pat_completeness auto

termination
  by (relation "measure (\<lambda>(a, in_scope, seen, cur, d). card (set in_scope - set seen))")
     (auto simp: card_Diff_insert_less)

declare depth_walk.simps [simp del]

definition depth_of :: "class_arena \<Rightarrow> class_symbol_id list \<Rightarrow> class_symbol_id \<Rightarrow> nat option" where
  "depth_of a in_scope start = do { c \<leftarrow> class_at a start; depth_walk a in_scope [] (cls_base c) 0 }"

record class_ctx =
  cc_types :: type_arena
  cc_classes :: class_arena
  cc_errors :: "class_error list"

definition synthesize_object_record :: "class_symbol_id \<Rightarrow> class_ctx \<Rightarrow> class_ctx option" where
  "synthesize_object_record h x = do {
     addr \<leftarrow> arena_builtin (cc_types x) BAddress;
     c \<leftarrow> class_at (cc_classes x) h;
     let slots = \<lparr>rf_name = ''__vtable'', rf_ty = addr\<rparr> #
           map (\<lambda>f. \<lparr>rf_name = fs_name f, rf_ty = fs_ty f\<rparr>) (all_fields c);
     let layout = \<lparr>rl_name = Some (''__obj_'' @ cls_name c), rl_fields = slots, rl_variant = None\<rparr>;
     let (ty, types1) = type_alloc (TkRecord layout) (cc_types x);
     classes1 \<leftarrow> class_modify h (\<lambda>c. c\<lparr>object_record := Some ty\<rparr>) (cc_classes x);
     Some (x\<lparr>cc_types := types1, cc_classes := classes1\<rparr>)
   }"

definition call_params :: "type_id \<Rightarrow> proc_sig \<Rightarrow> proc_param list" where
  "call_params addr s =
     \<lparr>pp_mode = PmValue, pp_ty = addr\<rparr> #
     map (\<lambda>p. \<lparr>pp_mode = np_mode p, pp_ty = np_ty p\<rparr>) (sig_params s)"

text \<open>A procedure type per slot, in slot order, and the slots that refer to them.\<close>

fun synthesize_calls :: "type_id \<Rightarrow> vtable_slot list \<Rightarrow> type_arena \<Rightarrow> vtable_slot list \<times> type_arena" where
  "synthesize_calls addr [] t = ([], t)"
| "synthesize_calls addr (s # ss) t =
     (let (ty, t1) = type_alloc (TkProc (call_params addr (vs_sig s)) (sig_return (vs_sig s))) t;
          (ss2, t2) = synthesize_calls addr ss t1
      in (s\<lparr>call_sig := Some ty\<rparr> # ss2, t2))"

definition synthesize_vtable_call_sigs :: "class_symbol_id \<Rightarrow> class_ctx \<Rightarrow> class_ctx option" where
  "synthesize_vtable_call_sigs h x = do {
     addr \<leftarrow> arena_builtin (cc_types x) BAddress;
     c \<leftarrow> class_at (cc_classes x) h;
     let (vt, types1) = synthesize_calls addr (vtable c) (cc_types x);
     classes1 \<leftarrow> class_modify h (\<lambda>c. c\<lparr>vtable := vt\<rparr>) (cc_classes x);
     Some (x\<lparr>cc_types := types1, cc_classes := classes1\<rparr>)
   }"

definition resolve_class :: "class_symbol_id \<Rightarrow> class_ctx \<Rightarrow> class_ctx option" where
  "resolve_class h x = do {
     c \<leftarrow> class_at (cc_classes x) h;
     if \<not> body_resolved c then Some x
     else do {
       a1 \<leftarrow> resolve_fields h (cc_classes x);
       a2 \<leftarrow> resolve_vtable h a1;
       x3 \<leftarrow> synthesize_object_record h (x\<lparr>cc_classes := a2\<rparr>);
       x4 \<leftarrow> synthesize_vtable_call_sigs h x3;
       errs \<leftarrow> validate (cc_classes x4) h;
       Some (x4\<lparr>cc_errors := cc_errors x4 @ errs\<rparr>)
     }
   }"

fun resolve_each :: "class_symbol_id list \<Rightarrow> class_ctx \<Rightarrow> class_ctx option" where
  "resolve_each [] x = Some x"
| "resolve_each (h # hs) x = Option.bind (resolve_class h x) (resolve_each hs)"

definition scope_class_ids :: "scope \<Rightarrow> class_symbol_id list" where
  "scope_class_ids s =
     List.map_filter (\<lambda>y. case sym_kind y of SkClass c \<Rightarrow> Some c | _ \<Rightarrow> None) (scope_iter s)"

definition resolve_classes_in_scope :: "scope \<Rightarrow> class_ctx \<Rightarrow> class_ctx option" where
  "resolve_classes_in_scope s x =
     (let hs = scope_class_ids s
      in if \<exists>h \<in> set hs. depth_of (cc_classes x) hs h = None then None
         else resolve_each (sort_key (\<lambda>h. the (depth_of (cc_classes x) hs h)) hs) x)"

section \<open>Subclasses\<close>

text \<open>\<open>class_is_subclass\<close> walks the base links without a guard.\<close>

partial_function (option) class_walk ::
  "class_arena \<Rightarrow> class_symbol_id option \<Rightarrow> class_symbol_id \<Rightarrow> (type_panic + bool) option" where
  "class_walk a cur anc =
     (case cur of
        None \<Rightarrow> Some (Inr False)
      | Some c \<Rightarrow>
          if c = anc then Some (Inr True)
          else (case class_at a c of
                  None \<Rightarrow> Some (Inl IndexOutOfBounds)
                | Some s \<Rightarrow> class_walk a (cls_base s) anc))"

definition class_is_subclass :: "class_arena \<Rightarrow> class_symbol_id \<Rightarrow> class_symbol_id \<Rightarrow> (type_panic + bool) option" where
  "class_is_subclass a sub anc = class_walk a (Some sub) anc"

end
