(* ===== verification/ClassesSpec.thy ===== *)
theory ClassesSpec
  imports Classes ScopesSpec "HOL-Library.Sublist"
begin

text \<open>
  What class layout promises (\<open>newm2-sema/src/class.rs\<close>, \<open>resolve_classes_in_scope\<close> of
  \<open>newm2-sema/src/analyze.rs\<close>): a derived class keeps every slot of its base at its index, each method
  knows the slot that carries its name, the order of resolution puts bases first, and an ordinal a
  declaration asserts is the slot of that method in the class and in everything that inherits it.
\<close>

section \<open>The arena\<close>

interpretation class_slots: arena "\<lambda>a. length (classes a)" class_at class_alloc class_seed_symbol
    "\<lambda>h c. class_modify h (\<lambda>_. c)"
  by unfold_locales
     (auto simp: class_at_def class_alloc_def class_modify_def slot_put_def slot_get_update slot_get_Some_iff Let_def)

lemma class_at_modify:
  "class_modify h f a = Some a' \<Longrightarrow> class_at a' j = (if j = h then map_option f (class_at a h) else class_at a j)"
  by (auto simp: class_modify_def class_at_def slot_get_put)

lemma class_modify_None_iff [simp]: "class_modify h f a = None \<longleftrightarrow> class_at a h = None"
  by (simp add: class_modify_def class_at_def)

lemma class_lookup_alloc:
  "class_alloc x a = (h, a') \<Longrightarrow> class_lookup a' n = (if n = fst x then Some h else class_lookup a n)"
  by (auto simp: class_alloc_def class_lookup_def Let_def)

section \<open>Placing methods\<close>

lemma position_of_Some:
  "position_of P xs = Some i \<Longrightarrow> i < length xs \<and> P (xs ! i) \<and> (\<forall>j < i. \<not> P (xs ! j))"
  by (induction xs arbitrary: i) (auto split: if_splits simp: nth_Cons split: nat.splits)

lemma position_of_None: "position_of P xs = None \<longleftrightarrow> (\<forall>x \<in> set xs. \<not> P x)"
  by (induction xs) auto

abbreviation slot_names :: "vtable_slot list \<Rightarrow> string list" where
  "slot_names vt \<equiv> map vs_name vt"

text \<open>A method sits in the vtable: its index is in range and that slot carries its name.\<close>

definition seated :: "vtable_slot list \<Rightarrow> method_slot \<Rightarrow> bool" where
  "seated vt m \<longleftrightarrow> vtable_index m < length vt \<and> vs_name (vt ! vtable_index m) = ms_name m"

lemma seated_prefix: "seated vt m \<Longrightarrow> prefix (slot_names vt) (slot_names vt') \<Longrightarrow> seated vt' m"
  unfolding seated_def prefix_def by (metis length_append length_map nth_append nth_map trans_less_add1)

lemma slot_names_same [simp]:
  "i < length vt \<Longrightarrow> vs_name (vt ! i) = n \<Longrightarrow> (slot_names vt)[i := n] = slot_names vt"
  by (metis list_update_id nth_map)

lemma place_method:
  assumes "place_method h vt m = (vt', m')"
  shows "prefix (slot_names vt) (slot_names vt')" "seated vt' m'"
    and "m' = m\<lparr>vtable_index := vtable_index m'\<rparr>"
  using assms position_of_Some [of "\<lambda>s. vs_name s = ms_name m" vt]
  by (auto simp: place_method_def append_method_def new_slot_def seated_def map_update
      split: if_splits option.splits)

lemma place_methods:
  "place_methods h vt ms = (vt', ms') \<Longrightarrow>
    prefix (slot_names vt) (slot_names vt') \<and> (\<forall>m \<in> set ms'. seated vt' m) \<and>
    map (\<lambda>m. m\<lparr>vtable_index := 0\<rparr>) ms' = map (\<lambda>m. m\<lparr>vtable_index := 0\<rparr>) ms"
proof (induction ms arbitrary: vt ms' vt')
  case (Cons m ms)
  then obtain vt1 m1 ms1 where p: "place_method h vt m = (vt1, m1)" "place_methods h vt1 ms = (vt', ms1)"
      "ms' = m1 # ms1"
    by (auto simp: Let_def split: prod.splits)
  have "m1\<lparr>vtable_index := 0\<rparr> = m\<lparr>vtable_index := 0\<rparr>"
    by (subst place_method(3) [OF p(1)]) simp
  then show ?case
    using place_method(1,2) [OF p(1)] Cons.IH [OF p(2)] p(3) seated_prefix
    by (auto intro: prefix_order.trans)
qed simp

text \<open>A slot of the base that no override names is inherited as it is.\<close>

lemma place_method_keeps:
  "place_method h vt m = (vt', m') \<Longrightarrow> i < length vt \<Longrightarrow> \<not> (ms_override m \<and> ms_name m = vs_name (vt ! i)) \<Longrightarrow>
    vt' ! i = vt ! i \<and> length vt \<le> length vt'"
  using position_of_Some [of "\<lambda>s. vs_name s = ms_name m" vt]
  by (auto simp: place_method_def append_method_def nth_append nth_list_update split: if_splits option.splits)

lemma place_methods_keep:
  "place_methods h vt ms = (vt', ms') \<Longrightarrow> i < length vt \<Longrightarrow>
    (\<And>m. m \<in> set ms \<Longrightarrow> \<not> (ms_override m \<and> ms_name m = vs_name (vt ! i))) \<Longrightarrow> vt' ! i = vt ! i"
proof (induction ms arbitrary: vt ms' vt')
  case (Cons m ms)
  then obtain vt1 m1 ms1 where p: "place_method h vt m = (vt1, m1)" "place_methods h vt1 ms = (vt', ms1)"
    by (auto simp: Let_def split: prod.splits)
  have k: "vt1 ! i = vt ! i" "i < length vt1"
    using place_method_keeps [OF p(1) Cons.prems(2)] Cons.prems(2,3) by auto
  then show ?case using Cons.IH [OF p(2) k(2)] Cons.prems(3) by simp
qed simp

text \<open>
  An override replaces the implementation in the slot it inherits: the slot keeps its index and its
  name and is defined by the overriding class from then on.
\<close>

lemma place_method_override:
  assumes "place_method h vt m = (vt', m')" "ms_override m" "ms_name m \<in> set (slot_names vt)"
  shows "length vt' = length vt" "defining_class (vt' ! vtable_index m') = h"
    "vs_sig (vt' ! vtable_index m') = ms_sig m" "vs_abstract (vt' ! vtable_index m') = ms_abstract m"
proof -
  have "position_of (\<lambda>s. vs_name s = ms_name m) vt \<noteq> None"
    using assms(3) by (auto simp: position_of_None)
  then obtain i where i: "position_of (\<lambda>s. vs_name s = ms_name m) vt = Some i" by blast
  then show "length vt' = length vt" "defining_class (vt' ! vtable_index m') = h"
    "vs_sig (vt' ! vtable_index m') = ms_sig m" "vs_abstract (vt' ! vtable_index m') = ms_abstract m"
    using assms(1,2) position_of_Some [OF i] by (auto simp: place_method_def)
qed

section \<open>Resolving one class\<close>

text \<open>What resolution leaves of a class: its place in the hierarchy and the sources of its layout.\<close>

definition class_skeleton :: "class_symbol \<Rightarrow> class_symbol" where
  "class_skeleton c = c\<lparr>object_record := None, all_fields := [], own_methods := [], vtable := []\<rparr>"

definition laid_out :: "class_arena \<Rightarrow> class_symbol_id \<Rightarrow> bool" where
  "laid_out a h \<longleftrightarrow> (\<exists>c. class_at a h = Some c \<and>
     (\<forall>m \<in> set (own_methods c). seated (vtable c) m) \<and>
     (\<forall>b. cls_base c = Some b \<longrightarrow>
        (\<exists>bc. class_at a b = Some bc \<and> prefix (slot_names (vtable bc)) (slot_names (vtable c)) \<and>
              prefix (all_fields bc) (all_fields c))))"

definition declared_right :: "class_arena \<Rightarrow> class_symbol_id \<Rightarrow> bool" where
  "declared_right a h \<longleftrightarrow> (\<forall>c. class_at a h = Some c \<longrightarrow>
     (\<forall>m \<in> set (own_methods c). \<forall>n. declared_slot m = Some n \<longrightarrow> vtable_index m = n) \<and>
     (cls_abstract c \<or> (\<forall>s \<in> set (vtable c). \<not> vs_abstract s)))"

lemma slot_errors_nil:
  "slot_errors c = [] \<longleftrightarrow> (\<forall>m \<in> set (own_methods c). \<forall>n. declared_slot m = Some n \<longrightarrow> vtable_index m = n)"
  by (auto simp: slot_errors_def split: option.splits if_splits)

lemma abstract_errors_nil:
  "abstract_errors c = [] \<longleftrightarrow> cls_abstract c \<or> (\<forall>s \<in> set (vtable c). \<not> vs_abstract s)"
  by (auto simp: abstract_errors_def filter_empty_conv)

lemma validate_nil: "validate a h = Some [] \<Longrightarrow> declared_right a h"
  by (auto simp: validate_def declared_right_def slot_errors_nil abstract_errors_nil bind_eq_Some_conv)

lemma synthesize_calls_vtable:
  "synthesize_calls addr vt t = (vt', t') \<Longrightarrow>
    map (\<lambda>s. s\<lparr>call_sig := None\<rparr>) vt' = map (\<lambda>s. s\<lparr>call_sig := None\<rparr>) vt"
  by (induction vt arbitrary: t vt' t') (auto simp: Let_def split: prod.splits)

lemma call_sig_only:
  assumes "map (\<lambda>s. s\<lparr>call_sig := None\<rparr>) vt' = map (\<lambda>s. s\<lparr>call_sig := None\<rparr>) vt"
  shows "slot_names vt' = slot_names vt" "seated vt' m = seated vt m"
    "(\<forall>s \<in> set vt'. \<not> vs_abstract s) = (\<forall>s \<in> set vt. \<not> vs_abstract s)"
proof -
  have l: "length vt' = length vt" using map_eq_imp_length_eq [OF assms] .
  have e: "(vt' ! i)\<lparr>call_sig := None\<rparr> = (vt ! i)\<lparr>call_sig := None\<rparr>" if "i < length vt" for i
    using nth_map [of i vt "\<lambda>s. s\<lparr>call_sig := None\<rparr>"] nth_map [of i vt' "\<lambda>s. s\<lparr>call_sig := None\<rparr>"] assms l that
    by simp
  have n: "vs_name (vt' ! i) = vs_name (vt ! i)" "vs_abstract (vt' ! i) = vs_abstract (vt ! i)" if "i < length vt" for i
    using arg_cong [OF e [OF that], of vs_name] arg_cong [OF e [OF that], of vs_abstract] by simp_all
  show "slot_names vt' = slot_names vt" using l n(1) by (auto intro: nth_equalityI)
  show "seated vt' m = seated vt m" using l n(1) by (auto simp: seated_def)
  show "(\<forall>s \<in> set vt'. \<not> vs_abstract s) = (\<forall>s \<in> set vt. \<not> vs_abstract s)"
    using l n(2) by (auto simp: all_set_conv_all_nth)
qed

text \<open>Each step of \<open>resolve_class\<close> rewrites the record of the class it resolves and no other.\<close>

lemma class_at_updated:
  "class_modify h f a = Some a' \<Longrightarrow> class_at a h = Some c \<Longrightarrow>
    class_at a' g = (if g = h then Some (f c) else class_at a g)"
  by (simp add: class_at_modify)

lemma resolve_fields_step:
  assumes "resolve_fields h a = Some a'" "class_at a h = Some c"
  obtains bfs where "base_part a c all_fields = Some bfs"
    "\<And>g. class_at a' g = (if g = h then Some (c\<lparr>all_fields := bfs @ own_fields c\<rparr>) else class_at a g)"
  using assms by (auto simp: resolve_fields_def bind_eq_Some_conv class_at_updated)

lemma resolve_vtable_step:
  assumes "resolve_vtable h a = Some a'" "class_at a h = Some c"
  obtains bvt vt ms where "base_part a c vtable = Some bvt" "place_methods h bvt (own_methods c) = (vt, ms)"
    "\<And>g. class_at a' g = (if g = h then Some (c\<lparr>vtable := vt, own_methods := ms\<rparr>) else class_at a g)"
proof -
  obtain bvt where b: "base_part a c vtable = Some bvt"
      "class_modify h (\<lambda>d. d\<lparr>vtable := fst (place_methods h bvt (own_methods c)),
         own_methods := snd (place_methods h bvt (own_methods c))\<rparr>) a = Some a'"
    using assms by (auto simp: resolve_vtable_def bind_eq_Some_conv Let_def case_prod_unfold)
  show thesis by (rule that [OF b(1) prod.collapse [symmetric]]) (rule class_at_updated [OF b(2) assms(2)])
qed

lemma synthesize_object_step:
  assumes "synthesize_object_record h x = Some x'" "class_at (cc_classes x) h = Some c"
  obtains ty where "cc_errors x' = cc_errors x"
    "\<And>g. class_at (cc_classes x') g = (if g = h then Some (c\<lparr>object_record := Some ty\<rparr>) else class_at (cc_classes x) g)"
proof -
  obtain ty a1 where b: "cc_errors x' = cc_errors x" "cc_classes x' = a1"
      "class_modify h (\<lambda>d. d\<lparr>object_record := Some ty\<rparr>) (cc_classes x) = Some a1"
    using assms by (auto simp: synthesize_object_record_def bind_eq_Some_conv Let_def case_prod_unfold)
  show thesis by (rule that [OF b(1)]) (unfold b(2), rule class_at_updated [OF b(3) assms(2)])
qed

lemma synthesize_calls_step:
  assumes "synthesize_vtable_call_sigs h x = Some x'" "class_at (cc_classes x) h = Some c"
  obtains vt where "cc_errors x' = cc_errors x"
    "map (\<lambda>s. s\<lparr>call_sig := None\<rparr>) vt = map (\<lambda>s. s\<lparr>call_sig := None\<rparr>) (vtable c)"
    "\<And>g. class_at (cc_classes x') g = (if g = h then Some (c\<lparr>vtable := vt\<rparr>) else class_at (cc_classes x) g)"
proof -
  obtain addr a1 where b: "cc_errors x' = cc_errors x" "cc_classes x' = a1"
      "class_modify h (\<lambda>d. d\<lparr>vtable := fst (synthesize_calls addr (vtable c) (cc_types x))\<rparr>) (cc_classes x) = Some a1"
    using assms by (auto simp: synthesize_vtable_call_sigs_def bind_eq_Some_conv Let_def case_prod_unfold)
  show thesis
    by (rule that [OF b(1) synthesize_calls_vtable [OF prod.collapse [symmetric]]])
       (unfold b(2), rule class_at_updated [OF b(3) assms(2)])
qed

lemma base_part_fields:
  assumes "\<And>g. class_at a1 g = (if g = h then Some (c\<lparr>all_fields := fs\<rparr>) else class_at a g)" "class_at a h = Some c"
  shows "base_part a1 (c\<lparr>all_fields := fs\<rparr>) vtable = base_part a c vtable"
  using assms by (auto simp: base_part_def split: option.splits)

text \<open>The outcome of \<open>resolve_class\<close> on a class with a body, in one step.\<close>

lemma resolve_class_step:
  assumes "resolve_class h x = Some x'" "class_at (cc_classes x) h = Some c" "body_resolved c"
  obtains bvt bfs vt ms fin es where
    "base_part (cc_classes x) c vtable = Some bvt" "base_part (cc_classes x) c all_fields = Some bfs"
    "place_methods h bvt (own_methods c) = (vt, ms)"
    "\<And>g. class_at (cc_classes x') g = (if g = h then Some fin else class_at (cc_classes x) g)"
    "class_skeleton fin = class_skeleton c" "own_methods fin = ms" "all_fields fin = bfs @ own_fields c"
    "slot_names (vtable fin) = slot_names vt" "\<And>m. seated (vtable fin) m = seated vt m"
    "validate (cc_classes x') h = Some es" "cc_errors x' = cc_errors x @ es"
proof -
  obtain a1 a2 x3 x4 es where r: "resolve_fields h (cc_classes x) = Some a1" "resolve_vtable h a1 = Some a2"
      "synthesize_object_record h (x\<lparr>cc_classes := a2\<rparr>) = Some x3"
      "synthesize_vtable_call_sigs h x3 = Some x4" "validate (cc_classes x4) h = Some es"
      "x' = x4\<lparr>cc_errors := cc_errors x4 @ es\<rparr>"
    using assms by (auto simp: resolve_class_def bind_eq_Some_conv)
  obtain bfs where f: "base_part (cc_classes x) c all_fields = Some bfs"
      "\<And>g. class_at a1 g = (if g = h then Some (c\<lparr>all_fields := bfs @ own_fields c\<rparr>) else class_at (cc_classes x) g)"
    using resolve_fields_step [OF r(1) assms(2)] by blast
  obtain bvt vt ms where v: "base_part a1 (c\<lparr>all_fields := bfs @ own_fields c\<rparr>) vtable = Some bvt"
      "place_methods h bvt (own_methods c) = (vt, ms)"
      "\<And>g. class_at a2 g = (if g = h then Some (c\<lparr>all_fields := bfs @ own_fields c, vtable := vt, own_methods := ms\<rparr>)
        else class_at a1 g)"
    using resolve_vtable_step [OF r(2), of "c\<lparr>all_fields := bfs @ own_fields c\<rparr>"] f(2) by (auto simp del: not_None_eq)
  obtain ty where o3: "cc_errors x3 = cc_errors x"
      "\<And>g. class_at (cc_classes x3) g = (if g = h then
        Some (c\<lparr>all_fields := bfs @ own_fields c, vtable := vt, own_methods := ms, object_record := Some ty\<rparr>)
        else class_at a2 g)"
  proof (rule synthesize_object_step [OF r(3)])
    show "class_at (cc_classes (x\<lparr>cc_classes := a2\<rparr>)) h =
        Some (c\<lparr>all_fields := bfs @ own_fields c, vtable := vt, own_methods := ms\<rparr>)"
      using v(3) by simp
  qed (simp cong: if_cong)
  obtain vt' where c4: "cc_errors x4 = cc_errors x3"
      "map (\<lambda>s. s\<lparr>call_sig := None\<rparr>) vt' = map (\<lambda>s. s\<lparr>call_sig := None\<rparr>) vt"
      "\<And>g. class_at (cc_classes x4) g = (if g = h then
        Some (c\<lparr>all_fields := bfs @ own_fields c, vtable := vt', own_methods := ms, object_record := Some ty\<rparr>)
        else class_at (cc_classes x3) g)"
  proof (rule synthesize_calls_step [OF r(4)])
    show "class_at (cc_classes x3) h =
        Some (c\<lparr>all_fields := bfs @ own_fields c, vtable := vt, own_methods := ms, object_record := Some ty\<rparr>)"
      using o3(2) by simp
  qed (simp cong: if_cong)
  show thesis
  proof (rule that)
    show "base_part (cc_classes x) c vtable = Some bvt"
      using v(1) base_part_fields [OF f(2) assms(2)] by simp
    show "class_at (cc_classes x') g = (if g = h then
        Some (c\<lparr>all_fields := bfs @ own_fields c, vtable := vt', own_methods := ms, object_record := Some ty\<rparr>)
        else class_at (cc_classes x) g)" for g
      using r(6) c4(3) o3(2) v(3) f(2) by simp
  qed (use f(1) v(2) r(5,6) o3(1) c4(1) call_sig_only [OF c4(2)] in \<open>simp_all add: class_skeleton_def\<close>)
qed

section \<open>Bases first\<close>

definition base_of :: "class_arena \<Rightarrow> class_symbol_id \<Rightarrow> class_symbol_id option" where
  "base_of a h = Option.bind (class_at a h) cls_base"

text \<open>The inheritance links between classes of one scope.\<close>

definition links :: "class_arena \<Rightarrow> class_symbol_id list \<Rightarrow> (class_symbol_id \<times> class_symbol_id) set" where
  "links a hs = {(b, h). b \<in> set hs \<and> h \<in> set hs \<and> base_of a h = Some b}"

lemma wf_links: "acyclic (links a hs) \<Longrightarrow> wf (links a hs)"
proof (rule finite_acyclic_wf)
  show "finite (links a hs)"
    by (rule finite_subset [of _ "set hs \<times> set hs"]) (auto simp: links_def)
qed

lemma depth_walk_seen:
  assumes "acyclic (links a hs)"
  shows "(\<And>x. x \<in> set seen \<Longrightarrow> (b, x) \<in> (links a hs)\<^sup>+) \<Longrightarrow>
    depth_walk a hs seen (Some b) d = map_option (\<lambda>n. n + d) (depth_walk a hs [] (Some b) 0)"
proof (induction b arbitrary: seen d rule: wf_induct_rule [OF wf_links [OF assms]])
  case (1 b)
  have ns: "b \<notin> set seen" using 1(2) assms by (auto simp: acyclic_def)
  show ?case
  proof (cases "b \<in> set hs \<and> (\<exists>c b'. class_at a b = Some c \<and> cls_base c = Some b' \<and> b' \<in> set hs)")
    case True
    then obtain c b' where c: "b \<in> set hs" "class_at a b = Some c" "cls_base c = Some b'" "b' \<in> set hs" by blast
    have l: "(b', b) \<in> links a hs" using c by (simp add: links_def base_of_def)
    have "depth_walk a hs sn (Some b) e = map_option (\<lambda>n. n + (e + 1)) (depth_walk a hs [] (Some b') 0)"
      if "b \<notin> set sn" "\<And>x. x \<in> set sn \<Longrightarrow> (b, x) \<in> (links a hs)\<^sup>+" for sn e
    proof -
      have "(b', x) \<in> (links a hs)\<^sup>+" if "x \<in> set (b # sn)" for x
        using that l \<open>\<And>x. x \<in> set sn \<Longrightarrow> (b, x) \<in> (links a hs)\<^sup>+\<close> by (auto intro: trancl_into_trancl2)
      then have "depth_walk a hs (b # sn) (Some b') (e + 1) =
          map_option (\<lambda>n. n + (e + 1)) (depth_walk a hs [] (Some b') 0)"
        by (rule 1(1) [OF l])
      then show ?thesis using c that(1) by (subst depth_walk.simps) simp
    qed
    from this [OF ns 1(2)] this [of "[]" 0] show ?thesis by (simp add: option.map_comp comp_def add.assoc)
  next
    case False
    have st: "depth_walk a hs sn (cls_base c) e = Some e" if "class_at a b = Some c" "b \<in> set hs" for sn c e
      using False that by (subst depth_walk.simps) (auto split: option.splits)
    show ?thesis using ns
      by (subst (1 2) depth_walk.simps) (auto simp: st split: option.splits)
  qed
qed

lemma depth_of_base:
  assumes "acyclic (links a hs)" "(b, h) \<in> links a hs"
  shows "depth_of a hs h = map_option Suc (depth_of a hs b)"
proof -
  obtain c where c: "class_at a h = Some c" "cls_base c = Some b" "b \<in> set hs"
    using assms(2) by (auto simp: links_def base_of_def bind_eq_Some_conv)
  have "depth_walk a hs [] (Some b) 0 = map_option Suc (depth_of a hs b)"
  proof (cases "class_at a b")
    case None
    then show ?thesis using c by (subst depth_walk.simps) (simp add: depth_of_def)
  next
    case (Some d)
    show ?thesis
    proof (cases "cls_base d")
      case None
      then show ?thesis using c Some
        by (simp add: depth_of_def depth_walk.simps)
    next
      case (Some e)
      have "depth_walk a hs [b] (Some e) 1 = map_option (\<lambda>n. n + 1) (depth_walk a hs [] (Some e) 0)"
      proof (cases "e \<in> set hs")
        case True
        then have "(e, b) \<in> links a hs"
          using c Some \<open>class_at a b = Some d\<close> by (simp add: links_def base_of_def)
        then show ?thesis by (intro depth_walk_seen [OF assms(1)]) auto
      next
        case False
        then show ?thesis by (simp add: depth_walk.simps)
      qed
      then show ?thesis using c Some \<open>class_at a b = Some d\<close>
        by (subst depth_walk.simps) (simp add: depth_of_def)
    qed
  qed
  then show ?thesis using c by (simp add: depth_of_def)
qed

section \<open>Resolving a scope\<close>

text \<open>The state a class is left in; \<open>errors\<close> is the number of errors before the scope was resolved.\<close>

definition settled :: "nat \<Rightarrow> class_ctx \<Rightarrow> class_symbol_id \<Rightarrow> bool" where
  "settled errors x h \<longleftrightarrow> (\<forall>c. class_at (cc_classes x) h = Some c \<longrightarrow> body_resolved c \<longrightarrow>
     laid_out (cc_classes x) h \<and> (length (cc_errors x) \<le> errors \<longrightarrow> declared_right (cc_classes x) h))"

definition same_skeletons :: "class_arena \<Rightarrow> class_arena \<Rightarrow> bool" where
  "same_skeletons a a' \<longleftrightarrow> (\<forall>h. map_option class_skeleton (class_at a' h) = map_option class_skeleton (class_at a h))"

lemma same_skeletons_base: "same_skeletons a a' \<Longrightarrow> base_of a' h = base_of a h"
proof -
  have b: "cls_base c = cls_base (class_skeleton c)" for c by (simp add: class_skeleton_def)
  assume "same_skeletons a a'"
  then have "map_option class_skeleton (class_at a' h) = map_option class_skeleton (class_at a h)"
    by (simp add: same_skeletons_def)
  then show ?thesis
    unfolding base_of_def by (cases "class_at a h"; cases "class_at a' h") (auto, metis b)
qed

lemma resolve_class_frame:
  assumes "resolve_class h x = Some x'"
  shows "same_skeletons (cc_classes x) (cc_classes x')" "length (cc_errors x) \<le> length (cc_errors x')"
    and "g \<noteq> h \<Longrightarrow> class_at (cc_classes x') g = class_at (cc_classes x) g"
proof -
  obtain c where c: "class_at (cc_classes x) h = Some c"
    using assms by (auto simp: resolve_class_def bind_eq_Some_conv)
  have "same_skeletons (cc_classes x) (cc_classes x') \<and> length (cc_errors x) \<le> length (cc_errors x') \<and>
      (g \<noteq> h \<longrightarrow> class_at (cc_classes x') g = class_at (cc_classes x) g)"
  proof (cases "body_resolved c")
    case True
    obtain fin es where f: "\<And>g. class_at (cc_classes x') g = (if g = h then Some fin else class_at (cc_classes x) g)"
        "class_skeleton fin = class_skeleton c" "cc_errors x' = cc_errors x @ es"
      using resolve_class_step [OF assms c True] by metis
    show ?thesis using f(2,3) c by (simp add: same_skeletons_def f(1))
  next
    case False
    then show ?thesis using assms c by (auto simp: resolve_class_def same_skeletons_def)
  qed
  then show "same_skeletons (cc_classes x) (cc_classes x')" "length (cc_errors x) \<le> length (cc_errors x')"
    "g \<noteq> h \<Longrightarrow> class_at (cc_classes x') g = class_at (cc_classes x) g" by auto
qed

lemma resolve_class_settles:
  assumes r: "resolve_class h x = Some x'" and b: "base_of (cc_classes x) h \<noteq> Some h"
    and e: "errors \<le> length (cc_errors x)"
  shows "settled errors x' h"
proof -
  obtain c where c: "class_at (cc_classes x) h = Some c"
    using r by (auto simp: resolve_class_def bind_eq_Some_conv)
  show ?thesis
  proof (cases "body_resolved c")
    case False
    then show ?thesis using r c by (auto simp: resolve_class_def settled_def)
  next
    case True
    obtain bvt bfs vt ms fin es where f:
      "base_part (cc_classes x) c vtable = Some bvt" "base_part (cc_classes x) c all_fields = Some bfs"
      "place_methods h bvt (own_methods c) = (vt, ms)"
      "\<And>g. class_at (cc_classes x') g = (if g = h then Some fin else class_at (cc_classes x) g)"
      "class_skeleton fin = class_skeleton c" "own_methods fin = ms" "all_fields fin = bfs @ own_fields c"
      "slot_names (vtable fin) = slot_names vt" "\<And>m. seated (vtable fin) m = seated vt m"
      "validate (cc_classes x') h = Some es" "cc_errors x' = cc_errors x @ es"
      using resolve_class_step [OF r c True] by metis
    have bf: "cls_base fin = cls_base c" using arg_cong [OF f(5), of cls_base] by (simp add: class_skeleton_def)
    have "laid_out (cc_classes x') h"
      using place_methods [OF f(3)] f(1,2,4,6,7,8,9) b c bf
      by (auto simp: laid_out_def base_part_def base_of_def)
    moreover have "declared_right (cc_classes x') h" if "length (cc_errors x') \<le> errors"
    proof (rule validate_nil)
      have "es = []" using that e unfolding f(11) by (cases es) simp_all
      then show "validate (cc_classes x') h = Some []" using f(10) by simp
    qed
    ultimately show ?thesis by (simp add: settled_def)
  qed
qed

lemma resolve_class_keeps_settled:
  assumes r: "resolve_class h x = Some x'" and g: "settled errors x g"
    and "g \<noteq> h" "base_of (cc_classes x) g \<noteq> Some h"
  shows "settled errors x' g"
proof -
  have "class_at (cc_classes x') j = class_at (cc_classes x) j" if "j \<noteq> h" for j
    using resolve_class_frame(3) [OF r that] .
  then show ?thesis
    using g assms(3,4) resolve_class_frame(2) [OF r]
    by (auto simp: settled_def laid_out_def declared_right_def base_of_def)
qed

lemma resolve_each_settles:
  assumes ac: "acyclic (links a hs)" and D: "\<And>h. h \<in> set hs \<Longrightarrow> depth_of a hs h = Some (D h)"
  shows "resolve_each ys x = Some x' \<Longrightarrow> same_skeletons a (cc_classes x) \<Longrightarrow> sorted (map D (zs @ ys)) \<Longrightarrow>
    set (zs @ ys) \<subseteq> set hs \<Longrightarrow> errors \<le> length (cc_errors x) \<Longrightarrow> (\<And>g. g \<in> set zs \<Longrightarrow> settled errors x g) \<Longrightarrow>
    (\<forall>g \<in> set (zs @ ys). settled errors x' g) \<and> same_skeletons a (cc_classes x')"
proof (induction ys arbitrary: x zs)
  case (Cons h ys)
  obtain x1 where x1: "resolve_class h x = Some x1" "resolve_each ys x1 = Some x'"
    using Cons.prems(1) by (auto simp: bind_eq_Some_conv)
  have base: "base_of (cc_classes x) g = base_of a g" for g using same_skeletons_base [OF Cons.prems(2)] .
  have nb: "base_of a g \<noteq> Some h" if "g \<in> set zs \<or> g = h" for g
  proof
    assume b: "base_of a g = Some h"
    have "g \<in> set hs" "h \<in> set hs" using that Cons.prems(4) by auto
    then have l: "(h, g) \<in> links a hs" using b by (simp add: links_def)
    then have "D g = Suc (D h)" using depth_of_base [OF ac l] D \<open>g \<in> set hs\<close> \<open>h \<in> set hs\<close> by simp
    moreover have "D g \<le> D h" using that Cons.prems(3) by (auto simp: sorted_append)
    ultimately show False by simp
  qed
  have "settled errors x1 g" if "g \<in> set (zs @ [h])" for g
    using that resolve_class_settles [OF x1(1) _ Cons.prems(5)] resolve_class_keeps_settled [OF x1(1)]
      Cons.prems(6) nb base by (cases "g = h") auto
  moreover have "same_skeletons a (cc_classes x1)"
    using Cons.prems(2) resolve_class_frame(1) [OF x1(1)] by (simp add: same_skeletons_def)
  ultimately show ?case
    using Cons.IH [OF x1(2), of "zs @ [h]"] Cons.prems(3,4,5) resolve_class_frame(2) [OF x1(1)] by simp
qed auto

lemma resolve_scope_settles:
  assumes "resolve_classes_in_scope s x = Some x'" "acyclic (links (cc_classes x) (scope_class_ids s))"
    and "h \<in> set (scope_class_ids s)"
  shows "settled (length (cc_errors x)) x' h" "base_of (cc_classes x') g = base_of (cc_classes x) g"
proof -
  let ?hs = "scope_class_ids s" and ?a = "cc_classes x"
  let ?D = "\<lambda>h. the (depth_of ?a ?hs h)"
  have r: "\<And>h. h \<in> set ?hs \<Longrightarrow> depth_of ?a ?hs h = Some (?D h)" "resolve_each (sort_key ?D ?hs) x = Some x'"
    using assms(1) by (auto simp: resolve_classes_in_scope_def Let_def split: if_splits)
  have "(\<forall>g \<in> set ([] @ sort_key ?D ?hs). settled (length (cc_errors x)) x' g) \<and> same_skeletons ?a (cc_classes x')"
    by (rule resolve_each_settles [OF assms(2) r(1) r(2)]) (simp_all add: same_skeletons_def)
  then show "settled (length (cc_errors x)) x' h" "base_of (cc_classes x') g = base_of (cc_classes x) g"
    using assms(3) same_skeletons_base by auto
qed

text \<open>
  (vtable layout): resolving a class keeps every slot name of its base at its index and adds its
  own after them; each of its methods knows a slot that carries its name; and an inherited slot that
  the class does not override stays as the base has it.
\<close>

theorem vtable_extends_base:
  assumes "resolve_vtable h a = Some a'" "class_at a h = Some c" "base_part a c vtable = Some bvt"
  shows "\<exists>c'. class_at a' h = Some c' \<and> prefix (slot_names bvt) (slot_names (vtable c')) \<and>
    (\<forall>m \<in> set (own_methods c'). seated (vtable c') m) \<and>
    map ms_name (own_methods c') = map ms_name (own_methods c) \<and>
    (\<forall>i < length bvt. (\<forall>m \<in> set (own_methods c). ms_override m \<longrightarrow> ms_name m \<noteq> vs_name (bvt ! i)) \<longrightarrow>
       vtable c' ! i = bvt ! i)"
proof -
  obtain vt ms where p: "place_methods h bvt (own_methods c) = (vt, ms)"
      "class_at a' h = Some (c\<lparr>vtable := vt, own_methods := ms\<rparr>)"
    by (rule resolve_vtable_step [OF assms(1,2)]) (use assms(3) in auto)
  have "map (\<lambda>m. m\<lparr>vtable_index := 0\<rparr>) ms = map (\<lambda>m. m\<lparr>vtable_index := 0\<rparr>) (own_methods c)"
    using place_methods [OF p(1)] by simp
  from arg_cong [OF this, of "map ms_name"] have n: "map ms_name ms = map ms_name (own_methods c)"
    by (simp add: comp_def)
  show ?thesis
    by (intro exI [of _ "c\<lparr>vtable := vt, own_methods := ms\<rparr>"])
       (simp add: p(2) n place_methods [OF p(1)] place_methods_keep [OF p(1)])
qed

text \<open>Two classes of an interface chain: \<open>B\<close> declares \<open>f\<close>, \<open>D\<close> inherits it, overrides it and adds \<open>g\<close>.\<close>

definition sample_sig :: proc_sig where
  "sample_sig = \<lparr>sig_params = [], sig_return = None, sig_conv = CcDefault, sig_attrs = [], sig_linkage = None\<rparr>"

definition sample_method :: "string \<Rightarrow> bool \<Rightarrow> nat \<Rightarrow> method_slot" where
  "sample_method n ov k = \<lparr>ms_name = n, ms_sig = sample_sig, ms_abstract = False, ms_override = ov,
     vtable_index = 0, declared_slot = Some k\<rparr>"

definition sample_class :: "string \<Rightarrow> class_symbol_id option \<Rightarrow> method_slot list \<Rightarrow> class_symbol" where
  "sample_class n b ms = (class_seed_symbol (n, False, 0, \<lparr>span_start = START, span_end = START\<rparr>))
     \<lparr>body_resolved := True, cls_base := b, own_methods := ms\<rparr>"

definition sample_classes :: class_arena where
  "sample_classes = \<lparr>classes =
     [sample_class ''D'' (Some 1) [sample_method ''f'' True 0, sample_method ''g'' False 1],
      sample_class ''B'' None [sample_method ''f'' False 0]], by_name = Map.empty\<rparr>"

definition sample_resolved :: class_arena where
  "sample_resolved = \<lparr>classes =
     [sample_class ''D'' (Some 1) [sample_method ''f'' True 0, sample_method ''g'' False 1],
      (sample_class ''B'' None [sample_method ''f'' False 0])
        \<lparr>vtable := [new_slot 1 (sample_method ''f'' False 0)]\<rparr>], by_name = Map.empty\<rparr>"

definition sample_ctx :: class_ctx where
  "sample_ctx = \<lparr>cc_types = \<lparr>kinds = [], builtins = [BAddress \<mapsto> 0]\<rparr>, cc_classes = sample_classes, cc_errors = []\<rparr>"

definition sample_scope :: scope where
  "sample_scope = fold scope_insert
     [sample_symbol ''D''\<lparr>sym_kind := SkClass 0\<rparr>, sample_symbol ''B''\<lparr>sym_kind := SkClass 1\<rparr>] (scope_new ScModule None)"

lemmas sample_defs = sample_classes_def sample_class_def sample_method_def sample_sig_def class_seed_symbol_def
  sample_ctx_def class_at_def class_modify_def slot_get_def slot_put_def get_at_def base_part_def
  append_method_def new_slot_def place_method_def

lemma resolve_vtable_defined:
  "class_at a h = Some c \<Longrightarrow> base_part a c vtable = Some bvt \<Longrightarrow> \<exists>a'. resolve_vtable h a = Some a'"
  by (cases "resolve_vtable h a") (auto simp: resolve_vtable_def bind_eq_None_conv case_prod_unfold Let_def)

theorem vtable_extends_base_witness:
  "\<exists>a' c'. resolve_vtable 0 sample_resolved = Some a' \<and> class_at a' 0 = Some c' \<and>
     prefix [''f''] (slot_names (vtable c')) \<and> (\<forall>m \<in> set (own_methods c'). seated (vtable c') m) \<and>
     map ms_name (own_methods c') = [''f'', ''g'']"
proof -
  let ?d = "sample_class ''D'' (Some 1) [sample_method ''f'' True 0, sample_method ''g'' False 1]"
  let ?vt = "[new_slot 1 (sample_method ''f'' False 0)]"
  have c: "class_at sample_resolved 0 = Some ?d" "base_part sample_resolved ?d vtable = Some ?vt"
    by (simp_all add: sample_resolved_def sample_class_def class_at_def slot_get_def get_at_def base_part_def)
  obtain a' where a': "resolve_vtable 0 sample_resolved = Some a'"
    using resolve_vtable_defined [OF c] by blast
  have "slot_names ?vt = [''f'']" "map ms_name (own_methods ?d) = [''f'', ''g'']"
    by (simp_all add: new_slot_def sample_method_def sample_class_def)
  then show ?thesis using vtable_extends_base [OF a' c] a' by metis
qed

text \<open>The inheritance relation of an arena, and what a walk along it can meet.\<close>

definition inherits :: "class_arena \<Rightarrow> (class_symbol_id \<times> class_symbol_id) set" where
  "inherits a = {(h, b). base_of a h = Some b}"

lemma class_walk_step:
  "base_of a h = Some b \<Longrightarrow> h \<noteq> anc \<Longrightarrow> class_walk a (Some h) anc = class_walk a (Some b) anc"
  by (subst class_walk.simps) (auto simp: base_of_def bind_eq_Some_conv)

lemma class_walk_root: "class_walk a None anc = Some (Inr False)"
  by (subst class_walk.simps) simp

lemma class_walk_end: "base_of a h = None \<Longrightarrow> class_walk a (Some h) anc \<noteq> None"
  by (subst class_walk.simps) (auto simp: base_of_def class_walk_root split: option.splits)

lemma class_walk_here: "class_walk a (Some h) h = Some (Inr True)"
  by (subst class_walk.simps) simp

lemma class_walk_reaches: "(h, anc) \<in> (inherits a)\<^sup>* \<Longrightarrow> class_walk a (Some h) anc = Some (Inr True)"
proof (induction rule: converse_rtrancl_induct)
  case (step h b)
  then show ?case using class_walk_step [of a h b anc] class_walk_here by (cases "h = anc") (auto simp: inherits_def)
qed (rule class_walk_here)

lemma class_walk_returns:
  "(h, c) \<in> (inherits a)\<^sup>* \<Longrightarrow> base_of a c = None \<Longrightarrow> class_walk a (Some h) anc \<noteq> None"
proof (induction rule: converse_rtrancl_induct)
  case (step h b)
  then show ?case using class_walk_step [of a h b anc] class_walk_here by (cases "h = anc") (auto simp: inherits_def)
qed (rule class_walk_end)

text \<open>What a walk that returns says of the class it started from.\<close>

definition walk_answer :: "class_arena \<Rightarrow> class_symbol_id option \<Rightarrow> class_symbol_id \<Rightarrow> type_panic + bool \<Rightarrow> bool" where
  "walk_answer a cur anc r \<longleftrightarrow>
     (case cur of
        None \<Rightarrow> r = Inr False
      | Some h \<Rightarrow> (h, anc) \<in> (inherits a)\<^sup>* \<or> r \<noteq> Inr True \<and> (\<exists>c. (h, c) \<in> (inherits a)\<^sup>* \<and> base_of a c = None))"

lemma class_walk_answer: "class_walk a cur anc = Some r \<Longrightarrow> walk_answer a cur anc r"
proof (erule class_walk.raw_induct [rotated])
  fix f :: "class_arena \<Rightarrow> class_symbol_id option \<Rightarrow> class_symbol_id \<Rightarrow> (type_panic + bool) option"
    and a cur anc r
  assume ih: "\<And>a cur anc r. f a cur anc = Some r \<Longrightarrow> walk_answer a cur anc r"
    and r: "(case cur of
        None \<Rightarrow> Some (Inr False)
      | Some c \<Rightarrow>
          if c = anc then Some (Inr True)
          else (case class_at a c of
                  None \<Rightarrow> Some (Inl IndexOutOfBounds)
                | Some s \<Rightarrow> f a (cls_base s) anc)) = Some r"
  show "walk_answer a cur anc r"
  proof (cases cur)
    case (Some h)
    show ?thesis
    proof (cases "base_of a h")
      case None
      then show ?thesis using r Some ih [of a None anc r]
        by (cases "h = anc") (auto simp: walk_answer_def base_of_def split: option.splits)
    next
      case (Some b)
      then have l: "(h, b) \<in> inherits a" by (simp add: inherits_def)
      have "h = anc \<or> walk_answer a (Some b) anc r"
        using r \<open>cur = Some h\<close> Some ih [of a "Some b" anc r] by (auto simp: base_of_def split: option.splits if_splits)
      then show ?thesis using \<open>cur = Some h\<close> l
        by (auto simp: walk_answer_def intro: converse_rtrancl_into_rtrancl)
    qed
  qed (use r in \<open>simp add: walk_answer_def\<close>)
qed

text \<open>
  (subclass test): \<open>class_is_subclass\<close> answers true exactly for the classes the base links lead
  to, and it returns exactly if they lead there or end; on a cycle of base links that misses the
  class asked for it never returns.
\<close>

theorem subclass_walk_correct:
  "(class_is_subclass a sub anc = Some (Inr True) \<longleftrightarrow> (sub, anc) \<in> (inherits a)\<^sup>*) \<and>
   (class_is_subclass a sub anc \<noteq> None \<longleftrightarrow>
      (sub, anc) \<in> (inherits a)\<^sup>* \<or> (\<exists>c. (sub, c) \<in> (inherits a)\<^sup>* \<and> base_of a c = None))"
  using class_walk_reaches [of sub anc a] class_walk_returns [of sub _ a anc]
    class_walk_answer [of a "Some sub" anc]
  by (auto simp: class_is_subclass_def walk_answer_def)

lemma cyclic_inheritance_hangs:
  assumes "base_of a h = Some h" "anc \<noteq> h"
  shows "class_is_subclass a h anc = None"
proof -
  have "(h, c) \<in> (inherits a)\<^sup>* \<Longrightarrow> c = h" for c
    by (induction rule: rtrancl_induct) (use assms(1) in \<open>auto simp: inherits_def\<close>)
  then have "\<not> walk_answer a (Some h) anc r" for r
    using assms by (auto simp: walk_answer_def)
  then show ?thesis using class_walk_answer [of a "Some h" anc]
    by (cases "class_walk a (Some h) anc") (simp_all add: class_is_subclass_def)
qed

section \<open>Ordinals of COM interfaces\<close>

text \<open>
  (resolution order): when the classes of a scope inherit from each other without a cycle, in
  whatever order they are declared, resolving the scope leaves every class with a body with the slots
  and fields of its base's final layout in front of its own.
\<close>

theorem scope_classes_laid_out:
  assumes "resolve_classes_in_scope s x = Some x'" "acyclic (links (cc_classes x) (scope_class_ids s))"
    and "h \<in> set (scope_class_ids s)" "class_at (cc_classes x') h = Some c" "body_resolved c"
  shows "laid_out (cc_classes x') h"
  using resolve_scope_settles(1) [OF assms(1-3)] assms(4,5) by (simp add: settled_def)

text \<open>Inheritance through classes of the scope that have bodies.\<close>

definition scope_inherits :: "class_arena \<Rightarrow> class_symbol_id list \<Rightarrow> (class_symbol_id \<times> class_symbol_id) set" where
  "scope_inherits a hs = {(h, b). h \<in> set hs \<and> base_of a h = Some b \<and>
     (\<exists>c. class_at a h = Some c \<and> body_resolved c)}"

lemma laid_out_chain:
  assumes "\<And>h c. h \<in> set hs \<Longrightarrow> class_at a h = Some c \<Longrightarrow> body_resolved c \<Longrightarrow> laid_out a h"
  shows "(h, b) \<in> (scope_inherits a hs)\<^sup>* \<Longrightarrow> class_at a h = Some c \<Longrightarrow>
    \<exists>bc. class_at a b = Some bc \<and> prefix (slot_names (vtable bc)) (slot_names (vtable c))"
proof (induction arbitrary: c rule: converse_rtrancl_induct)
  case (step h g)
  then have "laid_out a h" "base_of a h = Some g" using assms by (auto simp: scope_inherits_def)
  then obtain gc where g: "class_at a g = Some gc" "prefix (slot_names (vtable gc)) (slot_names (vtable c))"
    using step.prems by (auto simp: laid_out_def base_of_def)
  then show ?case using step.IH [OF g(1)] prefix_order.trans by blast
qed auto


lemma sample_ids: "scope_class_ids sample_scope = [0, 1]"
  by (simp add: scope_class_ids_def sample_scope_def scope_iter_def scope_insert_def sample_symbol_def
      scope_new_def map_filter_simps Let_def)

lemma sample_depths: "depth_of sample_classes [0, 1] 0 = Some 1" "depth_of sample_classes [0, 1] 1 = Some 0"
  by (simp_all add: depth_of_def depth_walk.simps sample_defs)

lemma sample_order:
  "resolve_classes_in_scope sample_scope sample_ctx = resolve_each [1, 0] sample_ctx"
  by (simp add: resolve_classes_in_scope_def sample_ids sample_depths sample_ctx_def Let_def)

lemmas resolve_eval = resolve_class_def resolve_fields_def resolve_vtable_def synthesize_object_record_def
  synthesize_vtable_call_sigs_def validate_def abstract_errors_def slot_errors_def interface_errors_def
  sample_defs arena_builtin_def type_alloc_def call_params_def handle_at_def

text \<open>The sample scope resolves without an error: \<open>D\<close> is declared before its base \<open>B\<close>.\<close>

lemma sample_resolves:
  obtains x' d b where "resolve_classes_in_scope sample_scope sample_ctx = Some x'" "cc_errors x' = cc_errors sample_ctx"
    "class_at (cc_classes x') 0 = Some d" "cls_base d = Some 1" "body_resolved d" "cls_base b = None"
    "class_at (cc_classes x') 1 = Some b" "body_resolved b" "\<exists>m \<in> set (own_methods b). declared_slot m = Some 0 \<and> ms_name m = ''f''"
proof -
  have "\<exists>x' d b. resolve_each [1, 0] sample_ctx = Some x' \<and> cc_errors x' = cc_errors sample_ctx \<and>
    class_at (cc_classes x') 0 = Some d \<and> cls_base d = Some 1 \<and> body_resolved d \<and> cls_base b = None \<and>
    class_at (cc_classes x') 1 = Some b \<and> body_resolved b \<and> (\<exists>m \<in> set (own_methods b). declared_slot m = Some 0 \<and> ms_name m = ''f'')"
    by (simp add: resolve_eval Let_def)
  then show thesis using that sample_order by metis
qed

lemma sample_acyclic: "acyclic (links (cc_classes sample_ctx) (scope_class_ids sample_scope))"
proof -
  have "links (cc_classes sample_ctx) (scope_class_ids sample_scope) \<subseteq> {(1, 0)}"
    by (auto simp: links_def sample_ids base_of_def sample_defs)
  moreover have "acyclic {(1 :: class_symbol_id, 0 :: class_symbol_id)}"
    by (simp add: acyclic_def trancl_insert)
  ultimately show ?thesis using acyclic_subset by blast
qed

theorem scope_classes_laid_out_witness:
  "\<exists>x'. resolve_classes_in_scope sample_scope sample_ctx = Some x' \<and> laid_out (cc_classes x') 0"
proof -
  obtain x' d b where x: "resolve_classes_in_scope sample_scope sample_ctx = Some x'"
      "class_at (cc_classes x') 0 = Some d" "body_resolved d"
    using sample_resolves .
  show ?thesis
    using x(1) scope_classes_laid_out [OF x(1) sample_acyclic _ x(2,3)] by (simp add: sample_ids)
qed




text \<open>
  Validation does not look at signatures: an override whose parameters or result differ from those of
  the slot it replaces is accepted, although the comment on \<open>validate\<close> says they must match.
\<close>

lemma override_signature_unchecked:
  "class_at a h = Some c \<Longrightarrow>
    validate a h = Some [] \<Longrightarrow> class_modify h (\<lambda>c. c\<lparr>vtable := map (\<lambda>s. s\<lparr>vs_sig := t\<rparr>) (vtable c)\<rparr>) a = Some a' \<Longrightarrow>
    cls_base c \<noteq> Some h \<Longrightarrow> validate a' h = Some []"
  by (auto simp: validate_def bind_eq_Some_conv class_at_modify abstract_errors_def slot_errors_def
      interface_errors_def filter_map comp_def split: option.splits if_splits)

end
