(* ===== verification/Iid.thy ===== *)
theory Iid
  imports Utf8
begin

text \<open>
  COM interface identifiers (\<open>newm2-sema/src/iid.rs\<close>): the parser of the textual form and what it
  promises, the 16 bytes of the in-memory layout with the first three groups byte-reversed.
\<close>

section \<open>The parser\<close>

datatype iid_error = IidGroupCount string | IidBadGroup string string | IidDigits parse_int_error

definition trim_braces :: "string \<Rightarrow> string" where
  "trim_braces s = rev (dropWhile (\<lambda>c. c = CHR ''}'') (rev (dropWhile (\<lambda>c. c = CHR ''{'') s)))"

definition iid_widths :: "nat list" where
  "iid_widths = [8, 4, 4, 4, 12]"

definition group_ok :: "string \<Rightarrow> nat \<Rightarrow> bool" where
  "group_ok g n \<longleftrightarrow> length g = n \<and> list_all is_ascii_hexdigit g"

fun check_groups :: "string \<Rightarrow> (string \<times> nat) list \<Rightarrow> iid_error + unit" where
  "check_groups s [] = Inr ()"
| "check_groups s ((g, n) # gs) = (if \<not> group_ok g n then Inl (IidBadGroup g s) else check_groups s gs)"

definition hex_value :: "string \<Rightarrow> iid_error + nat" where
  "hex_value g = map_err IidDigits (from_str_radix (2 ^ 64 - 1) 16 g)"

text \<open>\<open>(n as uN).to_le_bytes()\<close> for \<open>k\<close> bytes: the cast drops the bits above them.\<close>

definition le_bytes :: "nat \<Rightarrow> nat \<Rightarrow> 8 word list" where
  "le_bytes k n = map (\<lambda>i. of_nat (n div 256 ^ i)) [0..<k]"

text \<open>\<open>tail\<close> fills the bytes from \<open>i\<close> on, two digits each.\<close>

fun tail_bytes :: "string \<Rightarrow> nat \<Rightarrow> nat \<Rightarrow> iid_error + 8 word list" where
  "tail_bytes g i 0 = Inr []"
| "tail_bytes g i (Suc k) =
     rbind (map_err IidDigits (from_str_radix 255 16 (byte_range g (i * 2) (i * 2 + 2)))) (\<lambda>b.
     rbind (tail_bytes g (i + 1) k) (\<lambda>bs. Inr (of_nat b # bs)))"

definition iid_str_to_le16 :: "string \<Rightarrow> iid_error + 8 word list" where
  "iid_str_to_le16 s =
     (let groups = split_on (CHR ''-'') (trim_braces (str_trim s))
      in if length groups \<noteq> 5 then Inl (IidGroupCount s)
         else
           rbind (check_groups s (zip groups iid_widths)) (\<lambda>_.
           rbind (hex_value (groups ! 0)) (\<lambda>d1.
           rbind (hex_value (groups ! 1)) (\<lambda>d2.
           rbind (hex_value (groups ! 2)) (\<lambda>d3.
           rbind (tail_bytes (groups ! 3) 0 2) (\<lambda>t3.
           rbind (tail_bytes (groups ! 4) 0 6) (\<lambda>t4.
             Inr (le_bytes 4 d1 @ le_bytes 2 d2 @ le_bytes 2 d3 @ t3 @ t4))))))))"

section \<open>The layout\<close>

text \<open>The bytes a run of hexadecimal digits writes, two digits each, in the order written.\<close>

fun written_bytes :: "string \<Rightarrow> nat list" where
  "written_bytes (a # b # cs) = (16 * digit_or_0 16 a + digit_or_0 16 b) # written_bytes cs"
| "written_bytes _ = []"

lemma hexdigit_val: "is_ascii_hexdigit c \<Longrightarrow> digit_val 16 c \<noteq> None"
  by (auto simp: is_ascii_hexdigit_def digit_val_def Let_def ascii_class_defs)

lemma hexdigit_sign: "is_ascii_hexdigit c \<Longrightarrow> c \<noteq> CHR ''+'' \<and> c \<noteq> CHR ''-''"
  by (auto simp: is_ascii_hexdigit_def ascii_class_defs)

lemma digit_or_0_less: "0 < r \<Longrightarrow> digit_or_0 r c < r"
  using digit_val_less [of r c] by (auto simp: digit_or_0_def split: option.splits)

lemma written_bytes_less: "b \<in> set (written_bytes s) \<Longrightarrow> b < 256"
proof (induction s rule: written_bytes.induct)
  case (1 a b' cs)
  then show ?case using digit_or_0_less [of 16 a] digit_or_0_less [of 16 b'] by auto
qed auto

lemma length_written_bytes: "length (written_bytes s) = length s div 2"
  by (induction s rule: written_bytes.induct) auto

lemma positional_pairs:
  "even (length s) \<Longrightarrow>
    foldl (\<lambda>acc c. acc * 16 + digit_or_0 16 c) n s = foldl (\<lambda>acc b. acc * 256 + b) n (written_bytes s)"
  by (induction s arbitrary: n rule: written_bytes.induct) (auto simp: algebra_simps)

lemma le_bytes_Suc: "le_bytes (Suc k) n = of_nat n # le_bytes k (n div 256)"
proof -
  have "[0..<Suc k] = 0 # map Suc [0..<k]" by (simp add: map_Suc_upt upt_conv_Cons)
  then show ?thesis by (simp add: le_bytes_def comp_def div_mult2_eq del: upt_Suc)
qed

lemma of_nat_byte: "b < 256 \<Longrightarrow> (of_nat (n * 256 + b) :: 8 word) = of_nat b"
proof -
  have z: "(of_nat 256 :: 8 word) = 0" by (subst word_of_nat_eq_0_iff) simp
  have "(of_nat (n * 256 + b) :: 8 word) = of_nat n * of_nat 256 + of_nat b"
    by (simp only: of_nat_add of_nat_mult)
  then show ?thesis by (simp only: z mult_zero_right add_0)
qed

text \<open>Little-endian bytes of a big-endian number: the bytes reversed.\<close>

lemma le_bytes_foldl:
  "(\<forall>b \<in> set bs. b < 256) \<Longrightarrow> le_bytes (length bs) (foldl (\<lambda>acc b. acc * 256 + b) 0 bs) = map of_nat (rev bs)"
proof (induction bs rule: rev_induct)
  case (snoc b bs)
  then show ?case by (simp add: le_bytes_Suc of_nat_byte del: of_nat_add of_nat_mult)
qed (simp add: le_bytes_def)

lemma foldl_bytes_bound:
  "(\<forall>b \<in> set bs. b < (256 :: nat)) \<Longrightarrow> foldl (\<lambda>acc b. acc * 256 + b) 0 bs < 256 ^ length bs"
  by (induction bs rule: rev_induct) auto

lemma foldl_value: "positional 16 s = foldl (\<lambda>acc b. acc * 256 + b) 0 (written_bytes s)" if "even (length s)"
  using positional_pairs [OF that] by (simp add: positional_def)

lemma hex_value_group:
  assumes "group_ok g (2 * k)" "0 < k" "k \<le> 8"
  shows "hex_value g = Inr (positional 16 g)" "le_bytes k (positional 16 g) = map of_nat (rev (written_bytes g))"
proof -
  have g: "length g = 2 * k" "\<forall>c \<in> set g. is_ascii_hexdigit c"
    using assms(1) by (auto simp: group_ok_def list_all_iff)
  have e: "even (length g)" "length (written_bytes g) = k" using g(1) by (simp_all add: length_written_bytes)
  have b: "\<forall>b \<in> set (written_bytes g). b < 256" using written_bytes_less by blast
  have "positional 16 g < 256 ^ k" using foldl_bytes_bound [OF b] e by (simp add: foldl_value)
  also have "\<dots> \<le> 256 ^ 8" using assms(3) by (intro power_increasing) simp_all
  finally have le: "positional 16 g \<le> 2 ^ 64 - 1" by simp
  have "g \<noteq> []" using g(1) assms(2) by auto
  then have "hd g \<in> set g" by simp
  then have "from_str_radix (2 ^ 64 - 1) 16 g = Inr (positional 16 g)"
    using from_str_radix_iff [of 16 g "2 ^ 64 - 1" "positional 16 g"] \<open>g \<noteq> []\<close> g(2) le hexdigit_val hexdigit_sign
    by auto
  then show "hex_value g = Inr (positional 16 g)" by (simp add: hex_value_def)
  show "le_bytes k (positional 16 g) = map of_nat (rev (written_bytes g))"
    using le_bytes_foldl [OF b] e by (simp add: foldl_value)
qed

lemma written_bytes_drop:
  "2 * i + 1 < length g \<Longrightarrow> written_bytes (drop (2 * i) g) =
    (16 * digit_or_0 16 (g ! (2 * i)) + digit_or_0 16 (g ! (2 * i + 1))) # written_bytes (drop (2 * (i + 1)) g)"
  by (simp add: Cons_nth_drop_Suc [symmetric])

lemma tail_bytes_group:
  "list_all is_ascii_hexdigit g \<Longrightarrow> length g = 2 * (i + k) \<Longrightarrow>
    tail_bytes g i k = Inr (map of_nat (written_bytes (drop (2 * i) g)))"
proof (induction k arbitrary: i)
  case (Suc k)
  let ?a = "g ! (2 * i)" and ?b = "g ! (2 * i + 1)"
  have l: "2 * i + 1 < length g" using Suc.prems(2) by simp
  have "?a \<in> set g" "?b \<in> set g" using l by (auto intro!: nth_mem)
  then have h: "is_ascii_hexdigit ?a" "is_ascii_hexdigit ?b" using Suc.prems(1) by (auto simp: list_all_iff)
  have r: "byte_range g (i * 2) (i * 2 + 2) = [?a, ?b]"
    using l by (simp add: byte_range_def mult.commute Cons_nth_drop_Suc [symmetric] numeral_2_eq_2)
  have "from_str_radix 255 16 [?a, ?b] = Inr (16 * digit_or_0 16 ?a + digit_or_0 16 ?b)"
    using from_str_radix_iff [of 16 "[?a, ?b]" 255] h hexdigit_val hexdigit_sign
      digit_or_0_less [of 16 ?a] digit_or_0_less [of 16 ?b]
    by (simp add: positional_def)
  then show ?case
    using Suc.IH [of "i + 1"] Suc.prems written_bytes_drop [OF l] r by simp
qed simp

lemma check_groups_ok:
  "check_groups s gs = Inr () \<longleftrightarrow> (\<forall>(g, n) \<in> set gs. group_ok g n)"
  by (induction s gs rule: check_groups.induct) auto

definition iid_groups :: "string \<Rightarrow> string list" where
  "iid_groups s = split_on (CHR ''-'') (trim_braces (str_trim s))"

text \<open>
  C39 (IID layout): a string is accepted exactly if, off its outer blanks and braces, it is five groups
  of 8, 4, 4, 4 and 12 hexadecimal digits, and its 16 bytes are those the digits write, the first
  three groups in reverse order and the last two as written.
\<close>

theorem iid_accepts_iff:
  "iid_str_to_le16 s = Inr bs \<longleftrightarrow>
    (\<exists>a b c d e. iid_groups s = [a, b, c, d, e] \<and> list_all2 group_ok [a, b, c, d, e] [8, 4, 4, 4, 12] \<and>
       bs = map of_nat (rev (written_bytes a) @ rev (written_bytes b) @ rev (written_bytes c) @
              written_bytes d @ written_bytes e))"
    (is "?l \<longleftrightarrow> ?r")
proof -
  have main: "iid_str_to_le16 s = Inr (map of_nat (rev (written_bytes a) @ rev (written_bytes b) @
      rev (written_bytes c) @ written_bytes d @ written_bytes e))"
    if g: "iid_groups s = [a, b, c, d, e]" "list_all2 group_ok [a, b, c, d, e] [8, 4, 4, 4, 12]" for a b c d e
  proof -
    have "tail_bytes d 0 2 = Inr (map of_nat (written_bytes d))" "tail_bytes e 0 6 = Inr (map of_nat (written_bytes e))"
      using g(2) tail_bytes_group [of d 0 2] tail_bytes_group [of e 0 6] by (auto simp: group_ok_def)
    then show ?thesis
      using g hex_value_group [of a 4] hex_value_group [of b 2] hex_value_group [of c 2]
      by (simp add: iid_str_to_le16_def iid_groups_def iid_widths_def check_groups_ok)
  qed
  have "\<exists>a b c d e. iid_groups s = [a, b, c, d, e] \<and> list_all2 group_ok [a, b, c, d, e] [8, 4, 4, 4, 12]" if ?l
  proof -
    from that have "length (iid_groups s) = 5" "check_groups s (zip (iid_groups s) iid_widths) = Inr ()"
      by (auto simp: iid_str_to_le16_def iid_groups_def Let_def split: if_splits)
    then show ?thesis
      by (auto simp: check_groups_ok iid_widths_def numeral_eq_Suc length_Suc_conv)
  qed
  then show ?thesis using main by auto
qed

text \<open>The braces need not match or be single: the trimming removes any number on either side.\<close>

lemma trim_braces_unbalanced: "trim_braces (replicate m (CHR ''{'') @ s @ replicate n (CHR ''}'')) = trim_braces s"
proof -
  have d: "dropWhile P (replicate k c @ t) = dropWhile P t" if "P c" for P k t and c :: char
    using that by (induction k) auto
  have e: "dropWhile (\<lambda>c. c = CHR ''{'') (t @ replicate n (CHR ''}'')) =
      dropWhile (\<lambda>c. c = CHR ''{'') t @ replicate n (CHR ''}'')" for t
    by (induction t) (cases n; simp)+
  show ?thesis by (simp add: trim_braces_def d e)
qed

end
