(* ===== verification/SyntaxTree.thy ===== *)
theory SyntaxTree
  imports Ast
begin

text \<open>
  The rest of the syntax tree (\<open>newm2-parser/src/ast.rs\<close>): pragmas and attributes, type expressions,
  statements, declarations and modules. Conventions are those of \<open>Ast\<close>: enums are datatypes with the
  source's variants, structs outside the recursion are records and those inside it datatypes with one
  constructor whose arguments are the fields in the source's order. \<open>Box\<close> is not visible.
\<close>

section \<open>Pragmas, attributes, labels\<close>

record pragma =
  pragma_body :: string
  pragma_span :: span

record proc_attr =
  pa_name :: string
  pa_args :: "string list"
  pa_span :: span

datatype ast_param_mode = AValue | AVar | AConst

datatype case_label = LSingle expr | LRange expr expr

section \<open>Type expressions\<close>

datatype type_expr =
    TyNamed qual_name
  | TySubrange expr expr span
  | TyEnum "string list" "expr option list" span
  | TyArray "type_expr list" type_expr span
  | TyOpenArray type_expr span
  | TyRecord record_type
  | TyPointer type_expr span
  | TyProc "proc_type_param list" "type_expr option" "proc_attr list" span
  | TySet bool type_expr span
and record_type = RecordType "record_field list" "variant_part option" span
and record_field = RecordField "string list" type_expr "pragma list" bool span
and variant_part =
    VariantPart "string option" "qual_name option" "variant_arm list" "record_field list option" span
and variant_arm = VariantArm "case_label list" "record_field list" "variant_part option" span
and proc_type_param = ProcTypeParam ast_param_mode type_expr "pragma list"

section \<open>Statements\<close>

datatype stmt =
    SEmpty span
  | SAssign designator expr span
  | SCall expr span
  | SIf "(expr \<times> stmt list) list" "stmt list option" span
  | SCase expr "case_arm list" "stmt list option" span
  | SGuard expr "guard_arm list" "stmt list option" span
  | SWhile expr "stmt list" span
  | SRepeat "stmt list" expr span
  | SFor string expr expr "expr option" "stmt list" span
  | SLoop "stmt list" span
  | SWith designator "stmt list" span
  | SExit span
  | SReturn "expr option" span
  | SRaise "expr option" span
  | SRetry span
  | SBlock block
and case_arm = CaseArm "case_label list" "stmt list" span
and guard_arm = GuardArm "string option" span qual_name "stmt list" span
and block = Block "stmt list" "except_arm list" "stmt list option" span
and except_arm = ExceptArm "qual_name list" "stmt list" span

section \<open>Declarations and modules\<close>

record import_name =
  in_name :: string
  in_alias :: "string option"
  in_span :: span

datatype ast_import = IFrom string "string list" span | IPlain "import_name list" span

datatype module_kind = MDefinition | MImplementation | MProgram | MLocal

datatype ast_class_kind = CkClass | CkInterface

record const_decl =
  cd_name :: string
  cd_value :: expr
  cd_exported :: bool
  cd_span :: span

record type_decl =
  td_name :: string
  td_def :: "type_expr option"
  td_exported :: bool
  td_span :: span

record var_decl =
  vd_names :: "string list"
  vd_ty :: type_expr
  vd_address :: "expr option"
  vd_pragmas :: "pragma list"
  vd_exported :: bool
  vd_span :: span

record proc_external_linkage =
  pl_link_name :: string_literal
  pl_dll_name :: "string_literal option"
  pl_is_external :: bool
  pl_span :: span

record param =
  pm_mode :: ast_param_mode
  pm_names :: "string list"
  pm_ty :: type_expr
  pm_pragmas :: "pragma list"
  pm_span :: span

text \<open>\<open>Decl\<close> and what it nests: \<open>ClassDecl\<close>, \<open>ClassMember\<close>, \<open>MethodDecl\<close>, \<open>ProcDecl\<close>, \<open>ProcBody\<close>, \<open>Module\<close>.\<close>

datatype decl =
    DConst const_decl
  | DType type_decl
  | DVar var_decl
  | DProcedure proc_decl
  | DPragma pragma
  | DLocalModule ast_module
  | DExport bool "string list" span
  | DClass class_decl
and class_decl =
    ClassDecl string ast_class_kind bool bool "string option" "qual_name list" "qual_name option" "string list"
      "class_member list" bool span
and class_member = MField var_decl | MMethod method_decl | MPragma pragma
and method_decl =
    MethodDecl string bool bool "param list" "type_expr option" "proc_attr list" "proc_body option" "pragma list" span
and proc_decl =
    ProcDecl string "proc_external_linkage option" "param list" "type_expr option" "proc_attr list"
      "proc_body option" "string option" bool "pragma list" bool span
and proc_body = ProcBody "decl list" block
and ast_module =
    AstModule module_kind string "expr option" "pragma list" "ast_import list" "decl list" "block option" span

end
