(* ===== verification/ParserCore.thy ===== *)
theory ParserCore
  imports SyntaxTree
begin

text \<open>
  The token cursor of the parser (\<open>newm2-parser/src/parser.rs\<close>, the first part of \<open>Parser\<close>): its
  state, looking at and consuming tokens, soft keywords, identifier lists and qualified names.

  A parsing routine is a function of the parser's state; it fails with the source's error, or by the
  panic of an index past the tokens, or because its fuel is spent. Loops and recursion of the source
  take fuel, one unit for each round or call; \<open>ParserLogic\<close> shows that the number of tokens left is
  enough. What the parser calls of the standard library's formatter (\<open>f64::to_string\<close> and the debug
  form of a string) is a field of the state, used only when there is no source text.
\<close>

section \<open>State and results\<close>

datatype parse_message =
    ExpectedEof token_kind
  | ExpectedKeyword keyword
  | ExpectedIdent token_kind
  | ExpectedString token_kind
  | ExpectedKind string token_kind
  | ExpectedExpression token_kind
  | ExpectedType token_kind
  | ExpectedStatement token_kind
  | ExpectedAttribute
  | ExpectedAs
  | ExpectedModule token_kind
  | EndMismatch string string string
  | ExpectedClass
  | UnterminatedClass
  | UnexpectedInClass token_kind
  | ExpectedGuid
  | UnterminatedAsm

datatype parse_failure = ParseError parse_message span | IndexPanic | OutOfFuel

record parser =
  toks :: "token list"
  source :: string
  pos :: nat
  real_text :: "f64 \<Rightarrow> string"
  debug_text :: "string \<Rightarrow> string"

type_synonym 'a parse = "parser \<Rightarrow> parse_failure + ('a \<times> parser)"

definition pret :: "'a \<Rightarrow> 'a parse" where
  "pret a p = Inr (a, p)"

definition pbind :: "'a parse \<Rightarrow> ('a \<Rightarrow> 'b parse) \<Rightarrow> 'b parse" where
  "pbind m f p = rbind (m p) (\<lambda>(a, p'). f a p')"

definition pfail :: "parse_failure \<Rightarrow> 'a parse" where
  "pfail e p = Inl e"

definition between :: "span \<Rightarrow> position \<Rightarrow> span" where
  "between start e = \<lparr>span_start = span_start start, span_end = e\<rparr>"

text \<open>The data a kind carries, for the \<open>match\<close> arms that bind it.\<close>

fun ident_of :: "token_kind \<Rightarrow> string option" where
  "ident_of (TIdent n) = Some n"
| "ident_of _ = None"

fun pragma_of :: "token_kind \<Rightarrow> string option" where
  "pragma_of (TPragma b) = Some b"
| "pragma_of _ = None"

fun string_of :: "token_kind \<Rightarrow> string_literal option" where
  "string_of (TString s) = Some s"
| "string_of _ = None"

fun keyword_of :: "token_kind \<Rightarrow> keyword option" where
  "keyword_of (TKeyword k) = Some k"
| "keyword_of _ = None"

section \<open>The cursor\<close>

definition token_at :: "nat \<Rightarrow> token parse" where
  "token_at i p = (if i < length (toks p) then Inr (toks p ! i, p) else Inl IndexPanic)"

definition peek_token :: "token parse" where
  "peek_token p = token_at (pos p) p"

definition peek_kind :: "token_kind parse" where
  "peek_kind = pbind peek_token (\<lambda>t. pret (kind t))"

definition peek_span :: "span parse" where
  "peek_span = pbind peek_token (\<lambda>t. pret (tok_span t))"

text \<open>\<open>self.peek_at(offset).map(|t| &t.kind)\<close>\<close>

definition peek_kind_at :: "nat \<Rightarrow> token_kind option parse" where
  "peek_kind_at i p =
     Inr (if pos p + i < length (toks p) then Some (kind (toks p ! (pos p + i))) else None, p)"

text \<open>\<open>matches!(self.peek_at(i).map(|t| &t.kind), Some(TokenKind::Ident(_)))\<close>, and for a given kind.\<close>

definition ident_at :: "nat \<Rightarrow> bool parse" where
  "ident_at i = pbind (peek_kind_at i) (\<lambda>k. pret (Option.bind k ident_of \<noteq> None))"

definition string_at :: "nat \<Rightarrow> bool parse" where
  "string_at i = pbind (peek_kind_at i) (\<lambda>k. pret (Option.bind k string_of \<noteq> None))"

definition bump :: "token parse" where
  "bump = pbind peek_token (\<lambda>t p. Inr (t, if kind t \<noteq> TEof then p\<lparr>pos := pos p + 1\<rparr> else p))"

text \<open>\<open>self.toks[self.pos.saturating_sub(1)].span.end\<close>, and the same index without saturation.\<close>

definition prev_end :: "position parse" where
  "prev_end p = pbind (token_at (pos p - 1)) (\<lambda>t. pret (span_end (tok_span t))) p"

definition prev_span :: "span parse" where
  "prev_span p =
     (if pos p = 0 then Inl IndexPanic else pbind (token_at (pos p - 1)) (\<lambda>t. pret (tok_span t)) p)"

definition perr :: "parse_message \<Rightarrow> 'a parse" where
  "perr msg = pbind peek_span (\<lambda>sp. pfail (ParseError msg sp))"

definition perr_at :: "span \<Rightarrow> parse_message \<Rightarrow> 'a parse" where
  "perr_at sp msg = pfail (ParseError msg sp)"

definition expect_eof :: "unit parse" where
  "expect_eof = pbind peek_kind (\<lambda>k. if k = TEof then pret () else perr (ExpectedEof k))"

definition at_kw :: "keyword \<Rightarrow> bool parse" where
  "at_kw kw = pbind peek_kind (\<lambda>k. pret (k = TKeyword kw))"

text \<open>
  \<open>at_kind\<close>, \<open>eat_kind\<close> and \<open>expect_kind\<close> compare discriminants; the parser calls them with
  punctuation only, whose variants carry no data, so it is equality.
\<close>

definition at_kind :: "token_kind \<Rightarrow> bool parse" where
  "at_kind t = pbind peek_kind (\<lambda>k. pret (k = t))"

definition at_ellipsis :: "bool parse" where
  "at_ellipsis = pbind peek_kind (\<lambda>k. pbind (peek_kind_at 1) (\<lambda>k1. pret (k = TDotDot \<and> k1 = Some TDot)))"

definition eat_ellipsis :: "unit parse" where
  "eat_ellipsis = pbind bump (\<lambda>_. pbind bump (\<lambda>_. pret ()))"

definition eat_kw :: "keyword \<Rightarrow> bool parse" where
  "eat_kw kw = pbind (at_kw kw) (\<lambda>b. if b then pbind bump (\<lambda>_. pret True) else pret False)"

definition expect_kw :: "keyword \<Rightarrow> span parse" where
  "expect_kw kw = pbind peek_kind (\<lambda>k.
     if k = TKeyword kw then pbind peek_span (\<lambda>sp. pbind bump (\<lambda>_. pret sp))
     else perr (ExpectedKeyword kw))"

definition expect_ident :: "(string \<times> span) parse" where
  "expect_ident = pbind peek_kind (\<lambda>k.
     case ident_of k of
       Some n \<Rightarrow> pbind peek_span (\<lambda>sp. pbind bump (\<lambda>_. pret (n, sp)))
     | None \<Rightarrow> perr (ExpectedIdent k))"

definition expect_string_literal :: "(string_literal \<times> span) parse" where
  "expect_string_literal = pbind peek_kind (\<lambda>k.
     case string_of k of
       Some lit \<Rightarrow> pbind peek_span (\<lambda>sp. pbind bump (\<lambda>_. pret (lit, sp)))
     | None \<Rightarrow> perr (ExpectedString k))"

definition expect_kind :: "token_kind \<Rightarrow> string \<Rightarrow> span parse" where
  "expect_kind t what = pbind peek_kind (\<lambda>k.
     if k = t then pbind peek_span (\<lambda>sp. pbind bump (\<lambda>_. pret sp))
     else perr (ExpectedKind what k))"

definition eat_kind :: "token_kind \<Rightarrow> bool parse" where
  "eat_kind t = pbind (at_kind t) (\<lambda>b. if b then pbind bump (\<lambda>_. pret True) else pret False)"

definition eat_soft_kw :: "string \<Rightarrow> bool parse" where
  "eat_soft_kw expected = pbind peek_kind (\<lambda>k.
     if k = TIdent expected then pbind bump (\<lambda>_. pret True) else pret False)"

section \<open>Pragmas, names, brackets\<close>

fun collect_pragmas :: "nat \<Rightarrow> pragma list parse" where
  "collect_pragmas 0 = pfail OutOfFuel"
| "collect_pragmas (Suc n) = pbind peek_kind (\<lambda>k.
     case pragma_of k of
       Some body \<Rightarrow> pbind peek_span (\<lambda>sp. pbind bump (\<lambda>_.
         pbind (collect_pragmas n) (\<lambda>out. pret (\<lparr>pragma_body = body, pragma_span = sp\<rparr> # out))))
     | None \<Rightarrow> pret [])"

text \<open>\<open>while matches!(self.peek_kind(), TokenKind::Pragma(_)) { self.bump(); }\<close>\<close>

definition skip_pragmas :: "nat \<Rightarrow> unit parse" where
  "skip_pragmas n = pbind (collect_pragmas n) (\<lambda>_. pret ())"

text \<open>\<open>while self.eat_kind(&Comma) { names.push(self.expect_ident()?.0) }\<close>\<close>

fun more_idents :: "nat \<Rightarrow> string list parse" where
  "more_idents 0 = pfail OutOfFuel"
| "more_idents (Suc n) = pbind (eat_kind TComma) (\<lambda>b.
     if b then pbind expect_ident (\<lambda>(x, _). pbind (more_idents n) (\<lambda>xs. pret (x # xs)))
     else pret [])"

definition parse_ident_list :: "nat \<Rightarrow> string list parse" where
  "parse_ident_list n = pbind expect_ident (\<lambda>(x, _). pbind (more_idents n) (\<lambda>xs. pret (x # xs)))"

text \<open>The loop of \<open>parse_qual_name\<close>: a dot is consumed only before an identifier.\<close>

fun qual_rest :: "nat \<Rightarrow> position \<Rightarrow> (string list \<times> position) parse" where
  "qual_rest 0 e = pfail OutOfFuel"
| "qual_rest (Suc n) e = pbind (at_kind TDot) (\<lambda>dot.
     if dot then
       pbind (ident_at 1) (\<lambda>ident.
         if ident then
           pbind bump (\<lambda>_. pbind expect_ident (\<lambda>(x, sp).
             pbind (qual_rest n (span_end sp)) (\<lambda>(xs, e'). pret (x # xs, e'))))
         else pret ([], e))
     else pret ([], e))"

definition parse_qual_name :: "nat \<Rightarrow> qual_name parse" where
  "parse_qual_name n = pbind expect_ident (\<lambda>(x, sp).
     pbind (qual_rest n (span_end sp)) (\<lambda>(xs, e).
       pret \<lparr>segments = x # xs, qn_span = between sp e\<rparr>))"

definition parse_designator_base :: "qual_name parse" where
  "parse_designator_base = pbind expect_ident (\<lambda>(x, sp). pret \<lparr>segments = [x], qn_span = sp\<rparr>)"

text \<open>The scan of \<open>dotted_ident_run_followed_by_lbrace\<close>, on the kinds from \<open>offset\<close> on.\<close>

fun dotted_run_lbrace :: "token_kind list \<Rightarrow> bool" where
  "dotted_run_lbrace (k # k1 # ks) =
     (if k = TDot \<and> ident_of k1 \<noteq> None then dotted_run_lbrace ks else k = TLBrace)"
| "dotted_run_lbrace [k] \<longleftrightarrow> k = TLBrace"
| "dotted_run_lbrace [] \<longleftrightarrow> False"

definition dotted_ident_run_followed_by_lbrace :: "bool parse" where
  "dotted_ident_run_followed_by_lbrace = pbind peek_kind (\<lambda>k.
     if ident_of k = None then pret False
     else (\<lambda>p. Inr (dotted_run_lbrace (map kind (drop (pos p + 1) (toks p))), p)))"

text \<open>The loop of \<open>skip_brackets\<close>, at depth \<open>d\<close>.\<close>

fun skip_to_depth :: "nat \<Rightarrow> nat \<Rightarrow> unit parse" where
  "skip_to_depth 0 d = pfail OutOfFuel"
| "skip_to_depth (Suc n) d =
     (if d = 0 then pret ()
      else pbind peek_kind (\<lambda>k.
        if k = TLBracket then pbind bump (\<lambda>_. skip_to_depth n (d + 1))
        else if k = TRBracket then pbind bump (\<lambda>_. skip_to_depth n (d - 1))
        else if k = TEof then pret ()
        else pbind bump (\<lambda>_. skip_to_depth n d)))"

definition skip_brackets :: "nat \<Rightarrow> unit parse" where
  "skip_brackets n = pbind (eat_kind TLBracket) (\<lambda>b. if b then skip_to_depth n 1 else pret ())"

text \<open>
  The scan of \<open>bracketed_run_contains_dotdot\<close> past the opening bracket; its depth is an \<open>i32\<close>,
  here an integer (a source has fewer than \<open>2\<^sup>3\<^sup>1\<close> brackets).
\<close>

fun run_has_dotdot :: "int \<Rightarrow> token_kind list \<Rightarrow> bool" where
  "run_has_dotdot d [] = False"
| "run_has_dotdot d (k # ks) =
     (if k \<in> {TLBracket, TLParen, TLBrace} then run_has_dotdot (d + 1) ks
      else if k = TRBracket \<and> d = 0 then False
      else if k \<in> {TRBracket, TRParen, TRBrace} then run_has_dotdot (d - 1) ks
      else if k = TDotDot \<and> d = 0 then True
      else if k = TEof then False
      else run_has_dotdot d ks)"

definition bracketed_run_contains_dotdot :: "bool parse" where
  "bracketed_run_contains_dotdot p =
     Inr (case map kind (drop (pos p) (toks p)) of
            [] \<Rightarrow> False
          | k # ks \<Rightarrow> k = TLBracket \<and> run_has_dotdot 0 ks, p)"

end
