(* ===== verification/ParserLogic.thy ===== *)
theory ParserLogic
  imports ParserCore
begin

text \<open>
  A small logic for parsing routines. \<open>agree C k N m m'\<close> says of two runs of a routine, with two
  amounts of fuel: from a well-formed state whose current kind satisfies \<open>C\<close> and which has fewer than
  \<open>N\<close> tokens left, they do the same, which is either an error located at a token or a result with at
  least \<open>k\<close> tokens consumed; never a panic, never spent fuel. The rules follow the routines' syntax.
\<close>

named_theorems agree_rules

section \<open>Monad laws\<close>

lemma pbind_ret [simp]: "pbind (pret a) f = f a"
  by (rule ext) (simp add: pbind_def pret_def)

lemma pbind_pret [simp]: "pbind m pret = m"
  by (rule ext) (simp add: pbind_def pret_def rbind_def split: sum.splits prod.splits)

lemma pbind_fail [simp]: "pbind (pfail e) f = pfail e"
  by (rule ext) (simp add: pbind_def pfail_def)

lemma pbind_assoc: "pbind (pbind m f) g = pbind m (\<lambda>a. pbind (f a) g)"
  by (rule ext) (simp add: pbind_def rbind_def split: sum.splits prod.splits)

lemma pbind_if: "pbind (if b then m else n) f = (if b then pbind m f else pbind n f)"
  by simp

section \<open>Well-formed states\<close>

text \<open>The tokens end with the end-of-file token, as \<open>tokenize\<close> returns them.\<close>

definition ready :: "parser \<Rightarrow> bool" where
  "ready p \<longleftrightarrow> pos p < length (toks p) \<and> kind (last (toks p)) = TEof"

definition left :: "parser \<Rightarrow> nat" where
  "left p = length (toks p) - 1 - pos p"

definition cur :: "parser \<Rightarrow> token_kind" where
  "cur p = kind (toks p ! pos p)"

definition moved :: "nat \<Rightarrow> parser \<Rightarrow> parser \<Rightarrow> bool" where
  "moved k p p' \<longleftrightarrow> (\<exists>j \<ge> k. p' = p\<lparr>pos := pos p + j\<rparr> \<and> ready p')"

text \<open>
  An error is located at a token. Only the assembly bodies of procedures make the parser panic or run
  on for ever: neither happens without an \<open>ASM\<close> token, and a panic only if the tokens do not lie in
  order within the source text.
\<close>

definition has_asm :: "parser \<Rightarrow> bool" where
  "has_asm p \<longleftrightarrow> TKeyword KAsm \<in> kind ` set (toks p)"

definition covered :: "parser \<Rightarrow> bool" where
  "covered p \<longleftrightarrow>
     sorted (map (offset \<circ> span_start \<circ> tok_span) (toks p)) \<and>
     (\<forall>t \<in> set (toks p). offset (span_start (tok_span t)) \<le> length (source p))"

fun located_at :: "parser \<Rightarrow> parse_failure \<Rightarrow> bool" where
  "located_at p (ParseError msg sp) \<longleftrightarrow> (\<exists>t \<in> set (toks p). sp = tok_span t)"
| "located_at p IndexPanic \<longleftrightarrow> has_asm p \<and> \<not> covered p"
| "located_at p OutOfFuel \<longleftrightarrow> has_asm p"

definition outcome :: "nat \<Rightarrow> parser \<Rightarrow> parse_failure + ('a \<times> parser) \<Rightarrow> bool" where
  "outcome k p r \<longleftrightarrow> (case r of Inl e \<Rightarrow> located_at p e | Inr (a, p') \<Rightarrow> moved k p p')"

definition agree :: "(token_kind \<Rightarrow> bool) \<Rightarrow> nat \<Rightarrow> nat \<Rightarrow> 'a parse \<Rightarrow> 'a parse \<Rightarrow> bool" where
  "agree C k N m m' \<longleftrightarrow> (\<forall>p. ready p \<and> left p < N \<and> C (cur p) \<longrightarrow> m p = m' p \<and> outcome k p (m' p))"

abbreviation always :: "token_kind \<Rightarrow> bool" where
  "always \<equiv> \<lambda>k. True"

lemma agreeI:
  "(\<And>p. ready p \<Longrightarrow> left p < N \<Longrightarrow> C (cur p) \<Longrightarrow> m p = m' p \<and> outcome k p (m' p)) \<Longrightarrow> agree C k N m m'"
  unfolding agree_def by blast

lemma agreeD:
  "agree C k N m m' \<Longrightarrow> ready p \<Longrightarrow> left p < N \<Longrightarrow> C (cur p) \<Longrightarrow> m p = m' p \<and> outcome k p (m' p)"
  unfolding agree_def by blast

lemma moved_trans: "moved j p q \<Longrightarrow> moved k q r \<Longrightarrow> moved (j + k) p r"
proof -
  assume "moved j p q" "moved k q r"
  then obtain i i' where "j \<le> i" "q = p\<lparr>pos := pos p + i\<rparr>" "k \<le> i'" "r = q\<lparr>pos := pos q + i'\<rparr>" "ready r"
    unfolding moved_def by blast
  then show ?thesis unfolding moved_def by (intro exI [of _ "i + i'"]) (simp add: add.assoc)
qed

lemma moved_mono: "moved j p q \<Longrightarrow> k \<le> j \<Longrightarrow> moved k p q"
  unfolding moved_def using le_trans by blast

lemma moved_ready: "moved k p q \<Longrightarrow> ready q"
  by (auto simp: moved_def)

lemma moved_left: "moved k p q \<Longrightarrow> ready p \<Longrightarrow> left q + k \<le> left p"
  by (auto simp: moved_def ready_def left_def)

lemma moved_toks: "moved k p q \<Longrightarrow> toks q = toks p"
  by (auto simp: moved_def)

lemma moved_source: "moved k p q \<Longrightarrow> source q = source p"
  by (auto simp: moved_def)

lemma moved_refl: "ready p \<Longrightarrow> moved 0 p p"
  by (auto simp: moved_def intro!: exI [of _ 0])

lemma located_moved: "moved k p q \<Longrightarrow> located_at q e \<longleftrightarrow> located_at p e"
  by (cases e) (simp_all add: moved_toks moved_source has_asm_def covered_def)

lemma outcome_moved: "moved j p q \<Longrightarrow> outcome k q r \<Longrightarrow> outcome (j + k) p r"
  by (auto simp: outcome_def located_moved moved_trans split: sum.splits)

lemma outcome_mono: "outcome j p r \<Longrightarrow> k \<le> j \<Longrightarrow> outcome k p r"
  by (auto simp: outcome_def intro: moved_mono split: sum.splits)

section \<open>Rules\<close>

lemma agree_mono: "agree C k N m m' \<Longrightarrow> M \<le> N \<Longrightarrow> j \<le> k \<Longrightarrow> (\<And>t. D t \<Longrightarrow> C t) \<Longrightarrow> agree D j M m m'"
proof (rule agreeI)
  fix p assume a: "agree C k N m m'" "M \<le> N" "j \<le> k" "\<And>t. D t \<Longrightarrow> C t" and p: "ready p" "left p < M" "D (cur p)"
  have "m p = m' p \<and> outcome k p (m' p)" using agreeD [OF a(1) p(1)] a p by auto
  then show "m p = m' p \<and> outcome j p (m' p)"
    using a(3) unfolding outcome_def by (auto intro: moved_mono split: sum.splits)
qed

lemma agree_bind:
  assumes "agree C j N m m'" and "\<And>a. agree always k (N - j) (f a) (f' a)"
  shows "agree C (j + k) N (pbind m f) (pbind m' f')"
proof (rule agreeI)
  fix p assume p: "ready p" "left p < N" "C (cur p)"
  note m = agreeD [OF assms(1) p]
  show "pbind m f p = pbind m' f' p \<and> outcome (j + k) p (pbind m' f' p)"
  proof (cases "m p")
    case (Inl e)
    then show ?thesis using m by (auto simp: pbind_def outcome_def)
  next
    case (Inr r)
    obtain a q where r: "m p = Inr (a, q)" using Inr by (cases r) auto
    then have mv: "moved j p q" using m by (auto simp: outcome_def split: sum.splits)
    have q: "ready q" "left q < N - j" using moved_ready [OF mv] moved_left [OF mv p(1)] p(2) by auto
    have "m' p = Inr (a, q)" using m r by metis
    moreover have "f a q = f' a q" "outcome (j + k) p (f' a q)"
      using agreeD [OF assms(2) q, of a] outcome_moved [OF mv] by auto
    ultimately show ?thesis using r by (simp add: pbind_def)
  qed
qed

text \<open>The two uses of it: before anything is consumed, and after.\<close>

lemma agree_bind0:
  "agree C 0 N m m' \<Longrightarrow> (\<And>a. agree always k N (f a) (f' a)) \<Longrightarrow> agree C k N (pbind m f) (pbind m' f')"
  using agree_bind [of C 0 N m m' k f f'] by simp

lemma agree_bind1:
  assumes m: "agree C 1 N m m'" and f: "\<And>a. agree always 0 (N - 1) (f a) (f' a)" and k: "k \<le> 1"
  shows "agree C k N (pbind m f) (pbind m' f')"
  by (rule agree_mono [OF agree_bind [OF m f]]) (use k in auto)

lemma agree_ret [agree_rules]: "agree C 0 N (pret a) (pret a)"
  by (auto simp: agree_def outcome_def pret_def moved_refl)

lemma agree_empty [agree_rules]: "agree C k 0 m m'"
  by (simp add: agree_def)

lemma agree_if [agree_rules]:
  "(b \<Longrightarrow> agree C k N m m') \<Longrightarrow> (\<not> b \<Longrightarrow> agree C k N n n') \<Longrightarrow>
     agree C k N (if b then m else n) (if b then m' else n')"
  by simp

lemma agree_option [agree_rules]:
  "(x = None \<Longrightarrow> agree C k N m m') \<Longrightarrow> (\<And>a. x = Some a \<Longrightarrow> agree C k N (f a) (f' a)) \<Longrightarrow>
     agree C k N (case x of None \<Rightarrow> m | Some a \<Rightarrow> f a) (case x of None \<Rightarrow> m' | Some a \<Rightarrow> f' a)"
  by (cases x) simp_all

lemma agree_prod [agree_rules]:
  "(\<And>a b. x = (a, b) \<Longrightarrow> agree C k N (f a b) (f' a b)) \<Longrightarrow>
     agree C k N (case x of (a, b) \<Rightarrow> f a b) (case x of (a, b) \<Rightarrow> f' a b)"
  by (cases x) simp

section \<open>The cursor\<close>

lemma peek_token_ready: "ready p \<Longrightarrow> peek_token p = Inr (toks p ! pos p, p)"
  by (simp add: peek_token_def token_at_def ready_def)

lemma peek_kind_ready [simp]: "ready p \<Longrightarrow> peek_kind p = Inr (cur p, p)"
  by (simp add: peek_kind_def pbind_def pret_def peek_token_ready cur_def)

lemma peek_span_ready [simp]: "ready p \<Longrightarrow> peek_span p = Inr (tok_span (toks p ! pos p), p)"
  by (simp add: peek_span_def pbind_def pret_def peek_token_ready)

lemma bump_ready: "ready p \<Longrightarrow> cur p \<noteq> TEof \<Longrightarrow> bump p = Inr (toks p ! pos p, p\<lparr>pos := pos p + 1\<rparr>) \<and>
  ready (p\<lparr>pos := pos p + 1\<rparr>)"
proof -
  assume p: "ready p" "cur p \<noteq> TEof"
  have "pos p \<noteq> length (toks p) - 1"
    using p by (cases "toks p = []") (auto simp: ready_def cur_def last_conv_nth)
  then have "pos p + 1 < length (toks p)" using p unfolding ready_def by linarith
  then show ?thesis using p by (simp add: bump_def pbind_def peek_token_ready ready_def cur_def)
qed

text \<open>Looking at the current kind: what follows may rely on it.\<close>

lemma agree_peek_kind [agree_rules]:
  assumes "\<And>t. C t \<Longrightarrow> agree (\<lambda>k. k = t) k N (f t) (f' t)"
  shows "agree C k N (pbind peek_kind f) (pbind peek_kind f')"
proof (rule agreeI)
  fix p assume p: "ready p" "left p < N" "C (cur p)"
  show "pbind peek_kind f p = pbind peek_kind f' p \<and> outcome k p (pbind peek_kind f' p)"
    using agreeD [OF assms [OF p(3)] p(1,2) refl] p(1) by (simp add: pbind_def)
qed

text \<open>Looking at anything else leaves what is known of the current kind.\<close>

definition looks :: "'a parse \<Rightarrow> bool" where
  "looks m \<longleftrightarrow> (\<forall>p. ready p \<longrightarrow> (\<exists>a. m p = Inr (a, p)))"

lemma agree_look:
  assumes "looks m" and "\<And>a. agree C k N (f a) (f' a)"
  shows "agree C k N (pbind m f) (pbind m f')"
proof (rule agreeI)
  fix p assume p: "ready p" "left p < N" "C (cur p)"
  obtain a where "m p = Inr (a, p)" using assms(1) p(1) unfolding looks_def by blast
  then show "pbind m f p = pbind m f' p \<and> outcome k p (pbind m f' p)"
    using agreeD [OF assms(2) p] by (simp add: pbind_def)
qed

lemma looks_cursor [simp]:
  "looks peek_span" "looks (peek_kind_at i)" "looks (ident_at i)" "looks (string_at i)" "looks prev_end"
  "looks bracketed_run_contains_dotdot" "looks dotted_ident_run_followed_by_lbrace" "looks (at_kind t)"
  "looks (at_kw kw)" "looks peek_kind"
  by (auto simp: looks_def peek_kind_at_def ident_at_def string_at_def prev_end_def pbind_def pret_def token_at_def
      bracketed_run_contains_dotdot_def dotted_ident_run_followed_by_lbrace_def at_kind_def at_kw_def)
    (simp_all add: ready_def less_imp_diff_less)

lemmas [agree_rules] =
  agree_look [OF looks_cursor(1)] agree_look [OF looks_cursor(2)] agree_look [OF looks_cursor(3)]
  agree_look [OF looks_cursor(4)] agree_look [OF looks_cursor(5)] agree_look [OF looks_cursor(6)]
  agree_look [OF looks_cursor(7)]

lemma agree_perr [agree_rules]: "agree C k N (perr msg) (perr msg)"
proof (rule agreeI)
  fix p assume "ready p"
  then show "perr msg p = perr msg p \<and> outcome k p (perr msg p)"
    by (auto simp: perr_def pbind_def pfail_def outcome_def ready_def peek_span_def peek_token_def
        token_at_def pret_def)
qed

lemma agree_bump: "(\<And>t. C t \<Longrightarrow> t \<noteq> TEof) \<Longrightarrow> agree C 1 N bump bump"
proof (rule agreeI)
  fix p assume C: "\<And>t. C t \<Longrightarrow> t \<noteq> TEof" and p: "ready p" "C (cur p)"
  show "bump p = bump p \<and> outcome 1 p (bump p)"
    using bump_ready [OF p(1) C [OF p(2)]] by (auto simp: outcome_def moved_def intro!: exI [of _ 1])
qed

lemma agree_bump_bind [agree_rules]:
  "(\<And>t. C t \<Longrightarrow> t \<noteq> TEof) \<Longrightarrow> (\<And>a. agree always 0 (N - 1) (f a) (f' a)) \<Longrightarrow> k \<le> 1 \<Longrightarrow>
     agree C k N (pbind bump f) (pbind bump f')"
  by (rule agree_bind1 [OF agree_bump])


text \<open>A token may always be skipped, though the last one is not consumed; after one that was, there is a previous one.\<close>

lemma agree_bump0: "agree C 0 N bump bump"
proof (rule agreeI)
  fix p assume p: "ready p"
  show "bump p = bump p \<and> outcome 0 p (bump p)"
  proof (cases "cur p = TEof")
    case True
    then show ?thesis using p moved_refl [OF p]
      by (simp add: bump_def pbind_def peek_token_ready cur_def outcome_def)
  next
    case False
    then show ?thesis using bump_ready [OF p False]
      by (auto simp: outcome_def moved_def intro!: exI [of _ 1])
  qed
qed

lemma agree_bump_prev [agree_rules]:
  assumes C: "\<And>t. C t \<Longrightarrow> t \<noteq> TEof" and f: "\<And>sp. agree always 0 (N - 1) (f sp) (f' sp)" and k: "k \<le> 1"
  shows "agree C k N (pbind bump (\<lambda>_. pbind prev_span f)) (pbind bump (\<lambda>_. pbind prev_span f'))"
proof (rule agreeI)
  fix p assume p: "ready p" "left p < N" "C (cur p)"
  let ?q = "p\<lparr>pos := pos p + 1\<rparr>"
  have b: "bump p = Inr (toks p ! pos p, ?q)" "ready ?q" using bump_ready [OF p(1) C [OF p(3)]] by auto
  have s: "prev_span ?q = Inr (tok_span (toks p ! pos p), ?q)"
    using p(1) by (simp add: prev_span_def token_at_def pbind_def pret_def ready_def)
  have mv: "moved 1 p ?q" using b(2) by (auto simp: moved_def)
  have "left ?q < N - 1" using moved_left [OF mv p(1)] p(2) by auto
  then have eq: "f sp ?q = f' sp ?q" and out: "outcome 0 ?q (f' sp ?q)" for sp
    using agreeD [OF f b(2)] by auto
  have "outcome k p (f' sp ?q)" for sp
    using outcome_mono [OF outcome_moved [OF mv out]] k by simp
  then show "pbind bump (\<lambda>_. pbind prev_span f) p = pbind bump (\<lambda>_. pbind prev_span f') p \<and>
      outcome k p (pbind bump (\<lambda>_. pbind prev_span f') p)"
    using b s eq by (simp add: pbind_def)
qed

text \<open>Tests of the current kind.\<close>

lemma agree_at_kind [agree_rules]:
  assumes "agree (\<lambda>k. C k \<and> k = t) k N (f True) (f' True)" and "agree (\<lambda>k. C k \<and> k \<noteq> t) k N (f False) (f' False)"
  shows "agree C k N (pbind (at_kind t) f) (pbind (at_kind t) f')"
proof (rule agreeI)
  fix p assume p: "ready p" "left p < N" "C (cur p)"
  show "pbind (at_kind t) f p = pbind (at_kind t) f' p \<and> outcome k p (pbind (at_kind t) f' p)"
    using agreeD [OF assms(1) p(1,2)] agreeD [OF assms(2) p(1,2)] p
    by (cases "cur p = t") (simp_all add: at_kind_def pbind_def pret_def)
qed

lemma agree_at_kw [agree_rules]:
  assumes "agree (\<lambda>k. C k \<and> k = TKeyword t) k N (f True) (f' True)"
    and "agree (\<lambda>k. C k \<and> k \<noteq> TKeyword t) k N (f False) (f' False)"
  shows "agree C k N (pbind (at_kw t) f) (pbind (at_kw t) f')"
  using agree_at_kind [OF assms] by (simp add: at_kw_def at_kind_def)

lemma agree_eat_kind [agree_rules]:
  assumes "agree always 0 (N - 1) (f True) (f' True)" "k \<le> 1" and "agree (\<lambda>k. C k \<and> k \<noteq> t) k N (f False) (f' False)"
    and "t \<noteq> TEof"
  shows "agree C k N (pbind (eat_kind t) f) (pbind (eat_kind t) f')"
proof -
  have eq: "pbind (eat_kind t) g = pbind (at_kind t) (\<lambda>b. if b then pbind bump (\<lambda>_. g True) else g False)" for g :: "bool \<Rightarrow> 'a parse"
    by (simp add: eat_kind_def pbind_assoc pbind_if cong: if_cong)
  show ?thesis unfolding eq
    by (intro agree_at_kind; simp; (intro agree_bump_bind)?) (use assms in auto)
qed

lemma agree_eat_kw [agree_rules]:
  assumes "agree always 0 (N - 1) (f True) (f' True)" "k \<le> 1"
    and "agree (\<lambda>k. C k \<and> k \<noteq> TKeyword t) k N (f False) (f' False)"
  shows "agree C k N (pbind (eat_kw t) f) (pbind (eat_kw t) f')"
  using agree_eat_kind [OF assms] by (simp add: eat_kw_def at_kw_def eat_kind_def at_kind_def)

lemma agree_eat_soft_kw [agree_rules]:
  assumes "agree always 0 (N - 1) (f True) (f' True)" "k \<le> 1"
    and "agree (\<lambda>k. C k \<and> k \<noteq> TIdent t) k N (f False) (f' False)"
  shows "agree C k N (pbind (eat_soft_kw t) f) (pbind (eat_soft_kw t) f')"
  using agree_eat_kind [OF assms] by (simp add: eat_soft_kw_def eat_kind_def at_kind_def pbind_assoc cong: if_cong)

text \<open>The same as the last step.\<close>

lemma agree_eats [agree_rules]:
  "t \<noteq> TEof \<Longrightarrow> agree C 0 N (eat_kind t) (eat_kind t)"
  "agree C 0 N (eat_kw kw) (eat_kw kw)"
  "agree C 0 N (eat_soft_kw x) (eat_soft_kw x)"
  using agree_eat_kind [of N pret pret 0 C t] agree_eat_kw [of N pret pret 0 C kw] agree_eat_soft_kw [of N pret pret 0 C x]
  by (simp_all add: agree_ret)

text \<open>Routines that consume, as the head of a sequence.\<close>

lemma agree_head:
  assumes m: "agree always 1 n m m'" and N: "N \<le> n" and f: "\<And>a. agree always 0 (N - 1) (f a) (f' a)" and k: "k \<le> 1"
  shows "agree C k N (pbind m f) (pbind m' f')"
  by (rule agree_bind1 [OF agree_mono [OF m N] f k]) simp_all

lemma agree_head0:
  assumes m: "agree always 0 n m m'" and N: "N \<le> n" and f: "\<And>a. agree always k N (f a) (f' a)"
  shows "agree C k N (pbind m f) (pbind m' f')"
  by (rule agree_bind0 [OF agree_mono [OF m N] f]) simp_all

lemma agree_tail:
  assumes m: "agree always j n m m'" and "N \<le> n" and "k \<le> j"
  shows "agree C k N m m'"
  by (rule agree_mono [OF m]) (use assms in simp_all)

lemma agree_expect_kw: "agree always 1 N (expect_kw kw) (expect_kw kw)"
  unfolding expect_kw_def by (intro agree_rules) simp_all

lemma agree_expect_kind: "t \<noteq> TEof \<Longrightarrow> agree always 1 N (expect_kind t what) (expect_kind t what)"
  unfolding expect_kind_def by (intro agree_rules) simp_all

lemma agree_expect_kind_head [agree_rules]:
  "t \<noteq> TEof \<Longrightarrow> (\<And>a. agree always 0 (N - 1) (f a) (f' a)) \<Longrightarrow> k \<le> 1 \<Longrightarrow>
     agree C k N (pbind (expect_kind t what) f) (pbind (expect_kind t what) f')"
  by (rule agree_head [OF agree_expect_kind order_refl])

lemma agree_expect_ident: "agree always 1 N expect_ident expect_ident"
  unfolding expect_ident_def by (intro agree_rules) auto

lemma agree_expect_string: "agree always 1 N expect_string_literal expect_string_literal"
  unfolding expect_string_literal_def by (intro agree_rules) auto

lemmas [agree_rules] =
  agree_head [OF agree_expect_kw order_refl] agree_head [OF agree_expect_ident order_refl]
  agree_head [OF agree_expect_string order_refl]

section \<open>The loops over tokens\<close>

text \<open>Two amounts of fuel agree as long as both exceed the number of tokens left.\<close>

lemma agree_collect_pragmas: "agree always 0 (min n n') (collect_pragmas n) (collect_pragmas n')"
proof (induction n n' rule: diff_induct)
  case (3 n n')
  show ?case unfolding collect_pragmas.simps
    by (intro agree_rules agree_head0 [OF 3]) auto
qed (simp_all add: agree_empty)

lemma agree_skip_pragmas: "agree always 0 (min n n') (skip_pragmas n) (skip_pragmas n')"
  unfolding skip_pragmas_def by (intro agree_rules agree_head0 [OF agree_collect_pragmas]) simp

lemma agree_more_idents: "agree always 0 (min n n') (more_idents n) (more_idents n')"
proof (induction n n' rule: diff_induct)
  case (3 n n')
  show ?case unfolding more_idents.simps
    by (intro agree_rules agree_head0 [OF 3]) auto
qed (simp_all add: agree_empty)

lemma agree_ident_list: "agree always 1 (min n n') (parse_ident_list n) (parse_ident_list n')"
  unfolding parse_ident_list_def by (intro agree_rules agree_head0 [OF agree_more_idents]) auto

lemma agree_qual_rest: "agree always 0 (min n n') (qual_rest n e) (qual_rest n' e)"
proof (induction n n' arbitrary: e rule: diff_induct)
  case (3 n n')
  show ?case unfolding qual_rest.simps
    by (intro agree_rules agree_head0 [OF 3]) auto
qed (simp_all add: agree_empty)

lemma agree_qual_name: "agree always 1 (min n n') (parse_qual_name n) (parse_qual_name n')"
  unfolding parse_qual_name_def by (intro agree_rules agree_head0 [OF agree_qual_rest]) auto

lemma agree_designator_base: "agree always 1 N parse_designator_base parse_designator_base"
  unfolding parse_designator_base_def by (intro agree_rules) auto

lemma agree_skip_to_depth: "agree always 0 (min n n') (skip_to_depth n d) (skip_to_depth n' d)"
proof (induction n n' arbitrary: d rule: diff_induct)
  case (3 n n')
  show ?case unfolding skip_to_depth.simps
    by (intro agree_rules agree_tail [OF 3]) auto
qed (simp_all add: agree_empty)

lemma agree_skip_brackets: "agree always 0 (min n n') (skip_brackets n) (skip_brackets n')"
  unfolding skip_brackets_def by (intro agree_rules agree_tail [OF agree_skip_to_depth]) auto

end
