(* ===== verification/ParseExpr.thy ===== *)
theory ParseExpr
  imports ParserLogic
begin

text \<open>
  The expression parser (\<open>newm2-parser/src/parser.rs\<close>, section Expressions). Expressions and type
  expressions call each other (\<open>f(x : T)\<close>, \<open>[a..b]\<close>), so each routine takes the two entry points
  \<open>E\<close> (\<open>parse_expr\<close>) and \<open>T\<close> (\<open>parse_type_expr\<close>) as arguments; \<open>ParseTypes\<close> ties the knot.
\<close>

section \<open>Lists\<close>

text \<open>\<open>loop { out.push(item()?); if !self.eat_kind(&Comma) { break } }\<close>\<close>

fun sep_list :: "nat \<Rightarrow> 'a parse \<Rightarrow> 'a list parse" where
  "sep_list 0 item = pfail OutOfFuel"
| "sep_list (Suc n) item = pbind item (\<lambda>x. pbind (eat_kind TComma) (\<lambda>c.
     if c then pbind (sep_list n item) (\<lambda>xs. pret (x # xs)) else pret [x]))"

text \<open>The same unless the closing token follows at once.\<close>

definition opt_list :: "nat \<Rightarrow> token_kind \<Rightarrow> 'a parse \<Rightarrow> 'a list parse" where
  "opt_list n close item = pbind (at_kind close) (\<lambda>none. if none then pret [] else sep_list n item)"

text \<open>\<open>lo\<close> or \<open>lo .. hi\<close>: set elements and case labels.\<close>

definition one_or_range :: "expr parse \<Rightarrow> (expr \<Rightarrow> 'a) \<Rightarrow> (expr \<Rightarrow> expr \<Rightarrow> 'a) \<Rightarrow> 'a parse" where
  "one_or_range E one two = pbind E (\<lambda>lo. pbind (eat_kind TDotDot) (\<lambda>r.
     if r then pbind E (\<lambda>hi. pret (two lo hi)) else pret (one lo)))"

section \<open>Operators\<close>

definition relational_op :: "token_kind \<Rightarrow> binary_op option" where
  "relational_op k =
     (if k = TEqual then Some OpEq
      else if k = TNotEqual \<or> k = THash then Some OpNe
      else if k = TLess then Some OpLt
      else if k = TLessEq then Some OpLe
      else if k = TGreater then Some OpGt
      else if k = TGreaterEq then Some OpGe
      else if k = TKeyword KIn then Some OpIn
      else None)"

definition adding_op :: "token_kind \<Rightarrow> binary_op option" where
  "adding_op k =
     (if k = TPlus then Some OpAdd
      else if k = TMinus then Some OpSub
      else if k = TKeyword KOr then Some OpOr
      else None)"

definition multiplying_op :: "token_kind \<Rightarrow> binary_op option" where
  "multiplying_op k =
     (if k = TStar then Some OpMul
      else if k = TSlash then Some OpDiv
      else if k = TKeyword KDiv then Some OpDivKw
      else if k = TKeyword KMod then Some OpMod
      else if k = TKeyword KRem then Some OpRem
      else if k = TKeyword KAnd \<or> k = TAmp then Some OpAnd
      else if k = TKeyword KBor \<or> k = TIdent ''BOR'' then Some OpBor
      else if k = TKeyword KBand \<or> k = TIdent ''BAND'' then Some OpBand
      else if k = TKeyword KBxor \<or> k = TIdent ''BXOR'' then Some OpBxor
      else if k = TKeyword KShl \<or> k = TIdent ''SHL'' then Some OpShl
      else if k = TKeyword KShr \<or> k = TIdent ''SHR'' then Some OpShr
      else None)"

text \<open>The loop of the three levels: operators of the level and operands, folded to the left.\<close>

fun binary_loop :: "nat \<Rightarrow> (token_kind \<Rightarrow> binary_op option) \<Rightarrow> expr parse \<Rightarrow> span \<Rightarrow> expr \<Rightarrow> expr parse" where
  "binary_loop 0 ops operand start lhs = pfail OutOfFuel"
| "binary_loop (Suc n) ops operand start lhs = pbind peek_kind (\<lambda>k.
     case ops k of
       None \<Rightarrow> pret lhs
     | Some opr \<Rightarrow>
         pbind bump (\<lambda>_. pbind operand (\<lambda>rhs. pbind prev_end (\<lambda>e.
           binary_loop n ops operand start (EBinary opr lhs rhs (between start e))))))"

section \<open>Designators and set constructors\<close>

fun designator_tail_loop :: "nat \<Rightarrow> expr parse \<Rightarrow> position \<Rightarrow> (selector list \<times> position) parse" where
  "designator_tail_loop 0 E e = pfail OutOfFuel"
| "designator_tail_loop (Suc n) E e = pbind peek_kind (\<lambda>k. pbind (ident_at 1) (\<lambda>ident.
     if k = TDot \<and> ident then
       pbind bump (\<lambda>_. pbind expect_ident (\<lambda>(x, sp).
         pbind (designator_tail_loop n E (span_end sp)) (\<lambda>(ss, e'). pret (SField x sp # ss, e'))))
     else if k = TLBracket then
       pbind peek_span (\<lambda>s. pbind bump (\<lambda>_. pbind (opt_list n TRBracket E) (\<lambda>indices.
         pbind (expect_kind TRBracket '']'') (\<lambda>close.
           pbind (designator_tail_loop n E (span_end close)) (\<lambda>(ss, e').
             pret (SIndex indices (between s (span_end close)) # ss, e'))))))
     else if k = TCaret then
       pbind peek_span (\<lambda>s. pbind bump (\<lambda>_.
         pbind (designator_tail_loop n E (span_end s)) (\<lambda>(ss, e'). pret (SDeref s # ss, e'))))
     else pret ([], e)))"

definition parse_designator_tail :: "nat \<Rightarrow> expr parse \<Rightarrow> qual_name \<Rightarrow> designator parse" where
  "parse_designator_tail n E base =
     pbind (designator_tail_loop n E (span_end (qn_span base))) (\<lambda>(ss, e).
       pret (Designator base ss (between (qn_span base) e)))"

definition parse_set_constructor :: "nat \<Rightarrow> expr parse \<Rightarrow> qual_name option \<Rightarrow> expr parse" where
  "parse_set_constructor n E type_name = pbind peek_span (\<lambda>start.
     pbind (expect_kind TLBrace ''{'') (\<lambda>_.
     pbind (opt_list n TRBrace (one_or_range E Single Range)) (\<lambda>elements.
     pbind (expect_kind TRBrace ''}'') (\<lambda>close.
       pret (ESet type_name elements (between start (span_end close)))))))"

section \<open>Factors\<close>

text \<open>The arms for literals.\<close>

fun literal_of :: "token_kind \<Rightarrow> span \<Rightarrow> expr option" where
  "literal_of (TInteger v) sp = Some (EInteger v sp)"
| "literal_of (TReal v) sp = Some (EReal v sp)"
| "literal_of (TChar c) sp = Some (EChar c sp)"
| "literal_of (TString s) sp = Some (EString s sp)"
| "literal_of _ sp = None"

text \<open>\<open>__LINE__\<close> and the two placeholders.\<close>

definition location_of :: "token_kind \<Rightarrow> span \<Rightarrow> expr option" where
  "location_of k sp =
     (if k = TIdent ''__LINE__'' then Some (EInteger (of_nat (line (span_start sp))) sp)
      else if k = TIdent ''__FILE__'' \<or> k = TIdent ''__FUNCTION__''
        then Some (EString \<lparr>str_value = '''', str_flavor = FlavorDefault\<rparr> sp)
      else None)"

text \<open>An argument, with the type annotation the parser reads and drops.\<close>

definition parse_argument :: "expr parse \<Rightarrow> type_expr parse \<Rightarrow> expr parse" where
  "parse_argument E T = pbind E (\<lambda>arg. pbind (eat_kind TColon) (\<lambda>c.
     if c then pbind T (\<lambda>_. pret arg) else pret arg))"

definition ident_factor :: "nat \<Rightarrow> expr parse \<Rightarrow> type_expr parse \<Rightarrow> span \<Rightarrow> expr parse" where
  "ident_factor n E T start = pbind dotted_ident_run_followed_by_lbrace (\<lambda>set_type.
     if set_type then
       pbind (parse_qual_name (Suc n)) (\<lambda>qn. parse_set_constructor n E (Some qn))
     else
       pbind parse_designator_base (\<lambda>base. pbind (parse_designator_tail n E base) (\<lambda>dz.
       pbind (at_kind TLParen) (\<lambda>call.
         if call then
           pbind bump (\<lambda>_. pbind (opt_list n TRParen (parse_argument E T)) (\<lambda>args.
           pbind (expect_kind TRParen '')'') (\<lambda>close.
             pret (ECall (EDesignator dz) args (between start (span_end close))))))
         else pret (EDesignator dz)))))"

definition is_not_op :: "token_kind \<Rightarrow> bool" where
  "is_not_op k \<longleftrightarrow> k = TKeyword KNot \<or> k = TTilde \<or> k = TKeyword KBnot \<or> k = TIdent ''BNOT''"

fun parse_factor :: "nat \<Rightarrow> expr parse \<Rightarrow> type_expr parse \<Rightarrow> expr parse" where
  "parse_factor 0 E T = pfail OutOfFuel"
| "parse_factor (Suc n) E T = pbind peek_span (\<lambda>start. pbind peek_kind (\<lambda>k.
     case literal_of k start of
       Some e \<Rightarrow> pbind bump (\<lambda>_. pret e)
     | None \<Rightarrow>
         if is_not_op k then
           pbind bump (\<lambda>_. pbind (parse_factor n E T) (\<lambda>e. pbind prev_end (\<lambda>p.
             pret (EUnary OpNot e (between start p)))))
         else if k = TLParen then
           pbind bump (\<lambda>_. pbind E (\<lambda>e. pbind (expect_kind TRParen '')'') (\<lambda>_. pret e)))
         else if k = TLBrace then parse_set_constructor n E None
         else
           (case location_of k start of
              Some e \<Rightarrow> pbind bump (\<lambda>_. pret e)
            | None \<Rightarrow>
                if ident_of k \<noteq> None then ident_factor n E T start
                else perr (ExpectedExpression k))))"

section \<open>Terms, simple expressions, relations\<close>

definition parse_term :: "nat \<Rightarrow> expr parse \<Rightarrow> type_expr parse \<Rightarrow> expr parse" where
  "parse_term n E T = pbind peek_span (\<lambda>start. pbind (parse_factor n E T) (\<lambda>lhs.
     binary_loop n multiplying_op (parse_factor n E T) start lhs))"

definition parse_sign :: "unary_op option parse" where
  "parse_sign = pbind peek_kind (\<lambda>k.
     if k = TPlus then pbind bump (\<lambda>_. pret (Some OpPos))
     else if k = TMinus then pbind bump (\<lambda>_. pret (Some OpNeg))
     else pret None)"

definition apply_sign :: "unary_op option \<Rightarrow> span \<Rightarrow> expr \<Rightarrow> expr parse" where
  "apply_sign sign start e =
     (case sign of
        None \<Rightarrow> pret e
      | Some opr \<Rightarrow> pbind prev_end (\<lambda>p. pret (EUnary opr e (between start p))))"

definition parse_simple :: "nat \<Rightarrow> expr parse \<Rightarrow> type_expr parse \<Rightarrow> expr parse" where
  "parse_simple n E T = pbind peek_span (\<lambda>start. pbind parse_sign (\<lambda>sign.
     pbind (parse_term n E T) (\<lambda>e. pbind (apply_sign sign start e) (\<lambda>lhs.
       binary_loop n adding_op (parse_term n E T) start lhs))))"

definition parse_relational :: "nat \<Rightarrow> expr parse \<Rightarrow> type_expr parse \<Rightarrow> expr parse" where
  "parse_relational n E T = pbind peek_span (\<lambda>start. pbind (parse_simple n E T) (\<lambda>lhs.
     binary_loop n relational_op (parse_simple n E T) start lhs))"

section \<open>Adequacy of the fuel\<close>

lemma agree_sep_list:
  assumes item: "agree always 1 B item item'"
  shows "agree always 1 (min (min n n') B) (sep_list n item) (sep_list n' item')"
proof (induction n n' rule: diff_induct)
  case (3 n n')
  show ?case unfolding sep_list.simps
    by (intro agree_rules agree_head [OF item] agree_head0 [OF agree_tail [OF 3 order_refl]]) auto
qed (simp_all add: agree_empty)

lemma agree_opt_list:
  assumes item: "agree always 1 B item item'"
  shows "agree always 0 (min (min n n') B) (opt_list n close item) (opt_list n' close item')"
  unfolding opt_list_def by (intro agree_rules agree_tail [OF agree_sep_list [OF item]]) auto

lemma agree_one_or_range:
  assumes E: "agree always 1 B E E'"
  shows "agree always 1 B (one_or_range E one two) (one_or_range E' one two)"
  unfolding one_or_range_def by (intro agree_rules agree_head [OF E]) auto

lemma agree_binary_loop:
  assumes operand: "agree always 1 B operand operand'" and ops: "ops TEof = None"
  shows "agree always 0 (min (min n n') (Suc B)) (binary_loop n ops operand start lhs) (binary_loop n' ops operand' start lhs)"
proof (induction n n' arbitrary: lhs rule: diff_induct)
  case (3 n n')
  show ?case unfolding binary_loop.simps
    by (intro agree_rules agree_head [OF operand] agree_tail [OF 3]) (use ops in auto)
qed (simp_all add: agree_empty)

lemma agree_designator_tail_loop:
  assumes E: "agree always 1 B E E'"
  shows "agree always 0 (min (min n n') (Suc B)) (designator_tail_loop n E e) (designator_tail_loop n' E' e)"
proof (induction n n' arbitrary: e rule: diff_induct)
  case (3 n n')
  show ?case unfolding designator_tail_loop.simps
    by (intro agree_rules agree_head0 [OF 3] agree_head0 [OF agree_opt_list [OF E]]) auto
qed (simp_all add: agree_empty)

lemma agree_designator_tail:
  assumes E: "agree always 1 B E E'"
  shows "agree always 0 (min (min n n') (Suc B)) (parse_designator_tail n E base) (parse_designator_tail n' E' base)"
  unfolding parse_designator_tail_def
  by (intro agree_rules agree_head0 [OF agree_designator_tail_loop [OF E]]) auto

lemma agree_set_constructor:
  assumes E: "agree always 1 B E E'"
  shows "agree always 1 (Suc (min (min n n') B)) (parse_set_constructor n E tn) (parse_set_constructor n' E' tn)"
  unfolding parse_set_constructor_def
  by (intro agree_rules agree_head0 [OF agree_opt_list [OF agree_one_or_range [OF E]]]) auto

lemma agree_argument:
  assumes E: "agree always 1 B E E'" and T: "agree always 1 B T T'"
  shows "agree always 1 B (parse_argument E T) (parse_argument E' T')"
  unfolding parse_argument_def by (intro agree_rules agree_head [OF E] agree_head [OF T]) auto

lemma agree_ident_factor:
  assumes E: "agree always 1 B E E'" and T: "agree always 1 B T T'"
  shows "agree always 1 (Suc (min (min n n') B)) (ident_factor n E T start) (ident_factor n' E' T' start)"
  unfolding ident_factor_def
  by (intro agree_rules agree_head [OF agree_qual_name] agree_tail [OF agree_set_constructor [OF E]]
      agree_head [OF agree_designator_base order_refl] agree_head0 [OF agree_designator_tail [OF E]]
      agree_head0 [OF agree_opt_list [OF agree_argument [OF E T]]]) auto

lemma literal_not_eof: "literal_of k sp = Some e \<Longrightarrow> k \<noteq> TEof" "location_of k sp = Some e \<Longrightarrow> k \<noteq> TEof"
  "is_not_op k \<Longrightarrow> k \<noteq> TEof"
  by (auto simp: location_of_def is_not_op_def)

lemma agree_factor:
  assumes E: "agree always 1 B E E'" and T: "agree always 1 B T T'"
  shows "agree always 1 (min (min n n') (Suc B)) (parse_factor n E T) (parse_factor n' E' T')"
proof (induction n n' rule: diff_induct)
  case (3 n n')
  show ?case unfolding parse_factor.simps
    by (intro agree_rules agree_head [OF 3] agree_head [OF E] agree_tail [OF agree_set_constructor [OF E]]
        agree_tail [OF agree_ident_factor [OF E T]]) (auto dest: literal_not_eof)
qed (simp_all add: agree_empty)

lemma agree_term:
  assumes E: "agree always 1 B E E'" and T: "agree always 1 B T T'"
  shows "agree always 1 (min (min n n') (Suc B)) (parse_term n E T) (parse_term n' E' T')"
  unfolding parse_term_def
  by (intro agree_rules agree_head [OF agree_factor [OF E T]]
      agree_tail [OF agree_binary_loop [OF agree_factor [OF E T]]]) (auto simp: multiplying_op_def)

lemma agree_sign: "agree always 0 N parse_sign parse_sign"
  unfolding parse_sign_def by (intro agree_rules) auto

lemma agree_apply_sign: "agree always 0 N (apply_sign sign start e) (apply_sign sign start e)"
  unfolding apply_sign_def by (intro agree_rules)

lemma agree_simple:
  assumes E: "agree always 1 B E E'" and T: "agree always 1 B T T'"
  shows "agree always 1 (min (min n n') (Suc B)) (parse_simple n E T) (parse_simple n' E' T')"
  unfolding parse_simple_def
  by (intro agree_rules agree_head0 [OF agree_sign order_refl] agree_head [OF agree_term [OF E T]]
      agree_head0 [OF agree_apply_sign order_refl]
      agree_tail [OF agree_binary_loop [OF agree_term [OF E T]]]) (auto simp: adding_op_def)

lemma agree_relational:
  assumes E: "agree always 1 B E E'" and T: "agree always 1 B T T'"
  shows "agree always 1 (min (min n n') (Suc B)) (parse_relational n E T) (parse_relational n' E' T')"
  unfolding parse_relational_def
  by (intro agree_rules agree_head [OF agree_simple [OF E T]]
      agree_tail [OF agree_binary_loop [OF agree_simple [OF E T]]]) (auto simp: relational_op_def)

end
