(* ===== verification/ParseTypes.thy ===== *)
theory ParseTypes
  imports ParseExpr
begin

text \<open>
  The parser of type expressions (\<open>newm2-parser/src/parser.rs\<close>, section Types, with the procedure
  attributes it needs), and the knot that ties it to the expression parser: \<open>parse_expr\<close> and
  \<open>parse_type_expr\<close> with fuel for the depth of their calls.
\<close>

section \<open>Procedure attributes\<close>

text \<open>The fallback when there is no source text.\<close>

fun token_spelling :: "parser \<Rightarrow> token_kind \<Rightarrow> string" where
  "token_spelling p (TIdent s) = s"
| "token_spelling p (TKeyword k) = as_str k"
| "token_spelling p (TInteger n) = dec (unat n)"
| "token_spelling p (TReal r) = real_text p r"
| "token_spelling p (TChar c) = CHR 0x27 # utf8_encode (char_value c) @ [CHR 0x27]"
| "token_spelling p (TString s) = debug_text p (str_value s)"
| "token_spelling p (TPragma s) = ''<*'' @ s @ ''*>''"
| "token_spelling p TPlus = ''+''"
| "token_spelling p TMinus = ''-''"
| "token_spelling p TStar = ''*''"
| "token_spelling p TSlash = ''/''"
| "token_spelling p TAmp = ''&''"
| "token_spelling p TTilde = ''~''"
| "token_spelling p TEqual = ''=''"
| "token_spelling p THash = ''#''"
| "token_spelling p TLess = ''<''"
| "token_spelling p TLessEq = ''<=''"
| "token_spelling p TGreater = ''>''"
| "token_spelling p TGreaterEq = ''>=''"
| "token_spelling p TNotEqual = ''<>''"
| "token_spelling p TAssign = '':=''"
| "token_spelling p TDot = ''.''"
| "token_spelling p TDotDot = ''..''"
| "token_spelling p TComma = '',''"
| "token_spelling p TSemicolon = '';''"
| "token_spelling p TColon = '':''"
| "token_spelling p TLParen = ''(''"
| "token_spelling p TRParen = '')''"
| "token_spelling p TLBracket = ''[''"
| "token_spelling p TRBracket = '']''"
| "token_spelling p TLBrace = ''{''"
| "token_spelling p TRBrace = ''}''"
| "token_spelling p TPipe = ''|''"
| "token_spelling p TCaret = ''^''"
| "token_spelling p TAt = ''@''"
| "token_spelling p TEof = ''''"

text \<open>The slice of the source, on bytes (the lexer's spans lie on character boundaries).\<close>

definition peek_text :: "string parse" where
  "peek_text = pbind peek_token (\<lambda>t p.
     let s = offset (span_start (tok_span t)); e = offset (span_end (tok_span t))
     in Inr (if s \<le> e \<and> e \<le> length (source p) then byte_range (source p) s e
             else token_spelling p (kind t), p))"

text \<open>\<open>if !out.is_empty() { out.push(' ') } out.push_str(..)\<close>\<close>

definition push_spaced :: "string \<Rightarrow> string \<Rightarrow> string" where
  "push_spaced out s = (if out = [] then s else out @ CHR '' '' # s)"

fun collect_attr_arg :: "nat \<Rightarrow> nat \<Rightarrow> string \<Rightarrow> string parse" where
  "collect_attr_arg 0 depth out = pfail OutOfFuel"
| "collect_attr_arg (Suc n) depth out = pbind peek_kind (\<lambda>k.
     if (k = TComma \<or> k = TRParen) \<and> depth = 0 then pret out
     else if k = TLParen then
       pbind peek_text (\<lambda>s. pbind bump (\<lambda>_. collect_attr_arg n (depth + 1) (push_spaced out s)))
     else if k = TRParen then
       pbind peek_text (\<lambda>s. pbind bump (\<lambda>_. collect_attr_arg n (depth - 1) (push_spaced out s)))
     else if k = TEof then pret out
     else pbind peek_text (\<lambda>s. pbind bump (\<lambda>_. collect_attr_arg n depth (push_spaced out s))))"

definition attr_name :: "(string \<times> span) parse" where
  "attr_name = pbind peek_kind (\<lambda>k.
     case ident_of k of
       Some x \<Rightarrow> pbind peek_span (\<lambda>sp. pbind bump (\<lambda>_. pret (x, sp)))
     | None \<Rightarrow>
         (case keyword_of k of
            Some kw \<Rightarrow> pbind peek_span (\<lambda>sp. pbind bump (\<lambda>_. pret (as_str kw, sp)))
          | None \<Rightarrow> perr ExpectedAttribute))"

text \<open>\<open>loop { args.push(arg()?); if !eat(Comma) break }\<close>: an argument may be empty, the comma is not.\<close>

fun attr_args :: "nat \<Rightarrow> string list parse" where
  "attr_args 0 = pfail OutOfFuel"
| "attr_args (Suc n) = pbind (collect_attr_arg (Suc n) 0 []) (\<lambda>x. pbind (eat_kind TComma) (\<lambda>c.
     if c then pbind (attr_args n) (\<lambda>xs. pret (x # xs)) else pret [x]))"

definition attr_arg_list :: "nat \<Rightarrow> string list parse" where
  "attr_arg_list n = pbind (eat_kind TLParen) (\<lambda>p.
     if p then
       pbind (at_kind TRParen) (\<lambda>none.
         if none then pbind (expect_kind TRParen '')'') (\<lambda>_. pret [])
         else pbind (attr_args n) (\<lambda>xs. pbind (expect_kind TRParen '')'') (\<lambda>_. pret xs)))
     else pret [])"

fun attr_loop :: "nat \<Rightarrow> proc_attr list parse" where
  "attr_loop 0 = pfail OutOfFuel"
| "attr_loop (Suc n) = pbind (skip_pragmas (Suc n)) (\<lambda>_. pbind (at_kind TRBracket) (\<lambda>close.
     if close then pret []
     else pbind attr_name (\<lambda>(x, sp). pbind (attr_arg_list n) (\<lambda>args. pbind (eat_kind TComma) (\<lambda>c.
       let a = \<lparr>pa_name = x, pa_args = args, pa_span = sp\<rparr>
       in if c then pbind (attr_loop n) (\<lambda>rest. pret (a # rest)) else pret [a])))))"

definition parse_proc_attrs :: "nat \<Rightarrow> proc_attr list parse" where
  "parse_proc_attrs n = pbind (at_kind TLBracket) (\<lambda>b.
     if b then pbind bump (\<lambda>_. pbind (attr_loop n) (\<lambda>out. pbind (expect_kind TRBracket '']'') (\<lambda>_. pret out)))
     else pret [])"

section \<open>Fields\<close>

fun more_field_names :: "nat \<Rightarrow> string list parse" where
  "more_field_names 0 = pfail OutOfFuel"
| "more_field_names (Suc n) = pbind (eat_kind TComma) (\<lambda>c.
     if c then pbind expect_ident (\<lambda>(x, _). pbind (eat_kind TStar) (\<lambda>_.
       pbind (more_field_names n) (\<lambda>xs. pret (x # xs))))
     else pret [])"

text \<open>The end of a field: its semicolon, or the token after it when there is none.\<close>

definition field_end :: "position parse" where
  "field_end = pbind (eat_kind TSemicolon) (\<lambda>b.
     if b then pbind prev_span (\<lambda>sp. pret (span_end sp)) else pbind peek_span (\<lambda>sp. pret (span_start sp)))"

text \<open>The fields of a variant arm and of its ELSE.\<close>

definition field_section :: "nat \<Rightarrow> type_expr parse \<Rightarrow> pragma list \<Rightarrow> record_field parse" where
  "field_section n T pragmas = pbind expect_ident (\<lambda>(x, sp). pbind (eat_kind TStar) (\<lambda>exported.
     pbind (more_field_names n) (\<lambda>xs. pbind (expect_kind TColon '':'') (\<lambda>_. pbind T (\<lambda>ty.
     pbind field_end (\<lambda>e. pret (RecordField (x # xs) ty pragmas exported (between sp e))))))))"

text \<open>The external linkage of a record field, \<open>name ["link"]\<close>.\<close>

definition field_linkage :: "unit parse" where
  "field_linkage = pbind (at_kind TLBracket) (\<lambda>b. pbind (string_at 1) (\<lambda>s.
     if b \<and> s then pbind bump (\<lambda>_. pbind bump (\<lambda>_. pbind (expect_kind TRBracket '']'') (\<lambda>_. pret ())))
     else pret ()))"

fun more_linked_names :: "nat \<Rightarrow> string list parse" where
  "more_linked_names 0 = pfail OutOfFuel"
| "more_linked_names (Suc n) = pbind (eat_kind TComma) (\<lambda>c.
     if c then pbind expect_ident (\<lambda>(x, _). pbind (eat_kind TStar) (\<lambda>_. pbind field_linkage (\<lambda>_.
       pbind (more_linked_names n) (\<lambda>xs. pret (x # xs)))))
     else pret [])"

definition linked_field :: "nat \<Rightarrow> type_expr parse \<Rightarrow> pragma list \<Rightarrow> record_field parse" where
  "linked_field n T pragmas = pbind expect_ident (\<lambda>(x, sp). pbind (eat_kind TStar) (\<lambda>exported.
     pbind field_linkage (\<lambda>_. pbind (more_linked_names n) (\<lambda>xs.
     pbind (expect_kind TColon '':'') (\<lambda>_. pbind T (\<lambda>ty.
     pbind field_end (\<lambda>e. pret (RecordField (x # xs) ty pragmas exported (between sp e)))))))))"

text \<open>The bit width \<open>BY expr\<close> is read and dropped.\<close>

definition bit_width :: "expr parse \<Rightarrow> unit parse" where
  "bit_width E = pbind (eat_kw KBy) (\<lambda>b. if b then pbind E (\<lambda>_. pret ()) else pret ())"

fun parse_bitfields_section :: "nat \<Rightarrow> expr parse \<Rightarrow> type_expr parse \<Rightarrow> record_field list parse" where
  "parse_bitfields_section 0 E T = pfail OutOfFuel"
| "parse_bitfields_section (Suc n) E T = pbind (skip_pragmas (Suc n)) (\<lambda>_. pbind (at_kw KEnd) (\<lambda>close.
     if close then pbind bump (\<lambda>_. pret [])
     else pbind expect_ident (\<lambda>(x, sp). pbind (more_idents n) (\<lambda>xs.
       pbind (expect_kind TColon '':'') (\<lambda>_. pbind T (\<lambda>ty. pbind (bit_width E) (\<lambda>_. pbind field_end (\<lambda>e.
       pbind (parse_bitfields_section n E T) (\<lambda>fs.
         pret (RecordField (x # xs) ty [] False (between sp e) # fs))))))))))"

section \<open>Variants\<close>

text \<open>The tag: \<open>: T\<close>, \<open>x : T\<close> or \<open>T\<close>; for the last the identifier is read again.\<close>

definition variant_tag_ident :: "nat \<Rightarrow> string \<Rightarrow> (string option \<times> qual_name option) parse" where
  "variant_tag_ident n x p =
     pbind bump (\<lambda>_. pbind (eat_kind TColon) (\<lambda>c.
       if c then pbind (parse_qual_name n) (\<lambda>qn. pret (Some x, Some qn))
       else (\<lambda>q. pbind (parse_qual_name n) (\<lambda>qn. pret (None, Some qn)) (q\<lparr>pos := pos p\<rparr>)))) p"

definition variant_tag :: "nat \<Rightarrow> (string option \<times> qual_name option) parse" where
  "variant_tag n = pbind (eat_kind TColon) (\<lambda>c.
     if c then pbind (parse_qual_name n) (\<lambda>qn. pret (None, Some qn))
     else pbind peek_kind (\<lambda>k.
       case ident_of k of None \<Rightarrow> pret (None, None) | Some x \<Rightarrow> variant_tag_ident n x))"

fun variant_arms :: "nat \<Rightarrow> variant_arm parse \<Rightarrow> variant_arm list parse" where
  "variant_arms 0 arm = pfail OutOfFuel"
| "variant_arms (Suc n) arm = pbind (at_kw KEnd) (\<lambda>e. pbind (at_kw KElse) (\<lambda>l.
     if e \<or> l then pret []
     else pbind (eat_kind TPipe) (\<lambda>empty.
       if empty then variant_arms n arm
       else pbind arm (\<lambda>a. pbind (eat_kind TPipe) (\<lambda>more.
         if more then pbind (variant_arms n arm) (\<lambda>as. pret (a # as)) else pret [a])))))"

fun else_fields :: "nat \<Rightarrow> type_expr parse \<Rightarrow> record_field list parse" where
  "else_fields 0 T = pfail OutOfFuel"
| "else_fields (Suc n) T = pbind peek_kind (\<lambda>k.
     if ident_of k = None \<and> pragma_of k = None then pret []
     else pbind (collect_pragmas (Suc n)) (\<lambda>pragmas. pbind (field_section n T pragmas) (\<lambda>f.
       pbind (else_fields n T) (\<lambda>fs. pret (f # fs)))))"

definition variant_else :: "nat \<Rightarrow> type_expr parse \<Rightarrow> record_field list option parse" where
  "variant_else n T = pbind (eat_kw KElse) (\<lambda>b.
     if b then pbind (else_fields n T) (\<lambda>fs. pret (Some fs)) else pret None)"

text \<open>The fields of an arm and its nested variant; \<open>V\<close> is \<open>parse_variant_part\<close>.\<close>

fun arm_fields :: "nat \<Rightarrow> expr parse \<Rightarrow> type_expr parse \<Rightarrow> variant_part parse \<Rightarrow>
    (record_field list \<times> variant_part option) parse" where
  "arm_fields 0 E T V = pfail OutOfFuel"
| "arm_fields (Suc n) E T V = pbind peek_kind (\<lambda>k.
     if k = TKeyword KEnd \<or> k = TKeyword KElse \<or> k = TPipe then pret ([], None)
     else if k = TKeyword KCase then
       pbind bump (\<lambda>_. pbind V (\<lambda>v. pbind (eat_kind TSemicolon) (\<lambda>_. pret ([], Some v))))
     else if k = TIdent ''BITFIELDS'' then
       pbind bump (\<lambda>_. pbind (parse_bitfields_section n E T) (\<lambda>fs. pbind (eat_kind TSemicolon) (\<lambda>_.
         pbind (arm_fields n E T V) (\<lambda>(gs, v). pret (fs @ gs, v)))))
     else if ident_of k \<noteq> None \<or> pragma_of k \<noteq> None then
       pbind (collect_pragmas (Suc n)) (\<lambda>pragmas. pbind peek_kind (\<lambda>k2.
         if ident_of k2 = None then pret ([], None)
         else pbind (field_section n T pragmas) (\<lambda>f.
           pbind (arm_fields n E T V) (\<lambda>(gs, v). pret (f # gs, v)))))
     else pret ([], None))"

definition parse_variant_arm :: "nat \<Rightarrow> expr parse \<Rightarrow> type_expr parse \<Rightarrow> variant_part parse \<Rightarrow> variant_arm parse" where
  "parse_variant_arm n E T V = pbind peek_span (\<lambda>start.
     pbind (sep_list n (one_or_range E LSingle LRange)) (\<lambda>labels.
     pbind (expect_kind TColon '':'') (\<lambda>_.
     pbind (arm_fields n E T V) (\<lambda>(fields, nested).
     pbind peek_span (\<lambda>e. pret (VariantArm labels fields nested (between start (span_start e))))))))"

fun variant_from :: "nat \<Rightarrow> expr parse \<Rightarrow> type_expr parse \<Rightarrow> span \<Rightarrow> variant_part parse" where
  "variant_from 0 E T start = pfail OutOfFuel"
| "variant_from (Suc n) E T start =
     pbind (variant_tag (Suc n)) (\<lambda>(tag_name, tag_type).
     pbind (expect_kw KOf) (\<lambda>_.
     pbind (eat_kind TPipe) (\<lambda>_.
     pbind (variant_arms n (parse_variant_arm n E T (pbind prev_span (variant_from n E T)))) (\<lambda>arms.
     pbind (variant_else n T) (\<lambda>else_arm.
     pbind (expect_kw KEnd) (\<lambda>close.
       pret (VariantPart tag_name tag_type arms else_arm (between start (span_end close)))))))))"

definition parse_variant_part :: "nat \<Rightarrow> expr parse \<Rightarrow> type_expr parse \<Rightarrow> variant_part parse" where
  "parse_variant_part n E T = pbind prev_span (variant_from n E T)"

section \<open>Records\<close>

text \<open>The loop over the sections of a record; a later variant part replaces an earlier one.\<close>

fun record_items :: "nat \<Rightarrow> expr parse \<Rightarrow> type_expr parse \<Rightarrow> (record_field list \<times> variant_part option) parse" where
  "record_items 0 E T = pfail OutOfFuel"
| "record_items (Suc n) E T = pbind (skip_pragmas (Suc n)) (\<lambda>_. pbind peek_kind (\<lambda>k.
     if k = TKeyword KEnd then pret ([], None)
     else if k = TIdent ''BITFIELDS'' then
       pbind bump (\<lambda>_. pbind (parse_bitfields_section n E T) (\<lambda>fs. pbind (eat_kind TSemicolon) (\<lambda>_.
         pbind (record_items n E T) (\<lambda>(gs, v). pret (fs @ gs, v)))))
     else if k = TKeyword KCase then
       pbind bump (\<lambda>_. pbind (parse_variant_part n E T) (\<lambda>v. pbind (eat_kind TSemicolon) (\<lambda>_.
         pbind (record_items n E T) (\<lambda>(gs, later).
           pret (gs, if later = None then Some v else later)))))
     else if ident_of k \<noteq> None then
       pbind (collect_pragmas (Suc n)) (\<lambda>pragmas. pbind (linked_field n T pragmas) (\<lambda>f.
         pbind (record_items n E T) (\<lambda>(gs, v). pret (f # gs, v))))
     else pret ([], None)))"

definition parse_record_body :: "nat \<Rightarrow> expr parse \<Rightarrow> type_expr parse \<Rightarrow> span \<Rightarrow> record_type parse" where
  "parse_record_body n E T start = pbind (at_kind TLBracket) (\<lambda>b.
     pbind (if b then skip_brackets n else pret ()) (\<lambda>_.
     pbind (record_items n E T) (\<lambda>(fields, variant).
     pbind (expect_kw KEnd) (\<lambda>close.
       pret (RecordType fields variant (between start (span_end close)))))))"

section \<open>Type expressions\<close>

definition out_or_inout :: "bool parse" where
  "out_or_inout = pbind (eat_soft_kw ''OUT'') (\<lambda>b. if b then pret True else eat_soft_kw ''INOUT'')"

definition parse_type_mode :: "ast_param_mode parse" where
  "parse_type_mode = pbind (eat_kw KVar) (\<lambda>v.
     if v then pbind out_or_inout (\<lambda>_. pret AVar)
     else pbind (eat_kw KConst) (\<lambda>c.
       if c then pret AVar
       else pbind out_or_inout (\<lambda>b.
         if b then pret AVar
         else pbind (eat_soft_kw ''CONST'') (\<lambda>c2. pret (if c2 then AVar else AValue)))))"

definition comma_or_semicolon :: "bool parse" where
  "comma_or_semicolon = pbind (eat_kind TComma) (\<lambda>c. if c then pret True else eat_kind TSemicolon)"

fun proc_type_params :: "nat \<Rightarrow> type_expr parse \<Rightarrow> proc_type_param list parse" where
  "proc_type_params 0 T = pfail OutOfFuel"
| "proc_type_params (Suc n) T = pbind (collect_pragmas (Suc n)) (\<lambda>pragmas. pbind parse_type_mode (\<lambda>mode.
     pbind T (\<lambda>ty. pbind comma_or_semicolon (\<lambda>more.
       let a = ProcTypeParam mode ty pragmas
       in if more then pbind (proc_type_params n T) (\<lambda>ps. pret (a # ps)) else pret [a]))))"

definition proc_type_param_list :: "nat \<Rightarrow> type_expr parse \<Rightarrow> proc_type_param list parse" where
  "proc_type_param_list n T = pbind (eat_kind TLParen) (\<lambda>p.
     if p then
       pbind (at_kind TRParen) (\<lambda>none.
         if none then pbind (expect_kind TRParen '')'') (\<lambda>_. pret [])
         else pbind (proc_type_params n T) (\<lambda>ps. pbind (expect_kind TRParen '')'') (\<lambda>_. pret ps)))
     else pret [])"

definition optional_result :: "type_expr parse \<Rightarrow> type_expr option parse" where
  "optional_result T = pbind (eat_kind TColon) (\<lambda>c. if c then pbind T (\<lambda>ty. pret (Some ty)) else pret None)"

definition enum_member :: "expr parse \<Rightarrow> (string \<times> expr option) parse" where
  "enum_member E = pbind expect_ident (\<lambda>(x, _). pbind (eat_kind TEqual) (\<lambda>b.
     if b then pbind E (\<lambda>e. pret (x, Some e)) else pret (x, None)))"

text \<open>\<open>[lo .. hi]\<close> from the bracket on; \<open>start\<close> is the span it begins with.\<close>

definition subrange :: "expr parse \<Rightarrow> span \<Rightarrow> type_expr parse" where
  "subrange E start = pbind bump (\<lambda>_. pbind E (\<lambda>lo. pbind (expect_kind TDotDot ''..'') (\<lambda>_.
     pbind E (\<lambda>hi. pbind (expect_kind TRBracket '']'') (\<lambda>close.
       pret (TySubrange lo hi (between start (span_end close))))))))"

text \<open>\<open>while self.eat_kind(&Comma) { indices.push(self.parse_type_expr()?) }\<close>\<close>

fun more_indices :: "nat \<Rightarrow> type_expr parse \<Rightarrow> type_expr list parse" where
  "more_indices 0 T = pfail OutOfFuel"
| "more_indices (Suc n) T = pbind (eat_kind TComma) (\<lambda>c.
     if c then pbind T (\<lambda>t. pbind (more_indices n T) (\<lambda>ts. pret (t # ts))) else pret [])"

definition parse_array :: "nat \<Rightarrow> type_expr parse \<Rightarrow> span \<Rightarrow> type_expr parse" where
  "parse_array n T start = pbind bump (\<lambda>_. pbind (eat_kw KOf) (\<lambda>opn.
     if opn then pbind T (\<lambda>base. pbind prev_end (\<lambda>e. pret (TyOpenArray base (between start e))))
     else pbind T (\<lambda>t. pbind (more_indices n T) (\<lambda>ts. pbind (expect_kw KOf) (\<lambda>_.
       pbind T (\<lambda>base. pbind prev_end (\<lambda>e. pret (TyArray (t # ts) base (between start e)))))))))"

definition parse_pointer :: "type_expr parse \<Rightarrow> span \<Rightarrow> type_expr parse" where
  "parse_pointer T start = pbind bump (\<lambda>_. pbind (expect_kw KTo) (\<lambda>_. pbind T (\<lambda>base.
     pbind prev_end (\<lambda>e. pret (TyPointer base (between start e))))))"

definition parse_proc_type :: "nat \<Rightarrow> type_expr parse \<Rightarrow> span \<Rightarrow> type_expr parse" where
  "parse_proc_type n T start = pbind bump (\<lambda>_. pbind (proc_type_param_list n T) (\<lambda>params.
     pbind (optional_result T) (\<lambda>return_ty. pbind (parse_proc_attrs n) (\<lambda>attrs.
     pbind prev_end (\<lambda>e. pret (TyProc params return_ty attrs (between start e)))))))"

definition parse_set_type :: "bool \<Rightarrow> type_expr parse \<Rightarrow> span \<Rightarrow> type_expr parse" where
  "parse_set_type packed T start = pbind bump (\<lambda>_. pbind (expect_kw KOf) (\<lambda>_. pbind T (\<lambda>elem.
     pbind prev_end (\<lambda>e. pret (TySet packed elem (between start e))))))"

definition parse_enum :: "nat \<Rightarrow> expr parse \<Rightarrow> span \<Rightarrow> type_expr parse" where
  "parse_enum n E start = pbind bump (\<lambda>_. pbind (opt_list n TRParen (enum_member E)) (\<lambda>ms.
     pbind (expect_kind TRParen '')'') (\<lambda>close. pbind (eat_soft_kw ''BIG'') (\<lambda>_.
       pret (TyEnum (map fst ms) (map snd ms) (between start (span_end close)))))))"

definition named_type :: "nat \<Rightarrow> expr parse \<Rightarrow> type_expr parse" where
  "named_type n E = pbind (parse_qual_name (Suc n)) (\<lambda>qn. pbind (at_kind TLBracket) (\<lambda>b.
     pbind bracketed_run_contains_dotdot (\<lambda>dots.
       if b \<and> dots then subrange E (qn_span qn) else pret (TyNamed qn))))"

definition parse_type_expr_inner :: "nat \<Rightarrow> expr parse \<Rightarrow> type_expr parse \<Rightarrow> span \<Rightarrow> type_expr parse" where
  "parse_type_expr_inner n E T start = pbind peek_kind (\<lambda>k.
     if k = TKeyword KArray then parse_array n T start
     else if k = TKeyword KRecord then
       pbind bump (\<lambda>_. pbind (parse_record_body n E T start) (\<lambda>r. pret (TyRecord r)))
     else if k = TKeyword KPointer then parse_pointer T start
     else if k = TKeyword KProcedure then parse_proc_type n T start
     else if k = TKeyword KSet then parse_set_type False T start
     else if k = TKeyword KPackedset then parse_set_type True T start
     else if k = TLParen then parse_enum n E start
     else if k = TLBracket then subrange E start
     else if ident_of k \<noteq> None then named_type n E
     else perr (ExpectedType k))"

definition type_expr_body :: "nat \<Rightarrow> expr parse \<Rightarrow> type_expr parse \<Rightarrow> type_expr parse" where
  "type_expr_body n E T = pbind (eat_soft_kw ''VALUE'') (\<lambda>_. pbind peek_span (\<lambda>start.
     pbind (parse_type_expr_inner n E T start) (\<lambda>ty. pbind (eat_soft_kw ''BIG'') (\<lambda>_. pret ty))))"

section \<open>The two entry points\<close>

fun parse_expr :: "nat \<Rightarrow> expr parse" and parse_type_expr :: "nat \<Rightarrow> type_expr parse" where
  "parse_expr 0 = pfail OutOfFuel"
| "parse_expr (Suc n) = parse_relational (Suc n) (parse_expr n) (parse_type_expr n)"
| "parse_type_expr 0 = pfail OutOfFuel"
| "parse_type_expr (Suc n) = type_expr_body n (parse_expr n) (parse_type_expr n)"

end
