(* ===== verification/ParseTypesSpec.thy ===== *)
theory ParseTypesSpec
  imports ParseTypes
begin

text \<open>
  Adequacy of the fuel for type expressions and for the two entry points: as many units as there are
  tokens left are enough, more change nothing, no index leaves the tokens and every error is located.
\<close>

section \<open>Attributes\<close>

lemma looks_peek_text [simp]: "looks peek_text"
  by (auto simp: looks_def peek_text_def pbind_def peek_token_ready Let_def)

lemmas [agree_rules] = agree_look [OF looks_peek_text]

lemma agree_attr_arg: "agree always 0 (min n n') (collect_attr_arg n d out) (collect_attr_arg n' d out)"
proof (induction n n' arbitrary: d out rule: diff_induct)
  case (3 n n')
  show ?case unfolding collect_attr_arg.simps by (intro agree_rules agree_tail [OF 3]) auto
qed (simp_all add: agree_empty)

lemma agree_attr_name: "agree always 1 N attr_name attr_name"
  unfolding attr_name_def by (intro agree_rules) auto

lemma agree_attr_args: "agree always 0 (min n n') (attr_args n) (attr_args n')"
proof (induction n n' rule: diff_induct)
  case (3 n n')
  show ?case unfolding attr_args.simps
    by (intro agree_rules agree_head0 [OF agree_attr_arg] agree_head0 [OF 3]) auto
qed (simp_all add: agree_empty)

lemma agree_attr_arg_list: "agree always 0 (min n n') (attr_arg_list n) (attr_arg_list n')"
  unfolding attr_arg_list_def by (intro agree_rules agree_head0 [OF agree_attr_args]) auto

lemma agree_attr_loop: "agree always 0 (min n n') (attr_loop n) (attr_loop n')"
proof (induction n n' rule: diff_induct)
  case (3 n n')
  show ?case unfolding attr_loop.simps Let_def
    by (intro agree_rules agree_head0 [OF agree_skip_pragmas] agree_head [OF agree_attr_name order_refl]
        agree_head0 [OF agree_attr_arg_list] agree_head0 [OF 3]) auto
qed (simp_all add: agree_empty)

lemma agree_proc_attrs: "agree always 0 (min n n') (parse_proc_attrs n) (parse_proc_attrs n')"
  unfolding parse_proc_attrs_def by (intro agree_rules agree_head0 [OF agree_attr_loop]) auto

section \<open>Fields\<close>

lemma agree_more_field_names: "agree always 0 (min n n') (more_field_names n) (more_field_names n')"
proof (induction n n' rule: diff_induct)
  case (3 n n')
  show ?case unfolding more_field_names.simps by (intro agree_rules agree_head0 [OF 3]) auto
qed (simp_all add: agree_empty)

lemma agree_field_end: "agree always 0 N field_end field_end"
proof -
  have eq: "field_end = pbind (at_kind TSemicolon) (\<lambda>b.
     if b then pbind bump (\<lambda>_. pbind prev_span (\<lambda>sp. pret (span_end sp)))
     else pbind peek_span (\<lambda>sp. pret (span_start sp)))"
    by (simp add: field_end_def eat_kind_def pbind_assoc pbind_if cong: if_cong)
  show ?thesis unfolding eq by (intro agree_rules) auto
qed

lemma agree_field_section:
  assumes T: "agree always 1 B T T'"
  shows "agree always 1 (min (Suc (min n n')) (Suc B)) (field_section n T ps) (field_section n' T' ps)"
  unfolding field_section_def
  by (intro agree_rules agree_head0 [OF agree_more_field_names] agree_head [OF T] agree_head0 [OF agree_field_end order_refl]) auto

lemma agree_field_linkage: "agree always 0 N field_linkage field_linkage"
  unfolding field_linkage_def
  by (intro agree_rules agree_bind1 [OF agree_bump] agree_bind0 [OF agree_bump0]) auto

lemma agree_more_linked_names: "agree always 0 (min n n') (more_linked_names n) (more_linked_names n')"
proof (induction n n' rule: diff_induct)
  case (3 n n')
  show ?case unfolding more_linked_names.simps
    by (intro agree_rules agree_head0 [OF 3] agree_head0 [OF agree_field_linkage order_refl]) auto
qed (simp_all add: agree_empty)

lemma agree_linked_field:
  assumes T: "agree always 1 B T T'"
  shows "agree always 1 (min (Suc (min n n')) (Suc B)) (linked_field n T ps) (linked_field n' T' ps)"
  unfolding linked_field_def
  by (intro agree_rules agree_head0 [OF agree_more_linked_names] agree_head [OF T]
      agree_head0 [OF agree_field_linkage order_refl] agree_head0 [OF agree_field_end order_refl]) auto

lemma agree_bit_width: "agree always 1 B E E' \<Longrightarrow> agree always 0 B (bit_width E) (bit_width E')"
  unfolding bit_width_def by (intro agree_rules agree_head) auto

lemma agree_bitfields:
  assumes E: "agree always 1 B E E'" and T: "agree always 1 B T T'"
  shows "agree always 0 (min (min n n') (Suc B)) (parse_bitfields_section n E T) (parse_bitfields_section n' E' T')"
proof (induction n n' rule: diff_induct)
  case (3 n n')
  show ?case unfolding parse_bitfields_section.simps
    by (intro agree_rules agree_head0 [OF agree_skip_pragmas] agree_head0 [OF agree_more_idents] agree_head [OF T]
        agree_head0 [OF agree_bit_width [OF E]] agree_head0 [OF agree_field_end order_refl] agree_head0 [OF 3]) auto
qed (simp_all add: agree_empty)

section \<open>Variants\<close>

text \<open>Reading the tag and going back is looking one token further.\<close>

lemma variant_tag_ident_looks:
  assumes "ready p" and "ident_of (cur p) \<noteq> None"
  shows "variant_tag_ident n x p =
    pbind (peek_kind_at 1) (\<lambda>k1.
      if k1 = Some TColon then
        pbind bump (\<lambda>_. pbind bump (\<lambda>_. pbind (parse_qual_name n) (\<lambda>qn. pret (Some x, Some qn))))
      else pbind (parse_qual_name n) (\<lambda>qn. pret (None, Some qn))) p"
proof -
  let ?q = "p\<lparr>pos := pos p + 1\<rparr>"
  have ne: "cur p \<noteq> TEof" using assms(2) by auto
  have b: "bump p = Inr (toks p ! pos p, ?q)" and q: "ready ?q"
    using bump_ready [OF assms(1) ne] by auto
  have k1: "peek_kind_at 1 p = Inr (Some (cur ?q), p)"
    using q by (simp add: peek_kind_at_def ready_def cur_def)
  have same: "?q\<lparr>pos := pos p\<rparr> = p" by simp
  show ?thesis
  proof (cases "cur ?q = TColon")
    case True
    then have "eat_kind TColon ?q = Inr (True, ?q\<lparr>pos := pos ?q + 1\<rparr>)" "bump ?q = Inr (toks p ! pos ?q, ?q\<lparr>pos := pos ?q + 1\<rparr>)"
      using bump_ready [OF q] q by (auto simp: eat_kind_def at_kind_def pbind_def pret_def)
    then show ?thesis using b k1 True by (simp add: variant_tag_ident_def pbind_def)
  next
    case False
    then have "eat_kind TColon ?q = Inr (False, ?q)" using q by (simp add: eat_kind_def at_kind_def pbind_def pret_def)
    then show ?thesis using b k1 False same by (simp add: variant_tag_ident_def pbind_def)
  qed
qed

lemma agree_cong:
  assumes "agree C k N a a'" and "\<And>p. ready p \<Longrightarrow> C (cur p) \<Longrightarrow> m p = a p" and "\<And>p. ready p \<Longrightarrow> C (cur p) \<Longrightarrow> m' p = a' p"
  shows "agree C k N m m'"
  using assms unfolding agree_def by simp

lemma agree_variant_tag_ident:
  "agree (\<lambda>k. ident_of k \<noteq> None) 0 (min n n') (variant_tag_ident n x) (variant_tag_ident n' x)"
  by (rule agree_cong [OF _ variant_tag_ident_looks variant_tag_ident_looks])
    (intro agree_rules agree_bind1 [OF agree_bump] agree_bind0 [OF agree_bump0] agree_head [OF agree_qual_name]; auto)+

lemma agree_variant_tag: "agree always 0 (min n n') (variant_tag n) (variant_tag n')"
  unfolding variant_tag_def
  by (intro agree_rules agree_head [OF agree_qual_name] agree_mono [OF agree_variant_tag_ident]) auto

lemma agree_variant_arms:
  assumes arm: "agree always 1 B arm arm'"
  shows "agree always 0 (min (min n n') B) (variant_arms n arm) (variant_arms n' arm')"
proof (induction n n' rule: diff_induct)
  case (3 n n')
  show ?case unfolding variant_arms.simps
    by (intro agree_rules agree_head [OF arm] agree_tail [OF 3] agree_head0 [OF 3]) auto
qed (simp_all add: agree_empty)

lemma agree_else_fields:
  assumes T: "agree always 1 B T T'"
  shows "agree always 0 (min (min n n') (Suc B)) (else_fields n T) (else_fields n' T')"
proof (induction n n' rule: diff_induct)
  case (3 n n')
  show ?case unfolding else_fields.simps
    by (intro agree_rules agree_head0 [OF agree_collect_pragmas] agree_head [OF agree_field_section [OF T]] agree_head0 [OF 3]) auto
qed (simp_all add: agree_empty)

lemma agree_variant_else:
  assumes T: "agree always 1 B T T'"
  shows "agree always 0 (min (min n n') (Suc B)) (variant_else n T) (variant_else n' T')"
  unfolding variant_else_def by (intro agree_rules agree_head0 [OF agree_else_fields [OF T]]) auto

lemma agree_arm_fields:
  assumes E: "agree always 1 B E E'" and T: "agree always 1 B T T'" and W: "\<And>sp. agree always 1 B (W sp) (W' sp)"
  shows "agree always 0 (min (min n n') (Suc B)) (arm_fields n E T (pbind prev_span W)) (arm_fields n' E' T' (pbind prev_span W'))"
proof (induction n n' rule: diff_induct)
  case (3 n n')
  show ?case unfolding arm_fields.simps pbind_assoc
    by (intro agree_rules agree_head [OF W] agree_head0 [OF agree_bitfields [OF E T]] agree_head0 [OF agree_collect_pragmas]
        agree_head [OF agree_field_section [OF T]] agree_head0 [OF 3]) auto
qed (simp_all add: agree_empty)

lemma agree_variant_arm:
  assumes E: "agree always 1 B E E'" and T: "agree always 1 B T T'" and W: "\<And>sp. agree always 1 B (W sp) (W' sp)"
  shows "agree always 1 (min (min n n') B) (parse_variant_arm n E T (pbind prev_span W)) (parse_variant_arm n' E' T' (pbind prev_span W'))"
  unfolding parse_variant_arm_def
  by (intro agree_rules agree_head [OF agree_sep_list [OF agree_one_or_range [OF E]]]
      agree_head0 [OF agree_arm_fields [OF E T W]]) auto

lemma agree_variant_from:
  assumes E: "agree always 1 B E E'" and T: "agree always 1 B T T'"
  shows "agree always 1 (min (min n n') (Suc B)) (variant_from n E T start) (variant_from n' E' T' start)"
proof (induction n n' arbitrary: start rule: diff_induct)
  case (3 n n')
  let ?B = "min (min n n') B"
  have E': "agree always 1 ?B E E'" "agree always 1 ?B T T'" using agree_mono [OF E] agree_mono [OF T] by auto
  have W: "agree always 1 ?B (variant_from n E T sp) (variant_from n' E' T' sp)" for sp
    by (rule agree_mono [OF 3]) auto
  show ?case unfolding variant_from.simps
    by (intro agree_rules agree_head0 [OF agree_variant_tag] agree_head0 [OF agree_variant_arms [OF agree_variant_arm [OF E' W]]]
        agree_head0 [OF agree_variant_else [OF T]]) auto
qed (simp_all add: agree_empty)

section \<open>Records and types\<close>

lemma agree_record_items:
  assumes E: "agree always 1 B E E'" and T: "agree always 1 B T T'"
  shows "agree always 0 (min (min n n') (Suc B)) (record_items n E T) (record_items n' E' T')"
proof (induction n n' rule: diff_induct)
  case (3 n n')
  show ?case unfolding record_items.simps parse_variant_part_def pbind_assoc
    by (intro agree_rules agree_head0 [OF agree_skip_pragmas] agree_head0 [OF agree_bitfields [OF E T]]
        agree_head [OF agree_variant_from [OF E T]] agree_head0 [OF agree_collect_pragmas]
        agree_head [OF agree_linked_field [OF T]] agree_head0 [OF 3]) auto
qed (simp_all add: agree_empty)

lemma agree_record_body:
  assumes E: "agree always 1 B E E'" and T: "agree always 1 B T T'"
  shows "agree always 0 (min (min n n') (Suc B)) (parse_record_body n E T start) (parse_record_body n' E' T' start)"
proof -
  have skip: "agree always 0 (min n n') (if b then skip_brackets n else pret ()) (if b then skip_brackets n' else pret ())" for b
    by (intro agree_rules agree_skip_brackets)
  show ?thesis unfolding parse_record_body_def
    by (intro agree_rules agree_head0 [OF skip] agree_head0 [OF agree_record_items [OF E T]]) auto
qed

lemma agree_out_or_inout: "agree always 0 N out_or_inout out_or_inout"
  unfolding out_or_inout_def by (intro agree_rules) auto

lemma agree_type_mode: "agree always 0 N parse_type_mode parse_type_mode"
  unfolding parse_type_mode_def
  by (intro agree_rules agree_head0 [OF agree_out_or_inout order_refl]) auto

lemma agree_comma_or_semicolon: "agree always 0 N comma_or_semicolon comma_or_semicolon"
  unfolding comma_or_semicolon_def by (intro agree_rules) auto

lemma agree_proc_type_params:
  assumes T: "agree always 1 B T T'"
  shows "agree always 1 (min (min n n') B) (proc_type_params n T) (proc_type_params n' T')"
proof (induction n n' rule: diff_induct)
  case (3 n n')
  show ?case unfolding proc_type_params.simps Let_def
    by (intro agree_rules agree_head0 [OF agree_collect_pragmas] agree_head0 [OF agree_type_mode order_refl]
        agree_head [OF T] agree_head0 [OF agree_comma_or_semicolon order_refl] agree_head0 [OF agree_tail [OF 3 order_refl]]) auto
qed (simp_all add: agree_empty)

lemma agree_proc_type_param_list:
  assumes T: "agree always 1 B T T'"
  shows "agree always 0 (min (min n n') B) (proc_type_param_list n T) (proc_type_param_list n' T')"
  unfolding proc_type_param_list_def
  by (intro agree_rules agree_head [OF agree_proc_type_params [OF T]]) auto

lemma agree_optional_result: "agree always 1 B T T' \<Longrightarrow> agree always 0 B (optional_result T) (optional_result T')"
  unfolding optional_result_def by (intro agree_rules agree_head) auto

lemma agree_enum_member: "agree always 1 B E E' \<Longrightarrow> agree always 1 (Suc B) (enum_member E) (enum_member E')"
  unfolding enum_member_def by (intro agree_rules agree_head [of B E E']) auto

lemma agree_subrange:
  assumes E: "agree always 1 B E E'"
  shows "agree (\<lambda>k. k \<noteq> TEof) 1 (Suc B) (subrange E start) (subrange E' start)"
  unfolding subrange_def by (intro agree_rules agree_head [OF E]) auto

lemma agree_more_indices:
  assumes T: "agree always 1 B T T'"
  shows "agree always 0 (min (min n n') (Suc B)) (more_indices n T) (more_indices n' T')"
proof (induction n n' rule: diff_induct)
  case (3 n n')
  show ?case unfolding more_indices.simps by (intro agree_rules agree_head [OF T] agree_head0 [OF 3]) auto
qed (simp_all add: agree_empty)

lemma agree_type_forms:
  assumes E: "agree always 1 B E E'" and T: "agree always 1 B T T'"
  shows "agree (\<lambda>k. k \<noteq> TEof) 1 (Suc (min (min n n') B)) (parse_array n T start) (parse_array n' T' start)"
    and "agree (\<lambda>k. k \<noteq> TEof) 1 (Suc B) (parse_pointer T start) (parse_pointer T' start)"
    and "agree (\<lambda>k. k \<noteq> TEof) 1 (Suc (min (min n n') B)) (parse_proc_type n T start) (parse_proc_type n' T' start)"
    and "agree (\<lambda>k. k \<noteq> TEof) 1 (Suc B) (parse_set_type b T start) (parse_set_type b T' start)"
    and "agree (\<lambda>k. k \<noteq> TEof) 1 (Suc (min (min n n') B)) (parse_enum n E start) (parse_enum n' E' start)"
    and "agree always 1 (Suc (min (min n n') B)) (named_type n E) (named_type n' E')"
  unfolding parse_array_def parse_pointer_def parse_proc_type_def parse_set_type_def parse_enum_def named_type_def
  by (intro agree_rules agree_head [OF T] agree_head0 [OF agree_more_indices [OF T]] agree_head0 [OF agree_proc_type_param_list [OF T]]
      agree_head0 [OF agree_optional_result [OF T]] agree_head0 [OF agree_proc_attrs] agree_head0 [OF agree_opt_list [OF agree_enum_member [OF E]]]
      agree_head [OF agree_qual_name] agree_mono [OF agree_subrange [OF E]]; auto)+

lemma agree_type_inner:
  assumes E: "agree always 1 B E E'" and T: "agree always 1 B T T'"
  shows "agree always 1 (Suc (min (min n n') B)) (parse_type_expr_inner n E T start) (parse_type_expr_inner n' E' T' start)"
  unfolding parse_type_expr_inner_def
  by (intro agree_rules agree_mono [OF agree_type_forms(1) [OF E T]] agree_mono [OF agree_type_forms(2) [OF E T]]
      agree_mono [OF agree_type_forms(3) [OF E T]] agree_mono [OF agree_type_forms(4) [OF E T]]
      agree_mono [OF agree_type_forms(5) [OF E T]] agree_mono [OF agree_type_forms(6) [OF E T]]
      agree_mono [OF agree_subrange [OF E]] agree_head0 [OF agree_record_body [OF E T]]) auto

lemma agree_type_expr_body:
  assumes E: "agree always 1 B E E'" and T: "agree always 1 B T T'"
  shows "agree always 1 (Suc (min (min n n') B)) (type_expr_body n E T) (type_expr_body n' E' T')"
  unfolding type_expr_body_def
  by (intro agree_rules agree_head0 [OF agree_eats(3) order_refl] agree_head [OF agree_type_inner [OF E T]]) auto

section \<open>The entry points\<close>

lemma agree_expr_and_type:
  "agree always 1 (min n n') (parse_expr n) (parse_expr n') \<and>
   agree always 1 (min n n') (parse_type_expr n) (parse_type_expr n')"
proof (induction n n' rule: diff_induct)
  case (3 n n')
  then have E: "agree always 1 (min n n') (parse_expr n) (parse_expr n')"
    and T: "agree always 1 (min n n') (parse_type_expr n) (parse_type_expr n')" by auto
  show ?case
    using agree_relational [OF E T, of "Suc n" "Suc n'"] agree_type_expr_body [OF E T, of n n']
    by (simp add: min_Suc_Suc)
qed (simp_all add: agree_empty)

end
