(* ===== verification/ParseStmt.thy ===== *)
theory ParseStmt
  imports ParseTypesSpec
begin

text \<open>
  The statement parser (\<open>newm2-parser/src/parser.rs\<close>, section Statements). The routines take the
  expression parser \<open>E\<close> and the parser of statement sequences \<open>S\<close>, which calls them, as arguments;
  \<open>parse_stmt_seq\<close> ties the knot with fuel for the nesting of statements.
\<close>

section \<open>Ends of sequences\<close>

definition ends_seq :: "token_kind \<Rightarrow> bool" where
  "ends_seq k \<longleftrightarrow>
     k \<in> {TKeyword KEnd, TKeyword KElse, TKeyword KElsif, TKeyword KUntil, TKeyword KExcept,
          TKeyword KFinally, TPipe, TEof}"

definition ends_return :: "token_kind \<Rightarrow> bool" where
  "ends_return k \<longleftrightarrow>
     k \<in> {TSemicolon, TKeyword KEnd, TKeyword KElse, TKeyword KElsif, TKeyword KUntil,
          TKeyword KExcept, TKeyword KFinally, TPipe}"

fun stmt_loop :: "nat \<Rightarrow> stmt parse \<Rightarrow> stmt list parse" where
  "stmt_loop 0 St = pfail OutOfFuel"
| "stmt_loop (Suc n) St = pbind (skip_pragmas (Suc n)) (\<lambda>_. pbind peek_kind (\<lambda>k.
     if ends_seq k then pret []
     else pbind St (\<lambda>s. pbind (eat_kind TSemicolon) (\<lambda>b.
       if b then pbind (stmt_loop n St) (\<lambda>ss. pret (s # ss)) else pret [s]))))"

section \<open>Simple statements\<close>

definition parse_return :: "expr parse \<Rightarrow> span \<Rightarrow> stmt parse" where
  "parse_return E start = pbind bump (\<lambda>_. pbind peek_kind (\<lambda>k.
     if ends_return k then pbind prev_end (\<lambda>e. pret (SReturn None (between start e)))
     else pbind E (\<lambda>v. pbind prev_end (\<lambda>e. pret (SReturn (Some v) (between start e))))))"

text \<open>The parenthesised arguments of a procedure call, when there are any.\<close>

definition call_stmt :: "nat \<Rightarrow> expr parse \<Rightarrow> span \<Rightarrow> designator \<Rightarrow> stmt parse" where
  "call_stmt n E start dz = pbind (at_kind TLParen) (\<lambda>b.
     if b then
       pbind bump (\<lambda>_. pbind (opt_list n TRParen E) (\<lambda>args. pbind (expect_kind TRParen '')'') (\<lambda>close.
         let sp = between start (span_end close) in pret (SCall (ECall (EDesignator dz) args sp) sp))))
     else pret (SCall (EDesignator dz) start))"

definition func_stmt :: "nat \<Rightarrow> expr parse \<Rightarrow> span \<Rightarrow> stmt parse" where
  "func_stmt n E start = pbind bump (\<lambda>_. pbind parse_designator_base (\<lambda>base.
     pbind (parse_designator_tail n E base) (\<lambda>dz. call_stmt n E start dz)))"

definition ident_stmt :: "nat \<Rightarrow> expr parse \<Rightarrow> span \<Rightarrow> stmt parse" where
  "ident_stmt n E start = pbind parse_designator_base (\<lambda>base. pbind (parse_designator_tail n E base) (\<lambda>dz.
     pbind (eat_kind TAssign) (\<lambda>assign.
       if assign then pbind E (\<lambda>v. pbind prev_end (\<lambda>e. pret (SAssign dz v (between start e))))
       else call_stmt n E start dz)))"

section \<open>Structured statements\<close>

definition optional_else :: "stmt list parse \<Rightarrow> stmt list option parse" where
  "optional_else S = pbind (eat_kw KElse) (\<lambda>b. if b then pbind S (\<lambda>ss. pret (Some ss)) else pret None)"

fun elsif_arms :: "nat \<Rightarrow> expr parse \<Rightarrow> stmt list parse \<Rightarrow> (expr \<times> stmt list) list parse" where
  "elsif_arms 0 E S = pfail OutOfFuel"
| "elsif_arms (Suc n) E S = pbind (eat_kw KElsif) (\<lambda>b.
     if b then pbind E (\<lambda>c. pbind (expect_kw KThen) (\<lambda>_. pbind S (\<lambda>body.
       pbind (elsif_arms n E S) (\<lambda>arms. pret ((c, body) # arms)))))
     else pret [])"

definition parse_if :: "nat \<Rightarrow> expr parse \<Rightarrow> stmt list parse \<Rightarrow> stmt parse" where
  "parse_if n E S = pbind peek_span (\<lambda>start. pbind (expect_kw KIf) (\<lambda>_.
     pbind E (\<lambda>c. pbind (expect_kw KThen) (\<lambda>_. pbind S (\<lambda>body.
     pbind (elsif_arms n E S) (\<lambda>arms. pbind (optional_else S) (\<lambda>else_arm.
     pbind (expect_kw KEnd) (\<lambda>close.
       pret (SIf ((c, body) # arms) else_arm (between start (span_end close)))))))))))"

text \<open>\<open>GUARD\<close> is an identifier; it starts a statement of its own unless a designator goes on.\<close>

definition starts_guard_stmt :: "bool parse" where
  "starts_guard_stmt = pbind peek_kind (\<lambda>k. pbind (peek_kind_at 1) (\<lambda>k1.
     pret (k = TIdent ''GUARD'' \<and>
       k1 \<notin> {Some TAssign, Some TDot, Some TLBracket, Some TLParen, Some TCaret, Some TComma, Some TColon})))"

definition guard_denoter :: "span \<Rightarrow> (string option \<times> span) parse" where
  "guard_denoter start = pbind peek_kind (\<lambda>k. pbind (peek_kind_at 1) (\<lambda>k1.
     case ident_of k of
       None \<Rightarrow> pret (None, start)
     | Some x \<Rightarrow>
         if k1 = Some TColon then pbind peek_span (\<lambda>sp. pbind bump (\<lambda>_. pbind bump (\<lambda>_. pret (Some x, sp))))
         else pret (None, start)))"

definition parse_guard_arm :: "nat \<Rightarrow> stmt list parse \<Rightarrow> guard_arm parse" where
  "parse_guard_arm n S = pbind peek_span (\<lambda>start. pbind (guard_denoter start) (\<lambda>(denoter, dsp).
     pbind (parse_qual_name n) (\<lambda>qn. pbind (expect_kw KDo) (\<lambda>_. pbind S (\<lambda>body.
     pbind prev_end (\<lambda>e. pret (GuardArm denoter dsp qn body (between start e))))))))"

text \<open>The loop over the arms of \<open>CASE\<close> and \<open>GUARD\<close>.\<close>

fun piped_arms :: "nat \<Rightarrow> 'a parse \<Rightarrow> 'a list parse" where
  "piped_arms 0 arm = pfail OutOfFuel"
| "piped_arms (Suc n) arm = pbind peek_kind (\<lambda>k.
     if k = TKeyword KEnd \<or> k = TKeyword KElse then pret []
     else pbind arm (\<lambda>a. pbind (eat_kind TPipe) (\<lambda>b.
       if b then pbind (piped_arms n arm) (\<lambda>as. pret (a # as)) else pret [a])))"

definition parse_guard :: "nat \<Rightarrow> expr parse \<Rightarrow> stmt list parse \<Rightarrow> stmt parse" where
  "parse_guard n E S = pbind peek_span (\<lambda>start. pbind bump (\<lambda>_. pbind E (\<lambda>sel.
     pbind (eat_soft_kw ''AS'') (\<lambda>as.
       if \<not> as then perr ExpectedAs
       else pbind (eat_kind TPipe) (\<lambda>_. pbind (piped_arms n (parse_guard_arm n S)) (\<lambda>arms.
         pbind (optional_else S) (\<lambda>else_arm. pbind (expect_kw KEnd) (\<lambda>close.
           pret (SGuard sel arms else_arm (between start (span_end close)))))))))))"

definition parse_case_arm :: "nat \<Rightarrow> expr parse \<Rightarrow> stmt list parse \<Rightarrow> case_arm parse" where
  "parse_case_arm n E S = pbind peek_span (\<lambda>start.
     pbind (sep_list n (one_or_range E LSingle LRange)) (\<lambda>labels.
     pbind (expect_kind TColon '':'') (\<lambda>_. pbind S (\<lambda>body.
     pbind prev_end (\<lambda>e. pret (CaseArm labels body (between start e)))))))"

definition parse_case :: "nat \<Rightarrow> expr parse \<Rightarrow> stmt list parse \<Rightarrow> stmt parse" where
  "parse_case n E S = pbind peek_span (\<lambda>start. pbind (expect_kw KCase) (\<lambda>_. pbind E (\<lambda>scrutinee.
     pbind (expect_kw KOf) (\<lambda>_. pbind (eat_kind TPipe) (\<lambda>_.
     pbind (piped_arms n (parse_case_arm n E S)) (\<lambda>arms. pbind (optional_else S) (\<lambda>else_arm.
     pbind (expect_kw KEnd) (\<lambda>close.
       pret (SCase scrutinee arms else_arm (between start (span_end close)))))))))))"

definition parse_while :: "expr parse \<Rightarrow> stmt list parse \<Rightarrow> stmt parse" where
  "parse_while E S = pbind peek_span (\<lambda>start. pbind (expect_kw KWhile) (\<lambda>_. pbind E (\<lambda>c.
     pbind (expect_kw KDo) (\<lambda>_. pbind S (\<lambda>body. pbind (expect_kw KEnd) (\<lambda>close.
       pret (SWhile c body (between start (span_end close)))))))))"

definition parse_repeat :: "expr parse \<Rightarrow> stmt list parse \<Rightarrow> stmt parse" where
  "parse_repeat E S = pbind peek_span (\<lambda>start. pbind (expect_kw KRepeat) (\<lambda>_. pbind S (\<lambda>body.
     pbind (expect_kw KUntil) (\<lambda>_. pbind E (\<lambda>c. pbind prev_end (\<lambda>e.
       pret (SRepeat body c (between start e))))))))"

definition parse_step :: "expr parse \<Rightarrow> expr option parse" where
  "parse_step E = pbind (eat_kw KBy) (\<lambda>b. if b then pbind E (\<lambda>e. pret (Some e)) else pret None)"

definition parse_for :: "expr parse \<Rightarrow> stmt list parse \<Rightarrow> stmt parse" where
  "parse_for E S = pbind peek_span (\<lambda>start. pbind (expect_kw KFor) (\<lambda>_. pbind expect_ident (\<lambda>(x, _).
     pbind (expect_kind TAssign '':='') (\<lambda>_. pbind E (\<lambda>lo. pbind (expect_kw KTo) (\<lambda>_. pbind E (\<lambda>hi.
     pbind (parse_step E) (\<lambda>stp. pbind (expect_kw KDo) (\<lambda>_. pbind S (\<lambda>body.
     pbind (expect_kw KEnd) (\<lambda>close.
       pret (SFor x lo hi stp body (between start (span_end close))))))))))))))"

definition parse_loop :: "stmt list parse \<Rightarrow> stmt parse" where
  "parse_loop S = pbind peek_span (\<lambda>start. pbind (expect_kw KLoop) (\<lambda>_. pbind S (\<lambda>body.
     pbind (expect_kw KEnd) (\<lambda>close. pret (SLoop body (between start (span_end close)))))))"

definition parse_with :: "nat \<Rightarrow> expr parse \<Rightarrow> stmt list parse \<Rightarrow> stmt parse" where
  "parse_with n E S = pbind peek_span (\<lambda>start. pbind (expect_kw KWith) (\<lambda>_.
     pbind parse_designator_base (\<lambda>base. pbind (parse_designator_tail n E base) (\<lambda>dz.
     pbind (expect_kw KDo) (\<lambda>_. pbind S (\<lambda>body. pbind (expect_kw KEnd) (\<lambda>close.
       pret (SWith dz body (between start (span_end close))))))))))"

definition parse_statement :: "nat \<Rightarrow> expr parse \<Rightarrow> stmt list parse \<Rightarrow> stmt parse" where
  "parse_statement n E S = pbind peek_span (\<lambda>start. pbind starts_guard_stmt (\<lambda>g.
     if g then parse_guard n E S
     else pbind peek_kind (\<lambda>k.
       if k = TKeyword KIf then parse_if n E S
       else if k = TKeyword KCase then parse_case n E S
       else if k = TKeyword KWhile then parse_while E S
       else if k = TKeyword KRepeat then parse_repeat E S
       else if k = TKeyword KFor then parse_for E S
       else if k = TKeyword KLoop then parse_loop S
       else if k = TKeyword KWith then parse_with n E S
       else if k = TKeyword KExit then pbind bump (\<lambda>_. pret (SExit start))
       else if k = TKeyword KReturn then parse_return E start
       else if k = TKeyword KRetry then pbind bump (\<lambda>_. pret (SRetry start))
       else if k = TIdent ''FUNC'' then func_stmt n E start
       else if ident_of k \<noteq> None then ident_stmt n E start
       else perr (ExpectedStatement k))))"

fun parse_stmt_seq :: "nat \<Rightarrow> stmt list parse" where
  "parse_stmt_seq 0 = pfail OutOfFuel"
| "parse_stmt_seq (Suc n) = stmt_loop (Suc n) (parse_statement n (parse_expr n) (parse_stmt_seq n))"

section \<open>Blocks\<close>

fun more_qual_names :: "nat \<Rightarrow> qual_name list parse" where
  "more_qual_names 0 = pfail OutOfFuel"
| "more_qual_names (Suc n) = pbind (eat_kind TComma) (\<lambda>c.
     if c then pbind (parse_qual_name n) (\<lambda>q. pbind (more_qual_names n) (\<lambda>qs. pret (q # qs))) else pret [])"

definition except_names :: "nat \<Rightarrow> qual_name list parse" where
  "except_names n = pbind peek_kind (\<lambda>k.
     if ident_of k \<noteq> None then
       pbind (parse_qual_name n) (\<lambda>q. pbind (more_qual_names n) (\<lambda>qs.
         pbind (expect_kind TColon '':'') (\<lambda>_. pret (q # qs))))
     else pret [])"

fun parse_except_arms :: "nat \<Rightarrow> stmt list parse \<Rightarrow> except_arm list parse" where
  "parse_except_arms 0 S = pfail OutOfFuel"
| "parse_except_arms (Suc n) S = pbind peek_span (\<lambda>start. pbind (except_names (Suc n)) (\<lambda>names.
     pbind S (\<lambda>body. pbind (eat_kind TPipe) (\<lambda>b.
       if b then pbind (parse_except_arms n S) (\<lambda>arms. pret (ExceptArm names body start # arms))
       else pret [ExceptArm names body start]))))"

text \<open>Named handlers if they parse; otherwise one handler for everything, from the same place.\<close>

definition catch_all :: "stmt list parse \<Rightarrow> span \<Rightarrow> except_arm list parse" where
  "catch_all S start = pbind S (\<lambda>body. pret [ExceptArm [] body start])"

definition except_part :: "nat \<Rightarrow> stmt list parse \<Rightarrow> span \<Rightarrow> except_arm list parse" where
  "except_part n S start = pbind peek_kind (\<lambda>k.
     if k = TKeyword KEnd \<or> k = TKeyword KFinally then catch_all S start
     else (\<lambda>p. case parse_except_arms n S p of
                 Inl (ParseError msg sp) \<Rightarrow> catch_all S start p
               | r \<Rightarrow> r))"

definition optional_except :: "nat \<Rightarrow> stmt list parse \<Rightarrow> span \<Rightarrow> except_arm list parse" where
  "optional_except n S start = pbind (eat_kw KExcept) (\<lambda>b. if b then except_part n S start else pret [])"

definition optional_finally :: "stmt list parse \<Rightarrow> stmt list option parse" where
  "optional_finally S = pbind (eat_kw KFinally) (\<lambda>b. if b then pbind S (\<lambda>ss. pret (Some ss)) else pret None)"

definition finish_block :: "nat \<Rightarrow> stmt list parse \<Rightarrow> stmt list \<Rightarrow> span \<Rightarrow> block parse" where
  "finish_block n S stmts start = pbind (optional_except n S start) (\<lambda>arms.
     pbind (optional_finally S) (\<lambda>fin. pret (Block stmts arms fin start)))"

end
