(* ===== verification/ParseStmtSpec.thy ===== *)
theory ParseStmtSpec
  imports ParseStmt
begin

text \<open>
  Adequacy of the fuel for statements and blocks, and what it gives: on the tokens of any source the
  expression, type and statement parsers return, with a result or an error located at a token.
\<close>

section \<open>Statements\<close>

lemma agree_stmt_loop:
  assumes St: "agree always 1 B St St'"
  shows "agree always 0 (min (min n n') B) (stmt_loop n St) (stmt_loop n' St')"
proof (induction n n' rule: diff_induct)
  case (3 n n')
  show ?case unfolding stmt_loop.simps
    by (intro agree_rules agree_head0 [OF agree_skip_pragmas] agree_head [OF St] agree_head0 [OF 3]) auto
qed (simp_all add: agree_empty)

lemma agree_starts_guard [agree_rules]:
  assumes "agree (\<lambda>k. C k \<and> k = TIdent ''GUARD'') k N (f True) (f' True)" and "agree C k N (f False) (f' False)"
  shows "agree C k N (pbind starts_guard_stmt f) (pbind starts_guard_stmt f')"
proof (rule agreeI)
  fix p assume p: "ready p" "left p < N" "C (cur p)"
  obtain b where b: "starts_guard_stmt p = Inr (b, p)" "b \<Longrightarrow> cur p = TIdent ''GUARD''"
    using p(1) by (auto simp: starts_guard_stmt_def pbind_def pret_def peek_kind_at_def)
  show "pbind starts_guard_stmt f p = pbind starts_guard_stmt f' p \<and> outcome k p (pbind starts_guard_stmt f' p)"
    using agreeD [OF assms(1) p(1,2)] agreeD [OF assms(2) p] p(3) b by (cases b) (simp_all add: pbind_def)
qed

lemma agree_optional_else: "agree always 0 B S S' \<Longrightarrow> agree always 0 (Suc B) (optional_else S) (optional_else S')"
  unfolding optional_else_def by (intro agree_rules agree_head0 [of B S S']) auto

lemma agree_piped_arms:
  assumes arm: "agree always 1 B arm arm'"
  shows "agree always 0 (min (min n n') B) (piped_arms n arm) (piped_arms n' arm')"
proof (induction n n' rule: diff_induct)
  case (3 n n')
  show ?case unfolding piped_arms.simps by (intro agree_rules agree_head [OF arm] agree_head0 [OF 3]) auto
qed (simp_all add: agree_empty)

lemma agree_guard_denoter: "agree always 0 N (guard_denoter start) (guard_denoter start)"
  unfolding guard_denoter_def
  by (intro agree_rules agree_bind1 [OF agree_bump] agree_bind0 [OF agree_bump0]) auto

lemma agree_more_qual_names: "agree always 0 (min n n') (more_qual_names n) (more_qual_names n')"
proof (induction n n' rule: diff_induct)
  case (3 n n')
  show ?case unfolding more_qual_names.simps
    by (intro agree_rules agree_head [OF agree_qual_name] agree_head0 [OF 3]) auto
qed (simp_all add: agree_empty)

lemma agree_except_names: "agree always 0 (min n n') (except_names n) (except_names n')"
  unfolding except_names_def
  by (intro agree_rules agree_head [OF agree_qual_name] agree_head0 [OF agree_more_qual_names]) auto

text \<open>
  What the statement routines need of the two parsers they are given: an expression consumes, a
  sequence may be empty, both are adequate up to \<open>B\<close> tokens.
\<close>

locale statement_parsers =
  fixes B :: nat and E E' :: "expr parse" and S S' :: "stmt list parse"
  assumes E: "agree always 1 B E E'" and S: "agree always 0 B S S'"
begin

lemma agree_return: "agree (\<lambda>k. k \<noteq> TEof) 1 (Suc B) (parse_return E start) (parse_return E' start)"
  unfolding parse_return_def by (intro agree_rules agree_head [OF E]) auto

lemma agree_call_stmt: "agree always 0 (Suc (min (min n n') B)) (call_stmt n E start dz) (call_stmt n' E' start dz)"
  unfolding call_stmt_def Let_def by (intro agree_rules agree_head0 [OF agree_opt_list [OF E]]) auto

lemma agree_func_stmt:
  "agree (\<lambda>k. k \<noteq> TEof) 1 (Suc (min (min n n') B)) (func_stmt n E start) (func_stmt n' E' start)"
  unfolding func_stmt_def
  by (intro agree_rules agree_head [OF agree_designator_base order_refl] agree_head0 [OF agree_designator_tail [OF E]]
      agree_tail [OF agree_call_stmt]) auto

lemma agree_ident_stmt: "agree always 1 (Suc (min (min n n') B)) (ident_stmt n E start) (ident_stmt n' E' start)"
  unfolding ident_stmt_def
  by (intro agree_rules agree_head [OF agree_designator_base order_refl] agree_head0 [OF agree_designator_tail [OF E]]
      agree_head [OF E] agree_mono [OF agree_call_stmt]) auto

lemma agree_elsif_arms: "agree always 0 (min (min n n') (Suc B)) (elsif_arms n E S) (elsif_arms n' E' S')"
proof (induction n n' rule: diff_induct)
  case (3 n n')
  show ?case unfolding elsif_arms.simps
    by (intro agree_rules agree_head [OF E] agree_head0 [OF S] agree_head0 [OF 3]) auto
qed (simp_all add: agree_empty)

lemma agree_if_stmt: "agree always 1 (Suc (min (min n n') B)) (parse_if n E S) (parse_if n' E' S')"
  unfolding parse_if_def
  by (intro agree_rules agree_head [OF E] agree_head0 [OF S] agree_head0 [OF agree_elsif_arms]
      agree_head0 [OF agree_optional_else [OF S]]) auto

lemma agree_guard_arm: "agree always 1 (min (min n n') B) (parse_guard_arm n S) (parse_guard_arm n' S')"
  unfolding parse_guard_arm_def
  by (intro agree_rules agree_head0 [OF agree_guard_denoter order_refl] agree_head [OF agree_qual_name]
      agree_head0 [OF S]) auto

lemma agree_guard:
  "agree (\<lambda>k. k \<noteq> TEof) 1 (Suc (min (min n n') B)) (parse_guard n E S) (parse_guard n' E' S')"
  unfolding parse_guard_def
  by (intro agree_rules agree_head [OF E] agree_head0 [OF agree_piped_arms [OF agree_guard_arm]]
      agree_head0 [OF agree_optional_else [OF S]]) auto

lemma agree_case_arm: "agree always 1 (min (min n n') B) (parse_case_arm n E S) (parse_case_arm n' E' S')"
  unfolding parse_case_arm_def
  by (intro agree_rules agree_head [OF agree_sep_list [OF agree_one_or_range [OF E]]] agree_head0 [OF S]) auto

lemma agree_case: "agree always 1 (Suc (min (min n n') B)) (parse_case n E S) (parse_case n' E' S')"
  unfolding parse_case_def
  by (intro agree_rules agree_head [OF E] agree_head0 [OF agree_eats(1) order_refl]
      agree_head0 [OF agree_piped_arms [OF agree_case_arm]] agree_head0 [OF agree_optional_else [OF S]]) auto

lemma agree_while: "agree always 1 (Suc B) (parse_while E S) (parse_while E' S')"
  unfolding parse_while_def by (intro agree_rules agree_head [OF E] agree_head0 [OF S]) auto

lemma agree_repeat: "agree always 1 (Suc B) (parse_repeat E S) (parse_repeat E' S')"
  unfolding parse_repeat_def by (intro agree_rules agree_head [OF E] agree_head0 [OF S]) auto

lemma agree_step: "agree always 0 B (parse_step E) (parse_step E')"
  unfolding parse_step_def by (intro agree_rules agree_head [OF E]) auto

lemma agree_for: "agree always 1 (Suc B) (parse_for E S) (parse_for E' S')"
  unfolding parse_for_def
  by (intro agree_rules agree_head [OF E] agree_head0 [OF agree_step] agree_head0 [OF S]) auto

lemma agree_loop: "agree always 1 (Suc B) (parse_loop S) (parse_loop S')"
  unfolding parse_loop_def by (intro agree_rules agree_head0 [OF S]) auto

lemma agree_with: "agree always 1 (Suc (min (min n n') B)) (parse_with n E S) (parse_with n' E' S')"
  unfolding parse_with_def
  by (intro agree_rules agree_head [OF agree_designator_base order_refl] agree_head0 [OF agree_designator_tail [OF E]]
      agree_head0 [OF S]) auto

lemma agree_statement: "agree always 1 (Suc (min (min n n') B)) (parse_statement n E S) (parse_statement n' E' S')"
  unfolding parse_statement_def
  by (intro agree_rules agree_mono [OF agree_guard] agree_mono [OF agree_if_stmt] agree_mono [OF agree_case]
      agree_mono [OF agree_while] agree_mono [OF agree_repeat] agree_mono [OF agree_for] agree_mono [OF agree_loop]
      agree_mono [OF agree_with] agree_mono [OF agree_return] agree_mono [OF agree_func_stmt]
      agree_mono [OF agree_ident_stmt]) auto

lemma agree_except_arms: "agree always 0 (min (min n n') B) (parse_except_arms n S) (parse_except_arms n' S')"
proof (induction n n' rule: diff_induct)
  case (3 n n')
  show ?case unfolding parse_except_arms.simps
    by (intro agree_rules agree_head0 [OF agree_except_names] agree_head0 [OF S] agree_head0 [OF 3]) auto
qed (simp_all add: agree_empty)

lemma agree_catch_all: "agree always 0 B (catch_all S start) (catch_all S' start)"
  unfolding catch_all_def by (intro agree_rules agree_head0 [OF S]) auto

text \<open>Falling back to the handler for everything hides an error of the named handlers, nothing else.\<close>

lemma agree_except_fallback:
  "agree always 0 (min (min n n') B)
     (\<lambda>p. case parse_except_arms n S p of Inl (ParseError msg sp) \<Rightarrow> catch_all S start p | r \<Rightarrow> r)
     (\<lambda>p. case parse_except_arms n' S' p of Inl (ParseError msg sp) \<Rightarrow> catch_all S' start p | r \<Rightarrow> r)"
  (is "agree _ _ _ ?m ?m'")
proof (rule agreeI)
  fix p assume p: "ready p" "left p < min (min n n') B" "always (cur p)"
  have arms: "parse_except_arms n S p = parse_except_arms n' S' p" "outcome 0 p (parse_except_arms n' S' p)"
    using agreeD [OF agree_except_arms p(1,2)] by auto
  have all: "catch_all S start p = catch_all S' start p" "outcome 0 p (catch_all S' start p)"
    using agreeD [OF agree_catch_all p(1)] p(2) by auto
  show "?m p = ?m' p \<and> outcome 0 p (?m' p)"
    using arms all by (auto split: sum.splits parse_failure.splits)
qed

lemma agree_except_part: "agree always 0 (min (min n n') B) (except_part n S start) (except_part n' S' start)"
  unfolding except_part_def
  by (intro agree_rules agree_tail [OF agree_catch_all] agree_mono [OF agree_except_fallback]) auto

lemma agree_finish_block:
  "agree always 0 (min (min n n') B) (finish_block n S stmts start) (finish_block n' S' stmts start)"
proof -
  have x: "agree always 0 (min (min n n') B) (optional_except n S start) (optional_except n' S' start)"
    unfolding optional_except_def by (intro agree_rules agree_tail [OF agree_except_part]) auto
  have f: "agree always 0 B (optional_finally S) (optional_finally S')"
    unfolding optional_finally_def by (intro agree_rules agree_head0 [OF S]) auto
  show ?thesis unfolding finish_block_def by (intro agree_rules agree_head0 [OF x] agree_head0 [OF f]) auto
qed

end

lemma agree_parse_expr: "agree always 1 (min n n') (parse_expr n) (parse_expr n')"
  using agree_expr_and_type by blast

lemma agree_stmt_seq: "agree always 0 (min n n') (parse_stmt_seq n) (parse_stmt_seq n')"
proof (induction n n' rule: diff_induct)
  case (3 n n')
  have env: "statement_parsers (min n n') (parse_expr n) (parse_expr n') (parse_stmt_seq n) (parse_stmt_seq n')"
    by (rule statement_parsers.intro [OF agree_parse_expr 3])
  show ?case
    using agree_stmt_loop [OF statement_parsers.agree_statement [OF env, of n n'], of "Suc n" "Suc n'"]
    by (simp del: stmt_loop.simps)
qed (simp_all add: agree_empty)

interpretation stmts: statement_parsers "min n n'" "parse_expr n" "parse_expr n'" "parse_stmt_seq n" "parse_stmt_seq n'"
  for n n' :: nat
  by (rule statement_parsers.intro [OF agree_parse_expr agree_stmt_seq])

end
