(* ===== verification/ExprRoundTrip.thy ===== *)
theory ExprRoundTrip
  imports ParseStmtSpec
begin

text \<open>
  The expression parser reads back what an unparser writes: precedence, associativity and signs,
  designators with every selector, calls, set constructors. The unparser below writes the tokens of a
  tree with as few parentheses as the grammar needs.
\<close>

section \<open>Trees up to spans\<close>

definition no_span :: span where
  "no_span = \<lparr>span_start = START, span_end = START\<rparr>"

definition strip_name :: "qual_name \<Rightarrow> qual_name" where
  "strip_name q = \<lparr>segments = segments q, qn_span = no_span\<rparr>"

fun strip :: "expr \<Rightarrow> expr" and strip_d :: "designator \<Rightarrow> designator"
  and strip_s :: "selector \<Rightarrow> selector" and strip_el :: "set_elem \<Rightarrow> set_elem" where
  "strip (EInteger v sp) = EInteger v no_span"
| "strip (EReal v sp) = EReal v no_span"
| "strip (EChar c sp) = EChar c no_span"
| "strip (EString s sp) = EString s no_span"
| "strip (ENil sp) = ENil no_span"
| "strip (EDesignator d) = EDesignator (strip_d d)"
| "strip (ECall f args sp) = ECall (strip f) (map strip args) no_span"
| "strip (EBinary opr a b sp) = EBinary opr (strip a) (strip b) no_span"
| "strip (EUnary opr a sp) = EUnary opr (strip a) no_span"
| "strip (ESet tn els sp) = ESet (map_option strip_name tn) (map strip_el els) no_span"
| "strip_d (Designator b ss sp) = Designator (strip_name b) (map strip_s ss) no_span"
| "strip_s (SField x sp) = SField x no_span"
| "strip_s (SIndex es sp) = SIndex (map strip es) no_span"
| "strip_s (SDeref sp) = SDeref no_span"
| "strip_s (STypeGuard q sp) = STypeGuard (strip_name q) no_span"
| "strip_el (Single e) = Single (strip e)"
| "strip_el (Range a b) = Range (strip a) (strip b)"

section \<open>The unparser\<close>

fun op_token :: "binary_op \<Rightarrow> token_kind" where
  "op_token OpAdd = TPlus"
| "op_token OpSub = TMinus"
| "op_token OpMul = TStar"
| "op_token OpDiv = TSlash"
| "op_token OpDivKw = TKeyword KDiv"
| "op_token OpMod = TKeyword KMod"
| "op_token OpRem = TKeyword KRem"
| "op_token OpEq = TEqual"
| "op_token OpNe = THash"
| "op_token OpLt = TLess"
| "op_token OpLe = TLessEq"
| "op_token OpGt = TGreater"
| "op_token OpGe = TGreaterEq"
| "op_token OpAnd = TKeyword KAnd"
| "op_token OpOr = TKeyword KOr"
| "op_token OpIn = TKeyword KIn"
| "op_token OpBor = TKeyword KBor"
| "op_token OpBand = TKeyword KBand"
| "op_token OpBxor = TKeyword KBxor"
| "op_token OpShl = TKeyword KShl"
| "op_token OpShr = TKeyword KShr"

text \<open>The level of an operator: 0 for relations, 1 for adding, 2 for multiplying operators.\<close>

definition op_level :: "binary_op \<Rightarrow> nat" where
  "op_level opr =
     (if opr \<in> {OpEq, OpNe, OpLt, OpLe, OpGt, OpGe, OpIn} then 0
      else if opr \<in> {OpAdd, OpSub, OpOr} then 1 else 2)"

fun sep_by :: "token_kind list list \<Rightarrow> token_kind list" where
  "sep_by [] = []"
| "sep_by [x] = x"
| "sep_by (x # y # xs) = x @ TComma # sep_by (y # xs)"

definition parens :: "bool \<Rightarrow> token_kind list \<Rightarrow> token_kind list" where
  "parens b ks = (if b then TLParen # ks @ [TRParen] else ks)"

fun dots :: "string list \<Rightarrow> token_kind list" where
  "dots [] = []"
| "dots [x] = [TIdent x]"
| "dots (x # y # xs) = TIdent x # TDot # dots (y # xs)"

fun unparse :: "nat \<Rightarrow> expr \<Rightarrow> token_kind list" and unparse_d :: "designator \<Rightarrow> token_kind list"
  and unparse_s :: "selector \<Rightarrow> token_kind list" and unparse_el :: "set_elem \<Rightarrow> token_kind list" where
  "unparse l (EInteger v sp) = [TInteger v]"
| "unparse l (EReal v sp) = [TReal v]"
| "unparse l (EChar c sp) = [TChar c]"
| "unparse l (EString s sp) = [TString s]"
| "unparse l (ENil sp) = []"
| "unparse l (EDesignator d) = unparse_d d"
| "unparse l (ECall f args sp) = unparse 3 f @ TLParen # sep_by (map (unparse 0) args) @ [TRParen]"
| "unparse l (EBinary opr a b sp) =
     parens (op_level opr < l) (unparse (op_level opr) a @ op_token opr # unparse (Suc (op_level opr)) b)"
| "unparse l (EUnary opr a sp) =
     (case opr of
        OpNot \<Rightarrow> TTilde # unparse 3 a
      | OpPos \<Rightarrow> parens (1 < l) (TPlus # unparse 2 a)
      | OpNeg \<Rightarrow> parens (1 < l) (TMinus # unparse 2 a))"
| "unparse l (ESet tn els sp) =
     (case tn of None \<Rightarrow> [] | Some q \<Rightarrow> dots (segments q)) @ TLBrace # sep_by (map unparse_el els) @ [TRBrace]"
| "unparse_d (Designator b ss sp) = dots (segments b) @ concat (map unparse_s ss)"
| "unparse_s (SField x sp) = [TDot, TIdent x]"
| "unparse_s (SIndex es sp) = TLBracket # sep_by (map (unparse 0) es) @ [TRBracket]"
| "unparse_s (SDeref sp) = [TCaret]"
| "unparse_s (STypeGuard q sp) = []"
| "unparse_el (Single e) = unparse 0 e"
| "unparse_el (Range a b) = unparse 0 a @ TDotDot # unparse 0 b"

text \<open>
  The trees the parser builds: a designator starts with one name that is not taken for an operator or
  a location, a call calls a designator; there is no \<open>ENil\<close> and no type guard.
\<close>

definition plain_name :: "string \<Rightarrow> bool" where
  "plain_name x \<longleftrightarrow> x \<notin> {''BNOT'', ''__LINE__'', ''__FILE__'', ''__FUNCTION__''}"

fun is_designator :: "expr \<Rightarrow> bool" where
  "is_designator (EDesignator d) = True"
| "is_designator _ = False"

fun parsed :: "expr \<Rightarrow> bool" and parsed_d :: "designator \<Rightarrow> bool"
  and parsed_s :: "selector \<Rightarrow> bool" and parsed_el :: "set_elem \<Rightarrow> bool" where
  "parsed (EInteger v sp) \<longleftrightarrow> True"
| "parsed (EReal v sp) \<longleftrightarrow> True"
| "parsed (EChar c sp) \<longleftrightarrow> True"
| "parsed (EString s sp) \<longleftrightarrow> True"
| "parsed (ENil sp) \<longleftrightarrow> False"
| "parsed (EDesignator d) \<longleftrightarrow> parsed_d d"
| "parsed (ECall f args sp) \<longleftrightarrow> is_designator f \<and> parsed f \<and> list_all parsed args"
| "parsed (EBinary opr a b sp) \<longleftrightarrow> parsed a \<and> parsed b"
| "parsed (EUnary opr a sp) \<longleftrightarrow> parsed a"
| "parsed (ESet tn els sp) \<longleftrightarrow>
     (case tn of None \<Rightarrow> True | Some q \<Rightarrow> segments q \<noteq> [] \<and> plain_name (hd (segments q))) \<and> list_all parsed_el els"
| "parsed_d (Designator b ss sp) \<longleftrightarrow>
     length (segments b) = 1 \<and> plain_name (hd (segments b)) \<and> list_all parsed_s ss"
| "parsed_s (SField x sp) \<longleftrightarrow> True"
| "parsed_s (SIndex es sp) \<longleftrightarrow> list_all parsed es"
| "parsed_s (SDeref sp) \<longleftrightarrow> True"
| "parsed_s (STypeGuard q sp) \<longleftrightarrow> False"
| "parsed_el (Single e) \<longleftrightarrow> parsed e"
| "parsed_el (Range a b) \<longleftrightarrow> parsed a \<and> parsed b"


section \<open>Running the parser\<close>

definition kinds :: "parser \<Rightarrow> token_kind list" where
  "kinds p = map kind (drop (pos p) (toks p))"

definition skip :: "nat \<Rightarrow> parser \<Rightarrow> parser" where
  "skip k p = p\<lparr>pos := pos p + k\<rparr>"

text \<open>The state is before the kinds \<open>ks\<close>.\<close>

definition before :: "token_kind list \<Rightarrow> parser \<Rightarrow> bool" where
  "before ks p \<longleftrightarrow> ready p \<and> kinds p = ks"

definition reads :: "'a parse \<Rightarrow> nat \<Rightarrow> parser \<Rightarrow> ('a \<Rightarrow> bool) \<Rightarrow> bool" where
  "reads m k p Q \<longleftrightarrow> (\<exists>a. m p = Inr (a, skip k p) \<and> Q a)"

lemma skip_skip [simp]: "skip j (skip k p) = skip (k + j) p"
  by (simp add: skip_def add.assoc)

lemma skip_0 [simp]: "skip 0 p = p"
  by (simp add: skip_def)

lemma before_skip: "before (ks @ rest) p \<Longrightarrow> rest \<noteq> [] \<Longrightarrow> before rest (skip (length ks) p)"
proof -
  assume b: "before (ks @ rest) p" and r: "rest \<noteq> []"
  have "length (kinds p) = length (toks p) - pos p" by (simp add: kinds_def)
  then have "pos p + length ks < length (toks p)" using b r by (auto simp: before_def neq_Nil_conv)
  moreover have "kinds (skip (length ks) p) = drop (length ks) (kinds p)"
    by (simp add: kinds_def skip_def drop_map add.commute)
  ultimately show ?thesis using b by (simp add: before_def ready_def skip_def)
qed

lemma before_step: "before (k # rest) p \<Longrightarrow> rest \<noteq> [] \<Longrightarrow> before rest (skip 1 p)"
  using before_skip [of "[k]" rest p] by simp

lemma before_cur: "before (k # rest) p \<Longrightarrow> ready p \<and> cur p = k"
proof -
  assume b: "before (k # rest) p"
  then have "drop (pos p) (toks p) \<noteq> []" by (auto simp: before_def kinds_def)
  then have "hd (kinds p) = cur p" by (simp add: kinds_def hd_map hd_drop_conv_nth cur_def)
  then show ?thesis using b by (simp add: before_def)
qed

lemma before_left: "before ks p \<Longrightarrow> left p = length ks - 1"
  by (auto simp: before_def kinds_def left_def)

lemma before_nonempty: "before ks p \<Longrightarrow> ks \<noteq> []"
  by (auto simp: before_def kinds_def ready_def)

text \<open>One step of a routine, on the kind at the cursor.\<close>

named_theorems run

abbreviation here :: "parser \<Rightarrow> span" where
  "here p \<equiv> tok_span (toks p ! pos p)"

lemma run_peek_kind [run]: "before (k # rest) p \<Longrightarrow> pbind peek_kind f p = f k p"
  by (simp add: pbind_def before_cur)

lemma run_peek_span [run]: "before ks p \<Longrightarrow> pbind peek_span f p = f (here p) p"
  by (simp add: pbind_def before_def)

lemma run_bump [run]: "before (k # rest) p \<Longrightarrow> k \<noteq> TEof \<Longrightarrow> pbind bump f p = f (toks p ! pos p) (skip 1 p)"
  using bump_ready [of p] before_cur [of k rest p] by (simp add: pbind_def skip_def)

lemma run_prev_end [run]:
  "ready p \<Longrightarrow> pbind prev_end f p = f (span_end (tok_span (toks p ! (pos p - 1)))) p"
  by (simp add: pbind_def prev_end_def token_at_def pret_def ready_def less_imp_diff_less)

lemma run_at_kind [run]: "before (k # rest) p \<Longrightarrow> pbind (at_kind t) f p = f (k = t) p"
  by (simp add: pbind_def at_kind_def pret_def before_cur)

lemma run_expect_kind [run]:
  "before (k # rest) p \<Longrightarrow> k \<noteq> TEof \<Longrightarrow> pbind (expect_kind k what) f p = f (here p) (skip 1 p)"
  by (simp add: expect_kind_def pbind_assoc run_peek_kind run_peek_span run_bump)

lemma run_eat_kind [run]:
  "before (k # rest) p \<Longrightarrow> t \<noteq> TEof \<Longrightarrow>
     pbind (eat_kind t) f p = (if k = t then f True (skip 1 p) else f False p)"
  by (simp add: eat_kind_def pbind_assoc run_at_kind run_bump)

lemma run_expect_ident [run]:
  "before (TIdent x # rest) p \<Longrightarrow> pbind expect_ident f p = f (x, here p) (skip 1 p)"
  by (simp add: expect_ident_def pbind_assoc run_peek_kind run_peek_span run_bump)

lemma before_tail: "before (k # rest) p \<Longrightarrow> map kind (drop (Suc (pos p)) (toks p)) = rest"
  by (metis before_def drop_Suc kinds_def list.sel(3) map_tl tl_drop)

lemma run_ident_at [run]:
  "before (k # rest) p \<Longrightarrow>
     pbind (ident_at (Suc 0)) f p = f (case rest of [] \<Rightarrow> False | k1 # _ \<Rightarrow> ident_of k1 \<noteq> None) p"
proof -
  assume b: "before (k # rest) p"
  note t = before_tail [OF b]
  have "peek_kind_at 1 p = Inr (case rest of [] \<Rightarrow> None | k1 # _ \<Rightarrow> Some k1, p)"
  proof (cases rest)
    case Nil
    then show ?thesis using t by (simp add: peek_kind_at_def)
  next
    case (Cons k1 ks)
    then have ne: "drop (Suc (pos p)) (toks p) \<noteq> []" using t by auto
    then have "kind (hd (drop (Suc (pos p)) (toks p))) = k1" using t Cons by (metis hd_map list.sel(1))
    then show ?thesis using ne Cons by (simp add: peek_kind_at_def hd_drop_conv_nth)
  qed
  then show ?thesis by (cases rest) (simp_all add: pbind_def ident_at_def pret_def)
qed

lemma run_dotted [run]:
  "before (TIdent x # rest) p \<Longrightarrow>
     pbind dotted_ident_run_followed_by_lbrace f p = f (dotted_run_lbrace rest) p"
proof -
  assume b: "before (TIdent x # rest) p"
  show ?thesis using before_cur [OF b] before_tail [OF b]
    by (simp add: dotted_ident_run_followed_by_lbrace_def pbind_def)
qed

lemma run_step: "m p = Inr (a, q) \<Longrightarrow> pbind m f p = f a q"
  by (simp add: pbind_def)

section \<open>The levels\<close>

fun level_parser :: "nat \<Rightarrow> nat \<Rightarrow> nat \<Rightarrow> expr parse" where
  "level_parser 0 j m = parse_relational j (parse_expr m) (parse_type_expr m)"
| "level_parser (Suc 0) j m = parse_simple j (parse_expr m) (parse_type_expr m)"
| "level_parser (Suc (Suc 0)) j m = parse_term j (parse_expr m) (parse_type_expr m)"
| "level_parser (Suc (Suc (Suc l))) j m = parse_factor j (parse_expr m) (parse_type_expr m)"

fun level_ops :: "nat \<Rightarrow> token_kind \<Rightarrow> binary_op option" where
  "level_ops 0 = relational_op"
| "level_ops (Suc 0) = adding_op"
| "level_ops (Suc (Suc l)) = multiplying_op"

text \<open>A kind that ends an expression of level \<open>l\<close>: no selector, no call, no operator of the level or above.\<close>

definition stops :: "nat \<Rightarrow> token_kind \<Rightarrow> bool" where
  "stops l k \<longleftrightarrow>
     k \<notin> {TDot, TLBracket, TCaret, TLParen, TLBrace} \<and>
     (l \<le> 0 \<longrightarrow> relational_op k = None) \<and> (l \<le> 1 \<longrightarrow> adding_op k = None) \<and> (l \<le> 2 \<longrightarrow> multiplying_op k = None)"

definition reads_expr :: "nat \<Rightarrow> expr \<Rightarrow> bool" where
  "reads_expr l e \<longleftrightarrow>
     (\<forall>j m p rest. before (unparse l e @ rest) p \<and> rest \<noteq> [] \<and> stops l (hd rest) \<and> left p < j \<and> left p \<le> m \<longrightarrow>
        reads (level_parser l j m) (length (unparse l e)) p (\<lambda>a. strip a = strip e))"

definition enters_loop :: "nat \<Rightarrow> expr \<Rightarrow> bool" where
  "enters_loop l e \<longleftrightarrow>
     (\<forall>j m p rest. before (unparse l e @ rest) p \<and> rest \<noteq> [] \<and> stops (Suc l) (hd rest) \<and> left p < j \<and> left p \<le> m \<longrightarrow>
        (\<exists>a. strip a = strip e \<and>
           level_parser l j m p =
             binary_loop j (level_ops l) (level_parser (Suc l) j m) (here p) a (skip (length (unparse l e)) p)))"

lemma reads_exprD:
  "reads_expr l e \<Longrightarrow> before (unparse l e @ rest) p \<Longrightarrow> rest \<noteq> [] \<Longrightarrow> stops l (hd rest) \<Longrightarrow> left p < j \<Longrightarrow> left p \<le> m \<Longrightarrow>
     reads (level_parser l j m) (length (unparse l e)) p (\<lambda>a. strip a = strip e)"
  unfolding reads_expr_def by blast

lemma enters_loopD:
  "enters_loop l e \<Longrightarrow> before (unparse l e @ rest) p \<Longrightarrow> rest \<noteq> [] \<Longrightarrow> stops (Suc l) (hd rest) \<Longrightarrow> left p < j \<Longrightarrow> left p \<le> m \<Longrightarrow>
     \<exists>a. strip a = strip e \<and> level_parser l j m p =
       binary_loop j (level_ops l) (level_parser (Suc l) j m) (here p) a (skip (length (unparse l e)) p)"
  unfolding enters_loop_def by blast

lemma level_agree: "agree always 1 (min (min j j') (Suc m)) (level_parser l j m) (level_parser l j' m)"
proof -
  have E: "agree always 1 m (parse_expr m) (parse_expr m)" "agree always 1 m (parse_type_expr m) (parse_type_expr m)"
    using agree_expr_and_type [of m m] by auto
  consider "l = 0" | "l = Suc 0" | "l = Suc (Suc 0)" | k where "l = Suc (Suc (Suc k))"
    by (metis not0_implies_Suc)
  then show ?thesis
    using agree_relational [OF E, of j j'] agree_simple [OF E, of j j'] agree_term [OF E, of j j'] agree_factor [OF E, of j j']
    by cases simp_all
qed

lemma level_ops_eof: "level_ops l TEof = None"
  by (induction l rule: level_ops.induct) (simp_all add: relational_op_def adding_op_def multiplying_op_def)

text \<open>The loop does not depend on its fuel.\<close>

lemma loop_fuel:
  assumes "ready p" "left p < n" "left p < n'" "left p < j" "left p \<le> m"
  shows "binary_loop n (level_ops l) (level_parser l' j m) start a p = binary_loop n' (level_ops l) (level_parser l' j m) start a p"
  using agreeD [OF agree_binary_loop [where ops = "level_ops l", OF level_agree [of j j m l'] level_ops_eof, of n n' start a] assms(1)]
    assms by simp

lemma loop_stops:
  "before (k # rest) p \<Longrightarrow> ops k = None \<Longrightarrow> 0 < n \<Longrightarrow> binary_loop n ops operand start a p = Inr (a, p)"
  by (cases n) (simp_all add: run pret_def)

lemma stops_ops: "stops l k \<Longrightarrow> l \<le> 2 \<Longrightarrow> level_ops l k = None \<and> stops (Suc l) k"
  by (cases l; cases "l - 1"; cases "l - 2") (auto simp: stops_def)

text \<open>Reading the operators of a level up to its end.\<close>

lemma reads_from_loop:
  assumes "enters_loop l e" and l: "l \<le> 2"
  shows "reads_expr l e"
  unfolding reads_expr_def
proof (intro allI impI, elim conjE)
  fix j m p rest
  assume b: "before (unparse l e @ rest) p" and r: "rest \<noteq> []" "stops l (hd rest)" and fuel: "left p < j" "left p \<le> m"
  then obtain a where a: "strip a = strip e" "level_parser l j m p =
      binary_loop j (level_ops l) (level_parser (Suc l) j m) (here p) a (skip (length (unparse l e)) p)"
    using assms(1) stops_ops [OF r(2) l] unfolding enters_loop_def by blast
  have "before (hd rest # tl rest) (skip (length (unparse l e)) p)" using before_skip [OF b r(1)] r(1) by simp
  from loop_stops [OF this, of "level_ops l" j] stops_ops [OF r(2) l] fuel
  show "reads (level_parser l j m) (length (unparse l e)) p (\<lambda>a. strip a = strip e)"
    unfolding reads_def using a by auto
qed

text \<open>An operand of the level above is the first operand of the level.\<close>

lemma level_unfold:
  assumes "l \<le> 2" "l \<noteq> 1"
  shows "level_parser l j m = pbind peek_span (\<lambda>start. pbind (level_parser (Suc l) j m) (\<lambda>a.
    binary_loop j (level_ops l) (level_parser (Suc l) j m) start a))"
  using assms by (cases l; cases "l - 1"; cases "l - 2")
    (auto simp: parse_relational_def parse_term_def numeral_2_eq_2 numeral_3_eq_3)

lemma run_loop_of:
  assumes "reads m k p Q"
  shows "\<exists>a. Q a \<and> pbind m f p = f a (skip k p)"
  using assms by (auto simp: reads_def pbind_def)

lemma enters_from_above:
  assumes e: "reads_expr (Suc l) e" and l: "l \<le> 2" and same: "unparse l e = unparse (Suc l) e"
    and sign: "l = 1 \<Longrightarrow> hd (unparse 2 e) \<notin> {TPlus, TMinus} \<and> unparse 2 e \<noteq> []"
  shows "enters_loop l e"
  unfolding enters_loop_def
proof (intro allI impI, elim conjE)
  fix j m p rest
  assume b: "before (unparse l e @ rest) p" and r: "rest \<noteq> []" "stops (Suc l) (hd rest)" and fuel: "left p < j" "left p \<le> m"
  have rd: "reads (level_parser (Suc l) j m) (length (unparse l e)) p (\<lambda>a. strip a = strip e)"
    using e b r fuel same unfolding reads_expr_def by auto
  let ?loop = "\<lambda>a. binary_loop j (level_ops l) (level_parser (Suc l) j m) (here p) a"
  obtain a where a: "strip a = strip e" "pbind (level_parser (Suc l) j m) ?loop p = ?loop a (skip (length (unparse l e)) p)"
    using run_loop_of [OF rd] by blast
  have "level_parser l j m p = pbind (level_parser (Suc l) j m) ?loop p"
  proof (cases "l = 1")
    case False
    then show ?thesis using level_unfold [OF l False] b by (simp add: run_peek_span)
  next
    case True
    obtain k ks where k: "unparse l e @ rest = k # ks" "k \<noteq> TPlus" "k \<noteq> TMinus"
      using sign [OF True] same True by (cases "unparse 2 e") (auto simp: numeral_2_eq_2)
    show ?thesis using True b k
      by (simp add: parse_simple_def run_peek_span parse_sign_def pbind_assoc run_peek_kind pbind_if apply_sign_def numeral_2_eq_2)
  qed
  then show "\<exists>a. strip a = strip e \<and> level_parser l j m p = ?loop a (skip (length (unparse l e)) p)"
    using a by auto
qed

text \<open>A binary expression at its own level: the loop takes one more round.\<close>

lemma op_token_ops: "level_ops (op_level opr) (op_token opr) = Some opr" "op_token opr \<noteq> TEof"
  "stops (Suc (op_level opr)) (op_token opr)" "op_level opr \<le> 2"
  by (cases opr; simp add: op_level_def relational_op_def adding_op_def multiplying_op_def stops_def numeral_2_eq_2)+

lemma unparse_own_level:
  "l \<le> op_level opr \<Longrightarrow> unparse l (EBinary opr a b sp) = unparse (op_level opr) a @ op_token opr # unparse (Suc (op_level opr)) b"
  by (simp add: parens_def)

lemma enters_binary:
  assumes a: "enters_loop (op_level opr) a" and b: "reads_expr (Suc (op_level opr)) b"
  shows "enters_loop (op_level opr) (EBinary opr a b sp)"
  unfolding enters_loop_def
proof (intro allI impI, elim conjE)
  let ?l = "op_level opr" and ?e = "EBinary opr a b sp"
  fix j m p rest
  assume bf: "before (unparse ?l ?e @ rest) p" and r: "rest \<noteq> []" "stops (Suc ?l) (hd rest)" and fuel: "left p < j" "left p \<le> m"
  let ?ua = "unparse ?l a" and ?ub = "unparse (Suc ?l) b"
  let ?loop = "\<lambda>n x. binary_loop n (level_ops ?l) (level_parser (Suc ?l) j m) (here p) x"
  have e: "unparse ?l ?e = ?ua @ op_token opr # ?ub" by (rule unparse_own_level) simp
  have pa: "before (?ua @ op_token opr # ?ub @ rest) p" using bf e by simp
  obtain x where x: "strip x = strip a" "level_parser ?l j m p = ?loop j x (skip (length ?ua) p)"
    using enters_loopD [OF a pa _ _ fuel] op_token_ops(3) by auto
  let ?q = "skip (length ?ua) p" and ?r = "skip (Suc (length ?ua)) p" and ?s = "skip (length (unparse ?l ?e)) p"
  have q: "before (op_token opr # ?ub @ rest) ?q" using before_skip [OF pa] by simp
  have pr: "before (?ub @ rest) ?r" using before_step [OF q] r(1) by simp
  have ps: "before rest ?s" using before_skip [OF bf r(1)] .
  have lr: "left ?r < left p" "left ?s < left p"
    using before_left [OF pr] before_left [OF pa] before_left [OF ps] before_left [OF bf] e
      before_nonempty [OF pr] before_nonempty [OF ps] by (auto simp: neq_Nil_conv)
  have rd: "reads (level_parser (Suc ?l) j m) (length ?ub) ?r (\<lambda>y. strip y = strip b)"
    by (rule reads_exprD [OF b pr]) (use r lr fuel in auto)
  obtain n where n: "j = Suc n" using fuel by (cases j) auto
  let ?next = "\<lambda>y. pbind prev_end (\<lambda>z. ?loop n (EBinary opr x y (between (here p) z)))"
  obtain y where y: "strip y = strip b" "pbind (level_parser (Suc ?l) j m) ?next ?r = ?next y ?s"
    using run_loop_of [OF rd, of ?next] e by (auto simp: add.assoc)
  have "?loop j x ?q = ?next y ?s"
    using q op_token_ops [of opr] y n by (simp add: run_peek_kind run_bump)
  also have "\<dots> = ?loop n (EBinary opr x y (between (here p) (span_end (tok_span (toks ?s ! (pos ?s - 1)))))) ?s"
    using ps by (simp add: run_prev_end before_def)
  also have "\<dots> = ?loop j (EBinary opr x y (between (here p) (span_end (tok_span (toks ?s ! (pos ?s - 1)))))) ?s"
    using loop_fuel [of ?s n j j m] ps lr fuel n by (auto simp: before_def)
  finally have "level_parser ?l j m p = ?loop j (EBinary opr x y (between (here p) (span_end (tok_span (toks ?s ! (pos ?s - 1)))))) ?s"
    using x(2) by (rule trans [rotated])
  then show "\<exists>z. strip z = strip ?e \<and> level_parser ?l j m p = ?loop j z ?s"
    using x(1) y(1) by (intro exI conjI) simp_all
qed

text \<open>A sign starts a simple expression.\<close>

lemma enters_sign:
  assumes t: "reads_expr 2 t" and sign: "opr = OpPos \<and> k = TPlus \<or> opr = OpNeg \<and> k = TMinus"
  shows "enters_loop 1 (EUnary opr t sp)"
  unfolding enters_loop_def
proof (intro allI impI, elim conjE)
  let ?e = "EUnary opr t sp" and ?ut = "unparse 2 t"
  fix j m p rest
  assume bf: "before (unparse 1 ?e @ rest) p" and r: "rest \<noteq> []" "stops (Suc 1) (hd rest)" and fuel: "left p < j" "left p \<le> m"
  let ?loop = "\<lambda>x. binary_loop j (level_ops 1) (level_parser (Suc 1) j m) (here p) x"
  have e: "unparse 1 ?e = k # ?ut" using sign by (auto simp: parens_def)
  have pa: "before (k # ?ut @ rest) p" using bf e by simp
  let ?r = "skip 1 p" and ?s = "skip (length (unparse 1 ?e)) p"
  have pr: "before (?ut @ rest) ?r" using before_step [OF pa] r(1) by simp
  have ps: "before rest ?s" using before_skip [OF bf r(1)] .
  have lr: "left ?r < left p"
    using before_left [OF pr] before_left [OF pa] before_nonempty [OF pr] by (auto simp: neq_Nil_conv)
  have rd: "reads (level_parser 2 j m) (length ?ut) ?r (\<lambda>y. strip y = strip t)"
    by (rule reads_exprD [OF t pr]) (use r lr fuel in \<open>auto simp: numeral_2_eq_2\<close>)
  let ?next = "\<lambda>y. pbind (apply_sign (Some opr) (here p) y) ?loop"
  obtain y where y: "strip y = strip t" "pbind (level_parser 2 j m) ?next ?r = ?next y ?s"
    using run_loop_of [OF rd, of ?next] e by auto
  have "level_parser 1 j m p = pbind (level_parser 2 j m) ?next ?r"
    using pa sign by (auto simp: parse_simple_def run_peek_span parse_sign_def pbind_assoc run_peek_kind run_bump numeral_2_eq_2)
  then have "level_parser 1 j m p = ?next y ?s" using y(2) by (rule trans)
  also have "\<dots> = ?loop (EUnary opr y (between (here p) (span_end (tok_span (toks ?s ! (pos ?s - 1)))))) ?s"
    using ps unfolding apply_sign_def option.case pbind_assoc pbind_ret before_def by (simp only: run_prev_end)
  finally show "\<exists>z. strip z = strip ?e \<and> level_parser 1 j m p = ?loop z ?s"
    using y(1) by (intro exI conjI) simp_all
qed

section \<open>Factors\<close>

lemma parse_expr_reads:
  assumes "reads_expr 0 e" "before (unparse 0 e @ rest) p" "rest \<noteq> []" "stops 0 (hd rest)" "left p < m"
  shows "reads (parse_expr m) (length (unparse 0 e)) p (\<lambda>a. strip a = strip e)"
proof (cases m)
  case (Suc n)
  then show ?thesis using assms unfolding reads_expr_def
    by (metis less_Suc_eq_le level_parser.simps(1) parse_expr.simps(2))
qed (use assms in simp)

text \<open>What an expression can start with.\<close>

lemma unparse_start:
  "parsed e \<Longrightarrow> unparse l e \<noteq> [] \<and> hd (unparse l e) \<notin> {TRParen, TRBracket, TRBrace, TComma, TEof} \<and>
     (2 \<le> l \<longrightarrow> hd (unparse l e) \<notin> {TPlus, TMinus})"
proof (induction e arbitrary: l rule: measure_induct_rule [of size])
  case (less e)
  show ?case
  proof (cases e)
    case (EDesignator d)
    obtain b ss sp where d: "d = Designator b ss sp" by (cases d)
    then obtain x where "segments b = [x]" using less.prems EDesignator by (auto simp: length_Suc_conv)
    then show ?thesis using d EDesignator by simp
  next
    case (ECall f args sp)
    then show ?thesis using less.IH [of f 3] less.prems by simp
  next
    case (EBinary opr a b sp)
    then show ?thesis using less.IH [of a "op_level opr"] less.prems op_token_ops(4) [of opr]
      by (cases "op_level opr = 2") (auto simp: parens_def)
  next
    case (EUnary opr a sp)
    then show ?thesis by (cases opr) (auto simp: parens_def)
  next
    case (ESet tn els sp)
    show ?thesis
    proof (cases tn)
      case (Some q)
      then obtain x xs where "segments q = x # xs" using ESet less.prems by (cases "segments q") auto
      then show ?thesis using Some ESet by (cases xs) auto
    qed (simp add: ESet)
  qed (use less.prems in auto)
qed

text \<open>Lists of items between commas, up to a closing kind.\<close>

definition reads_item :: "('a \<Rightarrow> token_kind list) \<Rightarrow> ('a \<Rightarrow> 'b \<Rightarrow> bool) \<Rightarrow> nat \<Rightarrow> token_kind \<Rightarrow> 'b parse \<Rightarrow> 'a \<Rightarrow> bool" where
  "reads_item pr Q B close item x \<longleftrightarrow>
     (\<forall>p rest. before (pr x @ rest) p \<and> rest \<noteq> [] \<and> hd rest \<in> {TComma, close} \<and> left p < B \<longrightarrow>
        reads item (length (pr x)) p (Q x))"

lemma reads_itemD:
  "reads_item pr Q B close item x \<Longrightarrow> before (pr x @ rest) p \<Longrightarrow> rest \<noteq> [] \<Longrightarrow> hd rest \<in> {TComma, close} \<Longrightarrow> left p < B \<Longrightarrow>
     reads item (length (pr x)) p (Q x)"
  unfolding reads_item_def by blast

lemma reads_ret: "Q a \<Longrightarrow> f p = Inr (a, skip k p) \<Longrightarrow> reads f k p Q"
  by (auto simp: reads_def)

lemma sep_list_reads:
  assumes "\<forall>x \<in> set xs. reads_item pr Q B close item x" and "xs \<noteq> []" and "close \<noteq> TComma"
    and "before (sep_by (map pr xs) @ close # rest) p" "left p < n" "left p < B"
  shows "reads (sep_list n item) (length (sep_by (map pr xs))) p (list_all2 Q xs)"
  using assms
proof (induction xs arbitrary: p n rule: induct_list012)
  case (2 x)
  then obtain n' where n: "n = Suc n'" by (cases n) auto
  have b: "before (pr x @ close # rest) p" using 2 by simp
  have "reads item (length (pr x)) p (Q x)" by (rule reads_itemD [where pr = pr and B = B, OF _ b]) (use 2 in auto)
  then obtain y where y: "Q x y" "item p = Inr (y, skip (length (pr x)) p)" by (auto simp: reads_def)
  have q: "before (close # rest) (skip (length (pr x)) p)" using before_skip [OF b] by simp
  have "sep_list n item p = Inr ([y], skip (length (pr x)) p)"
    using 2 n by (simp add: run_step [of item p, OF y(2)] run_eat_kind [OF q] pret_def)
  then show ?case using y(1) by (simp add: reads_def)
next
  case (3 x z zs)
  then obtain n' where n: "n = Suc n'" by (cases n) auto
  let ?rest = "sep_by (map pr (z # zs)) @ close # rest" and ?q = "skip (length (pr x)) p" and ?r = "skip (Suc (length (pr x))) p"
  have b: "before (pr x @ TComma # ?rest) p" using 3 by simp
  have "reads item (length (pr x)) p (Q x)" by (rule reads_itemD [where pr = pr and B = B, OF _ b]) (use 3 in auto)
  then obtain y where y: "Q x y" "item p = Inr (y, ?q)" by (auto simp: reads_def)
  have q: "before (TComma # ?rest) ?q" using before_skip [OF b] by simp
  have r: "before ?rest ?r" using before_step [OF q] by simp
  have lr: "left ?r < left p" using before_left [OF r] before_left [OF b] by simp
  have "reads (sep_list n' item) (length (sep_by (map pr (z # zs)))) ?r (list_all2 Q (z # zs))"
    by (rule "3.IH"(2)) (use 3 r lr n in auto)
  then obtain ys where ys: "list_all2 Q (z # zs) ys" "sep_list n' item ?r = Inr (ys, skip (length (sep_by (map pr (z # zs)))) ?r)"
    by (auto simp: reads_def)
  have "sep_list n item p = Inr (y # ys, skip (length (sep_by (map pr (x # z # zs)))) p)"
    using n by (simp add: run_step [of item p, OF y(2)] run_eat_kind [OF q] run_step [of "sep_list n' item", OF ys(2)] pret_def del: sep_by.simps(2))
  then show ?case using y(1) ys(1) by (simp add: reads_def)
qed simp

lemma opt_list_reads:
  assumes items: "\<forall>x \<in> set xs. reads_item pr Q B close item x" and close: "close \<noteq> TComma"
    and start: "\<forall>x \<in> set xs. pr x \<noteq> [] \<and> hd (pr x) \<noteq> close"
    and b: "before (sep_by (map pr xs) @ close # rest) p" and fuel: "left p < n" "left p < B"
  shows "reads (opt_list n close item) (length (sep_by (map pr xs))) p (list_all2 Q xs)"
proof (cases xs)
  case Nil
  then show ?thesis using b by (simp add: opt_list_def reads_def run_at_kind pret_def)
next
  case (Cons x zs)
  then obtain k ks where k: "sep_by (map pr xs) = k # ks" "k \<noteq> close"
    using start by (cases zs; cases "pr x") auto
  then have "opt_list n close item p = sep_list n item p" using b by (simp add: opt_list_def run_at_kind)
  then show ?thesis using sep_list_reads [OF items _ close b fuel] Cons by (simp add: reads_def)
qed

section \<open>Qualified names, designators, sets\<close>

lemma dots_cons: "dots (x # xs) = TIdent x # concat (map (\<lambda>y. [TDot, TIdent y]) xs)"
  by (induction xs arbitrary: x) simp_all

lemma qual_rest_reads:
  assumes "before (concat (map (\<lambda>y. [TDot, TIdent y]) xs) @ rest) p" "rest \<noteq> []" "hd rest \<noteq> TDot" "left p < n"
  shows "reads (qual_rest n e) (2 * length xs) p (\<lambda>r. fst r = xs)"
  using assms
proof (induction xs arbitrary: p n e)
  case Nil
  then obtain n' where n: "n = Suc n'" by (cases n) auto
  obtain k ks where rest: "rest = k # ks" using Nil by (cases rest) auto
  then have "before (k # ks) p" using Nil by simp
  then show ?case using n Nil rest by (simp add: reads_def run_at_kind pret_def)
next
  case (Cons y ys)
  then obtain n' where n: "n = Suc n'" by (cases n) auto
  let ?ks = "concat (map (\<lambda>y. [TDot, TIdent y]) ys) @ rest"
  have b: "before (TDot # TIdent y # ?ks) p" using Cons.prems by simp
  have q: "before (TIdent y # ?ks) (skip 1 p)" using before_step [OF b] by simp
  have r: "before ?ks (skip 2 p)" using before_step [OF q] Cons.prems by (simp add: numeral_2_eq_2)
  have "left (skip 2 p) < n'" using before_left [OF r] before_left [OF b] Cons.prems n by simp
  then have "reads (qual_rest n' (span_end (here (skip 1 p)))) (2 * length ys) (skip 2 p) (\<lambda>r. fst r = ys)"
    by (rule Cons.IH [OF r Cons.prems(2,3)])
  then obtain z where "qual_rest n' (span_end (here (skip 1 p))) (skip 2 p) = Inr ((ys, z), skip (2 + 2 * length ys) p)"
    by (auto simp: reads_def)
  then show ?case using n b q
    by (simp add: reads_def run_at_kind run_ident_at run_bump run_expect_ident numeral_2_eq_2 run_step pret_def)
qed

lemma qual_name_reads:
  assumes "before (dots xs @ rest) p" "xs \<noteq> []" "rest \<noteq> []" "hd rest \<noteq> TDot" "left p \<le> n"
  shows "reads (parse_qual_name n) (length (dots xs)) p (\<lambda>q. segments q = xs)"
proof -
  obtain x ys where xs: "xs = x # ys" using assms(2) by (cases xs) auto
  let ?ks = "concat (map (\<lambda>y. [TDot, TIdent y]) ys) @ rest"
  have b: "before (TIdent x # ?ks) p" using assms(1) xs by (simp add: dots_cons)
  have q: "before ?ks (skip 1 p)" using before_step [OF b] assms by simp
  have len: "length (dots xs) = Suc (2 * length ys)" using xs by (induction ys arbitrary: x xs) (simp_all add: dots_cons)
  have "reads (qual_rest n (span_end (here p))) (2 * length ys) (skip 1 p) (\<lambda>r. fst r = ys)"
  proof (rule qual_rest_reads [OF q assms(3,4)])
    have "0 < length ?ks" using assms(3) by simp
    moreover have "left (skip 1 p) = length ?ks - 1" "left p = length ?ks"
      using before_left [OF q] before_left [OF b] by simp_all
    ultimately show "left (skip 1 p) < n" using assms(5) by linarith
  qed
  then obtain z where "qual_rest n (span_end (here p)) (skip 1 p) = Inr ((ys, z), skip (Suc (2 * length ys)) p)"
    by (auto simp: reads_def)
  then show ?thesis using b xs len
    by (simp add: reads_def parse_qual_name_def run_expect_ident run_step pret_def)
qed

lemma dotted_run_name: "dotted_run_lbrace (concat (map (\<lambda>y. [TDot, TIdent y]) xs) @ TLBrace # rest)"
  by (induction xs) (auto, cases rest, auto)

lemma dotted_run_selectors:
  "list_all parsed_s ss \<Longrightarrow> rest \<noteq> [] \<Longrightarrow> hd rest \<notin> {TDot, TLBrace} \<Longrightarrow> \<not> dotted_run_lbrace (concat (map unparse_s ss) @ rest)"
proof (induction ss)
  case Nil
  then show ?case by (cases rest; cases "tl rest") auto
next
  case (Cons s ss)
  then show ?case
  proof (cases s)
    case (SIndex es sp)
    then show ?thesis by (cases "sep_by (map (unparse 0) es)") auto
  next
    case (SDeref sp)
    then show ?thesis using Cons.prems by (cases "concat (map unparse_s ss) @ rest") auto
  qed (use Cons in auto)
qed

lemma closers_stop: "k \<in> {TComma, TRParen, TRBracket, TRBrace, TDotDot} \<Longrightarrow> stops l k"
  by (auto simp: stops_def relational_op_def adding_op_def multiplying_op_def)

lemma expr_item:
  assumes "reads_expr 0 e" "close \<in> {TRParen, TRBracket, TRBrace}"
  shows "reads_item (unparse 0) (\<lambda>e a. strip a = strip e) m close (parse_expr m) e"
  unfolding reads_item_def
proof (intro allI impI, elim conjE)
  fix p rest assume a: "before (unparse 0 e @ rest) p" "rest \<noteq> []" "hd rest \<in> {TComma, close}" "left p < m"
  show "reads (parse_expr m) (length (unparse 0 e)) p (\<lambda>a. strip a = strip e)"
    by (rule parse_expr_reads [OF assms(1) a(1,2) closers_stop a(4)]) (use a assms in auto)
qed

lemma argument_item:
  assumes "reads_expr 0 e"
  shows "reads_item (unparse 0) (\<lambda>e a. strip a = strip e) m TRParen (parse_argument (parse_expr m) T) e"
  unfolding reads_item_def
proof (intro allI impI, elim conjE)
  fix p rest assume a: "before (unparse 0 e @ rest) p" "rest \<noteq> []" "hd rest \<in> {TComma, TRParen}" "left p < m"
  obtain y where y: "strip y = strip e" "parse_expr m p = Inr (y, skip (length (unparse 0 e)) p)"
    using reads_itemD [OF expr_item [OF assms, of TRParen m] a(1,2)] a(3,4) by (auto simp: reads_def)
  obtain k ks where k: "rest = k # ks" "k \<noteq> TColon" using a by (cases rest) auto
  then have q: "before (k # ks) (skip (length (unparse 0 e)) p)" using before_skip [OF a(1,2)] by simp
  show "reads (parse_argument (parse_expr m) T) (length (unparse 0 e)) p (\<lambda>a. strip a = strip e)"
    using y k by (simp add: reads_def parse_argument_def run_step [of "parse_expr m", OF y(2)] run_eat_kind [OF q] pret_def)
qed

text \<open>What a set element asks of its expressions.\<close>

fun elem_ok :: "set_elem \<Rightarrow> bool" where
  "elem_ok (Single e) \<longleftrightarrow> reads_expr 0 e"
| "elem_ok (Range a b) \<longleftrightarrow> reads_expr 0 a \<and> reads_expr 0 b"

lemma element_item:
  assumes "elem_ok el"
  shows "reads_item unparse_el (\<lambda>x y. strip_el y = strip_el x) m TRBrace (one_or_range (parse_expr m) Single Range) el"
  unfolding reads_item_def
proof (intro allI impI, elim conjE)
  fix p rest assume a: "before (unparse_el el @ rest) p" "rest \<noteq> []" "hd rest \<in> {TComma, TRBrace}" "left p < m"
  obtain k ks where k: "rest = k # ks" "k \<noteq> TDotDot" using a by (cases rest) auto
  have st: "stops 0 (hd rest)" using a(3) by (intro closers_stop) auto
  show "reads (one_or_range (parse_expr m) Single Range) (length (unparse_el el)) p (\<lambda>y. strip_el y = strip_el el)"
  proof (cases el)
    case (Single e)
    then have b: "before (unparse 0 e @ rest) p" "reads_expr 0 e" using a assms by auto
    obtain y where y: "strip y = strip e" "parse_expr m p = Inr (y, skip (length (unparse 0 e)) p)"
      using parse_expr_reads [OF b(2,1) a(2) st a(4)] by (auto simp: reads_def)
    have q: "before (k # ks) (skip (length (unparse 0 e)) p)" using before_skip [OF b(1) a(2)] k by simp
    show ?thesis using y Single k
      by (simp add: reads_def one_or_range_def run_step [of "parse_expr m", OF y(2)] run_eat_kind [OF q] pret_def)
  next
    case (Range lo hi)
    let ?q = "skip (length (unparse 0 lo)) p" and ?r = "skip (Suc (length (unparse 0 lo))) p"
    have b: "before (unparse 0 lo @ TDotDot # unparse 0 hi @ rest) p" "reads_expr 0 lo" "reads_expr 0 hi"
      using Range a assms by auto
    obtain y where y: "strip y = strip lo" "parse_expr m p = Inr (y, ?q)"
      using parse_expr_reads [OF b(2,1) _ _ a(4)] closers_stop by (auto simp: reads_def)
    have q: "before (TDotDot # unparse 0 hi @ rest) ?q" using before_skip [OF b(1)] by simp
    have r: "before (unparse 0 hi @ rest) ?r" using before_step [OF q] a(2) by simp
    have "left ?r < m" using before_left [OF r] before_left [OF b(1)] a(4) by simp
    then obtain z where z: "strip z = strip hi" "parse_expr m ?r = Inr (z, skip (length (unparse 0 hi)) ?r)"
      using parse_expr_reads [OF b(3) r a(2) st] by (auto simp: reads_def)
    show ?thesis using y z Range
      by (simp add: reads_def one_or_range_def run_step [of "parse_expr m", OF y(2)] run_eat_kind [OF q]
          run_step [of "parse_expr m", OF z(2)] pret_def)
  qed
qed

lemma stripped_list: "list_all2 (\<lambda>x y. g y = g x) xs ys \<Longrightarrow> map g ys = map g xs"
  by (induction rule: list_all2_induct) auto

lemma set_constructor_reads:
  assumes els: "\<forall>el \<in> set els. elem_ok el \<and> parsed_el el"
    and b: "before (TLBrace # sep_by (map unparse_el els) @ TRBrace # rest) p" and r: "rest \<noteq> []"
    and fuel: "left p \<le> n" "left p \<le> m"
  shows "reads (parse_set_constructor n (parse_expr m) tn) (length (sep_by (map unparse_el els)) + 2) p
    (\<lambda>e. strip e = ESet (map_option strip_name tn) (map strip_el els) no_span)"
proof -
  let ?q = "skip 1 p" and ?r = "skip (Suc (length (sep_by (map unparse_el els)))) p"
  have q: "before (sep_by (map unparse_el els) @ TRBrace # rest) ?q" using before_step [OF b] by simp
  have lq: "left ?q < n" "left ?q < m" using before_left [OF q] before_left [OF b] fuel by auto
  have st: "unparse_el el \<noteq> [] \<and> hd (unparse_el el) \<noteq> TRBrace" if "parsed_el el" for el
    using that unparse_start [of _ 0] by (cases el) auto
  have "reads (opt_list n TRBrace (one_or_range (parse_expr m) Single Range)) (length (sep_by (map unparse_el els))) ?q
      (list_all2 (\<lambda>x y. strip_el y = strip_el x) els)"
    by (rule opt_list_reads [OF _ _ _ q lq]) (use els st element_item in auto)
  then obtain ys where ys: "map strip_el ys = map strip_el els"
    "opt_list n TRBrace (one_or_range (parse_expr m) Single Range) ?q = Inr (ys, ?r)"
    by (auto simp: reads_def dest: stripped_list)
  have rr: "before (TRBrace # rest) ?r" using before_skip [OF q] by simp
  show ?thesis using ys b
    by (simp add: reads_def parse_set_constructor_def run_peek_span run_expect_kind [OF b]
        run_step run_expect_kind [OF rr] pret_def)
qed

text \<open>What a selector asks of its expressions.\<close>

fun selector_ok :: "selector \<Rightarrow> bool" where
  "selector_ok (SIndex es sp) \<longleftrightarrow> (\<forall>e \<in> set es. reads_expr 0 e \<and> parsed e)"
| "selector_ok (STypeGuard q sp) \<longleftrightarrow> False"
| "selector_ok _ \<longleftrightarrow> True"

lemma tail_loop_reads:
  assumes "list_all selector_ok ss" "before (concat (map unparse_s ss) @ rest) p" "rest \<noteq> []"
    "hd rest \<notin> {TDot, TLBracket, TCaret}" "left p < n" "left p \<le> m"
  shows "reads (designator_tail_loop n (parse_expr m) e) (length (concat (map unparse_s ss))) p
    (\<lambda>r. map strip_s (fst r) = map strip_s ss)"
  using assms
proof (induction ss arbitrary: p n e)
  case Nil
  then obtain k ks n' where "rest = k # ks" "n = Suc n'" by (cases rest; cases n) auto
  moreover from this have "before (k # ks) p" using Nil by simp
  ultimately show ?case using Nil by (simp add: reads_def run_peek_kind run_ident_at pret_def)
next
  case (Cons s ss)
  let ?ks = "concat (map unparse_s ss) @ rest"
  obtain n' where n: "n = Suc n'" using Cons.prems by (cases n) auto
  have b: "before (unparse_s s @ ?ks) p" using Cons.prems by simp
  have ne: "?ks \<noteq> []" using Cons.prems by simp
  let ?r = "skip (length (unparse_s s)) p"
  have r: "before ?ks ?r" using before_skip [OF b ne] .
  have "unparse_s s \<noteq> []" using Cons.prems by (cases s) auto
  then have "0 < length (unparse_s s)" "0 < length ?ks" using ne by blast+
  then have lr: "left ?r < left p" using before_left [OF r] before_left [OF b] by (simp only: length_append)
  then have IH: "reads (designator_tail_loop n' (parse_expr m) e') (length (concat (map unparse_s ss))) ?r
      (\<lambda>r. map strip_s (fst r) = map strip_s ss)" for e'
    by (intro Cons.IH [OF _ r]) (use Cons.prems n in auto)
  then have "\<exists>ts z. map strip_s ts = map strip_s ss \<and>
      designator_tail_loop n' (parse_expr m) e' ?r = Inr ((ts, z), skip (length (concat (map unparse_s (s # ss)))) p)" for e'
    unfolding reads_def by fastforce
  then obtain ts z where ts: "map strip_s (ts e') = map strip_s ss"
    "designator_tail_loop n' (parse_expr m) e' ?r = Inr ((ts e', z e'), skip (length (concat (map unparse_s (s # ss)))) p)" for e'
    by metis
  show ?case
  proof (cases s)
    case (SField x sp)
    then have b': "before (TDot # TIdent x # ?ks) p" using b by simp
    have q: "before (TIdent x # ?ks) (skip 1 p)" using before_step [OF b'] by simp
    show ?thesis using ts SField n b' q
      by (auto simp: reads_def run_peek_kind run_ident_at run_bump run_expect_ident run_step pret_def)
  next
    case (SDeref sp)
    then have b': "before (TCaret # ?ks) p" using b by simp
    show ?thesis using ts SDeref n b'
      by (auto simp: reads_def run_peek_kind run_ident_at run_bump run_peek_span run_step pret_def)
  next
    case (SIndex es sp)
    let ?us = "sep_by (map (unparse 0) es)"
    have b': "before (TLBracket # ?us @ TRBracket # ?ks) p" using b SIndex by simp
    have q: "before (?us @ TRBracket # ?ks) (skip 1 p)" using before_step [OF b'] by simp
    have lq: "left (skip 1 p) < n'" "left (skip 1 p) < m" using before_left [OF q] before_left [OF b'] Cons.prems n by auto
    have "reads (opt_list n' TRBracket (parse_expr m)) (length ?us) (skip 1 p) (list_all2 (\<lambda>e a. strip a = strip e) es)"
      by (rule opt_list_reads [OF _ _ _ q lq]) (use SIndex Cons.prems expr_item unparse_start [of _ 0] in auto)
    then obtain ys where ys: "map strip ys = map strip es" "opt_list n' TRBracket (parse_expr m) (skip 1 p) = Inr (ys, skip (Suc (length ?us)) p)"
      by (auto simp: reads_def dest: stripped_list)
    have rr: "before (TRBracket # ?ks) (skip (Suc (length ?us)) p)" using before_skip [OF q] by simp
    show ?thesis using ts SIndex n b' ys
      by (auto simp: reads_def run_peek_kind run_ident_at run_bump run_peek_span run_step run_expect_kind [OF rr] pret_def)
  qed (use Cons.prems in auto)
qed

lemma skip_advances:
  assumes "before (ks @ rest) p" "ks \<noteq> []" "rest \<noteq> []"
  shows "left (skip (length ks) p) < left p"
proof -
  have "0 < length ks" "0 < length rest" using assms(2,3) by blast+
  then show ?thesis
    using before_left [OF before_skip [OF assms(1,3)]] before_left [OF assms(1)] by (simp only: length_append)
qed

lemma designator_reads:
  assumes d: "parsed_d (Designator b ss sp)" and ok: "list_all selector_ok ss"
    and bf: "before (unparse_d (Designator b ss sp) @ rest) p" and r: "rest \<noteq> []" "hd rest \<notin> {TDot, TLBracket, TCaret}"
    and fuel: "left p \<le> n" "left p \<le> m"
  shows "\<exists>dz. strip_d dz = strip_d (Designator b ss sp) \<and>
    pbind parse_designator_base (\<lambda>base. pbind (parse_designator_tail n (parse_expr m) base) f) p =
      f dz (skip (length (unparse_d (Designator b ss sp))) p)"
proof -
  obtain x where x: "segments b = [x]" using d by (auto simp: length_Suc_conv)
  let ?ks = "concat (map unparse_s ss)"
  have b: "before ([TIdent x] @ ?ks @ rest) p" using bf x by simp
  have q: "before (?ks @ rest) (skip 1 p)" using before_skip [OF b] r by simp
  have "left (skip 1 p) < left p" using skip_advances [OF b] r by simp
  then have "reads (designator_tail_loop n (parse_expr m) (span_end (here p))) (length ?ks) (skip 1 p)
      (\<lambda>r. map strip_s (fst r) = map strip_s ss)"
    by (intro tail_loop_reads [OF ok q r]) (use fuel in auto)
  then obtain ts z where "map strip_s ts = map strip_s ss"
    "designator_tail_loop n (parse_expr m) (span_end (here p)) (skip 1 p) = Inr ((ts, z), skip (Suc (length ?ks)) p)"
    by (auto simp: reads_def)
  then show ?thesis using b x
    by (auto simp: parse_designator_base_def pbind_assoc run_expect_ident parse_designator_tail_def run_step strip_name_def
        intro!: exI [of _ "Designator \<lparr>segments = [x], qn_span = here p\<rparr> ts (between (here p) z)"])
qed

text \<open>The four ways a factor is read, from the kind it starts with.\<close>

lemma reads_factorI:
  assumes "\<And>j m p rest. before (unparse 3 e @ rest) p \<Longrightarrow> rest \<noteq> [] \<Longrightarrow> stops 3 (hd rest) \<Longrightarrow> left p \<le> j \<Longrightarrow> left p \<le> m \<Longrightarrow>
    reads (parse_factor (Suc j) (parse_expr m) (parse_type_expr m)) (length (unparse 3 e)) p (\<lambda>a. strip a = strip e)"
  shows "reads_expr 3 e"
  unfolding reads_expr_def
proof (intro allI impI, elim conjE)
  fix j m p rest
  assume a: "before (unparse 3 e @ rest) p" "rest \<noteq> []" "stops 3 (hd rest)" "left p < j" "left p \<le> m"
  obtain n where "j = Suc n" using a by (cases j) auto
  then show "reads (level_parser 3 j m) (length (unparse 3 e)) p (\<lambda>a. strip a = strip e)"
    using assms [OF a(1-3) _ a(5), of n] a(4) by (simp add: numeral_3_eq_3)
qed

lemma literal_reads:
  assumes "unparse 3 e = [k]" "k \<noteq> TEof" "\<And>sp. \<exists>a. literal_of k sp = Some a \<and> strip a = strip e"
  shows "reads_expr 3 e"
proof (rule reads_factorI)
  fix j m p rest assume a: "before (unparse 3 e @ rest) p"
  then have b: "before (k # rest) p" using assms(1) by simp
  obtain x where "literal_of k (here p) = Some x" "strip x = strip e" using assms(3) by blast
  then show "reads (parse_factor (Suc j) (parse_expr m) (parse_type_expr m)) (length (unparse 3 e)) p (\<lambda>a. strip a = strip e)"
    using b assms(1,2) by (simp add: reads_def run_peek_span run_peek_kind run_bump pret_def)
qed

lemma not_reads:
  assumes a: "reads_expr 3 a"
  shows "reads_expr 3 (EUnary OpNot a sp)"
proof (rule reads_factorI)
  let ?e = "EUnary OpNot a sp"
  fix j m p rest
  assume b: "before (unparse 3 ?e @ rest) p" and r: "rest \<noteq> []" "stops 3 (hd rest)" and fuel: "left p \<le> j" "left p \<le> m"
  have b': "before ([TTilde] @ unparse 3 a @ rest) p" using b by simp
  have q: "before (unparse 3 a @ rest) (skip 1 p)" using before_skip [OF b'] r by simp
  have "left (skip 1 p) < left p" using skip_advances [OF b'] r by simp
  then have "reads (level_parser 3 j m) (length (unparse 3 a)) (skip 1 p) (\<lambda>x. strip x = strip a)"
    by (intro reads_exprD [OF a q r]) (use fuel in auto)
  then obtain x where x: "strip x = strip a"
    "parse_factor j (parse_expr m) (parse_type_expr m) (skip 1 p) = Inr (x, skip (Suc (length (unparse 3 a))) p)"
    by (auto simp: reads_def numeral_3_eq_3)
  have "ready (skip (Suc (length (unparse 3 a))) p)" using before_skip [OF b r(1)] by (simp add: before_def)
  then show "reads (parse_factor (Suc j) (parse_expr m) (parse_type_expr m)) (length (unparse 3 ?e)) p (\<lambda>x. strip x = strip ?e)"
    using x b' by (simp add: reads_def run_peek_span run_peek_kind run_bump is_not_op_def run_step run_prev_end pret_def)
qed

lemma parens_reads:
  assumes e: "reads_expr 0 e" and u: "unparse 3 e = TLParen # unparse 0 e @ [TRParen]"
  shows "reads_expr 3 e"
proof (rule reads_factorI)
  fix j m p rest
  assume b: "before (unparse 3 e @ rest) p" and r: "rest \<noteq> []" and fuel: "left p \<le> j" "left p \<le> m"
  have b': "before ([TLParen] @ unparse 0 e @ TRParen # rest) p" using b u by simp
  have q: "before (unparse 0 e @ TRParen # rest) (skip 1 p)" using before_skip [OF b'] by simp
  have "left (skip 1 p) < left p" using skip_advances [OF b'] by simp
  then have "reads (parse_expr m) (length (unparse 0 e)) (skip 1 p) (\<lambda>x. strip x = strip e)"
    by (intro parse_expr_reads [OF e q]) (use fuel closers_stop in auto)
  then obtain x where x: "strip x = strip e" "parse_expr m (skip 1 p) = Inr (x, skip (Suc (length (unparse 0 e))) p)"
    by (auto simp: reads_def)
  have rr: "before (TRParen # rest) (skip (Suc (length (unparse 0 e))) p)" using before_skip [OF q] by simp
  show "reads (parse_factor (Suc j) (parse_expr m) (parse_type_expr m)) (length (unparse 3 e)) p (\<lambda>x. strip x = strip e)"
    using x b' u by (simp add: reads_def run_peek_span run_peek_kind run_bump is_not_op_def run_step run_expect_kind [OF rr] pret_def)
qed

text \<open>A factor that starts with an ordinary identifier.\<close>

lemma ident_start:
  assumes "before (TIdent x # rest) p" "plain_name x"
  shows "parse_factor (Suc j) E T p = ident_factor j E T (here p) p"
  using assms by (simp add: run_peek_span run_peek_kind is_not_op_def location_of_def plain_name_def)

lemma set_reads:
  assumes els: "\<forall>el \<in> set els. elem_ok el \<and> parsed_el el" and e: "parsed (ESet tn els sp)"
  shows "reads_expr 3 (ESet tn els sp)"
proof (rule reads_factorI)
  let ?e = "ESet tn els sp" and ?us = "sep_by (map unparse_el els)"
  fix j m p rest
  assume b: "before (unparse 3 ?e @ rest) p" and r: "rest \<noteq> []" and fuel: "left p \<le> j" "left p \<le> m"
  show "reads (parse_factor (Suc j) (parse_expr m) (parse_type_expr m)) (length (unparse 3 ?e)) p (\<lambda>x. strip x = strip ?e)"
  proof (cases tn)
    case None
    have b': "before (TLBrace # ?us @ TRBrace # rest) p" using b None by simp
    have "parse_factor (Suc j) (parse_expr m) (parse_type_expr m) p = parse_set_constructor j (parse_expr m) None p"
      using b' by (simp add: run_peek_span run_peek_kind is_not_op_def)
    then show ?thesis using set_constructor_reads [OF els b' r fuel, of None] None by (simp add: reads_def)
  next
    case (Some q)
    obtain x xs where x: "segments q = x # xs" "plain_name x" using e Some by (cases "segments q") auto
    let ?dots = "dots (x # xs)" and ?set = "TLBrace # ?us @ TRBrace # rest"
    have b': "before (?dots @ ?set) p" using b Some x by simp
    then have bx: "before (TIdent x # concat (map (\<lambda>y. [TDot, TIdent y]) xs) @ ?set) p" by (simp add: dots_cons)
    have bs: "before ?set (skip (length ?dots) p)" using before_skip [OF b'] by simp
    have "left (skip (length ?dots) p) < left p" using skip_advances [OF b'] by (simp add: dots_cons)
    then have fuel': "left (skip (length ?dots) p) \<le> j" "left (skip (length ?dots) p) \<le> m" using fuel by auto
    have "reads (parse_qual_name (Suc j)) (length ?dots) p (\<lambda>q. segments q = x # xs)"
      by (rule qual_name_reads [OF b']) (use fuel in auto)
    then obtain qn where qn: "segments qn = x # xs" "parse_qual_name (Suc j) p = Inr (qn, skip (length ?dots) p)"
      by (auto simp: reads_def)
    have "parse_factor (Suc j) (parse_expr m) (parse_type_expr m) p =
        parse_set_constructor j (parse_expr m) (Some qn) (skip (length ?dots) p)"
      unfolding ident_start [OF bx x(2)] ident_factor_def run_dotted [OF bx] using dotted_run_name qn(2) by (simp add: run_step)
    moreover have "strip_name qn = strip_name q" using qn(1) x by (simp add: strip_name_def)
    moreover have "length (unparse 3 ?e) = length ?dots + (length ?us + 2)" using Some x by simp
    ultimately show ?thesis using set_constructor_reads [OF els bs r fuel', of "Some qn"] Some by (simp add: reads_def)
  qed
qed

lemma designator_start:
  assumes d: "parsed_d (Designator b ss sp)" and bf: "before (unparse_d (Designator b ss sp) @ rest) p"
    and r: "rest \<noteq> []" "hd rest \<notin> {TDot, TLBrace}"
  shows "\<exists>x. plain_name x \<and> before (TIdent x # concat (map unparse_s ss) @ rest) p \<and>
    \<not> dotted_run_lbrace (concat (map unparse_s ss) @ rest)"
proof -
  obtain x where "segments b = [x]" "plain_name x" using d by (auto simp: length_Suc_conv)
  then show ?thesis using bf d dotted_run_selectors [OF _ r] by auto
qed

lemma name_reads:
  assumes d: "parsed_d d" and ok: "list_all selector_ok (d_selectors d)"
  shows "reads_expr 3 (EDesignator d)"
proof (rule reads_factorI)
  obtain b ss sp where dz: "d = Designator b ss sp" by (cases d)
  fix j m p rest
  assume bf: "before (unparse 3 (EDesignator d) @ rest) p" and r: "rest \<noteq> []" "stops 3 (hd rest)" and fuel: "left p \<le> j" "left p \<le> m"
  have bf': "before (unparse_d (Designator b ss sp) @ rest) p" using bf dz by simp
  have h: "hd rest \<notin> {TDot, TLBracket, TCaret}" "hd rest \<notin> {TDot, TLBrace}" "hd rest \<noteq> TLParen" using r by (auto simp: stops_def)
  obtain x where x: "plain_name x" "before (TIdent x # concat (map unparse_s ss) @ rest) p"
    "\<not> dotted_run_lbrace (concat (map unparse_s ss) @ rest)"
    using designator_start [OF _ bf' r(1) h(2)] d dz by auto
  let ?f = "\<lambda>dz. pbind (at_kind TLParen) (\<lambda>call.
         if call then
           pbind bump (\<lambda>_. pbind (opt_list j TRParen (parse_argument (parse_expr m) (parse_type_expr m))) (\<lambda>args.
           pbind (expect_kind TRParen '')'') (\<lambda>close. pret (ECall (EDesignator dz) args (between (here p) (span_end close))))))
         else pret (EDesignator dz))"
  obtain dz' where dz': "strip_d dz' = strip_d d"
    "pbind parse_designator_base (\<lambda>base. pbind (parse_designator_tail j (parse_expr m) base) ?f) p = ?f dz' (skip (length (unparse_d d)) p)"
    using designator_reads [OF _ _ bf' r(1) h(1) fuel, of ?f] d ok dz by auto
  obtain k ks where k: "rest = k # ks" "k \<noteq> TLParen" using r h by (cases rest) auto
  have q: "before (k # ks) (skip (length (unparse_d d)) p)" using before_skip [OF bf r(1)] k by simp
  have "parse_factor (Suc j) (parse_expr m) (parse_type_expr m) p = ?f dz' (skip (length (unparse_d d)) p)"
    unfolding ident_start [OF x(2,1)] ident_factor_def run_dotted [OF x(2)] using x(3) dz'(2) by simp
  then show "reads (parse_factor (Suc j) (parse_expr m) (parse_type_expr m)) (length (unparse 3 (EDesignator d))) p
      (\<lambda>x. strip x = strip (EDesignator d))"
    using dz'(1) k by (simp add: reads_def run_at_kind [OF q] pret_def)
qed

lemma call_reads:
  assumes d: "parsed_d d" and ok: "list_all selector_ok (d_selectors d)" and args: "\<forall>e \<in> set args. reads_expr 0 e \<and> parsed e"
  shows "reads_expr 3 (ECall (EDesignator d) args cs)"
proof (rule reads_factorI)
  obtain b ss sp where dz: "d = Designator b ss sp" by (cases d)
  let ?e = "ECall (EDesignator d) args cs" and ?us = "sep_by (map (unparse 0) args)"
  fix j m p rest
  assume bf: "before (unparse 3 ?e @ rest) p" and r: "rest \<noteq> []" and fuel: "left p \<le> j" "left p \<le> m"
  let ?call = "TLParen # ?us @ TRParen # rest"
  have bf': "before (unparse_d (Designator b ss sp) @ ?call) p" using bf dz by simp
  obtain x where x: "plain_name x" "before (TIdent x # concat (map unparse_s ss) @ ?call) p"
    "\<not> dotted_run_lbrace (concat (map unparse_s ss) @ ?call)"
    using designator_start [OF _ bf'] d dz by auto
  let ?item = "parse_argument (parse_expr m) (parse_type_expr m)"
  let ?f = "\<lambda>dz. pbind (at_kind TLParen) (\<lambda>call.
         if call then
           pbind bump (\<lambda>_. pbind (opt_list j TRParen ?item) (\<lambda>args.
           pbind (expect_kind TRParen '')'') (\<lambda>close. pret (ECall (EDesignator dz) args (between (here p) (span_end close))))))
         else pret (EDesignator dz))"
  let ?k = "length (unparse_d d)"
  obtain dz' where dz': "strip_d dz' = strip_d d"
    "pbind parse_designator_base (\<lambda>base. pbind (parse_designator_tail j (parse_expr m) base) ?f) p = ?f dz' (skip ?k p)"
    using designator_reads [OF _ _ bf' _ _ fuel, of ?f] d ok dz by auto
  have q: "before ?call (skip ?k p)" using before_skip [OF bf'] dz by simp
  have rr: "before (?us @ TRParen # rest) (skip (Suc ?k) p)" using before_step [OF q] by simp
  have "left (skip (Suc ?k) p) < left p" using before_left [OF rr] before_left [OF bf'] by simp
  then have lr: "left (skip (Suc ?k) p) < j" "left (skip (Suc ?k) p) < m" using fuel by auto
  have "reads (opt_list j TRParen ?item) (length ?us) (skip (Suc ?k) p) (list_all2 (\<lambda>e a. strip a = strip e) args)"
    by (rule opt_list_reads [OF _ _ _ rr lr]) (use args argument_item unparse_start [of _ 0] in auto)
  then obtain ys where ys: "map strip ys = map strip args"
    "opt_list j TRParen ?item (skip (Suc ?k) p) = Inr (ys, skip (Suc (?k + length ?us)) p)"
    by (auto simp: reads_def dest: stripped_list)
  have cl: "before (TRParen # rest) (skip (Suc (?k + length ?us)) p)" using before_skip [OF rr] by simp
  have "parse_factor (Suc j) (parse_expr m) (parse_type_expr m) p = ?f dz' (skip ?k p)"
    unfolding ident_start [OF x(2,1)] ident_factor_def run_dotted [OF x(2)] using x(3) dz'(2) by simp
  then show "reads (parse_factor (Suc j) (parse_expr m) (parse_type_expr m)) (length (unparse 3 ?e)) p (\<lambda>x. strip x = strip ?e)"
    using dz'(1) ys q by (simp add: reads_def run_at_kind run_bump run_step run_expect_kind [OF cl] pret_def)
qed

section \<open>The round trip\<close>

definition complete :: "expr \<Rightarrow> bool" where
  "complete e \<longleftrightarrow> (\<forall>l \<le> 2. enters_loop l e) \<and> reads_expr 3 e"

lemma complete_reads: "complete e \<Longrightarrow> l \<le> 3 \<Longrightarrow> reads_expr l e"
  using reads_from_loop by (cases "l = 3") (auto simp: complete_def)

text \<open>From a level where it is written without parentheses down to the relations.\<close>

lemma enters_below:
  assumes "parsed e" and "k \<le> 3" and "reads_expr k e" and "\<And>l. l < k \<Longrightarrow> unparse l e = unparse (Suc l) e"
  shows "l < k \<Longrightarrow> enters_loop l e"
proof (induction "k - l" arbitrary: l rule: less_induct)
  case less
  have "reads_expr (Suc l) e"
  proof (cases "Suc l = k")
    case False
    then have "enters_loop (Suc l) e" by (intro less.hyps) (use less.prems in auto)
    then show ?thesis using False less.prems assms(2) by (intro reads_from_loop) auto
  qed (use assms in simp)
  moreover have "unparse l e = unparse (Suc l) e" using assms(4) less.prems by blast
  moreover have "hd (unparse 2 e) \<notin> {TPlus, TMinus} \<and> unparse 2 e \<noteq> []" using unparse_start [OF assms(1), of 2] by auto
  ultimately show ?case using less.prems assms(2) by (intro enters_from_above) auto
qed

lemma complete_factor:
  "parsed e \<Longrightarrow> reads_expr 3 e \<Longrightarrow> (\<And>l. l < 3 \<Longrightarrow> unparse l e = unparse (Suc l) e) \<Longrightarrow> complete e"
  using enters_below [of e 3] by (auto simp: complete_def)

text \<open>An expression whose level is below 3 is in parentheses above it.\<close>

lemma complete_level:
  assumes "parsed e" and k: "k \<le> 2" and own: "enters_loop k e"
    and plain: "\<And>l. l \<le> k \<Longrightarrow> unparse l e = u" and paren: "\<And>l. k < l \<Longrightarrow> unparse l e = TLParen # u @ [TRParen]"
  shows "complete e"
proof -
  have "enters_loop l e" if "l < k" for l
    by (rule enters_below [OF assms(1) _ reads_from_loop [OF own k] _ that]) (use k plain in auto)
  then have low: "enters_loop l e" if "l \<le> k" for l using that own by (cases "l = k") auto
  have "reads_expr 0 e" by (rule reads_from_loop [OF low]) auto
  then have r3: "reads_expr 3 e" by (rule parens_reads) (use plain [of 0] paren [of 3] k in auto)
  have high: "enters_loop l e" if "k < l" "l \<le> 2" for l
    using that r3
  proof (induction "3 - l" arbitrary: l rule: less_induct)
    case less
    have "reads_expr (Suc l) e"
    proof (cases "l = 2")
      case False
      then have "enters_loop (Suc l) e" by (intro less.hyps) (use less.prems in auto)
      then show ?thesis using False less.prems by (intro reads_from_loop) auto
    qed (use r3 in \<open>simp add: numeral_3_eq_3 numeral_2_eq_2\<close>)
    moreover have "hd (unparse 2 e) \<notin> {TPlus, TMinus} \<and> unparse 2 e \<noteq> []" using unparse_start [OF assms(1), of 2] by auto
    ultimately show ?case using less.prems paren by (intro enters_from_above) auto
  qed
  show ?thesis unfolding complete_def using low high r3 by (meson not_le)
qed

lemma complete_binary:
  assumes a: "complete a" and b: "complete b" and p: "parsed (EBinary opr a b sp)"
  shows "complete (EBinary opr a b sp)"
proof (rule complete_level [OF p op_token_ops(4)])
  show "enters_loop (op_level opr) (EBinary opr a b sp)"
    using a b op_token_ops(4) [of opr] by (intro enters_binary complete_reads) (auto simp: complete_def)
qed (auto simp: parens_def)

lemma complete_sign:
  assumes a: "complete a" and p: "parsed (EUnary opr a sp)" and sign: "opr = OpPos \<and> k = TPlus \<or> opr = OpNeg \<and> k = TMinus"
  shows "complete (EUnary opr a sp)"
proof (rule complete_level [OF p, of 1])
  show "enters_loop 1 (EUnary opr a sp)" using a by (intro enters_sign [OF complete_reads sign]) auto
  show "unparse l (EUnary opr a sp) = k # unparse 2 a" if "l \<le> 1" for l using that sign by (auto simp: parens_def)
  show "unparse l (EUnary opr a sp) = TLParen # (k # unparse 2 a) @ [TRParen]" if "1 < l" for l
    using that sign by (auto simp: parens_def)
qed simp

lemma all_complete:
  "parsed e \<longrightarrow> complete e \<and> (case e of EDesignator d \<Rightarrow> list_all selector_ok (d_selectors d) | _ \<Rightarrow> True)"
  "parsed_d d \<longrightarrow> list_all selector_ok (d_selectors d)"
  "parsed_s s \<longrightarrow> selector_ok s"
  "parsed_el el \<longrightarrow> elem_ok el"
proof (induction e and d and s and el rule: expr.induct designator.induct selector.induct set_elem.induct)
  case (EInteger v sp)
  show ?case by (auto intro!: complete_factor literal_reads)
next
  case (EReal v sp)
  show ?case by (auto intro!: complete_factor literal_reads)
next
  case (EChar c sp)
  show ?case by (auto intro!: complete_factor literal_reads)
next
  case (EString s sp)
  show ?case by (auto intro!: complete_factor literal_reads)
next
  case (EDesignator d)
  then show ?case by (auto intro!: complete_factor name_reads)
next
  case (ECall f args sp)
  show ?case
  proof (intro impI conjI)
    assume p: "parsed (ECall f args sp)"
    obtain d where f: "f = EDesignator d" using p by (cases f) auto
    have "\<forall>e \<in> set args. reads_expr 0 e \<and> parsed e" using ECall p complete_reads [of _ 0] by (auto simp: list_all_iff)
    then have "reads_expr 3 (ECall f args sp)" using ECall p f by (auto intro: call_reads)
    then show "complete (ECall f args sp)" using p by (intro complete_factor) auto
  qed simp
next
  case (EBinary opr a b sp)
  then show ?case by (auto intro: complete_binary)
next
  case (EUnary opr a sp)
  show ?case
  proof (cases opr)
    case OpNot
    then show ?thesis using EUnary complete_reads [of a 3] by (auto intro!: complete_factor not_reads)
  qed (use EUnary in \<open>auto intro: complete_sign\<close>)
next
  case (ESet tn els sp)
  then have "\<forall>el \<in> set els. elem_ok el \<and> parsed_el el" if "parsed (ESet tn els sp)" using that by (auto simp: list_all_iff)
  then show ?case by (auto intro!: complete_factor set_reads)
next
  case (Designator b ss sp)
  then show ?case by (auto simp: list_all_iff)
next
  case (SIndex es sp)
  then show ?case using complete_reads [of _ 0] by (auto simp: list_all_iff)
next
  case (Single e)
  then show ?case using complete_reads [of _ 0] by auto
next
  case (Range a b)
  then show ?case using complete_reads [of _ 0] by auto
qed simp_all

text \<open>A concrete expression, \<open>(a.f + 1) * g(x, NOT y)\<close>, and the parser state before its tokens and an end of file.\<close>

definition sample_name :: "string \<Rightarrow> selector list \<Rightarrow> expr" where
  "sample_name x ss = EDesignator (Designator \<lparr>segments = [x], qn_span = no_span\<rparr> ss no_span)"

definition sample_expr :: expr where
  "sample_expr =
     EBinary OpMul
       (EBinary OpAdd (sample_name ''a'' [SField ''f'' no_span]) (EInteger 1 no_span) no_span)
       (ECall (sample_name ''g'' []) [sample_name ''x'' [], EUnary OpNot (sample_name ''y'' []) no_span] no_span) no_span"

definition sample_parser :: "token_kind list \<Rightarrow> parser" where
  "sample_parser ks =
     \<lparr>toks = map (\<lambda>k. \<lparr>kind = k, tok_span = no_span\<rparr>) ks, source = [], pos = 0,
      real_text = (\<lambda>v. []), debug_text = (\<lambda>k. [])\<rparr>"

text \<open>
  C17 The expression parser inverts the unparser: before the tokens of an expression tree written with
  its necessary parentheses, and a token that cannot continue it, the parser consumes exactly those
  tokens and returns the tree, up to the source positions; with any fuel above the number of tokens
  left.
\<close>

theorem parse_unparse_expr:
  assumes "parsed e" and "before (unparse 0 e @ rest) p" and "rest \<noteq> []" and "stops 0 (hd rest)" and "left p < n"
  shows "\<exists>a. parse_expr n p = Inr (a, skip (length (unparse 0 e)) p) \<and> strip a = strip e"
  using parse_expr_reads [OF complete_reads [of e 0] assms(2-5)] all_complete(1) [of e] assms(1)
  by (auto simp: reads_def)

theorem parse_unparse_expr_witness:
  "\<exists>a. parse_expr 40 (sample_parser (unparse 0 sample_expr @ [TSemicolon, TEof])) =
         Inr (a, skip 15 (sample_parser (unparse 0 sample_expr @ [TSemicolon, TEof]))) \<and> strip a = strip sample_expr"
proof -
  have u: "unparse 0 sample_expr =
      [TLParen, TIdent ''a'', TDot, TIdent ''f'', TPlus, TInteger 1, TRParen, TStar,
       TIdent ''g'', TLParen, TIdent ''x'', TComma, TTilde, TIdent ''y'', TRParen]"
    by (simp add: sample_expr_def sample_name_def parens_def op_level_def)
  let ?p = "sample_parser (unparse 0 sample_expr @ [TSemicolon, TEof])"
  have "parsed sample_expr" by (simp add: sample_expr_def sample_name_def plain_name_def)
  moreover have "before (unparse 0 sample_expr @ [TSemicolon, TEof]) ?p"
    by (simp add: u before_def ready_def kinds_def sample_parser_def)
  moreover have "stops 0 (hd [TSemicolon, TEof])"
    by (simp add: stops_def relational_op_def adding_op_def multiplying_op_def)
  moreover have "left ?p < 40" by (simp add: u left_def sample_parser_def)
  ultimately have "\<exists>a. parse_expr 40 ?p = Inr (a, skip (length (unparse 0 sample_expr)) ?p) \<and> strip a = strip sample_expr"
    by (intro parse_unparse_expr) auto
  moreover have "length (unparse 0 sample_expr) = 15" by (simp add: u)
  ultimately show ?thesis by simp
qed

end
