(* ===== verification/ParseDecl.thy ===== *)
theory ParseDecl
  imports ParseStmt
begin

text \<open>
  Imports, declarations, classes and modules (\<open>newm2-parser/src/parser.rs\<close>, \<open>parse_module\<close> to
  \<open>parse_param\<close>, \<open>parse_local_module\<close>, \<open>parse_reveal_list\<close>) and the entry points.

  As before a routine takes fuel \<open>n\<close> and, as arguments, the routines it recurses into: \<open>E\<close>
  expressions, \<open>T\<close> types, \<open>S\<close> statement sequences, \<open>D b\<close> declaration lists with bodies allowed or not.
\<close>

section \<open>Shared pieces\<close>

text \<open>The name after \<open>END\<close> has to be the one of the header.\<close>

definition expect_end_name :: "string \<Rightarrow> string \<Rightarrow> unit parse" where
  "expect_end_name what name = pbind expect_ident (\<lambda>(x, sp).
     if x \<noteq> name then perr_at sp (EndMismatch what name x) else pret ())"

definition optional_priority :: "expr parse \<Rightarrow> expr option parse" where
  "optional_priority E = pbind (eat_kind TLBracket) (\<lambda>b.
     if b then pbind E (\<lambda>e. pbind (expect_kind TRBracket '']'') (\<lambda>_. pret (Some e))) else pret None)"

definition block_of :: "nat \<Rightarrow> stmt list parse \<Rightarrow> span \<Rightarrow> block parse" where
  "block_of n S start = pbind S (\<lambda>ss. finish_block n S ss start)"

definition optional_body :: "nat \<Rightarrow> stmt list parse \<Rightarrow> span \<Rightarrow> block option parse" where
  "optional_body n S start = pbind (eat_kw KBegin) (\<lambda>b.
     if b then pbind (block_of n S start) (\<lambda>blk. pret (Some blk)) else pret None)"

definition body_or_empty :: "nat \<Rightarrow> stmt list parse \<Rightarrow> span \<Rightarrow> block parse" where
  "body_or_empty n S start = pbind (eat_kw KBegin) (\<lambda>b.
     if b then block_of n S start else pret (Block [] [] None start))"

text \<open>The body of a procedure or a method, with its \<open>END name;\<close>.\<close>

definition parse_proc_body :: "nat \<Rightarrow> stmt list parse \<Rightarrow> (bool \<Rightarrow> decl list parse) \<Rightarrow> string \<Rightarrow> string \<Rightarrow> span \<Rightarrow>
    proc_body parse" where
  "parse_proc_body n S D what name start = pbind (D True) (\<lambda>decls. pbind (body_or_empty n S start) (\<lambda>blk.
     pbind (expect_kw KEnd) (\<lambda>_. pbind (expect_end_name what name) (\<lambda>_.
     pbind (expect_kind TSemicolon '';'') (\<lambda>_. pret (ProcBody decls blk))))))"

text \<open>Lists of items with pragmas before each: an item that is absent ends the list.\<close>

fun item_loop :: "nat \<Rightarrow> (pragma \<Rightarrow> 'a) \<Rightarrow> 'a list option parse \<Rightarrow> 'a list parse" where
  "item_loop 0 mk item = pfail OutOfFuel"
| "item_loop (Suc n) mk item = pbind (collect_pragmas (Suc n)) (\<lambda>ps. pbind item (\<lambda>d.
     case d of
       None \<Rightarrow> pret (map mk ps)
     | Some ds \<Rightarrow> pbind (item_loop n mk item) (\<lambda>rest. pret (map mk ps @ ds @ rest))))"

section \<open>Imports\<close>

definition imported_name :: "import_name parse" where
  "imported_name = pbind expect_ident (\<lambda>(x, sp). pbind (eat_kind TAssign) (\<lambda>b.
     if b then pbind expect_ident (\<lambda>(a, _). pret \<lparr>in_name = x, in_alias = Some a, in_span = sp\<rparr>)
     else pret \<lparr>in_name = x, in_alias = None, in_span = sp\<rparr>))"

definition from_names :: "nat \<Rightarrow> string list parse" where
  "from_names n = pbind (eat_kind TStar) (\<lambda>b. if b then pret [] else parse_ident_list n)"

definition from_import :: "nat \<Rightarrow> ast_import parse" where
  "from_import n = pbind peek_span (\<lambda>start. pbind bump (\<lambda>_. pbind expect_ident (\<lambda>(m, _).
     pbind (expect_kw KImport) (\<lambda>_. pbind (from_names n) (\<lambda>names.
     pbind (expect_kind TSemicolon '';'') (\<lambda>semi. pret (IFrom m names (between start (span_end semi)))))))))"

definition plain_import :: "nat \<Rightarrow> ast_import parse" where
  "plain_import n = pbind peek_span (\<lambda>start. pbind bump (\<lambda>_. pbind (sep_list n imported_name) (\<lambda>names.
     pbind (expect_kind TSemicolon '';'') (\<lambda>semi. pret (IPlain names (between start (span_end semi)))))))"

fun parse_imports :: "nat \<Rightarrow> ast_import list parse" where
  "parse_imports 0 = pfail OutOfFuel"
| "parse_imports (Suc n) = pbind (skip_pragmas (Suc n)) (\<lambda>_. pbind peek_kind (\<lambda>k.
     if k = TKeyword KFrom then pbind (from_import n) (\<lambda>i. pbind (parse_imports n) (\<lambda>rest. pret (i # rest)))
     else if k = TKeyword KImport then
       pbind (plain_import n) (\<lambda>i. pbind (parse_imports n) (\<lambda>rest. pret (i # rest)))
     else pret []))"

section \<open>Constants, types, variables\<close>

definition optional_type :: "type_expr parse \<Rightarrow> unit parse" where
  "optional_type T = pbind (eat_kind TColon) (\<lambda>b. if b then pbind T (\<lambda>_. pret ()) else pret ())"

definition const_decl_at :: "expr parse \<Rightarrow> type_expr parse \<Rightarrow> const_decl parse" where
  "const_decl_at E T = pbind expect_ident (\<lambda>(x, sp). pbind (eat_kind TStar) (\<lambda>exported.
     pbind (optional_type T) (\<lambda>_. pbind (expect_kind TEqual ''='') (\<lambda>_. pbind E (\<lambda>v.
     pbind (expect_kind TSemicolon '';'') (\<lambda>semi.
       pret \<lparr>cd_name = x, cd_value = v, cd_exported = exported, cd_span = between sp (span_end semi)\<rparr>))))))"

definition parse_const_decl_opt :: "expr parse \<Rightarrow> type_expr parse \<Rightarrow> const_decl option parse" where
  "parse_const_decl_opt E T = pbind peek_kind (\<lambda>k.
     if ident_of k \<noteq> None then pbind (const_decl_at E T) (\<lambda>d. pret (Some d)) else pret None)"

definition type_decl_at :: "type_expr parse \<Rightarrow> type_decl parse" where
  "type_decl_at T = pbind expect_ident (\<lambda>(x, sp). pbind (eat_kind TStar) (\<lambda>exported.
     pbind (eat_kind TSemicolon) (\<lambda>opaque.
       if opaque then pret \<lparr>td_name = x, td_def = None, td_exported = exported, td_span = sp\<rparr>
       else pbind (expect_kind TEqual ''='') (\<lambda>_. pbind T (\<lambda>ty. pbind (expect_kind TSemicolon '';'') (\<lambda>semi.
         pret \<lparr>td_name = x, td_def = Some ty, td_exported = exported,
               td_span = between sp (span_end semi)\<rparr>))))))"

text \<open>A soft keyword that starts something else is not the name of a type.\<close>

definition not_type_name :: "token_kind \<Rightarrow> token_kind option \<Rightarrow> bool" where
  "not_type_name k k1 \<longleftrightarrow>
     k = TIdent ''ASSERT'' \<and> k1 = Some TLParen \<or>
     k \<in> {TIdent ''INTERFACE'', TIdent ''CLASS''} \<and> Option.bind k1 ident_of \<noteq> None"

definition parse_type_decl_opt :: "type_expr parse \<Rightarrow> type_decl option parse" where
  "parse_type_decl_opt T = pbind peek_kind (\<lambda>k. pbind (peek_kind_at 1) (\<lambda>k1.
     if not_type_name k k1 then pret None
     else if ident_of k \<noteq> None then pbind (type_decl_at T) (\<lambda>d. pret (Some d))
     else pret None))"

text \<open>An external linkage \<open>["name" ...]\<close> after a variable is skipped.\<close>

definition link_brackets :: "nat \<Rightarrow> unit parse" where
  "link_brackets n = pbind (at_kind TLBracket) (\<lambda>b.
     if b then pbind (string_at 1) (\<lambda>s. if s then skip_brackets n else pret ()) else pret ())"

fun more_var_names :: "nat \<Rightarrow> string list parse" where
  "more_var_names 0 = pfail OutOfFuel"
| "more_var_names (Suc n) = pbind (eat_kind TComma) (\<lambda>c.
     if c then pbind expect_ident (\<lambda>(x, _). pbind (eat_kind TStar) (\<lambda>_. pbind (link_brackets n) (\<lambda>_.
       pbind (more_var_names n) (\<lambda>xs. pret (x # xs)))))
     else pret [])"

definition var_initializer :: "expr parse \<Rightarrow> unit parse" where
  "var_initializer E = pbind (eat_kind TEqual) (\<lambda>b. if b then pbind E (\<lambda>_. pret ()) else pret ())"

definition var_decl_at :: "nat \<Rightarrow> expr parse \<Rightarrow> type_expr parse \<Rightarrow> var_decl parse" where
  "var_decl_at n E T = pbind (collect_pragmas n) (\<lambda>pragmas. pbind expect_ident (\<lambda>(x, sp).
     pbind (eat_kind TStar) (\<lambda>exported. pbind (link_brackets n) (\<lambda>_. pbind (more_var_names n) (\<lambda>xs.
     pbind (optional_priority E) (\<lambda>address. pbind (expect_kind TColon '':'') (\<lambda>_. pbind T (\<lambda>ty.
     pbind (var_initializer E) (\<lambda>_. pbind (expect_kind TSemicolon '';'') (\<lambda>semi.
       pret \<lparr>vd_names = x # xs, vd_ty = ty, vd_address = address, vd_pragmas = pragmas, vd_exported = exported,
             vd_span = between sp (span_end semi)\<rparr>))))))))))"

definition starts_class :: "token_kind \<Rightarrow> token_kind option \<Rightarrow> bool" where
  "starts_class k k1 \<longleftrightarrow> k = TIdent ''CLASS'' \<and> Option.bind k1 ident_of \<noteq> None"

definition parse_var_decl_opt :: "nat \<Rightarrow> expr parse \<Rightarrow> type_expr parse \<Rightarrow> var_decl option parse" where
  "parse_var_decl_opt n E T = pbind peek_kind (\<lambda>k. pbind (peek_kind_at 1) (\<lambda>k1.
     if starts_class k k1 then pret None
     else if ident_of k \<noteq> None then pbind (var_decl_at n E T) (\<lambda>d. pret (Some d))
     else pret None))"

section \<open>Parameters and linkage\<close>

definition parse_param_mode :: "ast_param_mode parse" where
  "parse_param_mode = pbind (eat_kw KVar) (\<lambda>v.
     if v then pbind out_or_inout (\<lambda>_. pret AVar)
     else pbind out_or_inout (\<lambda>b.
       if b then pret AVar
       else pbind (eat_kw KConst) (\<lambda>c.
         if c then pret AConst
         else pbind (eat_soft_kw ''CONST'') (\<lambda>c2. pret (if c2 then AConst else AValue)))))"

definition parse_param :: "nat \<Rightarrow> type_expr parse \<Rightarrow> param parse" where
  "parse_param n T = pbind (collect_pragmas n) (\<lambda>pragmas. pbind parse_param_mode (\<lambda>mode.
     pbind peek_span (\<lambda>first. pbind (parse_ident_list n) (\<lambda>names. pbind (expect_kind TColon '':'') (\<lambda>_.
     pbind T (\<lambda>ty. pbind prev_end (\<lambda>e.
       pret \<lparr>pm_mode = mode, pm_names = names, pm_ty = ty, pm_pragmas = pragmas, pm_span = between first e\<rparr>)))))))"

definition semicolon_or_comma :: "bool parse" where
  "semicolon_or_comma = pbind (eat_kind TSemicolon) (\<lambda>c. if c then pret True else eat_kind TComma)"

text \<open>The parameters of a procedure, and whether they end in \<open>...\<close>; a method has no \<open>...\<close>.\<close>

fun proc_params :: "nat \<Rightarrow> type_expr parse \<Rightarrow> (param list \<times> bool) parse" where
  "proc_params 0 T = pfail OutOfFuel"
| "proc_params (Suc n) T = pbind at_ellipsis (\<lambda>dots.
     if dots then pbind eat_ellipsis (\<lambda>_. pret ([], True))
     else pbind (parse_param (Suc n) T) (\<lambda>a. pbind semicolon_or_comma (\<lambda>more.
       if more then pbind (proc_params n T) (\<lambda>(ps, var). pret (a # ps, var)) else pret ([a], False))))"

definition proc_param_list :: "nat \<Rightarrow> type_expr parse \<Rightarrow> (param list \<times> bool) parse" where
  "proc_param_list n T = pbind (eat_kind TLParen) (\<lambda>p.
     if p then pbind (at_kind TRParen) (\<lambda>none.
       if none then pbind (expect_kind TRParen '')'') (\<lambda>_. pret ([], False))
       else pbind (proc_params n T) (\<lambda>ps. pbind (expect_kind TRParen '')'') (\<lambda>_. pret ps)))
     else pret ([], False))"

fun method_params :: "nat \<Rightarrow> type_expr parse \<Rightarrow> param list parse" where
  "method_params 0 T = pfail OutOfFuel"
| "method_params (Suc n) T = pbind (parse_param (Suc n) T) (\<lambda>a. pbind semicolon_or_comma (\<lambda>more.
     if more then pbind (method_params n T) (\<lambda>ps. pret (a # ps)) else pret [a]))"

definition method_param_list :: "nat \<Rightarrow> type_expr parse \<Rightarrow> param list parse" where
  "method_param_list n T = pbind (eat_kind TLParen) (\<lambda>p.
     if p then pbind (at_kind TRParen) (\<lambda>none.
       if none then pbind (expect_kind TRParen '')'') (\<lambda>_. pret [])
       else pbind (method_params n T) (\<lambda>ps. pbind (expect_kind TRParen '')'') (\<lambda>_. pret ps)))
     else pret [])"

definition from_dll :: "string_literal option parse" where
  "from_dll = pbind (eat_kw KFrom) (\<lambda>b.
     if b then pbind expect_string_literal (\<lambda>(s, _). pret (Some s)) else pret None)"

definition external_linkage :: "proc_external_linkage parse" where
  "external_linkage = pbind (expect_kind TLBracket ''['') (\<lambda>start. pbind expect_string_literal (\<lambda>(link, _).
     pbind (eat_soft_kw ''EXTERNAL'') (\<lambda>is_external. pbind from_dll (\<lambda>dll.
     pbind (expect_kind TRBracket '']'') (\<lambda>close.
       pret \<lparr>pl_link_name = link, pl_dll_name = dll, pl_is_external = is_external,
             pl_span = between start (span_end close)\<rparr>)))))"

definition parse_proc_external_linkage :: "proc_external_linkage option parse" where
  "parse_proc_external_linkage = pbind (at_kind TLBracket) (\<lambda>b. pbind (string_at 1) (\<lambda>s.
     if b \<and> s then pbind external_linkage (\<lambda>l. pret (Some l)) else pret None))"

section \<open>Procedures\<close>

fun skip_qualifiers :: "nat \<Rightarrow> unit parse" where
  "skip_qualifiers 0 = pfail OutOfFuel"
| "skip_qualifiers (Suc n) = pbind peek_kind (\<lambda>k.
     if k \<in> {TIdent ''__BUILTIN__'', TIdent ''__INLINE__''} then pbind bump (\<lambda>_. skip_qualifiers n)
     else pret ())"

text \<open>
  The scan of an assembly body for its \<open>END\<close>, with the name and the semicolon after it; the result is
  the offset of the \<open>END\<close>. The source's test for the end of the tokens comes first, but the cursor
  never moves past the end-of-file token.
\<close>

definition past_end :: "bool parse" where
  "past_end p = Inr (length (toks p) \<le> pos p, p)"

definition asm_end_name :: "string \<Rightarrow> unit parse" where
  "asm_end_name name = pbind peek_kind (\<lambda>k.
     case ident_of k of
       Some x \<Rightarrow> if x \<noteq> name then pbind peek_span (\<lambda>sp. perr_at sp (EndMismatch ''procedure'' name x))
                 else pbind bump (\<lambda>_. pret ())
     | None \<Rightarrow> pret ())"

definition asm_end :: "string \<Rightarrow> nat parse" where
  "asm_end name = pbind peek_span (\<lambda>sp. pbind bump (\<lambda>_. pbind (asm_end_name name) (\<lambda>_.
     pbind (expect_kind TSemicolon '';'') (\<lambda>_. pret (offset (span_start sp))))))"

fun asm_loop :: "nat \<Rightarrow> string \<Rightarrow> span \<Rightarrow> nat \<Rightarrow> nat parse" where
  "asm_loop 0 name start depth = pfail OutOfFuel"
| "asm_loop (Suc n) name start depth = pbind past_end (\<lambda>over.
     if over then perr_at start UnterminatedAsm
     else pbind peek_kind (\<lambda>k.
       if k = TKeyword KAsm then pbind bump (\<lambda>_. asm_loop n name start (depth + 1))
       else if k = TKeyword KEnd then
         (if depth = 0 then asm_end name else pbind bump (\<lambda>_. asm_loop n name start (depth - 1)))
       else pbind bump (\<lambda>_. asm_loop n name start depth)))"

text \<open>\<open>self.source[body_start..body_end].to_string()\<close>: an index out of the source panics.\<close>

definition source_slice :: "nat \<Rightarrow> nat \<Rightarrow> string parse" where
  "source_slice s e p =
     (if s \<le> e \<and> e \<le> length (source p) then Inr (byte_range (source p) s e, p) else Inl IndexPanic)"

definition asm_body :: "nat \<Rightarrow> string \<Rightarrow> span \<Rightarrow> string parse" where
  "asm_body n name start = pbind bump (\<lambda>_. pbind peek_span (\<lambda>sp.
     pbind (asm_loop n name start 0) (\<lambda>body_end. source_slice (offset (span_start sp)) body_end)))"

definition starts_proc_body :: "token_kind \<Rightarrow> bool" where
  "starts_proc_body k \<longleftrightarrow>
     k \<in> TKeyword ` {KConst, KType, KVar, KProcedure, KModule, KBegin, KEnd, KExport}"

definition optional_proc_body :: "nat \<Rightarrow> stmt list parse \<Rightarrow> (bool \<Rightarrow> decl list parse) \<Rightarrow> string \<Rightarrow> span \<Rightarrow> bool \<Rightarrow>
    proc_body option parse" where
  "optional_proc_body n S D name start allow = pbind peek_kind (\<lambda>k.
     if allow \<and> starts_proc_body k
     then pbind (parse_proc_body n S D ''procedure'' name start) (\<lambda>b. pret (Some b)) else pret None)"

text \<open>
  What follows the header, as body, assembly text and forward flag: \<open>FORWARD ;\<close>, an alias \<open>= name ;\<close>,
  or a semicolon with \<open>FORWARD ;\<close>, an assembly body or an ordinary body after it; \<open>MACRO ;\<close> allows a
  body everywhere.
\<close>

definition macro_allows :: "bool \<Rightarrow> bool parse" where
  "macro_allows allow = pbind (eat_soft_kw ''MACRO'') (\<lambda>m.
     if m then pbind (expect_kind TSemicolon '';'') (\<lambda>_. pret True) else pret allow)"

definition after_header :: "nat \<Rightarrow> stmt list parse \<Rightarrow> (bool \<Rightarrow> decl list parse) \<Rightarrow> string \<Rightarrow> span \<Rightarrow> bool \<Rightarrow>
    (proc_body option \<times> string option \<times> bool) parse" where
  "after_header n S D name start allow = pbind (eat_kw KForward) (\<lambda>fwd.
     if fwd then pbind (expect_kind TSemicolon '';'') (\<lambda>_. pret (None, None, True))
     else pbind (at_kw KAsm) (\<lambda>a.
       if a then pbind (asm_body n name start) (\<lambda>text. pret (None, Some text, False))
       else pbind (macro_allows allow) (\<lambda>allow'.
         pbind (optional_proc_body n S D name start allow') (\<lambda>b. pret (b, None, False)))))"

definition proc_tail :: "nat \<Rightarrow> stmt list parse \<Rightarrow> (bool \<Rightarrow> decl list parse) \<Rightarrow> string \<Rightarrow> span \<Rightarrow> bool \<Rightarrow>
    (proc_body option \<times> string option \<times> bool) parse" where
  "proc_tail n S D name start allow = pbind (eat_kw KForward) (\<lambda>fwd.
     if fwd then pbind (expect_kind TSemicolon '';'') (\<lambda>_. pret (None, None, True))
     else pbind (eat_kind TEqual) (\<lambda>alias.
       if alias then
         pbind (parse_qual_name n) (\<lambda>_. pbind (expect_kind TSemicolon '';'') (\<lambda>_. pret (None, None, False)))
       else pbind (expect_kind TSemicolon '';'') (\<lambda>_. after_header n S D name start allow)))"

definition varargs :: "bool \<Rightarrow> span \<Rightarrow> proc_attr list" where
  "varargs is_variadic start =
     (if is_variadic then [\<lparr>pa_name = ''VARARGS'', pa_args = [], pa_span = start\<rparr>] else [])"

definition parse_procedure_decl :: "nat \<Rightarrow> type_expr parse \<Rightarrow> stmt list parse \<Rightarrow> (bool \<Rightarrow> decl list parse) \<Rightarrow> bool \<Rightarrow>
    proc_decl parse" where
  "parse_procedure_decl n T S D allow = pbind peek_span (\<lambda>start. pbind (expect_kw KProcedure) (\<lambda>_.
     pbind (skip_qualifiers n) (\<lambda>_. pbind expect_ident (\<lambda>(name, _). pbind (eat_kind TStar) (\<lambda>exported.
     pbind parse_proc_external_linkage (\<lambda>linkage. pbind (proc_param_list n T) (\<lambda>(params, variadic).
     pbind (optional_result T) (\<lambda>return_ty. pbind (parse_proc_attrs n) (\<lambda>attrs.
     pbind (collect_pragmas n) (\<lambda>pragmas.
     pbind (proc_tail n S D name start allow) (\<lambda>(body, asm, is_forward). pbind prev_end (\<lambda>e.
       pret (ProcDecl name linkage params return_ty (attrs @ varargs variadic start) body asm is_forward
               pragmas exported (between start e))))))))))))))"

section \<open>Classes and interfaces\<close>

definition optional_iid_text :: "string option parse" where
  "optional_iid_text = pbind (eat_kind TLBracket) (\<lambda>b.
     if b then pbind peek_kind (\<lambda>k.
       case string_of k of
         Some lit \<Rightarrow> pbind bump (\<lambda>_. pbind (expect_kind TRBracket '']'') (\<lambda>_. pret (Some (str_value lit))))
       | None \<Rightarrow> perr ExpectedGuid)
     else pret None)"

definition starts_method_body :: "token_kind \<Rightarrow> bool" where
  "starts_method_body k \<longleftrightarrow> k \<in> TKeyword ` {KConst, KType, KVar, KProcedure, KBegin}"

definition method_body :: "nat \<Rightarrow> stmt list parse \<Rightarrow> (bool \<Rightarrow> decl list parse) \<Rightarrow> string \<Rightarrow> span \<Rightarrow> bool \<Rightarrow>
    proc_body option parse" where
  "method_body n S D name start allow = pbind peek_kind (\<lambda>k.
     if allow \<and> starts_method_body k
     then pbind (parse_proc_body n S D ''method'' name start) (\<lambda>b. pret (Some b)) else pret None)"

definition parse_method_decl :: "nat \<Rightarrow> type_expr parse \<Rightarrow> stmt list parse \<Rightarrow> (bool \<Rightarrow> decl list parse) \<Rightarrow>
    bool \<Rightarrow> bool \<Rightarrow> bool \<Rightarrow> method_decl parse" where
  "parse_method_decl n T S D is_abstract is_override allow = pbind peek_span (\<lambda>start.
     pbind (expect_kw KProcedure) (\<lambda>_. pbind expect_ident (\<lambda>(name, _). pbind (method_param_list n T) (\<lambda>params.
     pbind (optional_result T) (\<lambda>return_ty. pbind (parse_proc_attrs n) (\<lambda>attrs.
     pbind (collect_pragmas n) (\<lambda>pragmas. pbind (expect_kind TSemicolon '';'') (\<lambda>_.
     pbind (method_body n S D name start (\<not> is_abstract \<and> allow)) (\<lambda>body. pbind prev_end (\<lambda>e.
       pret (MethodDecl name is_abstract is_override params return_ty attrs body pragmas (between start e))))))))))))"

definition at_class_member_boundary :: "bool parse" where
  "at_class_member_boundary = pbind peek_kind (\<lambda>k.
     pret (k \<in> TKeyword ` {KEnd, KProcedure, KAbstract} \<or> k = TIdent ''OVERRIDE'' \<or> pragma_of k \<noteq> None \<or> k = TEof))"

fun class_fields :: "nat \<Rightarrow> var_decl option parse \<Rightarrow> class_member list parse" where
  "class_fields 0 V = pfail OutOfFuel"
| "class_fields (Suc n) V = pbind at_class_member_boundary (\<lambda>b.
     if b then pret []
     else pbind V (\<lambda>d.
       case d of
         None \<Rightarrow> pret []
       | Some v \<Rightarrow> pbind (class_fields n V) (\<lambda>vs. pret (MField v # vs))))"

text \<open>One member or field list; the end of the class is none.\<close>

definition class_item :: "nat \<Rightarrow> var_decl option parse \<Rightarrow> (bool \<Rightarrow> bool \<Rightarrow> method_decl parse) \<Rightarrow> ast_class_kind \<Rightarrow>
    class_member list option parse" where
  "class_item n V M ckind = pbind peek_kind (\<lambda>k. pbind (peek_kind_at 1) (\<lambda>k1.
     let proc_next = (k1 = Some (TKeyword KProcedure));
         meth = (\<lambda>m. pret (Some [MMethod m]))
     in if k = TKeyword KEnd then pret None
        else if k = TKeyword KVar then pbind bump (\<lambda>_. pbind (class_fields n V) (\<lambda>vs. pret (Some vs)))
        else if k = TKeyword KAbstract \<and> proc_next then pbind bump (\<lambda>_. pbind (M True False) meth)
        else if k = TIdent ''OVERRIDE'' \<and> proc_next then pbind bump (\<lambda>_. pbind (M False True) meth)
        else if k = TKeyword KProcedure then pbind (M (ckind = CkInterface) False) meth
        else if k = TEof then perr UnterminatedClass
        else perr (UnexpectedInClass k)))"

definition class_kind_kw :: "ast_class_kind parse" where
  "class_kind_kw = pbind (eat_soft_kw ''INTERFACE'') (\<lambda>i.
     if i then pret CkInterface
     else pbind (eat_soft_kw ''CLASS'') (\<lambda>c. if c then pret CkClass else perr ExpectedClass))"

definition optional_inherit :: "nat \<Rightarrow> qual_name option parse" where
  "optional_inherit n = pbind (eat_soft_kw ''INHERIT'') (\<lambda>b.
     if b then pbind (parse_qual_name n) (\<lambda>q. pbind (expect_kind TSemicolon '';'') (\<lambda>_. pret (Some q)))
     else pret None)"

definition optional_implements :: "nat \<Rightarrow> qual_name list parse" where
  "optional_implements n = pbind (eat_soft_kw ''IMPLEMENTS'') (\<lambda>b.
     if b then pbind (parse_qual_name n) (\<lambda>q. pbind (more_qual_names n) (\<lambda>qs.
       pbind (expect_kind TSemicolon '';'') (\<lambda>_. pret (q # qs))))
     else pret [])"

definition parse_reveal_list :: "nat \<Rightarrow> string list parse" where
  "parse_reveal_list n = sep_list n (pbind (eat_soft_kw ''READONLY'') (\<lambda>_. pbind expect_ident (\<lambda>(x, _). pret x)))"

definition optional_reveal :: "nat \<Rightarrow> string list parse" where
  "optional_reveal n = pbind (eat_soft_kw ''REVEAL'') (\<lambda>b.
     if b then pbind (parse_reveal_list n) (\<lambda>xs. pbind (expect_kind TSemicolon '';'') (\<lambda>_. pret xs))
     else pret [])"

definition class_rest :: "nat \<Rightarrow> var_decl option parse \<Rightarrow> (bool \<Rightarrow> bool \<Rightarrow> method_decl parse) \<Rightarrow>
    string \<Rightarrow> ast_class_kind \<Rightarrow> bool \<Rightarrow> string option \<Rightarrow> bool \<Rightarrow> span \<Rightarrow> class_decl parse" where
  "class_rest n V M name ckind is_abstract iid exported start =
     pbind (optional_inherit n) (\<lambda>inherit. pbind (optional_implements n) (\<lambda>implements.
     pbind (optional_reveal n) (\<lambda>reveal. pbind (item_loop n MPragma (class_item n V M ckind)) (\<lambda>members.
     pbind (expect_kw KEnd) (\<lambda>_. pbind (expect_end_name ''class'' name) (\<lambda>_.
     pbind (expect_kind TSemicolon '';'') (\<lambda>semi.
       pret (ClassDecl name ckind is_abstract False iid implements inherit reveal members exported
               (between start (span_end semi))))))))))"

definition parse_class_decl :: "nat \<Rightarrow> var_decl option parse \<Rightarrow> (bool \<Rightarrow> bool \<Rightarrow> method_decl parse) \<Rightarrow> class_decl parse" where
  "parse_class_decl n V M = pbind peek_span (\<lambda>start. pbind (eat_kw KAbstract) (\<lambda>abstract_kw.
     pbind class_kind_kw (\<lambda>ckind. pbind expect_ident (\<lambda>(name, _). pbind (eat_kind TStar) (\<lambda>exported.
     pbind optional_iid_text (\<lambda>iid. pbind (expect_kind TSemicolon '';'') (\<lambda>_. pbind (eat_kw KForward) (\<lambda>fwd.
       let is_abstract = abstract_kw \<or> ckind = CkInterface
       in if fwd then
            pbind (expect_kind TSemicolon '';'') (\<lambda>_. pbind prev_end (\<lambda>e.
              pret (ClassDecl name ckind is_abstract True iid [] None [] [] exported (between start e))))
          else class_rest n V M name ckind is_abstract iid exported start))))))))"

section \<open>Local modules, declaration lists\<close>

definition parse_local_module :: "nat \<Rightarrow> expr parse \<Rightarrow> stmt list parse \<Rightarrow> (bool \<Rightarrow> decl list parse) \<Rightarrow> ast_module parse" where
  "parse_local_module n E S D = pbind peek_span (\<lambda>start. pbind (expect_kw KModule) (\<lambda>_.
     pbind expect_ident (\<lambda>(name, _). pbind (optional_priority E) (\<lambda>priority. pbind (collect_pragmas n) (\<lambda>pragmas.
     pbind (expect_kind TSemicolon '';'') (\<lambda>_. pbind (parse_imports n) (\<lambda>imports. pbind (D True) (\<lambda>decls.
     pbind (optional_body n S start) (\<lambda>body. pbind (expect_kw KEnd) (\<lambda>_.
     pbind (expect_end_name ''local module'' name) (\<lambda>_. pbind (expect_kind TSemicolon '';'') (\<lambda>semi.
       pret (AstModule MLocal name priority pragmas imports decls body (between start (span_end semi)))))))))))))))"

definition export_decl :: "nat \<Rightarrow> decl parse" where
  "export_decl n = pbind peek_span (\<lambda>start. pbind bump (\<lambda>_. pbind (eat_kw KQualified) (\<lambda>qualified.
     pbind (parse_ident_list n) (\<lambda>names. pbind (expect_kind TSemicolon '';'') (\<lambda>semi.
       pret (DExport qualified names (between start (span_end semi))))))))"

fun skip_parens_to :: "nat \<Rightarrow> nat \<Rightarrow> unit parse" where
  "skip_parens_to 0 d = pfail OutOfFuel"
| "skip_parens_to (Suc n) d =
     (if d = 0 then pret ()
      else pbind peek_kind (\<lambda>k.
        if k = TLParen then pbind bump (\<lambda>_. skip_parens_to n (d + 1))
        else if k = TRParen then pbind bump (\<lambda>_. skip_parens_to n (d - 1))
        else if k = TEof then pret ()
        else pbind bump (\<lambda>_. skip_parens_to n d)))"

definition skip_assert :: "nat \<Rightarrow> unit parse" where
  "skip_assert n = pbind bump (\<lambda>_. pbind (eat_kind TLParen) (\<lambda>b.
     pbind (if b then skip_parens_to n 1 else pret ()) (\<lambda>_. pbind (eat_kind TSemicolon) (\<lambda>_. pret ()))))"

definition section_item :: "('a \<Rightarrow> decl) \<Rightarrow> 'a option parse \<Rightarrow> decl list option parse" where
  "section_item mk item = pbind item (\<lambda>d. case d of None \<Rightarrow> pret None | Some x \<Rightarrow> pret (Some [mk x]))"

definition decl_section :: "nat \<Rightarrow> ('a \<Rightarrow> decl) \<Rightarrow> 'a option parse \<Rightarrow> decl list option parse" where
  "decl_section n mk item = pbind bump (\<lambda>_.
     pbind (item_loop n DPragma (section_item mk item)) (\<lambda>ds. pret (Some ds)))"

definition top_item :: "nat \<Rightarrow> expr parse \<Rightarrow> type_expr parse \<Rightarrow> stmt list parse \<Rightarrow> (bool \<Rightarrow> decl list parse) \<Rightarrow> bool \<Rightarrow>
    decl list option parse" where
  "top_item n E T S D bodies = pbind peek_kind (\<lambda>k. pbind (peek_kind_at 1) (\<lambda>k1.
     let V = parse_var_decl_opt n E T;
         class = pbind (parse_class_decl n V (\<lambda>abs ovr. parse_method_decl n T S D abs ovr bodies))
                   (\<lambda>c. pret (Some [DClass c]))
     in if k = TKeyword KConst then decl_section n DConst (parse_const_decl_opt E T)
        else if k = TKeyword KType then decl_section n DType (parse_type_decl_opt T)
        else if k = TKeyword KVar then decl_section n DVar V
        else if k = TKeyword KProcedure then
          pbind (parse_procedure_decl n T S D bodies) (\<lambda>d. pret (Some [DProcedure d]))
        else if k = TKeyword KModule \<and> bodies then
          pbind (parse_local_module n E S D) (\<lambda>m. pret (Some [DLocalModule m]))
        else if k = TKeyword KExport then pbind (export_decl n) (\<lambda>d. pret (Some [d]))
        else if k = TKeyword KAbstract \<and> k1 = Some (TIdent ''CLASS'') then class
        else if k \<in> {TIdent ''CLASS'', TIdent ''INTERFACE''} then class
        else if k = TIdent ''ASSERT'' then pbind (skip_assert n) (\<lambda>_. pret (Some []))
        else pret None))"

fun parse_top_decls :: "nat \<Rightarrow> bool \<Rightarrow> decl list parse" where
  "parse_top_decls 0 bodies = pfail OutOfFuel"
| "parse_top_decls (Suc n) bodies =
     item_loop (Suc n) DPragma
       (top_item n (parse_expr n) (parse_type_expr n) (parse_stmt_seq n) (parse_top_decls n) bodies)"

section \<open>Modules\<close>

definition module_kind_kw :: "module_kind parse" where
  "module_kind_kw = pbind peek_kind (\<lambda>k.
     if k = TKeyword KDefinition then pbind bump (\<lambda>_. pbind (expect_kw KModule) (\<lambda>_. pret MDefinition))
     else if k = TKeyword KImplementation then
       pbind bump (\<lambda>_. pbind (expect_kw KModule) (\<lambda>_. pret MImplementation))
     else if k = TKeyword KModule then pbind bump (\<lambda>_. pret MProgram)
     else perr (ExpectedModule k))"

definition module_content :: "nat \<Rightarrow> module_kind \<Rightarrow> span \<Rightarrow> (decl list \<times> block option) parse" where
  "module_content n mk start =
     (if mk = MDefinition then pbind (parse_top_decls n False) (\<lambda>ds. pret (ds, None))
      else pbind (parse_top_decls n True) (\<lambda>ds. pbind (optional_body n (parse_stmt_seq n) start) (\<lambda>b. pret (ds, b))))"

definition parse_module :: "nat \<Rightarrow> ast_module parse" where
  "parse_module n = pbind (collect_pragmas n) (\<lambda>ps1. pbind (eat_soft_kw ''UNSAFEGUARDED'') (\<lambda>_.
     pbind peek_span (\<lambda>start. pbind module_kind_kw (\<lambda>mk. pbind expect_ident (\<lambda>(name, _).
     pbind (optional_priority (parse_expr n)) (\<lambda>priority. pbind (collect_pragmas n) (\<lambda>ps2.
     pbind (expect_kind TSemicolon '';'') (\<lambda>_. pbind (collect_pragmas n) (\<lambda>ps3. pbind (parse_imports n) (\<lambda>imports.
     pbind (module_content n mk start) (\<lambda>(decls, body). pbind (expect_kw KEnd) (\<lambda>close.
     pbind (expect_end_name ''module'' name) (\<lambda>_. pbind (expect_kind TDot ''.'') (\<lambda>_.
       pret (AstModule mk name priority (ps1 @ ps2 @ ps3) imports decls body (between start (span_end close)))))))))))))))))"

text \<open>The entry points; \<open>n\<close> is the fuel, \<open>real_text\<close> and \<open>debug_text\<close> are the standard library's formatters.\<close>

definition parser_new :: "(f64 \<Rightarrow> string) \<Rightarrow> (string \<Rightarrow> string) \<Rightarrow> token list \<Rightarrow> string \<Rightarrow> parser" where
  "parser_new fmt dbg ts src = \<lparr>toks = ts, source = src, pos = 0, real_text = fmt, debug_text = dbg\<rparr>"

definition parse_module_with_source :: "nat \<Rightarrow> (f64 \<Rightarrow> string) \<Rightarrow> (string \<Rightarrow> string) \<Rightarrow> token list \<Rightarrow> string \<Rightarrow>
    parse_failure + ast_module" where
  "parse_module_with_source n fmt dbg ts src =
     rbind (pbind (parse_module n) (\<lambda>m. pbind expect_eof (\<lambda>_. pret m)) (parser_new fmt dbg ts src))
       (\<lambda>(m, _). Inr m)"

definition parse_module_tokens :: "nat \<Rightarrow> (f64 \<Rightarrow> string) \<Rightarrow> (string \<Rightarrow> string) \<Rightarrow> token list \<Rightarrow>
    parse_failure + ast_module" where
  "parse_module_tokens n fmt dbg ts = parse_module_with_source n fmt dbg ts []"

end
