(* ===== verification/ParseDeclSpec.thy ===== *)
theory ParseDeclSpec
  imports ParseDecl ParseStmtSpec
begin

text \<open>
  Adequacy of the fuel for declarations and modules: with more fuel than tokens the parser returns a
  module or an error located at a token; only an assembly body can make it run on or panic.
\<close>

section \<open>Optional items\<close>

text \<open>A routine with an optional result has consumed something when there is one.\<close>

definition outcome_opt :: "parser \<Rightarrow> parse_failure + ('a option \<times> parser) \<Rightarrow> bool" where
  "outcome_opt p r \<longleftrightarrow>
     (case r of Inl e \<Rightarrow> located_at p e | Inr (a, p') \<Rightarrow> moved (if a = None then 0 else 1) p p')"

definition agree_opt :: "(token_kind \<Rightarrow> bool) \<Rightarrow> nat \<Rightarrow> 'a option parse \<Rightarrow> 'a option parse \<Rightarrow> bool" where
  "agree_opt C N m m' \<longleftrightarrow> (\<forall>p. ready p \<and> left p < N \<and> C (cur p) \<longrightarrow> m p = m' p \<and> outcome_opt p (m' p))"

lemma agree_optD:
  "agree_opt C N m m' \<Longrightarrow> ready p \<Longrightarrow> left p < N \<Longrightarrow> C (cur p) \<Longrightarrow> m p = m' p \<and> outcome_opt p (m' p)"
  unfolding agree_opt_def by blast

lemma outcome_optI: "outcome 1 p r \<Longrightarrow> outcome_opt p r"
  by (auto simp: outcome_def outcome_opt_def intro: moved_mono split: sum.splits)

named_theorems opt_rules

lemma agree_opt_agree: "agree C 1 N m m' \<Longrightarrow> agree_opt C N m m'"
  unfolding agree_opt_def using agreeD outcome_optI by blast

lemma agree_opt_none [opt_rules]: "agree_opt C N (pret None) (pret None)"
  by (auto simp: agree_opt_def outcome_opt_def pret_def moved_refl)

lemma agree_opt_if [opt_rules]:
  "(b \<Longrightarrow> agree_opt C N m m') \<Longrightarrow> (\<not> b \<Longrightarrow> agree_opt C N l l') \<Longrightarrow>
     agree_opt C N (if b then m else l) (if b then m' else l')"
  by simp

lemma agree_opt_perr [opt_rules]: "agree_opt C N (perr msg) (perr msg)"
  by (rule agree_opt_agree [OF agree_perr])

lemma agree_opt_peek [opt_rules]:
  assumes "\<And>t. C t \<Longrightarrow> agree_opt (\<lambda>k. k = t) N (f t) (f' t)"
  shows "agree_opt C N (pbind peek_kind f) (pbind peek_kind f')"
  unfolding agree_opt_def using agree_optD [OF assms] by (auto simp: pbind_def)

lemma agree_opt_look [opt_rules]:
  assumes "\<And>a. agree_opt C N (f a) (f' a)"
  shows "agree_opt C N (pbind (peek_kind_at i) f) (pbind (peek_kind_at i) f')"
  unfolding agree_opt_def using agree_optD [OF assms] by (auto simp: pbind_def peek_kind_at_def)

lemma agree_opt_some:
  assumes "agree always 1 n m m'" and "N \<le> n"
  shows "agree_opt C N (pbind m (\<lambda>a. pret (Some (g a)))) (pbind m' (\<lambda>a. pret (Some (g a))))"
  by (rule agree_opt_agree) (intro agree_rules agree_head [OF assms]; simp)

text \<open>An item at the head of a sequence.\<close>

lemma agree_opt_bind:
  assumes m: "agree_opt always n m m'" and N: "N \<le> n" and none: "agree always 0 N (f None) (f' None)"
    and some: "\<And>a. agree always 0 (N - 1) (f (Some a)) (f' (Some a))"
  shows "agree C 0 N (pbind m f) (pbind m' f')"
proof (rule agreeI)
  fix p assume p: "ready p" "left p < N"
  have m': "m p = m' p" "outcome_opt p (m' p)" using agree_optD [OF m p(1)] p(2) N by auto
  show "pbind m f p = pbind m' f' p \<and> outcome 0 p (pbind m' f' p)"
  proof (cases "m p")
    case (Inl e)
    then show ?thesis using m' by (auto simp: pbind_def outcome_def outcome_opt_def)
  next
    case (Inr r)
    obtain a q where r: "m p = Inr (a, q)" using Inr by (cases r) auto
    then have mv: "moved (if a = None then 0 else 1) p q" using m' by (simp add: outcome_opt_def)
    have q: "ready q" "left q < (if a = None then N else N - 1)"
      using moved_ready [OF mv] moved_left [OF mv p(1)] p(2) by (auto split: if_splits)
    have "f a q = f' a q \<and> outcome 0 q (f' a q)"
      using agreeD [OF none q(1)] agreeD [OF some q(1)] q(2) by (cases a) simp_all
    then have "f a q = f' a q" "outcome 0 p (f' a q)"
      using outcome_mono [OF outcome_moved [OF mv], of 0 _ 0] by auto
    then show ?thesis using r m'(1) by (simp add: pbind_def)
  qed
qed

lemma agree_item_loop:
  assumes item: "agree_opt always B item item'"
  shows "agree always 0 (min (min n n') B) (item_loop n mk item) (item_loop n' mk item')"
proof (induction n n' rule: diff_induct)
  case (3 n n')
  show ?case unfolding item_loop.simps
    by (intro agree_head0 [OF agree_collect_pragmas] agree_opt_bind [OF item])
      (simp_all, (intro agree_rules agree_head0 [OF 3]; auto)+)
qed (simp_all add: agree_empty)

section \<open>Imports\<close>

lemma agree_end_name: "agree always 1 N (expect_end_name what name) (expect_end_name what name)"
proof (rule agreeI)
  fix p assume p: "ready p" "left p < N"
  have "outcome 1 p (expect_end_name what name p)"
  proof (cases "ident_of (cur p)")
    case None
    then show ?thesis using agreeD [OF agree_expect_ident p]
      by (cases "expect_ident p")
        (auto simp: expect_end_name_def expect_ident_def pbind_def perr_def pfail_def outcome_def p)
  next
    case (Some x)
    have t: "toks p ! pos p \<in> set (toks p)" using p by (simp add: ready_def)
    have ne: "cur p \<noteq> TEof" using Some by auto
    have b: "bump p = Inr (toks p ! pos p, p\<lparr>pos := pos p + 1\<rparr>)" "ready (p\<lparr>pos := pos p + 1\<rparr>)"
      using bump_ready [OF p(1), unfolded add_Suc_right] ne by auto
    have "expect_ident p = Inr ((x, tok_span (toks p ! pos p)), p\<lparr>pos := pos p + 1\<rparr>)"
      using b p Some by (simp add: expect_ident_def pbind_def pret_def)
    then show ?thesis using b t
      by (auto simp: expect_end_name_def pbind_def perr_at_def pfail_def pret_def outcome_def moved_def)
  qed
  then show "expect_end_name what name p = expect_end_name what name p \<and> outcome 1 p (expect_end_name what name p)"
    by simp
qed

lemmas [agree_rules] = agree_head [OF agree_end_name order_refl]

lemma agree_imported_name: "agree always 1 N imported_name imported_name"
  unfolding imported_name_def by (intro agree_rules) auto

lemma agree_from_names: "agree always 0 (min n n') (from_names n) (from_names n')"
  unfolding from_names_def by (intro agree_rules agree_tail [OF agree_ident_list]) auto

lemma agree_from_import:
  "agree (\<lambda>k. k \<noteq> TEof) 1 (Suc (min n n')) (from_import n) (from_import n')"
  unfolding from_import_def by (intro agree_rules agree_head0 [OF agree_from_names]) auto

lemma agree_plain_import:
  "agree (\<lambda>k. k \<noteq> TEof) 1 (Suc (min n n')) (plain_import n) (plain_import n')"
  unfolding plain_import_def
  by (intro agree_rules agree_head [OF agree_sep_list [OF agree_imported_name [of "min n n'"]]]) auto

lemma agree_imports: "agree always 0 (min n n') (parse_imports n) (parse_imports n')"
proof (induction n n' rule: diff_induct)
  case (3 n n')
  show ?case unfolding parse_imports.simps
    by (intro agree_rules agree_head0 [OF agree_skip_pragmas] agree_bind1 [OF agree_mono [OF agree_from_import]]
        agree_bind1 [OF agree_mono [OF agree_plain_import]] agree_head0 [OF 3]) auto
qed (simp_all add: agree_empty)

section \<open>Assembly bodies\<close>

lemma has_asm_moved: "moved k p q \<Longrightarrow> has_asm q \<longleftrightarrow> has_asm p"
  by (simp add: has_asm_def moved_toks)

text \<open>At the end of the tokens the scan stays where it is: no fuel is enough.\<close>

lemma asm_loop_eof: "ready p \<Longrightarrow> cur p = TEof \<Longrightarrow> asm_loop n name start d p = Inl OutOfFuel"
proof (induction n)
  case (Suc n)
  have "bump p = Inr (toks p ! pos p, p)"
    using Suc.prems by (simp add: bump_def pbind_def peek_token_ready cur_def)
  then show ?case using Suc by (simp add: pbind_def past_end_def ready_def [of p])
qed (simp add: pfail_def)

lemma agree_perr_here [agree_rules]:
  "agree C k N (pbind peek_span (\<lambda>sp. perr_at sp msg)) (pbind peek_span (\<lambda>sp. perr_at sp msg))"
  using agree_perr [of C k N msg] by (simp add: perr_def perr_at_def)

lemma agree_asm_end: "agree (\<lambda>k. k \<noteq> TEof) 1 N (asm_end name) (asm_end name)"
proof -
  have e: "agree always 0 N (asm_end_name name) (asm_end_name name)" for N
    unfolding asm_end_name_def by (intro agree_perr_here agree_rules) auto
  show ?thesis unfolding asm_end_def by (intro agree_rules agree_head0 [OF e order_refl]) auto
qed

lemma asm_loop_agree:
  "ready p \<Longrightarrow> has_asm p \<Longrightarrow> left p < min n n' \<Longrightarrow>
     asm_loop n name start d p = asm_loop n' name start d p \<and> outcome 0 p (asm_loop n' name start d p)"
proof (induction n n' arbitrary: p d rule: diff_induct)
  case (3 n n')
  show ?case
  proof (cases "cur p = TEof")
    case True
    then show ?thesis using asm_loop_eof [OF "3.prems"(1)] "3.prems" by (auto simp: outcome_def simp del: asm_loop.simps)
  next
    case False
    let ?q = "p\<lparr>pos := pos p + 1\<rparr>"
    have b: "bump p = Inr (toks p ! pos p, ?q)" "ready ?q" using bump_ready [OF "3.prems"(1) False] by auto
    have mv: "moved 1 p ?q" using b(2) by (auto simp: moved_def)
    have q: "has_asm ?q" "left ?q < min n n'"
      using "3.prems" has_asm_moved [OF mv] moved_left [OF mv] by auto
    have next_: "asm_loop n name start d' ?q = asm_loop n' name start d' ?q"
      "outcome 0 p (asm_loop n' name start d' ?q)" for d'
      using "3.IH" [OF b(2) q, of d'] outcome_mono [OF outcome_moved [OF mv], of 0] by auto
    have close: "outcome 0 p (asm_end name p)"
      using agreeD [OF agree_asm_end [of "Suc (left p)"] "3.prems"(1) _ False] by (auto intro: outcome_mono)
    have "past_end p = Inr (False, p)" using "3.prems"(1) by (simp add: past_end_def ready_def)
    then show ?thesis using b(1) next_ close "3.prems"(1) by (simp add: pbind_def)
  qed
qed simp_all

text \<open>The offset found is that of a token further on, so the slice of a covering source is in range.\<close>

lemma asm_end_offset: "ready p \<Longrightarrow> asm_end name p = Inr (e, q) \<Longrightarrow> e = offset (span_start (tok_span (toks p ! pos p)))"
  by (auto simp: asm_end_def pbind_def pret_def rbind_eq_Inr split: prod.splits)

lemma asm_loop_offset:
  "asm_loop n name start d p = Inr (e, q) \<Longrightarrow> ready p \<Longrightarrow>
     \<exists>i. pos p \<le> i \<and> i < length (toks p) \<and> e = offset (span_start (tok_span (toks p ! i)))"
proof (induction n arbitrary: d p)
  case (Suc n)
  have ne: "cur p \<noteq> TEof" using Suc.prems asm_loop_eof [OF Suc.prems(2)] by (metis Inl_Inr_False)
  have b: "bump p = Inr (toks p ! pos p, p\<lparr>pos := pos p + 1\<rparr>)" "ready (p\<lparr>pos := pos p + 1\<rparr>)"
    using bump_ready [OF Suc.prems(2) ne] by auto
  have later: ?case if l: "asm_loop n name start d' (p\<lparr>pos := pos p + 1\<rparr>) = Inr (e, q)" for d'
  proof -
    obtain i where "pos p + 1 \<le> i" "i < length (toks p)" "e = offset (span_start (tok_span (toks p ! i)))"
      using Suc.IH [OF l b(2)] by auto
    then show ?thesis by (intro exI [of _ i]) auto
  qed
  have here: ?case if "asm_end name p = Inr (e, q)"
    using asm_end_offset [OF Suc.prems(2) that] Suc.prems(2) by (intro exI [of _ "pos p"]) (auto simp: ready_def)
  have "past_end p = Inr (False, p)" using Suc.prems(2) by (simp add: past_end_def ready_def)
  then show ?case using Suc.prems b later here by (auto simp: pbind_def split: if_splits)
qed (simp add: pfail_def)

lemma covered_slice:
  assumes "covered p" and "i \<le> j" and "j < length (toks p)"
  shows "\<exists>text. source_slice (offset (span_start (tok_span (toks p ! i)))) (offset (span_start (tok_span (toks p ! j)))) p
           = Inr (text, p)"
proof -
  have "offset (span_start (tok_span (toks p ! i))) \<le> offset (span_start (tok_span (toks p ! j)))"
    using assms sorted_nth_mono [of "map (offset \<circ> span_start \<circ> tok_span) (toks p)" i j] by (simp add: covered_def)
  then show ?thesis using assms by (simp add: source_slice_def covered_def)
qed

lemma agree_asm_body:
  "agree (\<lambda>k. k = TKeyword KAsm) 1 (Suc (min n n')) (asm_body n name start) (asm_body n' name start)"
proof (rule agreeI)
  fix p assume p: "ready p" "left p < Suc (min n n')" "cur p = TKeyword KAsm"
  let ?q = "p\<lparr>pos := pos p + 1\<rparr>" and ?s = "offset (span_start (tok_span (toks p ! (pos p + 1))))"
  have asm: "has_asm p" unfolding has_asm_def
    using p by (auto simp: cur_def ready_def intro!: image_eqI [of _ _ "toks p ! pos p"])
  have b: "bump p = Inr (toks p ! pos p, ?q)" "ready ?q" using bump_ready [OF p(1)] p(3) by auto
  have mv: "moved 1 p ?q" using b(2) by (auto simp: moved_def)
  have q: "has_asm ?q" "left ?q < min n n'" using asm p has_asm_moved [OF mv] moved_left [OF mv p(1)] by auto
  have l: "asm_loop n name start 0 ?q = asm_loop n' name start 0 ?q" "outcome 0 ?q (asm_loop n' name start 0 ?q)"
    using asm_loop_agree [OF b(2) q] by auto
  have slice: "outcome 0 ?q (pbind (asm_loop n' name start 0) (source_slice ?s) ?q)"
  proof (cases "asm_loop n' name start 0 ?q")
    case (Inr r)
    then obtain e r' where r: "asm_loop n' name start 0 ?q = Inr (e, r')" by (cases r) auto
    then have m: "moved 0 ?q r'" using l(2) by (simp add: outcome_def)
    obtain i where i: "pos p + 1 \<le> i" "i < length (toks p)" "e = offset (span_start (tok_span (toks p ! i)))"
      using asm_loop_offset [OF r b(2)] by auto
    have t: "toks r' = toks p" "source r' = source p" "has_asm r'"
      using moved_toks [OF m] moved_source [OF m] has_asm_moved [OF m] q(1) by auto
    have "outcome 0 ?q (source_slice ?s e r')"
    proof (cases "covered r'")
      case True
      then show ?thesis using covered_slice [of r' "pos p + 1" i] i t m by (auto simp: outcome_def)
    next
      case False
      then have "\<not> covered ?q" using t by (simp add: covered_def)
      then show ?thesis using m q(1) by (auto simp: outcome_def source_slice_def)
    qed
    then show ?thesis using r by (simp add: pbind_def)
  qed (use l in \<open>simp add: pbind_def outcome_def\<close>)
  then have out: "outcome 1 p (pbind (asm_loop n' name start 0) (source_slice ?s) ?q)"
    using outcome_moved [OF mv slice] by simp
  show "asm_body n name start p = asm_body n' name start p \<and> outcome 1 p (asm_body n' name start p)"
    unfolding asm_body_def using b out l(1) by (simp add: pbind_def)
qed

section \<open>Declarations\<close>

lemma agree_skip_qualifiers: "agree always 0 (min n n') (skip_qualifiers n) (skip_qualifiers n')"
proof (induction n n' rule: diff_induct)
  case (3 n n')
  show ?case unfolding skip_qualifiers.simps by (intro agree_rules agree_tail [OF 3]) auto
qed (simp_all add: agree_empty)

lemma agree_skip_parens: "agree always 0 (min n n') (skip_parens_to n d) (skip_parens_to n' d)"
proof (induction n n' arbitrary: d rule: diff_induct)
  case (3 n n')
  show ?case unfolding skip_parens_to.simps by (intro agree_rules agree_tail [OF 3]) auto
qed (simp_all add: agree_empty)

lemma agree_skip_assert: "agree (\<lambda>k. k \<noteq> TEof) 1 (Suc (min n n')) (skip_assert n) (skip_assert n')"
proof -
  have a: "agree always 0 (min n n') (if b then skip_parens_to n 1 else pret ()) (if b then skip_parens_to n' 1 else pret ())" for b
    by (intro agree_rules agree_tail [OF agree_skip_parens]) auto
  show ?thesis unfolding skip_assert_def by (intro agree_rules agree_head0 [OF agree_eats(1) order_refl] agree_head0 [OF a]) auto
qed

lemma agree_link_brackets: "agree always 0 (min n n') (link_brackets n) (link_brackets n')"
  unfolding link_brackets_def by (intro agree_rules agree_tail [OF agree_skip_brackets]) auto

lemma agree_more_var_names: "agree always 0 (min n n') (more_var_names n) (more_var_names n')"
proof (induction n n' rule: diff_induct)
  case (3 n n')
  show ?case unfolding more_var_names.simps
    by (intro agree_rules agree_head0 [OF agree_eats(1) order_refl] agree_head0 [OF agree_link_brackets] agree_head0 [OF 3]) auto
qed (simp_all add: agree_empty)

lemma agree_export: "agree (\<lambda>k. k \<noteq> TEof) 1 (Suc (min n n')) (export_decl n) (export_decl n')"
  unfolding export_decl_def
  by (intro agree_rules agree_head0 [OF agree_eats(2) order_refl] agree_head [OF agree_ident_list]) auto

lemma agree_iid: "agree always 0 N optional_iid_text optional_iid_text"
  unfolding optional_iid_text_def by (intro agree_rules) auto

lemma agree_class_kind: "agree always 1 N class_kind_kw class_kind_kw"
  unfolding class_kind_kw_def by (intro agree_rules) auto

lemma agree_inherit: "agree always 0 (min n n') (optional_inherit n) (optional_inherit n')"
  unfolding optional_inherit_def by (intro agree_rules agree_head [OF agree_qual_name]) auto

lemma agree_implements: "agree always 0 (min n n') (optional_implements n) (optional_implements n')"
  unfolding optional_implements_def
  by (intro agree_rules agree_head [OF agree_qual_name] agree_head0 [OF agree_more_qual_names]) auto

lemma agree_reveal: "agree always 0 (min n n') (optional_reveal n) (optional_reveal n')"
proof -
  have i: "agree always 1 (min n n') (pbind (eat_soft_kw ''READONLY'') (\<lambda>_. pbind expect_ident (\<lambda>(x, _). pret x)))
      (pbind (eat_soft_kw ''READONLY'') (\<lambda>_. pbind expect_ident (\<lambda>(x, _). pret x)))"
    by (intro agree_head0 [OF agree_eats(3) order_refl] agree_rules) auto
  show ?thesis unfolding optional_reveal_def parse_reveal_list_def
    by (intro agree_rules agree_head [OF agree_sep_list [OF i]]) auto
qed

lemma agree_linkage: "agree always 0 N parse_proc_external_linkage parse_proc_external_linkage"
proof -
  have d: "agree always 0 N from_dll from_dll" for N unfolding from_dll_def by (intro agree_rules) auto
  have "agree always 1 N external_linkage external_linkage"
    unfolding external_linkage_def by (intro agree_rules agree_head0 [OF agree_eats(3) order_refl] agree_head0 [OF d order_refl]) auto
  then show ?thesis unfolding parse_proc_external_linkage_def
    by (intro agree_look [OF looks_cursor(8)] agree_rules agree_head [of N external_linkage]) auto
qed

lemma agree_param_mode: "agree always 0 N parse_param_mode parse_param_mode"
  unfolding parse_param_mode_def by (intro agree_rules agree_head0 [OF agree_out_or_inout order_refl]) auto

lemma agree_semicolon_or_comma: "agree always 0 N semicolon_or_comma semicolon_or_comma"
  unfolding semicolon_or_comma_def by (intro agree_rules) auto

lemma agree_ellipsis [agree_rules]:
  assumes "agree (\<lambda>k. k = TDotDot) k N (f True) (f' True)" and "agree C k N (f False) (f' False)"
  shows "agree C k N (pbind at_ellipsis f) (pbind at_ellipsis f')"
proof (rule agreeI)
  fix p assume p: "ready p" "left p < N" "C (cur p)"
  obtain b where b: "at_ellipsis p = Inr (b, p)" "b \<Longrightarrow> cur p = TDotDot"
    using p(1) by (auto simp: at_ellipsis_def pbind_def pret_def peek_kind_at_def)
  show "pbind at_ellipsis f p = pbind at_ellipsis f' p \<and> outcome k p (pbind at_ellipsis f' p)"
    using agreeD [OF assms(1) p(1,2)] agreeD [OF assms(2) p] b by (cases b) (simp_all add: pbind_def)
qed

text \<open>The parsers the declarations use: those of the statements, and types and declaration lists.\<close>

locale declaration_parsers = statement_parsers B E E' S S'
  for B :: nat and E E' :: "expr parse" and S S' :: "stmt list parse" +
  fixes T T' :: "type_expr parse" and D D' :: "bool \<Rightarrow> decl list parse"
  assumes T: "agree always 1 B T T'" and D: "agree always 0 B (D b) (D' b)"
begin

lemma agree_priority: "agree always 0 (Suc B) (optional_priority E) (optional_priority E')"
  unfolding optional_priority_def by (intro agree_rules agree_head [OF E]) auto

lemma agree_block: "agree always 0 (min (min n n') B) (block_of n S start) (block_of n' S' start)"
  unfolding block_of_def by (intro agree_head0 [OF S] agree_tail [OF agree_finish_block]) auto

lemma agree_body: "agree always 0 (Suc (min (min n n') B)) (optional_body n S start) (optional_body n' S' start)"
  unfolding optional_body_def by (intro agree_rules agree_head0 [OF agree_block]) auto

lemma agree_body_or_empty:
  "agree always 0 (Suc (min (min n n') B)) (body_or_empty n S start) (body_or_empty n' S' start)"
  unfolding body_or_empty_def by (intro agree_rules agree_tail [OF agree_block]) auto

lemma agree_proc_body:
  "agree always 1 (min (min n n') B) (parse_proc_body n S D what name start) (parse_proc_body n' S' D' what name start)"
  unfolding parse_proc_body_def by (intro agree_head0 [OF D] agree_head0 [OF agree_body_or_empty] agree_rules) auto

lemma agree_optional_type: "agree always 0 (Suc B) (optional_type T) (optional_type T')"
  unfolding optional_type_def by (intro agree_rules agree_head [OF T]) auto

lemma agree_const_decl: "agree always 1 (Suc B) (const_decl_at E T) (const_decl_at E' T')"
  unfolding const_decl_at_def
  by (intro agree_rules agree_head0 [OF agree_eats(1) order_refl] agree_head0 [OF agree_optional_type] agree_head [OF E]) auto

lemma agree_const_opt: "agree_opt always (Suc B) (parse_const_decl_opt E T) (parse_const_decl_opt E' T')"
  unfolding parse_const_decl_opt_def by (intro opt_rules agree_opt_some [OF agree_const_decl]) auto

lemma agree_type_decl: "agree always 1 (Suc B) (type_decl_at T) (type_decl_at T')"
  unfolding type_decl_at_def
  by (intro agree_rules agree_head0 [OF agree_eats(1) order_refl] agree_head [OF T]) auto

lemma agree_type_opt: "agree_opt always (Suc B) (parse_type_decl_opt T) (parse_type_decl_opt T')"
  unfolding parse_type_decl_opt_def by (intro opt_rules agree_opt_some [OF agree_type_decl]) auto

lemma agree_initializer: "agree always 0 B (var_initializer E) (var_initializer E')"
  unfolding var_initializer_def by (intro agree_rules agree_head [OF E]) auto

lemma agree_var_decl: "agree always 1 (min (min n n') B) (var_decl_at n E T) (var_decl_at n' E' T')"
  unfolding var_decl_at_def
  by (intro agree_rules agree_head0 [OF agree_collect_pragmas] agree_head0 [OF agree_eats(1) order_refl]
      agree_head0 [OF agree_link_brackets] agree_head0 [OF agree_more_var_names] agree_head0 [OF agree_priority]
      agree_head [OF T] agree_head0 [OF agree_initializer]) auto

lemma agree_var_opt: "agree_opt always (min (min n n') B) (parse_var_decl_opt n E T) (parse_var_decl_opt n' E' T')"
  unfolding parse_var_decl_opt_def by (intro opt_rules agree_opt_some [OF agree_var_decl]) auto

lemma agree_param: "agree always 1 (min (min n n') B) (parse_param n T) (parse_param n' T')"
  unfolding parse_param_def
  by (intro agree_rules agree_head0 [OF agree_collect_pragmas] agree_head0 [OF agree_param_mode order_refl]
      agree_head [OF agree_ident_list] agree_head [OF T]) auto

lemma agree_proc_params: "agree always 0 (min (min n n') B) (proc_params n T) (proc_params n' T')"
proof (induction n n' rule: diff_induct)
  case (3 n n')
  have e: "agree (\<lambda>k. k = TDotDot) 0 N (pbind eat_ellipsis (\<lambda>_. pret x)) (pbind eat_ellipsis (\<lambda>_. pret x))" for N x
  proof -
    have "agree always 0 N (pbind bump (\<lambda>_. pret x)) (pbind bump (\<lambda>_. pret x))" for N
      by (rule agree_bind0 [OF agree_bump0 agree_ret])
    note twice = agree_bump_bind [OF _ this]
    show ?thesis unfolding eat_ellipsis_def pbind_assoc pbind_ret by (rule twice) auto
  qed
  show ?case unfolding proc_params.simps
    by (intro agree_ellipsis agree_rules e agree_head [OF agree_param] agree_head0 [OF agree_semicolon_or_comma order_refl]
        agree_head0 [OF 3]) auto
qed (simp_all add: agree_empty)

lemma agree_proc_param_list: "agree always 0 (Suc (min (min n n') B)) (proc_param_list n T) (proc_param_list n' T')"
  unfolding proc_param_list_def by (intro agree_rules agree_head0 [OF agree_proc_params]) auto

lemma agree_method_params: "agree always 0 (min (min n n') B) (method_params n T) (method_params n' T')"
proof (induction n n' rule: diff_induct)
  case (3 n n')
  show ?case unfolding method_params.simps
    by (intro agree_rules agree_head [OF agree_param] agree_head0 [OF agree_semicolon_or_comma order_refl] agree_head0 [OF 3])
      auto
qed (simp_all add: agree_empty)

lemma agree_method_param_list:
  "agree always 0 (Suc (min (min n n') B)) (method_param_list n T) (method_param_list n' T')"
  unfolding method_param_list_def by (intro agree_rules agree_head0 [OF agree_method_params]) auto

text \<open>Procedures and methods.\<close>

lemma agree_optional_proc_body:
  "agree always 0 (min (min n n') B) (optional_proc_body n S D name start a) (optional_proc_body n' S' D' name start a)"
  unfolding optional_proc_body_def by (intro agree_rules agree_head [OF agree_proc_body]) auto

lemma agree_macro: "agree always 0 N (macro_allows a) (macro_allows a)"
  unfolding macro_allows_def by (intro agree_rules) auto

lemma agree_after_header:
  "agree always 0 (min (min n n') B) (after_header n S D name start a) (after_header n' S' D' name start a)"
  unfolding after_header_def
  by (intro agree_rules agree_bind1 [OF agree_mono [OF agree_asm_body]] agree_head0 [OF agree_macro order_refl]
      agree_head0 [OF agree_optional_proc_body]) auto

lemma agree_proc_tail:
  "agree always 0 (min (min n n') B) (proc_tail n S D name start a) (proc_tail n' S' D' name start a)"
  unfolding proc_tail_def
  by (intro agree_rules agree_head [OF agree_qual_name] agree_tail [OF agree_after_header]) auto

lemma agree_procedure:
  "agree always 1 (Suc (min (min n n') B)) (parse_procedure_decl n T S D a) (parse_procedure_decl n' T' S' D' a)"
  unfolding parse_procedure_decl_def
  by (intro agree_rules agree_head0 [OF agree_skip_qualifiers] agree_head0 [OF agree_eats(1) order_refl]
      agree_head0 [OF agree_linkage order_refl] agree_head0 [OF agree_proc_param_list]
      agree_head0 [OF agree_optional_result [OF T]] agree_head0 [OF agree_proc_attrs]
      agree_head0 [OF agree_collect_pragmas] agree_head0 [OF agree_proc_tail]) auto

lemma agree_method_body:
  "agree always 0 (min (min n n') B) (method_body n S D name start a) (method_body n' S' D' name start a)"
  unfolding method_body_def by (intro agree_rules agree_head [OF agree_proc_body]) auto

lemma agree_method:
  "agree always 1 (Suc (min (min n n') B)) (parse_method_decl n T S D v w a) (parse_method_decl n' T' S' D' v w a)"
  unfolding parse_method_decl_def
  by (intro agree_rules agree_head0 [OF agree_method_param_list] agree_head0 [OF agree_optional_result [OF T]]
      agree_head0 [OF agree_proc_attrs] agree_head0 [OF agree_collect_pragmas] agree_head0 [OF agree_method_body]) auto

end

section \<open>Classes\<close>

lemma looks_boundary: "looks at_class_member_boundary"
  by (auto simp: looks_def at_class_member_boundary_def pbind_def pret_def)

lemma agree_class_fields:
  assumes V: "agree_opt always B V V'"
  shows "agree always 0 (min (min n n') B) (class_fields n V) (class_fields n' V')"
proof (induction n n' rule: diff_induct)
  case (3 n n')
  show ?case unfolding class_fields.simps
    by (intro agree_look [OF looks_boundary] agree_if agree_ret agree_opt_bind [OF V])
      (simp_all, (intro agree_rules agree_head0 [OF 3]; auto)+)
qed (simp_all add: agree_empty)

text \<open>What the class parser uses: an optional field and a method.\<close>

locale member_parsers =
  fixes B :: nat and V V' :: "var_decl option parse" and M M' :: "bool \<Rightarrow> bool \<Rightarrow> method_decl parse"
  assumes V: "agree_opt always B V V'" and M: "agree always 1 (Suc B) (M a b) (M' a b)"
begin

lemma agree_class_item:
  "agree_opt always (Suc (min (min n n') B)) (class_item n V M ckind) (class_item n' V' M' ckind)"
proof -
  have f: "agree (\<lambda>k. k = TKeyword KVar) 1 (Suc (min (min n n') B))
      (pbind bump (\<lambda>_. pbind (class_fields n V) (\<lambda>vs. pret (Some vs))))
      (pbind bump (\<lambda>_. pbind (class_fields n' V') (\<lambda>vs. pret (Some vs))))"
    by (intro agree_rules agree_head0 [OF agree_class_fields [OF V]]) auto
  have m: "agree (\<lambda>k. k \<noteq> TEof) 1 (Suc B) (pbind bump (\<lambda>_. pbind (M a b) (\<lambda>m. pret (Some [MMethod m]))))
      (pbind bump (\<lambda>_. pbind (M' a b) (\<lambda>m. pret (Some [MMethod m]))))" for a b
    by (intro agree_rules agree_head [OF M]) auto
  have p: "agree always 1 (Suc B) (pbind (M a b) (\<lambda>m. pret (Some [MMethod m]))) (pbind (M' a b) (\<lambda>m. pret (Some [MMethod m])))"
    for a b by (intro agree_head [OF M] agree_rules) auto
  show ?thesis unfolding class_item_def Let_def
    by (intro opt_rules agree_opt_agree agree_mono [OF f] agree_mono [OF m] agree_mono [OF p]) auto
qed

lemma agree_class_rest:
  "agree always 1 (min (min n n') B) (class_rest n V M name ckind ab iid ex start) (class_rest n' V' M' name ckind ab iid ex start)"
  unfolding class_rest_def
  by (intro agree_head0 [OF agree_inherit] agree_head0 [OF agree_implements] agree_head0 [OF agree_reveal]
      agree_head0 [OF agree_item_loop [OF agree_class_item]] agree_rules) auto

lemma agree_class_decl: "agree always 1 (Suc (min (min n n') B)) (parse_class_decl n V M) (parse_class_decl n' V' M')"
  unfolding parse_class_decl_def Let_def
  by (intro agree_look [OF looks_cursor(1)] agree_head0 [OF agree_eats(2) order_refl]
      agree_head [OF agree_class_kind order_refl] agree_rules agree_head0 [OF agree_eats(1) order_refl]
      agree_head0 [OF agree_iid order_refl] agree_tail [OF agree_class_rest]) auto

end

section \<open>Declaration lists\<close>

lemma agree_section_item:
  "agree_opt always B item item' \<Longrightarrow> agree_opt always B (section_item mk item) (section_item mk item')"
proof -
  assume i: "agree_opt always B item item'"
  have "section_item mk item p = section_item mk item' p \<and> outcome_opt p (section_item mk item' p)"
    if p: "ready p" "left p < B" for p
    using agree_optD [OF i p] by (cases "item' p") (auto simp: section_item_def pbind_def pret_def outcome_opt_def split: option.splits)
  then show ?thesis by (simp add: agree_opt_def)
qed

lemma agree_decl_section:
  assumes i: "agree_opt always B item item'"
  shows "agree (\<lambda>k. k \<noteq> TEof) 1 (Suc (min (min n n') B)) (decl_section n mk item) (decl_section n' mk item')"
  unfolding decl_section_def
  by (intro agree_rules agree_head0 [OF agree_item_loop [OF agree_section_item [OF i]]]) auto

context declaration_parsers
begin

lemma agree_local_module:
  "agree always 1 (Suc (min (min n n') B)) (parse_local_module n E S D) (parse_local_module n' E' S' D')"
  unfolding parse_local_module_def
  by (intro agree_rules agree_head0 [OF agree_priority] agree_head0 [OF agree_collect_pragmas]
      agree_head0 [OF agree_imports] agree_head0 [OF D] agree_head0 [OF agree_body]) auto

lemma agree_top_item:
  "agree_opt always (Suc (min (min n n') B)) (top_item n E T S D b) (top_item n' E' T' S' D' b)"
proof -
  have members: "member_parsers (min (min n n') B) (parse_var_decl_opt n E T) (parse_var_decl_opt n' E' T')
      (\<lambda>abs ovr. parse_method_decl n T S D abs ovr b) (\<lambda>abs ovr. parse_method_decl n' T' S' D' abs ovr b)"
    by (rule member_parsers.intro [OF agree_var_opt agree_method])
  note c = member_parsers.agree_class_decl [OF members, of n n']
  note s1 = agree_decl_section [OF agree_const_opt, of n n'] and s2 = agree_decl_section [OF agree_type_opt, of n n']
    and s3 = agree_decl_section [OF agree_var_opt [of n n'], of n n']
  have a: "agree (\<lambda>k. k \<noteq> TEof) 1 (Suc (min n n')) (pbind (skip_assert n) (\<lambda>_. pret (Some [])))
      (pbind (skip_assert n') (\<lambda>_. pret (Some [])))"
    by (intro agree_bind1 [OF agree_skip_assert] agree_rules) simp
  have e: "agree (\<lambda>k. k \<noteq> TEof) 1 (Suc (min n n')) (pbind (export_decl n) (\<lambda>d. pret (Some [d])))
      (pbind (export_decl n') (\<lambda>d. pret (Some [d])))"
    by (intro agree_bind1 [OF agree_export] agree_rules) simp
  show ?thesis unfolding top_item_def Let_def
    by (intro opt_rules agree_opt_agree [OF agree_mono [OF s1]] agree_opt_agree [OF agree_mono [OF s2]]
        agree_opt_agree [OF agree_mono [OF s3]] agree_opt_some [OF agree_procedure] agree_opt_some [OF agree_local_module]
        agree_opt_some [OF c] agree_opt_agree [OF agree_mono [OF a]] agree_opt_agree [OF agree_mono [OF e]]) auto
qed

end

lemma agree_parse_type: "agree always 1 (min n n') (parse_type_expr n) (parse_type_expr n')"
  using agree_expr_and_type by blast

lemma agree_top_decls: "agree always 0 (min n n') (parse_top_decls n b) (parse_top_decls n' b)"
proof (induction n n' arbitrary: b rule: diff_induct)
  case (3 n n')
  have env: "declaration_parsers (min n n') (parse_expr n) (parse_expr n') (parse_stmt_seq n) (parse_stmt_seq n')
      (parse_type_expr n) (parse_type_expr n') (parse_top_decls n) (parse_top_decls n')"
    by (intro declaration_parsers.intro declaration_parsers_axioms.intro statement_parsers.intro
        agree_parse_expr agree_stmt_seq agree_parse_type 3)
  show ?case
    using agree_item_loop [OF declaration_parsers.agree_top_item [OF env, of n n' b], of "Suc n" "Suc n'" DPragma]
    by (simp del: item_loop.simps)
qed (simp_all add: agree_empty)

interpretation decls: declaration_parsers "min n n'" "parse_expr n" "parse_expr n'" "parse_stmt_seq n" "parse_stmt_seq n'"
  "parse_type_expr n" "parse_type_expr n'" "parse_top_decls n" "parse_top_decls n'"
  for n n' :: nat
  by (intro declaration_parsers.intro declaration_parsers_axioms.intro statement_parsers.intro
      agree_parse_expr agree_stmt_seq agree_parse_type agree_top_decls)

interpretation members: member_parsers "min n n'" "parse_var_decl_opt n (parse_expr n) (parse_type_expr n)"
  "parse_var_decl_opt n' (parse_expr n') (parse_type_expr n')"
  "\<lambda>abs ovr. parse_method_decl n (parse_type_expr n) (parse_stmt_seq n) (parse_top_decls n) abs ovr b"
  "\<lambda>abs ovr. parse_method_decl n' (parse_type_expr n') (parse_stmt_seq n') (parse_top_decls n') abs ovr b"
  for n n' :: nat and b :: bool
  by (rule member_parsers.intro) (use decls.agree_var_opt [of n n' n n'] decls.agree_method [of n n' n n'] in simp_all)

section \<open>Modules\<close>

lemma agree_module_kind: "agree always 1 N module_kind_kw module_kind_kw"
  unfolding module_kind_kw_def by (intro agree_rules) auto

lemma agree_module_content: "agree always 0 (min n n') (module_content n mk start) (module_content n' mk start)"
  unfolding module_content_def
  by (intro agree_rules agree_head0 [OF agree_top_decls] agree_head0 [OF decls.agree_body]) auto

lemma agree_module: "agree always 1 (min n n') (parse_module n) (parse_module n')"
  unfolding parse_module_def
  by (intro agree_head0 [OF agree_collect_pragmas] agree_head0 [OF agree_eats(3) order_refl] agree_look [OF looks_cursor(1)]
      agree_head [OF agree_module_kind order_refl] agree_rules agree_head0 [OF decls.agree_priority]
      agree_head0 [OF agree_imports] agree_head0 [OF agree_module_content]) auto

lemma agree_whole_module:
  "agree always 1 (min n n') (pbind (parse_module n) (\<lambda>m. pbind expect_eof (\<lambda>_. pret m)))
     (pbind (parse_module n') (\<lambda>m. pbind expect_eof (\<lambda>_. pret m)))"
proof -
  have e: "agree always 0 N expect_eof expect_eof" for N
    unfolding expect_eof_def by (intro agree_rules)
  show ?thesis by (intro agree_head [OF agree_module order_refl] agree_head0 [OF e order_refl] agree_rules order_refl)
qed

end
