(* ===== verification/ParserReturns.thy ===== *)
theory ParserReturns
  imports ParseDeclSpec LexerSpec
begin

text \<open>
  The parser on the lexer's tokens: it returns, with a module or an error located in the text; except
  that an assembly body without its \<open>END\<close> keeps it running for ever.
\<close>

section \<open>The tokens of a text\<close>

abbreviation start_of :: "token \<Rightarrow> nat" where
  "start_of t \<equiv> offset (span_start (tok_span t))"

lemma chain_covers:
  "token_chain src a ts \<Longrightarrow>
     sorted (map start_of ts) \<and> (\<forall>t \<in> set ts. a \<le> start_of t \<and> start_of t \<le> length src)"
proof (induction src a ts rule: token_chain.induct)
  case (2 src a t ts)
  have l: "start_of t \<le> length src" using "2.prems" by (auto simp: located_def)
  show ?case
  proof (cases "kind t = TEof")
    case True
    then show ?thesis using 2 l by auto
  next
    case False
    then have "offset (span_end (tok_span t)) \<le> start_of u" "start_of u \<le> length src" if "u \<in> set ts" for u
      using that 2 by auto
    then show ?thesis using False 2 l by fastforce
  qed
qed simp

lemma chain_located:
  "token_chain src a ts \<Longrightarrow> t \<in> set ts \<Longrightarrow> located src (span_start (tok_span t)) \<and> located src (span_end (tok_span t))"
  by (induction src a ts rule: token_chain.induct) (auto split: if_splits)

lemma tokenized_chain: "tokenize text = Inr ts \<Longrightarrow> token_chain text 0 ts"
  using tokens_from_chain [of "lexer_new text" ts] by (simp add: tokenize_def)

lemma tokenized_ready:
  assumes "tokenize text = Inr ts"
  shows "ready (parser_new fmt dbg ts src)"
  using token_chain_shape [OF tokenized_chain [OF assms]] by (auto simp: ready_def parser_new_def)

lemma parser_outcome:
  assumes "tokenize text = Inr ts" and "length ts \<le> n"
  shows "parse_module_with_source n fmt dbg ts src = parse_module_with_source (length ts) fmt dbg ts src \<and>
    (case parse_module_with_source n fmt dbg ts src of
       Inr m \<Rightarrow> True
     | Inl (ParseError msg sp) \<Rightarrow> located text (span_start sp) \<and> located text (span_end sp)
     | Inl IndexPanic \<Rightarrow> TKeyword KAsm \<in> kind ` set ts \<and> src \<noteq> text
     | Inl OutOfFuel \<Rightarrow> TKeyword KAsm \<in> kind ` set ts)"
proof -
  let ?p = "parser_new fmt dbg ts src" and ?m = "\<lambda>n. pbind (parse_module n) (\<lambda>m. pbind expect_eof (\<lambda>_. pret m))"
  note chain = tokenized_chain [OF assms(1)] and ready = tokenized_ready [OF assms(1), of fmt dbg src]
  have "left ?p < min n (length ts)" using ready assms(2) by (auto simp: left_def parser_new_def ready_def)
  then have m: "?m n ?p = ?m (length ts) ?p" "outcome 1 ?p (?m n ?p)"
    using agreeD [OF agree_whole_module ready] by auto
  have cov: "covered ?p" if "src = text"
    using chain_covers [OF chain] that by (simp add: covered_def parser_new_def comp_def)
  have loc: "located text (span_start (tok_span t)) \<and> located text (span_end (tok_span t))" if "t \<in> set ts" for t
    using chain_located [OF chain that] .
  show ?thesis using m loc cov
    by (auto simp: parse_module_with_source_def outcome_def has_asm_def parser_new_def split: sum.splits parse_failure.splits)
qed



section \<open>An assembly body without its end\<close>

lemma asm_loop_runs_on:
  "ready p \<Longrightarrow> TKeyword KEnd \<notin> set (map kind (drop (pos p) (toks p))) \<Longrightarrow> asm_loop n name start d p = Inl OutOfFuel"
proof (induction n arbitrary: d p)
  case (Suc n)
  have "toks p ! pos p \<in> set (drop (pos p) (toks p))"
    using Suc.prems(1) by (auto simp: ready_def set_conv_nth intro!: exI [of _ 0])
  then have ne: "cur p \<noteq> TKeyword KEnd" using Suc.prems(2) by (auto simp: cur_def intro: rev_image_eqI)
  show ?case
  proof (cases "cur p = TEof")
    case True
    then show ?thesis using asm_loop_eof [OF Suc.prems(1)] by blast
  next
    case False
    let ?q = "p\<lparr>pos := pos p + 1\<rparr>"
    have b: "bump p = Inr (toks p ! pos p, ?q)" "ready ?q" using bump_ready [OF Suc.prems(1) False] by auto
    have "set (drop (pos p + 1) (toks p)) \<subseteq> set (drop (pos p) (toks p))"
      by (rule set_drop_subset_set_drop) simp
    then have "asm_loop n name start d' ?q = Inl OutOfFuel" for d'
      using Suc.IH [OF b(2)] Suc.prems(2) by auto
    moreover have "past_end p = Inr (False, p)" using Suc.prems(1) by (simp add: past_end_def ready_def)
    ultimately show ?thesis using ne b(1) Suc.prems(1) by (simp add: pbind_def)
  qed
qed (simp add: pfail_def)

lemmas run_defs =
  pbind_def pret_def peek_kind_def peek_token_def peek_span_def token_at_def bump_def eat_soft_kw_def eat_kind_def eat_kw_def
  at_kind_def at_kw_def expect_kind_def expect_kw_def expect_ident_def string_at_def peek_kind_at_def

text \<open>
  A procedure whose assembly body has no \<open>END\<close> keeps the parser running for ever: the end-of-file
  token is never passed, so the test for the end of the tokens is never true.
\<close>

theorem asm_without_end_runs_on:
  assumes "map kind ts = [TKeyword KModule, TIdent m, TSemicolon, TKeyword KProcedure, TIdent f, TSemicolon, TKeyword KAsm]
             @ ks @ [TEof]"
    and "TKeyword KEnd \<notin> set ks" and "f \<notin> {''__BUILTIN__'', ''__INLINE__''}" and "length ts \<le> n"
  shows "parse_module_with_source n fmt dbg ts src = Inl OutOfFuel"
proof -
  obtain t0 t1 t2 t3 t4 t5 t6 us e where
    ts: "ts = t0 # t1 # t2 # t3 # t4 # t5 # t6 # us @ [e]" and
    k: "kind t0 = TKeyword KModule" "kind t1 = TIdent m" "kind t2 = TSemicolon" "kind t3 = TKeyword KProcedure"
      "kind t4 = TIdent f" "kind t5 = TSemicolon" "kind t6 = TKeyword KAsm" "map kind us = ks" "kind e = TEof"
    using assms(1) by (auto simp: map_eq_Cons_conv map_eq_append_conv)
  obtain j where n: "n = Suc (Suc j)" using assms(4) ts by (cases n; cases "n - 1") auto
  let ?p = "\<lambda>i. \<lparr>toks = ts, source = src, pos = i, real_text = fmt, debug_text = dbg\<rparr>"
  have body: "asm_loop i name start d (?p 7) = Inl OutOfFuel" for i name start d
    using asm_loop_runs_on [of "?p 7"] ts k assms(2) by (auto simp: ready_def)
  have "asm_body i f start (?p 6) = Inl OutOfFuel" for i start
    using body ts k by (simp add: asm_body_def run_defs)
  then have "parse_procedure_decl (Suc j) T S D b (?p 3) = Inl OutOfFuel" for T S D b
    using ts k assms(3)
    by (simp add: parse_procedure_decl_def proc_tail_def after_header_def parse_proc_external_linkage_def proc_param_list_def
        optional_result_def parse_proc_attrs_def run_defs)
  then have "parse_top_decls (Suc (Suc j)) True (?p (Suc (Suc (Suc 0)))) = Inl OutOfFuel"
    using ts k by (simp add: top_item_def Let_def run_defs numeral_3_eq_3)
  then show ?thesis
    using ts k n by (simp add: parse_module_with_source_def parser_new_def parse_module_def module_kind_kw_def optional_priority_def
        module_content_def skip_pragmas_def run_defs del: parse_top_decls.simps)
qed

theorem asm_without_end_runs_on_witness:
  "parse_module_with_source 100 (\<lambda>v. []) (\<lambda>k. [])
     (map (\<lambda>k. \<lparr>kind = k, tok_span = \<lparr>span_start = START, span_end = START\<rparr>\<rparr>)
        [TKeyword KModule, TIdent ''M'', TSemicolon, TKeyword KProcedure, TIdent ''P'', TSemicolon, TKeyword KAsm,
         TIdent ''ret'', TEof]) [] = Inl OutOfFuel"
  by (rule asm_without_end_runs_on [where ks = "[TIdent ''ret'']" and m = "''M''" and f = "''P''"]) simp_all

end
