(* ===== verification/HeapGuard.thy ===== *)
theory HeapGuard
  imports Prelude
begin

text \<open>
  The manual heap of the runtime (\<open>newm2-runtime/src/heap.rs\<close>): the counters, the counting Bloom
  filter that guards \<open>DISPOSE\<close>, allocation and release, the report at exit, and the state machine
  that decides once whether the guard is on. The OS heap is a parameter of each call: \<open>nm2_alloc\<close>
  receives the pointer and usable size the OS returned, \<open>nm2_free\<close> the usable size of the block,
  and \<open>nm2_free\<close> says whether it handed the block back. Calls are atomic here, as they are for a
  program with one thread; the decision whether the guard is on is modelled step by step, with any
  number of threads.
\<close>

unbundle bit_operations_syntax

section \<open>Counters\<close>

record heap_stats =
  alloc_blocks :: u64
  alloc_bytes :: u64
  free_blocks :: u64
  free_bytes :: u64
  live_blocks :: u64
  live_bytes :: u64
  peak_live_bytes :: u64

definition heap_stats_new :: heap_stats where
  "heap_stats_new = \<lparr>alloc_blocks = 0, alloc_bytes = 0, free_blocks = 0, free_bytes = 0,
     live_blocks = 0, live_bytes = 0, peak_live_bytes = 0\<rparr>"

definition record_alloc :: "u64 \<Rightarrow> heap_stats \<Rightarrow> heap_stats" where
  "record_alloc n s =
     (let live = live_bytes s + n
      in s\<lparr>alloc_blocks := alloc_blocks s + 1, alloc_bytes := alloc_bytes s + n,
           live_blocks := live_blocks s + 1, live_bytes := live,
           peak_live_bytes := max (peak_live_bytes s) live\<rparr>)"

definition record_free :: "u64 \<Rightarrow> heap_stats \<Rightarrow> heap_stats" where
  "record_free n s =
     s\<lparr>free_blocks := free_blocks s + 1, free_bytes := free_bytes s + n,
       live_blocks := live_blocks s - 1, live_bytes := live_bytes s - n\<rparr>"

section \<open>The counting Bloom filter\<close>

definition BLOOM_LEN :: nat where
  "BLOOM_LEN = 2 ^ 22"

definition BLOOM_MASK :: u64 where
  "BLOOM_MASK = of_nat BLOOM_LEN - 1"

definition BLOOM_K :: nat where
  "BLOOM_K = 4"

definition bloom_hash1 :: "u64 \<Rightarrow> u64" where
  "bloom_hash1 p = (let h = drop_bit 4 p * 0xff51afd7ed558ccd in h XOR drop_bit 33 h)"

definition bloom_hash2 :: "u64 \<Rightarrow> u64" where
  "bloom_hash2 p = (let h = drop_bit 4 p * 0xc4ceb9fe1a85ec53 in (h XOR drop_bit 29 h) OR 1)"

definition bloom_indices :: "u64 \<Rightarrow> nat list" where
  "bloom_indices p =
     map (\<lambda>i. unat ((bloom_hash1 p + of_nat i * bloom_hash2 p) AND BLOOM_MASK)) [0..<BLOOM_K]"

type_synonym bloom = "nat \<Rightarrow> 8 word"

definition bump :: "nat \<Rightarrow> bloom \<Rightarrow> bloom" where
  "bump i f = (if f i = 255 then f else f(i := f i + 1))"

definition drop_one :: "nat \<Rightarrow> bloom \<Rightarrow> bloom" where
  "drop_one i f = (if f i = 0 \<or> f i = 255 then f else f(i := f i - 1))"

definition bloom_add :: "u64 \<Rightarrow> bloom \<Rightarrow> bloom" where
  "bloom_add p f = fold bump (bloom_indices p) f"

definition bloom_remove :: "u64 \<Rightarrow> bloom \<Rightarrow> bool \<times> bloom" where
  "bloom_remove p f =
     (if \<exists>i \<in> set (bloom_indices p). f i = 0 then (False, f)
      else (True, fold drop_one (bloom_indices p) f))"

section \<open>Allocation and release\<close>

record heap_state =
  stats :: heap_stats
  filter_of :: bloom
  double_frees :: u64
  guarded :: bool

definition heap_start :: "bool \<Rightarrow> heap_state" where
  "heap_start g = \<lparr>stats = heap_stats_new, filter_of = (\<lambda>i. 0), double_frees = 0, guarded = g\<rparr>"

text \<open>The request passed to the OS: never zero bytes.\<close>

definition alloc_request :: "u64 \<Rightarrow> u64" where
  "alloc_request n = max n 1"

definition nm2_alloc :: "u64 \<Rightarrow> u64 \<Rightarrow> heap_state \<Rightarrow> u64 \<times> heap_state" where
  "nm2_alloc p usable h =
     (if p = 0 then (p, h)
      else
        (let h1 = h\<lparr>stats := record_alloc usable (stats h)\<rparr>
         in (p, if guarded h then h1\<lparr>filter_of := bloom_add p (filter_of h1)\<rparr> else h1)))"

text \<open>The answer says whether the block goes back to the OS; a caught free goes to the counter.\<close>

definition release_block :: "u64 \<Rightarrow> heap_state \<Rightarrow> bool \<times> heap_state" where
  "release_block usable h = (True, h\<lparr>stats := record_free usable (stats h)\<rparr>)"

definition nm2_free :: "u64 \<Rightarrow> u64 \<Rightarrow> heap_state \<Rightarrow> bool \<times> heap_state" where
  "nm2_free p usable h =
     (if p = 0 then (False, h)
      else if guarded h then
        (case bloom_remove p (filter_of h) of
           (False, f) \<Rightarrow> (False, h\<lparr>filter_of := f, double_frees := double_frees h + 1\<rparr>)
         | (True, f) \<Rightarrow> release_block usable (h\<lparr>filter_of := f\<rparr>))
      else release_block usable h)"

section \<open>The report at exit\<close>

text \<open>The fixed buffer: bytes past its end are dropped.\<close>

fun put_str :: "nat \<Rightarrow> string \<Rightarrow> string \<Rightarrow> string" where
  "put_str cap buf [] = buf"
| "put_str cap buf (b # s) = put_str cap (if length buf < cap then buf @ [b] else buf) s"

text \<open>The digits of \<open>n\<close>, least significant first, as the scratch array holds them.\<close>

fun digits_of :: "nat \<Rightarrow> string" where
  "digits_of n = (if n = 0 then [] else char_of (48 + n mod 10) # digits_of (n div 10))"

declare digits_of.simps [simp del]

definition put_u64 :: "nat \<Rightarrow> string \<Rightarrow> u64 \<Rightarrow> string" where
  "put_u64 cap buf n =
     (let tmp = (if n = 0 then ''0'' else digits_of (unat n)) in put_str cap buf (rev tmp))"

definition REPORT_LEN :: nat where
  "REPORT_LEN = 160"

definition guard_report :: "heap_state \<Rightarrow> string" where
  "guard_report h =
     (let put = put_str REPORT_LEN; num = put_u64 REPORT_LEN;
          b1 = put [] ''nm2-heap-guard: '';
          b2 = num b1 (double_frees h);
          b3 = put b2 '' double/invalid free(s) caught; ''
      in if live_blocks (stats h) > 0
         then
           (let b4 = put b3 ''LEAK '';
                b5 = num b4 (live_blocks (stats h));
                b6 = put b5 '' block(s), '';
                b7 = num b6 (live_bytes (stats h))
            in put b7 ('' byte(s) live at exit'' @ [newline]))
         else put b3 (''no leaks (all blocks freed)'' @ [newline]))"

section \<open>Deciding whether the guard is on\<close>

text \<open>
  \<open>GUARD_STATE\<close>: 0 undecided, 1 on, 2 off, 3 being decided. A thread in \<open>guard_on\<close> loads it, claims
  the decision by compare-and-swap, reads the environment, registers the report if the answer is
  yes and stores the decision; a thread in \<open>force_on\<close> swaps in 1 and registers the report unless it
  swapped out 1. Each is one atomic operation per step.
\<close>

datatype guard_pc =
    GLoad | GClaim | GDecide | GStore bool | GDone bool
  | FSwap | FRegister | FDone

record guard_shared =
  guard_state :: nat
  registrations :: nat
  pcs :: "nat \<Rightarrow> guard_pc option"

definition goto :: "nat \<Rightarrow> guard_pc \<Rightarrow> guard_shared \<Rightarrow> guard_shared" where
  "goto t pc g = g\<lparr>pcs := (pcs g)(t \<mapsto> pc)\<rparr>"

inductive guard_on_step :: "bool \<Rightarrow> guard_shared \<Rightarrow> guard_shared \<Rightarrow> bool" for env :: bool where
  call_guard_on: "pcs g t = None \<Longrightarrow> guard_on_step env g (goto t GLoad g)"
| load_on: "pcs g t = Some GLoad \<Longrightarrow> guard_state g = 1 \<Longrightarrow> guard_on_step env g (goto t (GDone True) g)"
| load_off: "pcs g t = Some GLoad \<Longrightarrow> guard_state g = 2 \<Longrightarrow> guard_on_step env g (goto t (GDone False) g)"
| load_undecided: "pcs g t = Some GLoad \<Longrightarrow> guard_state g = 0 \<Longrightarrow> guard_on_step env g (goto t GClaim g)"
| load_deciding: "pcs g t = Some GLoad \<Longrightarrow> guard_state g \<notin> {0, 1, 2} \<Longrightarrow> guard_on_step env g (goto t GLoad g)"
| claim: "pcs g t = Some GClaim \<Longrightarrow> guard_state g = 0 \<Longrightarrow>
    guard_on_step env g (goto t GDecide (g\<lparr>guard_state := 3\<rparr>))"
| claim_lost: "pcs g t = Some GClaim \<Longrightarrow> guard_state g \<noteq> 0 \<Longrightarrow> guard_on_step env g (goto t GLoad g)"
| decide: "pcs g t = Some GDecide \<Longrightarrow>
    guard_on_step env g (goto t (GStore env) (g\<lparr>registrations := registrations g + (if env then 1 else 0)\<rparr>))"
| store: "pcs g t = Some (GStore b) \<Longrightarrow>
    guard_on_step env g (goto t (GDone b) (g\<lparr>guard_state := (if b then 1 else 2)\<rparr>))"

inductive force_on_step :: "guard_shared \<Rightarrow> guard_shared \<Rightarrow> bool" where
  call_force_on: "pcs g t = None \<Longrightarrow> force_on_step g (goto t FSwap g)"
| swap: "pcs g t = Some FSwap \<Longrightarrow>
    force_on_step g (goto t (if guard_state g \<noteq> 1 then FRegister else FDone) (g\<lparr>guard_state := 1\<rparr>))"
| register: "pcs g t = Some FRegister \<Longrightarrow>
    force_on_step g (goto t FDone (g\<lparr>registrations := registrations g + 1\<rparr>))"

definition guard_step :: "bool \<Rightarrow> guard_shared \<Rightarrow> guard_shared \<Rightarrow> bool" where
  "guard_step env g g' \<longleftrightarrow> guard_on_step env g g' \<or> force_on_step g g'"

definition guard_init :: guard_shared where
  "guard_init = \<lparr>guard_state = 0, registrations = 0, pcs = (\<lambda>t. None)\<rparr>"

abbreviation guard_reach :: "bool \<Rightarrow> guard_shared \<Rightarrow> bool" where
  "guard_reach env g \<equiv> (guard_step env)\<^sup>*\<^sup>* guard_init g"

end
