(* ===== verification/HeapGuardSpec.thy ===== *)
theory HeapGuardSpec
  imports HeapGuard
begin

text \<open>
  What the heap guard promises (\<open>newm2-runtime/src/heap.rs\<close>): each counter of the filter is the number
  of live blocks that hash to it until it saturates, so a correct release is never blocked; the
  counters are those of the live set; the report is never truncated; threads that race to decide
  whether the guard is on agree. And where the promises end: interior pointers, and forcing the guard
  on while another thread decides.
\<close>

unbundle bit_operations_syntax

section \<open>The hash slots of a pointer\<close>

lemma and_mask: "unat (x AND BLOOM_MASK) = unat x mod BLOOM_LEN"
proof -
  have "BLOOM_MASK = mask 22" by (simp add: BLOOM_MASK_def BLOOM_LEN_def mask_eq_exp_minus_1)
  then have "unat (x AND BLOOM_MASK) = unat (take_bit 22 x)" by (simp add: take_bit_eq_mask)
  then show ?thesis by (simp only: unsigned_take_bit_eq BLOOM_LEN_def) (simp only: take_bit_eq_mod)
qed

lemma bloom_index:
  "unat ((h1 + of_nat i * h2) AND BLOOM_MASK) = (unat h1 + i * unat h2) mod BLOOM_LEN" for h1 h2 :: u64
proof -
  have d: "BLOOM_LEN dvd 2 ^ LENGTH(64)" unfolding BLOOM_LEN_def by (rule le_imp_power_dvd) simp
  have "unat (h1 + of_nat i * h2) = (unat h1 + i * unat h2) mod 2 ^ LENGTH(64)"
    by (simp add: unat_word_ariths unat_of_nat mod_simps)
  then show ?thesis unfolding and_mask by (simp only: mod_mod_cancel [OF d])
qed

lemma hash2_odd: "odd (unat (bloom_hash2 p))"
proof -
  have "odd (bloom_hash2 p)" by (simp add: bloom_hash2_def Let_def even_or_iff)
  then show ?thesis unfolding bit_0 [symmetric] by (simp add: bit_unsigned_iff)
qed

lemma bloom_indices_distinct: "distinct (bloom_indices p)"
proof -
  let ?h1 = "unat (bloom_hash1 p)" and ?h2 = "unat (bloom_hash2 p)"
  have "i = j" if ij: "i < 4" "j < 4" "(?h1 + i * ?h2) mod BLOOM_LEN = (?h1 + j * ?h2) mod BLOOM_LEN" for i j
    using ij
  proof (induction i j rule: linorder_wlog)
    case (le i j)
    then have "BLOOM_LEN dvd (?h1 + j * ?h2) - (?h1 + i * ?h2)"
      by (intro mod_eq_dvd_iff_nat [THEN iffD1]) auto
    then have "2 ^ 22 dvd (j - i) * ?h2" by (simp add: BLOOM_LEN_def diff_mult_distrib)
    moreover have "coprime (2 ^ 22) ?h2"
      unfolding coprime_power_left_iff using hash2_odd by (simp add: coprime_left_2_iff_odd)
    ultimately have "2 ^ 22 dvd j - i" using coprime_dvd_mult_left_iff by blast
    then show ?case using le by (auto dest: dvd_imp_le)
  qed simp
  then show ?thesis
    unfolding bloom_indices_def distinct_map by (auto simp: inj_on_def bloom_index BLOOM_K_def)
qed

lemma same_granule: "drop_bit 4 q = drop_bit 4 p \<Longrightarrow> bloom_indices q = bloom_indices p"
  by (simp add: bloom_indices_def bloom_hash1_def bloom_hash2_def)

section \<open>The filter counts\<close>

lemma fold_bump: "distinct is \<Longrightarrow> fold bump is f i = (if i \<in> set is \<and> f i \<noteq> 255 then f i + 1 else f i)"
  by (induction "is" arbitrary: f) (auto simp: bump_def)

lemma fold_drop_one:
  "distinct is \<Longrightarrow> fold drop_one is f i = (if i \<in> set is \<and> f i \<noteq> 0 \<and> f i \<noteq> 255 then f i - 1 else f i)"
  by (induction "is" arbitrary: f) (auto simp: drop_one_def)

definition users :: "u64 set \<Rightarrow> nat \<Rightarrow> u64 set" where
  "users live i = {p \<in> live. i \<in> set (bloom_indices p)}"

text \<open>Each counter is the number of live blocks that hash to it, unless it has saturated.\<close>

definition counts :: "bloom \<Rightarrow> u64 set \<Rightarrow> bool" where
  "counts f live \<longleftrightarrow> finite live \<and> (\<forall>i. f i = 255 \<or> unat (f i) = card (users live i))"

lemma counts_new: "counts (\<lambda>i. 0) {}"
  by (simp add: counts_def users_def)

lemma byte_suc: "w \<noteq> 255 \<Longrightarrow> unat (w + 1) = unat w + 1" for w :: "8 word"
proof -
  assume w: "w \<noteq> 255"
  have "w + 1 \<noteq> 0" using w by (auto simp: add_eq_0_iff2)
  then show ?thesis using unatSuc [of w] by (simp add: add.commute)
qed

lemma byte_pred: "w \<noteq> 0 \<Longrightarrow> unat (w - 1) = unat w - 1" for w :: "8 word"
  by (simp add: unat_sub word_le_nat_alt Suc_le_eq unat_gt_0)

lemma users_insert:
  "p \<notin> live \<Longrightarrow> users (insert p live) i = (if i \<in> set (bloom_indices p) then insert p (users live i) else users live i)"
  by (auto simp: users_def)

lemma users_remove:
  "users (live - {p}) i = (if i \<in> set (bloom_indices p) then users live i - {p} else users live i)"
  by (auto simp: users_def)

lemma finite_users [simp]: "finite live \<Longrightarrow> finite (users live i)"
  by (simp add: users_def)

lemma counts_add: "counts f live \<Longrightarrow> p \<notin> live \<Longrightarrow> counts (bloom_add p f) (insert p live)"
proof -
  assume c: "counts f live" and p: "p \<notin> live"
  have "p \<notin> users live i" for i using p by (simp add: users_def)
  then show ?thesis using c p
    by (simp add: counts_def bloom_add_def fold_bump [OF bloom_indices_distinct] users_insert byte_suc) metis
qed

lemma empty_slot: "counts f live \<Longrightarrow> f i = 0 \<Longrightarrow> users live i = {}"
proof -
  assume c: "counts f live" and z: "f i = 0"
  have "f i = 255 \<or> unat (f i) = card (users live i)" using c unfolding counts_def by blast
  then have "card (users live i) = 0" using z by simp
  then show ?thesis using c by (simp add: counts_def)
qed

lemma live_slot: "counts f live \<Longrightarrow> p \<in> live \<Longrightarrow> i \<in> set (bloom_indices p) \<Longrightarrow> f i \<noteq> 0"
proof
  assume c: "counts f live" and p: "p \<in> live" "i \<in> set (bloom_indices p)" and z: "f i = 0"
  show False using empty_slot [OF c z] p by (auto simp: users_def)
qed

lemma counts_remove:
  "counts f live \<Longrightarrow> p \<in> live \<Longrightarrow>
     \<exists>g. bloom_remove p f = (True, g) \<and> counts g (live - {p})"
proof -
  assume c: "counts f live" and p: "p \<in> live"
  have nz: "f i \<noteq> 0" if "i \<in> set (bloom_indices p)" for i using live_slot [OF c p that] .
  have u: "card (users live i - {p}) = card (users live i) - 1" if "i \<in> set (bloom_indices p)" for i
    using p that by (simp add: users_def card_Diff_singleton)
  have "counts (fold drop_one (bloom_indices p) f) (live - {p})"
    using c nz by (simp add: counts_def fold_drop_one [OF bloom_indices_distinct] users_remove u byte_pred) metis
  then show ?thesis using nz by (auto simp: bloom_remove_def)
qed

section \<open>Histories of the heap\<close>

text \<open>
  A history of correct calls: the OS hands out a pointer that is not live (or null), the program
  releases a live block with the size the OS reports for it, or null; and wrong releases, when the
  guard catches them. \<open>live\<close> maps each live block to its usable size.
\<close>

inductive heap_run :: "heap_state \<Rightarrow> (u64 \<rightharpoonup> u64) \<Rightarrow> nat \<Rightarrow> bool" where
  run_start: "heap_run (heap_start g) Map.empty 0"
| run_alloc: "heap_run h live k \<Longrightarrow> p \<noteq> 0 \<Longrightarrow> live p = None \<Longrightarrow> heap_run (snd (nm2_alloc p n h)) (live(p \<mapsto> n)) k"
| run_alloc_fails: "heap_run h live k \<Longrightarrow> heap_run (snd (nm2_alloc 0 n h)) live k"
| run_free: "heap_run h live k \<Longrightarrow> live p = Some n \<Longrightarrow> heap_run (snd (nm2_free p n h)) (live(p := None)) k"
| run_free_null: "heap_run h live k \<Longrightarrow> heap_run (snd (nm2_free 0 n h)) live k"
| run_caught: "heap_run h live k \<Longrightarrow> p \<noteq> 0 \<Longrightarrow> \<not> fst (nm2_free p n h) \<Longrightarrow>
    heap_run (snd (nm2_free p n h)) live (Suc k)"

definition heap_ok :: "heap_state \<Rightarrow> (u64 \<rightharpoonup> u64) \<Rightarrow> nat \<Rightarrow> bool" where
  "heap_ok h live k \<longleftrightarrow>
     finite (dom live) \<and> 0 \<notin> dom live \<and> (guarded h \<longrightarrow> counts (filter_of h) (dom live)) \<and>
     live_blocks (stats h) = of_nat (card (dom live)) \<and>
     live_bytes (stats h) = (\<Sum>p \<in> dom live. the (live p)) \<and>
     double_frees h = of_nat k"

lemma heap_ok_start: "heap_ok (heap_start g) Map.empty 0"
  by (simp add: heap_ok_def heap_start_def heap_stats_new_def counts_new)

lemma heap_ok_alloc:
  "heap_ok h live k \<Longrightarrow> p \<noteq> 0 \<Longrightarrow> live p = None \<Longrightarrow> heap_ok (snd (nm2_alloc p n h)) (live(p \<mapsto> n)) k"
proof -
  assume ok: "heap_ok h live k" and p: "p \<noteq> 0" "live p = None"
  have out: "p \<notin> dom live" using p by auto
  have "(\<Sum>q \<in> dom live. the ((live(p \<mapsto> n)) q)) = (\<Sum>q \<in> dom live. the (live q))"
    by (rule sum.cong) (use out in auto)
  then show ?thesis using ok p out
    by (simp add: heap_ok_def nm2_alloc_def record_alloc_def Let_def counts_add)
qed

lemma freed_total:
  "finite (dom live) \<Longrightarrow> live p = Some n \<Longrightarrow>
     (\<Sum>q \<in> dom live. the (live q)) = n + (\<Sum>q \<in> dom live - {p}. the ((live(p := None)) q))" for live :: "u64 \<rightharpoonup> u64"
proof -
  assume fin: "finite (dom live)" and p: "live p = Some n"
  have "(\<Sum>q \<in> dom live - {p}. the ((live(p := None)) q)) = (\<Sum>q \<in> dom live - {p}. the (live q))"
    by (rule sum.cong) auto
  then show ?thesis using sum.remove [OF fin, of p "\<lambda>q. the (live q)"] p by (simp add: domI)
qed

lemma correct_free:
  "heap_ok h live k \<Longrightarrow> live p = Some n \<Longrightarrow>
     fst (nm2_free p n h) \<and> heap_ok (snd (nm2_free p n h)) (live(p := None)) k"
proof -
  assume ok: "heap_ok h live k" and p: "live p = Some n"
  have fin: "finite (dom live)" and zero: "p \<noteq> 0" and dom: "p \<in> dom live"
    using ok p by (auto simp: heap_ok_def)
  have cnt: "of_nat (card (dom live)) - 1 = (of_nat (card (dom live - {p})) :: u64)"
    using card.remove [OF fin dom] by simp
  show ?thesis
  proof (cases "guarded h")
    case True
    then obtain g where "bloom_remove p (filter_of h) = (True, g)" "counts g (dom live - {p})"
      using ok counts_remove [OF _ dom] unfolding heap_ok_def by blast
    then show ?thesis using ok True zero cnt freed_total [OF fin p]
      by (simp add: heap_ok_def nm2_free_def release_block_def record_free_def)
  next
    case False
    then show ?thesis using ok zero cnt freed_total [OF fin p]
      by (simp add: heap_ok_def nm2_free_def release_block_def record_free_def)
  qed
qed

lemma heap_ok_caught:
  "heap_ok h live k \<Longrightarrow> p \<noteq> 0 \<Longrightarrow> \<not> fst (nm2_free p n h) \<Longrightarrow> heap_ok (snd (nm2_free p n h)) live (Suc k)"
  by (auto simp: heap_ok_def nm2_free_def release_block_def bloom_remove_def split: if_splits)

lemma heap_run_ok: "heap_run h live k \<Longrightarrow> heap_ok h live k"
proof (induction rule: heap_run.induct)
  case (run_start g)
  show ?case by (rule heap_ok_start)
next
  case (run_alloc h live k p n)
  then show ?case by (intro heap_ok_alloc)
next
  case (run_free h live k p n)
  then show ?case using correct_free by blast
next
  case (run_caught h live k p n)
  then show ?case by (intro heap_ok_caught)
qed (simp_all add: nm2_alloc_def nm2_free_def)

lemma caught_slot:
  "heap_ok h live k \<Longrightarrow> guarded h \<Longrightarrow> p \<noteq> 0 \<Longrightarrow>
     fst (nm2_free p n h) \<longleftrightarrow> (\<forall>i \<in> set (bloom_indices p). filter_of h i \<noteq> 0)"
  by (auto simp: nm2_free_def bloom_remove_def release_block_def)


lemma two_blocks:
  "heap_run (snd (nm2_alloc 64 40 (snd (nm2_alloc 16 32 (heap_start True))))) [16 \<mapsto> 32, 64 \<mapsto> 40] 0"
  by (intro run_alloc run_start) simp_all


text \<open>
  Where the guard ends: a pointer into the same 16-byte granule as a live block is not told from it.
  Its release is let through, and the correct release of the block is then refused.
\<close>

lemma interior_free_undetected:
  "let h = snd (nm2_alloc 16 32 (heap_start True)); freed = nm2_free 24 32 h
   in fst freed \<and> \<not> fst (nm2_free 16 32 (snd freed))"
proof -
  have same: "bloom_indices 24 = bloom_indices 16" by (rule same_granule) simp
  have some: "\<exists>i. i \<in> set (bloom_indices 16)" by (simp add: bloom_indices_def BLOOM_K_def)
  show ?thesis using some
    by (simp add: Let_def nm2_alloc_def nm2_free_def heap_start_def bloom_add_def bloom_remove_def
        release_block_def same fold_bump [OF bloom_indices_distinct] fold_drop_one [OF bloom_indices_distinct])
qed

section \<open>The report\<close>

text \<open>What the buffer holds is the prefix that fits of what was put in it.\<close>

lemma put_str_take: "put_str cap (take cap x) s = take cap (x @ s)"
proof (induction s arbitrary: x)
  case (Cons b s)
  have "(if length (take cap x) < cap then take cap x @ [b] else take cap x) = take cap (x @ [b])"
    by (cases "length x < cap") auto
  then show ?case using Cons [of "x @ [b]"] by simp
qed simp

lemma put_str_new: "put_str cap [] s = take cap s"
  using put_str_take [of cap "[]" s] by simp

lemma digits_of_dec: "0 < n \<Longrightarrow> rev (digits_of n) = dec n"
proof (induction n rule: digits_of.induct)
  case (1 n)
  show ?case
  proof (cases "n < 10")
    case True
    then show ?thesis using 1 by (simp add: digits_of.simps [of n] dec.simps [of n] digits_of.simps [of 0])
  next
    case False
    then show ?thesis using 1 by (simp add: digits_of.simps [of n] dec.simps [of n])
  qed
qed

lemma put_u64_take: "put_u64 cap (take cap x) n = take cap (x @ dec (unat n))"
proof (cases "n = 0")
  case True
  then show ?thesis by (simp add: put_u64_def put_str_take dec.simps [of 0] char_of_def bit_Suc_0_iff)
next
  case False
  then have "0 < unat n" by (simp add: unat_gt_0)
  then show ?thesis using False by (simp add: put_u64_def put_str_take digits_of_dec)
qed

lemma dec_length_below: "n < 10 ^ Suc k \<Longrightarrow> length (dec n) \<le> Suc k"
proof (induction k arbitrary: n)
  case 0
  then show ?case by (simp add: dec.simps [of n])
next
  case (Suc k)
  then show ?case using Suc.IH [of "n div 10"] by (simp add: dec.simps [of n] less_mult_imp_div_less)
qed

lemma dec_length: "length (dec (unat n)) \<le> 20" for n :: u64
proof -
  have "unat n < 2 ^ LENGTH(64)" by (rule unsigned_less)
  then show ?thesis using dec_length_below [of "unat n" 19] by simp
qed

text \<open>
  The report names the caught frees, and either that nothing is live or the live blocks and bytes;
  its fixed buffer of 160 bytes always holds it, whatever the counters.
\<close>

theorem guard_report_complete:
  "guard_report h =
     ''nm2-heap-guard: '' @ dec (unat (double_frees h)) @ '' double/invalid free(s) caught; '' @
     (if live_blocks (stats h) = 0 then ''no leaks (all blocks freed)''
      else ''LEAK '' @ dec (unat (live_blocks (stats h))) @ '' block(s), '' @
           dec (unat (live_bytes (stats h))) @ '' byte(s) live at exit'') @ [newline] \<and>
   length (guard_report h) \<le> REPORT_LEN"
proof -
  let ?live = "live_blocks (stats h) > 0"
  let ?head = "''nm2-heap-guard: '' @ dec (unat (double_frees h)) @ '' double/invalid free(s) caught; ''"
  let ?leak = "''LEAK '' @ dec (unat (live_blocks (stats h))) @ '' block(s), '' @
           dec (unat (live_bytes (stats h))) @ '' byte(s) live at exit''"
  let ?clean = "''no leaks (all blocks freed)''"
  note len = dec_length [of "double_frees h"] dec_length [of "live_blocks (stats h)"]
    dec_length [of "live_bytes (stats h)"]
  have report: "guard_report h = take REPORT_LEN (?head @ (if ?live then ?leak else ?clean) @ [newline])"
    by (simp only: guard_report_def Let_def put_str_new put_str_take put_u64_take append_assoc split: if_split) simp
  moreover have "length (?head @ ?leak @ [newline]) \<le> REPORT_LEN" "length (?head @ ?clean @ [newline]) \<le> REPORT_LEN"
    using len by (simp_all add: REPORT_LEN_def)
  moreover have "?live \<longleftrightarrow> live_blocks (stats h) \<noteq> 0" by (simp add: word_neq_0_conv)
  ultimately show ?thesis by (cases ?live) (simp_all only: take_all if_True if_False append_assoc not_False_eq_True simp_thms)
qed

section \<open>The decision\<close>

text \<open>
  While no thread forces the guard on, the shared word and the threads fit together: one thread at
  most is deciding, and whoever has answered, answered the environment's setting.
\<close>

definition decided :: "bool \<Rightarrow> nat" where
  "decided env = (if env then 1 else 2)"

fun pc_ok :: "bool \<Rightarrow> nat \<Rightarrow> nat \<Rightarrow> guard_pc \<Rightarrow> bool" where
  "pc_ok env st reg (GDone b) \<longleftrightarrow> b = env \<and> st = decided env \<and> reg = of_bool env"
| "pc_ok env st reg GDecide \<longleftrightarrow> st = 3 \<and> reg = 0"
| "pc_ok env st reg (GStore b) \<longleftrightarrow> b = env \<and> st = 3 \<and> reg = of_bool env"
| "pc_ok env st reg GLoad \<longleftrightarrow> True"
| "pc_ok env st reg GClaim \<longleftrightarrow> True"
| "pc_ok env st reg _ \<longleftrightarrow> False"

fun deciding :: "guard_pc \<Rightarrow> bool" where
  "deciding GDecide = True"
| "deciding (GStore b) = True"
| "deciding _ = False"

fun forcing :: "guard_pc \<Rightarrow> bool" where
  "forcing FSwap = True"
| "forcing FRegister = True"
| "forcing FDone = True"
| "forcing _ = False"

definition unforced :: "guard_shared \<Rightarrow> bool" where
  "unforced g \<longleftrightarrow> (\<forall>t pc. pcs g t = Some pc \<longrightarrow> \<not> forcing pc)"

definition guard_inv :: "bool \<Rightarrow> guard_shared \<Rightarrow> bool" where
  "guard_inv env g \<longleftrightarrow>
     guard_state g \<in> {0, 3, decided env} \<and>
     (guard_state g = 0 \<longrightarrow> registrations g = 0) \<and>
     (guard_state g = decided env \<longrightarrow> registrations g = of_bool env) \<and>
     registrations g \<le> of_bool env \<and>
     (\<forall>t pc. pcs g t = Some pc \<longrightarrow> pc_ok env (guard_state g) (registrations g) pc) \<and>
     (\<forall>t u pc pc'. pcs g t = Some pc \<and> pcs g u = Some pc' \<and> deciding pc \<and> deciding pc' \<longrightarrow> t = u)"

lemma guard_inv_init: "guard_inv env guard_init"
  by (simp add: guard_inv_def guard_init_def decided_def)

lemma unforced_goto:
  "unforced (goto t pc g') \<Longrightarrow> pcs g' = pcs g \<Longrightarrow> (\<And>q. pcs g t = Some q \<Longrightarrow> forcing q \<Longrightarrow> forcing pc) \<Longrightarrow>
     unforced g"
  unfolding unforced_def goto_def by (simp split: if_splits) (metis (full_types))

lemma unforced_back: "guard_step env g g' \<Longrightarrow> unforced g' \<Longrightarrow> unforced g"
  unfolding guard_step_def
proof (erule disjE)
  show "guard_on_step env g g' \<Longrightarrow> unforced g' \<Longrightarrow> unforced g"
    by (induction rule: guard_on_step.induct) (erule unforced_goto, simp, simp)+
  show "force_on_step g g' \<Longrightarrow> unforced g' \<Longrightarrow> unforced g"
    by (induction rule: force_on_step.induct) (erule unforced_goto, simp, simp)+
qed

lemma pc_ok_undeciding: "pc_ok env st reg pc \<Longrightarrow> \<not> deciding pc \<Longrightarrow> st \<noteq> decided env \<Longrightarrow>
  pc_ok env st' reg' pc"
  by (cases pc) auto

text \<open>A step that only moves a thread to a point that fits the shared state.\<close>

lemma guard_inv_goto:
  "guard_inv env g \<Longrightarrow> pc_ok env (guard_state g) (registrations g) pc \<Longrightarrow> \<not> deciding pc \<Longrightarrow>
     guard_inv env (goto t pc g)"
  unfolding guard_inv_def goto_def by (simp split: if_splits)

lemma answer_fits:
  "st \<in> {0, 3, decided env} \<Longrightarrow> st = decided env \<longrightarrow> reg = of_bool env \<Longrightarrow> st = (if b then 1 else 2) \<Longrightarrow>
     pc_ok env st reg (GDone b)"
  by (cases env; cases b) (simp_all add: decided_def)

lemma not_unforced: "forcing pc \<Longrightarrow> \<not> unforced (goto t pc g)"
  by (auto simp: unforced_def goto_def)

lemma guard_inv_step: "guard_on_step env g g' \<Longrightarrow> guard_inv env g \<Longrightarrow> guard_inv env g'"
proof (induction rule: guard_on_step.induct)
  case (claim g t)
  have "\<not> deciding pc" if "pcs g u = Some pc" for u pc
  proof -
    have "pc_ok env 0 (registrations g) pc" using claim that unfolding guard_inv_def by metis
    then show ?thesis by (cases pc) auto
  qed
  with claim show ?case
    by (auto simp: guard_inv_def goto_def decided_def intro: pc_ok_undeciding [where st = 0 and reg = 0] split: if_splits)
next
  case (decide g t)
  have "\<not> deciding pc" if "pcs g u = Some pc" "u \<noteq> t" for u pc
    using decide that unfolding guard_inv_def by (metis deciding.simps(1))
  moreover have "pc_ok env (guard_state g) (registrations g) GDecide"
    using decide unfolding guard_inv_def by metis
  ultimately show ?case using decide
    by (auto simp: guard_inv_def goto_def decided_def intro: pc_ok_undeciding [where st = 3 and reg = 0] split: if_splits)
next
  case (store g t b)
  have "\<not> deciding pc" if "pcs g u = Some pc" "u \<noteq> t" for u pc
    using store that unfolding guard_inv_def by (metis deciding.simps(2))
  moreover have "pc_ok env (guard_state g) (registrations g) (GStore b)"
    using store unfolding guard_inv_def by metis
  ultimately show ?case using store
    by (auto simp: guard_inv_def goto_def decided_def intro: pc_ok_undeciding [where st = 3 and reg = 0] pc_ok_undeciding [where st = 3 and reg = "Suc 0"]
        split: if_splits)
next
  case (load_on g t)
  then have "guard_state g \<in> {0, 3, decided env}" "guard_state g = decided env \<longrightarrow> registrations g = of_bool env"
    unfolding guard_inv_def by blast+
  then have "pc_ok env (guard_state g) (registrations g) (GDone True)"
    using load_on(2) by (intro answer_fits) simp_all
  then show ?case using load_on by (intro guard_inv_goto) simp_all
next
  case (load_off g t)
  then have "guard_state g \<in> {0, 3, decided env}" "guard_state g = decided env \<longrightarrow> registrations g = of_bool env"
    unfolding guard_inv_def by blast+
  then have "pc_ok env (guard_state g) (registrations g) (GDone False)"
    using load_off(2) by (intro answer_fits) simp_all
  then show ?case using load_off by (intro guard_inv_goto) (simp_all add: decided_def)
qed (simp_all add: guard_inv_goto)

lemma force_not_unforced: "force_on_step g g' \<Longrightarrow> \<not> unforced g'"
  by (induction rule: force_on_step.induct) (simp_all add: not_unforced)

lemma guard_reach_inv: "guard_reach env g \<Longrightarrow> unforced g \<Longrightarrow> guard_inv env g"
proof (induction rule: rtranclp_induct)
  case base
  show ?case by (rule guard_inv_init)
next
  case (step g g')
  then show ?case using guard_inv_step unforced_back force_not_unforced unfolding guard_step_def by blast
qed

text \<open>
  However many threads race into the decision, as long as none forces the guard on: every thread that
  has its answer has the environment's setting, one thread at most is deciding, and the report is
  registered exactly when the setting is on and decided, never twice.
\<close>

theorem guard_decided_once:
  assumes "guard_reach env g" and "unforced g"
  shows "(\<forall>t b. pcs g t = Some (GDone b) \<longrightarrow> b = env \<and> guard_state g = (if env then 1 else 2) \<and>
                                      registrations g = of_bool env) \<and>
         registrations g \<le> of_bool env \<and>
         (\<forall>t u pc pc'. pcs g t = Some pc \<and> pcs g u = Some pc' \<and> deciding pc \<and> deciding pc' \<longrightarrow> t = u)"
proof -
  note inv = guard_reach_inv [OF assms]
  have "pc_ok env (guard_state g) (registrations g) (GDone b)" if "pcs g t = Some (GDone b)" for t b
    using inv that unfolding guard_inv_def by metis
  then have "\<forall>t b. pcs g t = Some (GDone b) \<longrightarrow> b = env \<and> guard_state g = (if env then 1 else 2) \<and>
                                      registrations g = of_bool env"
    by (simp add: decided_def)
  then show ?thesis using inv unfolding guard_inv_def by metis
qed

text \<open>A run of two threads: the first claims, decides and stores; the second reads its answer.\<close>

definition two_readers :: guard_shared where
  "two_readers = \<lparr>guard_state = 1, registrations = 1, pcs = [0 \<mapsto> GDone True, 1 \<mapsto> GDone True]\<rparr>"

lemma goto_eval: "goto t pc \<lparr>guard_state = s, registrations = r, pcs = m\<rparr> =
  \<lparr>guard_state = s, registrations = r, pcs = m(t \<mapsto> pc)\<rparr>"
  by (simp add: goto_def)

lemma guard_reach_step:
  "guard_reach env g \<Longrightarrow> guard_on_step env g g' \<Longrightarrow> guard_reach env g'"
  "guard_reach env g \<Longrightarrow> force_on_step g g' \<Longrightarrow> guard_reach env g'"
  by (auto simp: guard_step_def intro: rtranclp.rtrancl_into_rtrancl)

lemma two_readers_reached: "guard_reach True two_readers"
proof -
  let ?g = "\<lambda>s r m. \<lparr>guard_state = s, registrations = r, pcs = m\<rparr> :: guard_shared"
  let ?ok = "\<lambda>s r m. guard_reach True (?g s r m)"
  have s0: "?ok 0 0 (\<lambda>t. None)" by (simp add: guard_init_def)
  have s1: "?ok 0 0 [0 \<mapsto> GLoad]"
    using guard_reach_step(1) [OF s0 guard_on_step.call_guard_on [of _ 0]] by (simp add: goto_eval)
  have s2: "?ok 0 0 [0 \<mapsto> GClaim]"
    using guard_reach_step(1) [OF s1 guard_on_step.load_undecided [of _ 0]] by (simp add: goto_eval)
  have s3: "?ok 3 0 [0 \<mapsto> GDecide]"
    using guard_reach_step(1) [OF s2 guard_on_step.claim [of _ 0]] by (simp add: goto_eval)
  have s4: "?ok 3 0 [0 \<mapsto> GDecide, 1 \<mapsto> GLoad]"
    using guard_reach_step(1) [OF s3 guard_on_step.call_guard_on [of _ 1]] by (simp add: goto_eval)
  have s5: "?ok 3 1 [0 \<mapsto> GStore True, 1 \<mapsto> GLoad]"
    using guard_reach_step(1) [OF s4 guard_on_step.decide [of _ 0]] by (simp add: goto_eval fun_upd_twist)
  have s6: "?ok 1 1 [0 \<mapsto> GDone True, 1 \<mapsto> GLoad]"
    using guard_reach_step(1) [OF s5 guard_on_step.store [of _ 0 True]] by (simp add: goto_eval fun_upd_twist)
  show ?thesis
    using guard_reach_step(1) [OF s6 guard_on_step.load_on [of _ 1]] by (simp add: goto_eval two_readers_def)
qed

theorem guard_decided_once_witness:
  "registrations two_readers \<le> 1 \<and> guard_state two_readers = 1"
proof -
  have "unforced two_readers" by (simp add: unforced_def two_readers_def)
  moreover have "pcs two_readers 1 = Some (GDone True)" by (simp add: two_readers_def)
  ultimately show ?thesis using guard_decided_once [OF two_readers_reached] by (metis le_numeral_extra(4) of_bool_eq(2))
qed

text \<open>
  Forcing the guard on while another thread decides: with the environment off, the deciding thread
  stores off over the forced on; with it on, the report is registered twice.
\<close>

lemma forced_on_is_lost:
  "\<exists>g. guard_reach False g \<and> pcs g 0 = Some (GDone False) \<and> pcs g 1 = Some FDone \<and> guard_state g = 2"
proof -
  let ?ok = "\<lambda>s r m. guard_reach False \<lparr>guard_state = s, registrations = r, pcs = m\<rparr>"
  have s0: "?ok 0 0 (\<lambda>t. None)" by (simp add: guard_init_def)
  have s1: "?ok 0 0 [0 \<mapsto> GLoad]"
    using guard_reach_step(1) [OF s0 guard_on_step.call_guard_on [of _ 0]] by (simp add: goto_eval)
  have s2: "?ok 0 0 [0 \<mapsto> GClaim]"
    using guard_reach_step(1) [OF s1 guard_on_step.load_undecided [of _ 0]] by (simp add: goto_eval)
  have s3: "?ok 3 0 [0 \<mapsto> GDecide]"
    using guard_reach_step(1) [OF s2 guard_on_step.claim [of _ 0]] by (simp add: goto_eval)
  have s4: "?ok 3 0 [0 \<mapsto> GDecide, 1 \<mapsto> FSwap]"
    using guard_reach_step(2) [OF s3 force_on_step.call_force_on [of _ 1]] by (simp add: goto_eval)
  have s5: "?ok 1 0 [0 \<mapsto> GDecide, 1 \<mapsto> FRegister]"
    using guard_reach_step(2) [OF s4 force_on_step.swap [of _ 1]] by (simp add: goto_eval)
  have s6: "?ok 1 1 [0 \<mapsto> GDecide, 1 \<mapsto> FDone]"
    using guard_reach_step(2) [OF s5 force_on_step.register [of _ 1]] by (simp add: goto_eval)
  have s7: "?ok 1 1 [0 \<mapsto> GStore False, 1 \<mapsto> FDone]"
    using guard_reach_step(1) [OF s6 guard_on_step.decide [of _ 0]] by (simp add: goto_eval fun_upd_twist)
  have s8: "?ok 2 1 [0 \<mapsto> GDone False, 1 \<mapsto> FDone]"
    using guard_reach_step(1) [OF s7 guard_on_step.store [of _ 0 False]] by (simp add: goto_eval fun_upd_twist)
  show ?thesis by (intro exI conjI, rule s8) simp_all
qed

end
