(* ===== verification/Gc.thy ===== *)
theory Gc
  imports Prelude
begin

text \<open>
  The conservative mark-and-sweep collector of the runtime (\<open>newm2-runtime/src/gc.rs\<close>): block headers,
  clusters with their free lists and block-start bitmaps, allocation, the registry of type descriptors,
  marking, sweeping and a whole collection.

  Memory is a map from byte addresses to the machine words read there; addresses and words are natural
  numbers, and every access of the collector to the heap is to an aligned word. A \<open>TypeDesc\<close> is read
  through a map \<open>desc\<close> from addresses, as the descriptors are globals emitted by the compiler. Loops
  that walk links or tags of the memory are partial functions: \<open>None\<close> is a loop that never ends.
\<close>

section \<open>Headers\<close>

type_synonym memory = "nat \<Rightarrow> nat"

definition HEADER :: nat where "HEADER = 16"
definition BLOCK_ALIGN :: nat where "BLOCK_ALIGN = 16"
definition MIN_BLOCK :: nat where "MIN_BLOCK = 32"
definition DEFAULT_CLUSTER_SIZE :: nat where "DEFAULT_CLUSTER_SIZE = 2 ^ 20"

text \<open>The word at a block's address is its tag, whose lowest bit is the mark; the next word is its size.\<close>

definition is_marked :: "memory \<Rightarrow> nat \<Rightarrow> bool" where
  "is_marked m b \<longleftrightarrow> m b mod 2 \<noteq> 0"

definition type_bits :: "memory \<Rightarrow> nat \<Rightarrow> nat" where
  "type_bits m b = m b - m b mod 2"

definition is_free :: "memory \<Rightarrow> nat \<Rightarrow> bool" where
  "is_free m b \<longleftrightarrow> type_bits m b = 0"

definition set_mark :: "memory \<Rightarrow> nat \<Rightarrow> memory" where
  "set_mark m b = m(b := type_bits m b + 1)"

definition clear_mark :: "memory \<Rightarrow> nat \<Rightarrow> memory" where
  "clear_mark m b = m(b := type_bits m b)"

definition block_size :: "memory \<Rightarrow> nat \<Rightarrow> nat" where
  "block_size m b = m (b + 8)"

definition free_link :: "memory \<Rightarrow> nat \<Rightarrow> nat" where
  "free_link m b = m (b + HEADER)"

definition write_zeros :: "memory \<Rightarrow> nat \<Rightarrow> nat \<Rightarrow> memory" where
  "write_zeros m a n = (\<lambda>x. if a \<le> x \<and> x < a + n then 0 else m x)"

record type_desc =
  td_size :: int
  td_finalizer :: "nat option"
  td_ptroffs :: "int list"

text \<open>Up to the first negative entry.\<close>

definition pointer_offsets :: "type_desc \<Rightarrow> nat list" where
  "pointer_offsets td = map nat (takeWhile (\<lambda>off. 0 \<le> off) (td_ptroffs td))"

section \<open>Clusters\<close>

datatype alloc_path = PathBump | PathFreeList

record cluster =
  cl_base :: nat
  cl_size :: nat
  cl_bump :: nat
  cl_free :: nat
  cl_starts :: "u64 list"

definition cluster_new :: "nat \<Rightarrow> nat \<Rightarrow> cluster" where
  "cluster_new base min_size =
     (let sz = max min_size DEFAULT_CLUSTER_SIZE
      in \<lparr>cl_base = base, cl_size = sz, cl_bump = 0, cl_free = 0,
          cl_starts = replicate ((sz div BLOCK_ALIGN + 63) div 64) 0\<rparr>)"

definition cl_contains :: "cluster \<Rightarrow> nat \<Rightarrow> bool" where
  "cl_contains c a \<longleftrightarrow> cl_base c \<le> a \<and> a < cl_base c + cl_bump c"

definition mark_block_start :: "cluster \<Rightarrow> nat \<Rightarrow> cluster" where
  "mark_block_start c off =
     (let b = off div BLOCK_ALIGN; w = b div 64
      in c\<lparr>cl_starts := (cl_starts c)[w := set_bit (b mod 64) (cl_starts c ! w)]\<rparr>)"

definition clear_block_start :: "cluster \<Rightarrow> nat \<Rightarrow> cluster" where
  "clear_block_start c off =
     (let b = off div BLOCK_ALIGN; w = b div 64
      in c\<lparr>cl_starts := (cl_starts c)[w := unset_bit (b mod 64) (cl_starts c ! w)]\<rparr>)"

text \<open>\<open>63 - word.leading_zeros()\<close>\<close>

definition top_bit :: "u64 \<Rightarrow> nat" where
  "top_bit w = 63 - length (takeWhile (\<lambda>i. \<not> bit w i) (rev [0..<64]))"

fun last_start :: "u64 list \<Rightarrow> nat \<Rightarrow> nat option" where
  "last_start ws 0 = None"
| "last_start ws (Suc w) =
     (if ws ! w \<noteq> 0 then Some ((w * 64 + top_bit (ws ! w)) * BLOCK_ALIGN) else last_start ws w)"

definition low_mask :: "nat \<Rightarrow> u64" where
  "low_mask i = (if i = 63 then - 1 else push_bit (i + 1) 1 - 1)"

definition block_start_at_or_below :: "cluster \<Rightarrow> nat \<Rightarrow> nat option" where
  "block_start_at_or_below c offset =
     (let off = min offset (cl_bump c - BLOCK_ALIGN);
          b = off div BLOCK_ALIGN; w = b div 64;
          first = and (cl_starts c ! w) (low_mask (b mod 64))
      in if first \<noteq> 0 then Some ((w * 64 + top_bit first) * BLOCK_ALIGN) else last_start (cl_starts c) w)"

text \<open>The first fit: a place that links to a free block that is large enough, and the block.\<close>

datatype link = ListHead | LinkAt nat

partial_function (option) find_fit :: "memory \<Rightarrow> nat \<Rightarrow> link \<Rightarrow> nat \<Rightarrow> (link \<times> nat) option option" where
  "find_fit m want prev block =
     (if block = 0 then Some None
      else if want \<le> block_size m block then Some (Some (prev, block))
      else find_fit m want (LinkAt (block + HEADER)) (free_link m block))"

definition write_link :: "link \<Rightarrow> nat \<Rightarrow> memory \<times> cluster \<Rightarrow> memory \<times> cluster" where
  "write_link l v mc = (case mc of (m, c) \<Rightarrow>
     (case l of ListHead \<Rightarrow> (m, c\<lparr>cl_free := v\<rparr>) | LinkAt a \<Rightarrow> (m(a := v), c)))"

text \<open>The rest of a larger block becomes a free block at the head of the list, if it is large enough for one.\<close>

definition split_block :: "nat \<Rightarrow> nat \<Rightarrow> memory \<times> cluster \<Rightarrow> memory \<times> cluster" where
  "split_block block want mc = (case mc of (m, c) \<Rightarrow>
     (let leftover = block_size m block - want; split = block + want
      in if MIN_BLOCK \<le> leftover
         then (m(split := 0, split + 8 := leftover, split + HEADER := cl_free c, block + 8 := want),
               mark_block_start (c\<lparr>cl_free := split\<rparr>) (split - cl_base c))
         else (m, c)))"

definition take_block :: "nat \<Rightarrow> link \<Rightarrow> nat \<Rightarrow> memory \<times> cluster \<Rightarrow> memory \<times> cluster" where
  "take_block want prev block mc =
     (let (m, c) = split_block block want (write_link prev (free_link (fst mc) block) mc)
      in (write_zeros m (block + HEADER) (block_size m block - HEADER), c))"

definition bump_block :: "nat \<Rightarrow> memory \<times> cluster \<Rightarrow> memory \<times> cluster" where
  "bump_block want mc = (case mc of (m, c) \<Rightarrow>
     (m(cl_base c + cl_bump c + 8 := want), mark_block_start (c\<lparr>cl_bump := cl_bump c + want\<rparr>) (cl_bump c)))"

definition try_alloc :: "nat \<Rightarrow> memory \<times> cluster \<Rightarrow> ((memory \<times> cluster) \<times> (nat \<times> alloc_path) option) option" where
  "try_alloc want mc = (case mc of (m, c) \<Rightarrow>
     (case find_fit m want ListHead (cl_free c) of
        None \<Rightarrow> None
      | Some (Some (prev, block)) \<Rightarrow> Some (take_block want prev block mc, Some (block, PathFreeList))
      | Some None \<Rightarrow>
          Some (if cl_bump c + want \<le> cl_size c
                then (bump_block want mc, Some (cl_base c + cl_bump c, PathBump))
                else (mc, None))))"

text \<open>The payload of the allocated block that holds an address, if there is one.\<close>

definition resolve :: "memory \<Rightarrow> cluster \<Rightarrow> nat \<Rightarrow> nat option" where
  "resolve m c a =
     (if \<not> cl_contains c a then None
      else case block_start_at_or_below c (a - cl_base c) of
        None \<Rightarrow> None
      | Some off \<Rightarrow>
          (let block = cl_base c + off; sz = block_size m block
           in if sz < MIN_BLOCK \<or> cl_bump c < off + sz then None
              else if block + sz \<le> a then None
              else if is_free m block then None
              else if a < block + HEADER then None
              else Some (block + HEADER)))"

section \<open>The registry of type descriptors\<close>

record td_entry =
  te_addr :: nat
  te_blocks :: u64
  te_owner :: "string option"
  te_size :: int

type_synonym registry = "nat \<Rightarrow> td_entry option"

definition descriptor_size :: "(nat \<Rightarrow> type_desc) \<Rightarrow> nat \<Rightarrow> int" where
  "descriptor_size desc td = (if td = 0 then 0 else td_size (desc td))"

definition record_type :: "(nat \<Rightarrow> type_desc) \<Rightarrow> nat \<Rightarrow> string option \<Rightarrow> registry \<Rightarrow> registry" where
  "record_type desc td owner r =
     (case r td of
        Some e \<Rightarrow> r
      | None \<Rightarrow> r(td \<mapsto> \<lparr>te_addr = td, te_blocks = 0, te_owner = owner, te_size = descriptor_size desc td\<rparr>))"

definition inc_type :: "(nat \<Rightarrow> type_desc) \<Rightarrow> nat \<Rightarrow> registry \<Rightarrow> registry" where
  "inc_type desc td r =
     (let e = (case r td of
                 Some e \<Rightarrow> e
               | None \<Rightarrow> \<lparr>te_addr = td, te_blocks = 0, te_owner = None, te_size = descriptor_size desc td\<rparr>)
      in r(td \<mapsto> e\<lparr>te_blocks := if te_blocks e = - 1 then te_blocks e else te_blocks e + 1\<rparr>))"

definition dec_type :: "nat \<Rightarrow> registry \<Rightarrow> registry" where
  "dec_type td r =
     (case r td of
        Some e \<Rightarrow> if 0 < te_blocks e then r(td \<mapsto> e\<lparr>te_blocks := te_blocks e - 1\<rparr>) else r
      | None \<Rightarrow> r)"

section \<open>Marking\<close>

text \<open>Whether the descriptor of a block is known and fits the block, as marking and sweeping both test.\<close>

definition known_type :: "(nat \<Rightarrow> type_desc) \<Rightarrow> registry \<Rightarrow> memory \<Rightarrow> nat \<Rightarrow> bool" where
  "known_type desc r m b \<longleftrightarrow>
     (let td = type_bits m b; claimed = td_size (desc td)
      in r td \<noteq> None \<and> 0 < claimed \<and> nat claimed \<le> block_size m b - HEADER)"

definition children :: "(nat \<Rightarrow> type_desc) \<Rightarrow> registry \<Rightarrow> memory \<Rightarrow> nat \<Rightarrow> nat list" where
  "children desc r m p =
     (let b = p - HEADER
      in if known_type desc r m b
         then filter (\<lambda>q. q \<noteq> 0)
                (map (\<lambda>off. m (p + off))
                  (takeWhile (\<lambda>off. off + 8 \<le> block_size m b - HEADER) (pointer_offsets (desc (type_bits m b)))))
         else [])"

text \<open>The work list is a vector used as a stack: its last element is popped first.\<close>

partial_function (option) mark_loop :: "(nat \<Rightarrow> type_desc) \<Rightarrow> registry \<Rightarrow> memory \<Rightarrow> nat list \<Rightarrow> memory option" where
  "mark_loop desc r m work =
     (if work = [] then Some m
      else if hd work = 0 then mark_loop desc r m (tl work)
      else if is_marked m (hd work - HEADER) \<or> is_free m (hd work - HEADER) then mark_loop desc r m (tl work)
      else mark_loop desc r (set_mark m (hd work - HEADER)) (rev (children desc r m (hd work)) @ tl work))"

definition mark_object :: "(nat \<Rightarrow> type_desc) \<Rightarrow> registry \<Rightarrow> memory \<Rightarrow> nat \<Rightarrow> memory option" where
  "mark_object desc r m p = mark_loop desc r m [p]"

fun resolve_heap_ptr :: "memory \<Rightarrow> cluster list \<Rightarrow> nat \<Rightarrow> nat option" where
  "resolve_heap_ptr m [] a = None"
| "resolve_heap_ptr m (c # cs) a =
     (if a = 0 then None
      else case resolve m c a of Some p \<Rightarrow> Some p | None \<Rightarrow> resolve_heap_ptr m cs a)"

text \<open>Marking from a list of values, each taken for a pointer into the heap if it resolves to a block.\<close>

fun mark_values :: "(nat \<Rightarrow> type_desc) \<Rightarrow> registry \<Rightarrow> cluster list \<Rightarrow> nat list \<Rightarrow> memory \<times> u64 \<Rightarrow> (memory \<times> u64) option" where
  "mark_values desc r cs [] mk = Some mk"
| "mark_values desc r cs (v # vs) (m, k) =
     (case resolve_heap_ptr m cs v of
        None \<Rightarrow> mark_values desc r cs vs (m, k)
      | Some p \<Rightarrow> Option.bind (mark_object desc r m p) (\<lambda>m'. mark_values desc r cs vs (m', k + 1)))"

record mutator =
  mu_stack_top :: nat
  mu_parked_sp :: nat
  mu_spill :: "nat list"

definition stack_words :: "memory \<Rightarrow> mutator \<Rightarrow> nat list" where
  "stack_words m mu =
     map (\<lambda>i. m (mu_parked_sp mu + 8 * i)) [0..<(mu_stack_top mu - mu_parked_sp mu + 7) div 8]"

text \<open>A mutator without a recorded stack is left out altogether, its registers too.\<close>

definition scanned_values :: "memory \<Rightarrow> mutator \<Rightarrow> nat list" where
  "scanned_values m mu =
     (if mu_parked_sp mu = 0 \<or> mu_stack_top mu = 0 \<or> mu_stack_top mu \<le> mu_parked_sp mu then []
      else stack_words m mu @ mu_spill mu)"

fun mark_mutators :: "(nat \<Rightarrow> type_desc) \<Rightarrow> registry \<Rightarrow> cluster list \<Rightarrow> mutator list \<Rightarrow> memory \<times> u64 \<Rightarrow>
    (memory \<times> u64) option" where
  "mark_mutators desc r cs [] mk = Some mk"
| "mark_mutators desc r cs (mu # mus) (m, k) =
     Option.bind (mark_values desc r cs (scanned_values m mu) (m, k)) (mark_mutators desc r cs mus)"

record module_roots =
  mr_name :: string
  mr_var_base :: nat
  mr_offsets :: "int list"

definition root_slots :: "module_roots \<Rightarrow> nat list" where
  "root_slots mr = map (\<lambda>off. nat (int (mr_var_base mr) + off)) (mr_offsets mr)"

fun mark_slots :: "(nat \<Rightarrow> type_desc) \<Rightarrow> registry \<Rightarrow> nat list \<Rightarrow> memory \<times> u64 \<Rightarrow> (memory \<times> u64) option" where
  "mark_slots desc r [] mk = Some mk"
| "mark_slots desc r (a # as) (m, k) =
     (if m a = 0 then mark_slots desc r as (m, k)
      else Option.bind (mark_object desc r m (m a)) (\<lambda>m'. mark_slots desc r as (m', k + 1)))"

section \<open>Clearing and sweeping\<close>

function clear_marks :: "memory \<Rightarrow> cluster \<Rightarrow> nat \<Rightarrow> memory" where
  "clear_marks m c off =
     (if off < cl_bump c \<and> MIN_BLOCK \<le> block_size m (cl_base c + off)
      then clear_marks (clear_mark m (cl_base c + off)) c (off + block_size m (cl_base c + off))
      else m)"
  by pat_completeness auto
termination by (relation "measure (\<lambda>(m, c, off). cl_bump c - off)") (auto simp: MIN_BLOCK_def)

record sweep_stats =
  sw_blocks_freed :: u64
  sw_bytes_freed :: u64
  sw_live_blocks :: u64
  sw_bytes_live :: u64

definition no_stats :: sweep_stats where
  "no_stats = \<lparr>sw_blocks_freed = 0, sw_bytes_freed = 0, sw_live_blocks = 0, sw_bytes_live = 0\<rparr>"

record sweep_state =
  ss_mem :: memory
  ss_cluster :: cluster
  ss_registry :: registry
  ss_pending :: "(nat \<times> nat) list"
  ss_stats :: sweep_stats
  ss_prev_free :: nat

definition count_live :: "nat \<Rightarrow> sweep_stats \<Rightarrow> sweep_stats" where
  "count_live sz s = s\<lparr>sw_live_blocks := sw_live_blocks s + 1, sw_bytes_live := sw_bytes_live s + of_nat sz\<rparr>"

definition count_freed :: "nat \<Rightarrow> sweep_stats \<Rightarrow> sweep_stats" where
  "count_freed sz s = s\<lparr>sw_blocks_freed := sw_blocks_freed s + 1, sw_bytes_freed := sw_bytes_freed s + of_nat sz\<rparr>"

text \<open>What the death of a block does besides freeing it: the registry's count and the finalizer.\<close>

definition bury :: "(nat \<Rightarrow> type_desc) \<Rightarrow> nat \<Rightarrow> sweep_state \<Rightarrow> sweep_state" where
  "bury desc b s =
     (let td = type_bits (ss_mem s) b;
          r = dec_type td (ss_registry s);
          pend = (if known_type desc r (ss_mem s) b
                  then case td_finalizer (desc td) of
                         Some fin \<Rightarrow> ss_pending s @ [(fin, b + HEADER)]
                       | None \<Rightarrow> ss_pending s
                  else ss_pending s)
      in s\<lparr>ss_registry := r, ss_pending := pend, ss_stats := count_freed (block_size (ss_mem s) b) (ss_stats s)\<rparr>)"

text \<open>A free or dead block is joined to the free block before it, or becomes the head of the free list.\<close>

definition join_free :: "nat \<Rightarrow> sweep_state \<Rightarrow> sweep_state" where
  "join_free b s =
     (let m = ss_mem s; c = ss_cluster s; pf = ss_prev_free s; sz = block_size m b
      in if pf \<noteq> 0
         then s\<lparr>ss_mem := m(pf + 8 := block_size m pf + sz), ss_cluster := clear_block_start c (b - cl_base c)\<rparr>
         else s\<lparr>ss_mem := m(b := 0, b + 8 := sz, b + HEADER := cl_free c), ss_cluster := c\<lparr>cl_free := b\<rparr>,
                ss_prev_free := b\<rparr>)"

definition sweep_block :: "(nat \<Rightarrow> type_desc) \<Rightarrow> nat \<Rightarrow> sweep_state \<Rightarrow> sweep_state" where
  "sweep_block desc b s =
     (let m = ss_mem s
      in if \<not> is_free m b \<and> is_marked m b
         then s\<lparr>ss_mem := clear_mark m b, ss_stats := count_live (block_size m b) (ss_stats s), ss_prev_free := 0\<rparr>
         else join_free b (if \<not> is_free m b then bury desc b s else s))"

lemma cl_bump_start [simp]:
  "cl_bump (mark_block_start c off) = cl_bump c" "cl_bump (clear_block_start c off) = cl_bump c"
  "cl_base (mark_block_start c off) = cl_base c" "cl_base (clear_block_start c off) = cl_base c"
  "cl_size (mark_block_start c off) = cl_size c" "cl_size (clear_block_start c off) = cl_size c"
  "cl_free (mark_block_start c off) = cl_free c" "cl_free (clear_block_start c off) = cl_free c"
  by (simp_all add: mark_block_start_def clear_block_start_def Let_def)

lemma sweep_block_cluster [simp]:
  "cl_bump (ss_cluster (sweep_block desc b s)) = cl_bump (ss_cluster s)"
  "cl_base (ss_cluster (sweep_block desc b s)) = cl_base (ss_cluster s)"
  "cl_size (ss_cluster (sweep_block desc b s)) = cl_size (ss_cluster s)"
  by (simp_all add: sweep_block_def join_free_def bury_def Let_def)

function sweep_loop :: "(nat \<Rightarrow> type_desc) \<Rightarrow> nat \<Rightarrow> sweep_state \<Rightarrow> sweep_state" where
  "sweep_loop desc off s =
     (let c = ss_cluster s; b = cl_base c + off; sz = block_size (ss_mem s) b
      in if off < cl_bump c \<and> MIN_BLOCK \<le> sz \<and> off + sz \<le> cl_bump c
         then sweep_loop desc (off + sz) (sweep_block desc b s)
         else s)"
  by pat_completeness auto
termination by (relation "measure (\<lambda>(desc, off, s). cl_bump (ss_cluster s) - off)") (auto simp: MIN_BLOCK_def)

definition cluster_sweep :: "(nat \<Rightarrow> type_desc) \<Rightarrow> memory \<Rightarrow> cluster \<Rightarrow> registry \<Rightarrow> (nat \<times> nat) list \<Rightarrow> sweep_state" where
  "cluster_sweep desc m c r pend =
     sweep_loop desc 0 \<lparr>ss_mem = m, ss_cluster = c\<lparr>cl_free := 0\<rparr>, ss_registry = r, ss_pending = pend,
                        ss_stats = no_stats, ss_prev_free = 0\<rparr>"

end
