(* ===== verification/GcLayout.thy ===== *)
theory GcLayout
  imports Gc
begin

text \<open>
  What a cluster of the collector's heap looks like: its blocks tile the used part, the bitmap has a
  bit for each of them, the free list links the free ones. Lemmas on the bitmap and on the tiling.
\<close>

section \<open>The bitmap of block starts\<close>

definition started :: "cluster \<Rightarrow> nat \<Rightarrow> bool" where
  "started c k \<longleftrightarrow> k div 64 < length (cl_starts c) \<and> bit (cl_starts c ! (k div 64)) (k mod 64)"

lemma bit_u64_less: "bit (w :: u64) i \<Longrightarrow> i < 64"
  using bit_imp_le_length by fastforce

text \<open>The last index with a property, as a count of trailing indices without it.\<close>

lemma takeWhile_rev_upt:
  assumes "\<exists>i < n. P i"
  shows "P (n - 1 - length (takeWhile (\<lambda>i. \<not> P i) (rev [0..<n]))) \<and>
    length (takeWhile (\<lambda>i. \<not> P i) (rev [0..<n])) < n \<and>
    (\<forall>i < n. P i \<longrightarrow> i \<le> n - 1 - length (takeWhile (\<lambda>i. \<not> P i) (rev [0..<n])))"
  using assms
proof (induction n)
  case (Suc n)
  show ?case
  proof (cases "P n")
    case True
    then show ?thesis by auto
  next
    case False
    then have "\<exists>i < n. P i" using Suc.prems less_Suc_eq by auto
    then show ?thesis using Suc.IH False by (auto simp: less_Suc_eq)
  qed
qed simp

lemma top_bit_greatest:
  assumes "w \<noteq> 0"
  shows "bit w (top_bit w) \<and> top_bit w < 64 \<and> (\<forall>i. bit w i \<longrightarrow> i \<le> top_bit w)"
proof -
  obtain i where "bit w i" using assms bit_eq_iff [of w 0] by auto
  then have "\<exists>i < 64. bit w i" using bit_u64_less by blast
  then show ?thesis using takeWhile_rev_upt [of 64 "bit w"] bit_u64_less unfolding top_bit_def by force
qed

lemma last_start_Some:
  "last_start ws n = Some off \<Longrightarrow> n \<le> length ws \<Longrightarrow>
     \<exists>k. off = k * 16 \<and> k < 64 * n \<and> bit (ws ! (k div 64)) (k mod 64) \<and>
         (\<forall>j. k < j \<and> j < 64 * n \<longrightarrow> \<not> bit (ws ! (j div 64)) (j mod 64))"
proof (induction n)
  case (Suc n)
  show ?case
  proof (cases "ws ! n = 0")
    case True
    then obtain k where k: "off = k * 16" "k < 64 * n" "bit (ws ! (k div 64)) (k mod 64)"
      "\<forall>j. k < j \<and> j < 64 * n \<longrightarrow> \<not> bit (ws ! (j div 64)) (j mod 64)"
      using Suc by auto
    have "\<not> bit (ws ! (j div 64)) (j mod 64)" if "k < j" "j < 64 * Suc n" for j
    proof (cases "j < 64 * n")
      case False
      then have "j div 64 = n" using that by (simp add: div_nat_eqI)
      then show ?thesis using True by simp
    qed (use k that in auto)
    then show ?thesis using k by (intro exI [of _ k]) auto
  next
    case False
    note t = top_bit_greatest [OF False]
    let ?k = "n * 64 + top_bit (ws ! n)"
    have "\<not> bit (ws ! (j div 64)) (j mod 64)" if "?k < j" "j < 64 * Suc n" for j
    proof -
      have "j div 64 = n" using that by (intro div_nat_eqI) auto
      moreover have "top_bit (ws ! n) < j mod 64" using that calculation mult_div_mod_eq [of 64 j] by linarith
      ultimately show ?thesis using t by auto
    qed
    then show ?thesis using t Suc.prems False by (intro exI [of _ ?k]) (auto simp: BLOCK_ALIGN_def)
  qed
qed simp

lemma last_start_None: "last_start ws n = None \<Longrightarrow> j < 64 * n \<Longrightarrow> \<not> bit (ws ! (j div 64)) (j mod 64)"
proof (induction n)
  case (Suc n)
  have z: "ws ! n = 0" "last_start ws n = None" using Suc.prems by (auto split: if_splits)
  show ?case
  proof (cases "j < 64 * n")
    case False
    then have "j div 64 = n" using Suc.prems by (intro div_nat_eqI) auto
    then show ?thesis using z by simp
  qed (use Suc z in blast)
qed simp

lemma low_mask_bits: "i < 64 \<Longrightarrow> bit (low_mask i) j \<longleftrightarrow> j \<le> i \<and> j < 64"
proof -
  assume i: "i < 64"
  show ?thesis
  proof (cases "i = 63")
    case True
    then show ?thesis by (auto simp: low_mask_def)
  next
    case False
    have "push_bit (i + 1) 1 - 1 = (mask (i + 1) :: u64)" by (simp add: mask_eq_exp_minus_1 push_bit_eq_mult)
    then show ?thesis using False i by (auto simp: low_mask_def bit_mask_iff)
  qed
qed

lemma same_word: "64 * (n div 64) \<le> j \<Longrightarrow> j \<le> n \<Longrightarrow> j div 64 = n div 64 \<and> j mod 64 \<le> n mod 64" for n j :: nat
proof -
  assume j: "64 * (n div 64) \<le> j" "j \<le> n"
  have "j div 64 \<le> n div 64" using j(2) by (rule div_le_mono)
  moreover have "n div 64 \<le> j div 64" using div_le_mono [OF j(1), of 64] by simp
  ultimately have d: "j div 64 = n div 64" by (rule order_antisym)
  have "64 * (j div 64) + j mod 64 \<le> 64 * (n div 64) + n mod 64"
    using j(2) by (simp only: mult_div_mod_eq)
  then show ?thesis unfolding d by (simp only: add_le_cancel_left simp_thms)
qed

text \<open>The greatest marked start at or below an offset.\<close>

lemma block_start_Some:
  assumes r: "block_start_at_or_below c offset = Some off"
    and b: "min offset (cl_bump c - 16) div 16 < 64 * length (cl_starts c)"
  shows "\<exists>k. off = k * 16 \<and> k \<le> min offset (cl_bump c - 16) div 16 \<and> started c k \<and>
    (\<forall>j. k < j \<and> j \<le> min offset (cl_bump c - 16) div 16 \<longrightarrow> \<not> started c j)"
proof -
  define n where "n = min offset (cl_bump c - 16) div 16"
  let ?w = "n div 64" and ?ws = "cl_starts c"
  have w: "?w < length ?ws" using b by (simp add: n_def)
  let ?first = "and (?ws ! ?w) (low_mask (n mod 64))"
  have first: "bit ?first i \<longleftrightarrow> bit (?ws ! ?w) i \<and> i \<le> n mod 64" for i
    using low_mask_bits [of "n mod 64" i] bit_u64_less [of "?ws ! ?w" i] by (auto simp: bit_and_iff)
  note in_word = same_word [of n]
  show ?thesis
  proof (cases "?first = 0")
    case False
    note t = top_bit_greatest [OF False]
    let ?k = "?w * 64 + top_bit ?first"
    have k: "off = ?k * 16" using r False by (simp add: block_start_at_or_below_def Let_def BLOCK_ALIGN_def n_def)
    have d: "?k div 64 = ?w" "?k mod 64 = top_bit ?first" using t by auto
    have "?k \<le> n" using t first mult_div_mod_eq [of 64 n] by (metis add.commute add_le_cancel_right mult.commute)
    moreover have "started c ?k" using t first d w by (simp add: started_def)
    moreover have "\<not> started c j" if "?k < j" "j \<le> n" for j
    proof -
      have j: "j div 64 = ?w" "j mod 64 \<le> n mod 64" using in_word [of j] that by auto
      have "top_bit ?first < j mod 64" using that j mult_div_mod_eq [of 64 j] by linarith
      then show ?thesis using t first j by (auto simp: started_def)
    qed
    ultimately show ?thesis using k unfolding n_def [symmetric] by blast
  next
    case True
    then have "last_start ?ws ?w = Some off"
      using r by (simp add: block_start_at_or_below_def Let_def BLOCK_ALIGN_def n_def)
    then obtain k where k: "off = k * 16" "k < 64 * ?w" "bit (?ws ! (k div 64)) (k mod 64)"
      "\<forall>j. k < j \<and> j < 64 * ?w \<longrightarrow> \<not> bit (?ws ! (j div 64)) (j mod 64)"
      using last_start_Some w by (metis less_imp_le)
    have "started c k" using k w by (auto simp: started_def)
    moreover have "\<not> started c j" if "k < j" "j \<le> n" for j
    proof (cases "j < 64 * ?w")
      case False
      then have "j div 64 = ?w" "j mod 64 \<le> n mod 64" using in_word [of j] that by auto
      then show ?thesis using True first by (auto simp: started_def bit_eq_iff [of ?first])
    qed (use k that in \<open>auto simp: started_def\<close>)
    moreover have "k \<le> n" using k(2) mult_div_mod_eq [of 64 n] by linarith
    ultimately show ?thesis using k(1) unfolding n_def [symmetric] by blast
  qed
qed

lemma block_start_None:
  assumes r: "block_start_at_or_below c offset = None"
    and b: "min offset (cl_bump c - 16) div 16 < 64 * length (cl_starts c)" and j: "j \<le> min offset (cl_bump c - 16) div 16"
  shows "\<not> started c j"
proof -
  define n where "n = min offset (cl_bump c - 16) div 16"
  let ?w = "n div 64" and ?ws = "cl_starts c"
  let ?first = "and (?ws ! ?w) (low_mask (n mod 64))"
  have z: "?first = 0" "last_start ?ws ?w = None"
    using r by (auto simp: block_start_at_or_below_def Let_def n_def BLOCK_ALIGN_def split: if_splits)
  show ?thesis
  proof (cases "j < 64 * ?w")
    case True
    then show ?thesis using last_start_None [OF z(2)] by (auto simp: started_def)
  next
    case False
    have d: "j div 64 = ?w" "j mod 64 \<le> n mod 64" using same_word [of n j] j False by (auto simp: n_def)
    then have "bit ?first (j mod 64) \<longleftrightarrow> bit (?ws ! ?w) (j mod 64)"
      using low_mask_bits [of "n mod 64" "j mod 64"] by (simp add: bit_and_iff)
    then show ?thesis using z(1) d by (simp add: started_def)
  qed
qed

lemma started_mark:
  assumes "off div 16 < 64 * length (cl_starts c)"
  shows "started (mark_block_start c off) k \<longleftrightarrow> k = off div 16 \<or> started c k"
proof -
  have l: "off div 16 div 64 < length (cl_starts c)" using assms by auto
  have "k = off div 16 \<longleftrightarrow> k div 64 = off div 16 div 64 \<and> k mod 64 = off div 16 mod 64"
    by (metis div_mult_mod_eq)
  then show ?thesis using l
    by (auto simp: started_def mark_block_start_def Let_def BLOCK_ALIGN_def nth_list_update bit_set_bit_iff)
qed

lemma started_clear: "started (clear_block_start c off) k \<longleftrightarrow> k \<noteq> off div 16 \<and> started c k"
proof -
  have "k = off div 16 \<longleftrightarrow> k div 64 = off div 16 div 64 \<and> k mod 64 = off div 16 mod 64"
    by (metis div_mult_mod_eq)
  then show ?thesis
    by (cases "off div 16 div 64 < length (cl_starts c)")
      (auto simp: started_def clear_block_start_def Let_def BLOCK_ALIGN_def nth_list_update bit_unset_bit_iff)
qed

end
