(* ===== verification/GcBlocks.thy ===== *)
theory GcBlocks
  imports GcLayout
begin

text \<open>
  The blocks of a cluster as a list of sizes that is laid out in memory, the chain of free blocks, and
  the invariant of a cluster. What \<open>resolve\<close> finds in such a cluster.
\<close>

section \<open>Blocks laid out in memory\<close>

text \<open>Blocks of given sizes, one after the other from an address on: address and size of each.\<close>

fun placed :: "nat \<Rightarrow> nat list \<Rightarrow> (nat \<times> nat) list" where
  "placed b [] = []"
| "placed b (sz # ss) = (b, sz) # placed (b + sz) ss"

fun laid :: "memory \<Rightarrow> nat \<Rightarrow> nat list \<Rightarrow> bool" where
  "laid m b [] \<longleftrightarrow> True"
| "laid m b (sz # ss) \<longleftrightarrow> m (b + 8) = sz \<and> 32 \<le> sz \<and> 16 dvd sz \<and> laid m (b + sz) ss"

definition heads :: "nat \<Rightarrow> nat list \<Rightarrow> nat set" where
  "heads b ss = fst ` set (placed b ss)"

lemma placed_append [simp]: "placed b (as @ ss) = placed b as @ placed (b + sum_list as) ss"
  by (induction b as rule: placed.induct) (simp_all add: add.assoc)

lemma laid_append [simp]: "laid m b (as @ ss) \<longleftrightarrow> laid m b as \<and> laid m (b + sum_list as) ss"
  by (induction m b as rule: laid.induct) (simp_all add: add.assoc)

lemma heads_simps [simp]: "heads b [] = {}" "heads b (sz # ss) = insert b (heads (b + sz) ss)"
  "heads b (as @ ss) = heads b as \<union> heads (b + sum_list as) ss"
  by (auto simp: heads_def)

lemma heads_placed: "a \<in> heads b ss \<longleftrightarrow> (\<exists>sz. (a, sz) \<in> set (placed b ss))"
  by (force simp: heads_def)

lemma laid_iff: "laid m b ss \<longleftrightarrow> (\<forall>(a, sz) \<in> set (placed b ss). m (a + 8) = sz \<and> 32 \<le> sz \<and> 16 dvd sz)"
  by (induction m b ss rule: laid.induct) auto

lemma laidD: "laid m b ss \<Longrightarrow> (a, sz) \<in> set (placed b ss) \<Longrightarrow> m (a + 8) = sz \<and> 32 \<le> sz \<and> 16 dvd sz"
  unfolding laid_iff by fastforce

lemma headsD: "laid m b ss \<Longrightarrow> a \<in> heads b ss \<Longrightarrow> (a, m (a + 8)) \<in> set (placed b ss) \<and> 32 \<le> m (a + 8) \<and> 16 dvd m (a + 8)"
  using laidD heads_placed by blast

lemma placed_bounds: "(a, sz) \<in> set (placed b ss) \<Longrightarrow> b \<le> a \<and> a + sz \<le> b + sum_list ss"
  by (induction b ss rule: placed.induct) fastforce+

lemma head_bounds: "laid m b ss \<Longrightarrow> a \<in> heads b ss \<Longrightarrow> b \<le> a \<and> a + m (a + 8) \<le> b + sum_list ss"
  using placed_bounds headsD by metis

lemma heads_ge: "a \<in> heads b ss \<Longrightarrow> b \<le> a"
  using placed_bounds by (fastforce simp: heads_def)

lemma heads_split: "a \<in> heads b ss \<Longrightarrow> \<exists>as sz cs. ss = as @ sz # cs \<and> a = b + sum_list as"
proof (induction b ss rule: placed.induct)
  case (2 b s ss)
  show ?case
  proof (cases "a = b")
    case True
    then show ?thesis by (intro exI [of _ "[]"]) auto
  next
    case False
    then obtain as sz cs where "ss = as @ sz # cs" "a = b + s + sum_list as" using 2 by auto
    then show ?thesis by (intro exI [of _ "s # as"]) auto
  qed
qed simp

lemma heads_apart:
  assumes "laid m b ss" "a \<in> heads b ss" "a' \<in> heads b ss"
  shows "a = a' \<or> a + m (a + 8) \<le> a' \<or> a' + m (a' + 8) \<le> a"
  using assms
proof (induction m b ss rule: laid.induct)
  case (2 m b s ss)
  have "b + s \<le> x" if "x \<in> heads (b + s) ss" for x using heads_ge that by blast
  then show ?case using 2 by auto
qed simp

lemma heads_aligned: "laid m b ss \<Longrightarrow> 16 dvd b \<Longrightarrow> a \<in> heads b ss \<Longrightarrow> 16 dvd a"
  by (induction m b ss rule: laid.induct) auto

lemma heads_cover:
  "laid m b ss \<Longrightarrow> b \<le> x \<Longrightarrow> x < b + sum_list ss \<Longrightarrow> \<exists>a \<in> heads b ss. a \<le> x \<and> x < a + m (a + 8)"
proof (induction m b ss rule: laid.induct)
  case (2 m b sz ss)
  show ?case
  proof (cases "x < b + sz")
    case False
    then show ?thesis using 2 by auto
  qed (use 2 in auto)
qed simp

lemma interior: "laid m b ss \<Longrightarrow> a \<in> heads b ss \<Longrightarrow> a < x \<Longrightarrow> x < a + m (a + 8) \<Longrightarrow> x \<notin> heads b ss"
  using heads_apart headsD by fastforce

lemma size_word: "laid m b ss \<Longrightarrow> a \<in> heads b ss \<Longrightarrow> a + 8 \<notin> heads b ss"
  using interior headsD by fastforce

lemma laid_frame: "laid m b ss \<Longrightarrow> (\<And>a. a \<in> heads b ss \<Longrightarrow> m' (a + 8) = m (a + 8)) \<Longrightarrow> laid m' b ss"
  by (induction m b ss rule: laid.induct) auto

lemma distinct_heads: "laid m b ss \<Longrightarrow> distinct (map fst (placed b ss))"
proof (induction m b ss rule: laid.induct)
  case (2 m b sz ss)
  then have "b \<notin> heads (b + sz) ss" using heads_ge [of b "b + sz" ss] by auto
  then show ?case using 2 by (simp add: heads_def)
qed simp

section \<open>The chain of free blocks\<close>

fun chain :: "memory \<Rightarrow> nat \<Rightarrow> nat list \<Rightarrow> bool" where
  "chain m a [] \<longleftrightarrow> a = 0"
| "chain m a (x # xs) \<longleftrightarrow> a = x \<and> x \<noteq> 0 \<and> chain m (m (x + 16)) xs"

lemma chain_frame: "chain m a xs \<Longrightarrow> (\<And>x. x \<in> set xs \<Longrightarrow> m' (x + 16) = m (x + 16)) \<Longrightarrow> chain m' a xs"
  by (induction m a xs rule: chain.induct) auto

section \<open>Well-formed clusters\<close>

definition free_heads :: "memory \<Rightarrow> nat \<Rightarrow> nat list \<Rightarrow> nat set" where
  "free_heads m b ss = {a \<in> heads b ss. is_free m a}"

definition used_heads :: "memory \<Rightarrow> nat \<Rightarrow> nat list \<Rightarrow> nat set" where
  "used_heads m b ss = {a \<in> heads b ss. \<not> is_free m a}"

definition cluster_frame :: "cluster \<Rightarrow> bool" where
  "cluster_frame c \<longleftrightarrow> 0 < cl_base c \<and> 16 dvd cl_base c \<and> 16 dvd cl_size c \<and> cl_bump c \<le> cl_size c \<and>
     cl_size c div 16 \<le> 64 * length (cl_starts c)"

definition bitmap_of :: "cluster \<Rightarrow> nat list \<Rightarrow> bool" where
  "bitmap_of c ss \<longleftrightarrow> (\<forall>k. started c k \<longleftrightarrow> cl_base c + 16 * k \<in> heads (cl_base c) ss)"

definition free_list_of :: "memory \<Rightarrow> cluster \<Rightarrow> nat list \<Rightarrow> bool" where
  "free_list_of m c ss \<longleftrightarrow>
     (\<exists>fl. chain m (cl_free c) fl \<and> distinct fl \<and> set fl = free_heads m (cl_base c) ss)"

definition wf_cluster :: "memory \<Rightarrow> cluster \<Rightarrow> nat list \<Rightarrow> bool" where
  "wf_cluster m c ss \<longleftrightarrow>
     cluster_frame c \<and> laid m (cl_base c) ss \<and> cl_bump c = sum_list ss \<and> bitmap_of c ss \<and> free_list_of m c ss"

section \<open>Finding the block of an address\<close>

lemma bump_aligned: "laid m b ss \<Longrightarrow> 16 dvd sum_list ss"
  by (induction m b ss rule: laid.induct) auto

lemma wf_clusterD:
  assumes "wf_cluster m c ss"
  shows "laid m (cl_base c) ss" "cl_bump c = sum_list ss" "16 dvd cl_base c" "0 < cl_base c" "16 dvd cl_bump c"
    "cl_bump c \<le> cl_size c" "cluster_frame c" "bitmap_of c ss" "free_list_of m c ss"
  using assms bump_aligned by (auto simp: wf_cluster_def cluster_frame_def)

lemma head_index:
  assumes "wf_cluster m c ss" "b \<in> heads (cl_base c) ss"
  obtains k where "b = cl_base c + 16 * k" "started c k"
proof -
  note w = wf_clusterD [OF assms(1)]
  have "cl_base c \<le> b" using heads_ge assms(2) by blast
  moreover have "16 dvd b" using heads_aligned [OF w(1,3) assms(2)] .
  ultimately have "16 dvd b - cl_base c" using w(3) by (simp add: dvd_diff_nat)
  then obtain k where "b = cl_base c + 16 * k" using \<open>cl_base c \<le> b\<close> by (metis dvdE le_add_diff_inverse)
  moreover from this have "started c k" using w(8) assms(2) by (simp add: bitmap_of_def)
  ultimately show ?thesis by (rule that)
qed

lemma start_index_bound:
  assumes "wf_cluster m c ss" "off < cl_bump c"
  shows "min off (cl_bump c - 16) div 16 = off div 16" "off div 16 < 64 * length (cl_starts c)"
proof -
  note w = wf_clusterD [OF assms(1)]
  have "off div 16 \<le> (cl_bump c - 16) div 16"
  proof -
    obtain q where q: "cl_bump c = 16 * q" using w(5) by blast
    then have "off div 16 < q" using assms(2) by (simp add: less_mult_imp_div_less mult.commute)
    then show ?thesis using q by (simp add: algebra_simps)
  qed
  then show "min off (cl_bump c - 16) div 16 = off div 16" by (simp add: min_def div_le_mono order_antisym)
  have "16 dvd cl_size c" "cl_size c div 16 \<le> 64 * length (cl_starts c)" using w(7) by (auto simp: cluster_frame_def)
  moreover have "off < cl_size c" using assms w(6) by simp
  ultimately show "off div 16 < 64 * length (cl_starts c)" by (metis dvd_mult_div_cancel less_mult_imp_div_less mult.commute order_less_le_trans)
qed

lemma block_start_covering:
  assumes wf: "wf_cluster m c ss" and b: "b \<in> heads (cl_base c) ss" "b \<le> a" "a < b + m (b + 8)"
  shows "block_start_at_or_below c (a - cl_base c) = Some (b - cl_base c)"
proof -
  note w = wf_clusterD [OF wf]
  obtain k where k: "b = cl_base c + 16 * k" "started c k" using head_index [OF wf b(1)] .
  let ?off = "a - cl_base c"
  have "?off < cl_bump c" using head_bounds [OF w(1) b(1)] b w(2) by linarith
  note s = start_index_bound [OF wf this]
  have k_le: "k \<le> ?off div 16" using b(2) k(1) by (simp add: less_eq_div_iff_mult_less_eq)
  have last: "\<not> started c j" if "k < j" "j \<le> ?off div 16" for j
  proof
    assume "started c j"
    then have "cl_base c + 16 * j \<in> heads (cl_base c) ss" using w(8) by (simp add: bitmap_of_def)
    moreover have "16 * j \<le> ?off" using that(2) by (simp add: less_eq_div_iff_mult_less_eq mult.commute)
    then have "cl_base c + 16 * j \<le> a" using k b(2) by simp
    ultimately show False using interior [OF w(1) b(1)] that(1) k(1) b(3) by fastforce
  qed
  show ?thesis
  proof (cases "block_start_at_or_below c ?off")
    case None
    then show ?thesis using block_start_None [OF None] s k k_le by auto
  next
    case (Some off)
    then obtain j where j: "off = j * 16" "j \<le> ?off div 16" "started c j" "\<forall>i. j < i \<and> i \<le> ?off div 16 \<longrightarrow> \<not> started c i"
      using block_start_Some [OF Some] s by auto
    then have "j = k" using last k k_le by (meson linorder_neqE_nat)
    then show ?thesis using Some j(1) k(1) by simp
  qed
qed

text \<open>An address resolves exactly if it lies in the payload of an allocated block, and to that block.\<close>

lemma resolve_iff:
  assumes wf: "wf_cluster m c ss"
  shows "resolve m c a = Some p \<longleftrightarrow>
    (\<exists>b \<in> used_heads m (cl_base c) ss. p = b + 16 \<and> b + 16 \<le> a \<and> a < b + m (b + 8))"
proof -
  note w = wf_clusterD [OF wf]
  show ?thesis
  proof (cases "cl_contains c a")
    case False
    then have "\<not> (b + 16 \<le> a \<and> a < b + m (b + 8))" if "b \<in> heads (cl_base c) ss" for b
      using head_bounds [OF w(1) that] w(2) by (auto simp: cl_contains_def)
    then show ?thesis using False by (auto simp: resolve_def used_heads_def)
  next
    case True
    then obtain b where b: "b \<in> heads (cl_base c) ss" "b \<le> a" "a < b + m (b + 8)"
      using heads_cover [OF w(1)] w(2) by (auto simp: cl_contains_def)
    have bb: "cl_base c \<le> b" "b + m (b + 8) \<le> cl_base c + cl_bump c" "32 \<le> m (b + 8)"
      using head_bounds [OF w(1) b(1)] headsD [OF w(1) b(1)] w(2) by auto
    have res: "resolve m c a = (if is_free m b \<or> a < b + 16 then None else Some (b + 16))"
      using True bb b block_start_covering [OF wf b] by (auto simp: resolve_def Let_def block_size_def MIN_BLOCK_def HEADER_def)
    have "b' = b" if "b' \<in> heads (cl_base c) ss" "b' \<le> a" "a < b' + m (b' + 8)" for b'
      using heads_apart [OF w(1) that(1) b(1)] that b by auto
    then have "b' = b" if "b' \<in> used_heads m (cl_base c) ss" "b' + 16 \<le> a" "a < b' + m (b' + 8)" for b'
      using that by (simp add: used_heads_def)
    then have "(\<exists>b' \<in> used_heads m (cl_base c) ss. p = b' + 16 \<and> b' + 16 \<le> a \<and> a < b' + m (b' + 8)) \<longleftrightarrow>
        b \<in> used_heads m (cl_base c) ss \<and> p = b + 16 \<and> b + 16 \<le> a"
      using b(3) by metis
    then show ?thesis using res b(1) by (auto simp: used_heads_def)
  qed
qed

end
