(* ===== verification/GcHeap.thy ===== *)
theory GcHeap
  imports Gc
begin

text \<open>
  The collector's heap as a whole (\<open>newm2-runtime/src/gc.rs\<close>): counters, the log of collections, a
  collection cycle, allocation with its slow path, module roots and the tuning of the pressure trigger.

  A collection needs all mutators parked; whether they park within the deadline, the time it takes, the
  base address of a new cluster and the finalizers, which are compiled code, are parameters.
\<close>

section \<open>Counters and log\<close>

record heap_counters =
  hc_alloc_blocks_lifetime :: u64
  hc_alloc_bytes_lifetime :: u64
  hc_free_blocks_lifetime :: u64
  hc_free_bytes_lifetime :: u64
  hc_bump_path_blocks :: u64
  hc_free_list_path_blocks :: u64
  hc_grow_events :: u64
  hc_collect_cycles :: u64
  hc_collect_total_nanos :: u64
  hc_collect_last_nanos :: u64
  hc_collect_last_reclaimed_bytes :: u64
  hc_live_blocks :: u64
  hc_live_bytes :: u64
  hc_cluster_count :: u64
  hc_module_root_count :: u64
  hc_peak_live_bytes :: u64

record collect_record =
  cr_generation :: u64
  cr_elapsed_nanos :: u64
  cr_mutators_parked :: u64
  cr_roots_marked :: u64
  cr_blocks_freed :: u64
  cr_bytes_freed :: u64
  cr_bytes_live_after :: u64

record collect_log =
  lg_capacity :: nat
  lg_entries :: "collect_record list"

definition log_push :: "collect_record \<Rightarrow> collect_log \<Rightarrow> collect_log" where
  "log_push rec l =
     l\<lparr>lg_entries := (if length (lg_entries l) = lg_capacity l then tl (lg_entries l) else lg_entries l) @ [rec]\<rparr>"

record gc_heap =
  gh_mem :: memory
  gh_clusters :: "cluster list"
  gh_modules :: "module_roots list"
  gh_types :: registry
  gh_log :: collect_log
  gh_generation :: u64
  gh_pending :: "(nat \<times> nat) list"
  gh_counters :: heap_counters
  gh_pressure :: u64
  gh_threshold :: u64

record gc_env =
  ge_desc :: "nat \<Rightarrow> type_desc"
  ge_mutators :: "mutator list"
  ge_all_parked :: bool
  ge_nanos :: u64
  ge_finalize :: "(nat \<times> nat) list \<Rightarrow> memory \<Rightarrow> memory"
  ge_new_base :: nat

section \<open>A collection\<close>

definition clear_all_marks :: "cluster list \<Rightarrow> memory \<Rightarrow> memory" where
  "clear_all_marks cs m = fold (\<lambda>c m. clear_marks m c 0) cs m"

definition add_stats :: "sweep_stats \<Rightarrow> sweep_stats \<Rightarrow> sweep_stats" where
  "add_stats s t =
     \<lparr>sw_blocks_freed = sw_blocks_freed s + sw_blocks_freed t, sw_bytes_freed = sw_bytes_freed s + sw_bytes_freed t,
      sw_live_blocks = sw_live_blocks s + sw_live_blocks t, sw_bytes_live = sw_bytes_live s + sw_bytes_live t\<rparr>"

text \<open>The sweep of all clusters: memory, clusters, registry, finalizers to run, statistics.\<close>

fun sweep_all :: "(nat \<Rightarrow> type_desc) \<Rightarrow> cluster list \<Rightarrow> memory \<Rightarrow> registry \<Rightarrow> (nat \<times> nat) list \<Rightarrow>
    memory \<times> cluster list \<times> registry \<times> (nat \<times> nat) list \<times> sweep_stats" where
  "sweep_all desc [] m r pend = (m, [], r, pend, no_stats)"
| "sweep_all desc (c # cs) m r pend =
     (let s = cluster_sweep desc m c r pend;
          (m', cs', r', pend', st) = sweep_all desc cs (ss_mem s) (ss_registry s) (ss_pending s)
      in (m', ss_cluster s # cs', r', pend', add_stats (ss_stats s) st))"

definition mark_roots :: "(nat \<Rightarrow> type_desc) \<Rightarrow> mutator list \<Rightarrow> gc_heap \<Rightarrow> memory \<Rightarrow> (memory \<times> u64) option" where
  "mark_roots desc mus h m =
     Option.bind (mark_mutators desc (gh_types h) (gh_clusters h) mus (m, 0))
       (mark_slots desc (gh_types h) (concat (map root_slots (gh_modules h))))"

definition count_cycle :: "sweep_stats \<Rightarrow> nat \<Rightarrow> heap_counters \<Rightarrow> heap_counters" where
  "count_cycle st n hc =
     hc\<lparr>hc_free_blocks_lifetime := hc_free_blocks_lifetime hc + sw_blocks_freed st,
        hc_free_bytes_lifetime := hc_free_bytes_lifetime hc + sw_bytes_freed st,
        hc_live_blocks := sw_live_blocks st, hc_live_bytes := sw_bytes_live st,
        hc_cluster_count := of_nat n,
        hc_peak_live_bytes := max (hc_peak_live_bytes hc) (sw_bytes_live st)\<rparr>"

definition run_collect_cycle :: "(nat \<Rightarrow> type_desc) \<Rightarrow> mutator list \<Rightarrow> gc_heap \<Rightarrow> (gc_heap \<times> u64 \<times> sweep_stats) option" where
  "run_collect_cycle desc mus h =
     Option.bind (mark_roots desc mus h (clear_all_marks (gh_clusters h) (gh_mem h))) (\<lambda>(m, marked).
       let (m', cs, r, pend, st) = sweep_all desc (gh_clusters h) m (gh_types h) []
       in Some (h\<lparr>gh_mem := m', gh_clusters := cs, gh_types := r, gh_pending := gh_pending h @ pend,
                  gh_counters := count_cycle st (length cs) (gh_counters h)\<rparr>, marked, st))"

definition count_collect :: "u64 \<Rightarrow> sweep_stats \<Rightarrow> heap_counters \<Rightarrow> heap_counters" where
  "count_collect nanos st hc =
     hc\<lparr>hc_collect_cycles := hc_collect_cycles hc + 1,
        hc_collect_total_nanos := hc_collect_total_nanos hc + nanos,
        hc_collect_last_nanos := nanos, hc_collect_last_reclaimed_bytes := sw_bytes_freed st\<rparr>"

definition cycle_record :: "u64 \<Rightarrow> u64 \<Rightarrow> nat \<Rightarrow> u64 \<Rightarrow> sweep_stats \<Rightarrow> collect_record" where
  "cycle_record gen nanos n marked st =
     \<lparr>cr_generation = gen, cr_elapsed_nanos = nanos, cr_mutators_parked = of_nat n, cr_roots_marked = marked,
      cr_blocks_freed = sw_blocks_freed st, cr_bytes_freed = sw_bytes_freed st,
      cr_bytes_live_after = sw_bytes_live st\<rparr>"

definition collect_stw :: "gc_env \<Rightarrow> gc_heap \<Rightarrow> gc_heap option" where
  "collect_stw env h =
     (if \<not> ge_all_parked env then Some h
      else Option.bind (run_collect_cycle (ge_desc env) (ge_mutators env) h) (\<lambda>(h1, marked, st).
        let gen = gh_generation h1 + 1
        in Some (h1\<lparr>gh_pending := [], gh_pressure := 0,
                    gh_mem := ge_finalize env (gh_pending h1) (gh_mem h1),
                    gh_counters := count_collect (ge_nanos env) st (gh_counters h1),
                    gh_generation := gen,
                    gh_log := log_push (cycle_record gen (ge_nanos env) (length (ge_mutators env)) marked st)
                                (gh_log h1)\<rparr>)))"

section \<open>Allocation\<close>

definition align_up :: "nat \<Rightarrow> nat" where
  "align_up n = (n + BLOCK_ALIGN - 1) div BLOCK_ALIGN * BLOCK_ALIGN"

definition total_block_size :: "nat \<Rightarrow> nat" where
  "total_block_size payload = max (align_up (HEADER + payload)) MIN_BLOCK"

fun try_clusters :: "nat \<Rightarrow> memory \<Rightarrow> cluster list \<Rightarrow> (memory \<times> cluster list \<times> (nat \<times> alloc_path) option) option" where
  "try_clusters want m [] = Some (m, [], None)"
| "try_clusters want m (c # cs) =
     Option.bind (try_alloc want (m, c)) (\<lambda>((m', c'), got).
       case got of
         Some g \<Rightarrow> Some (m', c' # cs, Some g)
       | None \<Rightarrow> Option.bind (try_clusters want m' cs) (\<lambda>(m'', cs', got'). Some (m'', c' # cs', got')))"

definition count_path :: "alloc_path \<Rightarrow> heap_counters \<Rightarrow> heap_counters" where
  "count_path path hc =
     (case path of
        PathBump \<Rightarrow> hc\<lparr>hc_bump_path_blocks := hc_bump_path_blocks hc + 1\<rparr>
      | PathFreeList \<Rightarrow> hc\<lparr>hc_free_list_path_blocks := hc_free_list_path_blocks hc + 1\<rparr>)"

definition try_alloc_in_clusters :: "nat \<Rightarrow> gc_heap \<Rightarrow> (gc_heap \<times> nat option) option" where
  "try_alloc_in_clusters want h =
     Option.bind (try_clusters want (gh_mem h) (gh_clusters h)) (\<lambda>(m, cs, got).
       let h' = h\<lparr>gh_mem := m, gh_clusters := cs\<rparr>
       in Some (case got of
                  Some (block, path) \<Rightarrow> (h'\<lparr>gh_counters := count_path path (gh_counters h)\<rparr>, Some block)
                | None \<Rightarrow> (h', None)))"

text \<open>A fresh cluster of zeroed memory serves the request from its start.\<close>

definition grow :: "gc_env \<Rightarrow> nat \<Rightarrow> gc_heap \<Rightarrow> (gc_heap \<times> nat) option" where
  "grow env want h =
     (let c = cluster_new (ge_new_base env) want; m = write_zeros (gh_mem h) (ge_new_base env) (cl_size c);
          hc = gh_counters h
      in Option.bind (try_alloc want (m, c)) (\<lambda>((m', c'), got).
           Option.bind got (\<lambda>(block, _).
             Some (h\<lparr>gh_mem := m', gh_clusters := gh_clusters h @ [c'],
                     gh_counters := hc\<lparr>hc_grow_events := hc_grow_events hc + 1,
                                       hc_cluster_count := of_nat (length (gh_clusters h) + 1)\<rparr>\<rparr>, block))))"

definition alloc_under_lock :: "gc_env \<Rightarrow> nat \<Rightarrow> gc_heap \<Rightarrow> (gc_heap \<times> nat) option" where
  "alloc_under_lock env want h =
     Option.bind (try_alloc_in_clusters want h) (\<lambda>(h1, got).
       case got of
         Some block \<Rightarrow> Some (h1, block)
       | None \<Rightarrow>
           Option.bind (collect_stw env h1) (\<lambda>h2.
             Option.bind (try_alloc_in_clusters want h2) (\<lambda>(h3, got').
               case got' of Some block \<Rightarrow> Some (h3, block) | None \<Rightarrow> grow env want h3)))"

definition count_alloc :: "nat \<Rightarrow> heap_counters \<Rightarrow> heap_counters" where
  "count_alloc want hc =
     hc\<lparr>hc_alloc_blocks_lifetime := hc_alloc_blocks_lifetime hc + 1,
        hc_alloc_bytes_lifetime := hc_alloc_bytes_lifetime hc + of_nat want\<rparr>"

definition saturating_add :: "u64 \<Rightarrow> u64 \<Rightarrow> u64" where
  "saturating_add a b = (if unat a + unat b < 2 ^ 64 then a + b else - 1)"

definition soft_trigger :: "gc_env \<Rightarrow> nat \<Rightarrow> gc_heap \<Rightarrow> gc_heap option" where
  "soft_trigger env want h =
     (if gh_threshold h \<le> saturating_add (gh_pressure h) (of_nat want)
      then collect_stw env (h\<lparr>gh_pressure := 0\<rparr>) else Some h)"

definition nm2_new_rec :: "gc_env \<Rightarrow> nat \<Rightarrow> gc_heap \<Rightarrow> (gc_heap \<times> nat) option" where
  "nm2_new_rec env tag h =
     (let want = total_block_size (nat (td_size (ge_desc env tag)))
      in Option.bind (soft_trigger env want h) (\<lambda>h1.
           Option.bind (alloc_under_lock env want h1) (\<lambda>(h2, block).
             Some (h2\<lparr>gh_mem := (gh_mem h2)(block := tag, block + 8 := want),
                      gh_types := inc_type (ge_desc env) tag (gh_types h2),
                      gh_counters := count_alloc want (gh_counters h2),
                      gh_pressure := gh_pressure h2 + of_nat want\<rparr>, block + HEADER))))"

section \<open>Roots and tuning\<close>

definition nm2_register_module_roots :: "string \<Rightarrow> nat \<Rightarrow> int list \<Rightarrow> gc_heap \<Rightarrow> gc_heap" where
  "nm2_register_module_roots name var_base offsets h =
     (if name \<in> mr_name ` set (gh_modules h) then h
      else h\<lparr>gh_modules := gh_modules h @ [\<lparr>mr_name = name, mr_var_base = var_base, mr_offsets = offsets\<rparr>],
             gh_counters := (gh_counters h)\<lparr>hc_module_root_count :=
                               hc_module_root_count (gh_counters h) + of_nat (length offsets)\<rparr>\<rparr>)"

definition nm2_set_gc_pressure :: "u64 \<Rightarrow> gc_heap \<Rightarrow> gc_heap" where
  "nm2_set_gc_pressure bytes h = h\<lparr>gh_threshold := (if bytes = 0 then - 1 else bytes)\<rparr>"

definition gc_pressure_threshold :: "gc_heap \<Rightarrow> u64" where
  "gc_pressure_threshold h = (if gh_threshold h = - 1 then 0 else gh_threshold h)"

definition register_typedesc :: "(nat \<Rightarrow> type_desc) \<Rightarrow> nat \<Rightarrow> string option \<Rightarrow> gc_heap \<Rightarrow> gc_heap" where
  "register_typedesc desc td owner h = h\<lparr>gh_types := record_type desc td owner (gh_types h)\<rparr>"

text \<open>Number and total size of the blocks of a free list.\<close>

partial_function (option) free_list_blocks :: "memory \<Rightarrow> nat \<Rightarrow> nat list option" where
  "free_list_blocks m node =
     (if node = 0 then Some []
      else Option.bind (free_list_blocks m (free_link m node)) (\<lambda>bs. Some (node # bs)))"

definition walk_free_list :: "memory \<Rightarrow> cluster \<Rightarrow> (u64 \<times> u64) option" where
  "walk_free_list m c =
     map_option (\<lambda>bs. (of_nat (length bs), sum_list (map (\<lambda>b. of_nat (block_size m b)) bs)))
       (free_list_blocks m (cl_free c))"

end
