(* ===== verification/GcMark.thy ===== *)
theory GcMark
  imports GcBlocks GcHeap
begin

text \<open>
  The well-formed heap, its graph of objects, and marking: clearing and marking change the lowest bit of
  tags only, marking ends, and what it has marked are the objects that can be reached.
\<close>

declare clear_marks.simps [simp del]
declare sweep_loop.simps [simp del]

section \<open>The heap and its objects\<close>

definition block_starts :: "cluster \<Rightarrow> nat set" where
  "block_starts c = {cl_base c + 16 * k |k. started c k}"

definition all_starts :: "cluster list \<Rightarrow> nat set" where
  "all_starts cs = (\<Union>c \<in> set cs. block_starts c)"

text \<open>The allocated blocks.\<close>

definition objects :: "memory \<Rightarrow> cluster list \<Rightarrow> nat set" where
  "objects m cs = {b \<in> all_starts cs. \<not> is_free m b}"

definition apart :: "cluster \<Rightarrow> cluster \<Rightarrow> bool" where
  "apart c d \<longleftrightarrow> cl_base c + cl_size c \<le> cl_base d \<or> cl_base d + cl_size d \<le> cl_base c"

definition cluster_ok :: "memory \<Rightarrow> cluster \<Rightarrow> bool" where
  "cluster_ok m c \<longleftrightarrow> (\<exists>ss. wf_cluster m c ss)"

definition heap_ok :: "memory \<Rightarrow> cluster list \<Rightarrow> bool" where
  "heap_ok m cs \<longleftrightarrow> list_all (cluster_ok m) cs \<and> sorted_wrt apart cs"

text \<open>The address is part of no cluster.\<close>

definition outside :: "cluster list \<Rightarrow> nat \<Rightarrow> bool" where
  "outside cs a \<longleftrightarrow> (\<forall>c \<in> set cs. a < cl_base c \<or> cl_base c + cl_size c \<le> a)"

lemma block_starts_heads: "wf_cluster m c ss \<Longrightarrow> block_starts c = heads (cl_base c) ss"
proof -
  assume wf: "wf_cluster m c ss"
  have "b \<in> block_starts c" if "b \<in> heads (cl_base c) ss" for b
    by (rule head_index [OF wf that]) (auto simp: block_starts_def)
  then show ?thesis using wf by (auto simp: block_starts_def wf_cluster_def bitmap_of_def)
qed

lemma cluster_block:
  assumes "cluster_ok m c" "b \<in> block_starts c"
  shows "cl_base c \<le> b" "b + m (b + 8) \<le> cl_base c + cl_bump c" "32 \<le> m (b + 8)" "0 < b" "cl_bump c \<le> cl_size c"
proof -
  obtain ss where wf: "wf_cluster m c ss" using assms(1) by (auto simp: cluster_ok_def)
  note w = wf_clusterD [OF wf]
  have b: "b \<in> heads (cl_base c) ss" using assms(2) block_starts_heads [OF wf] by simp
  show "cl_base c \<le> b" "b + m (b + 8) \<le> cl_base c + cl_bump c" "32 \<le> m (b + 8)" "0 < b" "cl_bump c \<le> cl_size c"
    using head_bounds [OF w(1) b] headsD [OF w(1) b] w by auto
qed

lemma cluster_blocks_apart:
  "cluster_ok m c \<Longrightarrow> b \<in> block_starts c \<Longrightarrow> b' \<in> block_starts c \<Longrightarrow>
     b = b' \<or> b + m (b + 8) \<le> b' \<or> b' + m (b' + 8) \<le> b"
  using heads_apart block_starts_heads wf_clusterD(1) by (metis cluster_ok_def)

lemma sorted_apart: "sorted_wrt apart cs \<Longrightarrow> c \<in> set cs \<Longrightarrow> d \<in> set cs \<Longrightarrow> c = d \<or> apart c d"
  by (induction cs) (auto simp: apart_def)

lemma heap_clusterD: "heap_ok m cs \<Longrightarrow> c \<in> set cs \<Longrightarrow> cluster_ok m c"
  by (simp add: heap_ok_def list_all_iff)

lemma in_all_starts: "b \<in> all_starts cs \<longleftrightarrow> (\<exists>c \<in> set cs. b \<in> block_starts c)"
  by (simp add: all_starts_def)

lemma heap_block:
  assumes "heap_ok m cs" "b \<in> all_starts cs"
  shows "32 \<le> m (b + 8)" "0 < b"
  using cluster_block(3,4) [OF heap_clusterD [OF assms(1)]] assms(2) by (auto simp: in_all_starts)

lemma heap_blocks_apart:
  assumes h: "heap_ok m cs" and b: "b \<in> all_starts cs" and b': "b' \<in> all_starts cs"
  shows "b = b' \<or> b + m (b + 8) \<le> b' \<or> b' + m (b' + 8) \<le> b"
proof -
  obtain c d where cd: "c \<in> set cs" "b \<in> block_starts c" "d \<in> set cs" "b' \<in> block_starts d"
    using b b' by (auto simp: in_all_starts)
  note ok = heap_clusterD [OF h cd(1)] heap_clusterD [OF h cd(3)]
  show ?thesis
  proof (cases "c = d")
    case True
    then show ?thesis using cluster_blocks_apart [OF ok(1) cd(2)] cd(4) by simp
  next
    case False
    then have "apart c d" using sorted_apart cd h by (auto simp: heap_ok_def)
    then show ?thesis using cluster_block [OF ok(1) cd(2)] cluster_block [OF ok(2) cd(4)] by (auto simp: apart_def)
  qed
qed

lemma heap_interior:
  "heap_ok m cs \<Longrightarrow> b \<in> all_starts cs \<Longrightarrow> b < x \<Longrightarrow> x < b + m (b + 8) \<Longrightarrow> x \<notin> all_starts cs"
  using heap_blocks_apart heap_block by fastforce

lemma heap_size_word: "heap_ok m cs \<Longrightarrow> b \<in> all_starts cs \<Longrightarrow> b + 8 \<notin> all_starts cs"
  using heap_interior heap_block by fastforce

lemma outside_starts: "heap_ok m cs \<Longrightarrow> outside cs a \<Longrightarrow> a \<notin> all_starts cs"
  using cluster_block heap_clusterD by (fastforce simp: in_all_starts outside_def)

lemma finite_all_starts: "finite (all_starts cs)"
proof -
  have "block_starts c \<subseteq> (\<lambda>k. cl_base c + 16 * k) ` {..< 64 * length (cl_starts c)}" for c
    by (auto simp: block_starts_def started_def)
  then have "finite (block_starts c)" for c by (rule finite_subset) simp
  then show ?thesis unfolding all_starts_def by blast
qed

lemma resolve_ok:
  "cluster_ok m c \<Longrightarrow> resolve m c a = Some p \<longleftrightarrow>
     (\<exists>b \<in> block_starts c. \<not> is_free m b \<and> p = b + 16 \<and> b + 16 \<le> a \<and> a < b + m (b + 8))"
  by (auto simp: cluster_ok_def resolve_iff used_heads_def block_starts_heads)

lemma resolve_heap_iff:
  assumes "heap_ok m cs"
  shows "resolve_heap_ptr m cs a = Some p \<longleftrightarrow>
    (\<exists>b \<in> objects m cs. p = b + 16 \<and> b + 16 \<le> a \<and> a < b + m (b + 8))"
  using assms
proof (induction cs)
  case (Cons c cs)
  have ok: "cluster_ok m c" "heap_ok m cs" using Cons.prems by (auto simp: heap_ok_def)
  let ?in = "\<lambda>b. p = b + 16 \<and> b + 16 \<le> a \<and> a < b + m (b + 8)"
  have split: "(\<exists>b \<in> objects m (c # cs). ?in b) \<longleftrightarrow> resolve m c a = Some p \<or> (\<exists>b \<in> objects m cs. ?in b)"
    unfolding resolve_ok [OF ok(1)] by (auto simp: objects_def all_starts_def)
  have one: "resolve m c a = Some p" if "resolve m c a = Some q" "b \<in> objects m cs" "?in b" for q b
  proof -
    note found = that(1)
    obtain b' where b': "b' \<in> block_starts c" "q = b' + 16" "b' + 16 \<le> a" "a < b' + m (b' + 8)"
      using resolve_ok [OF ok(1), of a q] found by blast
    have "b' \<in> all_starts (c # cs)" "b \<in> all_starts (c # cs)" using b' that(2) by (auto simp: all_starts_def objects_def)
    then have "b' = b" using heap_blocks_apart [OF Cons.prems] b' that(3) by fastforce
    then show ?thesis using that b' by simp
  qed
  show ?case
  proof (cases "resolve m c a")
    case None
    then have "a \<noteq> 0 \<Longrightarrow> ?thesis" using Cons.IH [OF ok(2)] split by simp
    moreover have "a = 0 \<Longrightarrow> ?thesis" using heap_block [OF Cons.prems] by auto
    ultimately show ?thesis by blast
  next
    case (Some q)
    then have "a \<noteq> 0" using resolve_ok [OF ok(1)] by fastforce
    then show ?thesis unfolding split using Some one by auto
  qed
qed (simp add: objects_def all_starts_def)

section \<open>Painting\<close>

text \<open>The memory with the marks of some blocks set, or cleared, and nothing else changed.\<close>

definition painted :: "nat set \<Rightarrow> memory \<Rightarrow> memory" where
  "painted S m = (\<lambda>a. if a \<in> S then type_bits m a + 1 else m a)"

definition cleared :: "nat set \<Rightarrow> memory \<Rightarrow> memory" where
  "cleared S m = (\<lambda>a. if a \<in> S then type_bits m a else m a)"

named_theorems paint_simps \<open>what marks do not change\<close>

lemma type_bits_half: "type_bits m a = 2 * (m a div 2)"
  by (simp add: type_bits_def minus_mod_eq_mult_div)

lemma paint_type_bits [paint_simps]: "type_bits (painted S m) a = type_bits m a" "type_bits (cleared S m) a = type_bits m a"
  by (auto simp: painted_def cleared_def type_bits_half)

lemma paint_is_free [paint_simps]: "is_free (painted S m) a \<longleftrightarrow> is_free m a" "is_free (cleared S m) a \<longleftrightarrow> is_free m a"
  by (simp_all add: is_free_def paint_simps)

lemma paint_other [paint_simps]: "a \<notin> S \<Longrightarrow> painted S m a = m a" "a \<notin> S \<Longrightarrow> cleared S m a = m a"
  by (simp_all add: painted_def cleared_def)

lemma painted_marked: "is_marked (painted S m) a \<longleftrightarrow> a \<in> S \<or> is_marked m a"
  by (auto simp: is_marked_def painted_def type_bits_half)

lemma cleared_marked: "is_marked (cleared S m) a \<longleftrightarrow> a \<notin> S \<and> is_marked m a"
  by (auto simp: is_marked_def cleared_def type_bits_half)

lemma painted_empty [simp]: "painted {} m = m"
  by (auto simp: painted_def)

lemma set_mark_painted: "set_mark (painted S m) b = painted (insert b S) m"
  by (auto simp: set_mark_def paint_simps) (auto simp: painted_def)

lemma clear_mark_cleared: "clear_mark (cleared S m) b = cleared (insert b S) m"
  by (auto simp: clear_mark_def paint_simps) (auto simp: cleared_def)

text \<open>A cluster is left well-formed by whatever keeps the sizes, the free tags and the links of its blocks.\<close>

lemma wf_cluster_frame:
  assumes wf: "wf_cluster m c ss" and keep: "\<And>b. b \<in> heads (cl_base c) ss \<Longrightarrow>
      m' (b + 8) = m (b + 8) \<and> (is_free m' b \<longleftrightarrow> is_free m b) \<and> (is_free m b \<longrightarrow> m' (b + 16) = m (b + 16))"
  shows "wf_cluster m' c ss"
proof -
  note w = wf_clusterD [OF wf]
  have "free_heads m' (cl_base c) ss = free_heads m (cl_base c) ss" using keep by (auto simp: free_heads_def)
  moreover have "chain m' a fl" if "chain m a fl" "set fl = free_heads m (cl_base c) ss" for a fl
    using that keep by (intro chain_frame [OF that(1)]) (auto simp: free_heads_def)
  ultimately have "free_list_of m' c ss" using w(9) by (auto simp: free_list_of_def)
  moreover have "laid m' (cl_base c) ss" using laid_frame [OF w(1)] keep by auto
  ultimately show ?thesis using w by (simp add: wf_cluster_def)
qed

lemma cluster_ok_frame:
  assumes "cluster_ok m c" and "\<And>b. b \<in> block_starts c \<Longrightarrow>
      m' (b + 8) = m (b + 8) \<and> (is_free m' b \<longleftrightarrow> is_free m b) \<and> (is_free m b \<longrightarrow> m' (b + 16) = m (b + 16))"
  shows "cluster_ok m' c"
  using assms wf_cluster_frame block_starts_heads unfolding cluster_ok_def by metis

lemma heap_word_apart:
  assumes h: "heap_ok m cs" and b: "b \<in> all_starts cs"
  shows "b + 8 \<notin> all_starts cs" "b + 16 \<notin> all_starts cs"
  using heap_interior [OF h b] heap_block [OF h b] by auto

lemma heap_ok_marks:
  assumes h: "heap_ok m cs" and S: "S \<subseteq> all_starts cs"
  shows "heap_ok (painted S m) cs" "heap_ok (cleared S m) cs"
proof -
  have b: "b + 8 \<notin> S \<and> b + 16 \<notin> S" if "c \<in> set cs" "b \<in> block_starts c" for b c
    using heap_word_apart [OF h, of b] S that in_all_starts by blast
  show "heap_ok (painted S m) cs" "heap_ok (cleared S m) cs"
    using h b by (auto simp: heap_ok_def list_all_iff paint_simps intro: cluster_ok_frame)
qed

lemma objects_marks [paint_simps]: "objects (painted S m) cs = objects m cs" "objects (cleared S m) cs = objects m cs"
  by (simp_all add: objects_def paint_simps)

section \<open>The graph of objects\<close>

text \<open>One block points to another if the latter's payload is in one of its pointer slots.\<close>

definition edges :: "(nat \<Rightarrow> type_desc) \<Rightarrow> registry \<Rightarrow> memory \<Rightarrow> cluster list \<Rightarrow> (nat \<times> nat) set" where
  "edges desc r m cs = {(b, b'). b \<in> objects m cs \<and> b' + 16 \<in> set (children desc r m (b + 16))}"

text \<open>What the compiler guarantees of pointer slots: NIL or the payload of an allocated block.\<close>

definition graph_ok :: "(nat \<Rightarrow> type_desc) \<Rightarrow> registry \<Rightarrow> memory \<Rightarrow> cluster list \<Rightarrow> bool" where
  "graph_ok desc r m cs \<longleftrightarrow>
     (\<forall>b \<in> objects m cs. \<forall>q \<in> set (children desc r m (b + 16)). \<exists>b' \<in> objects m cs. q = b' + 16)"

definition reach :: "(nat \<Rightarrow> type_desc) \<Rightarrow> registry \<Rightarrow> memory \<Rightarrow> cluster list \<Rightarrow> nat set \<Rightarrow> nat set" where
  "reach desc r m cs S = (edges desc r m cs)\<^sup>* `` S"

lemma children_same:
  assumes "type_bits m' b = type_bits m b" "m' (b + 8) = m (b + 8)"
    and "\<And>x. b + 16 \<le> x \<Longrightarrow> x + 8 \<le> b + m (b + 8) \<Longrightarrow> m' x = m x"
  shows "children desc r m' (b + 16) = children desc r m (b + 16)"
proof -
  have k: "known_type desc r m' b = known_type desc r m b" using assms by (simp add: known_type_def block_size_def Let_def)
  have "map (\<lambda>off. m' (b + 16 + off)) (takeWhile (\<lambda>off. off + 8 \<le> m (b + 8) - HEADER) xs) =
      map (\<lambda>off. m (b + 16 + off)) (takeWhile (\<lambda>off. off + 8 \<le> m (b + 8) - HEADER) xs)" for xs
    using assms(3) by (auto simp: HEADER_def dest: set_takeWhileD)
  moreover have "b + 16 - HEADER = b" by (simp add: HEADER_def)
  ultimately show ?thesis by (simp only: children_def Let_def k assms(1,2) block_size_def)
qed

lemma children_painted [paint_simps]:
  assumes h: "heap_ok m cs" and b: "b \<in> all_starts cs" and S: "S \<subseteq> all_starts cs"
  shows "children desc r (painted S m) (b + 16) = children desc r m (b + 16)"
    "children desc r (cleared S m) (b + 16) = children desc r m (b + 16)"
proof -
  have "x \<notin> S" if "b + 16 \<le> x" "x + 8 \<le> b + m (b + 8)" for x
    using heap_interior [OF h b, of x] that S by auto
  moreover have "b + 8 \<notin> S" using heap_word_apart [OF h b] S by auto
  ultimately show "children desc r (painted S m) (b + 16) = children desc r m (b + 16)"
    "children desc r (cleared S m) (b + 16) = children desc r m (b + 16)"
    by (auto intro!: children_same simp: paint_simps)
qed

lemma edges_painted [paint_simps]:
  assumes "heap_ok m cs" "S \<subseteq> all_starts cs"
  shows "edges desc r (painted S m) cs = edges desc r m cs" "edges desc r (cleared S m) cs = edges desc r m cs"
    "graph_ok desc r (painted S m) cs \<longleftrightarrow> graph_ok desc r m cs"
    "graph_ok desc r (cleared S m) cs \<longleftrightarrow> graph_ok desc r m cs"
  using children_painted [OF assms(1) _ assms(2)]
  by (auto simp: edges_def graph_ok_def objects_marks) (auto simp: objects_def)

lemma reach_empty [simp]: "reach desc r m cs {} = {}"
  by (auto simp: reach_def)

lemma reach_subset: "S \<subseteq> reach desc r m cs S"
  by (auto simp: reach_def)

lemma reach_mono: "S \<subseteq> T \<Longrightarrow> reach desc r m cs S \<subseteq> reach desc r m cs T"
  by (auto simp: reach_def)

lemma reach_Un: "reach desc r m cs (S \<union> T) = reach desc r m cs S \<union> reach desc r m cs T"
  by (auto simp: reach_def)

lemma reach_reach [simp]: "reach desc r m cs (reach desc r m cs S) = reach desc r m cs S"
  by (auto simp: reach_def dest: rtrancl_trans)

lemma reach_closed: "edges desc r m cs `` S \<subseteq> S \<Longrightarrow> reach desc r m cs S = S"
  using Image_closed_trancl [of "edges desc r m cs" S] by (simp add: reach_def)

lemma reach_step: "edges desc r m cs `` reach desc r m cs S \<subseteq> reach desc r m cs S"
  by (auto simp: reach_def intro: rtrancl_into_rtrancl)

lemma reach_objects:
  assumes "graph_ok desc r m cs" "S \<subseteq> objects m cs"
  shows "reach desc r m cs S \<subseteq> objects m cs"
proof -
  have "b' \<in> objects m cs" if "(b, b') \<in> edges desc r m cs" for b b'
    using that assms(1) unfolding edges_def graph_ok_def by fastforce
  then have "edges desc r m cs `` objects m cs \<subseteq> objects m cs" by auto
  then show ?thesis using reach_closed reach_mono [OF assms(2)] by metis
qed

text \<open>Replacing a block to be scanned by the blocks it points to.\<close>

lemma reach_expand: "reach desc r m cs (insert b (S \<union> edges desc r m cs `` {b})) = reach desc r m cs (insert b S)"
proof -
  have "edges desc r m cs `` {b} \<subseteq> reach desc r m cs {b}" by (auto simp: reach_def)
  then have "insert b (S \<union> edges desc r m cs `` {b}) \<subseteq> reach desc r m cs (insert b S)"
    using reach_subset [of "insert b S" desc r m cs] reach_mono [of "{b}" "insert b S" desc r m cs] by blast
  then have "reach desc r m cs (insert b (S \<union> edges desc r m cs `` {b})) \<subseteq> reach desc r m cs (insert b S)"
    using reach_mono [of _ "reach desc r m cs (insert b S)" desc r m cs] by simp
  moreover have "reach desc r m cs (insert b S) \<subseteq> reach desc r m cs (insert b (S \<union> edges desc r m cs `` {b}))"
    by (rule reach_mono) auto
  ultimately show ?thesis by (rule subset_antisym)
qed

section \<open>Roots\<close>

text \<open>The blocks that a list of values points into, and those whose payloads are in a list of slots.\<close>

definition value_roots :: "memory \<Rightarrow> cluster list \<Rightarrow> nat list \<Rightarrow> nat set" where
  "value_roots m cs vs = {b \<in> objects m cs. \<exists>v \<in> set vs. b + 16 \<le> v \<and> v < b + m (b + 8)}"

definition slot_roots :: "memory \<Rightarrow> nat list \<Rightarrow> nat set" where
  "slot_roots m as = {b. \<exists>a \<in> set as. m a = b + 16}"

definition module_slots :: "gc_heap \<Rightarrow> nat list" where
  "module_slots h = concat (map root_slots (gh_modules h))"

definition root_blocks :: "mutator list \<Rightarrow> gc_heap \<Rightarrow> memory \<Rightarrow> nat set" where
  "root_blocks mus h m =
     value_roots m (gh_clusters h) (concat (map (scanned_values m) mus)) \<union> slot_roots m (module_slots h)"

text \<open>Stacks and module variables are outside the heap; module variables are NIL or hold payloads.\<close>

definition stack_addrs :: "mutator \<Rightarrow> nat list" where
  "stack_addrs mu = map (\<lambda>i. mu_parked_sp mu + 8 * i) [0..<(mu_stack_top mu - mu_parked_sp mu + 7) div 8]"

definition roots_ok :: "mutator list \<Rightarrow> gc_heap \<Rightarrow> memory \<Rightarrow> bool" where
  "roots_ok mus h m \<longleftrightarrow>
     (\<forall>mu \<in> set mus. list_all (outside (gh_clusters h)) (stack_addrs mu)) \<and>
     list_all (outside (gh_clusters h)) (module_slots h) \<and>
     (\<forall>a \<in> set (module_slots h). m a = 0 \<or> (\<exists>b \<in> objects m (gh_clusters h). m a = b + 16))"

lemma stack_words_addrs: "stack_words m mu = map m (stack_addrs mu)"
  by (simp add: stack_words_def stack_addrs_def)

lemma scanned_same: "(\<And>a. a \<in> set (stack_addrs mu) \<Longrightarrow> m' a = m a) \<Longrightarrow> scanned_values m' mu = scanned_values m mu"
  by (simp add: scanned_values_def stack_words_addrs)

lemma slot_rootsI: "slot_roots m [] = {}" "slot_roots m (a # as) = {b. m a = b + 16} \<union> slot_roots m as"
  by (auto simp: slot_roots_def)

lemma value_roots_simps [simp]: "value_roots m cs [] = {}"
  "value_roots m cs (vs @ ws) = value_roots m cs vs \<union> value_roots m cs ws"
  by (auto simp: value_roots_def)

section \<open>Marking\<close>

text \<open>The marks of the objects all clear: where a cycle starts marking.\<close>

definition unmarked_heap :: "(nat \<Rightarrow> type_desc) \<Rightarrow> registry \<Rightarrow> memory \<Rightarrow> cluster list \<Rightarrow> bool" where
  "unmarked_heap desc r m cs \<longleftrightarrow>
     heap_ok m cs \<and> graph_ok desc r m cs \<and> (\<forall>b \<in> objects m cs. \<not> is_marked m b)"

lemma unmarked_heapD:
  assumes "unmarked_heap desc r m cs"
  shows "heap_ok m cs" "graph_ok desc r m cs" "b \<in> objects m cs \<Longrightarrow> \<not> is_marked m b"
  using assms by (auto simp: unmarked_heap_def)

lemma objects_starts: "S \<subseteq> objects m cs \<Longrightarrow> S \<subseteq> all_starts cs"
  by (auto simp: objects_def)

lemma children_blocks:
  assumes u: "unmarked_heap desc r m cs" and b: "b \<in> objects m cs"
  obtains bs where "children desc r m (b + 16) = map (\<lambda>b. b + 16) bs" "set bs = edges desc r m cs `` {b}"
    "set bs \<subseteq> objects m cs"
proof -
  let ?ch = "children desc r m (b + 16)"
  have q: "\<exists>b' \<in> objects m cs. q = b' + 16" if "q \<in> set ?ch" for q
    using that unmarked_heapD(2) [OF u] b by (auto simp: graph_ok_def)
  have "map ((\<lambda>b. b + 16) \<circ> (\<lambda>q. q - 16)) ?ch = ?ch"
    by (rule map_idI) (use q in force)
  then have "?ch = map (\<lambda>b. b + 16) (map (\<lambda>q. q - 16) ?ch)" by simp
  moreover have "set (map (\<lambda>q. q - 16) ?ch) = edges desc r m cs `` {b}"
  proof -
    have "b' \<in> (\<lambda>q. q - 16) ` set ?ch \<longleftrightarrow> b' + 16 \<in> set ?ch" for b'
    proof
      assume "b' \<in> (\<lambda>q. q - 16) ` set ?ch"
      then obtain x where "x \<in> set ?ch" "b' = x - 16" by auto
      then show "b' + 16 \<in> set ?ch" using q [of x] by auto
    next
      assume "b' + 16 \<in> set ?ch"
      then show "b' \<in> (\<lambda>q. q - 16) ` set ?ch" by (intro image_eqI [of _ _ "b' + 16"]) simp_all
    qed
    then show ?thesis using b by (auto simp: edges_def)
  qed
  moreover have "set (map (\<lambda>q. q - 16) ?ch) \<subseteq> objects m cs" using q by fastforce
  ultimately show ?thesis by (rule that)
qed

text \<open>
  Marking from a work list ends; it marks what can be reached from the marked blocks and the list,
  provided that what marked blocks point to is marked or in the list.
\<close>

lemma mark_loop_reach:
  assumes u: "unmarked_heap desc r m cs" and "S \<subseteq> objects m cs" "set bs \<subseteq> objects m cs" "edges desc r m cs `` S \<subseteq> S \<union> set bs"
  shows "mark_loop desc r (painted S m) (map (\<lambda>b. b + 16) bs) = Some (painted (reach desc r m cs (S \<union> set bs)) m)"
  using assms(2-)
proof (induction "card (objects m cs - S)" arbitrary: S bs rule: less_induct)
  case outer: less
  show ?case using outer.prems
  proof (induction bs)
    case Nil
    then show ?case by (simp add: mark_loop.simps reach_closed)
  next
    case (Cons b bs)
    have b: "b \<in> objects m cs" "b \<in> all_starts cs" using Cons.prems by (auto simp: objects_def)
    have "b \<noteq> 0" "\<not> is_free m b" using heap_block [OF unmarked_heapD(1) [OF u] b(2)] b(1) by (auto simp: objects_def)
    have marked: "is_marked (painted S m) b \<longleftrightarrow> b \<in> S" using unmarked_heapD(3) [OF u b(1)] by (simp add: painted_marked)
    show ?case
    proof (cases "b \<in> S")
      case True
      then have "S \<union> set (b # bs) = S \<union> set bs" by auto
      then show ?thesis using True Cons marked by (subst mark_loop.simps) (simp add: HEADER_def)
    next
      case False
      obtain ds where ds: "children desc r m (b + 16) = map (\<lambda>b. b + 16) ds" "set ds = edges desc r m cs `` {b}"
        "set ds \<subseteq> objects m cs" using children_blocks [OF u b(1)] .
      have ch: "rev (children desc r (painted S m) (b + 16)) = map (\<lambda>b. b + 16) (rev ds)"
        using children_painted [OF unmarked_heapD(1) [OF u] b(2)] objects_starts Cons.prems(1) ds(1) by (simp add: rev_map)
      have fewer: "card (objects m cs - insert b S) < card (objects m cs - S)"
        using b(1) False finite_subset [OF objects_starts finite_all_starts, of "objects m cs"]
        by (intro psubset_card_mono) auto
      have "mark_loop desc r (painted (insert b S) m) (map (\<lambda>b. b + 16) (rev ds @ bs)) =
          Some (painted (reach desc r m cs (insert b S \<union> set (rev ds @ bs))) m)"
        using outer.hyps [OF fewer, of "rev ds @ bs"] Cons.prems b(1) ds(2,3) by auto
      moreover have "insert b S \<union> set (rev ds @ bs) = insert b (S \<union> set bs \<union> edges desc r m cs `` {b})" using ds(2) by auto
      then have "reach desc r m cs (insert b S \<union> set (rev ds @ bs)) = reach desc r m cs (S \<union> set (b # bs))"
        using reach_expand [of desc r m cs b "S \<union> set bs"] by (simp add: Un_commute)
      ultimately show ?thesis using False marked \<open>\<not> is_free m b\<close> ch
        by (subst mark_loop.simps) (simp add: HEADER_def set_mark_painted paint_simps)
    qed
  qed
qed

lemma mark_object_reach:
  assumes u: "unmarked_heap desc r m cs" and "S \<subseteq> objects m cs" "b \<in> objects m cs"
  shows "mark_object desc r (painted (reach desc r m cs S) m) (b + 16) = Some (painted (reach desc r m cs (insert b S)) m)"
proof -
  have "reach desc r m cs S \<subseteq> objects m cs" using reach_objects [OF unmarked_heapD(2) [OF u] assms(2)] .
  then have "mark_loop desc r (painted (reach desc r m cs S) m) (map (\<lambda>b. b + 16) [b]) =
      Some (painted (reach desc r m cs (reach desc r m cs S \<union> set [b])) m)"
    using assms reach_step [of desc r m cs S] by (intro mark_loop_reach [OF u]) (simp_all add: subset_insertI2)
  moreover have "reach desc r m cs (reach desc r m cs S \<union> {b}) = reach desc r m cs (insert b S)"
    using reach_Un [of desc r m cs S "{b}"] reach_Un [of desc r m cs "reach desc r m cs S" "{b}"] by simp
  ultimately show ?thesis by (simp add: mark_object_def)
qed

lemma resolve_painted:
  assumes u: "unmarked_heap desc r m cs" and S: "S \<subseteq> all_starts cs"
  shows "resolve_heap_ptr (painted S m) cs v = Some p \<longleftrightarrow> resolve_heap_ptr m cs v = Some p"
proof -
  have "painted S m (b + 8) = m (b + 8)" if "b \<in> objects m cs" for b
  proof -
    have "b + 8 \<notin> all_starts cs" using that by (intro heap_word_apart(1) [OF unmarked_heapD(1) [OF u]]) (simp add: objects_def)
    then have "b + 8 \<notin> S" using S by blast
    then show ?thesis by (rule paint_other)
  qed
  then show ?thesis
    unfolding resolve_heap_iff [OF unmarked_heapD(1) [OF u]] resolve_heap_iff [OF heap_ok_marks(1) [OF unmarked_heapD(1) [OF u] S]] objects_marks by auto
qed

lemma resolve_painted_eq: "unmarked_heap desc r m cs \<Longrightarrow> S \<subseteq> all_starts cs \<Longrightarrow> resolve_heap_ptr (painted S m) cs v = resolve_heap_ptr m cs v"
  using resolve_painted [of desc r m cs S v] by (metis option.exhaust)

lemma value_root_single: "heap_ok m cs \<Longrightarrow> value_roots m cs [v] = {b. resolve_heap_ptr m cs v = Some (b + 16)}"
  unfolding resolve_heap_iff by (auto simp: value_roots_def)

lemma reach_starts: "unmarked_heap desc r m cs \<Longrightarrow> S \<subseteq> objects m cs \<Longrightarrow> reach desc r m cs S \<subseteq> all_starts cs"
  using reach_objects [of desc r m cs S] objects_starts by (auto simp: unmarked_heap_def)

lemma mark_values_reach:
  assumes u: "unmarked_heap desc r m cs" and "S \<subseteq> objects m cs"
  shows "\<exists>k'. mark_values desc r cs vs (painted (reach desc r m cs S) m, k) =
    Some (painted (reach desc r m cs (S \<union> value_roots m cs vs)) m, k')"
  using assms(2-)
proof (induction vs arbitrary: S k)
  case (Cons v vs)
  have vs: "value_roots m cs (v # vs) = value_roots m cs [v] \<union> value_roots m cs vs"
    using value_roots_simps(2) [of m cs "[v]" vs] by simp
  note res = resolve_painted_eq [OF u reach_starts [OF u Cons.prems], of v]
  show ?case
  proof (cases "resolve_heap_ptr m cs v")
    case None
    then show ?thesis using Cons res vs value_root_single [OF unmarked_heapD(1) [OF u]] by auto
  next
    case (Some p)
    then obtain b where b: "b \<in> objects m cs" "p = b + 16" using resolve_heap_iff [OF unmarked_heapD(1) [OF u]] by auto
    have v: "value_roots m cs [v] = {b}" using Some b value_root_single [OF unmarked_heapD(1) [OF u]] by auto
    obtain k' where "mark_values desc r cs vs (painted (reach desc r m cs (insert b S)) m, k + 1) =
        Some (painted (reach desc r m cs (insert b S \<union> value_roots m cs vs)) m, k')"
      using Cons.IH [of "insert b S"] Cons.prems b(1) by auto
    then show ?thesis using Some res b(2) mark_object_reach [OF u Cons.prems b(1)] vs v by simp
  qed
qed simp

lemma mark_mutators_reach:
  assumes u: "unmarked_heap desc r m cs" and "S \<subseteq> objects m cs" "\<And>mu. mu \<in> set mus \<Longrightarrow> list_all (outside cs) (stack_addrs mu)"
  shows "\<exists>k'. mark_mutators desc r cs mus (painted (reach desc r m cs S) m, k) =
    Some (painted (reach desc r m cs (S \<union> value_roots m cs (concat (map (scanned_values m) mus)))) m, k')"
  using assms(2-)
proof (induction mus arbitrary: S k)
  case (Cons mu mus)
  let ?V = "value_roots m cs (scanned_values m mu)"
  have "a \<notin> reach desc r m cs S" if "a \<in> set (stack_addrs mu)" for a
  proof -
    have "outside cs a" using Cons.prems(2) [of mu] that by (simp add: list_all_iff)
    then show ?thesis using outside_starts [OF unmarked_heapD(1) [OF u]] reach_starts [OF u Cons.prems(1)] by blast
  qed
  then have sc: "scanned_values (painted (reach desc r m cs S) m) mu = scanned_values m mu"
    by (intro scanned_same) (simp add: paint_other)
  obtain k1 where v: "mark_values desc r cs (scanned_values m mu) (painted (reach desc r m cs S) m, k) =
      Some (painted (reach desc r m cs (S \<union> ?V)) m, k1)" using mark_values_reach [OF u] Cons.prems(1) by blast
  have "S \<union> ?V \<subseteq> objects m cs" using Cons.prems(1) by (auto simp: value_roots_def)
  then obtain k2 where "mark_mutators desc r cs mus (painted (reach desc r m cs (S \<union> ?V)) m, k1) =
      Some (painted (reach desc r m cs (S \<union> ?V \<union> value_roots m cs (concat (map (scanned_values m) mus)))) m, k2)"
    using Cons.IH Cons.prems(2) by fastforce
  then show ?case using v sc by (simp add: Un_assoc)
qed simp

lemma mark_slots_reach:
  assumes u: "unmarked_heap desc r m cs" and "S \<subseteq> objects m cs" "list_all (outside cs) as"
    "\<And>a. a \<in> set as \<Longrightarrow> m a = 0 \<or> (\<exists>b \<in> objects m cs. m a = b + 16)"
  shows "\<exists>k'. mark_slots desc r as (painted (reach desc r m cs S) m, k) =
    Some (painted (reach desc r m cs (S \<union> slot_roots m as)) m, k')"
  using assms(2-)
proof (induction as arbitrary: S k)
  case (Cons a as)
  have "a \<notin> reach desc r m cs S"
    using Cons.prems(2) reach_starts [OF u Cons.prems(1)] outside_starts [OF unmarked_heapD(1) [OF u], of a] by auto
  then have same: "painted (reach desc r m cs S) m a = m a" by (rule paint_other)
  consider "m a = 0" | b where "b \<in> objects m cs" "m a = b + 16" using Cons.prems(3) [of a] by auto
  then show ?case
  proof cases
    case 1
    then show ?thesis using Cons same by (simp add: slot_rootsI)
  next
    case 2
    then have sl: "slot_roots m (a # as) = insert b (slot_roots m as)" by (auto simp: slot_rootsI)
    obtain k' where "mark_slots desc r as (painted (reach desc r m cs (insert b S)) m, k + 1) =
        Some (painted (reach desc r m cs (insert b S \<union> slot_roots m as)) m, k')"
      using Cons.IH [of "insert b S" "k + 1"] Cons.prems 2(1) by auto
    then show ?thesis using same 2 mark_object_reach [OF u Cons.prems(1) 2(1)] sl by simp
  qed
qed (simp add: slot_roots_def)

section \<open>Clearing the marks and marking from the roots\<close>

lemma cleared_cleared [simp]: "cleared A (cleared B m) = cleared (A \<union> B) m" "cleared {} m = m"
  by (auto simp: cleared_def type_bits_half)

lemma clear_marks_laid:
  assumes "laid m (cl_base c + off) ss" "off + sum_list ss = cl_bump c"
  shows "clear_marks m c off = cleared (heads (cl_base c + off) ss) m"
  using assms
proof (induction ss arbitrary: off m)
  case (Cons sz ss)
  let ?b = "cl_base c + off" and ?h = "heads (cl_base c + (off + sz)) ss"
  have sz: "block_size m ?b = sz" "32 \<le> sz" using Cons.prems by (auto simp: block_size_def)
  have "laid (clear_mark m ?b) (cl_base c + (off + sz)) ss"
  proof (rule laid_frame)
    show "laid m (cl_base c + (off + sz)) ss" using Cons.prems by (simp add: add.assoc)
    show "clear_mark m ?b (a + 8) = m (a + 8)" if "a \<in> ?h" for a
      using heads_ge [OF that] sz by (simp add: clear_mark_def)
  qed
  then have "clear_marks (clear_mark m ?b) c (off + sz) = cleared ?h (clear_mark m ?b)"
    using Cons.IH [of "clear_mark m ?b" "off + sz"] Cons.prems by simp
  moreover have "clear_mark m ?b = cleared {?b} m" using clear_mark_cleared [of "{}" m ?b] by simp
  ultimately show ?case using sz Cons.prems by (subst clear_marks.simps) (simp add: MIN_BLOCK_def add.assoc)
qed (simp add: clear_marks.simps)

lemma clear_marks_cluster: "cluster_ok m c \<Longrightarrow> clear_marks m c 0 = cleared (block_starts c) m"
  unfolding cluster_ok_def using clear_marks_laid [of m c 0] by (auto simp: block_starts_heads wf_clusterD(1,2))

lemma clear_all_marks_cleared: "heap_ok m cs \<Longrightarrow> clear_all_marks cs m = cleared (all_starts cs) m"
proof -
  assume h: "heap_ok m cs"
  have "fold (\<lambda>c m. clear_marks m c 0) ds (cleared A m) = cleared (A \<union> all_starts ds) m"
    if "set ds \<subseteq> set cs" "A \<subseteq> all_starts cs" for ds A
    using that
  proof (induction ds arbitrary: A)
    case (Cons c ds)
    have "heap_ok (cleared A m) cs" using heap_ok_marks(2) [OF h] Cons.prems by blast
    then have "clear_marks (cleared A m) c 0 = cleared (block_starts c \<union> A) m"
      using clear_marks_cluster heap_clusterD Cons.prems(1) by fastforce
    moreover have "block_starts c \<union> A \<subseteq> all_starts cs" using Cons.prems by (auto simp: all_starts_def)
    ultimately show ?case using Cons.IH [of "block_starts c \<union> A"] Cons.prems(1)
      by (simp add: all_starts_def Un_ac)
  qed (simp add: all_starts_def)
  from this [of cs "{}"] show ?thesis by (simp add: clear_all_marks_def)
qed

text \<open>What the collector keeps: the objects reachable from the roots.\<close>

definition retained :: "(nat \<Rightarrow> type_desc) \<Rightarrow> mutator list \<Rightarrow> gc_heap \<Rightarrow> nat set" where
  "retained desc mus h =
     reach desc (gh_types h) (gh_mem h) (gh_clusters h) (root_blocks mus h (gh_mem h))"

lemma cleared_unmarked:
  assumes "heap_ok m cs" "graph_ok desc r m cs"
  shows "unmarked_heap desc r (cleared (all_starts cs) m) cs"
  using assms heap_ok_marks(2) [OF assms(1)]
  by (auto simp: unmarked_heap_def edges_painted cleared_marked objects_def)

lemma root_blocks_cleared:
  assumes h: "heap_ok m (gh_clusters h)" and r: "roots_ok mus h m"
  shows "root_blocks mus h (cleared (all_starts (gh_clusters h)) m) = root_blocks mus h m"
    "roots_ok mus h (cleared (all_starts (gh_clusters h)) m)"
    "root_blocks mus h m \<subseteq> objects m (gh_clusters h)"
proof -
  let ?cs = "gh_clusters h" and ?m = "cleared (all_starts (gh_clusters h)) m"
  have out: "?m a = m a" if "outside ?cs a" for a
    using outside_starts [OF h that] by (simp add: paint_other)
  have "scanned_values ?m mu = scanned_values m mu" if "mu \<in> set mus" for mu
    using r that out by (intro scanned_same) (auto simp: roots_ok_def list_all_iff)
  then have sc: "map (scanned_values ?m) mus = map (scanned_values m) mus" by simp
  have sz: "?m (b + 8) = m (b + 8)" if "b \<in> objects m ?cs" for b
    using heap_word_apart(1) [OF h, of b] that by (intro paint_other) (simp add: objects_def)
  have slot: "?m a = m a" if "a \<in> set (module_slots h)" for a
    using r that out by (auto simp: roots_ok_def list_all_iff)
  show "root_blocks mus h ?m = root_blocks mus h m"
    using sc sz slot by (auto simp: root_blocks_def value_roots_def slot_roots_def objects_marks)
  show "roots_ok mus h ?m" using r slot by (simp add: roots_ok_def objects_marks)
  show "root_blocks mus h m \<subseteq> objects m ?cs"
    using r by (fastforce simp: root_blocks_def value_roots_def slot_roots_def roots_ok_def)
qed

text \<open>Marking ends, and marks exactly what is reachable.\<close>

lemma mark_roots_retained:
  assumes h: "heap_ok (gh_mem h) (gh_clusters h)" and g: "graph_ok desc (gh_types h) (gh_mem h) (gh_clusters h)"
    and r: "roots_ok mus h (gh_mem h)"
  shows "\<exists>k. mark_roots desc mus h (clear_all_marks (gh_clusters h) (gh_mem h)) =
    Some (painted (retained desc mus h) (cleared (all_starts (gh_clusters h)) (gh_mem h)), k)"
proof -
  let ?cs = "gh_clusters h" and ?r = "gh_types h" 
  define m where "m = cleared (all_starts ?cs) (gh_mem h)"
  have u: "unmarked_heap desc ?r m ?cs" unfolding m_def by (rule cleared_unmarked [OF h g])
  note rb = root_blocks_cleared [OF h r]
  have ok: "roots_ok mus h m" using rb(2) by (simp add: m_def)
  let ?V = "value_roots m ?cs (concat (map (scanned_values m) mus))"
  have V: "?V \<subseteq> objects m ?cs" by (auto simp: value_roots_def)
  obtain k1 where mk: "mark_mutators desc ?r ?cs mus (painted (reach desc ?r m ?cs {}) m, 0) =
      Some (painted (reach desc ?r m ?cs ({} \<union> ?V)) m, k1)"
    using mark_mutators_reach [OF u, of "{}" mus 0] ok by (auto simp: roots_ok_def)
  obtain k2 where sl: "mark_slots desc ?r (module_slots h) (painted (reach desc ?r m ?cs ?V) m, k1) =
      Some (painted (reach desc ?r m ?cs (?V \<union> slot_roots m (module_slots h))) m, k2)"
    using mark_slots_reach [OF u V, of "module_slots h" k1] ok by (auto simp: roots_ok_def)
  have "reach desc ?r m ?cs (?V \<union> slot_roots m (module_slots h)) = retained desc mus h"
    unfolding retained_def reach_def m_def edges_painted(2) [OF h subset_refl]
    using rb(1) by (simp add: root_blocks_def)
  then show ?thesis
    using mk sl by (simp add: mark_roots_def clear_all_marks_cleared [OF h] m_def module_slots_def)
qed

end
