(* ===== verification/GcSweep.thy ===== *)
theory GcSweep
  imports GcMark
begin

text \<open>
  The sweep of a cluster and of all clusters: marked blocks survive with their contents and lose the
  mark, everything else becomes free, neighbouring free blocks are joined and the free list is rebuilt.
\<close>

section \<open>The loop invariant of a cluster's sweep\<close>

definition live_block :: "memory \<Rightarrow> nat \<Rightarrow> bool" where
  "live_block m b \<longleftrightarrow> \<not> is_free m b \<and> is_marked m b"

text \<open>The free block before the current offset, if the last block swept is free.\<close>

definition last_free :: "nat \<Rightarrow> nat list \<Rightarrow> sweep_state \<Rightarrow> bool" where
  "last_free base ss1 s \<longleftrightarrow>
     (if ss_prev_free s = 0
      then \<forall>a \<in> free_heads (ss_mem s) base ss1. a + ss_mem s (a + 8) \<noteq> base + sum_list ss1
      else \<exists>ss0 sz. ss1 = ss0 @ [sz] \<and> ss_prev_free s = base + sum_list ss0 \<and> is_free (ss_mem s) (ss_prev_free s))"

definition coalesced :: "memory \<Rightarrow> nat \<Rightarrow> nat list \<Rightarrow> bool" where
  "coalesced m base ss \<longleftrightarrow> (\<forall>a \<in> free_heads m base ss. a + m (a + 8) \<notin> free_heads m base ss)"

text \<open>
  Blocks of sizes \<open>ss1\<close> have been swept, those of sizes \<open>ss2\<close> are as they were in the memory \<open>m0\<close> at the
  start; \<open>L\<close> are the live blocks that the sweep started with.
\<close>

definition swept_part :: "memory \<Rightarrow> nat set \<Rightarrow> nat \<Rightarrow> nat \<Rightarrow> memory \<Rightarrow> bool" where
  "swept_part m0 L base off m \<longleftrightarrow>
     (\<forall>a. a < base \<or> base + off \<le> a \<longrightarrow> m a = m0 a) \<and>
     (\<forall>b \<in> L. b < base + off \<longrightarrow> m b = type_bits m0 b \<and> (\<forall>x. b < x \<and> x < b + m0 (b + 8) \<longrightarrow> m x = m0 x))"

definition sweep_inv :: "memory \<Rightarrow> nat set \<Rightarrow> nat list \<Rightarrow> nat list \<Rightarrow> sweep_state \<Rightarrow> bool" where
  "sweep_inv m0 L ss1 ss2 s \<longleftrightarrow>
     (let m = ss_mem s; c = ss_cluster s; base = cl_base c
      in cluster_frame c \<and> laid m base (ss1 @ ss2) \<and> cl_bump c = sum_list ss1 + sum_list ss2 \<and>
         bitmap_of c (ss1 @ ss2) \<and> free_list_of m c ss1 \<and> last_free base ss1 s \<and> coalesced m base ss1 \<and>
         swept_part m0 L base (sum_list ss1) m \<and>
         used_heads m base ss1 = {b \<in> L. b < base + sum_list ss1})"

lemma sweep_invD:
  assumes "sweep_inv m0 L ss1 ss2 s"
  shows "cluster_frame (ss_cluster s)" "laid (ss_mem s) (cl_base (ss_cluster s)) (ss1 @ ss2)"
    "cl_bump (ss_cluster s) = sum_list ss1 + sum_list ss2" "bitmap_of (ss_cluster s) (ss1 @ ss2)"
    "free_list_of (ss_mem s) (ss_cluster s) ss1" "last_free (cl_base (ss_cluster s)) ss1 s"
    "coalesced (ss_mem s) (cl_base (ss_cluster s)) ss1"
    "swept_part m0 L (cl_base (ss_cluster s)) (sum_list ss1) (ss_mem s)"
    "used_heads (ss_mem s) (cl_base (ss_cluster s)) ss1 = {b \<in> L. b < cl_base (ss_cluster s) + sum_list ss1}"
  using assms by (simp_all add: sweep_inv_def Let_def)

lemma sweep_invI:
  assumes "m = ss_mem s" "c = ss_cluster s" "base = cl_base c"
    and "cluster_frame c" "laid m base (ss1 @ ss2)" "cl_bump c = sum_list ss1 + sum_list ss2"
    "bitmap_of c (ss1 @ ss2)" "free_list_of m c ss1" "last_free base ss1 s" "coalesced m base ss1"
    "swept_part m0 L base (sum_list ss1) m" "used_heads m base ss1 = {b \<in> L. b < base + sum_list ss1}"
  shows "sweep_inv m0 L ss1 ss2 s"
  using assms by (simp add: sweep_inv_def Let_def)

lemma free_used_heads: "free_heads m b ss \<union> used_heads m b ss = heads b ss"
  by (auto simp: free_heads_def used_heads_def)

lemma swept_below: "laid m b ss \<Longrightarrow> a \<in> heads b ss \<Longrightarrow> a < b + sum_list ss"
  using head_bounds headsD by fastforce

lemma heads_snoc: "heads b (ss @ [sz]) = insert (b + sum_list ss) (heads b ss)"
  by simp

lemma free_heads_same:
  "(\<And>a. a \<in> heads b ss \<Longrightarrow> is_free m' a \<longleftrightarrow> is_free m a) \<Longrightarrow> free_heads m' b ss = free_heads m b ss"
  "(\<And>a. a \<in> heads b ss \<Longrightarrow> is_free m' a \<longleftrightarrow> is_free m a) \<Longrightarrow> used_heads m' b ss = used_heads m b ss"
  by (auto simp: free_heads_def used_heads_def)

lemma bitmap_keep: "bitmap_of c ss \<Longrightarrow> cl_starts c' = cl_starts c \<Longrightarrow> cl_base c' = cl_base c \<Longrightarrow>
    heads (cl_base c) ss' = heads (cl_base c) ss \<Longrightarrow> bitmap_of c' ss'"
  by (simp add: bitmap_of_def started_def)

section \<open>A live block\<close>

lemma sweep_inv_live:
  assumes i: "sweep_inv m0 L ss1 (sz # ss2) s" and b: "b = cl_base (ss_cluster s) + sum_list ss1"
    and l: "live_block (ss_mem s) b" "b \<in> L" and L: "\<And>x. x \<in> L \<Longrightarrow> b < x \<Longrightarrow> b + sz \<le> x"
  shows "sweep_inv m0 L (ss1 @ [sz]) ss2 (sweep_block desc b s)"
proof -
  note v = sweep_invD [OF i]
  let ?m = "ss_mem s" and ?c = "ss_cluster s" and ?base = "cl_base (ss_cluster s)"
  let ?m' = "clear_mark ?m b"
  have s': "sweep_block desc b s =
      s\<lparr>ss_mem := ?m', ss_stats := count_live (block_size ?m b) (ss_stats s), ss_prev_free := 0\<rparr>"
    using l by (simp add: sweep_block_def live_block_def Let_def)
  have laid1: "laid ?m ?base ss1" and sz: "?m (b + 8) = sz" "32 \<le> sz" using v(2) b by auto
  have other: "?m' a = ?m a" if "a \<noteq> b" for a using that by (simp add: clear_mark_def)
  have free: "is_free ?m' a \<longleftrightarrow> is_free ?m a" for a
    by (simp add: is_free_def clear_mark_def type_bits_half)
  have below: "a + 32 \<le> b" if "a \<in> heads ?base ss1" for a
    using head_bounds [OF laid1 that] headsD [OF laid1 that] b by auto
  have nf: "\<not> is_free ?m b" using l by (simp add: live_block_def)
  have fh: "free_heads ?m' ?base (ss1 @ [sz]) = free_heads ?m ?base ss1"
    using nf free b by (auto simp: free_heads_def)
  have size_same: "?m' (a + 8) = ?m (a + 8)" if "a \<in> heads ?base (ss1 @ sz # ss2)" for a
    using size_word [OF v(2) that] b by (intro other) auto
  have laid': "laid ?m' ?base ((ss1 @ [sz]) @ ss2)" using laid_frame [OF v(2)] size_same by simp
  have "free_list_of ?m' ?c (ss1 @ [sz])"
  proof -
    obtain fl where fl: "chain ?m (cl_free ?c) fl" "distinct fl" "set fl = free_heads ?m ?base ss1"
      using v(5) by (auto simp: free_list_of_def)
    have "chain ?m' (cl_free ?c) fl"
      using fl(3) below by (intro chain_frame [OF fl(1)] other) (fastforce simp: free_heads_def)
    then show ?thesis using fl fh by (auto simp: free_list_of_def)
  qed
  moreover have last: "a + ?m' (a + 8) \<noteq> b + sz" if "a \<in> free_heads ?m ?base ss1" for a
    using head_bounds [OF laid1, of a] that size_same [of a] sz b by (auto simp: free_heads_def)
  moreover have "coalesced ?m' ?base (ss1 @ [sz])"
    using v(7) size_same unfolding coalesced_def fh by (auto simp: free_heads_def)
  moreover have "swept_part m0 L ?base (sum_list (ss1 @ [sz])) ?m'"
  proof -
    have p: "\<And>a. a < ?base \<or> b \<le> a \<Longrightarrow> ?m a = m0 a"
      "\<And>x a. x \<in> L \<Longrightarrow> x < b \<Longrightarrow> ?m x = type_bits m0 x \<and> (x < a \<and> a < x + m0 (x + 8) \<longrightarrow> ?m a = m0 a)"
      using v(8) b by (auto simp: swept_part_def)
    have apart: "x + m0 (x + 8) \<le> b" if "x \<in> L" "x < b" for x
    proof -
      have x: "x \<in> heads ?base ss1" using v(9) that b by (auto simp: used_heads_def)
      have "x + 8 < x + m0 (x + 8) \<Longrightarrow> ?m (x + 8) = m0 (x + 8)" using p(2) [OF that, of "x + 8"] by simp
      then show ?thesis using head_bounds [OF laid1 x] headsD [OF laid1 x] b by (cases "8 < m0 (x + 8)") auto
    qed
    have "?m' a = m0 a" if "a < ?base \<or> ?base + sum_list (ss1 @ [sz]) \<le> a" for a
      using p(1) [of a] other [of a] that b sz by auto
    moreover have "?m' x = type_bits m0 x \<and> (\<forall>a. x < a \<and> a < x + m0 (x + 8) \<longrightarrow> ?m' a = m0 a)"
      if x: "x \<in> L" "x < ?base + sum_list (ss1 @ [sz])" for x
    proof (cases "x < b")
      case True
      then show ?thesis using p(2) [OF x(1)] apart [OF x(1)] other by (metis less_irrefl order_less_le_trans)
    next
      case False
      then have "x = b" using x L [of x] b by force
      then show ?thesis using p(1) other by (auto simp: clear_mark_def type_bits_half)
    qed
    ultimately show ?thesis by (simp add: swept_part_def)
  qed
  moreover have "used_heads ?m' ?base (ss1 @ [sz]) = {x \<in> L. x < ?base + sum_list (ss1 @ [sz])}"
  proof -
    have "used_heads ?m' ?base (ss1 @ [sz]) = insert b (used_heads ?m ?base ss1)"
      using nf free b by (auto simp: used_heads_def)
    also have "\<dots> = {x \<in> L. x < b + sz}" unfolding v(9) using L l(2) sz b by force
    finally show ?thesis using b by (simp add: add.assoc)
  qed
  moreover have "last_free ?base (ss1 @ [sz]) (sweep_block desc b s)"
    using last fh b unfolding last_free_def s' by (simp add: add.assoc)
  moreover have "bitmap_of ?c ((ss1 @ [sz]) @ ss2)" using v(4) by simp
  ultimately show ?thesis using v(1,3) laid' by (intro sweep_invI [of ?m' _ ?c ?base]) (simp_all only: s', simp_all)
qed

section \<open>A free or dead block\<close>

lemma live_span:
  assumes i: "sweep_inv m0 L ss1 ss2 s" and x: "x \<in> L" "x < cl_base (ss_cluster s) + sum_list ss1"
  shows "x \<in> heads (cl_base (ss_cluster s)) ss1" "\<not> is_free (ss_mem s) x" "m0 (x + 8) \<le> ss_mem s (x + 8)"
proof -
  note v = sweep_invD [OF i]
  have l: "laid (ss_mem s) (cl_base (ss_cluster s)) ss1" using v(2) by simp
  show h: "x \<in> heads (cl_base (ss_cluster s)) ss1" "\<not> is_free (ss_mem s) x"
    using v(9) x by (auto simp: used_heads_def)
  have "8 < m0 (x + 8) \<Longrightarrow> ss_mem s (x + 8) = m0 (x + 8)" using v(8) x by (simp add: swept_part_def)
  then show "m0 (x + 8) \<le> ss_mem s (x + 8)" using headsD [OF l h(1)] by (cases "8 < m0 (x + 8)") auto
qed

lemma swept_part_extend:
  assumes p: "swept_part m0 L base off m" and off: "off \<le> off'"
    and none: "\<And>x. x \<in> L \<Longrightarrow> x < base + off' \<Longrightarrow> x < base + off"
    and ch: "\<And>a. m' a \<noteq> m a \<Longrightarrow> base \<le> a \<and> a < base + off' \<and>
      (\<forall>x \<in> L. x < base + off \<longrightarrow> a \<noteq> x \<and> \<not> (x < a \<and> a < x + m0 (x + 8)))"
  shows "swept_part m0 L base off' m'"
  unfolding swept_part_def
proof (intro conjI ballI allI impI)
  show "m' a = m0 a" if "a < base \<or> base + off' \<le> a" for a
    using ch [of a] that off p by (fastforce simp: swept_part_def)
next
  fix b assume b: "b \<in> L" "b < base + off'"
  note b' = none [OF b]
  show "m' b = type_bits m0 b" using ch [of b] b(1) b' p by (auto simp: swept_part_def)
  show "m' x = m0 x" if "b < x \<and> x < b + m0 (b + 8)" for x
    using ch [of x] b(1) b' p that by (auto simp: swept_part_def)
qed

lemma sweep_inv_new_free:
  assumes i: "sweep_inv m0 L ss1 (sz # ss2) s" and b: "b = cl_base (ss_cluster s) + sum_list ss1"
    and pf: "ss_prev_free s = 0" and L: "\<And>x. x \<in> L \<Longrightarrow> b \<le> x \<Longrightarrow> b + sz \<le> x"
  shows "sweep_inv m0 L (ss1 @ [sz]) ss2 (join_free b s)"
proof -
  note v = sweep_invD [OF i]
  let ?m = "ss_mem s" and ?c = "ss_cluster s" and ?base = "cl_base (ss_cluster s)"
  let ?m' = "?m(b := 0, b + 8 := sz, b + 16 := cl_free ?c)"
  have laid1: "laid ?m ?base ss1" and sz: "?m (b + 8) = sz" "32 \<le> sz" using v(2) b by auto
  have b0: "0 < b" using v(1) b by (simp add: cluster_frame_def)
  have s': "join_free b s = s\<lparr>ss_mem := ?m', ss_cluster := ?c\<lparr>cl_free := b\<rparr>, ss_prev_free := b\<rparr>"
    using pf sz by (simp add: join_free_def Let_def block_size_def HEADER_def)
  have other: "?m' a = ?m a" if "a < b \<or> b + 16 < a" for a using that by auto
  have below: "a + 32 \<le> b" if "a \<in> heads ?base ss1" for a
    using head_bounds [OF laid1 that] headsD [OF laid1 that] b by auto
  have above: "b + sz \<le> a" if "a \<in> heads (b + sz) ss2" for a using heads_ge that by blast
  have free: "is_free ?m' a \<longleftrightarrow> is_free ?m a" if "a \<in> heads ?base ss1" for a
    using below [OF that] by (simp add: is_free_def type_bits_half)
  have freeb: "is_free ?m' b" by (simp add: is_free_def type_bits_half)
  have fh: "free_heads ?m' ?base (ss1 @ [sz]) = insert b (free_heads ?m ?base ss1)"
    using free freeb b by (auto simp: free_heads_def)
  have uh: "used_heads ?m' ?base (ss1 @ [sz]) = used_heads ?m ?base ss1"
    using free freeb b by (auto simp: used_heads_def)
  have size_same: "?m' (a + 8) = ?m (a + 8)" if "a \<in> heads ?base ss1 \<or> a \<in> heads (b + sz) ss2 \<or> a = b" for a
    using that below [of a] above [of a] sz by auto
  have heads: "heads ?base ((ss1 @ [sz]) @ ss2) = heads ?base ss1 \<union> {b} \<union> heads (b + sz) ss2"
    using b by (simp add: add.assoc)
  have laid': "laid ?m' ?base ((ss1 @ [sz]) @ ss2)"
  proof (rule laid_frame)
    show "laid ?m ?base ((ss1 @ [sz]) @ ss2)" using v(2) by simp
    show "?m' (a + 8) = ?m (a + 8)" if "a \<in> heads ?base ((ss1 @ [sz]) @ ss2)" for a
      using that unfolding heads by (intro size_same) blast
  qed
  have "free_list_of ?m' (?c\<lparr>cl_free := b\<rparr>) (ss1 @ [sz])"
  proof -
    obtain fl where fl: "chain ?m (cl_free ?c) fl" "distinct fl" "set fl = free_heads ?m ?base ss1"
      using v(5) by (auto simp: free_list_of_def)
    have "?m' (x + 16) = ?m (x + 16)" if "x \<in> set fl" for x
      using below [of x] that fl(3) by (intro other) (auto simp: free_heads_def)
    then have "chain ?m' (cl_free ?c) fl" by (rule chain_frame [OF fl(1)])
    moreover have "b \<notin> set fl" using fl(3) below [of b] by (auto simp: free_heads_def)
    ultimately have "chain ?m' b (b # fl)" "distinct (b # fl)" using fl(2) b0 by auto
    then show ?thesis using fl(3) fh unfolding free_list_of_def by (intro exI [of _ "b # fl"]) auto
  qed
  moreover have "coalesced ?m' ?base (ss1 @ [sz])"
  proof -
    have last: "a + ?m (a + 8) \<noteq> b" if "a \<in> free_heads ?m ?base ss1" for a
      using v(6) pf that b by (auto simp: last_free_def)
    have "b + sz \<notin> insert b (free_heads ?m ?base ss1)" using below sz by (fastforce simp: free_heads_def)
    moreover have "a + ?m (a + 8) \<notin> insert b (free_heads ?m ?base ss1)" if "a \<in> free_heads ?m ?base ss1" for a
      using last [OF that] that v(7) by (auto simp: coalesced_def)
    moreover have "?m' (a + 8) = ?m (a + 8)" if "a \<in> free_heads ?m ?base ss1" for a
      using size_same [of a] that by (auto simp: free_heads_def)
    moreover have "?m' (b + 8) = sz" by simp
    ultimately show ?thesis unfolding coalesced_def fh by (metis insert_iff)
  qed
  moreover have "swept_part m0 L ?base (sum_list (ss1 @ [sz])) ?m'"
  proof (rule swept_part_extend [OF v(8)])
    show "x < ?base + sum_list ss1" if "x \<in> L" "x < ?base + sum_list (ss1 @ [sz])" for x
      using L [OF that(1)] that(2) b by (force simp: add.assoc)
    show "?base \<le> a \<and> a < ?base + sum_list (ss1 @ [sz]) \<and>
        (\<forall>x \<in> L. x < ?base + sum_list ss1 \<longrightarrow> a \<noteq> x \<and> \<not> (x < a \<and> a < x + m0 (x + 8)))" if "?m' a \<noteq> ?m a" for a
    proof -
      have a: "b \<le> a" "a \<le> b + 16" using that other [of a] by (meson linorder_not_le)+
      have "x + m0 (x + 8) \<le> b" if "x \<in> L" "x < b" for x
        using live_span [OF i, of x] head_bounds [OF laid1, of x] that b by auto
      then show ?thesis using a b sz by fastforce
    qed
  qed simp
  moreover have "used_heads ?m' ?base (ss1 @ [sz]) = {x \<in> L. x < ?base + sum_list (ss1 @ [sz])}"
    unfolding uh v(9) using L b by force
  moreover have "last_free ?base (ss1 @ [sz]) (join_free b s)"
    using freeb b0 by (simp add: last_free_def s' b [symmetric])
  moreover have "bitmap_of (?c\<lparr>cl_free := b\<rparr>) ((ss1 @ [sz]) @ ss2)"
    using v(4) by (simp add: bitmap_of_def started_def)
  ultimately show ?thesis using v(1,3) laid'
    by (intro sweep_invI [of ?m' _ "?c\<lparr>cl_free := b\<rparr>" ?base]) (simp_all only: s', simp_all add: cluster_frame_def)
qed

lemma sweep_inv_join_free:
  assumes i: "sweep_inv m0 L ss1 (sz # ss2) s" and b: "b = cl_base (ss_cluster s) + sum_list ss1"
    and pf: "ss_prev_free s \<noteq> 0" and L: "\<And>x. x \<in> L \<Longrightarrow> b \<le> x \<Longrightarrow> b + sz \<le> x"
  shows "\<exists>ss1'. sum_list ss1' = sum_list ss1 + sz \<and> sweep_inv m0 L ss1' ss2 (join_free b s)"
proof -
  note v = sweep_invD [OF i]
  let ?m = "ss_mem s" and ?c = "ss_cluster s" and ?base = "cl_base (ss_cluster s)"
  obtain ss0 z where z: "ss1 = ss0 @ [z]" "ss_prev_free s = ?base + sum_list ss0" "is_free ?m (ss_prev_free s)"
    using v(6) pf by (auto simp: last_free_def)
  define q where "q = ss_prev_free s"
  let ?m' = "?m(q + 8 := z + sz)" and ?ss = "ss0 @ [z + sz]" and ?c' = "clear_block_start ?c (b - ?base)"
  have qb: "q + z = b" using z b by (simp add: q_def)
  have laid1: "laid ?m ?base ss1" and sz: "?m (b + 8) = sz" "32 \<le> sz" "16 dvd sz" using v(2) b by auto
  then have laid0: "laid ?m ?base ss0" and zz: "?m (q + 8) = z" "32 \<le> z" "16 dvd z" using z by (auto simp: q_def)
  have s': "join_free b s = s\<lparr>ss_mem := ?m', ss_cluster := ?c'\<rparr>"
    using pf sz zz by (simp add: join_free_def Let_def block_size_def q_def)
  have other: "?m' a = ?m a" if "a \<noteq> q + 8" for a using that by simp
  have q1: "q \<in> heads ?base ss1" using z by (simp add: q_def)
  have below: "a + 32 \<le> q" if "a \<in> heads ?base ss0" for a
    using head_bounds [OF laid0 that] headsD [OF laid0 that] z by (simp add: q_def)
  have above: "b + sz \<le> a" if "a \<in> heads (b + sz) ss2" for a using heads_ge that by blast
  have h1: "heads ?base ss1 = insert q (heads ?base ss0)" and h1': "heads ?base ?ss = insert q (heads ?base ss0)"
    using z by (auto simp: q_def)
  have free: "is_free ?m' a \<longleftrightarrow> is_free ?m a" if "a \<in> heads ?base ss1" for a
    using that below zz unfolding h1 by (fastforce simp: is_free_def type_bits_half)
  have fh: "free_heads ?m' ?base ?ss = free_heads ?m ?base ss1" and uh: "used_heads ?m' ?base ?ss = used_heads ?m ?base ss1"
    using free unfolding free_heads_def used_heads_def h1 h1' by auto
  have sum': "sum_list ?ss = sum_list ss1 + sz" using z by simp
  have ext: "?base + sum_list ?ss = b + sz" using z qb by (simp add: q_def)
  have heads': "heads ?base (?ss @ ss2) = insert q (heads ?base ss0) \<union> heads (b + sz) ss2"
    using heads_simps(3) [of ?base ?ss ss2] by (simp only: h1' ext)
  have heads0: "heads ?base (ss1 @ sz # ss2) = insert b (heads ?base (?ss @ ss2))"
    unfolding heads' using z b by (auto simp: q_def add.assoc)
  have b_new: "b \<notin> heads ?base (?ss @ ss2)"
    unfolding heads' using below [of b] above [of b] qb zz sz by auto
  have laid': "laid ?m' ?base (?ss @ ss2)"
  proof -
    have "laid ?m' ?base ss0"
    proof (rule laid_frame [OF laid0])
      show "?m' (a + 8) = ?m (a + 8)" if "a \<in> heads ?base ss0" for a using below [OF that] by (intro other) simp
    qed
    moreover have "laid ?m' (b + sz) ss2"
    proof (rule laid_frame)
      show "laid ?m (b + sz) ss2" using v(2) b by (simp add: add.assoc)
      show "?m' (a + 8) = ?m (a + 8)" if "a \<in> heads (b + sz) ss2" for a
        using above [OF that] qb sz by (intro other) simp
    qed
    moreover have "16 dvd z + sz" using zz sz by simp
    ultimately have "laid ?m' ?base ?ss" "laid ?m' (?base + sum_list ?ss) ss2"
      unfolding ext using z zz sz by (auto simp: q_def)
    then show ?thesis by (simp only: laid_append)
  qed
  have "free_list_of ?m' ?c' ?ss"
  proof -
    obtain fl where fl: "chain ?m (cl_free ?c) fl" "distinct fl" "set fl = free_heads ?m ?base ss1"
      using v(5) by (auto simp: free_list_of_def)
    have "x + 16 \<noteq> q + 8" if "x \<in> set fl" for x
      using that fl(3) below unfolding free_heads_def h1 by fastforce
    then have "chain ?m' (cl_free ?c) fl" by (intro chain_frame [OF fl(1)] other)
    then show ?thesis using fl(2,3) fh by (auto simp: free_list_of_def)
  qed
  moreover have "coalesced ?m' ?base ?ss"
  proof -
    have size_same: "?m' (a + 8) = ?m (a + 8)" if "a \<noteq> q" for a using that by simp
    have "a + ?m' (a + 8) \<notin> free_heads ?m ?base ss1" if "a \<in> free_heads ?m ?base ss1" for a
    proof (cases "a = q")
      case True
      then show ?thesis using below qb zz sz unfolding free_heads_def h1 by fastforce
    next
      case False
      then show ?thesis using that v(7) size_same by (simp add: coalesced_def)
    qed
    then show ?thesis unfolding coalesced_def fh by blast
  qed
  moreover have "swept_part m0 L ?base (sum_list ?ss) ?m'"
  proof (rule swept_part_extend [OF v(8)])
    show "x < ?base + sum_list ss1" if "x \<in> L" "x < ?base + sum_list ?ss" for x
      using L [OF that(1)] that(2) b unfolding sum' by (force simp: add.assoc)
    show "?base \<le> a \<and> a < ?base + sum_list ?ss \<and>
        (\<forall>x \<in> L. x < ?base + sum_list ss1 \<longrightarrow> a \<noteq> x \<and> \<not> (x < a \<and> a < x + m0 (x + 8)))" if "?m' a \<noteq> ?m a" for a
    proof -
      have a: "a = q + 8" using that other by blast
      have "a \<noteq> x \<and> \<not> (x < a \<and> a < x + m0 (x + 8))" if x: "x \<in> L" "x < ?base + sum_list ss1" for x
      proof -
        note sp = live_span [OF i x]
        have "x \<noteq> q" using sp(2) z(3) by (auto simp: q_def)
        then show ?thesis using heads_apart [OF laid1 sp(1) q1] sp(3) zz a headsD [OF laid1 sp(1)] by auto
      qed
      then show ?thesis using a z qb zz by (auto simp: q_def)
    qed
  qed (use sum' in simp)
  moreover have "used_heads ?m' ?base ?ss = {x \<in> L. x < ?base + sum_list ?ss}"
    unfolding uh v(9) sum' using L b by (force simp: add.assoc)
  moreover have "last_free ?base ?ss (join_free b s)"
    using z pf free [OF q1] unfolding last_free_def s' by (auto simp: q_def)
  moreover have "bitmap_of ?c' (?ss @ ss2)"
  proof -
    have "16 dvd b" using heads_aligned [OF v(2), of b] v(1) unfolding heads0 by (simp add: cluster_frame_def)
    then have k: "16 dvd b - ?base" using v(1) by (simp add: cluster_frame_def dvd_diff_nat)
    have "?base \<le> b" using b by simp
    then have at_b: "?base + 16 * k = b \<longleftrightarrow> k = (b - ?base) div 16" for k using k by auto
    define H where "H = heads ?base (?ss @ ss2)"
    have "started ?c k \<longleftrightarrow> ?base + 16 * k = b \<or> ?base + 16 * k \<in> H" for k
      using v(4) unfolding bitmap_of_def heads0 H_def by blast
    then have "started ?c' k \<longleftrightarrow> ?base + 16 * k \<in> H" for k
      using at_b [of k] b_new unfolding H_def [symmetric] started_clear by metis
    then show ?thesis unfolding bitmap_of_def H_def by (simp only: cl_bump_start) simp
  qed
  ultimately have "sweep_inv m0 L ?ss ss2 (join_free b s)" using v(1,3) laid'
    by (intro sweep_invI [of ?m' _ ?c' ?base])
      (simp_all only: s', simp_all add: cluster_frame_def clear_block_start_def Let_def z(1))
  then show ?thesis using sum' by blast
qed

section \<open>The sweep of a cluster\<close>

text \<open>What a block's death does besides is not seen by the memory and the cluster.\<close>

lemma bury_fields [simp]: "ss_mem (bury desc b s) = ss_mem s" "ss_cluster (bury desc b s) = ss_cluster s"
  "ss_prev_free (bury desc b s) = ss_prev_free s"
  by (simp_all add: bury_def Let_def)

lemma sweep_inv_bury: "sweep_inv m0 L ss1 ss2 (bury desc b s) \<longleftrightarrow> sweep_inv m0 L ss1 ss2 s"
  by (simp add: sweep_inv_def last_free_def)

lemma sweep_inv_block:
  assumes i: "sweep_inv m0 L ss1 (sz # ss2) s" and b: "b = cl_base (ss_cluster s) + sum_list ss1"
    and lb: "b \<in> L \<longleftrightarrow> live_block (ss_mem s) b" and L: "\<And>x. x \<in> L \<Longrightarrow> b < x \<Longrightarrow> b + sz \<le> x"
  shows "\<exists>ss1'. sum_list ss1' = sum_list ss1 + sz \<and> sweep_inv m0 L ss1' ss2 (sweep_block desc b s)"
proof (cases "live_block (ss_mem s) b")
  case True
  then show ?thesis using sweep_inv_live [OF i b True _ L] lb by (intro exI [of _ "ss1 @ [sz]"]) simp
next
  case False
  let ?s = "if \<not> is_free (ss_mem s) b then bury desc b s else s"
  have s': "sweep_block desc b s = join_free b ?s" using False by (auto simp: sweep_block_def live_block_def Let_def)
  have i': "sweep_inv m0 L ss1 (sz # ss2) ?s" using i by (simp add: sweep_inv_bury)
  have c: "ss_cluster ?s = ss_cluster s" by simp
  have L': "b + sz \<le> x" if "x \<in> L" "b \<le> x" for x using that L [OF that(1)] lb False by (cases "b = x") auto
  show ?thesis
  proof (cases "ss_prev_free ?s = 0")
    case True
    then show ?thesis unfolding s' using sweep_inv_new_free [OF i' _ True L'] b c
      by (intro exI [of _ "ss1 @ [sz]"]) simp
  next
    case False
    then show ?thesis unfolding s' using sweep_inv_join_free [OF i' _ False L'] b c by simp
  qed
qed

lemma sweep_loop_inv:
  assumes "sweep_inv m0 L ss1 ss2 s" "base = cl_base (ss_cluster s)"
    and "\<And>x. x \<in> heads (base + sum_list ss1) ss2 \<Longrightarrow> x \<in> L \<longleftrightarrow> live_block m0 x"
    and "\<And>x. x \<in> L \<Longrightarrow> base + sum_list ss1 \<le> x \<Longrightarrow> x \<in> heads (base + sum_list ss1) ss2"
  shows "\<exists>ss'. sum_list ss' = sum_list ss1 + sum_list ss2 \<and> sweep_inv m0 L ss' [] (sweep_loop desc (sum_list ss1) s)"
  using assms
proof (induction ss2 arbitrary: ss1 s)
  case Nil
  then have "cl_bump (ss_cluster s) = sum_list ss1" using sweep_invD(3) by fastforce
  then show ?case using Nil.prems(1) by (subst sweep_loop.simps) (auto simp: Let_def)
next
  case (Cons sz ss2)
  note v = sweep_invD [OF Cons.prems(1)]
  let ?b = "base + sum_list ss1"
  have b: "block_size (ss_mem s) ?b = sz" "32 \<le> sz" using v(2) Cons.prems(2) by (auto simp: block_size_def)
  have same: "ss_mem s a = m0 a" if "?b \<le> a" for a using v(8) that Cons.prems(2) by (simp add: swept_part_def)
  have lb: "?b \<in> L \<longleftrightarrow> live_block (ss_mem s) ?b"
    using Cons.prems(3) [of ?b] same by (simp add: live_block_def is_free_def is_marked_def type_bits_half)
  have L: "?b + sz \<le> x" if "x \<in> L" "?b < x" for x
    using Cons.prems(4) [OF that(1)] that(2) heads_ge [of x "?b + sz" ss2] by auto
  obtain ss1' where i: "sum_list ss1' = sum_list ss1 + sz" "sweep_inv m0 L ss1' ss2 (sweep_block desc ?b s)"
    using sweep_inv_block [OF Cons.prems(1) _ lb L] Cons.prems(2) by auto
  have e: "base + sum_list ss1' = ?b + sz" using i(1) by simp
  have "\<exists>ss'. sum_list ss' = sum_list ss1' + sum_list ss2 \<and>
      sweep_inv m0 L ss' [] (sweep_loop desc (sum_list ss1') (sweep_block desc ?b s))"
  proof (rule Cons.IH [OF i(2)])
    show "base = cl_base (ss_cluster (sweep_block desc ?b s))" using Cons.prems(2) by simp
    show "x \<in> L \<longleftrightarrow> live_block m0 x" if "x \<in> heads (base + sum_list ss1') ss2" for x
      using Cons.prems(3) that unfolding e by simp
    show "x \<in> heads (base + sum_list ss1') ss2" if "x \<in> L" "base + sum_list ss1' \<le> x" for x
      using Cons.prems(4) [OF that(1)] that(2) b(2) unfolding e by auto
  qed
  moreover have "sweep_loop desc (sum_list ss1) s = sweep_loop desc (sum_list ss1') (sweep_block desc ?b s)"
    using b v(3) Cons.prems(2) i(1) by (subst sweep_loop.simps) (simp add: Let_def MIN_BLOCK_def)
  ultimately show ?case using i(1) by (simp add: add.assoc)
qed

text \<open>
  A sweep leaves the cluster well-formed, its free blocks coalesced. The blocks in use afterwards are those
  that were in use and marked; they keep their contents and lose their marks.
\<close>

lemma cluster_sweep_live:
  assumes wf: "wf_cluster m c ss" and s: "s = cluster_sweep desc m c r pend"
  defines "L \<equiv> {b \<in> block_starts c. live_block m b}"
  shows "\<exists>ss'. wf_cluster (ss_mem s) (ss_cluster s) ss' \<and> coalesced (ss_mem s) (cl_base c) ss'"
    "cl_base (ss_cluster s) = cl_base c" "cl_size (ss_cluster s) = cl_size c" "cl_bump (ss_cluster s) = cl_bump c"
    "{b \<in> block_starts (ss_cluster s). \<not> is_free (ss_mem s) b} = L"
    "b \<in> L \<Longrightarrow> ss_mem s b = type_bits m b" "b \<in> L \<Longrightarrow> b < x \<Longrightarrow> x < b + m (b + 8) \<Longrightarrow> ss_mem s x = m x"
    "a < cl_base c \<or> cl_base c + cl_bump c \<le> a \<Longrightarrow> ss_mem s a = m a"
proof -
  note w = wf_clusterD [OF wf]
  let ?s0 = "\<lparr>ss_mem = m, ss_cluster = c\<lparr>cl_free := 0\<rparr>, ss_registry = r, ss_pending = pend,
    ss_stats = no_stats, ss_prev_free = 0\<rparr>"
  have hd: "block_starts c = heads (cl_base c) ss" by (rule block_starts_heads [OF wf])
  have "sweep_inv m L [] ss ?s0"
  proof (rule sweep_invI [OF refl refl refl])
    show "free_list_of (ss_mem ?s0) (ss_cluster ?s0) []"
      by (auto simp: free_list_of_def free_heads_def intro: exI [of _ "[]"])
    show "used_heads (ss_mem ?s0) (cl_base (ss_cluster ?s0)) [] = {b \<in> L. b < cl_base (ss_cluster ?s0) + sum_list []}"
      using heads_ge by (fastforce simp: used_heads_def L_def hd)
    show "swept_part m L (cl_base (ss_cluster ?s0)) (sum_list []) (ss_mem ?s0)"
      using heads_ge by (fastforce simp: swept_part_def L_def hd)
    show "bitmap_of (ss_cluster ?s0) ([] @ ss)" using w(8) by (simp add: bitmap_of_def started_def)
  qed (use w in \<open>auto simp: cluster_frame_def last_free_def coalesced_def free_heads_def\<close>)
  then have "\<exists>ss'. sum_list ss' = sum_list [] + sum_list ss \<and> sweep_inv m L ss' [] (sweep_loop desc (sum_list []) ?s0)"
    by (rule sweep_loop_inv [of _ _ _ _ _ "cl_base c"]) (auto simp: L_def hd)
  then obtain ss' where sum: "sum_list ss' = sum_list ss" and i: "sweep_inv m L ss' [] s"
    by (auto simp: s cluster_sweep_def)
  have keep: "cl_base (ss_cluster (sweep_loop desc off t)) = cl_base (ss_cluster t) \<and>
      cl_size (ss_cluster (sweep_loop desc off t)) = cl_size (ss_cluster t) \<and>
      cl_bump (ss_cluster (sweep_loop desc off t)) = cl_bump (ss_cluster t)" for off t
    by (induction desc off t rule: sweep_loop.induct) (subst (1 2 3) sweep_loop.simps, simp add: Let_def)
  show fields: "cl_base (ss_cluster s) = cl_base c" "cl_size (ss_cluster s) = cl_size c" "cl_bump (ss_cluster s) = cl_bump c"
    by (simp_all add: s cluster_sweep_def keep)
  note v = sweep_invD [OF i]
  have wf': "wf_cluster (ss_mem s) (ss_cluster s) ss'" using v by (simp add: wf_cluster_def)
  then show "\<exists>ss'. wf_cluster (ss_mem s) (ss_cluster s) ss' \<and> coalesced (ss_mem s) (cl_base c) ss'"
    using v(7) fields by auto
  have below: "b < cl_base c + sum_list ss'" if "b \<in> L" for b
    using that swept_below [OF w(1), of b] sum by (simp add: L_def hd)
  have "{b \<in> block_starts (ss_cluster s). \<not> is_free (ss_mem s) b} = used_heads (ss_mem s) (cl_base (ss_cluster s)) ss'"
    using block_starts_heads [OF wf'] by (auto simp: used_heads_def)
  then show "{b \<in> block_starts (ss_cluster s). \<not> is_free (ss_mem s) b} = L"
    using v(9) below fields by auto
  show "b \<in> L \<Longrightarrow> ss_mem s b = type_bits m b" "b \<in> L \<Longrightarrow> b < x \<Longrightarrow> x < b + m (b + 8) \<Longrightarrow> ss_mem s x = m x"
    using v(8) below fields by (auto simp: swept_part_def)
  show "a < cl_base c \<or> cl_base c + cl_bump c \<le> a \<Longrightarrow> ss_mem s a = m a"
    using v(8) w(2) sum fields by (auto simp: swept_part_def)
qed

end
