(* ===== verification/GcCollect.thy ===== *)
theory GcCollect
  imports GcSweep
begin

text \<open>
  The sweep of all clusters and a whole collection: what is reachable from the roots survives unchanged,
  everything else becomes free, and the heap is well-formed again.
\<close>

section \<open>Clusters do not disturb each other\<close>

definition same_in :: "cluster \<Rightarrow> memory \<Rightarrow> memory \<Rightarrow> bool" where
  "same_in c m m' \<longleftrightarrow> (\<forall>a. cl_base c \<le> a \<and> a < cl_base c + cl_bump c \<longrightarrow> m' a = m a)"

lemma same_in_block:
  assumes "cluster_ok m c" "same_in c m m'" "b \<in> block_starts c" "b \<le> x" "x < b + m (b + 8)"
  shows "m' x = m x"
  using cluster_block [OF assms(1,3)] assms(2,4,5) by (simp add: same_in_def)

lemma same_in_head:
  assumes "cluster_ok m c" "same_in c m m'" "b \<in> block_starts c"
  shows "m' b = m b" "m' (b + 8) = m (b + 8)" "m' (b + 16) = m (b + 16)"
  using same_in_block [OF assms] cluster_block [OF assms(1,3)] by auto

lemma cluster_ok_same: "cluster_ok m c \<Longrightarrow> same_in c m m' \<Longrightarrow> cluster_ok m' c"
  by (rule cluster_ok_frame [of m]) (simp_all add: same_in_head is_free_def type_bits_half)

lemma apart_bump: "apart c d \<Longrightarrow> cl_bump c \<le> cl_size c \<Longrightarrow> cl_bump d \<le> cl_size d \<Longrightarrow>
    cl_base d \<le> a \<Longrightarrow> a < cl_base d + cl_bump d \<Longrightarrow> a < cl_base c \<or> cl_base c + cl_bump c \<le> a"
  by (auto simp: apart_def)

lemma cluster_ok_bump: "cluster_ok m c \<Longrightarrow> cl_bump c \<le> cl_size c"
  by (auto simp: cluster_ok_def dest: wf_clusterD)

definition beyond :: "cluster list \<Rightarrow> nat \<Rightarrow> bool" where
  "beyond cs a \<longleftrightarrow> (\<forall>c \<in> set cs. a < cl_base c \<or> cl_base c + cl_bump c \<le> a)"

lemma outside_beyond: "heap_ok m cs \<Longrightarrow> outside cs a \<Longrightarrow> beyond cs a"
  using cluster_ok_bump heap_clusterD by (fastforce simp: outside_def beyond_def)

text \<open>Clusters that a sweep may replace by one another.\<close>

definition same_place :: "cluster \<Rightarrow> cluster \<Rightarrow> bool" where
  "same_place c d \<longleftrightarrow> cl_base d = cl_base c \<and> cl_size d = cl_size c \<and> cl_bump d = cl_bump c"

lemma list_all2_source: "list_all2 P xs ys \<Longrightarrow> y \<in> set ys \<Longrightarrow> \<exists>x \<in> set xs. P x y"
  by (induction xs ys rule: list_all2_induct) auto

section \<open>The sweep of all clusters\<close>

lemma cluster_sweep_ok:
  assumes ok: "cluster_ok m c" and s: "s = cluster_sweep desc m c r pend"
  shows "cluster_ok (ss_mem s) (ss_cluster s)" "same_place c (ss_cluster s)"
    "{b \<in> block_starts (ss_cluster s). \<not> is_free (ss_mem s) b} = {b \<in> block_starts c. live_block m b}"
    "b \<in> block_starts c \<Longrightarrow> live_block m b \<Longrightarrow> ss_mem s b = type_bits m b"
    "b \<in> block_starts c \<Longrightarrow> live_block m b \<Longrightarrow> b < x \<Longrightarrow> x < b + m (b + 8) \<Longrightarrow> ss_mem s x = m x"
    "beyond [c] a \<Longrightarrow> ss_mem s a = m a"
proof -
  obtain ss where wf: "wf_cluster m c ss" using ok by (auto simp: cluster_ok_def)
  note l = cluster_sweep_live [OF wf s]
  show "cluster_ok (ss_mem s) (ss_cluster s)" using l(1) by (auto simp: cluster_ok_def)
  show "same_place c (ss_cluster s)" using l(2-4) by (simp add: same_place_def)
  show "{b \<in> block_starts (ss_cluster s). \<not> is_free (ss_mem s) b} = {b \<in> block_starts c. live_block m b}" by (rule l(5))
  show "b \<in> block_starts c \<Longrightarrow> live_block m b \<Longrightarrow> ss_mem s b = type_bits m b" using l(6) by simp
  show "b \<in> block_starts c \<Longrightarrow> live_block m b \<Longrightarrow> b < x \<Longrightarrow> x < b + m (b + 8) \<Longrightarrow> ss_mem s x = m x" using l(7) by simp
  show "beyond [c] a \<Longrightarrow> ss_mem s a = m a" using l(8) by (simp add: beyond_def)
qed

definition marked_objects :: "memory \<Rightarrow> cluster list \<Rightarrow> nat set" where
  "marked_objects m cs = {b \<in> objects m cs. is_marked m b}"

lemma marked_objects_Cons:
  "marked_objects m (c # cs) = {b \<in> block_starts c. live_block m b} \<union> marked_objects m cs"
  by (auto simp: marked_objects_def objects_def all_starts_def live_block_def)

definition kept :: "memory \<Rightarrow> memory \<Rightarrow> nat \<Rightarrow> bool" where
  "kept m m' b \<longleftrightarrow> m' b = type_bits m b \<and> (\<forall>x. b < x \<and> x < b + m (b + 8) \<longrightarrow> m' x = m x)"

lemma sweep_all_ok:
  assumes "heap_ok m cs" "sweep_all desc cs m r pend = (m', cs', r', pend', st)"
  shows "heap_ok m' cs' \<and> list_all2 same_place cs cs' \<and> objects m' cs' = marked_objects m cs \<and>
    (\<forall>b \<in> marked_objects m cs. kept m m' b) \<and> (\<forall>a. beyond cs a \<longrightarrow> m' a = m a)"
  using assms
proof (induction cs arbitrary: m r pend m' cs' r' pend' st)
  case Nil
  then show ?case by (simp add: objects_def marked_objects_def all_starts_def heap_ok_def)
next
  case (Cons c cs)
  define s where "s = cluster_sweep desc m c r pend"
  have ok: "cluster_ok m c" "heap_ok m cs" and ap: "\<And>d. d \<in> set cs \<Longrightarrow> apart c d"
    using Cons.prems(1) by (auto simp: heap_ok_def)
  note sw = cluster_sweep_ok [OF ok(1) s_def]
  obtain cs1 st1 where all: "sweep_all desc cs (ss_mem s) (ss_registry s) (ss_pending s) = (m', cs1, r', pend', st1)"
    and cs': "cs' = ss_cluster s # cs1"
    using Cons.prems(2) by (auto simp: Let_def s_def [symmetric] split: prod.splits)
  have bumps: "cl_bump c \<le> cl_size c" "\<And>d. d \<in> set cs \<Longrightarrow> cl_bump d \<le> cl_size d"
    using cluster_ok_bump ok(1) heap_clusterD [OF ok(2)] by auto
  have rest_same: "same_in d m (ss_mem s)" if "d \<in> set cs" for d
    using apart_bump [OF ap [OF that] bumps(1) bumps(2) [OF that]] sw(6) by (auto simp: same_in_def beyond_def)
  have "heap_ok (ss_mem s) cs"
    using ok(2) rest_same cluster_ok_same by (auto simp: heap_ok_def list_all_iff)
  note IH = Cons.IH [OF this all]
  have heads_same: "is_free (ss_mem s) b \<longleftrightarrow> is_free m b" "is_marked (ss_mem s) b \<longleftrightarrow> is_marked m b"
    if "d \<in> set cs" "b \<in> block_starts d" for d b
    using same_in_head(1) [OF heap_clusterD [OF ok(2) that(1)] rest_same [OF that(1)] that(2)]
    by (simp_all add: is_free_def is_marked_def type_bits_half)
  have marks: "marked_objects (ss_mem s) cs = marked_objects m cs"
    using heads_same by (auto simp: marked_objects_def objects_def all_starts_def)
  have first_beyond: "beyond cs a" if "cl_base c \<le> a" "a < cl_base c + cl_bump c" for a
    unfolding beyond_def
  proof
    fix d assume d: "d \<in> set cs"
    show "a < cl_base d \<or> cl_base d + cl_bump d \<le> a"
      using ap [OF d] bumps(1) bumps(2) [OF d] that by (auto simp: apart_def)
  qed
  have first_same: "same_in (ss_cluster s) (ss_mem s) m'"
    using IH first_beyond sw(2) by (auto simp: same_in_def same_place_def)
  have placed: "list_all2 same_place cs cs1" using IH by blast
  have "heap_ok m' cs'"
  proof -
    have "apart (ss_cluster s) d" if "d \<in> set cs1" for d
    proof -
      note source = list_all2_source [OF placed that]
      obtain e where "e \<in> set cs" "same_place e d" using source by blast
      then show ?thesis using ap [of e] sw(2) by (simp add: apart_def same_place_def)
    qed
    then show ?thesis using IH cluster_ok_same [OF sw(1) first_same] by (simp add: heap_ok_def cs')
  qed
  moreover have "list_all2 same_place (c # cs) cs'" using IH sw(2) by (simp add: cs')
  moreover have "objects m' cs' = marked_objects m (c # cs)"
  proof -
    have "is_free m' b \<longleftrightarrow> is_free (ss_mem s) b" if "b \<in> block_starts (ss_cluster s)" for b
      using same_in_head(1) [OF sw(1) first_same that] by (simp add: is_free_def type_bits_half)
    then have "objects m' cs' = {b \<in> block_starts (ss_cluster s). \<not> is_free (ss_mem s) b} \<union> objects m' cs1"
      by (auto simp: objects_def all_starts_def cs')
    then show ?thesis using IH sw(3) marks by (simp add: marked_objects_Cons)
  qed
  moreover have "kept m m' b" if b: "b \<in> marked_objects m (c # cs)" for b
  proof (cases "b \<in> block_starts c \<and> live_block m b")
    case True
    then have x: "m' x = ss_mem s x" if "b \<le> x" "x < b + m (b + 8)" for x
      using IH first_beyond [of x] that cluster_block [OF ok(1), of b] by auto
    moreover have "0 < m (b + 8)" using cluster_block [OF ok(1), of b] True by simp
    ultimately show ?thesis using sw(4,5) [of b] True by (simp add: kept_def)
  next
    case False
    then have b': "b \<in> marked_objects m cs" using b unfolding marked_objects_Cons by blast
    then obtain d where d: "d \<in> set cs" "b \<in> block_starts d" by (auto simp: marked_objects_def objects_def all_starts_def)
    note o = heap_clusterD [OF ok(2) d(1)] rest_same [OF d(1)] d(2)
    have "kept (ss_mem s) m' b" using IH b' marks by blast
    then show ?thesis using same_in_block [OF o] same_in_head [OF o]
      by (auto simp: kept_def type_bits_half)
  qed
  moreover have "m' a = m a" if "beyond (c # cs) a" for a using IH sw(6) that by (simp add: beyond_def)
  ultimately show ?case by blast
qed

section \<open>A collection\<close>

text \<open>What the collector relies on at the start of a cycle.\<close>

definition collectable :: "(nat \<Rightarrow> type_desc) \<Rightarrow> mutator list \<Rightarrow> gc_heap \<Rightarrow> bool" where
  "collectable desc mus h \<longleftrightarrow>
     heap_ok (gh_mem h) (gh_clusters h) \<and> graph_ok desc (gh_types h) (gh_mem h) (gh_clusters h) \<and>
     roots_ok mus h (gh_mem h)"

definition gh_objects :: "gc_heap \<Rightarrow> nat set" where
  "gh_objects h = objects (gh_mem h) (gh_clusters h)"

lemma retained_objects: "collectable desc mus h \<Longrightarrow> retained desc mus h \<subseteq> gh_objects h"
  unfolding retained_def gh_objects_def collectable_def
  using reach_objects root_blocks_cleared(3) by blast

lemma collect_cycle:
  assumes "collectable desc mus h"
  shows "\<exists>h' k st. run_collect_cycle desc mus h = Some (h', k, st) \<and>
    heap_ok (gh_mem h') (gh_clusters h') \<and> list_all2 same_place (gh_clusters h) (gh_clusters h') \<and>
    gh_objects h' = retained desc mus h \<and> (\<forall>b \<in> retained desc mus h. kept (gh_mem h) (gh_mem h') b) \<and>
    (\<forall>a. beyond (gh_clusters h) a \<longrightarrow> gh_mem h' a = gh_mem h a) \<and> gh_modules h' = gh_modules h"
proof -
  let ?m = "gh_mem h" and ?cs = "gh_clusters h" and ?R = "retained desc mus h"
  have h: "heap_ok ?m ?cs" and g: "graph_ok desc (gh_types h) ?m ?cs" and r: "roots_ok mus h ?m"
    using assms by (simp_all add: collectable_def)
  define m0 where "m0 = cleared (all_starts ?cs) ?m"
  let ?m1 = "painted ?R m0"
  obtain k where k: "mark_roots desc mus h (clear_all_marks ?cs ?m) = Some (?m1, k)"
    using mark_roots_retained [OF h g r] by (auto simp: m0_def)
  have R: "?R \<subseteq> objects ?m ?cs" using retained_objects [OF assms] by (simp add: gh_objects_def)
  have R': "?R \<subseteq> all_starts ?cs" using R by (auto simp: objects_def)
  have h0: "heap_ok m0 ?cs" unfolding m0_def by (rule heap_ok_marks(2) [OF h subset_refl])
  have h1: "heap_ok ?m1 ?cs" by (rule heap_ok_marks(1) [OF h0 R'])
  obtain m' cs' r' pend st where sw: "sweep_all desc ?cs ?m1 (gh_types h) [] = (m', cs', r', pend, st)"
    by (metis prod_cases5)
  note S = sweep_all_ok [OF h1 sw]
  have marked: "marked_objects ?m1 ?cs = ?R"
    using R by (auto simp: marked_objects_def paint_simps painted_marked m0_def cleared_marked)
      (auto simp: objects_def)
  have same: "?m1 a = ?m a" if "a \<notin> all_starts ?cs" for a
    using that R' by (auto simp: painted_def m0_def cleared_def)
  have "kept ?m m' b" if b: "b \<in> ?R" for b
  proof -
    have bs: "b \<in> all_starts ?cs" using b R' by blast
    have "?m1 x = ?m x" if "b < x" "x < b + ?m (b + 8)" for x
      using heap_interior [OF h bs that] by (rule same)
    moreover have "?m1 (b + 8) = ?m (b + 8)" using heap_size_word [OF h bs] by (rule same)
    moreover have "type_bits ?m1 b = type_bits ?m b" by (simp add: paint_simps m0_def)
    ultimately show ?thesis using S b marked by (simp add: kept_def)
  qed
  moreover have "m' a = ?m a" if "beyond ?cs a" for a
  proof -
    have "a \<notin> all_starts ?cs"
    proof
      assume "a \<in> all_starts ?cs"
      then obtain c where c: "c \<in> set ?cs" "a \<in> block_starts c" by (auto simp: all_starts_def)
      then show False using cluster_block [OF heap_clusterD [OF h c(1)] c(2)] that by (auto simp: beyond_def)
    qed
    then show ?thesis using S that same by simp
  qed
  ultimately show ?thesis
    using S marked k sw by (simp add: run_collect_cycle_def gh_objects_def Let_def)
qed

lemma kept_children:
  assumes h: "heap_ok m cs" and b: "b \<in> all_starts cs" and k: "kept m m' b" and dom: "\<And>td. r' td = None \<longleftrightarrow> r td = None"
  shows "children desc r' m' (b + 16) = children desc r m (b + 16)"
proof -
  have "known_type desc r' m' b = known_type desc r m' b" by (simp add: known_type_def dom Let_def)
  then have "children desc r' m' (b + 16) = children desc r m' (b + 16)"
    by (simp add: children_def HEADER_def Let_def)
  also have "\<dots> = children desc r m (b + 16)"
  proof (rule children_same)
    show "type_bits m' b = type_bits m b" using k by (simp add: kept_def type_bits_half)
    show "m' (b + 8) = m (b + 8)" using k heap_block [OF h b] by (simp add: kept_def)
    show "m' x = m x" if "b + 16 \<le> x" "x + 8 \<le> b + m (b + 8)" for x using k that by (simp add: kept_def)
  qed
  finally show ?thesis .
qed

text \<open>The registry loses no type in a cycle.\<close>

lemma dec_type_dom: "dec_type td r x = None \<longleftrightarrow> r x = None"
  by (auto simp: dec_type_def split: option.splits)

lemma sweep_block_dom: "ss_registry (sweep_block desc b s) x = None \<longleftrightarrow> ss_registry s x = None"
  by (simp add: sweep_block_def join_free_def bury_def Let_def dec_type_dom)

lemma sweep_loop_dom: "ss_registry (sweep_loop desc off s) x = None \<longleftrightarrow> ss_registry s x = None"
  by (induction desc off s rule: sweep_loop.induct) (subst sweep_loop.simps, simp add: Let_def sweep_block_dom)

lemma sweep_all_dom: "sweep_all desc cs m r pend = (m', cs', r', pend', st) \<Longrightarrow> r' x = None \<longleftrightarrow> r x = None"
  by (induction cs arbitrary: m r pend m' cs' r' pend' st)
    (auto simp: Let_def cluster_sweep_def sweep_loop_dom split: prod.splits)

lemma collect_cycle_dom: "run_collect_cycle desc mus h = Some (h', k, st) \<Longrightarrow> gh_types h' x = None \<longleftrightarrow> gh_types h x = None"
proof -
  assume "run_collect_cycle desc mus h = Some (h', k, st)"
  then obtain m1 k1 where mk: "mark_roots desc mus h (clear_all_marks (gh_clusters h) (gh_mem h)) = Some (m1, k1)"
    and body: "(let (m', cs, r, pend, st) = sweep_all desc (gh_clusters h) m1 (gh_types h) []
       in Some (h\<lparr>gh_mem := m', gh_clusters := cs, gh_types := r, gh_pending := gh_pending h @ pend,
                  gh_counters := count_cycle st (length cs) (gh_counters h)\<rparr>, k1, st)) = Some (h', k, st)"
    by (auto simp: run_collect_cycle_def bind_eq_Some_conv)
  obtain m' cs' r' pend st' where sw: "sweep_all desc (gh_clusters h) m1 (gh_types h) [] = (m', cs', r', pend, st')"
    by (metis prod_cases5)
  then have h': "gh_types h' = r'" using body by auto
  show ?thesis unfolding h' by (rule sweep_all_dom [OF sw])
qed

text \<open>A cycle leaves a heap that a further cycle may be run on, with the same roots.\<close>

lemma collect_cycle_collectable:
  assumes c: "collectable desc mus h" and run: "run_collect_cycle desc mus h = Some (h', k, st)"
  shows "collectable desc mus h'"
proof -
  let ?m = "gh_mem h" and ?cs = "gh_clusters h" and ?R = "retained desc mus h"
  have h: "heap_ok ?m ?cs" and g: "graph_ok desc (gh_types h) ?m ?cs" and r: "roots_ok mus h ?m"
    using c by (simp_all add: collectable_def)
  have ok: "heap_ok (gh_mem h') (gh_clusters h')" and pl: "list_all2 same_place ?cs (gh_clusters h')"
    and obj: "objects (gh_mem h') (gh_clusters h') = ?R" and kept: "\<And>b. b \<in> ?R \<Longrightarrow> kept ?m (gh_mem h') b"
    and away: "\<And>a. beyond ?cs a \<Longrightarrow> gh_mem h' a = ?m a" and mods: "gh_modules h' = gh_modules h"
    using collect_cycle [OF c] run by (auto simp: gh_objects_def)
  have R: "?R \<subseteq> objects ?m ?cs" using retained_objects [OF c] by (simp add: gh_objects_def)
  have ch: "children desc (gh_types h') (gh_mem h') (b + 16) = children desc (gh_types h) ?m (b + 16)" if "b \<in> ?R" for b
    using kept_children [OF h _ kept [OF that] collect_cycle_dom [OF run]] that R by (auto simp: objects_def)
  have "graph_ok desc (gh_types h') (gh_mem h') (gh_clusters h')"
    unfolding graph_ok_def obj
  proof (intro ballI)
    fix b q assume b: "b \<in> ?R" and "q \<in> set (children desc (gh_types h') (gh_mem h') (b + 16))"
    then have q: "q \<in> set (children desc (gh_types h) ?m (b + 16))" using ch by simp
    then obtain b' where b': "q = b' + 16" using g b R unfolding graph_ok_def by blast
    then have "(b, b') \<in> edges desc (gh_types h) ?m ?cs" using q b R by (auto simp: edges_def)
    then have "b' \<in> ?R" using b reach_step [of desc "gh_types h" ?m ?cs] unfolding retained_def by blast
    then show "\<exists>b' \<in> ?R. q = b' + 16" using b' by blast
  qed
  moreover have "roots_ok mus h' (gh_mem h')"
  proof -
    have out: "outside (gh_clusters h') a \<longleftrightarrow> outside ?cs a" for a
      using pl by (induction rule: list_all2_induct) (auto simp: outside_def same_place_def)
    have slots: "module_slots h' = module_slots h" using mods by (simp add: module_slots_def)
    have "gh_mem h' a = 0 \<or> (\<exists>b \<in> ?R. gh_mem h' a = b + 16)" if a: "a \<in> set (module_slots h)" for a
    proof -
      have "outside ?cs a" using r a by (auto simp: roots_ok_def list_all_iff)
      then have same: "gh_mem h' a = ?m a" using away outside_beyond [OF h] by blast
      have "b \<in> ?R" if "?m a = b + 16" for b
        using that a reach_subset [of "root_blocks mus h ?m" desc "gh_types h" ?m ?cs]
        unfolding retained_def root_blocks_def slot_roots_def by blast
      then show ?thesis using same r a by (auto simp: roots_ok_def)
    qed
    then show ?thesis using r unfolding roots_ok_def slots obj by (simp add: list_all_iff out)
  qed
  ultimately show ?thesis using ok by (simp add: collectable_def)
qed

end
