(* ===== verification/GcAlloc.thy ===== *)
theory GcAlloc
  imports GcCollect
begin

text \<open>
  Allocation in well-formed clusters: the search of the free list ends, and unless the block found is
  16 bytes larger than asked for, the cluster is well-formed again with one more object, fresh and zero.
\<close>

section \<open>The search of the free list\<close>

lemma find_fit_chain:
  assumes "chain m a fl"
  shows "(find_fit m want l a = Some None \<and> (\<forall>x \<in> set fl. m (x + 8) < want)) \<or>
    (\<exists>as x bs. fl = as @ x # bs \<and> want \<le> m (x + 8) \<and>
      find_fit m want l a = Some (Some (if as = [] then l else LinkAt (last as + 16), x)))"
  using assms
proof (induction m a fl arbitrary: l rule: chain.induct)
  case (1 m a)
  then show ?case by (simp add: find_fit.simps)
next
  case (2 m a x xs)
  have a: "a = x" "x \<noteq> 0" "chain m (m (x + 16)) xs" using 2(2) by auto
  show ?case
  proof (cases "want \<le> m (x + 8)")
    case True
    then show ?thesis using a by (intro disjI2 exI [of _ "[]"]) (auto simp: find_fit.simps block_size_def)
  next
    case False
    then have step: "find_fit m want l a = find_fit m want (LinkAt (x + 16)) (m (x + 16))"
      using a by (subst find_fit.simps) (simp add: block_size_def free_link_def HEADER_def)
    consider "find_fit m want (LinkAt (x + 16)) (m (x + 16)) = Some None" "\<forall>y \<in> set xs. m (y + 8) < want"
      | as y bs where "xs = as @ y # bs" "want \<le> m (y + 8)"
        "find_fit m want (LinkAt (x + 16)) (m (x + 16)) = Some (Some (if as = [] then LinkAt (x + 16) else LinkAt (last as + 16), y))"
      using 2(1) [OF a(3), of "LinkAt (x + 16)"] by blast
    then show ?thesis
    proof cases
      case 1
      then show ?thesis using step False by auto
    next
      case 2
      then show ?thesis using step by (intro disjI2 exI [of _ "x # as"] exI [of _ y] exI [of _ bs]) simp
    qed
  qed
qed

text \<open>Taking a block out of the chain.\<close>

lemma chain_unlink:
  assumes "chain m a (as @ x # bs)" "as \<noteq> []" "distinct (as @ x # bs)"
  shows "chain (m(last as + 16 := m (x + 16))) a (as @ bs)"
  using assms
proof (induction as arbitrary: a)
  case (Cons y as)
  have tail: "chain m (m (x + 16)) bs" using Cons.prems(1) by (induction as arbitrary: a y) auto
  show ?case
  proof (cases "as = []")
    case True
    have "chain (m(y + 16 := m (x + 16))) (m (x + 16)) bs"
      using tail Cons.prems(3) by (intro chain_frame [OF tail]) auto
    then show ?thesis using Cons.prems(1) True by (simp add: fun_upd_def)
  next
    case False
    then have "last as \<noteq> y" using Cons.prems(3) last_in_set by fastforce
    then show ?thesis using Cons.IH [of "m (y + 16)"] Cons.prems False by auto
  qed
qed simp

lemma chain_head: "chain m a (x # bs) \<Longrightarrow> chain m (m (x + 16)) bs"
  by simp

section \<open>What allocation gives\<close>

text \<open>
  The state \<open>m'\<close> after a block at \<open>b\<close> has been taken and its header written, in terms of the state before:
  the cluster is well-formed, has one more object, and the words of the other objects are unchanged.
\<close>

definition gains :: "memory \<Rightarrow> cluster \<Rightarrow> memory \<Rightarrow> cluster \<Rightarrow> nat \<Rightarrow> nat \<Rightarrow> bool" where
  "gains m c m' c' b want \<longleftrightarrow>
     cluster_ok m' c' \<and> cl_base c' = cl_base c \<and> cl_size c' = cl_size c \<and> b \<in> block_starts c' \<and>
     {x \<in> block_starts c'. \<not> is_free m' x} = insert b {x \<in> block_starts c. \<not> is_free m x} \<and>
     \<not> (b \<in> block_starts c \<and> \<not> is_free m b) \<and>
     m' (b + 8) = want \<and> (\<forall>x. b + 16 \<le> x \<and> x < b + want \<longrightarrow> m' x = 0) \<and>
     (\<forall>y \<in> block_starts c. \<not> is_free m y \<longrightarrow> (\<forall>x. y \<le> x \<and> x < y + m (y + 8) \<longrightarrow> m' x = m x)) \<and>
     (\<forall>x. x < cl_base c \<or> cl_base c + cl_size c \<le> x \<longrightarrow> m' x = m x) \<and>
     (\<forall>x. cl_base c + cl_bump c' \<le> x \<and> x < cl_base c + cl_size c \<longrightarrow> m' x = m x) \<and> cl_bump c \<le> cl_bump c'"

definition headed :: "nat \<Rightarrow> nat \<Rightarrow> nat \<Rightarrow> memory \<Rightarrow> memory" where
  "headed b tag want m = m(b := tag, b + 8 := want)"

definition sized :: "nat \<Rightarrow> bool" where
  "sized want \<longleftrightarrow> 32 \<le> want \<and> 16 dvd want"

lemma not_free_tag: "2 \<le> tag \<Longrightarrow> m b = tag \<Longrightarrow> \<not> is_free m b"
  by (simp add: is_free_def type_bits_half)

lemma gainsI:
  assumes wf: "wf_cluster m c ss" and wf': "wf_cluster m' c' ss'"
    and c': "cl_base c' = cl_base c" "cl_size c' = cl_size c" "cl_bump c \<le> cl_bump c'"
    and used: "used_heads m' (cl_base c) ss' = insert b (used_heads m (cl_base c) ss)" "b \<notin> used_heads m (cl_base c) ss"
    and new: "m' (b + 8) = want" "\<And>x. b + 16 \<le> x \<Longrightarrow> x < b + want \<Longrightarrow> m' x = 0"
    and ch: "\<And>x. m' x \<noteq> m x \<Longrightarrow> cl_base c \<le> x \<and> x < cl_base c + cl_bump c' \<and>
      (\<forall>y \<in> used_heads m (cl_base c) ss. \<not> (y \<le> x \<and> x < y + m (y + 8)))"
  shows "gains m c m' c' b want"
proof -
  have s: "block_starts c = heads (cl_base c) ss" "block_starts c' = heads (cl_base c) ss'"
    using block_starts_heads [OF wf] block_starts_heads [OF wf'] c' by auto
  have u: "{x \<in> block_starts c. \<not> is_free m x} = used_heads m (cl_base c) ss"
    "{x \<in> block_starts c'. \<not> is_free m' x} = used_heads m' (cl_base c) ss'" by (auto simp: s used_heads_def)
  have "b \<in> block_starts c'" using u(2) used(1) by auto
  moreover have "\<not> (b \<in> block_starts c \<and> \<not> is_free m b)" using u(1) used(2) by auto
  moreover have "m' x = m x" if "y \<in> block_starts c" "\<not> is_free m y" "y \<le> x" "x < y + m (y + 8)" for x y
    using ch [of x] that u(1) by auto
  moreover have "m' x = m x" if "x < cl_base c \<or> cl_base c + cl_bump c' \<le> x" for x
    using ch [of x] that by (cases "m' x = m x") auto
  moreover have "cl_bump c' \<le> cl_size c" using wf_clusterD(6) [OF wf'] c' by simp
  ultimately show ?thesis using c' new used(1) wf' unfolding gains_def u by (auto simp: cluster_ok_def)
qed

text \<open>A block at the end of the used part.\<close>

lemma bump_gains:
  assumes wf: "wf_cluster m c ss" and want: "sized want" and tag: "2 \<le> tag" and room: "cl_bump c + want \<le> cl_size c"
    and zero: "\<And>x. cl_base c + cl_bump c \<le> x \<Longrightarrow> x < cl_base c + cl_size c \<Longrightarrow> m x = 0"
    and b: "b = cl_base c + cl_bump c" and m': "(m1, c') = bump_block want (m, c)" "m' = headed b tag want m1"
  shows "gains m c m' c' b want"
proof -
  note w = wf_clusterD [OF wf]
  have w32: "32 \<le> want" "16 dvd want" using want by (auto simp: sized_def)
  have c': "c' = mark_block_start (c\<lparr>cl_bump := cl_bump c + want\<rparr>) (cl_bump c)"
    and m: "m' = m(b := tag, b + 8 := want)"
    using m' by (auto simp: bump_block_def headed_def b)
  have below: "x + m (x + 8) \<le> b \<and> 32 \<le> m (x + 8)" if "x \<in> heads (cl_base c) ss" for x
    using head_bounds [OF w(1) that] headsD [OF w(1) that] w(2) b by auto
  have same: "m' x = m x" if "x \<noteq> b" "x \<noteq> b + 8" for x using that m by simp
  have same': "m' x = m x \<and> m' (x + 8) = m (x + 8) \<and> m' (x + 16) = m (x + 16)" if "x \<in> heads (cl_base c) ss" for x
    using below [OF that] by (intro conjI same) auto
  have hd: "heads (cl_base c) (ss @ [want]) = insert b (heads (cl_base c) ss)" using w(2) b by simp
  have nf: "\<not> is_free m' b" using tag m by (simp add: is_free_def type_bits_half)
  have fr: "is_free m' x \<longleftrightarrow> is_free m x" if "x \<in> heads (cl_base c) ss" for x
    using same' [OF that] by (simp add: is_free_def type_bits_half)
  have laid: "laid m' (cl_base c) (ss @ [want])"
  proof -
    have "laid m' (cl_base c) ss" using same' by (intro laid_frame [OF w(1)]) blast
    then show ?thesis using w32 w(2) m b by simp
  qed
  have fh: "free_heads m' (cl_base c) (ss @ [want]) = free_heads m (cl_base c) ss"
    using nf fr unfolding free_heads_def hd by auto
  have uh: "used_heads m' (cl_base c) (ss @ [want]) = insert b (used_heads m (cl_base c) ss)"
    using nf fr unfolding used_heads_def hd by auto
  have b_new: "b \<notin> heads (cl_base c) ss" using below by fastforce
  have "free_list_of m' c' (ss @ [want])"
  proof -
    obtain fl where fl: "chain m (cl_free c) fl" "distinct fl" "set fl = free_heads m (cl_base c) ss"
      using w(9) by (auto simp: free_list_of_def)
    have "chain m' (cl_free c) fl" using fl(3) same' by (intro chain_frame [OF fl(1)]) (auto simp: free_heads_def)
    then show ?thesis using fl fh c' by (auto simp: free_list_of_def)
  qed
  moreover have "bitmap_of c' (ss @ [want])"
  proof -
    have idx: "cl_base c + 16 * k = b \<longleftrightarrow> k = cl_bump c div 16" for k using w(5) b by auto
    have "cl_bump c div 16 < 64 * length (cl_starts c)"
    proof -
      have "cl_bump c div 16 < cl_size c div 16"
        using div_le_mono [of "cl_bump c + 16" "cl_size c" 16] room w32 by simp
      then show ?thesis using w(7) by (simp add: cluster_frame_def)
    qed
    then have "started c' k \<longleftrightarrow> k = cl_bump c div 16 \<or> started c k" for k
      unfolding c' by (subst started_mark) (simp_all add: started_def)
    moreover have "cl_base c' = cl_base c" using c' by simp
    ultimately show ?thesis using w(8) unfolding bitmap_of_def by (simp only: hd insert_iff idx) blast
  qed
  ultimately have wf': "wf_cluster m' c' (ss @ [want])"
    using laid w c' room w32 by (simp add: wf_cluster_def cluster_frame_def mark_block_start_def Let_def)
  show ?thesis
  proof (rule gainsI [OF wf wf' _ _ _ uh])
    show "cl_base c' = cl_base c" "cl_size c' = cl_size c" "cl_bump c \<le> cl_bump c'" using c' by simp_all
    show "b \<notin> used_heads m (cl_base c) ss" using b_new by (simp add: used_heads_def)
    show "m' (b + 8) = want" using m by simp
    show "m' x = 0" if "b + 16 \<le> x" "x < b + want" for x
      using that same [of x] zero [of x] room b by simp
    show "cl_base c \<le> x \<and> x < cl_base c + cl_bump c' \<and>
        (\<forall>y \<in> used_heads m (cl_base c) ss. \<not> (y \<le> x \<and> x < y + m (y + 8)))" if "m' x \<noteq> m x" for x
      using that same [of x] below w32 b c' by (fastforce simp: used_heads_def)
  qed
qed

text \<open>A block of the free list, which it leaves by a write to the link before it.\<close>

lemma unlinked:
  assumes l: "laid m base ss" and fl: "chain m a (as @ x # bs)" "distinct (as @ x # bs)"
    "set (as @ x # bs) = free_heads m base ss"
    and mc: "(m1, c1) = write_link (if as = [] then ListHead else LinkAt (last as + 16)) (m (x + 16)) (m, c)" "a = cl_free c"
  shows "chain m1 (cl_free c1) (as @ bs)" "\<exists>f. c1 = c\<lparr>cl_free := f\<rparr>"
    "\<And>y. m1 y \<noteq> m y \<Longrightarrow> \<exists>f \<in> free_heads m base ss. f \<noteq> x \<and> y = f + 16"
proof -
  have "chain m1 (cl_free c1) (as @ bs) \<and> (\<exists>f. c1 = c\<lparr>cl_free := f\<rparr>) \<and>
    (\<forall>y. m1 y \<noteq> m y \<longrightarrow> (\<exists>f \<in> free_heads m base ss. f \<noteq> x \<and> y = f + 16))"
  proof (cases "as = []")
    case True
    then show ?thesis using mc fl(1) by (auto simp: write_link_def)
  next
    case False
    then have "last as \<in> free_heads m base ss" "last as \<noteq> x" using fl(2,3) last_in_set [OF False] by auto
    moreover have "m1 = m(last as + 16 := m (x + 16))" "c1 = c" using mc False by (auto simp: write_link_def)
    moreover have "\<exists>f. c = c\<lparr>cl_free := f\<rparr>" by (rule exI [of _ "cl_free c"]) simp
    ultimately show ?thesis using chain_unlink [OF fl(1) False fl(2)] mc(2) by (auto split: if_splits)
  qed
  then show "chain m1 (cl_free c1) (as @ bs)" "\<exists>f. c1 = c\<lparr>cl_free := f\<rparr>"
    "\<And>y. m1 y \<noteq> m y \<Longrightarrow> \<exists>f \<in> free_heads m base ss. f \<noteq> x \<and> y = f + 16" by auto
qed

text \<open>Words of a free block are not words of an object.\<close>

lemma free_not_used:
  assumes "laid m base ss" "f \<in> free_heads m base ss" "f \<le> x" "x < f + m (f + 8)" "y \<in> used_heads m base ss"
  shows "\<not> (y \<le> x \<and> x < y + m (y + 8))"
  using heads_apart [OF assms(1), of f y] assms(2-) by (auto simp: free_heads_def used_heads_def)

lemma unlink_keeps:
  assumes l: "laid m base ss" and ch: "\<And>y. m1 y \<noteq> m y \<Longrightarrow> \<exists>f \<in> free_heads m base ss. f \<noteq> b \<and> y = f + 16"
    and x: "x \<in> heads base ss"
  shows "m1 x = m x" "m1 (x + 8) = m (x + 8)" "m1 (b + 16) = m (b + 16)"
proof -
  have n: "x \<noteq> f + 16 \<and> x + 8 \<noteq> f + 16" if "f \<in> heads base ss" for f
    using heads_apart [OF l that x] headsD [OF l that] headsD [OF l x] by auto
  show "m1 x = m x" "m1 (x + 8) = m (x + 8)" using n ch unfolding free_heads_def by blast+
  show "m1 (b + 16) = m (b + 16)" using ch [of "b + 16"] by auto
qed

lemma swept_low: "laid m b ss \<Longrightarrow> a \<in> heads b ss \<Longrightarrow> a < b + sum_list ss"
  using head_bounds [of m b ss a] headsD [of m b ss a] by auto

lemma other_block:
  "laid m base ss \<Longrightarrow> b \<in> heads base ss \<Longrightarrow> x \<in> heads base ss \<Longrightarrow> x \<noteq> b \<Longrightarrow> k \<le> 16 \<Longrightarrow>
     \<not> (b \<le> x + k \<and> x + k < b + m (b + 8))"
  using heads_apart [of m base ss x b] headsD [of m base ss x] by auto

lemma touched_free:
  assumes l: "laid m base ss" and f: "f \<in> free_heads m base ss" and x: "f \<le> x" "x < f + m (f + 8)"
  shows "base \<le> x \<and> x < base + sum_list ss \<and> (\<forall>y \<in> used_heads m base ss. \<not> (y \<le> x \<and> x < y + m (y + 8)))"
proof -
  have "f \<in> heads base ss" using f by (simp add: free_heads_def)
  then show ?thesis using free_not_used [OF l f x] head_bounds [OF l] x by force
qed

lemma link_word: "laid m base ss \<Longrightarrow> f \<in> free_heads m base ss \<Longrightarrow> f \<le> f + 16 \<and> f + 16 < f + m (f + 8)"
  using headsD [of m base ss f] by (auto simp: free_heads_def)

text \<open>The block taken fits exactly.\<close>

lemma exact_gains:
  assumes wf: "wf_cluster m c ss" and want: "sized want" and tag: "2 \<le> tag"
    and fl: "chain m (cl_free c) (as @ b # bs)" "distinct (as @ b # bs)" "set (as @ b # bs) = free_heads m (cl_base c) ss"
    and fits: "m (b + 8) = want"
    and m': "(m1, c') = take_block want (if as = [] then ListHead else LinkAt (last as + 16)) b (m, c)" "m' = headed b tag want m1"
  shows "gains m c m' c' b want"
proof -
  note w = wf_clusterD [OF wf]
  let ?base = "cl_base c" and ?l = "if as = [] then ListHead else LinkAt (last as + 16)"
  obtain m2 c2 where wl: "(m2, c2) = write_link ?l (m (b + 16)) (m, c)" by (metis surj_pair)
  note u = unlinked [OF w(1) fl wl refl]
  obtain f where c2: "c2 = c\<lparr>cl_free := f\<rparr>" using u(2) by blast
  have b: "b \<in> heads ?base ss" "b \<in> free_heads m ?base ss" using fl(3) by (auto simp: free_heads_def)
  have w32: "32 \<le> want" using want by (simp add: sized_def)
  note keep2 = unlink_keeps [OF w(1) u(3)]
  have m2b: "m2 (b + 8) = want" using keep2(2) [OF _ b(1)] fits by simp
  have "m1 = write_zeros m2 (b + 16) (want - 16)" "c' = c2"
    using m'(1) wl m2b fits w32
    by (auto simp: take_block_def split_block_def free_link_def HEADER_def block_size_def MIN_BLOCK_def Let_def split: prod.splits)
  then have m: "m' = (write_zeros m2 (b + 16) (want - 16))(b := tag, b + 8 := want)" and c': "c' = c\<lparr>cl_free := f\<rparr>"
    using m'(2) c2 by (simp_all add: headed_def)
  have out: "m' x = m2 x" if "\<not> (b \<le> x \<and> x < b + want)" for x
    using that w32 by (auto simp: m write_zeros_def)
  have keep: "m' (x + k) = m2 (x + k)" if "x \<in> heads ?base ss" "x \<noteq> b" "k \<le> 16" for x k
    using other_block [OF w(1) b(1) that] fits by (intro out) simp
  have head: "m' x = m x" "m' (x + 8) = m (x + 8)" if "x \<in> heads ?base ss" "x \<noteq> b" for x
    using keep [OF that, of 0] keep [OF that, of 8] keep2(1,2) [OF _ that(1)] by simp_all
  have mb: "m' b = tag" "m' (b + 8) = want" by (simp_all add: m)
  have "laid m' ?base ss" using head(2) mb(2) fits by (intro laid_frame [OF w(1)]) metis
  moreover have fr: "is_free m' x \<longleftrightarrow> x \<noteq> b \<and> is_free m x" if "x \<in> heads ?base ss" for x
    using head(1) [OF that] mb(1) tag by (cases "x = b") (auto simp: is_free_def type_bits_half)
  then have fh: "free_heads m' ?base ss = free_heads m ?base ss - {b}" by (auto simp: free_heads_def)
  moreover have "free_list_of m' c' ss"
  proof -
    have "chain m' f (as @ bs)"
    proof (rule chain_frame)
      show "chain m2 f (as @ bs)" using u(1) c2 by simp
      show "m' (x + 16) = m2 (x + 16)" if "x \<in> set (as @ bs)" for x
        using keep [of x 16] that fl(2,3) by (auto simp: free_heads_def)
    qed
    moreover have "set (as @ bs) = free_heads m' ?base ss" using fh fl(2,3) by auto
    ultimately show ?thesis using fl(2) c' by (auto simp: free_list_of_def)
  qed
  ultimately have wf': "wf_cluster m' c' ss" using w c' by (simp add: wf_cluster_def cluster_frame_def bitmap_of_def started_def)
  show ?thesis
  proof (rule gainsI [OF wf wf'])
    show "used_heads m' ?base ss = insert b (used_heads m ?base ss)" using fr b by (auto simp: used_heads_def)
    show "b \<notin> used_heads m ?base ss" using b by (simp add: used_heads_def free_heads_def)
    show "m' x = 0" if "b + 16 \<le> x" "x < b + want" for x using that by (simp add: m write_zeros_def)
    show "?base \<le> x \<and> x < ?base + cl_bump c' \<and> (\<forall>y \<in> used_heads m ?base ss. \<not> (y \<le> x \<and> x < y + m (y + 8)))"
      if ne: "m' x \<noteq> m x" for x
    proof (cases "b \<le> x \<and> x < b + want")
      case True
      then show ?thesis using touched_free [OF w(1) b(2)] fits w(2) c' by simp
    next
      case False
      then obtain g where "g \<in> free_heads m ?base ss" "x = g + 16" using out [OF False] u(3) ne by auto
      then show ?thesis using touched_free [OF w(1)] link_word [OF w(1)] w(2) c' by simp
    qed
  qed (use c' mb in simp_all)
qed

text \<open>The block taken is large enough to be split.\<close>

lemma heads_halve:
  "b = base + sum_list as \<Longrightarrow> heads base (as @ want # rest # cs) = insert (b + want) (heads base (as @ (want + rest) # cs))"
  by (auto simp: add.assoc)

lemma split_gains:
  assumes wf: "wf_cluster m c ss" and want: "sized want" and tag: "2 \<le> tag"
    and fl: "chain m (cl_free c) (as @ b # bs)" "distinct (as @ b # bs)" "set (as @ b # bs) = free_heads m (cl_base c) ss"
    and large: "want + 32 \<le> m (b + 8)"
    and m': "(m1, c') = take_block want (if as = [] then ListHead else LinkAt (last as + 16)) b (m, c)" "m' = headed b tag want m1"
  shows "gains m c m' c' b want"
proof -
  note w = wf_clusterD [OF wf]
  let ?base = "cl_base c" and ?l = "if as = [] then ListHead else LinkAt (last as + 16)"
  obtain m2 c2 where wl: "(m2, c2) = write_link ?l (m (b + 16)) (m, c)" by (metis surj_pair)
  note u = unlinked [OF w(1) fl wl refl]
  obtain f where c2: "c2 = c\<lparr>cl_free := f\<rparr>" using u(2) by blast
  have b: "b \<in> heads ?base ss" "b \<in> free_heads m ?base ss" using fl(3) by (auto simp: free_heads_def)
  have w32: "32 \<le> want" "16 dvd want" using want by (simp_all add: sized_def)
  define rest where "rest = m (b + 8) - want"
  define q where "q = b + want"
  obtain ss1 sz ss2 where ss: "ss = ss1 @ sz # ss2" and b_at: "b = ?base + sum_list ss1" using heads_split [OF b(1)] by blast
  have sz: "m (b + 8) = sz" "32 \<le> sz" "16 dvd sz" using w(1) ss b_at by auto
  have rest: "sz = want + rest" "32 \<le> rest" "16 dvd rest" using large sz w32 by (auto simp: rest_def)
  let ?ss = "ss1 @ want # rest # ss2"
  have hd: "heads ?base ?ss = insert q (heads ?base ss)"
    unfolding ss rest(1) q_def by (rule heads_halve [OF b_at])
  note keep2 = unlink_keeps [OF w(1) u(3)]
  have m2b: "m2 (b + 8) = sz" using keep2(2) [OF _ b(1)] sz by simp
  have q: "q - ?base = q - ?base" "?base \<le> q" using b_at by (simp_all add: q_def)
  have "m1 = write_zeros (m2(q := 0, q + 8 := rest, q + 16 := f, b + 8 := want)) (b + 16) (want - 16)"
    "c' = mark_block_start (c\<lparr>cl_free := q\<rparr>) (q - ?base)"
    using m'(1) wl m2b rest c2 w32
    by (auto simp: take_block_def split_block_def free_link_def HEADER_def block_size_def MIN_BLOCK_def Let_def q_def
        split: prod.splits)
  then have m: "m' = (write_zeros (m2(q := 0, q + 8 := rest, q + 16 := f, b + 8 := want)) (b + 16) (want - 16))(b := tag, b + 8 := want)"
    and c': "c' = mark_block_start (c\<lparr>cl_free := q\<rparr>) (q - ?base)"
    using m'(2) by (simp_all add: headed_def)
  have out: "m' x = m2 x" if "\<not> (b \<le> x \<and> x < b + sz)" for x
    using that w32 rest by (auto simp: m write_zeros_def q_def)
  have keep: "m' (x + k) = m2 (x + k)" if "x \<in> heads ?base ss" "x \<noteq> b" "k \<le> 16" for x k
    using other_block [OF w(1) b(1) that] sz by (intro out) simp
  have head: "m' x = m x" "m' (x + 8) = m (x + 8)" if "x \<in> heads ?base ss" "x \<noteq> b" for x
    using keep [OF that, of 0] keep [OF that, of 8] keep2(1,2) [OF _ that(1)] by simp_all
  have mb: "m' b = tag" "m' (b + 8) = want" and mq: "m' q = 0" "m' (q + 8) = rest" "m' (q + 16) = f"
    using w32 by (simp_all add: m write_zeros_def q_def)
  have q_new: "q \<notin> heads ?base ss" using interior [OF w(1) b(1), of q] sz rest w32 by (simp add: q_def)
  have laid: "laid m' ?base ?ss"
  proof -
    have h: "heads ?base ss = heads ?base ss1 \<union> {b} \<union> heads (b + sz) ss2" using b_at by (auto simp: ss)
    have l: "laid m ?base ss1" "laid m (b + sz) ss2" using w(1) b_at by (simp_all add: ss add.assoc)
    have "x \<noteq> b" if "x \<in> heads ?base ss1 \<or> x \<in> heads (b + sz) ss2" for x
      using that swept_low [OF l(1), of x] heads_ge [of x "b + sz" ss2] b_at sz by auto
    then have "m' (x + 8) = m (x + 8)" if "x \<in> heads ?base ss1 \<or> x \<in> heads (b + sz) ss2" for x
      using that h by (intro head(2)) auto
    then have "laid m' ?base ss1" "laid m' (b + sz) ss2" using l by (auto intro: laid_frame)
    moreover have "q + rest = b + sz" using rest by (simp add: q_def)
    ultimately show ?thesis using mb mq w32 rest by (simp add: b_at [symmetric] q_def add.assoc)
  qed
  have fr: "is_free m' x \<longleftrightarrow> x \<noteq> b \<and> is_free m x" if "x \<in> heads ?base ss" for x
    using head(1) [OF that] mb(1) tag by (cases "x = b") (auto simp: is_free_def type_bits_half)
  have frq: "is_free m' q" using mq by (simp add: is_free_def type_bits_half)
  have fh: "free_heads m' ?base ?ss = insert q (free_heads m ?base ss - {b})"
    using fr frq q_new unfolding free_heads_def hd by auto
  have "free_list_of m' c' ?ss"
  proof -
    have "chain m' f (as @ bs)"
    proof (rule chain_frame)
      show "chain m2 f (as @ bs)" using u(1) c2 by simp
      show "m' (x + 16) = m2 (x + 16)" if "x \<in> set (as @ bs)" for x
        using keep [of x 16] that fl(2,3) by (auto simp: free_heads_def)
    qed
    moreover have "q \<noteq> 0" using w32 by (simp add: q_def)
    ultimately have "chain m' q (q # as @ bs)" using mq by simp
    moreover have "set (q # as @ bs) = free_heads m' ?base ?ss" using fh fl(2,3) by auto
    moreover have "q \<notin> set (as @ bs)" using q_new fl(3) by (auto simp: free_heads_def)
    then have "distinct (q # as @ bs)" using fl(2) by auto
    ultimately show ?thesis using c' unfolding free_list_of_def by (intro exI [of _ "q # as @ bs"]) simp
  qed
  moreover have "bitmap_of c' ?ss"
  proof -
    have "16 dvd b" using heads_aligned [OF w(1,3) b(1)] .
    then have al: "16 dvd q - ?base" using w32 w(3) by (simp add: q_def dvd_diff_nat)
    have le: "?base \<le> q" "q < ?base + cl_bump c"
      using head_bounds [OF w(1) b(1)] sz rest w(2) by (auto simp: q_def)
    then have idx: "?base + 16 * k = q \<longleftrightarrow> k = (q - ?base) div 16" for k using al by auto
    have "(q - ?base) div 16 < 64 * length (cl_starts c)" using start_index_bound(2) [OF wf, of "q - ?base"] le by simp
    then have "started c' k \<longleftrightarrow> k = (q - ?base) div 16 \<or> started c k" for k
      unfolding c' by (subst started_mark) (simp_all add: started_def)
    moreover have "cl_base c' = ?base" using c' by simp
    ultimately show ?thesis using w(8) unfolding bitmap_of_def by (simp only: hd insert_iff idx) blast
  qed
  moreover have "cl_bump c' = sum_list ?ss" using w(2) c' by (simp add: ss rest(1))
  ultimately have wf': "wf_cluster m' c' ?ss"
    using laid w(7) c' by (simp add: wf_cluster_def cluster_frame_def mark_block_start_def Let_def)
  show ?thesis
  proof (rule gainsI [OF wf wf'])
    show "used_heads m' ?base ?ss = insert b (used_heads m ?base ss)"
      using fr frq b unfolding used_heads_def hd by auto
    show "b \<notin> used_heads m ?base ss" using b by (simp add: used_heads_def free_heads_def)
    show "m' x = 0" if "b + 16 \<le> x" "x < b + want" for x using that by (simp add: m write_zeros_def)
    show "?base \<le> x \<and> x < ?base + cl_bump c' \<and> (\<forall>y \<in> used_heads m ?base ss. \<not> (y \<le> x \<and> x < y + m (y + 8)))"
      if ne: "m' x \<noteq> m x" for x
    proof (cases "b \<le> x \<and> x < b + sz")
      case True
      then show ?thesis using touched_free [OF w(1) b(2)] sz w(2) c' by simp
    next
      case False
      then obtain g where "g \<in> free_heads m ?base ss" "x = g + 16" using out [OF False] u(3) ne by auto
      then show ?thesis using touched_free [OF w(1)] link_word [OF w(1)] w(2) c' by simp
    qed
  qed (use c' mb in simp_all)
qed

section \<open>Allocation in a cluster and in the heap\<close>

definition fresh_tail :: "memory \<Rightarrow> cluster \<Rightarrow> bool" where
  "fresh_tail m c \<longleftrightarrow> (\<forall>x. cl_base c + cl_bump c \<le> x \<and> x < cl_base c + cl_size c \<longrightarrow> m x = 0)"

text \<open>The search ends; a cluster without room is left as it is.\<close>

lemma try_alloc_cases:
  assumes wf: "wf_cluster m c ss"
  shows "(\<exists>as b bs. chain m (cl_free c) (as @ b # bs) \<and> distinct (as @ b # bs) \<and>
        set (as @ b # bs) = free_heads m (cl_base c) ss \<and> want \<le> m (b + 8) \<and>
        try_alloc want (m, c) = Some (take_block want (if as = [] then ListHead else LinkAt (last as + 16)) b (m, c),
          Some (b, PathFreeList))) \<or>
    (\<forall>f \<in> free_heads m (cl_base c) ss. m (f + 8) < want) \<and>
      try_alloc want (m, c) = Some (if cl_bump c + want \<le> cl_size c
        then (bump_block want (m, c), Some (cl_base c + cl_bump c, PathBump)) else ((m, c), None))"
proof -
  obtain fl where fl: "chain m (cl_free c) fl" "distinct fl" "set fl = free_heads m (cl_base c) ss"
    using wf_clusterD(9) [OF wf] by (auto simp: free_list_of_def)
  consider "find_fit m want ListHead (cl_free c) = Some None" "\<forall>x \<in> set fl. m (x + 8) < want"
    | as x bs where "fl = as @ x # bs" "want \<le> m (x + 8)"
      "find_fit m want ListHead (cl_free c) = Some (Some (if as = [] then ListHead else LinkAt (last as + 16), x))"
    using find_fit_chain [OF fl(1), of want ListHead] by blast
  then show ?thesis
  proof cases
    case 1
    then show ?thesis using fl(3) by (simp add: try_alloc_def)
  next
    case 2
    then show ?thesis using fl
      by (intro disjI1 exI [of _ as] exI [of _ x] exI [of _ bs]) (simp add: try_alloc_def)
  qed
qed

lemma two_steps:
  fixes a b :: nat
  assumes "16 dvd a" "16 dvd b" "b \<le> a" "a \<noteq> b + 16"
  shows "a = b \<or> b + 32 \<le> a"
proof -
  obtain k l where "a = 16 * k" "b = 16 * l" using assms(1,2) by (auto elim!: dvdE)
  then have "k \<noteq> l + 1" "l \<le> k" "a = 16 * k" "b = 16 * l" using assms(3,4) by auto
  then show ?thesis by (cases "k = l") auto
qed

lemma try_alloc_gains:
  assumes ok: "cluster_ok m c" and want: "sized want" and tag: "2 \<le> tag" and zero: "fresh_tail m c"
    and run: "try_alloc want (m, c) = Some ((m1, c'), Some (b, path))" and no_hole: "m (b + 8) \<noteq> want + 16"
  shows "gains m c (headed b tag want m1) c' b want"
proof -
  obtain ss where wf: "wf_cluster m c ss" using ok by (auto simp: cluster_ok_def)
  note w = wf_clusterD [OF wf]
  from try_alloc_cases [OF wf, of want] show ?thesis
  proof (elim disjE exE conjE)
    fix as x bs
    assume fl: "chain m (cl_free c) (as @ x # bs)" "distinct (as @ x # bs)"
      "set (as @ x # bs) = free_heads m (cl_base c) ss" "want \<le> m (x + 8)"
      and r: "try_alloc want (m, c) = Some (take_block want (if as = [] then ListHead else LinkAt (last as + 16)) x (m, c),
          Some (x, PathFreeList))"
    have x: "b = x" "(m1, c') = take_block want (if as = [] then ListHead else LinkAt (last as + 16)) b (m, c)"
      using r run by auto
    have "x \<in> heads (cl_base c) ss" using fl(3) by (auto simp: free_heads_def)
    then have "16 dvd m (b + 8)" using headsD [OF w(1)] x(1) by simp
    moreover have "want \<le> m (b + 8)" "16 dvd want" using fl(4) x(1) want by (simp_all add: sized_def)
    ultimately have "m (b + 8) = want \<or> want + 32 \<le> m (b + 8)" using two_steps no_hole by blast
    then show ?thesis
      using exact_gains [OF wf want tag _ _ _ _ x(2) refl] split_gains [OF wf want tag _ _ _ _ x(2) refl] fl x(1) by blast
  next
    assume "try_alloc want (m, c) = Some (if cl_bump c + want \<le> cl_size c
        then (bump_block want (m, c), Some (cl_base c + cl_bump c, PathBump)) else ((m, c), None))"
    then have "cl_bump c + want \<le> cl_size c" "b = cl_base c + cl_bump c" "(m1, c') = bump_block want (m, c)"
      using run by (auto split: if_splits)
    then show ?thesis using bump_gains [OF wf want tag _ _ _ _ refl] zero by (simp add: fresh_tail_def)
  qed
qed

text \<open>The heap after an allocation: one more object, fresh and zero; the others are as before.\<close>

definition heap_gains :: "memory \<Rightarrow> cluster list \<Rightarrow> memory \<Rightarrow> cluster list \<Rightarrow> nat \<Rightarrow> nat \<Rightarrow> bool" where
  "heap_gains m cs m' cs' b want \<longleftrightarrow>
     heap_ok m' cs' \<and> list_all (fresh_tail m') cs' \<and> b \<notin> objects m cs \<and> objects m' cs' = insert b (objects m cs) \<and>
     m' (b + 8) = want \<and> (\<forall>x. b + 16 \<le> x \<and> x < b + want \<longrightarrow> m' x = 0) \<and>
     (\<forall>y \<in> objects m cs. \<forall>x. y \<le> x \<and> x < y + m (y + 8) \<longrightarrow> m' x = m x) \<and> (\<forall>x. outside cs x \<longrightarrow> m' x = m x)"

lemma heap_ok_Cons: "heap_ok m (c # cs) \<longleftrightarrow> cluster_ok m c \<and> (\<forall>d \<in> set cs. apart c d) \<and> heap_ok m cs"
  by (auto simp: heap_ok_def)

lemma objects_Cons: "objects m (c # cs) = {x \<in> block_starts c. \<not> is_free m x} \<union> objects m cs"
  by (auto simp: objects_def all_starts_def)

lemma in_cluster: "cluster_ok m c \<Longrightarrow> b \<in> block_starts c \<Longrightarrow> b \<le> x \<Longrightarrow> x < b + m (b + 8) \<Longrightarrow>
    cl_base c \<le> x \<and> x < cl_base c + cl_size c"
  using cluster_block [of m c b] by auto

text \<open>A change inside one cluster is none for a cluster apart from it.\<close>

lemma apart_same:
  assumes "cluster_ok m d" "apart c d" "\<And>x. x < cl_base c \<or> cl_base c + cl_size c \<le> x \<Longrightarrow> m' x = m x"
  shows "same_in d m m'" "fresh_tail m d \<Longrightarrow> fresh_tail m' d"
  using cluster_ok_bump [OF assms(1)] assms(2,3) by (auto simp: same_in_def fresh_tail_def apart_def)

lemma objects_same:
  assumes "heap_ok m cs" "\<And>d. d \<in> set cs \<Longrightarrow> same_in d m m'"
  shows "heap_ok m' cs" "objects m' cs = objects m cs"
    "y \<in> objects m cs \<Longrightarrow> y \<le> x \<Longrightarrow> x < y + m (y + 8) \<Longrightarrow> m' x = m x"
proof -
  show "heap_ok m' cs" using assms cluster_ok_same by (auto simp: heap_ok_def list_all_iff)
  have "is_free m' b \<longleftrightarrow> is_free m b" if "d \<in> set cs" "b \<in> block_starts d" for d b
    using same_in_head(1) [OF heap_clusterD [OF assms(1) that(1)] assms(2) [OF that(1)] that(2)]
    by (simp add: is_free_def type_bits_half)
  then show "objects m' cs = objects m cs" by (auto simp: objects_def all_starts_def)
  show "y \<in> objects m cs \<Longrightarrow> y \<le> x \<Longrightarrow> x < y + m (y + 8) \<Longrightarrow> m' x = m x"
    using same_in_block heap_clusterD [OF assms(1)] assms(2) by (fastforce simp: objects_def all_starts_def)
qed

lemma first_gains:
  assumes ok: "heap_ok m (c # cs)" and z: "list_all (fresh_tail m) (c # cs)" and g: "gains m c m' c' b want"
  shows "heap_gains m (c # cs) m' (c' # cs) b want"
proof -
  have c: "cluster_ok m c" "\<And>d. d \<in> set cs \<Longrightarrow> apart c d" "heap_ok m cs" using ok by (auto simp: heap_ok_Cons)
  have out: "m' x = m x" if "x < cl_base c \<or> cl_base c + cl_size c \<le> x" for x
    using g that unfolding gains_def by blast
  have ct: "cluster_ok m d" if "d \<in> set cs" for d using heap_clusterD [OF c(3) that] .
  note ap = apart_same [OF ct c(2) out]
  note o = objects_same [OF c(3) ap(1)]
  have c': "cluster_ok m' c'" "cl_base c' = cl_base c" "cl_size c' = cl_size c" "cl_bump c \<le> cl_bump c'"
    using g by (auto simp: gains_def)
  have "heap_ok m' (c' # cs)" using o(1) c c' by (auto simp: heap_ok_Cons apart_def)
  moreover have "list_all (fresh_tail m') (c' # cs)"
  proof -
    have "fresh_tail m' c'" using g z c' by (simp add: gains_def fresh_tail_def)
    then show ?thesis using ap(2) z by (auto simp: list_all_iff)
  qed
  moreover have "b \<in> block_starts c'" using g by (simp add: gains_def)
  then have b: "cl_base c \<le> b" "b < cl_base c + cl_size c"
    using in_cluster [OF c'(1), of b b] cluster_block [OF c'(1), of b] c' by auto
  have "b \<notin> objects m cs"
  proof
    assume "b \<in> objects m cs"
    then obtain d where d: "d \<in> set cs" "b \<in> block_starts d" by (auto simp: objects_def all_starts_def)
    then show False using c(2) [OF d(1)] cluster_block [OF ct [OF d(1)] d(2)] b by (auto simp: apart_def)
  qed
  then have "b \<notin> objects m (c # cs)" using g by (auto simp: objects_Cons gains_def)
  moreover have "objects m' (c' # cs) = insert b (objects m (c # cs))"
    using g o(2) by (simp add: objects_Cons gains_def)
  moreover have "m' x = m x" if y: "y \<in> objects m (c # cs)" "y \<le> x" "x < y + m (y + 8)" for x y
    using y g o(3) [of y x] by (auto simp: objects_Cons gains_def)
  ultimately show ?thesis using g out unfolding heap_gains_def by (auto simp: gains_def outside_def)
qed

lemma later_gains:
  assumes ok: "heap_ok m (c # cs)" and z: "list_all (fresh_tail m) (c # cs)" and g: "heap_gains m cs m' cs' b want"
    and pl: "\<And>d'. d' \<in> set cs' \<Longrightarrow> \<exists>d \<in> set cs. cl_base d' = cl_base d \<and> cl_size d' = cl_size d"
  shows "heap_gains m (c # cs) m' (c # cs') b want"
proof -
  have c: "cluster_ok m c" "\<And>d. d \<in> set cs \<Longrightarrow> apart c d" using ok by (auto simp: heap_ok_Cons)
  have out: "m' x = m x" if "cl_base c \<le> x" "x < cl_base c + cl_size c" for x
  proof -
    have "outside cs x" using that c(2) by (fastforce simp: outside_def apart_def)
    then show ?thesis using g by (simp add: heap_gains_def)
  qed
  have s: "same_in c m m'" using out cluster_ok_bump [OF c(1)] by (simp add: same_in_def)
  have g': "heap_ok m' cs'" "b \<in> objects m' cs'" "b \<notin> objects m cs" using g by (auto simp: heap_gains_def)
  have "apart c d'" if "d' \<in> set cs'" for d' using pl [OF that] c(2) unfolding apart_def by metis
  then have ok': "heap_ok m' (c # cs')" using g'(1) cluster_ok_same [OF c(1) s] by (simp add: heap_ok_Cons)
  moreover have "fresh_tail m' c" using z out by (simp add: fresh_tail_def)
  then have "list_all (fresh_tail m') (c # cs')" using g by (simp add: heap_gains_def)
  moreover have fr: "is_free m' x \<longleftrightarrow> is_free m x" if "x \<in> block_starts c" for x
    using same_in_head(1) [OF c(1) s that] by (simp add: is_free_def type_bits_half)
  then have "objects m' (c # cs') = insert b (objects m (c # cs))"
    using g unfolding objects_Cons heap_gains_def by auto
  moreover have "b \<notin> block_starts c"
  proof
    assume "b \<in> block_starts c"
    then have x: "cl_base c \<le> b" "b < cl_base c + cl_size c" using in_cluster [OF c(1), of b b] cluster_block [OF c(1), of b] by auto
    obtain d' where d': "d' \<in> set cs'" "b \<in> block_starts d'" using g'(2) by (auto simp: objects_def all_starts_def)
    then have "cl_base d' \<le> b" "b < cl_base d' + cl_size d'"
      using in_cluster [of m' d' b b] cluster_block [of m' d' b] heap_clusterD [OF g'(1) d'(1)] by auto
    moreover obtain d where "apart c d" "cl_base d' = cl_base d" "cl_size d' = cl_size d" using pl [OF d'(1)] c(2) by blast
    ultimately show False using x by (auto simp: apart_def)
  qed
  then have "b \<notin> objects m (c # cs)" using g'(3) by (simp add: objects_Cons)
  moreover have "m' x = m x" if "y \<in> objects m (c # cs)" "y \<le> x" "x < y + m (y + 8)" for x y
    using that g same_in_block [OF c(1) s, of y x] by (auto simp: objects_Cons heap_gains_def)
  ultimately show ?thesis using g unfolding heap_gains_def by (auto simp: outside_def)
qed

lemma try_clusters_gains:
  assumes "heap_ok m cs" "list_all (fresh_tail m) cs" "sized want" "2 \<le> tag"
  shows "\<exists>m1 cs1 got. try_clusters want m cs = Some (m1, cs1, got) \<and>
    (\<forall>d' \<in> set cs1. \<exists>d \<in> set cs. cl_base d' = cl_base d \<and> cl_size d' = cl_size d) \<and>
    (case got of None \<Rightarrow> m1 = m \<and> cs1 = cs
     | Some (b, path) \<Rightarrow> m (b + 8) \<noteq> want + 16 \<longrightarrow> heap_gains m cs (headed b tag want m1) cs1 b want)"
  using assms
proof (induction cs)
  case (Cons c cs)
  have c: "cluster_ok m c" "heap_ok m cs" using Cons.prems(1) by (auto simp: heap_ok_Cons)
  obtain ss where wf: "wf_cluster m c ss" using c(1) by (auto simp: cluster_ok_def)
  have "\<exists>r. try_alloc want (m, c) = Some r \<and> (snd r = None \<longrightarrow> fst r = (m, c))"
    using try_alloc_cases [OF wf, of want] by (auto split: if_splits)
  then obtain m1 c1 got where t: "try_alloc want (m, c) = Some ((m1, c1), got)" "got = None \<longrightarrow> (m1, c1) = (m, c)" by fastforce
  show ?case
  proof (cases got)
    case (Some g)
    obtain b path where g: "g = (b, path)" by fastforce
    have "cl_base c1 = cl_base c \<and> cl_size c1 = cl_size c"
      using t(1) by (auto simp: try_alloc_def bump_block_def take_block_def split_block_def write_link_def Let_def
          split: option.splits if_splits prod.splits link.splits)
    moreover have "m (b + 8) \<noteq> want + 16 \<longrightarrow> heap_gains m (c # cs) (headed b tag want m1) (c1 # cs) b want"
      using first_gains [OF Cons.prems(1,2)] try_alloc_gains [OF c(1) Cons.prems(3,4)] t(1) Some g Cons.prems(2) by simp
    ultimately show ?thesis using t(1) Some g by auto
  next
    case None
    obtain m2 cs2 got2 where IH: "try_clusters want m cs = Some (m2, cs2, got2)"
      "\<forall>d' \<in> set cs2. \<exists>d \<in> set cs. cl_base d' = cl_base d \<and> cl_size d' = cl_size d"
      "case got2 of None \<Rightarrow> m2 = m \<and> cs2 = cs
       | Some (b, path) \<Rightarrow> m (b + 8) \<noteq> want + 16 \<longrightarrow> heap_gains m cs (headed b tag want m2) cs2 b want"
      using Cons.IH [OF c(2)] Cons.prems by auto
    have "try_clusters want m (c # cs) = Some (m2, c # cs2, got2)" using t None IH(1) by simp
    then show ?thesis using IH(2,3) later_gains [OF Cons.prems(1,2)] by (auto split: option.splits)
  qed
qed (simp add: heap_ok_def)

end
