(* ===== verification/GcSpec.thy ===== *)
theory GcSpec
  imports GcAlloc
begin

text \<open>
  What the collector (\<open>newm2-runtime/src/gc.rs\<close>) promises: conservative pointers are resolved exactly,
  a collection keeps precisely what can be reached and can be repeated, sweeping coalesces, allocation
  gives fresh zeroed memory; and the one request size that breaks the heap.
\<close>

section \<open>A heap to try things on\<close>

definition sample_desc :: "nat \<Rightarrow> type_desc" where
  "sample_desc td = \<lparr>td_size = 16, td_finalizer = None, td_ptroffs = [0, - 1]\<rparr>"

definition sample_types :: registry where
  "sample_types = [1000 \<mapsto> \<lparr>te_addr = 1000, te_blocks = 3, te_owner = None, te_size = 16\<rparr>]"

definition no_counters :: heap_counters where
  "no_counters =
     \<lparr>hc_alloc_blocks_lifetime = 0, hc_alloc_bytes_lifetime = 0, hc_free_blocks_lifetime = 0,
      hc_free_bytes_lifetime = 0, hc_bump_path_blocks = 0, hc_free_list_path_blocks = 0, hc_grow_events = 0,
      hc_collect_cycles = 0, hc_collect_total_nanos = 0, hc_collect_last_nanos = 0,
      hc_collect_last_reclaimed_bytes = 0, hc_live_blocks = 0, hc_live_bytes = 0, hc_cluster_count = 1,
      hc_module_root_count = 1, hc_peak_live_bytes = 0\<rparr>"

definition small_heap :: "memory \<Rightarrow> cluster \<Rightarrow> gc_heap" where
  "small_heap m c =
     \<lparr>gh_mem = m, gh_clusters = [c], gh_modules = [\<lparr>mr_name = ''M'', mr_var_base = 8, mr_offsets = [0]\<rparr>],
      gh_types = sample_types, gh_log = \<lparr>lg_capacity = 4, lg_entries = []\<rparr>, gh_generation = 0, gh_pending = [],
      gh_counters = no_counters, gh_pressure = 0, gh_threshold = - 1\<rparr>"

text \<open>Three objects of 32 bytes; the first points to the second, a module variable to the first.\<close>

definition sample_cluster :: cluster where
  "sample_cluster = \<lparr>cl_base = 4096, cl_size = 128, cl_bump = 96, cl_free = 0,
     cl_starts = [set_bit 4 (set_bit 2 (set_bit 0 0))]\<rparr>"

definition sample_memory :: memory where
  "sample_memory = (\<lambda>a. 0)(8 := 4112, 256 := 4150, 4096 := 1000, 4104 := 32, 4112 := 4144,
     4128 := 1000, 4136 := 32, 4160 := 1000, 4168 := 32)"

definition sample_heap :: gc_heap where
  "sample_heap = small_heap sample_memory sample_cluster"

definition sample_mutators :: "mutator list" where
  "sample_mutators = [\<lparr>mu_stack_top = 264, mu_parked_sp = 256, mu_spill = []\<rparr>]"

text \<open>An object, a free block of 48 bytes, an object that points to the first.\<close>

definition hole_cluster :: cluster where
  "hole_cluster = \<lparr>cl_base = 4096, cl_size = 128, cl_bump = 112, cl_free = 4128,
     cl_starts = [set_bit 5 (set_bit 2 (set_bit 0 0))]\<rparr>"

definition hole_memory :: memory where
  "hole_memory = (\<lambda>a. 0)(4096 := 1000, 4104 := 32, 4136 := 48, 4176 := 1000, 4184 := 32, 4192 := 4112)"

definition hole_heap :: gc_heap where
  "hole_heap = small_heap hole_memory hole_cluster"

definition hole_env :: gc_env where
  "hole_env = \<lparr>ge_desc = sample_desc, ge_mutators = [], ge_all_parked = True, ge_nanos = 0,
     ge_finalize = (\<lambda>fs m. m), ge_new_base = 8192\<rparr>"

text \<open>An allocation, the new object linked between the module variable and the last one, two collections.\<close>

definition hole_story :: "(nat \<times> gc_heap \<times> gc_heap) option" where
  "hole_story =
     Option.bind (nm2_new_rec hole_env 1000 hole_heap) (\<lambda>(h1, p).
       Option.bind (run_collect_cycle sample_desc [] (h1\<lparr>gh_mem := (gh_mem h1)(8 := p, p := 4192)\<rparr>)) (\<lambda>(h2, _).
         Option.bind (run_collect_cycle sample_desc [] h2) (\<lambda>(h3, _). Some (p, h2, h3))))"

section \<open>The hole\<close>

lemmas heap_eval = small_heap_def hole_heap_def hole_cluster_def hole_env_def sample_desc_def sample_types_def
  HEADER_def MIN_BLOCK_def BLOCK_ALIGN_def block_size_def free_link_def is_free_def is_marked_def type_bits_def

text \<open>The words in use after the allocation and the two writes.\<close>

definition hole_linked :: memory where
  "hole_linked = (\<lambda>a. 0)(8 := 4144, 4096 := 1000, 4104 := 32, 4128 := 1000, 4136 := 32, 4144 := 4192,
     4176 := 1000, 4184 := 32, 4192 := 4112)"

lemma hole_words [simp]: "hole_linked 8 = 4144" "hole_linked 4096 = 1000" "hole_linked 4104 = 32" "hole_linked 4112 = 0"
  "hole_linked 4128 = 1000" "hole_linked 4136 = 32" "hole_linked 4144 = 4192" "hole_linked 4160 = 0" "hole_linked 4168 = 0"
  "hole_linked 4176 = 1000" "hole_linked 4184 = 32" "hole_linked 4192 = 4112"
  by (simp_all add: hole_linked_def)

lemma hole_alloc:
  "\<exists>h. nm2_new_rec hole_env 1000 hole_heap = Some (h, 4144) \<and> (gh_mem h)(8 := 4144, 4144 := 4192) = hole_linked \<and>
     gh_clusters h = [hole_cluster\<lparr>cl_free := 0\<rparr>] \<and> gh_modules h = gh_modules hole_heap \<and>
     gh_types h 1000 \<noteq> None"
proof -
  have fit: "find_fit hole_memory 32 ListHead 4128 = Some (Some (ListHead, 4128))"
    by (subst find_fit.simps) (simp add: hole_memory_def block_size_def)
  have got: "try_alloc 32 (hole_memory, hole_cluster) =
      Some ((write_zeros hole_memory 4144 32, hole_cluster\<lparr>cl_free := 0\<rparr>), Some (4128, PathFreeList))"
    using fit by (simp add: try_alloc_def take_block_def split_block_def write_link_def hole_memory_def heap_eval Let_def)
  have words: "(write_zeros hole_memory 4144 32)(4128 := 1000, 4136 := 32, 8 := 4144, 4144 := 4192) = hole_linked"
    by (rule ext) (simp add: write_zeros_def hole_memory_def hole_linked_def)
  have fields: "gh_mem hole_heap = hole_memory" "gh_clusters hole_heap = [hole_cluster]" "gh_threshold hole_heap = - 1"
    "gh_pressure hole_heap = 0" "ge_desc hole_env = sample_desc"
    by (simp_all add: hole_heap_def small_heap_def hole_env_def)
  have want: "total_block_size (nat (td_size (sample_desc 1000))) = 32"
    by (simp add: total_block_size_def align_up_def heap_eval)
  have "soft_trigger hole_env 32 hole_heap = Some hole_heap"
    by (simp add: soft_trigger_def fields saturating_add_def word_le_nat_alt unsigned_minus_1_eq_mask mask_eq_exp_minus_1)
  moreover have "alloc_under_lock hole_env 32 hole_heap =
      Some (hole_heap\<lparr>gh_mem := write_zeros hole_memory 4144 32, gh_clusters := [hole_cluster\<lparr>cl_free := 0\<rparr>],
              gh_counters := count_path PathFreeList (gh_counters hole_heap)\<rparr>, 4128)"
    using got by (simp add: alloc_under_lock_def try_alloc_in_clusters_def fields)
  ultimately show ?thesis
    using words by (simp add: nm2_new_rec_def fields want HEADER_def inc_type_def Let_def)
qed

lemma hole_clear: "m = hole_linked \<or> m = hole_linked(4176 := 1001) \<Longrightarrow> clear_marks m (hole_cluster\<lparr>cl_free := f\<rparr>) 0 = m"
  by (auto simp: clear_marks.simps clear_mark_def heap_eval fun_upd_idem)

lemma hole_mark_first:
  "r 1000 \<noteq> None \<Longrightarrow> mark_loop sample_desc r hole_linked [4144] = Some (hole_linked(4128 := 1001, 4176 := 1001, 4096 := 1001))"
  by (simp add: mark_loop.simps children_def known_type_def set_mark_def pointer_offsets_def heap_eval Let_def)

lemma hole_mark_second:
  "r 1000 \<noteq> None \<Longrightarrow> mark_loop sample_desc r (hole_linked(4176 := 1001)) [4144] = Some (hole_linked(4176 := 1001, 4128 := 1001))"
  by (simp add: mark_loop.simps children_def known_type_def set_mark_def pointer_offsets_def heap_eval Let_def)

lemma hole_sweep_first:
  "let s = cluster_sweep sample_desc (hole_linked(4128 := 1001, 4176 := 1001, 4096 := 1001)) (hole_cluster\<lparr>cl_free := 0\<rparr>) r []
   in ss_mem s = hole_linked(4176 := 1001) \<and> ss_cluster s = hole_cluster\<lparr>cl_free := 0\<rparr> \<and> ss_registry s = r"
proof -
  have "hole_linked(4128 := 1001, 4176 := 1001, 4096 := 1000, 4128 := 1000) = hole_linked(4176 := 1001)"
    by (rule ext) auto
  then show ?thesis
    by (simp add: cluster_sweep_def sweep_loop.simps sweep_block_def clear_mark_def heap_eval Let_def)
qed

lemma hole_sweep_second:
  "is_free (ss_mem (cluster_sweep sample_desc (hole_linked(4176 := 1001, 4128 := 1001)) (hole_cluster\<lparr>cl_free := 0\<rparr>) r [])) 4096"
  by (simp add: cluster_sweep_def sweep_loop.simps sweep_block_def join_free_def bury_def clear_mark_def heap_eval Let_def)

lemma small_heap_cycle:
  assumes c: "gh_clusters h = [c]" and mods: "gh_modules h = gh_modules hole_heap"
    and marks: "clear_marks (gh_mem h) c 0 = gh_mem h" and root: "gh_mem h 8 = p" "p \<noteq> 0"
    and mk: "mark_loop sample_desc (gh_types h) (gh_mem h) [p] = Some m"
  shows "\<exists>h' x. run_collect_cycle sample_desc [] h = Some (h', x) \<and>
    gh_mem h' = ss_mem (cluster_sweep sample_desc m c (gh_types h) []) \<and>
    gh_clusters h' = [ss_cluster (cluster_sweep sample_desc m c (gh_types h) [])] \<and>
    gh_types h' = ss_registry (cluster_sweep sample_desc m c (gh_types h) []) \<and> gh_modules h' = gh_modules hole_heap"
proof -
  have "concat (map root_slots (gh_modules h)) = [8]"
    using mods by (simp add: hole_heap_def small_heap_def root_slots_def)
  then have "mark_roots sample_desc [] h (clear_all_marks (gh_clusters h) (gh_mem h)) = Some (m, 1)"
    using c marks root mk by (simp add: mark_roots_def clear_all_marks_def mark_object_def)
  then show ?thesis using c mods by (simp add: run_collect_cycle_def Let_def)
qed


section \<open>The sample heap is well-formed\<close>

lemma sample_words [simp]: "sample_memory 8 = 4112" "sample_memory 256 = 4150" "sample_memory 4096 = 1000"
  "sample_memory 4104 = 32" "sample_memory 4112 = 4144" "sample_memory 4128 = 1000" "sample_memory 4136 = 32"
  "sample_memory 4144 = 0" "sample_memory 4160 = 1000" "sample_memory 4168 = 32" "sample_memory 4176 = 0"
  by (simp_all add: sample_memory_def)

lemma sample_fields: "cl_base sample_cluster = 4096" "cl_size sample_cluster = 128"
  by (simp_all add: sample_cluster_def)

lemma sum_list_simps: "sum_list [32, 32, 32 :: nat] = 96"
  by simp

lemma sample_unused: "sample_memory 4200 = 0"
  by (simp add: sample_memory_def)

lemma sample_wf: "wf_cluster sample_memory sample_cluster [32, 32, 32]"
proof -
  have "started sample_cluster k \<longleftrightarrow> k \<in> {0, 2, 4}" for k
    by (auto simp: started_def sample_cluster_def bit_set_bit_iff bit_1_iff)
  then have "bitmap_of sample_cluster [32, 32, 32]" by (auto simp: bitmap_of_def sample_cluster_def)
  moreover have "free_heads sample_memory 4096 [32, 32, 32] = {}"
    by (auto simp: free_heads_def is_free_def type_bits_def)
  ultimately show ?thesis
    by (auto simp: wf_cluster_def cluster_frame_def sample_cluster_def free_list_of_def intro: exI [of _ "[]"])
qed

lemma sample_objects: "objects sample_memory [sample_cluster] = {4096, 4128, 4160}"
  using block_starts_heads [OF sample_wf]
  by (auto simp: objects_def all_starts_def is_free_def type_bits_def sample_cluster_def)

lemma sample_children:
  "children sample_desc sample_types sample_memory 4112 = [4144]"
  "children sample_desc sample_types sample_memory 4144 = []"
  "children sample_desc sample_types sample_memory 4176 = []"
  by (simp_all add: children_def known_type_def pointer_offsets_def heap_eval Let_def)

lemma sample_collectable: "collectable sample_desc sample_mutators sample_heap"
proof -
  have "heap_ok sample_memory [sample_cluster]" using sample_wf by (auto simp: heap_ok_def cluster_ok_def)
  moreover have "graph_ok sample_desc sample_types sample_memory [sample_cluster]"
    by (simp add: graph_ok_def sample_objects sample_children)
  moreover have "roots_ok sample_mutators sample_heap sample_memory"
    by (simp add: roots_ok_def module_slots_def sample_heap_def small_heap_def root_slots_def sample_mutators_def
        stack_addrs_def outside_def sample_fields sample_objects)
  ultimately show ?thesis by (simp add: collectable_def sample_heap_def small_heap_def)
qed

lemma sample_retained: "retained sample_desc sample_mutators sample_heap = {4096, 4128}"
proof -
  let ?E = "edges sample_desc sample_types sample_memory [sample_cluster]"
  have e: "?E = {(4096, 4128)}" using sample_children sample_objects by (auto simp: edges_def)
  have "root_blocks sample_mutators sample_heap sample_memory = {4096, 4128}"
    using sample_objects
    by (auto simp: root_blocks_def value_roots_def slot_roots_def module_slots_def sample_heap_def small_heap_def
        root_slots_def sample_mutators_def scanned_values_def stack_words_def)
  moreover have "reach sample_desc sample_types sample_memory [sample_cluster] {4096, 4128} = {4096, 4128}"
    by (rule reach_closed) (auto simp: e)
  ultimately show ?thesis by (simp add: retained_def sample_heap_def small_heap_def)
qed

section \<open>Resolving, marking, sweeping\<close>

text \<open>
  In a well-formed heap, however many clusters it has, an address is taken for a pointer exactly if it
  lies in the payload of an allocated block, and then to that block's payload: addresses of headers, of
  free blocks, of the unused tail and outside the heap are not, interior addresses are.
\<close>

theorem resolve_heap_exact:
  assumes "heap_ok m cs"
  shows "resolve_heap_ptr m cs a = Some p \<longleftrightarrow>
    (\<exists>b \<in> objects m cs. p = b + HEADER \<and> b + HEADER \<le> a \<and> a < b + block_size m b)"
  using resolve_heap_iff [OF assms] by (simp add: HEADER_def block_size_def)

theorem resolve_heap_exact_witness:
  "resolve_heap_ptr sample_memory [sample_cluster] 4150 = Some 4144 \<and>
   resolve_heap_ptr sample_memory [sample_cluster] 4130 = None"
proof -
  have ok: "heap_ok sample_memory [sample_cluster]"
    using sample_collectable by (simp add: collectable_def sample_heap_def small_heap_def)
  have "resolve_heap_ptr sample_memory [sample_cluster] 4130 \<noteq> Some p" for p
    unfolding resolve_heap_exact [OF ok] by (auto simp: sample_objects heap_eval)
  moreover have "resolve_heap_ptr sample_memory [sample_cluster] 4150 = Some 4144"
    unfolding resolve_heap_exact [OF ok] by (auto simp: sample_objects heap_eval)
  ultimately show ?thesis by (cases "resolve_heap_ptr sample_memory [sample_cluster] 4130") auto
qed

text \<open>
  C25 Marking ends, whatever cycles the objects form: after clearing, marking from the scanned words of the
  parked mutators and the module variables returns a memory in which the objects reachable from these
  roots, and no others, are marked, and which differs from the one before in marks only.
\<close>

theorem marking_returns:
  assumes "collectable desc mus h"
  shows "\<exists>m k. mark_roots desc mus h (clear_all_marks (gh_clusters h) (gh_mem h)) = Some (m, k) \<and>
    (\<forall>b \<in> gh_objects h. is_marked m b \<longleftrightarrow> b \<in> retained desc mus h) \<and>
    (\<forall>a. m a \<noteq> gh_mem h a \<longrightarrow> a \<in> all_starts (gh_clusters h) \<and> type_bits m a = type_bits (gh_mem h) a)"
proof -
  let ?R = "retained desc mus h" and ?S = "all_starts (gh_clusters h)"
  obtain k where k: "mark_roots desc mus h (clear_all_marks (gh_clusters h) (gh_mem h)) =
      Some (painted ?R (cleared ?S (gh_mem h)), k)"
    using mark_roots_retained assms unfolding collectable_def by blast
  have R: "?R \<subseteq> ?S" using retained_objects [OF assms] by (auto simp: gh_objects_def objects_def)
  have "is_marked (painted ?R (cleared ?S (gh_mem h))) b \<longleftrightarrow> b \<in> ?R" if "b \<in> gh_objects h" for b
    using that by (simp add: painted_marked cleared_marked gh_objects_def objects_def)
  moreover have "a \<in> ?S" if "painted ?R (cleared ?S (gh_mem h)) a \<noteq> gh_mem h a" for a
    using that R by (auto simp: painted_def cleared_def split: if_splits)
  ultimately show ?thesis using k by (auto simp: paint_simps)
qed

theorem marking_returns_witness:
  "\<exists>m k. mark_roots sample_desc sample_mutators sample_heap (clear_all_marks [sample_cluster] sample_memory) = Some (m, k) \<and>
    is_marked m 4096 \<and> is_marked m 4128 \<and> \<not> is_marked m 4160"
proof -
  obtain m k where "mark_roots sample_desc sample_mutators sample_heap
      (clear_all_marks (gh_clusters sample_heap) (gh_mem sample_heap)) = Some (m, k)"
    "\<forall>b \<in> gh_objects sample_heap. is_marked m b \<longleftrightarrow> b \<in> retained sample_desc sample_mutators sample_heap"
    using marking_returns [OF sample_collectable] by blast
  then show ?thesis unfolding sample_retained
    by (auto simp: gh_objects_def sample_heap_def small_heap_def sample_objects)
qed

text \<open>
  C27 The sweep of a well-formed cluster leaves it well-formed, with blocks that tile the used part, a bit
  in the bitmap for each of them and a free list of exactly the free ones; no two free blocks are
  neighbours; the blocks in use are those that were in use and marked, their marks are clear and their
  words unchanged, and no word outside the used part is written.
\<close>

theorem sweep_coalesces:
  assumes wf: "wf_cluster m c ss" and s: "s = cluster_sweep desc m c r pend"
  shows "\<exists>ss'. wf_cluster (ss_mem s) (ss_cluster s) ss' \<and> sum_list ss' = sum_list ss \<and>
    (\<forall>a \<in> free_heads (ss_mem s) (cl_base c) ss'.
       a + block_size (ss_mem s) a \<notin> free_heads (ss_mem s) (cl_base c) ss') \<and>
    used_heads (ss_mem s) (cl_base c) ss' = {b \<in> used_heads m (cl_base c) ss. is_marked m b} \<and>
    (\<forall>b \<in> used_heads (ss_mem s) (cl_base c) ss'. ss_mem s b = type_bits m b \<and>
       (\<forall>x. b < x \<and> x < b + block_size m b \<longrightarrow> ss_mem s x = m x)) \<and>
    (\<forall>a. a < cl_base c \<or> cl_base c + cl_bump c \<le> a \<longrightarrow> ss_mem s a = m a)"
proof -
  note l = cluster_sweep_live [OF wf s]
  obtain ss' where ss': "wf_cluster (ss_mem s) (ss_cluster s) ss'" "coalesced (ss_mem s) (cl_base c) ss'" using l(1) by blast
  have "used_heads (ss_mem s) (cl_base c) ss' = {b \<in> block_starts (ss_cluster s). \<not> is_free (ss_mem s) b}"
    using block_starts_heads [OF ss'(1)] l(2) by (auto simp: used_heads_def)
  then have u: "used_heads (ss_mem s) (cl_base c) ss' = {b \<in> block_starts c. live_block m b}" using l(5) by simp
  moreover have "\<dots> = {b \<in> used_heads m (cl_base c) ss. is_marked m b}"
    using block_starts_heads [OF wf] by (auto simp: used_heads_def live_block_def)
  moreover have "sum_list ss' = sum_list ss" using wf_clusterD(2) [OF ss'(1)] wf_clusterD(2) [OF wf] l(4) by simp
  ultimately show ?thesis using ss' l(6-8) by (intro exI [of _ ss']) (auto simp: coalesced_def block_size_def)
qed

theorem sweep_coalesces_witness:
  "\<exists>ss'. sum_list ss' = 96 \<and>
    used_heads (ss_mem (cluster_sweep sample_desc sample_memory sample_cluster sample_types [])) 4096 ss' = {}"
proof -
  have "{b \<in> used_heads sample_memory (cl_base sample_cluster) [32, 32, 32]. is_marked sample_memory b} = {}"
    by (auto simp: used_heads_def is_marked_def sample_fields)
  then show ?thesis using sweep_coalesces [OF sample_wf refl, of sample_desc sample_types "[]"] unfolding sample_fields
    by (metis sum_list_simps)
qed

section \<open>Collections\<close>

text \<open>
  C1 A collection of a well-formed heap returns; the objects it leaves are exactly those reachable, through
  the pointer slots of their types, from the conservatively scanned words and the module variables. It
  changes none of their words, only clears their marks, and writes nothing outside the clusters' used parts.
\<close>

theorem collection_keeps_reachable:
  assumes "collectable desc mus h"
  shows "\<exists>h' k st. run_collect_cycle desc mus h = Some (h', k, st) \<and>
    gh_objects h' = retained desc mus h \<and> gh_objects h' \<subseteq> gh_objects h \<and>
    (\<forall>b \<in> gh_objects h'. gh_mem h' b = type_bits (gh_mem h) b \<and>
       (\<forall>x. b < x \<and> x < b + block_size (gh_mem h) b \<longrightarrow> gh_mem h' x = gh_mem h x)) \<and>
    (\<forall>a. beyond (gh_clusters h) a \<longrightarrow> gh_mem h' a = gh_mem h a)"
  using collect_cycle [OF assms] retained_objects [OF assms] by (fastforce simp: kept_def block_size_def)

theorem collection_keeps_reachable_witness:
  "\<exists>h' k st. run_collect_cycle sample_desc sample_mutators sample_heap = Some (h', k, st) \<and>
    gh_objects h' = {4096, 4128} \<and> gh_mem h' 4112 = 4144"
proof -
  obtain h' k st where h': "run_collect_cycle sample_desc sample_mutators sample_heap = Some (h', k, st)"
    "gh_objects h' = {4096, 4128}"
    "\<forall>b \<in> gh_objects h'. \<forall>x. b < x \<and> x < b + block_size (gh_mem sample_heap) b \<longrightarrow> gh_mem h' x = gh_mem sample_heap x"
    using collection_keeps_reachable [OF sample_collectable] sample_retained by fastforce
  then have "gh_mem h' 4112 = gh_mem sample_heap 4112"
    by (simp add: block_size_def sample_heap_def small_heap_def)
  then show ?thesis using h' by (simp add: sample_heap_def small_heap_def)
qed

text \<open>
  C40 What a collection relies on holds again after it: the clusters are well-formed, every pointer slot and
  module variable holds NIL or an object that is still there.
\<close>

theorem collection_preserves_heap:
  assumes "collectable desc mus h" "run_collect_cycle desc mus h = Some (h', k, st)"
  shows "collectable desc mus h'"
  by (rule collect_cycle_collectable [OF assms])

theorem collection_preserves_heap_witness:
  "\<exists>h' x h'' y. run_collect_cycle sample_desc sample_mutators sample_heap = Some (h', x) \<and>
    run_collect_cycle sample_desc sample_mutators h' = Some (h'', y)"
proof -
  obtain h' x where 1: "run_collect_cycle sample_desc sample_mutators sample_heap = Some (h', x)"
    using collect_cycle [OF sample_collectable] by blast
  then have "collectable sample_desc sample_mutators h'"
    using collection_preserves_heap [OF sample_collectable] by (cases x) blast
  then show ?thesis using 1 collect_cycle by blast
qed

section \<open>Allocation\<close>

text \<open>
  C26 Allocation in the clusters of a well-formed heap returns. Unless it takes a free block that is 16
  bytes larger than asked for, the heap with the new header written is well-formed, has the new block as one
  object more than before, zeroed up to its size, and no word of another object or outside the heap changed.
\<close>

theorem allocation_is_fresh:
  assumes "heap_ok (gh_mem h) (gh_clusters h)" "list_all (fresh_tail (gh_mem h)) (gh_clusters h)" "2 \<le> tag"
  shows "\<exists>h1 got. try_alloc_in_clusters (total_block_size n) h = Some (h1, got) \<and>
    (\<forall>b. got = Some b \<and> block_size (gh_mem h) b \<noteq> total_block_size n + 16 \<longrightarrow>
      (let m' = (gh_mem h1)(b := tag, b + 8 := total_block_size n)
       in heap_ok m' (gh_clusters h1) \<and> b \<notin> gh_objects h \<and>
          objects m' (gh_clusters h1) = insert b (gh_objects h) \<and>
          HEADER + n \<le> total_block_size n \<and> (\<forall>x. b + HEADER \<le> x \<and> x < b + total_block_size n \<longrightarrow> m' x = 0) \<and>
          (\<forall>y \<in> gh_objects h. \<forall>x. y \<le> x \<and> x < y + block_size (gh_mem h) y \<longrightarrow> m' x = gh_mem h x) \<and>
          (\<forall>x. outside (gh_clusters h) x \<longrightarrow> m' x = gh_mem h x)))"
proof -
  have want: "sized (total_block_size n)" "HEADER + n \<le> total_block_size n"
    by (auto simp: sized_def total_block_size_def align_up_def HEADER_def BLOCK_ALIGN_def MIN_BLOCK_def max_def)
  obtain m1 cs1 got where t: "try_clusters (total_block_size n) (gh_mem h) (gh_clusters h) = Some (m1, cs1, got)"
    and g: "case got of None \<Rightarrow> m1 = gh_mem h \<and> cs1 = gh_clusters h
     | Some (b, path) \<Rightarrow> gh_mem h (b + 8) \<noteq> total_block_size n + 16 \<longrightarrow>
         heap_gains (gh_mem h) (gh_clusters h) (headed b tag (total_block_size n) m1) cs1 b (total_block_size n)"
    using try_clusters_gains [OF assms(1,2) want(1) assms(3)] by blast
  show ?thesis
  proof (cases got)
    case None
    then show ?thesis using t by (auto simp: try_alloc_in_clusters_def Let_def)
  next
    case (Some bp)
    obtain b path where bp: "got = Some (b, path)" using Some by (cases bp) simp
    let ?m' = "headed b tag (total_block_size n) m1"
    have "\<exists>h1. try_alloc_in_clusters (total_block_size n) h = Some (h1, Some b) \<and> gh_mem h1 = m1 \<and> gh_clusters h1 = cs1"
      using t bp by (simp add: try_alloc_in_clusters_def Let_def)
    moreover have "gh_mem h (b + 8) \<noteq> total_block_size n + 16 \<longrightarrow>
        heap_gains (gh_mem h) (gh_clusters h) ?m' cs1 b (total_block_size n)" using g bp by simp
    ultimately show ?thesis
      using want(2) unfolding heap_gains_def headed_def gh_objects_def HEADER_def block_size_def Let_def
      by (elim exE conjE) (rule exI, rule exI, intro conjI, assumption, clarsimp simp del: fun_upd_apply)
  qed
qed

theorem allocation_is_fresh_witness:
  "\<exists>h1. try_alloc_in_clusters 32 sample_heap = Some (h1, Some 4192) \<and>
    objects ((gh_mem h1)(4192 := 1000, 4200 := 32)) (gh_clusters h1) = {4192, 4096, 4128, 4160}"
proof -
  have want: "total_block_size 16 = 32" by (simp add: total_block_size_def align_up_def HEADER_def BLOCK_ALIGN_def MIN_BLOCK_def)
  have h: "heap_ok (gh_mem sample_heap) (gh_clusters sample_heap)"
    using sample_collectable by (simp add: collectable_def)
  have z: "list_all (fresh_tail (gh_mem sample_heap)) (gh_clusters sample_heap)"
    by (auto simp: sample_heap_def small_heap_def fresh_tail_def sample_cluster_def sample_memory_def)
  have "find_fit sample_memory 32 ListHead 0 = Some None" by (simp add: find_fit.simps)
  then have "try_alloc 32 (sample_memory, sample_cluster) = Some (bump_block 32 (sample_memory, sample_cluster), Some (4192, PathBump))"
    by (simp add: try_alloc_def sample_cluster_def)
  moreover obtain m1 c1 where "bump_block 32 (sample_memory, sample_cluster) = (m1, c1)" by fastforce
  ultimately have "try_clusters 32 (gh_mem sample_heap) (gh_clusters sample_heap) = Some (m1, [c1], Some (4192, PathBump))"
    by (simp add: sample_heap_def small_heap_def)
  then obtain h1 where "try_alloc_in_clusters 32 sample_heap = Some (h1, Some 4192)"
    by (simp add: try_alloc_in_clusters_def Let_def)
  moreover have "block_size (gh_mem sample_heap) 4192 = 0" "gh_objects sample_heap = {4096, 4128, 4160}"
    by (simp_all add: sample_heap_def small_heap_def block_size_def gh_objects_def sample_objects sample_unused)
  ultimately show ?thesis using allocation_is_fresh [OF h z, of 1000 16] by (auto simp: want Let_def)
qed

end
