(* ===== verification/GcSafepoint.thy ===== *)
theory GcSafepoint
  imports Prelude
begin

text \<open>
  The stop-the-world protocol of the collector (\<open>newm2-runtime/src/gc.rs\<close>): threads that poll and park,
  threads that collect, the shared flag and the states of the threads, one store or load per step, in any
  interleaving (all of them are sequentially consistent or ordered by the flag).
\<close>

section \<open>Threads\<close>

type_synonym tid = nat

text \<open>
  Where a thread is: in program code; in \<open>park_self\<close>, after the load of the flag, waiting on the condition
  variable, and after the loop but before its state is stored; in \<open>collect_stw\<close>, after the snapshot of
  the threads, after its own state is stored, after the flag is set, after all others were seen parked,
  with the heap locked, after the cycle, after the flag is cleared; or giving up after the deadline.
\<close>

datatype phase = Mutating | Polled | Waiting | Woken
  | Starting | SelfParked | Requesting | Ready | Cycling | Finished | Cleared | Aborting

record world =
  w_mutators :: "tid list"
  w_requested :: bool
  w_parked :: "tid \<Rightarrow> bool"
  w_heap :: "tid option"
  w_phase :: "tid \<Rightarrow> phase"
  w_snapshot :: "tid \<Rightarrow> tid list"

definition threads_start :: "tid list \<Rightarrow> world" where
  "threads_start ts = \<lparr>w_mutators = ts, w_requested = False, w_parked = (\<lambda>_. False), w_heap = None,
     w_phase = (\<lambda>_. Mutating), w_snapshot = (\<lambda>_. [])\<rparr>"

definition at_phase :: "tid \<Rightarrow> phase \<Rightarrow> world \<Rightarrow> world" where
  "at_phase t p w = w\<lparr>w_phase := (w_phase w)(t := p)\<rparr>"

definition set_parked :: "tid \<Rightarrow> bool \<Rightarrow> world \<Rightarrow> world" where
  "set_parked t b w = w\<lparr>w_parked := (w_parked w)(t := b)\<rparr>"

definition others_parked :: "tid \<Rightarrow> world \<Rightarrow> bool" where
  "others_parked t w \<longleftrightarrow> list_all (\<lambda>u. u = t \<or> w_parked w u) (w_snapshot w t)"

datatype action = Register | Poll | Park | SeeClear | Resume
  | BeginCollect | ParkSelf | Request | SeeParked | LockHeap | EndCycle | ClearRequest | ResumeSelf | TimeOut | Abort

section \<open>Steps\<close>

text \<open>\<open>register_thread_inner\<close>\<close>

definition act_register :: "tid \<Rightarrow> world \<Rightarrow> world option" where
  "act_register t w =
     (if t \<in> set (w_mutators w) then None
      else Some (set_parked t False (at_phase t Mutating (w\<lparr>w_mutators := w_mutators w @ [t]\<rparr>))))"

text \<open>\<open>nm2_safepoint\<close> and \<open>park_self\<close>\<close>

fun act_park :: "action \<Rightarrow> tid \<Rightarrow> world \<Rightarrow> world option" where
  "act_park Poll t w = (if w_phase w t = Mutating \<and> w_requested w then Some (at_phase t Polled w) else None)"
| "act_park Park t w = (if w_phase w t = Polled then Some (set_parked t True (at_phase t Waiting w)) else None)"
| "act_park SeeClear t w = (if w_phase w t = Waiting \<and> \<not> w_requested w then Some (at_phase t Woken w) else None)"
| "act_park Resume t w = (if w_phase w t = Woken then Some (set_parked t False (at_phase t Mutating w)) else None)"
| "act_park _ t w = None"

text \<open>\<open>collect_stw\<close>\<close>

fun act_collect :: "action \<Rightarrow> tid \<Rightarrow> world \<Rightarrow> world option" where
  "act_collect BeginCollect t w =
     (if w_phase w t = Mutating
      then Some (at_phase t Starting (w\<lparr>w_snapshot := (w_snapshot w)(t := w_mutators w)\<rparr>)) else None)"
| "act_collect ParkSelf t w = (if w_phase w t = Starting then Some (set_parked t True (at_phase t SelfParked w)) else None)"
| "act_collect Request t w = (if w_phase w t = SelfParked then Some (at_phase t Requesting (w\<lparr>w_requested := True\<rparr>)) else None)"
| "act_collect SeeParked t w = (if w_phase w t = Requesting \<and> others_parked t w then Some (at_phase t Ready w) else None)"
| "act_collect LockHeap t w =
     (if w_phase w t = Ready \<and> w_heap w = None then Some (at_phase t Cycling (w\<lparr>w_heap := Some t\<rparr>)) else None)"
| "act_collect EndCycle t w = (if w_phase w t = Cycling then Some (at_phase t Finished (w\<lparr>w_heap := None\<rparr>)) else None)"
| "act_collect ClearRequest t w = (if w_phase w t = Finished then Some (at_phase t Cleared (w\<lparr>w_requested := False\<rparr>)) else None)"
| "act_collect ResumeSelf t w = (if w_phase w t = Cleared then Some (set_parked t False (at_phase t Mutating w)) else None)"
| "act_collect TimeOut t w = (if w_phase w t = Requesting then Some (set_parked t False (at_phase t Aborting w)) else None)"
| "act_collect Abort t w = (if w_phase w t = Aborting then Some (at_phase t Mutating (w\<lparr>w_requested := False\<rparr>)) else None)"
| "act_collect _ t w = None"

definition act :: "action \<Rightarrow> tid \<Rightarrow> world \<Rightarrow> world option" where
  "act a t w =
     (if a = Register then act_register t w
      else if t \<notin> set (w_mutators w) then None
      else if a \<in> {Poll, Park, SeeClear, Resume} then act_park a t w
      else act_collect a t w)"

inductive reachable :: "tid list \<Rightarrow> world \<Rightarrow> bool" for ts where
  start: "reachable ts (threads_start ts)"
| step: "reachable ts w \<Longrightarrow> act a t w = Some w' \<Longrightarrow> reachable ts w'"

fun acts :: "(action \<times> tid) list \<Rightarrow> world \<Rightarrow> world option" where
  "acts [] w = Some w"
| "acts ((a, t) # xs) w = Option.bind (act a t w) (acts xs)"

lemma reachable_acts: "reachable ts w \<Longrightarrow> acts xs w = Some w' \<Longrightarrow> reachable ts w'"
proof (induction xs arbitrary: w)
  case (Cons x xs)
  obtain a t where x: "x = (a, t)" by fastforce
  then obtain v where "act a t w = Some v" "acts xs v = Some w'" using Cons.prems(2) by (auto simp: bind_eq_Some_conv)
  then show ?case using Cons.IH reachable.step Cons.prems(1) by blast
qed simp

section \<open>Orderly collections\<close>

text \<open>
  An interleaving is orderly if a thread sets the flag only while every other thread is in program code, has
  polled, or waits, and no thread registers while another collects.
\<close>

definition collecting :: "phase \<Rightarrow> bool" where
  "collecting p \<longleftrightarrow> p \<in> {Starting, SelfParked, Requesting, Ready, Cycling, Finished}"

definition orderly :: "action \<Rightarrow> tid \<Rightarrow> world \<Rightarrow> bool" where
  "orderly a t w \<longleftrightarrow>
     (a = Request \<longrightarrow> (\<forall>u \<in> set (w_mutators w). u = t \<or> w_phase w u \<in> {Mutating, Polled, Waiting, Starting, SelfParked})) \<and>
     (a = Register \<longrightarrow> (\<forall>u \<in> set (w_mutators w). \<not> collecting (w_phase w u)))"

inductive orderly_reachable :: "tid list \<Rightarrow> world \<Rightarrow> bool" for ts where
  start: "orderly_reachable ts (threads_start ts)"
| step: "orderly_reachable ts w \<Longrightarrow> orderly a t w \<Longrightarrow> act a t w = Some w' \<Longrightarrow> orderly_reachable ts w'"

lemma orderly_reachable_reachable: "orderly_reachable ts w \<Longrightarrow> reachable ts w"
  by (induction rule: orderly_reachable.induct) (auto intro: reachable.intros)

text \<open>The thread that holds the flag.\<close>

definition active :: "phase \<Rightarrow> bool" where
  "active p \<longleftrightarrow> p \<in> {Requesting, Ready, Cycling, Finished}"

definition parked_phase :: "phase \<Rightarrow> bool" where
  "parked_phase p \<longleftrightarrow> p \<in> {Waiting, Woken, SelfParked, Requesting, Ready, Cycling, Finished, Cleared}"

definition stopped :: "phase \<Rightarrow> bool" where
  "stopped p \<longleftrightarrow> p \<in> {Waiting, SelfParked}"

lemmas phase_defs = collecting_def active_def parked_phase_def stopped_def

text \<open>What one thread's phase allows another's to be.\<close>

definition allows :: "phase \<Rightarrow> phase \<Rightarrow> bool" where
  "allows p q \<longleftrightarrow>
     (active p \<or> p = Aborting \<longrightarrow> q \<in> {Mutating, Polled, Waiting, Starting, SelfParked}) \<and>
     (p \<in> {Ready, Cycling, Finished} \<longrightarrow> stopped q)"

definition protocol_inv :: "world \<Rightarrow> bool" where
  "protocol_inv w \<longleftrightarrow>
     (\<forall>t \<in> set (w_mutators w). (w_parked w t \<longleftrightarrow> parked_phase (w_phase w t)) \<and>
        (collecting (w_phase w t) \<longrightarrow> w_snapshot w t = w_mutators w) \<and>
        (active (w_phase w t) \<or> w_phase w t = Aborting \<longrightarrow> w_requested w)) \<and>
     (\<forall>t \<in> set (w_mutators w). \<forall>u \<in> set (w_mutators w). t \<noteq> u \<longrightarrow> allows (w_phase w t) (w_phase w u))"

lemmas act_defs = act_def act_register_def at_phase_def set_parked_def

lemma protocol_invD:
  assumes "protocol_inv w" "t \<in> set (w_mutators w)"
  shows "w_parked w t \<longleftrightarrow> parked_phase (w_phase w t)"
    "collecting (w_phase w t) \<Longrightarrow> w_snapshot w t = w_mutators w"
    "active (w_phase w t) \<or> w_phase w t = Aborting \<Longrightarrow> w_requested w"
    "u \<in> set (w_mutators w) \<Longrightarrow> t \<noteq> u \<Longrightarrow> allows (w_phase w t) (w_phase w u)"
  using assms by (auto simp: protocol_inv_def)

lemma protocol_start: "protocol_inv (threads_start ts)"
  by (simp add: protocol_inv_def threads_start_def phase_defs allows_def)

text \<open>Every action but registration moves one thread from a phase to another.\<close>

fun moves :: "action \<Rightarrow> phase \<times> phase" where
  "moves Register = (Mutating, Mutating)"
| "moves Poll = (Mutating, Polled)"
| "moves Park = (Polled, Waiting)"
| "moves SeeClear = (Waiting, Woken)"
| "moves Resume = (Woken, Mutating)"
| "moves BeginCollect = (Mutating, Starting)"
| "moves ParkSelf = (Starting, SelfParked)"
| "moves Request = (SelfParked, Requesting)"
| "moves SeeParked = (Requesting, Ready)"
| "moves LockHeap = (Ready, Cycling)"
| "moves EndCycle = (Cycling, Finished)"
| "moves ClearRequest = (Finished, Cleared)"
| "moves ResumeSelf = (Cleared, Mutating)"
| "moves TimeOut = (Requesting, Aborting)"
| "moves Abort = (Aborting, Mutating)"

lemma act_moves:
  assumes "act a t w = Some w'" "a \<noteq> Register"
  shows "t \<in> set (w_mutators w)" "w_mutators w' = w_mutators w" "w_phase w t = fst (moves a)"
    "w_phase w' = (w_phase w)(t := snd (moves a))"
    "w_snapshot w' = (if a = BeginCollect then (w_snapshot w)(t := w_mutators w) else w_snapshot w)"
    "w_requested w' = (if a = Request then True else if a \<in> {ClearRequest, Abort} then False else w_requested w)"
    "a = SeeClear \<Longrightarrow> \<not> w_requested w" "a = SeeParked \<Longrightarrow> others_parked t w"
  using assms by (cases a; force simp: act_defs split: if_splits)+

lemma act_parked:
  assumes "act a t w = Some w'" "a \<noteq> Register" "w_parked w t \<longleftrightarrow> parked_phase (w_phase w t)"
  shows "w_parked w' u \<longleftrightarrow> (if u = t then parked_phase (snd (moves a)) else w_parked w u)"
  using assms by (cases a; force simp: act_defs parked_phase_def split: if_splits)

lemma allows_moves:
  assumes "allows (fst (moves a)) q" "allows q (fst (moves a))" "a \<noteq> Register"
    and "a = SeeClear \<Longrightarrow> \<not> active q \<and> q \<noteq> Aborting"
    and "a = Request \<Longrightarrow> q \<in> {Mutating, Polled, Waiting, Starting, SelfParked}"
    and "a = SeeParked \<Longrightarrow> parked_phase q"
  shows "allows (snd (moves a)) q \<and> allows q (snd (moves a))"
  using assms by (cases a; cases q) (simp_all add: allows_def phase_defs)

lemma snapshot_moves: "collecting (snd (moves a)) \<Longrightarrow> a \<noteq> BeginCollect \<Longrightarrow> a \<noteq> Register \<Longrightarrow> collecting (fst (moves a))"
  by (cases a) (simp_all add: phase_defs)

lemma flag_moves:
  "active (snd (moves a)) \<or> snd (moves a) = Aborting \<Longrightarrow> a \<noteq> Request \<Longrightarrow> a \<noteq> Register \<Longrightarrow>
     a \<notin> {ClearRequest, Abort} \<and> (active (fst (moves a)) \<or> fst (moves a) = Aborting)"
  by (cases a) (simp_all add: phase_defs)

lemma allows_clear: "a \<in> {ClearRequest, Abort} \<Longrightarrow> allows (fst (moves a)) q \<Longrightarrow> \<not> (active q \<or> q = Aborting)"
  by (cases q) (auto simp: allows_def phase_defs)

lemma protocol_register:
  assumes i: "protocol_inv w" and o: "orderly Register t w" and s: "act Register t w = Some w'"
  shows "protocol_inv w'"
proof -
  have n: "t \<notin> set (w_mutators w)" and w': "w' = set_parked t False (at_phase t Mutating (w\<lparr>w_mutators := w_mutators w @ [t]\<rparr>))"
    using s by (auto simp: act_def act_register_def split: if_splits)
  have "\<not> collecting (w_phase w u)" if "u \<in> set (w_mutators w)" for u using o that by (simp add: orderly_def)
  moreover have "allows (w_phase w u) Mutating" if "u \<in> set (w_mutators w)" for u
    using calculation [OF that] by (auto simp: allows_def phase_defs)
  moreover have "allows Mutating q" for q by (simp add: allows_def phase_defs)
  ultimately show ?thesis using i n unfolding protocol_inv_def w'
    by (auto simp: at_phase_def set_parked_def phase_defs)
qed

lemma protocol_step:
  assumes i: "protocol_inv w" and o: "orderly a t w" and s: "act a t w = Some w'"
  shows "protocol_inv w'"
proof (cases "a = Register")
  case True
  then show ?thesis using protocol_register i o s by blast
next
  case False
  note m = act_moves [OF s False]
  have each: "(w_parked w u \<longleftrightarrow> parked_phase (w_phase w u)) \<and> (collecting (w_phase w u) \<longrightarrow> w_snapshot w u = w_mutators w) \<and>
      (active (w_phase w u) \<or> w_phase w u = Aborting \<longrightarrow> w_requested w)" if "u \<in> set (w_mutators w)" for u
    using protocol_invD [OF i that] by simp
  have pair: "allows (w_phase w u) (w_phase w v)" if "u \<in> set (w_mutators w)" "v \<in> set (w_mutators w)" "u \<noteq> v" for u v
    by (rule protocol_invD(4) [OF i that])
  have new: "allows (snd (moves a)) (w_phase w u) \<and> allows (w_phase w u) (snd (moves a))"
    if u: "u \<in> set (w_mutators w)" "u \<noteq> t" for u
  proof (rule allows_moves [OF _ _ False])
    show "allows (fst (moves a)) (w_phase w u)" "allows (w_phase w u) (fst (moves a))"
      using pair [OF m(1) u(1)] pair [OF u(1) m(1)] u(2) m(3) by auto
    show "\<not> active (w_phase w u) \<and> w_phase w u \<noteq> Aborting" if "a = SeeClear" using m(7) [OF that] each [OF u(1)] by blast
    show "w_phase w u \<in> {Mutating, Polled, Waiting, Starting, SelfParked}" if "a = Request"
      using o u that by (auto simp: orderly_def)
    show "parked_phase (w_phase w u)" if "a = SeeParked"
    proof -
      have "w_snapshot w t = w_mutators w" using each [OF m(1)] m(3) that by (simp add: collecting_def)
      then show ?thesis using m(8) [OF that] u each [OF u(1)] by (auto simp: others_parked_def list_all_iff)
    qed
  qed
  have "(w_parked w' u \<longleftrightarrow> parked_phase (w_phase w' u)) \<and> (collecting (w_phase w' u) \<longrightarrow> w_snapshot w' u = w_mutators w') \<and>
      (active (w_phase w' u) \<or> w_phase w' u = Aborting \<longrightarrow> w_requested w')" if u: "u \<in> set (w_mutators w)" for u
  proof (cases "u = t")
    case True
    note here = each [OF m(1), unfolded m(3)]
    have "w_phase w' u = snd (moves a)" using m(4) True by simp
    moreover have "w_parked w' u \<longleftrightarrow> parked_phase (snd (moves a))"
      using act_parked [OF s False] each [OF m(1)] True by simp
    moreover have "w_snapshot w' u = w_mutators w'" if "collecting (snd (moves a))"
      using snapshot_moves [OF that _ False] here m(2,5) True by (cases "a = BeginCollect") simp_all
    moreover have "w_requested w'" if "active (snd (moves a)) \<or> snd (moves a) = Aborting"
      using flag_moves [OF that _ False] here m(6) by (cases "a = Request") simp_all
    ultimately show ?thesis by simp
  next
    case ne: False
    have "\<not> (active (w_phase w u) \<or> w_phase w u = Aborting)" if "a \<in> {ClearRequest, Abort}"
      using pair [OF m(1) u] ne allows_clear [OF that] unfolding m(3) by blast
    moreover have "w_phase w' u = w_phase w u" "w_snapshot w' u = w_snapshot w u" using m(4,5) ne by simp_all
    moreover have "w_parked w' u = w_parked w u" using act_parked [OF s False] each [OF m(1)] ne by simp
    ultimately show ?thesis using each [OF u] m(2,6) by simp
  qed
  moreover have "allows (w_phase w' u) (w_phase w' v)" if "u \<in> set (w_mutators w)" "v \<in> set (w_mutators w)" "u \<noteq> v" for u v
    using new pair that unfolding m(4) by auto
  ultimately show ?thesis unfolding protocol_inv_def m(2) by blast
qed

lemma orderly_inv: "orderly_reachable ts w \<Longrightarrow> protocol_inv w"
  by (induction rule: orderly_reachable.induct) (auto intro: protocol_start protocol_step)

fun orderly_run :: "(action \<times> tid) list \<Rightarrow> world \<Rightarrow> bool" where
  "orderly_run [] w = True"
| "orderly_run ((a, t) # xs) w = (orderly a t w \<and> (case act a t w of None \<Rightarrow> True | Some v \<Rightarrow> orderly_run xs v))"

lemma orderly_acts: "orderly_reachable ts w \<Longrightarrow> orderly_run xs w \<Longrightarrow> acts xs w = Some w' \<Longrightarrow> orderly_reachable ts w'"
proof (induction xs arbitrary: w)
  case (Cons x xs)
  obtain a t where x: "x = (a, t)" by fastforce
  then obtain v where v: "act a t w = Some v" "acts xs v = Some w'" using Cons.prems(3) by (auto simp: bind_eq_Some_conv)
  then have o: "orderly a t w" "orderly_run xs v" using Cons.prems(2) x by auto
  have "orderly_reachable ts v" by (rule orderly_reachable.step [OF Cons.prems(1) o(1) v(1)])
  then show ?case using Cons.IH o(2) v(2) by blast
qed simp

section \<open>The world stops, or not\<close>

text \<open>
  C28 While a thread runs a collection cycle in an orderly interleaving, the world is stopped: the flag is set,
  every other registered thread waits in its safepoint or has parked itself to collect later, and its state
  says so; no second cycle runs.
\<close>

theorem orderly_world_stopped:
  assumes "orderly_reachable ts w" "t \<in> set (w_mutators w)" "w_phase w t = Cycling"
    "u \<in> set (w_mutators w)" "u \<noteq> t"
  shows "w_phase w u \<in> {Waiting, SelfParked} \<and> w_parked w u \<and> w_requested w \<and> u \<in> set (w_snapshot w t)"
proof -
  have i: "protocol_inv w" by (rule orderly_inv [OF assms(1)])
  note t = protocol_invD [OF i assms(2), unfolded assms(3)]
  have "stopped (w_phase w u)" using t(4) [OF assms(4)] assms(5) by (auto simp: allows_def)
  moreover have "w_requested w" "w_snapshot w t = w_mutators w" using t(2,3) by (simp_all add: active_def collecting_def)
  ultimately show ?thesis using protocol_invD(1) [OF i assms(4)] assms(4) by (auto simp: stopped_def parked_phase_def)
qed

definition one_collects :: "(action \<times> tid) list" where
  "one_collects = [(BeginCollect, 0), (ParkSelf, 0), (Request, 0), (Poll, 1), (Park, 1), (SeeParked, 0), (LockHeap, 0)]"

lemmas acts_eval = one_collects_def act_defs others_parked_def threads_start_def

theorem orderly_world_stopped_witness:
  "\<exists>w. acts one_collects (threads_start [0, 1]) = Some w \<and> w_phase w 0 = Cycling \<and> w_phase w 1 \<in> {Waiting, SelfParked}"
proof -
  obtain w where w: "acts one_collects (threads_start [0, 1]) = Some w" "w_phase w 0 = Cycling" "w_mutators w = [0, 1]"
    by (simp add: acts_eval)
  have "orderly_reachable [0, 1] w"
    by (rule orderly_acts [OF orderly_reachable.start _ w(1)]) (simp add: acts_eval orderly_def)
  then show ?thesis using orderly_world_stopped [of "[0, 1]" w 0 1] w by simp
qed

definition stale_parked :: "(action \<times> tid) list" where
  "stale_parked = one_collects @ [(EndCycle, 0), (ClearRequest, 0), (SeeClear, 1), (ResumeSelf, 0),
     (BeginCollect, 0), (ParkSelf, 0), (Request, 0), (SeeParked, 0), (LockHeap, 0), (Resume, 1)]"

definition two_collect :: "(action \<times> tid) list" where
  "two_collect = [(BeginCollect, 0), (BeginCollect, 1), (ParkSelf, 0), (ParkSelf, 1), (Request, 0), (Request, 1),
     (SeeParked, 0), (SeeParked, 1), (LockHeap, 0), (EndCycle, 0), (LockHeap, 1), (ClearRequest, 0), (ResumeSelf, 0)]"


end
