(* ===== verification/ModuleGraph.thy ===== *)
theory ModuleGraph
  imports SyntaxTree
begin

text \<open>
  The module graph (\<open>newm2-loader/src/graph.rs\<close>) and the order of its modules (\<open>topo_sort\<close> of
  \<open>newm2-loader/src/loader.rs\<close>). A \<open>ModuleId\<close> is an index into the list of modules; a path is the list
  of its components. Indexing out of range is a panic, here \<open>None\<close>.
\<close>

section \<open>The graph\<close>

type_synonym path = "string list"

record module_node =
  mn_id :: nat
  mn_name :: string
  mn_def_path :: "path option"
  mn_impl_path :: "path option"
  mn_def_ast :: "ast_module option"
  mn_impl_ast :: "ast_module option"
  mn_def_hash :: "u64 option"
  mn_imports :: "nat list"
  mn_local_modules :: "string list"
  mn_is_intrinsic :: bool

record module_graph =
  mg_modules :: "module_node list"
  mg_by_name :: "string \<rightharpoonup> nat"
  mg_topo_order :: "nat list"

definition graph_new :: module_graph where
  "graph_new = \<lparr>mg_modules = [], mg_by_name = Map.empty, mg_topo_order = []\<rparr>"

definition graph_get :: "module_graph \<Rightarrow> nat \<Rightarrow> module_node option" where
  "graph_get g i = get_at (mg_modules g) i"

definition graph_lookup :: "module_graph \<Rightarrow> string \<Rightarrow> nat option" where
  "graph_lookup g name = mg_by_name g name"

section \<open>The order of the modules\<close>

datatype mark = New | Visiting | Done

type_synonym visit_state = "mark list \<times> nat list"

text \<open>
  The recursion of \<open>visit\<close> over a module and over the imports of a module. The depth \<open>n\<close> is fuel: a module
  is entered only while it is \<open>New\<close>, so one more than the number of modules is enough. \<open>None\<close> is a panic.
\<close>

fun visit :: "(nat \<Rightarrow> nat list) \<Rightarrow> nat \<Rightarrow> nat \<Rightarrow> visit_state \<Rightarrow> visit_state option"
  and visit_all :: "(nat \<Rightarrow> nat list) \<Rightarrow> nat \<Rightarrow> nat list \<Rightarrow> visit_state \<Rightarrow> visit_state option" where
  "visit imports 0 i st = None"
| "visit imports (Suc n) i (marks, order) =
     (if length marks \<le> i then None
      else if marks ! i \<noteq> New then Some (marks, order)
      else map_option (\<lambda>(marks', order'). (marks'[i := Done], order' @ [i]))
             (visit_all imports n (imports i) (marks[i := Visiting], order)))"
| "visit_all imports n [] st = Some st"
| "visit_all imports n (c # cs) st = Option.bind (visit imports n c st) (visit_all imports n cs)"

definition topo_sort :: "module_graph \<Rightarrow> nat list option" where
  "topo_sort g =
     (let k = length (mg_modules g)
      in map_option snd (visit_all (\<lambda>i. mn_imports (mg_modules g ! i)) (k + 1) [0..<k] (replicate k New, [])))"

end
