(* ===== verification/TextLines.thy ===== *)
theory TextLines
  imports Utf8
begin

text \<open>
  The parts of the standard library's strings that the loader uses beside the prelude's: decoding bytes with
  replacement characters, lines, trimming at one end, splitting at the first space.
\<close>

section \<open>Bytes with invalid sequences\<close>

definition byte_at :: "string \<Rightarrow> nat \<Rightarrow> nat" where
  "byte_at s i = (if i < length s then byte (s ! i) else 0)"

definition cont_at :: "string \<Rightarrow> nat \<Rightarrow> bool" where
  "cont_at s i \<longleftrightarrow> 0x80 \<le> byte_at s i \<and> byte_at s i \<le> 0xBF"

text \<open>
  The sequence a non-empty string starts with: a character of the given length, or the longest part of one,
  which \<open>String::from_utf8_lossy\<close> replaces by one U+FFFD.
\<close>

definition first_chunk :: "string \<Rightarrow> bool \<times> nat" where
  "first_chunk s =
     (let b = byte_at s 0; c = byte_at s 1 in
      if b < 0x80 then (True, 1)
      else if 0xC2 \<le> b \<and> b \<le> 0xDF then (if cont_at s 1 then (True, 2) else (False, 1))
      else if 0xE0 \<le> b \<and> b \<le> 0xEF then
        (if (b = 0xE0 \<and> 0xA0 \<le> c \<and> c \<le> 0xBF) \<or> (0xE1 \<le> b \<and> b \<le> 0xEC \<and> cont_at s 1) \<or>
            (b = 0xED \<and> 0x80 \<le> c \<and> c \<le> 0x9F) \<or> (0xEE \<le> b \<and> cont_at s 1)
         then (if cont_at s 2 then (True, 3) else (False, 2)) else (False, 1))
      else if 0xF0 \<le> b \<and> b \<le> 0xF4 then
        (if (b = 0xF0 \<and> 0x90 \<le> c \<and> c \<le> 0xBF) \<or> (0xF1 \<le> b \<and> b \<le> 0xF3 \<and> cont_at s 1) \<or>
            (b = 0xF4 \<and> 0x80 \<le> c \<and> c \<le> 0x8F)
         then (if cont_at s 2 then (if cont_at s 3 then (True, 4) else (False, 3)) else (False, 2))
         else (False, 1))
      else (False, 1))"

lemma first_chunk_pos: "0 < snd (first_chunk s)"
  by (simp add: first_chunk_def Let_def)

function from_utf8_lossy :: "string \<Rightarrow> string" where
  "from_utf8_lossy s =
     (if s = [] then []
      else case first_chunk s of (ok, n) \<Rightarrow>
        (if ok then take n s else utf8_encode 0xFFFD) @ from_utf8_lossy (drop n s))"
  by pat_completeness auto
termination
  by (relation "measure length") (auto dest: arg_cong [where f = snd] simp: first_chunk_pos [THEN less_imp_neq] first_chunk_pos)

declare from_utf8_lossy.simps [simp del]

lemma scalar_of_3:
  assumes "0xE0 \<le> a" "a \<le> 0xEF" "0x80 \<le> b" "b < 0xC0" "0x80 \<le> d" "d < 0xC0"
    and "a = 0xE0 \<Longrightarrow> 0xA0 \<le> b" "a = 0xED \<Longrightarrow> b \<le> 0x9F"
  shows "\<not> (a - 0xE0) * 4096 + (b - 0x80) * 64 + (d - 0x80) < 0x800 \<and>
    is_scalar ((a - 0xE0) * 4096 + (b - 0x80) * 64 + (d - 0x80))"
proof -
  obtain x y z where x: "a = 0xE0 + x" "b = 0x80 + y" "d = 0x80 + z" using assms by (metis le_Suc_ex)
  have "x = 0 \<or> 1 \<le> x \<and> x \<le> 12 \<or> x = 13 \<or> 14 \<le> x \<and> x \<le> 15" "y < 64" "z < 64" using assms x by auto
  then show ?thesis using assms(7,8) x by (elim disjE) (auto simp: is_scalar_def)
qed

lemma scalar_of_4:
  assumes "0xF0 \<le> a" "a \<le> 0xF4" "0x80 \<le> b" "b < 0xC0" "0x80 \<le> d" "d < 0xC0" "0x80 \<le> e" "e < 0xC0"
    and "a = 0xF0 \<Longrightarrow> 0x90 \<le> b" "a = 0xF4 \<Longrightarrow> b \<le> 0x8F"
  shows "\<not> (a - 0xF0) * 262144 + (b - 0x80) * 4096 + (d - 0x80) * 64 + (e - 0x80) < 0x10000 \<and>
    is_scalar ((a - 0xF0) * 262144 + (b - 0x80) * 4096 + (d - 0x80) * 64 + (e - 0x80))"
proof -
  obtain x y z v where x: "a = 0xF0 + x" "b = 0x80 + y" "d = 0x80 + z" "e = 0x80 + v" using assms by (metis le_Suc_ex)
  have "x = 0 \<or> 1 \<le> x \<and> x \<le> 3 \<or> x = 4" "y < 64" "z < 64" "v < 64" using assms x by auto
  then show ?thesis using assms(9,10) x by (elim disjE) (auto simp: is_scalar_def)
qed

lemma first_chunk_valid:
  assumes "first_chunk s = (True, n)" "s \<noteq> []"
  shows "n \<le> length s \<and> valid_utf8 (take n s)"
proof -
  obtain a r where s: "s = a # r" using assms(2) by (cases s) auto
  consider "n = 1" "byte a < 0x80" | "n = 2" | "n = 3" | "n = 4"
    using assms(1) s by (auto simp: first_chunk_def Let_def byte_at_def split: if_splits)
  then show ?thesis
  proof cases
    case 2
    then have "1 < length s" "0xC2 \<le> byte a" "byte a \<le> 0xDF" "cont_at s 1"
      using assms(1) s by (auto simp: first_chunk_def Let_def byte_at_def cont_at_def split: if_splits)
    then obtain b r1 where "r = b # r1" "is_cont b" using s by (cases r) (auto simp: cont_at_def byte_at_def is_cont_def)
    then show ?thesis using 2 s \<open>0xC2 \<le> byte a\<close> \<open>byte a \<le> 0xDF\<close> by simp
  next
    case 3
    then have c: "0xE0 \<le> byte a" "byte a \<le> 0xEF" "cont_at s 1" "cont_at s 2"
      "byte a = 0xE0 \<Longrightarrow> 0xA0 \<le> byte_at s 1" "byte a = 0xED \<Longrightarrow> byte_at s 1 \<le> 0x9F"
      using assms(1) s by (auto simp: first_chunk_def Let_def byte_at_def cont_at_def split: if_splits)
    then obtain b d r1 where r: "r = b # d # r1" "is_cont b" "is_cont d"
      using s by (cases r; cases "tl r") (auto simp: cont_at_def byte_at_def is_cont_def)
    have "byte a = 0xE0 \<Longrightarrow> 0xA0 \<le> byte b" "byte a = 0xED \<Longrightarrow> byte b \<le> 0x9F" using c(5,6) s r by (auto simp: byte_at_def)
    then have "\<not> (byte a - 0xE0) * 4096 + (byte b - 0x80) * 64 + (byte d - 0x80) < 0x800 \<and>
        is_scalar ((byte a - 0xE0) * 4096 + (byte b - 0x80) * 64 + (byte d - 0x80))"
      using c(1,2) r(2,3) by (intro scalar_of_3) (auto simp: is_cont_def)
    then show ?thesis using 3 s r c(1,2) by simp
  next
    case 4
    then have c: "0xF0 \<le> byte a" "byte a \<le> 0xF4" "cont_at s 1" "cont_at s 2" "cont_at s 3"
      "byte a = 0xF0 \<Longrightarrow> 0x90 \<le> byte_at s 1" "byte a = 0xF4 \<Longrightarrow> byte_at s 1 \<le> 0x8F"
      using assms(1) s by (auto simp: first_chunk_def Let_def byte_at_def cont_at_def split: if_splits)
    then obtain b d e r1 where r: "r = b # d # e # r1" "is_cont b" "is_cont d" "is_cont e"
      using s by (cases r; cases "tl r"; cases "tl (tl r)") (auto simp: cont_at_def byte_at_def is_cont_def)
    have "byte a = 0xF0 \<Longrightarrow> 0x90 \<le> byte b" "byte a = 0xF4 \<Longrightarrow> byte b \<le> 0x8F" using c(6,7) s r by (auto simp: byte_at_def)
    then have "\<not> (byte a - 0xF0) * 262144 + (byte b - 0x80) * 4096 + (byte d - 0x80) * 64 + (byte e - 0x80) < 0x10000 \<and>
        is_scalar ((byte a - 0xF0) * 262144 + (byte b - 0x80) * 4096 + (byte d - 0x80) * 64 + (byte e - 0x80))"
      using c(1,2) r(2,3,4) by (intro scalar_of_4) (auto simp: is_cont_def)
    then show ?thesis using 4 s r c(1,2) by simp
  qed (use s in simp)
qed

text \<open>What is read is UTF-8, and a file that is UTF-8 is read as it is.\<close>

lemma from_utf8_lossy_valid: "valid_utf8 (from_utf8_lossy s)"
proof (induction s rule: from_utf8_lossy.induct)
  case (1 s)
  show ?case
  proof (cases "s = []")
    case False
    obtain ok n where f: "first_chunk s = (ok, n)" by (cases "first_chunk s")
    have "valid_utf8 (if ok then take n s else utf8_encode 0xFFFD)"
      using first_chunk_valid [OF _ False] f utf8_decode_encode [of "0xFFFD"] by (auto simp: is_scalar_def)
    moreover have "valid_utf8 (from_utf8_lossy (drop n s))" using 1 [OF False f [symmetric]] .
    ultimately show ?thesis using valid_utf8_append [of "if ok then take n s else utf8_encode 0xFFFD"] False f by (subst from_utf8_lossy.simps) simp
  qed (simp add: from_utf8_lossy.simps)
qed

lemma from_utf8_lossy_ascii: "\<forall>c \<in> set s. byte c < 0x80 \<Longrightarrow> from_utf8_lossy s = s"
  by (induction s) (subst from_utf8_lossy.simps; simp add: first_chunk_def byte_at_def Let_def)+

section \<open>Lines and trimming\<close>

text \<open>
  \<open>str::lines\<close>: at newlines, a carriage return before the newline belonging to it, and no line after a
  final newline.
\<close>

definition strip_cr :: "string \<Rightarrow> string" where
  "strip_cr l = (if l \<noteq> [] \<and> last l = CHR 0x0D then butlast l else l)"

definition str_lines :: "string \<Rightarrow> string list" where
  "str_lines s = (let ls = split_on newline s
     in map strip_cr (butlast ls) @ (if last ls = [] then [] else [last ls]))"

definition trim_start :: "string \<Rightarrow> string" where
  "trim_start s = concat (map utf8_encode (dropWhile is_whitespace (chars_of s)))"

definition trim_end_char :: "char \<Rightarrow> string \<Rightarrow> string" where
  "trim_end_char c s = rev (dropWhile (\<lambda>x. x = c) (rev s))"

definition ends_with :: "string \<Rightarrow> string \<Rightarrow> bool" where
  "ends_with s suffix \<longleftrightarrow> length suffix \<le> length s \<and> drop (length s - length suffix) s = suffix"

definition split_once :: "char \<Rightarrow> string \<Rightarrow> (string \<times> string) option" where
  "split_once d s = (case dropWhile (\<lambda>c. c \<noteq> d) s of
     [] \<Rightarrow> None | _ # rest \<Rightarrow> Some (takeWhile (\<lambda>c. c \<noteq> d) s, rest))"

lemma split_once_at: "d \<notin> set a \<Longrightarrow> split_once d (a @ d # b) = Some (a, b)"
  by (induction a) (auto simp: split_once_def split: list.splits)

lemma split_on_append: "d \<notin> set l \<Longrightarrow> split_on d (l @ d # s) = l # split_on d s"
  by (induction l) auto

lemma split_on_neq: "split_on d s \<noteq> []"
  by (induction s) (auto split: list.splits)

lemma str_lines_cons:
  assumes "newline \<notin> set l"
  shows "str_lines (l @ newline # s) = strip_cr l # str_lines s"
  using split_on_neq [of newline s] by (simp add: str_lines_def Let_def split_on_append [OF assms])

lemma str_lines_nil [simp]: "str_lines [] = []"
  by (simp add: str_lines_def)

text \<open>ASCII text that starts and ends with something visible is what trimming leaves of it.\<close>

definition visible_ends :: "string \<Rightarrow> bool" where
  "visible_ends s \<longleftrightarrow> s \<noteq> [] \<and> (\<forall>c \<in> set s. byte c < 0x80) \<and> \<not> is_whitespace (byte (hd s)) \<and> \<not> is_whitespace (byte (last s))"

lemma encode_ascii: "\<forall>c \<in> set s. byte c < 0x80 \<Longrightarrow> concat (map utf8_encode (map byte s)) = s"
  by (induction s) (auto simp: utf8_encode_def byte_def)

lemma str_trim_visible: "visible_ends s \<Longrightarrow> str_trim s = s"
proof -
  assume v: "visible_ends s"
  then have "dropWhile is_whitespace (map byte s) = map byte s"
    by (cases s) (auto simp: visible_ends_def)
  moreover have "dropWhile is_whitespace (rev (map byte s)) = rev (map byte s)"
    using v by (cases s rule: rev_cases) (auto simp: visible_ends_def)
  ultimately show ?thesis using v encode_ascii by (simp add: str_trim_def chars_of_ascii visible_ends_def)
qed

lemma strip_cr_visible: "visible_ends s \<Longrightarrow> strip_cr s = s"
  by (auto simp: strip_cr_def visible_ends_def is_whitespace_def byte_def)

end
