(* ===== verification/SearchPath.thy ===== *)
theory SearchPath
  imports ModuleGraph TextLines "HOL-Library.List_Lexorder" "HOL-Library.Char_ord"
begin

text \<open>
  Paths, the files of a directory tree as the loader sees them, and the search path
  (\<open>newm2-loader/src/search_path.rs\<close>). A path is the list of its components, as \<open>Path::components\<close> gives
  them; \<open>is_file\<close> stands for the answers of \<open>Path::is_file\<close>. The operations of \<open>Path\<close> follow the standard
  library on paths whose last component is a name.
\<close>

section \<open>Paths\<close>

definition path_parent :: "path \<Rightarrow> path option" where
  "path_parent p = (if p = [] then None else Some (butlast p))"

definition path_file_name :: "path \<Rightarrow> string option" where
  "path_file_name p = (if p = [] \<or> last p = ''..'' \<or> last p = ''/'' then None else Some (last p))"

text \<open>\<open>OsStr::to_str\<close>: the name when it is UTF-8.\<close>

definition to_str :: "string \<Rightarrow> string option" where
  "to_str s = (if utf8_decode s = None then None else Some s)"

text \<open>The part of a name before its last dot, unless nothing else precedes that dot.\<close>

definition stem_of :: "string \<Rightarrow> string" where
  "stem_of s = (case dropWhile (\<lambda>c. c \<noteq> CHR ''.'') (rev s) of
     [] \<Rightarrow> s | d # before \<Rightarrow> if before = [] then s else rev before)"

definition path_file_stem :: "path \<Rightarrow> string option" where
  "path_file_stem p = map_option stem_of (path_file_name p)"

definition path_set_extension :: "string \<Rightarrow> path \<Rightarrow> path" where
  "path_set_extension ext p = (case path_file_stem p of
     None \<Rightarrow> p
   | Some stem \<Rightarrow> butlast p @ [if ext = [] then stem else stem @ ''.'' @ ext])"

definition path_ancestors :: "path \<Rightarrow> path list" where
  "path_ancestors p = map (\<lambda>k. take k p) (rev [0..<length p + 1])"

section \<open>The search path\<close>

record search_path =
  sp_entries :: "path list"

definition search_path_new :: search_path where
  "search_path_new = \<lparr>sp_entries = []\<rparr>"

definition search_path_push :: "path \<Rightarrow> search_path \<Rightarrow> search_path" where
  "search_path_push dir sp = sp\<lparr>sp_entries := sp_entries sp @ [dir]\<rparr>"

definition def_files :: "string \<Rightarrow> path \<Rightarrow> path list" where
  "def_files m dir = [dir @ [m @ ''.def''], dir @ [m @ ''_types.def'']]"

definition find_def :: "(path \<Rightarrow> bool) \<Rightarrow> search_path \<Rightarrow> string \<Rightarrow> path option" where
  "find_def is_file sp m = List.find is_file (concat (map (def_files m) (sp_entries sp)))"

definition sibling_impl :: "(path \<Rightarrow> bool) \<Rightarrow> path \<Rightarrow> path option" where
  "sibling_impl is_file def_path =
     Option.bind (path_parent def_path) (\<lambda>parent.
     Option.bind (Option.bind (path_file_name parent) to_str) (\<lambda>parent_name.
     if \<not> ends_with parent_name ''def'' then None
     else let sibling = take (length parent_name - 3) parent_name @ ''mod''
          in Option.bind (path_file_stem def_path) (\<lambda>basename.
             Option.bind (path_parent parent) (\<lambda>grand.
             Option.bind (to_str basename) (\<lambda>b.
               let alt = grand @ [sibling, b @ ''.mod'']
               in if is_file alt then Some alt else None)))))"

definition find_impl_for_def :: "(path \<Rightarrow> bool) \<Rightarrow> path \<Rightarrow> path option" where
  "find_impl_for_def is_file def_path =
     (let candidate = path_set_extension ''mod'' def_path
      in if is_file candidate then Some candidate else sibling_impl is_file def_path)"

section \<open>What the search finds\<close>

lemma find_def_file:
  assumes "find_def is_file sp m = Some p"
  shows "is_file p \<and> (\<exists>dir \<in> set (sp_entries sp). p \<in> set (def_files m dir))"
proof -
  have "is_file p \<and> p \<in> set (concat (map (def_files m) (sp_entries sp)))"
    using assms unfolding find_def_def find_Some_iff by (metis nth_mem)
  then show ?thesis by auto
qed

lemma find_def_none: "find_def is_file sp m = None \<longleftrightarrow>
    (\<forall>dir \<in> set (sp_entries sp). \<forall>p \<in> set (def_files m dir). \<not> is_file p)"
  by (auto simp: find_def_def find_None_iff)

end
