(* ===== verification/Win32Index.thy ===== *)
theory Win32Index
  imports SearchPath
begin

text \<open>
  The finder of the generated Windows API definitions (\<open>newm2-loader/src/win32_finder.rs\<close>): a sorted list
  of exported names, each with the index of the definition that declares it, searched by halving as
  \<open>slice::binary_search_by\<close> does. Reading the directory and the serialised form of the index are not
  modelled: the texts of the definitions, in the order of their paths, are the argument of the builder.
\<close>

section \<open>The finder\<close>

record win32_finder =
  wf_defs :: "(string \<times> path) list"
  wf_names :: "(string \<times> nat) list"
  wf_root :: path

text \<open>The loop of the search: \<open>base\<close> moves to the middle unless the entry there is greater.\<close>

function halve :: "('a \<times> 'b) list \<Rightarrow> 'a::linorder \<Rightarrow> nat \<Rightarrow> nat \<Rightarrow> nat" where
  "halve xs k base n =
     (if n \<le> 1 then base
      else let half = n div 2; mid = base + half
           in halve xs k (if k < fst (xs ! mid) then base else mid) (n - half))"
  by pat_completeness auto
termination by (relation "measure (\<lambda>(xs, k, base, n). n)") auto

declare halve.simps [simp del]

definition binary_search :: "('a::linorder \<times> 'b) list \<Rightarrow> 'a \<Rightarrow> nat option" where
  "binary_search xs k =
     (if xs = [] then None
      else let i = halve xs k 0 (length xs)
           in if fst (xs ! i) = k then Some i else None)"

text \<open>\<open>Inl ()\<close> is the panic of an index out of the list of definitions.\<close>

definition finder_find :: "win32_finder \<Rightarrow> string \<Rightarrow> unit + path option" where
  "finder_find w name =
     (case binary_search (wf_names w) name of
        None \<Rightarrow> Inr None
      | Some i \<Rightarrow> let d = snd (wf_names w ! i)
          in if d < length (wf_defs w) then Inr (Some (wf_root w @ snd (wf_defs w ! d))) else Inl ())"

definition module_name_for :: "win32_finder \<Rightarrow> string \<Rightarrow> unit + string option" where
  "module_name_for w name =
     (case binary_search (wf_names w) name of
        None \<Rightarrow> Inr None
      | Some i \<Rightarrow> let d = snd (wf_names w ! i)
          in if d < length (wf_defs w) then Inr (Some (fst (wf_defs w ! d))) else Inl ())"

section \<open>Scanning a definition\<close>

fun scan_module_lines :: "string list \<Rightarrow> string option" where
  "scan_module_lines [] = None"
| "scan_module_lines (l # ls) =
     (case strip_prefix ''DEFINITION MODULE '' (trim_start l) of
        Some rest \<Rightarrow> Some (str_trim (trim_end_char (CHR '';'') rest))
      | None \<Rightarrow> scan_module_lines ls)"

definition scan_module_name :: "string \<Rightarrow> string option" where
  "scan_module_name text = scan_module_lines (str_lines text)"

text \<open>\<open>char::is_alphanumeric\<close> of the standard library is the parameter \<open>alnum\<close>.\<close>

definition take_ident :: "(nat \<Rightarrow> bool) \<Rightarrow> string \<Rightarrow> string option" where
  "take_ident alnum s =
     (let cs = takeWhile (\<lambda>c. alnum c \<or> c = 95) (chars_of s)
      in if cs = [] then None else Some (concat (map utf8_encode cs)))"

definition exported_name :: "(nat \<Rightarrow> bool) \<Rightarrow> string \<Rightarrow> string option" where
  "exported_name alnum l =
     (case strip_prefix ''PROCEDURE '' l of
        Some rest \<Rightarrow> take_ident alnum rest
      | None \<Rightarrow> (case strip_prefix ''    '' l of
          None \<Rightarrow> None
        | Some rest \<Rightarrow>
            if strip_prefix '' '' rest \<noteq> None then None
            else Option.bind (take_ident alnum rest) (\<lambda>name.
              if strip_prefix ''='' (trim_start (drop (length name) rest)) \<noteq> None then Some name else None)))"

definition scan_exported_names :: "(nat \<Rightarrow> bool) \<Rightarrow> string \<Rightarrow> string list" where
  "scan_exported_names alnum text = List.map_filter (exported_name alnum) (str_lines text)"

section \<open>Building the finder\<close>

text \<open>\<open>trim_end_matches("_types")\<close>: the suffix is cut as long as there is one.\<close>

function trim_types :: "string \<Rightarrow> string" where
  "trim_types s = (if ends_with s ''_types'' then trim_types (take (length s - 6) s) else s)"
  by pat_completeness auto
termination by (relation "measure length") (auto simp: ends_with_def)

declare trim_types.simps [simp del]

definition def_module_name :: "path \<Rightarrow> string \<Rightarrow> string" where
  "def_module_name p text = (case scan_module_name text of
     Some m \<Rightarrow> m
   | None \<Rightarrow> (case Option.bind (path_file_stem p) to_str of None \<Rightarrow> [] | Some s \<Rightarrow> trim_types s))"

definition def_entries :: "(nat \<Rightarrow> bool) \<Rightarrow> nat \<Rightarrow> path \<Rightarrow> string \<Rightarrow> (string \<times> nat) list" where
  "def_entries alnum d p text = map (\<lambda>n. (n, d)) (def_module_name p text # scan_exported_names alnum text)"

text \<open>\<open>dedup_by\<close> on the first components keeps the first of each run.\<close>

fun dedup_names :: "('a \<times> 'b) list \<Rightarrow> ('a \<times> 'b) list" where
  "dedup_names [] = []"
| "dedup_names [x] = [x]"
| "dedup_names (x # y # xs) = (if fst x = fst y then dedup_names (x # xs) else x # dedup_names (y # xs))"

text \<open>\<open>files\<close> are the \<open>_types.def\<close> files under the root, by path relative to it, sorted; \<open>sort_by\<close> is stable.\<close>

definition all_entries :: "(nat \<Rightarrow> bool) \<Rightarrow> (path \<times> string) list \<Rightarrow> (string \<times> nat) list" where
  "all_entries alnum files = concat (map (\<lambda>(d, p, text). def_entries alnum d p text) (enumerate 0 files))"

definition build_win32_finder :: "(nat \<Rightarrow> bool) \<Rightarrow> path \<Rightarrow> (path \<times> string) list \<Rightarrow> win32_finder" where
  "build_win32_finder alnum root files =
     \<lparr>wf_defs = map (\<lambda>(p, text). (def_module_name p text, p)) files,
      wf_names = dedup_names (sort_key fst (all_entries alnum files)),
      wf_root = root\<rparr>"

section \<open>The search finds the name\<close>

lemma halve_finds:
  assumes "sorted (map fst xs)" "0 < n" "base + n \<le> length xs"
    and "k \<in> fst ` set xs \<Longrightarrow> \<exists>j. base \<le> j \<and> j < base + n \<and> fst (xs ! j) = k"
  shows "halve xs k base n < length xs \<and> (k \<in> fst ` set xs \<longrightarrow> fst (xs ! halve xs k base n) = k)"
  using assms
proof (induction xs k base n rule: halve.induct)
  case (1 xs k base n)
  show ?case
  proof (cases "n \<le> 1")
    case True
    then have "n = 1" using "1.prems"(2) by simp
    moreover have "fst (xs ! base) = k" if "k \<in> fst ` set xs"
    proof -
      have "\<exists>j. base \<le> j \<and> j < base + 1 \<and> fst (xs ! j) = k" using "1.prems"(4) [OF that] \<open>n = 1\<close> by simp
      then obtain j where "base \<le> j" "j < base + 1" "fst (xs ! j) = k" by blast
      then show ?thesis by (cases "j = base") auto
    qed
    ultimately show ?thesis using "1.prems"(3) by (simp add: halve.simps)
  next
    case False
    define mid where "mid = base + n div 2"
    define b where "b = (if k < fst (xs ! mid) then base else mid)"
    have le: "fst (xs ! i) \<le> fst (xs ! j)" if "i \<le> j" "j < length xs" for i j
      using sorted_nth_mono [OF "1.prems"(1) that(1)] that by simp
    have "\<exists>j. b \<le> j \<and> j < b + (n - n div 2) \<and> fst (xs ! j) = k" if kk: "k \<in> fst ` set xs"
    proof -
      obtain j where j: "base \<le> j" "j < base + n" "fst (xs ! j) = k" using "1.prems"(4) [OF kk] by blast
      show ?thesis
      proof (cases "k < fst (xs ! mid)")
        case True
        then have "j < mid" using le [of mid j] j "1.prems"(3) by (meson leD leI less_le_trans)
        then show ?thesis using True j by (intro exI [of _ j]) (simp add: b_def mid_def)
      next
        case below: False
        show ?thesis
        proof (cases "j < mid")
          case True
          then have "fst (xs ! mid) = k"
            using le [of j mid] below j "1.prems"(2,3) False by (simp add: mid_def)
          then show ?thesis using below False by (intro exI [of _ mid]) (simp add: b_def)
        next
          case False
          then show ?thesis using below j by (intro exI [of _ j]) (simp add: b_def mid_def)
        qed
      qed
    qed
    moreover have "b + (n - n div 2) \<le> length xs"
      using "1.prems"(3) by (auto simp: b_def mid_def intro: le_trans [OF diff_le_self])
    moreover have "0 < n - n div 2" using False by simp
    ultimately have "halve xs k b (n - n div 2) < length xs \<and>
        (k \<in> fst ` set xs \<longrightarrow> fst (xs ! halve xs k b (n - n div 2)) = k)"
      by (intro "1.IH" [OF False refl mid_def, folded b_def] "1.prems"(1))
    moreover have "halve xs k base n = halve xs k b (n - n div 2)"
      using False by (subst halve.simps) (simp add: b_def mid_def Let_def)
    ultimately show ?thesis by simp
  qed
qed

lemma halve_range: "0 < n \<Longrightarrow> base + n \<le> length xs \<Longrightarrow> halve xs k base n < length xs"
proof (induction xs k base n rule: halve.induct)
  case (1 xs k base n)
  show ?case
  proof (cases "n \<le> 1")
    case True
    then show ?thesis using "1.prems" by (simp add: halve.simps)
  next
    case False
    define b where "b = (if k < fst (xs ! (base + n div 2)) then base else base + n div 2)"
    have "b + (n - n div 2) \<le> length xs" using "1.prems"(2) by (auto simp: b_def intro: le_trans [OF diff_le_self])
    moreover have "0 < n - n div 2" using False by simp
    ultimately have "halve xs k b (n - n div 2) < length xs"
      by (intro "1.IH" [OF False refl refl, folded b_def])
    then show ?thesis using False by (subst halve.simps) (simp add: b_def Let_def)
  qed
qed

lemma binary_search_range: "binary_search xs k = Some i \<Longrightarrow> i < length xs"
  using halve_range [of "length xs" 0 xs k] by (auto simp: binary_search_def Let_def split: if_splits)

lemma binary_search_finds:
  assumes "sorted (map fst xs)"
  shows "case binary_search xs k of None \<Rightarrow> k \<notin> fst ` set xs | Some i \<Rightarrow> i < length xs \<and> fst (xs ! i) = k"
proof (cases "xs = []")
  case False
  have "halve xs k 0 (length xs) < length xs \<and> (k \<in> fst ` set xs \<longrightarrow> fst (xs ! halve xs k 0 (length xs)) = k)"
  proof (rule halve_finds)
    show "\<exists>j. 0 \<le> j \<and> j < 0 + length xs \<and> fst (xs ! j) = k" if "k \<in> fst ` set xs"
      using that by (metis (no_types) add_0 imageE in_set_conv_nth le0)
  qed (use False assms in auto)
  then show ?thesis using False unfolding binary_search_def Let_def by (simp split: if_splits) blast
qed (simp add: binary_search_def)

lemma binary_search_map_of:
  assumes "sorted (map fst xs)" "distinct (map fst xs)"
  shows "map_option (\<lambda>i. snd (xs ! i)) (binary_search xs k) = map_of xs k"
proof (cases "binary_search xs k")
  case None
  then have "k \<notin> fst ` set xs" using binary_search_finds [OF assms(1), of k] by simp
  then have "map_of xs k = None" unfolding map_of_eq_None_iff .
  then show ?thesis using None by simp
next
  case (Some i)
  then have "i < length xs" "fst (xs ! i) = k" using binary_search_finds [OF assms(1), of k] by simp_all
  then have "(k, snd (xs ! i)) \<in> set xs" using nth_mem [of i xs] by (metis prod.collapse)
  then show ?thesis using assms(2) Some by simp
qed

section \<open>What is built\<close>

lemma dedup_names_set: "fst ` set (dedup_names xs) = fst ` set xs"
  by (induction xs rule: dedup_names.induct) auto

lemma dedup_names_hd: "xs \<noteq> [] \<Longrightarrow> \<exists>ys. dedup_names xs = hd xs # ys"
  by (induction xs rule: dedup_names.induct) auto

lemma dedup_names_sorted:
  "sorted (map fst xs) \<Longrightarrow> sorted (map fst (dedup_names xs)) \<and> distinct (map fst (dedup_names xs))"
proof (induction xs rule: dedup_names.induct)
  case (3 x y xs)
  show ?case
  proof (cases "fst x = fst y")
    case False
    then have lt: "fst x < fst y" using "3.prems" by (simp add: less_le)
    have ih: "sorted (map fst (dedup_names (y # xs)))" "distinct (map fst (dedup_names (y # xs)))"
      using "3.IH"(2) [OF False] "3.prems" by simp_all
    have "fst x < z" if "z \<in> fst ` set (dedup_names (y # xs))" for z
      using that lt "3.prems" unfolding dedup_names_set by auto
    then show ?thesis using False ih by (auto simp: less_imp_le)
  qed (use 3 in simp)
qed simp_all

lemma dedup_names_map_of: "map_of (dedup_names xs) = map_of xs"
  by (induction xs rule: dedup_names.induct) auto

lemma map_of_filter: "map_of (filter (\<lambda>x. fst x = k) xs) k = map_of xs k"
  by (induction xs) auto

lemma map_of_sort_key: "map_of (sort_key fst xs) = map_of xs"
proof
  fix k
  have "map_of (sort_key fst xs) k = map_of (filter (\<lambda>x. fst x = k) (sort_key fst xs)) k"
    by (rule map_of_filter [symmetric])
  also have "\<dots> = map_of xs k" by (simp add: sort_key_stable map_of_filter)
  finally show "map_of (sort_key fst xs) k = map_of xs k" .
qed

lemma all_entries_index: "(n, d) \<in> set (all_entries alnum files) \<Longrightarrow> d < length files"
  by (auto simp: all_entries_def def_entries_def in_set_enumerate_eq)

lemma dedup_names_subset: "set (dedup_names xs) \<subseteq> set xs"
  by (induction xs rule: dedup_names.induct) auto

lemma built_finder_in_range:
  "(n, d) \<in> set (wf_names (build_win32_finder alnum root files)) \<Longrightarrow> d < length (wf_defs (build_win32_finder alnum root files))"
  using dedup_names_subset [of "sort_key fst (all_entries alnum files)"]
  by (auto simp: build_win32_finder_def intro: all_entries_index)

text \<open>
  C32: The finder built from the definitions resolves a name to the first definition, in the order of
  their paths, that declares or is called by it, and to nothing when there is none; it never indexes out of
  its list of definitions.\<close>

theorem finder_resolves_first:
  "finder_find (build_win32_finder alnum root files) name =
     Inr (map_option (\<lambda>d. root @ fst (files ! d)) (map_of (all_entries alnum files) name))"
proof -
  let ?es = "all_entries alnum files" and ?w = "build_win32_finder alnum root files"
  have names: "wf_names ?w = dedup_names (sort_key fst ?es)" by (simp add: build_win32_finder_def)
  have "map_option (\<lambda>i. snd (wf_names ?w ! i)) (binary_search (wf_names ?w) name) = map_of ?es name"
    unfolding names by (subst binary_search_map_of)
      (simp_all add: dedup_names_sorted dedup_names_map_of map_of_sort_key)
  moreover have "d < length files" if "map_of ?es name = Some d" for d
    using that by (auto dest!: map_of_SomeD intro: all_entries_index)
  moreover have "finder_find ?w name = Inr (map_option (\<lambda>d. root @ fst (files ! d))
      (map_option (\<lambda>i. snd (wf_names ?w ! i)) (binary_search (wf_names ?w) name)))"
    if "\<And>d. map_option (\<lambda>i. snd (wf_names ?w ! i)) (binary_search (wf_names ?w) name) = Some d \<Longrightarrow> d < length files"
  proof (cases "binary_search (wf_names ?w) name")
    case (Some i)
    then have "snd (wf_names ?w ! i) < length files" using that by simp
    then show ?thesis using Some
      by (simp add: finder_find_def Let_def) (simp add: build_win32_finder_def case_prod_unfold)
  qed (simp add: finder_find_def)
  ultimately show ?thesis by simp
qed

end
