(* ===== verification/Cache.thy ===== *)
theory Cache
  imports TextLines
begin

text \<open>
  The symbol-file cache (\<open>newm2-loader/src/cache.rs\<close>): the content hash of a source, the key of a module
  and its text form. Reading and writing the files is not modelled.
\<close>

section \<open>The hash\<close>

definition hash_source :: "string \<Rightarrow> u64" where
  "hash_source bytes = foldl (\<lambda>h b. h * 33 + of_nat (byte b)) 5381 bytes"

text \<open>\<open>{:016x}\<close>\<close>

definition hex_digit :: "nat \<Rightarrow> char" where
  "hex_digit d = (if d < 10 then char_of (48 + d) else char_of (87 + d))"

fun hex_digits :: "nat \<Rightarrow> nat \<Rightarrow> string" where
  "hex_digits 0 v = []"
| "hex_digits (Suc k) v = hex_digits k (v div 16) @ [hex_digit (v mod 16)]"

definition hash_text :: "u64 \<Rightarrow> string" where
  "hash_text h = hex_digits 16 (unat h)"

section \<open>The key\<close>

datatype memory_mode = MmGc | MmNoGc

fun memory_mode_str :: "memory_mode \<Rightarrow> string" where
  "memory_mode_str MmGc = ''gc''"
| "memory_mode_str MmNoGc = ''nogc''"

record cache_key =
  ck_module :: string
  ck_def_hash :: u64
  ck_transitive :: "(string \<times> u64) list"
  ck_compiler :: string
  ck_codegen :: string
  ck_memory :: memory_mode

definition COMPILER_VERSION :: string where
  "COMPILER_VERSION = ''0.0.0''"

definition key_line :: "string \<Rightarrow> string \<Rightarrow> string" where
  "key_line head rest = head @ '' '' @ rest"

definition key_lines :: "cache_key \<Rightarrow> string list" where
  "key_lines k =
     [key_line ''module'' (ck_module k), key_line ''def-hash'' (hash_text (ck_def_hash k))]
     @ map (\<lambda>(name, h). key_line ''trans'' (key_line name (hash_text h))) (ck_transitive k)
     @ [key_line ''compiler'' (ck_compiler k), key_line ''codegen'' (ck_codegen k),
        key_line ''memory'' (memory_mode_str (ck_memory k))]"

definition to_text :: "cache_key \<Rightarrow> string" where
  "to_text k = concat (map (\<lambda>l. l @ [newline]) (key_lines k))"

datatype key_error =
    MalformedLine string
  | MalformedTrans string
  | InvalidHash string parse_int_error
  | UnknownMemoryMode string
  | UnknownHeader string
  | MissingLine string

definition parse_hash :: "string \<Rightarrow> key_error + u64" where
  "parse_hash s = (case from_str_radix (2 ^ 64 - 1) 16 s of
     Inl e \<Rightarrow> Inl (InvalidHash s e) | Inr v \<Rightarrow> Inr (of_nat v))"

text \<open>The variables of the loop over the lines.\<close>

record key_parts =
  kp_module :: "string option"
  kp_def_hash :: "u64 option"
  kp_transitive :: "(string \<times> u64) list"
  kp_codegen :: "string option"
  kp_memory :: "memory_mode option"

definition no_parts :: key_parts where
  "no_parts = \<lparr>kp_module = None, kp_def_hash = None, kp_transitive = [], kp_codegen = None, kp_memory = None\<rparr>"

definition read_memory :: "string \<Rightarrow> key_error + memory_mode" where
  "read_memory rest = (if rest = ''gc'' then Inr MmGc else if rest = ''nogc'' then Inr MmNoGc
     else Inl (UnknownMemoryMode rest))"

definition read_field :: "string \<Rightarrow> string \<Rightarrow> key_parts \<Rightarrow> key_error + key_parts" where
  "read_field head rest p =
     (if head = ''module'' then Inr (p\<lparr>kp_module := Some rest\<rparr>)
      else if head = ''def-hash'' then rbind (parse_hash rest) (\<lambda>h. Inr (p\<lparr>kp_def_hash := Some h\<rparr>))
      else if head = ''trans'' then
        rbind (ok_or (MalformedTrans rest) (split_once (CHR '' '') rest)) (\<lambda>(n, h).
        rbind (parse_hash h) (\<lambda>v. Inr (p\<lparr>kp_transitive := kp_transitive p @ [(n, v)]\<rparr>)))
      else if head = ''compiler'' then Inr p
      else if head = ''codegen'' then Inr (p\<lparr>kp_codegen := Some rest\<rparr>)
      else if head = ''memory'' then rbind (read_memory rest) (\<lambda>m. Inr (p\<lparr>kp_memory := Some m\<rparr>))
      else Inl (UnknownHeader head))"

definition read_line :: "string \<Rightarrow> key_parts \<Rightarrow> key_error + key_parts" where
  "read_line l p =
     (let line = str_trim l in
      if line = [] then Inr p
      else rbind (ok_or (MalformedLine line) (split_once (CHR '' '') line)) (\<lambda>(head, rest). read_field head rest p))"

fun read_lines :: "string list \<Rightarrow> key_parts \<Rightarrow> key_error + key_parts" where
  "read_lines [] p = Inr p"
| "read_lines (l # ls) p = rbind (read_line l p) (read_lines ls)"

definition from_text :: "string \<Rightarrow> key_error + cache_key" where
  "from_text s =
     rbind (read_lines (str_lines s) no_parts) (\<lambda>p.
     rbind (ok_or (MissingLine ''module'') (kp_module p)) (\<lambda>m.
     rbind (ok_or (MissingLine ''def-hash'') (kp_def_hash p)) (\<lambda>h.
     rbind (ok_or (MissingLine ''codegen'') (kp_codegen p)) (\<lambda>c.
     rbind (ok_or (MissingLine ''memory'') (kp_memory p)) (\<lambda>mm.
       Inr \<lparr>ck_module = m, ck_def_hash = h, ck_transitive = kp_transitive p,
            ck_compiler = COMPILER_VERSION, ck_codegen = c, ck_memory = mm\<rparr>)))))"

definition path_name_for :: "cache_key \<Rightarrow> string" where
  "path_name_for k = ck_module k @ ''.'' @ hash_text (ck_def_hash k) @ ''.key''"

section \<open>Hashes are read as they are written\<close>

lemma digit_val_hex: "d < 16 \<Longrightarrow> digit_val 16 (hex_digit d) = Some d"
  by (auto simp: digit_val_def hex_digit_def byte_char_of is_ascii_digit_def is_ascii_upper_def is_ascii_lower_def Let_def)

lemma hex_digit_ascii: "d < 16 \<Longrightarrow> byte (hex_digit d) < 0x80 \<and> \<not> is_whitespace (byte (hex_digit d)) \<and>
    hex_digit d \<noteq> newline \<and> hex_digit d \<noteq> CHR '' '' \<and> hex_digit d \<noteq> CHR ''+'' \<and> hex_digit d \<noteq> CHR ''-''"
proof -
  assume "d < 16"
  then have b: "byte (hex_digit d) = (if d < 10 then 48 + d else 87 + d)" by (simp add: hex_digit_def byte_char_of)
  have "byte newline = 10" "byte (CHR '' '') = 32" "byte (CHR ''+'') = 43" "byte (CHR ''-'') = 45"
    by (simp_all add: newline_def byte_def)
  then show ?thesis using b \<open>d < 16\<close> by (auto simp: is_whitespace_def split: if_splits)
qed

lemma hex_digits_set: "c \<in> set (hex_digits k v) \<Longrightarrow> \<exists>d < 16. c = hex_digit d"
proof (induction k v rule: hex_digits.induct)
  case (2 k v)
  then show ?case by (cases "c = hex_digit (v mod 16)") (force, simp)
qed simp

lemma hex_digits_length [simp]: "length (hex_digits k v) = k"
  by (induction k v rule: hex_digits.induct) auto

lemma positional_hex: "v < 16 ^ k \<Longrightarrow> positional 16 (hex_digits k v) = v"
proof (induction k v rule: hex_digits.induct)
  case (2 k v)
  then have "v div 16 < 16 ^ k" by (simp add: less_mult_imp_div_less)
  then show ?case using "2.IH" by (simp add: positional_snoc digit_or_0_def digit_val_hex)
qed (simp add: positional_def)

lemma hash_text_chars: "c \<in> set (hash_text h) \<Longrightarrow> byte c < 0x80 \<and> \<not> is_whitespace (byte c) \<and>
    c \<noteq> newline \<and> c \<noteq> CHR '' '' \<and> c \<noteq> CHR ''+'' \<and> c \<noteq> CHR ''-''"
proof -
  assume "c \<in> set (hash_text h)"
  then obtain d where "d < 16" "c = hex_digit d" unfolding hash_text_def using hex_digits_set by blast
  then show ?thesis using hex_digit_ascii [of d] by simp
qed

lemma hash_text_neq [simp]: "hash_text h \<noteq> []"
  by (metis hash_text_def hex_digits_length list.size(3) zero_neq_numeral)

lemma parse_hash_text: "parse_hash (hash_text h) = Inr h"
proof -
  have "unat h < 16 ^ 16" using unsigned_less [of h] by simp
  then have p: "positional 16 (hash_text h) = unat h" by (simp add: hash_text_def positional_hex)
  have "hd (hash_text h) \<in> set (hash_text h)" by simp
  then have "hd (hash_text h) \<noteq> CHR ''+''" "hd (hash_text h) \<noteq> CHR ''-''" using hash_text_chars by blast+
  moreover have "\<forall>c \<in> set (hash_text h). digit_val 16 c \<noteq> None"
    unfolding hash_text_def by (auto dest!: hex_digits_set simp: digit_val_hex)
  ultimately have "from_str_radix (2 ^ 64 - 1) 16 (hash_text h) = Inr (unat h)"
    using \<open>unat h < 16 ^ 16\<close> p by (subst from_str_radix_iff) auto
  then show ?thesis by (simp add: parse_hash_def)
qed

section \<open>Keys are read as they are written\<close>

text \<open>The fields a line keeps: ASCII, no newline, and something visible at the end.\<close>

definition line_field :: "string \<Rightarrow> bool" where
  "line_field s \<longleftrightarrow> s \<noteq> [] \<and> (\<forall>c \<in> set s. byte c < 0x80 \<and> c \<noteq> newline) \<and> \<not> is_whitespace (byte (last s))"

definition key_ok :: "cache_key \<Rightarrow> bool" where
  "key_ok k \<longleftrightarrow> line_field (ck_module k) \<and> line_field (ck_codegen k) \<and> ck_compiler k = COMPILER_VERSION \<and>
     (\<forall>(n, h) \<in> set (ck_transitive k). \<forall>c \<in> set n. byte c < 0x80 \<and> c \<noteq> newline \<and> c \<noteq> CHR '' '')"

lemma hash_line_field [simp]: "line_field (hash_text h)"
  using hash_text_chars [of _ h] last_in_set [OF hash_text_neq] unfolding line_field_def by simp

lemma trans_line_field: "\<forall>c \<in> set n. byte c < 0x80 \<and> c \<noteq> newline \<Longrightarrow> line_field s \<Longrightarrow> line_field (key_line n s)"
  by (auto simp: line_field_def key_line_def newline_def byte_def)

definition header :: "string \<Rightarrow> bool" where
  "header s \<longleftrightarrow> s \<noteq> [] \<and> (\<forall>c \<in> set s. is_ascii_lower c \<or> c = CHR ''-'')"

lemma header_visible:
  assumes "header s" "line_field r"
  shows "visible_ends (key_line s r)" "newline \<notin> set (key_line s r)" "CHR '' '' \<notin> set s"
proof -
  have c: "byte c < 0x80 \<and> \<not> is_whitespace (byte c) \<and> c \<noteq> newline \<and> c \<noteq> CHR '' ''" if "c \<in> set s" for c
    using assms(1) that by (auto simp: header_def is_ascii_lower_def is_whitespace_def newline_def byte_def)
  then show "CHR '' '' \<notin> set s" by blast
  show "newline \<notin> set (key_line s r)" using c assms(2) by (auto simp: key_line_def line_field_def newline_def)
  have "hd s \<in> set s" using assms(1) by (simp add: header_def)
  then show "visible_ends (key_line s r)"
    using c assms by (auto simp: visible_ends_def key_line_def line_field_def header_def byte_def)
qed

lemma read_line_field:
  assumes "header s" "line_field r"
  shows "read_line (key_line s r) p = read_field s r p"
proof -
  note v = header_visible [OF assms]
  have "split_once (CHR '' '') (key_line s r) = Some (s, r)" using v(3) split_once_at by (simp add: key_line_def)
  moreover have "key_line s r \<noteq> []" by (simp add: key_line_def)
  ultimately show ?thesis using str_trim_visible [OF v(1)] by (simp add: read_line_def rbind_def ok_or_def)
qed

lemma read_lines_append: "read_lines (xs @ ys) p = rbind (read_lines xs p) (read_lines ys)"
  by (induction xs arbitrary: p) (auto simp: rbind_def split: sum.splits)

lemma header_trans: "header ''trans''"
  by (simp add: header_def is_ascii_lower_def byte_def)

lemma read_trans_lines:
  assumes "\<forall>(n, h) \<in> set ts. \<forall>c \<in> set n. byte c < 0x80 \<and> c \<noteq> newline \<and> c \<noteq> CHR '' ''"
  shows "read_lines (map (\<lambda>(name, h). key_line ''trans'' (key_line name (hash_text h))) ts) p =
    Inr (p\<lparr>kp_transitive := kp_transitive p @ ts\<rparr>)"
  using assms
proof (induction ts arbitrary: p)
  case (Cons t ts)
  obtain n h where t: "t = (n, h)" by (cases t)
  then have "line_field (key_line n (hash_text h))" using Cons.prems by (intro trans_line_field) auto
  then have "read_line (key_line ''trans'' (key_line n (hash_text h))) p =
      read_field ''trans'' (key_line n (hash_text h)) p" by (rule read_line_field [OF header_trans])
  also have "\<dots> = Inr (p\<lparr>kp_transitive := kp_transitive p @ [(n, h)]\<rparr>)"
  proof -
    have "CHR '' '' \<notin> set n" using Cons.prems t by auto
    then show ?thesis using parse_hash_text split_once_at by (simp add: read_field_def key_line_def ok_or_def rbind_def)
  qed
  finally show ?case using Cons t by (simp add: rbind_def)
qed simp

lemma str_lines_of:
  "\<forall>l \<in> set ls. newline \<notin> set l \<Longrightarrow> str_lines (concat (map (\<lambda>l. l @ [newline]) ls)) = map strip_cr ls"
  by (induction ls) (auto simp: str_lines_cons)

lemma headers: "header ''module''" "header ''def-hash''" "header ''compiler''" "header ''codegen''" "header ''memory''"
  by (simp_all add: header_def is_ascii_lower_def byte_def)

lemma memory_line_field: "line_field (memory_mode_str m)" "line_field COMPILER_VERSION"
  by (cases m; simp add: line_field_def is_whitespace_def newline_def byte_def)
    (simp add: COMPILER_VERSION_def line_field_def is_whitespace_def newline_def byte_def)

lemma key_lines_visible:
  assumes "key_ok k" "l \<in> set (key_lines k)"
  shows "visible_ends l \<and> newline \<notin> set l"
proof -
  have "\<exists>s r. l = key_line s r \<and> header s \<and> line_field r"
    using assms headers header_trans memory_line_field
    by (fastforce simp: key_lines_def key_ok_def intro: trans_line_field)
  then show ?thesis using header_visible by blast
qed

text \<open>
  C33: A cache key is read back from its text as it was written, when the key is of this compiler and its
  fields fit on a line: no newline, names of imports without a space, and the module name and the
  flags not empty and not ending in white space.\<close>

theorem cache_key_roundtrip:
  assumes "key_ok k"
  shows "from_text (to_text k) = Inr k"
proof -
  have "str_lines (to_text k) = map strip_cr (key_lines k)"
    unfolding to_text_def by (rule str_lines_of) (use key_lines_visible [OF assms] in blast)
  also have "\<dots> = key_lines k" using key_lines_visible [OF assms] by (simp add: map_idI strip_cr_visible)
  finally have l: "str_lines (to_text k) = key_lines k" .
  have f: "line_field (ck_module k)" "line_field (ck_codegen k)" "ck_compiler k = COMPILER_VERSION"
    "\<forall>(n, h) \<in> set (ck_transitive k). \<forall>c \<in> set n. byte c < 0x80 \<and> c \<noteq> newline \<and> c \<noteq> CHR '' ''"
    using assms by (simp_all add: key_ok_def)
  have m: "read_memory (memory_mode_str (ck_memory k)) = Inr (ck_memory k)" by (cases "ck_memory k") (simp_all add: read_memory_def)
  show ?thesis
    unfolding from_text_def l key_lines_def read_lines_append
    using f m by (simp add: read_line_field headers memory_line_field read_trans_lines read_field_def parse_hash_text
      rbind_def ok_or_def no_parts_def)
qed

theorem cache_key_roundtrip_witness:
  "from_text (to_text \<lparr>ck_module = ''Foo'', ck_def_hash = hash_source ''DEFINITION'',
      ck_transitive = [(''IOChan'', 1), (''SYSTEM'', 2)], ck_compiler = COMPILER_VERSION, ck_codegen = ''-O2'', ck_memory = MmGc\<rparr>) =
    Inr \<lparr>ck_module = ''Foo'', ck_def_hash = hash_source ''DEFINITION'',
      ck_transitive = [(''IOChan'', 1), (''SYSTEM'', 2)], ck_compiler = COMPILER_VERSION, ck_codegen = ''-O2'', ck_memory = MmGc\<rparr>"
  by (rule cache_key_roundtrip) (simp add: key_ok_def line_field_def is_whitespace_def newline_def byte_def)

end
