(* ===== verification/Loader.thy ===== *)
theory Loader
  imports Win32Index Cache ParserReturns PreprocessSpec
begin

text \<open>
  The module loader (\<open>newm2-loader/src/loader.rs\<close>): parsing a file, pairing a definition with its
  implementation, resolving imports, building the graph of modules. What the loader asks of the file
  system (\<open>std::fs::read\<close>, \<open>Path::is_file\<close>), of the standard library's formatters and of the command line is
  the record \<open>load_context\<close>.
\<close>

section \<open>Errors\<close>

datatype load_message =
    ReadFailed string
  | PreprocessFailed lex_error
  | LexFailed lex_error
  | ParseFailed parse_message span
  | NamePaired string string
  | NameImported string string
  | ImplNamePaired string string
  | ImplNameImported string string
  | ModuleNotFound string

text \<open>A \<open>LoadError\<close> with its path; a panic; a parser that does not return.\<close>

datatype load_failure = LoadError load_message "path option" | LoadPanic | LoadRunsOn

record load_context =
  lc_read :: "path \<Rightarrow> string + string"
  lc_is_file :: "path \<Rightarrow> bool"
  lc_search_path :: search_path
  lc_env :: env
  lc_finder :: "win32_finder option"
  lc_real_text :: "f64 \<Rightarrow> string"
  lc_debug_text :: "string \<Rightarrow> string"

section \<open>Parsing a file\<close>

definition INTRINSIC_MODULES :: "string list" where
  "INTRINSIC_MODULES = [''SYSTEM'', ''COROUTINES'']"

definition is_intrinsic :: "string \<Rightarrow> bool" where
  "is_intrinsic name \<longleftrightarrow> list_ex (\<lambda>n. n = name) INTRINSIC_MODULES"

definition read_file :: "load_context \<Rightarrow> path \<Rightarrow> load_failure + string" where
  "read_file cx p = map_err (\<lambda>e. LoadError (ReadFailed e) (Some p)) (lc_read cx p)"

fun parse_error_at :: "path \<Rightarrow> parse_failure \<Rightarrow> load_failure" where
  "parse_error_at p (ParseError msg sp) = LoadError (ParseFailed msg sp) (Some p)"
| "parse_error_at p IndexPanic = LoadPanic"
| "parse_error_at p OutOfFuel = LoadRunsOn"

text \<open>The parser's fuel is the number of tokens, enough by the parser's termination theorem.\<close>

definition parse_bytes_with_env :: "load_context \<Rightarrow> string \<Rightarrow> path \<Rightarrow> load_failure + ast_module" where
  "parse_bytes_with_env cx bytes p =
     rbind (map_err (\<lambda>e. LoadError (PreprocessFailed e) (Some p)) (preprocess (from_utf8_lossy bytes) (lc_env cx))) (\<lambda>preprocessed.
     rbind (map_err (\<lambda>e. LoadError (LexFailed e) (Some p)) (tokenize preprocessed)) (\<lambda>tokens.
     map_err (parse_error_at p)
       (parse_module_with_source (length tokens) (lc_real_text cx) (lc_debug_text cx) tokens preprocessed)))"

definition parse_file_with_env :: "load_context \<Rightarrow> path \<Rightarrow> load_failure + ast_module" where
  "parse_file_with_env cx p = rbind (read_file cx p) (\<lambda>bytes. parse_bytes_with_env cx bytes p)"

definition parse_def_with_hash :: "load_context \<Rightarrow> path \<Rightarrow> load_failure + ast_module \<times> u64" where
  "parse_def_with_hash cx p = rbind (read_file cx p) (\<lambda>bytes.
     rbind (parse_bytes_with_env cx bytes p) (\<lambda>ast. Inr (ast, hash_source bytes)))"

section \<open>Modules and imports\<close>

fun name_of_module :: "ast_module \<Rightarrow> string" where
  "name_of_module (AstModule mk name prio ps imports ds b sp) = name"

fun module_kind_of :: "ast_module \<Rightarrow> module_kind" where
  "module_kind_of (AstModule mk name prio ps imports ds b sp) = mk"

fun import_targets :: "ast_import \<Rightarrow> string list" where
  "import_targets (IFrom m ns sp) = [m]"
| "import_targets (IPlain names sp) =
     map (\<lambda>n. case in_alias n of Some a \<Rightarrow> a | None \<Rightarrow> in_name n) names"

fun collect_top_imports :: "ast_module \<Rightarrow> string list" where
  "collect_top_imports (AstModule mk name prio ps imports ds b sp) = concat (map import_targets imports)"

fun walk_decl :: "decl \<Rightarrow> string list" where
  "walk_decl (DLocalModule m) = [name_of_module m]"
| "walk_decl (DProcedure (ProcDecl name link params res attrs (Some (ProcBody ds b)) en fwd pragmas exported sp)) =
     concat (map walk_decl ds)"
| "walk_decl d = []"

fun collect_local_module_names :: "ast_module \<Rightarrow> string list" where
  "collect_local_module_names (AstModule mk name prio ps imports ds b sp) = concat (map walk_decl ds)"

definition should_load_impl_ast :: "path \<Rightarrow> bool" where
  "should_load_impl_ast p \<longleftrightarrow> \<not> list_ex (\<lambda>a. case Option.bind (path_file_name a) to_str of
     None \<Rightarrow> False | Some name \<Rightarrow> eq_ignore_ascii_case name ''ADW reference'') (path_ancestors p)"

definition node_import_names :: "module_node \<Rightarrow> string list" where
  "node_import_names node = remdups_adj (sort
     ((case mn_def_ast node of None \<Rightarrow> [] | Some a \<Rightarrow> collect_top_imports a) @
      (case mn_impl_ast node of None \<Rightarrow> [] | Some a \<Rightarrow> collect_top_imports a)))"

section \<open>Adding modules\<close>

definition add_module :: "string \<Rightarrow> path option \<Rightarrow> ast_module option \<Rightarrow> bool \<Rightarrow> u64 option \<Rightarrow> module_graph \<Rightarrow>
    nat \<times> module_graph" where
  "add_module name def_path def_ast intrinsic def_hash g =
     (let i = length (mg_modules g)
      in (i, g\<lparr>mg_modules := mg_modules g @
                [\<lparr>mn_id = i, mn_name = name, mn_def_path = def_path, mn_impl_path = None, mn_def_ast = def_ast,
                  mn_impl_ast = None, mn_def_hash = def_hash, mn_imports = [], mn_local_modules = [],
                  mn_is_intrinsic = intrinsic\<rparr>],
               mg_by_name := (mg_by_name g)(name \<mapsto> i)\<rparr>))"

definition update_node :: "nat \<Rightarrow> (module_node \<Rightarrow> module_node) \<Rightarrow> module_graph \<Rightarrow> module_graph" where
  "update_node i f g = g\<lparr>mg_modules := (mg_modules g)[i := f (mg_modules g ! i)]\<rparr>"

text \<open>The implementation beside a definition; \<open>mismatch\<close> is the error when the file is another module's.\<close>

definition load_impl :: "load_context \<Rightarrow> (string \<Rightarrow> string \<Rightarrow> load_message) \<Rightarrow> string \<Rightarrow> path \<Rightarrow>
    load_failure + path option \<times> ast_module option" where
  "load_impl cx mismatch name def_path =
     (case find_impl_for_def (lc_is_file cx) def_path of
        None \<Rightarrow> Inr (None, None)
      | Some p \<Rightarrow>
          if should_load_impl_ast p
          then rbind (parse_file_with_env cx p) (\<lambda>ast.
            if name_of_module ast \<noteq> name then Inl (LoadError (mismatch (name_of_module ast) name) (Some p))
            else Inr (Some p, Some ast))
          else Inr (Some p, None))"

text \<open>The work: the graph and the stack of modules whose imports are still to be followed.\<close>

type_synonym load_work = "module_graph \<times> nat list"

definition load_from_search_path :: "load_context \<Rightarrow> string \<Rightarrow> load_work \<Rightarrow> load_failure + nat \<times> load_work" where
  "load_from_search_path cx name = (\<lambda>(g, queue).
     case find_def (lc_is_file cx) (lc_search_path cx) name of
       None \<Rightarrow> Inl (LoadError (ModuleNotFound name) None)
     | Some def_path \<Rightarrow>
         rbind (parse_def_with_hash cx def_path) (\<lambda>(ast, h).
         if name_of_module ast \<noteq> name then Inl (LoadError (NameImported (name_of_module ast) name) (Some def_path))
         else rbind (load_impl cx ImplNameImported name def_path) (\<lambda>(impl_path, impl_ast).
           let (i, g') = add_module name (Some def_path) (Some ast) False (Some h) g
           in Inr (i, update_node i (\<lambda>m. m\<lparr>mn_impl_path := impl_path, mn_impl_ast := impl_ast\<rparr>) g', i # queue))))"

definition load_from_finder :: "load_context \<Rightarrow> string \<Rightarrow> load_work \<Rightarrow> load_failure + (nat \<times> load_work) option" where
  "load_from_finder cx name = (\<lambda>(g, queue).
     case lc_finder cx of
       None \<Rightarrow> Inr None
     | Some w \<Rightarrow>
         rbind (map_err (\<lambda>_. LoadPanic) (finder_find w name)) (\<lambda>found.
         case found of
           None \<Rightarrow> Inr None
         | Some def_path \<Rightarrow>
             rbind (parse_def_with_hash cx def_path) (\<lambda>(ast, h).
             if name_of_module ast = name
             then let (i, g') = add_module name (Some def_path) (Some ast) False (Some h) g
                  in Inr (Some (i, g', i # queue))
             else Inr None)))"

definition resolve_or_load :: "load_context \<Rightarrow> string \<Rightarrow> load_work \<Rightarrow> load_failure + nat \<times> load_work" where
  "resolve_or_load cx name = (\<lambda>(g, queue).
     case graph_lookup g name of
       Some i \<Rightarrow> Inr (i, g, queue)
     | None \<Rightarrow>
         if is_intrinsic name
         then let (i, g') = add_module name None None True None g in Inr (i, g', queue)
         else rbind (load_from_finder cx name (g, queue)) (\<lambda>found.
           case found of
             Some r \<Rightarrow> Inr r
           | None \<Rightarrow> load_from_search_path cx name (g, queue)))"

fun resolve_all :: "load_context \<Rightarrow> string list \<Rightarrow> load_work \<Rightarrow> load_failure + nat list \<times> load_work" where
  "resolve_all cx [] w = Inr ([], w)"
| "resolve_all cx (name # names) w =
     rbind (resolve_or_load cx name w) (\<lambda>(i, w').
     rbind (resolve_all cx names w') (\<lambda>(is, w''). Inr (i # is, w'')))"

section \<open>The entry\<close>

definition pair_entry_impl :: "load_context \<Rightarrow> path \<Rightarrow> string \<Rightarrow> load_failure + path option \<times> ast_module option" where
  "pair_entry_impl cx entry name = load_impl cx ImplNamePaired name entry"

text \<open>
  A program whose name differs from the definition found only by case stays unpaired; any other difference
  is an error.
\<close>

definition pair_entry_def :: "load_context \<Rightarrow> string \<Rightarrow> bool \<Rightarrow> load_failure + (path \<times> ast_module \<times> u64) option" where
  "pair_entry_def cx name is_program =
     (case find_def (lc_is_file cx) (lc_search_path cx) name of
        None \<Rightarrow> Inr None
      | Some def_path \<Rightarrow>
          rbind (parse_def_with_hash cx def_path) (\<lambda>(def_ast, h).
          if name_of_module def_ast = name then Inr (Some (def_path, def_ast, h))
          else if is_program \<and> eq_ignore_ascii_case (name_of_module def_ast) name then Inr None
          else Inl (LoadError (NamePaired (name_of_module def_ast) name) (Some def_path))))"

definition load_entry :: "load_context \<Rightarrow> path \<Rightarrow> load_failure + load_work" where
  "load_entry cx entry =
     rbind (parse_def_with_hash cx entry) (\<lambda>(entry_ast, entry_hash).
     let name = name_of_module entry_ast; (i, g) = add_module name None None False None graph_new
     in if module_kind_of entry_ast = MDefinition
        then rbind (pair_entry_impl cx entry name) (\<lambda>(impl_path, impl_ast).
          Inr (update_node i (\<lambda>m. m\<lparr>mn_def_path := Some entry, mn_def_ast := Some entry_ast,
                 mn_def_hash := Some entry_hash, mn_impl_path := impl_path, mn_impl_ast := impl_ast\<rparr>) g, [i]))
        else let g' = update_node i (\<lambda>m. m\<lparr>mn_impl_path := Some entry, mn_impl_ast := Some entry_ast\<rparr>) g
          in rbind (pair_entry_def cx name (module_kind_of entry_ast = MProgram)) (\<lambda>def.
            case def of
              None \<Rightarrow> Inr (g', [i])
            | Some (def_path, def_ast, h) \<Rightarrow>
                Inr (update_node i (\<lambda>m. m\<lparr>mn_def_hash := Some h, mn_def_path := Some def_path,
                       mn_def_ast := Some def_ast\<rparr>) g', [i])))"

section \<open>Following the imports\<close>

text \<open>One turn of the loop: the module last pushed; a module without a tree is skipped.\<close>

definition follow_imports :: "load_context \<Rightarrow> nat \<Rightarrow> load_work \<Rightarrow> load_failure + load_work" where
  "follow_imports cx i = (\<lambda>(g, queue).
     case get_at (mg_modules g) i of
       None \<Rightarrow> Inl LoadPanic
     | Some node \<Rightarrow>
         if mn_impl_ast node = None \<and> mn_def_ast node = None then Inr (g, queue)
         else rbind (resolve_all cx (node_import_names node) (g, queue)) (\<lambda>(child_ids, g', queue').
           let g'' = update_node i (\<lambda>m. m\<lparr>mn_imports := child_ids\<rparr>) g';
               ast = (case mn_impl_ast (mg_modules g'' ! i) of Some a \<Rightarrow> Some a | None \<Rightarrow> mn_def_ast (mg_modules g'' ! i))
           in case ast of
                None \<Rightarrow> Inl LoadPanic
              | Some a \<Rightarrow> Inr (update_node i (\<lambda>m. m\<lparr>mn_local_modules := collect_local_module_names a\<rparr>) g'', queue')))"

text \<open>
  The loop over the stack. It ends when the tree of files is finite; with endlessly many files to import
  there is no result.
\<close>

partial_function (option) load_loop :: "load_context \<Rightarrow> load_work \<Rightarrow> (load_failure + module_graph) option" where
  "load_loop cx w =
     (case w of (g, queue) \<Rightarrow>
        case queue of
          [] \<Rightarrow> Some (Inr g)
        | i # below \<Rightarrow>
            (case follow_imports cx i (g, below) of
               Inl e \<Rightarrow> Some (Inl e)
             | Inr w' \<Rightarrow> load_loop cx w'))"

definition order_modules :: "module_graph \<Rightarrow> load_failure + module_graph" where
  "order_modules g = (case topo_sort g of None \<Rightarrow> Inl LoadPanic | Some xs \<Rightarrow> Inr (g\<lparr>mg_topo_order := xs\<rparr>))"

definition build_module_graph_with_extra_roots :: "load_context \<Rightarrow> path \<Rightarrow> string list \<Rightarrow>
    (load_failure + module_graph) option" where
  "build_module_graph_with_extra_roots cx entry extra_roots =
     (case rbind (load_entry cx entry) (\<lambda>w. rbind (resolve_all cx extra_roots w) (\<lambda>(_, w'). Inr w')) of
        Inl e \<Rightarrow> Some (Inl e)
      | Inr w \<Rightarrow> map_option (\<lambda>r. rbind r order_modules) (load_loop cx w))"

definition build_module_graph_with_env :: "load_context \<Rightarrow> path \<Rightarrow> (load_failure + module_graph) option" where
  "build_module_graph_with_env cx entry = build_module_graph_with_extra_roots (cx\<lparr>lc_finder := None\<rparr>) entry []"

definition build_module_graph :: "load_context \<Rightarrow> path \<Rightarrow> (load_failure + module_graph) option" where
  "build_module_graph cx entry = build_module_graph_with_env (cx\<lparr>lc_env := target_default\<rparr>) entry"

end
