(* ===== verification/TopoSpec.thy ===== *)
theory TopoSpec
  imports ModuleGraph
begin

text \<open>
  The depth-first order of the modules: every module exactly once, and every import before its importer
  unless the two are on a cycle of imports.
\<close>

section \<open>Orders\<close>

definition before :: "'a list \<Rightarrow> 'a \<Rightarrow> 'a \<Rightarrow> bool" where
  "before xs a b \<longleftrightarrow> (\<exists>us vs. xs = us @ b # vs \<and> a \<in> set us)"

lemma before_append: "before xs a b \<Longrightarrow> before (xs @ ys) a b"
  by (auto simp: before_def) (metis append_Cons append_assoc)

lemma before_last: "a \<in> set xs \<Longrightarrow> before (xs @ [b]) a b"
  by (auto simp: before_def)

definition edge_of :: "(nat \<Rightarrow> nat list) \<Rightarrow> (nat \<times> nat) set" where
  "edge_of imps = {(i, j). j \<in> set (imps i)}"

text \<open>Whatever is ordered has its imports before it, or imported by a way back to it.\<close>

definition in_order :: "(nat \<Rightarrow> nat list) \<Rightarrow> nat list \<Rightarrow> bool" where
  "in_order imps xs \<longleftrightarrow>
     (\<forall>i \<in> set xs. \<forall>j \<in> set (imps i). before xs j i \<or> (j, i) \<in> (edge_of imps)\<^sup>*)"

definition visit_ok :: "(nat \<Rightarrow> nat list) \<Rightarrow> visit_state \<Rightarrow> bool" where
  "visit_ok imps st \<longleftrightarrow> (case st of (marks, order) \<Rightarrow>
     distinct order \<and> set order = {i. i < length marks \<and> marks ! i = Done} \<and> in_order imps order)"

text \<open>How a visit extends a state: marks of visiting and finished modules stay, and no module is left visiting.\<close>

definition extends :: "visit_state \<Rightarrow> visit_state \<Rightarrow> bool" where
  "extends st st' \<longleftrightarrow> length (fst st') = length (fst st) \<and> (\<exists>ys. snd st' = snd st @ ys) \<and>
     (\<forall>i < length (fst st). (fst st ! i \<noteq> New \<longrightarrow> fst st' ! i = fst st ! i) \<and>
        (fst st' ! i = Visiting \<longrightarrow> fst st ! i = Visiting))"

lemma extends_refl [simp]: "extends st st"
  by (simp add: extends_def)

lemma extends_length: "extends a b \<Longrightarrow> length (fst b) = length (fst a)"
  by (simp add: extends_def)

lemma extends_marks: "extends a b \<Longrightarrow> i < length (fst a) \<Longrightarrow>
    (fst a ! i \<noteq> New \<longrightarrow> fst b ! i = fst a ! i) \<and> (fst b ! i = Visiting \<longrightarrow> fst a ! i = Visiting)"
  unfolding extends_def by blast

lemma mark_steps: "(x \<noteq> New \<longrightarrow> y = x) \<and> (y = Visiting \<longrightarrow> x = Visiting) \<Longrightarrow>
    (y \<noteq> New \<longrightarrow> z = y) \<and> (z = Visiting \<longrightarrow> y = Visiting) \<Longrightarrow>
    (x \<noteq> New \<longrightarrow> z = x) \<and> (z = Visiting \<longrightarrow> x = Visiting)"
  by (cases x; cases y; cases z) auto

lemma extends_trans:
  assumes ab: "extends a b" and bc: "extends b c"
  shows "extends a c"
proof -
  have m: "(fst a ! i \<noteq> New \<longrightarrow> fst c ! i = fst a ! i) \<and> (fst c ! i = Visiting \<longrightarrow> fst a ! i = Visiting)"
    if i: "i < length (fst a)" for i
    by (rule mark_steps [OF extends_marks [OF ab i] extends_marks [OF bc]]) (simp add: extends_length [OF ab] i)
  obtain ys zs where "snd b = snd a @ ys" "snd c = snd b @ zs" using ab bc unfolding extends_def by blast
  then have "\<exists>ys. snd c = snd a @ ys" by simp
  moreover have "length (fst c) = length (fst a)" using extends_length [OF ab] extends_length [OF bc] by (rule trans [rotated])
  ultimately show ?thesis using m unfolding extends_def by blast
qed

definition path_to :: "(nat \<Rightarrow> nat list) \<Rightarrow> mark list \<Rightarrow> nat \<Rightarrow> bool" where
  "path_to imps marks i \<longleftrightarrow> (\<forall>v < length marks. marks ! v = Visiting \<longrightarrow> (v, i) \<in> (edge_of imps)\<^sup>*)"

definition fresh :: "mark list \<Rightarrow> nat" where
  "fresh marks = card {i. i < length marks \<and> marks ! i = New}"

lemma fresh_enter: "i < length marks \<Longrightarrow> marks ! i = New \<Longrightarrow> fresh (marks[i := Visiting]) < fresh marks"
  unfolding fresh_def by (rule psubset_card_mono) (auto simp: nth_list_update)

lemma fresh_extends: "extends st st' \<Longrightarrow> fresh (fst st') \<le> fresh (fst st)"
  unfolding fresh_def extends_def by (rule card_mono) auto

lemma path_to_extends: "extends st st' \<Longrightarrow> path_to imps (fst st) i \<Longrightarrow> path_to imps (fst st') i"
  by (simp add: path_to_def extends_def)

section \<open>The visits\<close>

lemma path_to_child:
  assumes "path_to imps marks i" "j \<in> set (imps i)"
  shows "path_to imps (marks[i := Visiting]) j"
proof -
  have e: "(i, j) \<in> edge_of imps" using assms(2) by (simp add: edge_of_def)
  have "(v, j) \<in> (edge_of imps)\<^sup>*" if v: "v < length marks" "marks[i := Visiting] ! v = Visiting" for v
  proof (cases "v = i")
    case True
    then show ?thesis using e by blast
  next
    case False
    then have "(v, i) \<in> (edge_of imps)\<^sup>*" using assms(1) v by (simp add: path_to_def)
    then show ?thesis using e by (rule rtrancl_into_rtrancl)
  qed
  then show ?thesis by (simp add: path_to_def)
qed

lemma enter_ok:
  assumes "visit_ok imps (marks, order)" "i < length marks" "marks ! i = New"
  shows "visit_ok imps (marks[i := Visiting], order)"
proof -
  have "(k < length marks \<and> marks[i := Visiting] ! k = Done) = (k < length marks \<and> marks ! k = Done)" for k
    using assms(2,3) by (cases "k = i") simp_all
  then show ?thesis using assms(1) by (simp add: visit_ok_def)
qed

text \<open>Leaving a module: all its imports are done, hence ordered before it, or being visited, hence above it.\<close>

lemma leave_ok:
  assumes ok: "visit_ok imps (marks, order)" and i: "i < length marks" "marks ! i = Visiting"
    and above: "path_to imps marks i" and ch: "\<And>j. j \<in> set (imps i) \<Longrightarrow> j < length marks \<and> marks ! j \<noteq> New"
  shows "visit_ok imps (marks[i := Done], order @ [i])"
proof -
  have o: "distinct order" "set order = {k. k < length marks \<and> marks ! k = Done}" "in_order imps order"
    using ok by (auto simp: visit_ok_def)
  have "before (order @ [i]) j i \<or> (j, i) \<in> (edge_of imps)\<^sup>*" if "j \<in> set (imps i)" for j
  proof (cases "marks ! j")
    case Visiting
    then show ?thesis using above ch [OF that] by (simp add: path_to_def)
  next
    case Done
    then show ?thesis using o(2) ch [OF that] by (simp add: before_last)
  qed (use ch [OF that] in simp)
  then have "in_order imps (order @ [i])"
    using o(3) before_append by (fastforce simp: in_order_def)
  moreover have "i \<notin> set order" using o(2) i(2) by simp
  ultimately show ?thesis using o i by (auto simp: visit_ok_def nth_list_update)
qed

definition closed_imports :: "nat \<Rightarrow> (nat \<Rightarrow> nat list) \<Rightarrow> bool" where
  "closed_imports N imps \<longleftrightarrow> (\<forall>i < N. \<forall>j \<in> set (imps i). j < N)"

lemma visit_visit_all:
  shows visit_returns: "closed_imports N imps \<Longrightarrow> i < N \<Longrightarrow> length (fst st) = N \<Longrightarrow> visit_ok imps st \<Longrightarrow>
      path_to imps (fst st) i \<Longrightarrow> fresh (fst st) < n \<Longrightarrow>
      \<exists>st'. visit imps n i st = Some st' \<and> visit_ok imps st' \<and> extends st st' \<and> fst st' ! i \<noteq> New"
    and visit_all_returns: "closed_imports N f \<Longrightarrow> \<forall>c \<in> set cs. c < N \<and> path_to f (fst su) c \<Longrightarrow> length (fst su) = N \<Longrightarrow>
      visit_ok f su \<Longrightarrow> fresh (fst su) < m \<Longrightarrow>
      \<exists>st'. visit_all f m cs su = Some st' \<and> visit_ok f st' \<and> extends su st' \<and> (\<forall>c \<in> set cs. fst st' ! c \<noteq> New)"
proof (induction imps n i st and f m cs su rule: visit_visit_all.induct)
  case (2 imps n i marks order)
  show ?case
  proof (cases "marks ! i = New")
    case False
    then show ?thesis using "2.prems" by simp
  next
    case True
    let ?st = "(marks[i := Visiting], order)"
    have i: "i < length marks" using "2.prems" by simp
    have "\<exists>st'. visit_all imps n (imps i) ?st = Some st' \<and> visit_ok imps st' \<and> extends ?st st' \<and>
        (\<forall>c \<in> set (imps i). fst st' ! c \<noteq> New)"
    proof (rule "2.IH")
      show "closed_imports N imps" "length (fst ?st) = N" using "2.prems" by simp_all
      show "\<forall>c \<in> set (imps i). c < N \<and> path_to imps (fst ?st) c"
        using "2.prems" path_to_child by (auto simp: closed_imports_def)
      show "visit_ok imps ?st" using "2.prems"(4) True i by (intro enter_ok)
      show "fresh (fst ?st) < n" using fresh_enter [OF i True] "2.prems"(6) by simp
    qed (use i True in simp_all)
    then obtain su where "visit_all imps n (imps i) ?st = Some su \<and> visit_ok imps su \<and> extends ?st su \<and>
        (\<forall>c \<in> set (imps i). fst su ! c \<noteq> New)" by blast
    then obtain ms os where v: "visit_all imps n (imps i) ?st = Some (ms, os)" "visit_ok imps (ms, os)"
      "extends ?st (ms, os)" "\<forall>c \<in> set (imps i). ms ! c \<noteq> New" by (cases su) simp
    have l: "length ms = length marks" using extends_length [OF v(3)] by simp
    have keep: "ms ! k = marks[i := Visiting] ! k" if "k < length marks" "marks[i := Visiting] ! k \<noteq> New" for k
      using extends_marks [OF v(3), of k] that by simp
    have vis: "marks[i := Visiting] ! k = Visiting" if "k < length marks" "ms ! k = Visiting" for k
      using extends_marks [OF v(3), of k] that by simp
    have "ms ! i = Visiting" using keep [OF i] i by simp
    moreover have "(u, i) \<in> (edge_of imps)\<^sup>*" if u: "u < length ms" "ms ! u = Visiting" for u
    proof (cases "u = i")
      case False
      then have "marks ! u = Visiting" using vis [of u] u l by simp
      then show ?thesis using "2.prems"(5) u l by (simp add: path_to_def)
    qed simp
    then have "path_to imps ms i" by (simp add: path_to_def)
    moreover have "j < length ms \<and> ms ! j \<noteq> New" if "j \<in> set (imps i)" for j
      using v(4) that "2.prems"(1,2,3) l by (auto simp: closed_imports_def)
    ultimately have "visit_ok imps (ms[i := Done], os @ [i])" using v(2) i l by (intro leave_ok) auto
    moreover have "extends (marks, order) (ms[i := Done], os @ [i])"
      unfolding extends_def
    proof (intro conjI allI impI)
      show "length (fst (ms[i := Done], os @ [i])) = length (fst (marks, order))" using l by simp
      show "\<exists>ys. snd (ms[i := Done], os @ [i]) = snd (marks, order) @ ys" using v(3) by (auto simp: extends_def)
    next
      fix k assume k: "k < length (fst (marks, order))"
      show "fst (ms[i := Done], os @ [i]) ! k = fst (marks, order) ! k" if "fst (marks, order) ! k \<noteq> New"
        using that k True keep [of k] l by (cases "k = i") auto
      show "fst (marks, order) ! k = Visiting" if "fst (ms[i := Done], os @ [i]) ! k = Visiting"
        using that k vis [of k] l by (cases "k = i") auto
    qed
    ultimately show ?thesis using True i v(1) l by simp
  qed
next
  case (4 imps n c cs st)
  obtain st1 where 1: "visit imps n c st = Some st1" "visit_ok imps st1" "extends st st1" "fst st1 ! c \<noteq> New"
    using "4.IH"(1) "4.prems" by auto
  have "length (fst st1) = N" using 1(3) "4.prems"(3) by (simp add: extends_def)
  then obtain st2 where 2: "visit_all imps n cs st1 = Some st2" "visit_ok imps st2" "extends st1 st2"
      "\<forall>c \<in> set cs. fst st2 ! c \<noteq> New"
    using "4.IH"(2) [OF 1(1)] "4.prems" 1(2,3) path_to_extends [OF 1(3)] fresh_extends [OF 1(3)] by fastforce
  have "fst st2 ! c \<noteq> New"
    using extends_marks [OF 2(3), of c] 1(4) "4.prems"(2) \<open>length (fst st1) = N\<close> by simp
  then show ?case using 1(1) 2 extends_trans [OF 1(3) 2(3)] by simp
qed simp_all

section \<open>The order\<close>

definition import_lists :: "module_graph \<Rightarrow> nat \<Rightarrow> nat list" where
  "import_lists g i = mn_imports (mg_modules g ! i)"

definition imports_in_range :: "module_graph \<Rightarrow> bool" where
  "imports_in_range g \<longleftrightarrow> (\<forall>m \<in> set (mg_modules g). \<forall>j \<in> set (mn_imports m). j < length (mg_modules g))"

lemma closed_import_lists: "imports_in_range g \<Longrightarrow> closed_imports (length (mg_modules g)) (import_lists g)"
  unfolding imports_in_range_def closed_imports_def import_lists_def by (meson nth_mem)

lemma visit_ok_start: "visit_ok f (replicate k New, [])"
  by (auto simp: visit_ok_def in_order_def)

lemma path_to_start: "path_to f (replicate k New) i"
  by (auto simp: path_to_def)

lemma fresh_start: "fresh (replicate k New) = k"
proof -
  have "{i. i < k \<and> replicate k New ! i = New} = {..<k}" by auto
  then show ?thesis by (simp add: fresh_def)
qed

lemma order_all_done:
  assumes "visit_ok f st" "extends (replicate k New, []) st" "\<forall>c \<in> set [0..<k]. fst st ! c \<noteq> New"
  shows "set (snd st) = {..<k}"
proof -
  obtain marks order where st: "st = (marks, order)" by (cases st)
  have l: "length marks = k" using extends_length [OF assms(2)] st by simp
  have "marks ! i = Done" if "i < k" for i
    using extends_marks [OF assms(2), of i] assms(3) that st by (cases "marks ! i") auto
  then show ?thesis using assms(1) st l by (auto simp: visit_ok_def)
qed

text \<open>
  The order contains every module exactly once, and each import of a module is ordered before it unless the
  two modules are on a cycle of imports; no graph whose imports are modules of it makes the ordering panic.
\<close>

lemma topo_sort_orders:
  assumes "imports_in_range g"
  shows "\<exists>xs. topo_sort g = Some xs \<and> distinct xs \<and> set xs = {..<length (mg_modules g)} \<and>
    (\<forall>i \<in> set xs. \<forall>j \<in> set (import_lists g i). before xs j i \<or> (j, i) \<in> (edge_of (import_lists g))\<^sup>*)"
proof -
  let ?k = "length (mg_modules g)" and ?f = "import_lists g"
  have "\<exists>st'. visit_all ?f (?k + 1) [0..<?k] (replicate ?k New, []) = Some st' \<and> visit_ok ?f st' \<and>
      extends (replicate ?k New, []) st' \<and> (\<forall>c \<in> set [0..<?k]. fst st' ! c \<noteq> New)"
    by (rule visit_all_returns [OF closed_import_lists [OF assms]])
      (simp_all add: visit_ok_start path_to_start fresh_start)
  then obtain st' where st: "visit_all ?f (?k + 1) [0..<?k] (replicate ?k New, []) = Some st'" "visit_ok ?f st'"
      "extends (replicate ?k New, []) st'" "\<forall>c \<in> set [0..<?k]. fst st' ! c \<noteq> New" by blast
  have "topo_sort g = Some (snd st')" using st(1) by (simp add: topo_sort_def import_lists_def [abs_def])
  moreover have "distinct (snd st') \<and> in_order ?f (snd st')" using st(2) by (cases st') (simp add: visit_ok_def)
  ultimately show ?thesis using order_all_done [OF st(2,3,4)] by (simp add: in_order_def)
qed

end
