(* ===== verification/LoaderSpec.thy ===== *)
theory LoaderSpec
  imports Loader TopoSpec
begin

text \<open>
  The graph the loader builds: modules are found by their names, every tree belongs to the module of its
  node, and the imports of each module are exactly the modules its trees name. On a finite tree of files the
  loader returns, and only an index of the finder out of its definitions makes it panic.
\<close>

section \<open>The graph\<close>

definition node_names :: "module_graph \<Rightarrow> string list" where
  "node_names g = map mn_name (mg_modules g)"

text \<open>Numbers are positions, and the names lead to them.\<close>

definition graph_ok :: "module_graph \<Rightarrow> bool" where
  "graph_ok g \<longleftrightarrow> map mn_id (mg_modules g) = [0..<length (mg_modules g)] \<and>
     (\<forall>n i. mg_by_name g n = Some i \<longleftrightarrow> i < length (mg_modules g) \<and> node_names g ! i = n)"

definition trees_named :: "module_node \<Rightarrow> bool" where
  "trees_named m \<longleftrightarrow> (\<forall>a. mn_def_ast m = Some a \<or> mn_impl_ast m = Some a \<longrightarrow> name_of_module a = mn_name m)"

definition followed :: "module_graph \<Rightarrow> module_node \<Rightarrow> bool" where
  "followed g m \<longleftrightarrow> map (\<lambda>j. node_names g ! j) (mn_imports m) = node_import_names m"

definition nodes_ok :: "module_graph \<Rightarrow> bool" where
  "nodes_ok g \<longleftrightarrow> (\<forall>m \<in> set (mg_modules g). trees_named m \<and> (\<forall>j \<in> set (mn_imports m). j < length (mg_modules g)) \<and>
     (mn_def_ast m = None \<and> mn_impl_ast m = None \<longrightarrow> mn_imports m = []))"

text \<open>The invariant of the loop; \<open>X\<close> are the modules being followed.\<close>

definition work_inv :: "nat set \<Rightarrow> load_work \<Rightarrow> bool" where
  "work_inv X w \<longleftrightarrow> (case w of (g, queue) \<Rightarrow> graph_ok g \<and> nodes_ok g \<and> (\<forall>i \<in> set queue. i < length (mg_modules g)) \<and>
     (\<forall>i < length (mg_modules g). i \<in> set queue \<or> i \<in> X \<or> followed g (mg_modules g ! i)))"

definition grows :: "module_graph \<Rightarrow> module_graph \<Rightarrow> bool" where
  "grows g g' \<longleftrightarrow> (\<exists>ms. mg_modules g' = mg_modules g @ ms)"

lemma grows_refl [simp]: "grows g g"
  by (simp add: grows_def)

lemma grows_trans: "grows a b \<Longrightarrow> grows b c \<Longrightarrow> grows a c"
  by (auto simp: grows_def)

lemma grows_node: "grows g g' \<Longrightarrow> i < length (mg_modules g) \<Longrightarrow>
    i < length (mg_modules g') \<and> mg_modules g' ! i = mg_modules g ! i \<and> node_names g' ! i = node_names g ! i"
  by (auto simp: grows_def node_names_def nth_append)

lemma length_node_names [simp]: "length (node_names g) = length (mg_modules g)"
  by (simp add: node_names_def)

section \<open>Adding a module\<close>

text \<open>A graph with one more module, under a name it did not have.\<close>

definition extended :: "module_graph \<Rightarrow> module_node \<Rightarrow> module_graph \<Rightarrow> bool" where
  "extended g m g' \<longleftrightarrow> mg_modules g' = mg_modules g @ [m] \<and> mg_by_name g' = (mg_by_name g)(mn_name m \<mapsto> length (mg_modules g)) \<and>
     mg_by_name g (mn_name m) = None \<and> mn_id m = length (mg_modules g) \<and> mn_imports m = [] \<and> trees_named m"

lemma extended_graph_ok:
  assumes "graph_ok g" "extended g m g'"
  shows "graph_ok g'"
proof -
  let ?k = "length (mg_modules g)"
  have g: "\<And>n i. mg_by_name g n = Some i \<longleftrightarrow> i < ?k \<and> node_names g ! i = n"
    using assms(1) by (simp add: graph_ok_def)
  have names: "node_names g' = node_names g @ [mn_name m]" using assms(2) by (simp add: extended_def node_names_def)
  have "mg_by_name g' n = Some i \<longleftrightarrow> i < Suc ?k \<and> node_names g' ! i = n" for n i
  proof (cases "n = mn_name m")
    case True
    have "node_names g ! j \<noteq> n" if "j < ?k" for j using g [of n j] assms(2) that True by (simp add: extended_def)
    then show ?thesis using True assms(2) names by (auto simp: extended_def nth_append less_Suc_eq)
  next
    case False
    then show ?thesis using g [of n i] assms(2) names by (auto simp: extended_def nth_append less_Suc_eq)
  qed
  then show ?thesis using assms by (simp add: graph_ok_def extended_def)
qed

lemma extended_nodes_ok: "nodes_ok g \<Longrightarrow> extended g m g' \<Longrightarrow> nodes_ok g'"
  by (auto simp: nodes_ok_def extended_def less_Suc_eq)

lemma followed_grows:
  assumes "grows g g'" "\<forall>j \<in> set (mn_imports m). j < length (mg_modules g)"
  shows "followed g' m = followed g m"
proof -
  have "map (\<lambda>j. node_names g' ! j) (mn_imports m) = map (\<lambda>j. node_names g ! j) (mn_imports m)"
    using assms grows_node by (intro map_cong) auto
  then show ?thesis by (simp only: followed_def)
qed

lemma work_inv_extended:
  assumes inv: "work_inv X (g, queue)" and ext: "extended g m g'"
    and q: "queue' = length (mg_modules g) # queue \<or> queue' = queue \<and> mn_def_ast m = None \<and> mn_impl_ast m = None"
  shows "work_inv X (g', queue')"
proof -
  have g: "graph_ok g" "nodes_ok g" "\<forall>i \<in> set queue. i < length (mg_modules g)"
    "\<forall>i < length (mg_modules g). i \<in> set queue \<or> i \<in> X \<or> followed g (mg_modules g ! i)"
    using inv by (simp_all add: work_inv_def)
  have l: "length (mg_modules g') = Suc (length (mg_modules g))" using ext by (simp add: extended_def)
  have gr: "grows g g'" using ext by (auto simp: grows_def extended_def)
  have "i \<in> set queue' \<or> i \<in> X \<or> followed g' (mg_modules g' ! i)" if i: "i < Suc (length (mg_modules g))" for i
  proof (cases "i = length (mg_modules g)")
    case True
    have "followed g' (mg_modules g' ! i)" if "queue' = queue \<and> mn_def_ast m = None \<and> mn_impl_ast m = None"
      using that True ext by (simp add: followed_def extended_def node_import_names_def)
    then show ?thesis using q True by auto
  next
    case False
    then have k: "i < length (mg_modules g)" using i by simp
    then have "\<forall>j \<in> set (mn_imports (mg_modules g ! i)). j < length (mg_modules g)" using g(2) nth_mem [OF k] by (auto simp: nodes_ok_def)
    then show ?thesis using g(4) k q followed_grows [OF gr] grows_node [OF gr k] by auto
  qed
  then show ?thesis using extended_graph_ok [OF g(1) ext] extended_nodes_ok [OF g(2) ext] g(3) q l
    by (auto simp: work_inv_def less_Suc_eq)
qed

section \<open>Resolving an import\<close>

text \<open>What resolving does to the work: nothing when the module is known, otherwise one more module.\<close>

definition adds :: "string \<Rightarrow> load_work \<Rightarrow> load_work \<Rightarrow> nat \<Rightarrow> bool" where
  "adds name w w' i \<longleftrightarrow> (case (w, w') of ((g, queue), (g', queue')) \<Rightarrow>
     (\<exists>m. extended g m g' \<and> mn_name m = name \<and> i = length (mg_modules g) \<and>
        (queue' = i # queue \<or> queue' = queue \<and> mn_def_ast m = None \<and> mn_impl_ast m = None)))"

lemma load_impl_named: "load_impl cx mismatch name p = Inr (ip, Some a) \<Longrightarrow> name_of_module a = name"
  by (auto simp: load_impl_def rbind_def split: option.splits if_splits sum.splits)

lemma load_from_search_path_adds:
  assumes "load_from_search_path cx name (g, queue) = Inr (i, w')" "mg_by_name g name = None"
  shows "adds name (g, queue) w' i \<and> find_def (lc_is_file cx) (lc_search_path cx) name \<noteq> None"
proof -
  obtain p where p: "find_def (lc_is_file cx) (lc_search_path cx) name = Some p"
    using assms(1) by (auto simp: load_from_search_path_def split: option.splits)
  obtain ast h where d: "parse_def_with_hash cx p = Inr (ast, h)" "name_of_module ast = name"
    using assms(1) p by (auto simp: load_from_search_path_def rbind_def split: sum.splits if_splits)
  obtain ip ia where im: "load_impl cx ImplNameImported name p = Inr (ip, ia)"
    using assms(1) p d by (auto simp: load_from_search_path_def rbind_def split: sum.splits)
  let ?k = "length (mg_modules g)"
  define m where "m = \<lparr>mn_id = ?k, mn_name = name, mn_def_path = Some p, mn_impl_path = ip, mn_def_ast = Some ast,
    mn_impl_ast = ia, mn_def_hash = Some h, mn_imports = [], mn_local_modules = [], mn_is_intrinsic = False\<rparr>"
  have "i = ?k \<and> w' = (g\<lparr>mg_modules := mg_modules g @ [m], mg_by_name := (mg_by_name g)(name \<mapsto> ?k)\<rparr>, ?k # queue)"
    using assms(1) p d im by (auto simp: load_from_search_path_def rbind_def add_module_def update_node_def Let_def m_def)
  moreover have "trees_named m" using d(2) load_impl_named im by (auto simp: trees_named_def m_def)
  ultimately show ?thesis using assms(2) p by (auto simp: adds_def extended_def m_def)
qed

lemma load_from_finder_adds:
  assumes "load_from_finder cx name (g, queue) = Inr (Some (i, w'))" "mg_by_name g name = None"
  shows "adds name (g, queue) w' i \<and> (\<exists>w p. lc_finder cx = Some w \<and> finder_find w name = Inr (Some p))"
proof -
  obtain w where w: "lc_finder cx = Some w" using assms(1) by (auto simp: load_from_finder_def split: option.splits)
  obtain p where p: "finder_find w name = Inr (Some p)"
    using assms(1) w by (auto simp: load_from_finder_def rbind_def map_err_def split: sum.splits option.splits)
  obtain ast h where d: "parse_def_with_hash cx p = Inr (ast, h)" "name_of_module ast = name"
    using assms(1) w p by (auto simp: load_from_finder_def rbind_def map_err_def split: sum.splits if_splits)
  let ?k = "length (mg_modules g)"
  define m where "m = \<lparr>mn_id = ?k, mn_name = name, mn_def_path = Some p, mn_impl_path = None, mn_def_ast = Some ast,
    mn_impl_ast = None, mn_def_hash = Some h, mn_imports = [], mn_local_modules = [], mn_is_intrinsic = False\<rparr>"
  have "i = ?k \<and> w' = (g\<lparr>mg_modules := mg_modules g @ [m], mg_by_name := (mg_by_name g)(name \<mapsto> ?k)\<rparr>, ?k # queue)"
    using assms(1) w p d by (auto simp: load_from_finder_def rbind_def map_err_def add_module_def Let_def m_def)
  moreover have "trees_named m" using d(2) by (auto simp: trees_named_def m_def)
  ultimately show ?thesis using assms(2) w p by (auto simp: adds_def extended_def m_def)
qed

text \<open>The names that can be loaded at all.\<close>

definition loadable :: "load_context \<Rightarrow> string set" where
  "loadable cx = {n. is_intrinsic n \<or> find_def (lc_is_file cx) (lc_search_path cx) n \<noteq> None \<or>
     (\<exists>w p. lc_finder cx = Some w \<and> finder_find w n = Inr (Some p))}"

lemma resolve_or_load_cases:
  assumes "resolve_or_load cx name (g, queue) = Inr (i, w')"
  obtains (known) "mg_by_name g name = Some i" "w' = (g, queue)"
  | (loaded) "mg_by_name g name = None" "adds name (g, queue) w' i" "name \<in> loadable cx"
proof (cases "mg_by_name g name")
  case (Some j)
  then show thesis using assms known by (simp add: resolve_or_load_def graph_lookup_def)
next
  case None
  show thesis
  proof (cases "is_intrinsic name")
    case True
    let ?k = "length (mg_modules g)"
    have "adds name (g, queue) w' i" using assms True None
      by (auto simp: resolve_or_load_def graph_lookup_def add_module_def Let_def adds_def extended_def trees_named_def)
    then show thesis using None loaded True by (simp add: loadable_def)
  next
    case False
    show thesis
    proof (cases "load_from_finder cx name (g, queue)")
      case (Inl e)
      then show thesis using assms None False by (simp add: resolve_or_load_def graph_lookup_def rbind_def)
    next
      case (Inr r)
      show thesis
      proof (cases r)
        case None
        then have "load_from_search_path cx name (g, queue) = Inr (i, w')"
          using assms \<open>mg_by_name g name = None\<close> False Inr by (simp add: resolve_or_load_def graph_lookup_def rbind_def)
        from load_from_search_path_adds [OF this \<open>mg_by_name g name = None\<close>]
        show thesis using loaded \<open>mg_by_name g name = None\<close> by (simp add: loadable_def)
      next
        case (Some r')
        then have "load_from_finder cx name (g, queue) = Inr (Some (i, w'))"
          using assms None False Inr by (simp add: resolve_or_load_def graph_lookup_def rbind_def)
        from load_from_finder_adds [OF this None] show thesis using loaded None by (auto simp: loadable_def)
      qed
    qed
  qed
qed

lemma resolve_or_load_inv:
  assumes "resolve_or_load cx name (g, queue) = Inr (i, (g', queue'))" "work_inv X (g, queue)"
  shows "work_inv X (g', queue') \<and> grows g g' \<and> i < length (mg_modules g') \<and> node_names g' ! i = name"
  using assms(1)
proof (cases rule: resolve_or_load_cases)
  case known
  then show ?thesis using assms(2) by (auto simp: work_inv_def graph_ok_def)
next
  case loaded
  then obtain m where m: "extended g m g'" "mn_name m = name" "i = length (mg_modules g)"
      "queue' = i # queue \<or> queue' = queue \<and> mn_def_ast m = None \<and> mn_impl_ast m = None"
    by (auto simp: adds_def)
  then have "work_inv X (g', queue')" using work_inv_extended [OF assms(2) m(1)] by blast
  then show ?thesis using m by (auto simp: extended_def grows_def node_names_def nth_append)
qed

lemma resolve_all_inv:
  "resolve_all cx names (g, queue) = Inr (is, (g', queue')) \<Longrightarrow> work_inv X (g, queue) \<Longrightarrow>
   work_inv X (g', queue') \<and> grows g g' \<and> (\<forall>i \<in> set is. i < length (mg_modules g')) \<and> map (\<lambda>j. node_names g' ! j) is = names"
proof (induction names arbitrary: g queue "is")
  case (Cons name names)
  obtain i g1 q1 where 1: "resolve_or_load cx name (g, queue) = Inr (i, (g1, q1))"
    using Cons.prems(1) by (auto simp: rbind_def split: sum.splits)
  obtain js where 2: "resolve_all cx names (g1, q1) = Inr (js, (g', queue'))" "is = i # js"
    using Cons.prems(1) 1 by (auto simp: rbind_def split: sum.splits)
  note r = resolve_or_load_inv [OF 1 Cons.prems(2)]
  then have s: "work_inv X (g', queue')" "grows g1 g'" "\<forall>i \<in> set js. i < length (mg_modules g')"
      "map (\<lambda>j. node_names g' ! j) js = names"
    using Cons.IH [OF 2(1)] by blast+
  then show ?case using r 2(2) grows_node [OF s(2), of i] grows_trans by auto
qed simp

section \<open>Following the imports\<close>

lemma update_node_names:
  "i < length (mg_modules g) \<Longrightarrow> mn_name (f (mg_modules g ! i)) = mn_name (mg_modules g ! i) \<Longrightarrow>
   node_names (update_node i f g) = node_names g"
  by (simp add: node_names_def update_node_def map_update list_update_same_conv)

lemma update_node_modules [simp]:
  "length (mg_modules (update_node i f g)) = length (mg_modules g)"
  "mg_by_name (update_node i f g) = mg_by_name g"
  by (simp_all add: update_node_def)

text \<open>Setting the imports of the module being followed.\<close>

lemma work_inv_imports:
  assumes inv: "work_inv {i} (g, queue)" and i: "i < length (mg_modules g)"
    and f: "mn_id (f m) = mn_id m" "mn_name (f m) = mn_name m" "mn_def_ast (f m) = mn_def_ast m" "mn_impl_ast (f m) = mn_impl_ast m"
    and m: "m = mg_modules g ! i" and tree: "mn_def_ast m \<noteq> None \<or> mn_impl_ast m \<noteq> None"
    and im: "\<forall>j \<in> set (mn_imports (f m)). j < length (mg_modules g)"
      "map (\<lambda>j. node_names g ! j) (mn_imports (f m)) = node_import_names m"
  shows "work_inv {} (update_node i f g, queue)"
proof -
  let ?g = "update_node i f g"
  have names: "node_names ?g = node_names g" using update_node_names i f(2) m by simp
  have fm: "followed ?g (f m)" using im(2) f(3,4) names by (simp add: followed_def node_import_names_def)
  have node: "mg_modules ?g ! k = (if k = i then f m else mg_modules g ! k)" if "k < length (mg_modules g)" for k
    using that m by (simp add: update_node_def nth_list_update)
  have "map mn_id (mg_modules ?g) = map mn_id (mg_modules g)"
    using f(1) m i by (simp add: update_node_def map_update list_update_same_conv)
  then have "graph_ok ?g" using inv names by (simp add: work_inv_def graph_ok_def)
  moreover have "nodes_ok ?g"
    unfolding nodes_ok_def
  proof (intro ballI)
    fix x assume "x \<in> set (mg_modules ?g)"
    then obtain k where k: "k < length (mg_modules g)" "x = mg_modules ?g ! k" by (auto simp: in_set_conv_nth)
    have m_ok: "trees_named m" using inv i m nth_mem by (auto simp: work_inv_def nodes_ok_def)
    show "trees_named x \<and> (\<forall>j \<in> set (mn_imports x). j < length (mg_modules ?g)) \<and>
        (mn_def_ast x = None \<and> mn_impl_ast x = None \<longrightarrow> mn_imports x = [])"
    proof (cases "k = i")
      case True
      then show ?thesis using node [OF k(1)] k f m_ok im(1) tree by (auto simp: trees_named_def)
    next
      case False
      then have "x \<in> set (mg_modules g)" using node [OF k(1)] k by simp
      then show ?thesis using inv by (simp add: work_inv_def nodes_ok_def)
    qed
  qed
  moreover have "k \<in> set queue \<or> followed ?g (mg_modules ?g ! k)" if "k < length (mg_modules g)" for k
  proof (cases "k = i")
    case True
    then show ?thesis using fm node [OF that] by simp
  next
    case False
    then have "k \<in> set queue \<or> followed g (mg_modules g ! k)" using inv that by (auto simp: work_inv_def)
    then show ?thesis using node [OF that] False names by (auto simp: followed_def)
  qed
  ultimately show ?thesis using inv by (simp add: work_inv_def)
qed

lemma work_inv_pop: "work_inv {} (g, i # queue) \<Longrightarrow> work_inv {i} (g, queue) \<and> i < length (mg_modules g)"
  by (auto simp: work_inv_def)

lemma work_inv_skip:
  assumes "work_inv {i} (g, queue)" "i < length (mg_modules g)"
    and "mn_impl_ast (mg_modules g ! i) = None" "mn_def_ast (mg_modules g ! i) = None"
  shows "work_inv {} (g, queue)"
proof -
  have "mn_imports (mg_modules g ! i) = []" using assms nth_mem [OF assms(2)] by (auto simp: work_inv_def nodes_ok_def)
  then have "followed g (mg_modules g ! i)" using assms(3,4) by (simp add: followed_def node_import_names_def)
  then show ?thesis using assms(1) by (auto simp: work_inv_def)
qed

lemma follow_imports_step:
  assumes "follow_imports cx i (g, queue) = Inr (g', queue')" "work_inv {i} (g, queue)" "i < length (mg_modules g)"
    and "\<not> (mn_impl_ast (mg_modules g ! i) = None \<and> mn_def_ast (mg_modules g ! i) = None)"
  obtains "is" g1 ls where "resolve_all cx (node_import_names (mg_modules g ! i)) (g, queue) = Inr (is, (g1, queue'))"
    "g' = update_node i (\<lambda>m. m\<lparr>mn_imports := is, mn_local_modules := ls\<rparr>) g1" "mg_modules g1 ! i = mg_modules g ! i"
    "i < length (mg_modules g1)"
proof -
  let ?m = "mg_modules g ! i"
  obtain "is" g1 q1 where r: "resolve_all cx (node_import_names ?m) (g, queue) = Inr (is, (g1, q1))"
    using assms(1,3,4) by (auto simp: follow_imports_def get_at_def rbind_def split: sum.splits)
  note inv = resolve_all_inv [OF r assms(2)]
  then have n: "i < length (mg_modules g1)" "mg_modules g1 ! i = ?m" using grows_node assms(3) by blast+
  obtain a where a: "(case mn_impl_ast ?m of Some a \<Rightarrow> Some a | None \<Rightarrow> mn_def_ast ?m) = Some a"
    using assms(4) by (cases "mn_impl_ast ?m") auto
  have "q1 = queue' \<and> g' = update_node i (\<lambda>m. m\<lparr>mn_local_modules := collect_local_module_names a\<rparr>)
      (update_node i (\<lambda>m. m\<lparr>mn_imports := is\<rparr>) g1)"
    using assms(1,3,4) r n a by (auto simp: follow_imports_def get_at_def rbind_def update_node_def Let_def split: option.splits)
  then have "q1 = queue'" "g' = update_node i (\<lambda>m. m\<lparr>mn_imports := is, mn_local_modules := collect_local_module_names a\<rparr>) g1"
    using n by (auto simp: update_node_def)
  then show thesis using that r n by blast
qed

lemma follow_imports_inv:
  assumes "follow_imports cx i (g, queue) = Inr (g', queue')" "work_inv {} (g, i # queue)"
  shows "work_inv {} (g', queue')"
proof -
  have inv: "work_inv {i} (g, queue)" "i < length (mg_modules g)" using work_inv_pop [OF assms(2)] by auto
  show ?thesis
  proof (cases "mn_impl_ast (mg_modules g ! i) = None \<and> mn_def_ast (mg_modules g ! i) = None")
    case True
    then have "g' = g \<and> queue' = queue" using assms(1) inv(2) by (simp add: follow_imports_def get_at_def)
    then show ?thesis using work_inv_skip [OF inv] True by simp
  next
    case False
    obtain "is" g1 ls where r: "resolve_all cx (node_import_names (mg_modules g ! i)) (g, queue) = Inr (is, (g1, queue'))"
      "g' = update_node i (\<lambda>m. m\<lparr>mn_imports := is, mn_local_modules := ls\<rparr>) g1" "mg_modules g1 ! i = mg_modules g ! i"
      "i < length (mg_modules g1)"
      by (rule follow_imports_step [OF assms(1) inv False])
    show ?thesis unfolding r(2)
      by (rule work_inv_imports [where m = "mg_modules g ! i"])
        (use resolve_all_inv [OF r(1) inv(1)] r(3,4) False in auto)
  qed
qed

section \<open>No panic\<close>

text \<open>The finder's indices are in its list of definitions.\<close>

definition finder_ok :: "load_context \<Rightarrow> bool" where
  "finder_ok cx \<longleftrightarrow> (\<forall>w. lc_finder cx = Some w \<longrightarrow> (\<forall>(n, d) \<in> set (wf_names w). d < length (wf_defs w)))"

lemma finder_find_in_range:
  assumes "finder_ok cx" "lc_finder cx = Some w"
  shows "finder_find w name \<noteq> Inl ()"
proof (cases "binary_search (wf_names w) name")
  case (Some i)
  have "wf_names w ! i \<in> set (wf_names w)" using binary_search_range [OF Some] by simp
  then have "snd (wf_names w ! i) < length (wf_defs w)" using assms by (auto simp: finder_ok_def)
  then show ?thesis using Some by (simp add: finder_find_def Let_def)
qed (simp add: finder_find_def)

lemma parse_bytes_no_panic: "parse_bytes_with_env cx bytes p \<noteq> Inl LoadPanic"
proof
  assume p: "parse_bytes_with_env cx bytes p = Inl LoadPanic"
  then obtain src ts where t: "tokenize src = Inr ts"
    "map_err (parse_error_at p) (parse_module_with_source (length ts) (lc_real_text cx) (lc_debug_text cx) ts src) = Inl LoadPanic"
    by (auto simp: parse_bytes_with_env_def rbind_def map_err_def split: sum.splits)
  then have "parse_module_with_source (length ts) (lc_real_text cx) (lc_debug_text cx) ts src = Inl IndexPanic"
    by (auto simp: map_err_def split: sum.splits elim: parse_error_at.elims)
  then show False using parser_outcome [OF t(1), of "length ts" "lc_real_text cx" "lc_debug_text cx" src] by simp
qed

lemma parse_no_panic [simp]: "parse_file_with_env cx p \<noteq> Inl LoadPanic" "parse_def_with_hash cx p \<noteq> Inl LoadPanic"
  using parse_bytes_no_panic
  by (auto simp: parse_file_with_env_def parse_def_with_hash_def read_file_def rbind_def map_err_def split: sum.splits)

lemma load_impl_no_panic [simp]: "load_impl cx mismatch name p \<noteq> Inl LoadPanic"
  using parse_no_panic(1) by (auto simp: load_impl_def rbind_def split: option.splits sum.splits if_splits)

lemma load_from_search_path_no_panic: "load_from_search_path cx name w \<noteq> Inl LoadPanic"
  using parse_no_panic(2) load_impl_no_panic
  by (auto simp: load_from_search_path_def rbind_def Let_def add_module_def split: option.splits sum.splits if_splits prod.splits)

lemma load_from_finder_no_panic: "finder_ok cx \<Longrightarrow> load_from_finder cx name w \<noteq> Inl LoadPanic"
  using parse_no_panic(2) finder_find_in_range
  by (auto simp: load_from_finder_def rbind_def map_err_def Let_def add_module_def split: option.splits sum.splits if_splits prod.splits)

lemma resolve_or_load_no_panic: "finder_ok cx \<Longrightarrow> resolve_or_load cx name w \<noteq> Inl LoadPanic"
  using load_from_finder_no_panic load_from_search_path_no_panic
  by (auto simp: resolve_or_load_def rbind_def Let_def add_module_def split: option.splits sum.splits if_splits prod.splits)

lemma resolve_all_no_panic: "finder_ok cx \<Longrightarrow> resolve_all cx names w \<noteq> Inl LoadPanic"
  using resolve_or_load_no_panic
  by (induction names arbitrary: w) (fastforce simp: rbind_def split: sum.splits prod.splits)+

lemma load_entry_no_panic: "load_entry cx entry \<noteq> Inl LoadPanic"
  using parse_no_panic(2) load_impl_no_panic
  by (auto simp: load_entry_def pair_entry_impl_def pair_entry_def_def rbind_def Let_def add_module_def
    split: option.splits sum.splits if_splits prod.splits)

lemma follow_imports_no_panic:
  assumes "finder_ok cx" "work_inv {} (g, i # queue)"
  shows "follow_imports cx i (g, queue) \<noteq> Inl LoadPanic"
proof
  assume f: "follow_imports cx i (g, queue) = Inl LoadPanic"
  let ?m = "mg_modules g ! i"
  have inv: "work_inv {i} (g, queue)" "i < length (mg_modules g)" using work_inv_pop [OF assms(2)] by auto
  have tree: "\<not> (mn_impl_ast ?m = None \<and> mn_def_ast ?m = None)"
    using f inv(2) by (auto simp: follow_imports_def get_at_def split: if_splits)
  show False
  proof (cases "resolve_all cx (node_import_names ?m) (g, queue)")
    case (Inl e)
    then show False using f inv(2) tree resolve_all_no_panic [OF assms(1)]
      by (auto simp: follow_imports_def get_at_def rbind_def)
  next
    case (Inr r)
    obtain "is" g1 q1 where r: "r = (is, (g1, q1))" by (cases r) auto
    then have "mg_modules g1 ! i = ?m" "i < length (mg_modules g1)"
      using resolve_all_inv [OF _ inv(1)] Inr grows_node inv(2) by blast+
    then show False using f inv(2) tree Inr r
      by (auto simp: follow_imports_def get_at_def rbind_def Let_def update_node_def split: option.splits)
  qed
qed

section \<open>The loaded graph\<close>

definition loop_result_ok :: "load_context \<Rightarrow> load_work \<Rightarrow> load_failure + module_graph \<Rightarrow> bool" where
  "loop_result_ok cx w r \<longleftrightarrow> (work_inv {} w \<longrightarrow>
     (case r of Inl e \<Rightarrow> finder_ok cx \<longrightarrow> e \<noteq> LoadPanic | Inr g \<Rightarrow> work_inv {} (g, [])))"

lemma load_loop_inv: "load_loop cx w = Some r \<Longrightarrow> loop_result_ok cx w r"
proof (erule load_loop.raw_induct [rotated])
  fix f :: "load_context \<Rightarrow> load_work \<Rightarrow> (load_failure + module_graph) option" and cx w r
  assume ih: "\<And>cx w r. f cx w = Some r \<Longrightarrow> loop_result_ok cx w r"
    and r: "(case w of (g, queue) \<Rightarrow>
        case queue of
          [] \<Rightarrow> Some (Inr g)
        | i # below \<Rightarrow>
            (case follow_imports cx i (g, below) of
               Inl e \<Rightarrow> Some (Inl e)
             | Inr w' \<Rightarrow> f cx w')) = Some r"
  obtain g queue where w: "w = (g, queue)" by (cases w)
  show "loop_result_ok cx w r"
  proof (cases queue)
    case (Cons i below)
    show ?thesis
    proof (cases "follow_imports cx i (g, below)")
      case (Inr w')
      obtain g' queue' where w': "w' = (g', queue')" by (cases w')
      have "loop_result_ok cx w' r" using ih r w Cons Inr by simp
      moreover have "work_inv {} w \<Longrightarrow> work_inv {} w'" using follow_imports_inv Inr w w' Cons by blast
      ultimately show ?thesis by (auto simp: loop_result_ok_def)
    next
      case (Inl e)
      then show ?thesis using r w Cons follow_imports_no_panic [of cx g i below] by (auto simp: loop_result_ok_def)
    qed
  qed (use r w in \<open>auto simp: loop_result_ok_def\<close>)
qed

text \<open>The entry is the first module.\<close>

definition entry_graph :: "module_node \<Rightarrow> module_graph" where
  "entry_graph m = \<lparr>mg_modules = [m], mg_by_name = [mn_name m \<mapsto> 0], mg_topo_order = []\<rparr>"

lemma entry_graph_inv:
  assumes "mn_id m = 0" "mn_imports m = []" "trees_named m"
  shows "work_inv {} (entry_graph m, [0])"
  using assms by (auto simp: work_inv_def graph_ok_def nodes_ok_def entry_graph_def node_names_def)

lemma load_entry_inv:
  assumes "load_entry cx entry = Inr w"
  shows "\<exists>m. w = (entry_graph m, [0]) \<and> mn_id m = 0 \<and> mn_imports m = [] \<and> trees_named m"
proof -
  obtain a h where a: "parse_def_with_hash cx entry = Inr (a, h)"
    using assms by (auto simp: load_entry_def rbind_def split: sum.splits)
  note defs = load_entry_def rbind_def add_module_def graph_new_def update_node_def entry_graph_def Let_def
  show ?thesis
  proof (cases "module_kind_of a = MDefinition")
    case True
    then obtain ip ia where i: "pair_entry_impl cx entry (name_of_module a) = Inr (ip, ia)"
      using assms a by (auto simp: load_entry_def rbind_def Let_def add_module_def split: sum.splits)
    have "\<And>b. ia = Some b \<Longrightarrow> name_of_module b = name_of_module a"
      using i load_impl_named by (auto simp: pair_entry_impl_def)
    then show ?thesis using assms a i True by (auto simp: defs trees_named_def)
  next
    case False
    then obtain d where d: "pair_entry_def cx (name_of_module a) (module_kind_of a = MProgram) = Inr d"
      using assms a by (auto simp: load_entry_def rbind_def Let_def add_module_def split: sum.splits)
    show ?thesis
    proof (cases d)
      case None
      then show ?thesis using assms a d False by (auto simp: defs trees_named_def)
    next
      case (Some t)
      then obtain p b k where t: "t = (p, b, k)" by (cases t)
      then have "name_of_module b = name_of_module a"
        using d Some by (auto simp: pair_entry_def_def rbind_def split: option.splits sum.splits if_splits)
      then show ?thesis using assms a d False Some t by (auto simp: defs trees_named_def)
    qed
  qed
qed

section \<open>The loader returns\<close>

text \<open>What is left to do: names that may still be loaded count twice, for the module and for its turn.\<close>

definition pending :: "load_context \<Rightarrow> load_work \<Rightarrow> nat" where
  "pending cx w = (case w of (g, queue) \<Rightarrow> 2 * card (loadable cx - set (node_names g)) + length queue)"

lemma adds_pending:
  assumes "adds name (g, queue) (g', queue') i" "name \<in> loadable cx" "graph_ok g" "finite (loadable cx)"
  shows "pending cx (g', queue') < pending cx (g, queue)"
proof -
  obtain m where m: "extended g m g'" "mn_name m = name" "length queue' \<le> Suc (length queue)" using assms(1) by (auto simp: adds_def)
  have new: "name \<notin> set (node_names g)"
  proof
    assume "name \<in> set (node_names g)"
    then obtain j where "j < length (mg_modules g)" "node_names g ! j = name" by (auto simp: in_set_conv_nth)
    then have "mg_by_name g name = Some j" using assms(3) by (simp add: graph_ok_def)
    then show False using m by (simp add: extended_def)
  qed
  have "node_names g' = node_names g @ [name]" using m by (simp add: extended_def node_names_def)
  then have "loadable cx - set (node_names g') = (loadable cx - set (node_names g)) - {name}" by auto
  then have "card (loadable cx - set (node_names g')) < card (loadable cx - set (node_names g))"
    using assms(2,4) new card_Diff1_less [of "loadable cx - set (node_names g)" name] by simp
  then show ?thesis using m(3) by (simp add: pending_def)
qed

lemma resolve_all_pending:
  assumes "finite (loadable cx)"
  shows "resolve_all cx names (g, queue) = Inr (is, (g', queue')) \<Longrightarrow> work_inv X (g, queue) \<Longrightarrow>
    pending cx (g', queue') \<le> pending cx (g, queue)"
proof (induction names arbitrary: g queue "is")
  case (Cons name names)
  obtain i g1 q1 where 1: "resolve_or_load cx name (g, queue) = Inr (i, (g1, q1))"
    using Cons.prems(1) by (auto simp: rbind_def split: sum.splits)
  obtain js where 2: "resolve_all cx names (g1, q1) = Inr (js, (g', queue'))"
    using Cons.prems(1) 1 by (auto simp: rbind_def split: sum.splits)
  have "graph_ok g" using Cons.prems(2) by (simp add: work_inv_def)
  then have "pending cx (g1, q1) \<le> pending cx (g, queue)"
    using resolve_or_load_cases [OF 1] adds_pending [of name g queue g1 q1 i cx] assms by (auto intro: less_imp_le)
  moreover have "work_inv X (g1, q1)" using resolve_or_load_inv [OF 1 Cons.prems(2)] by blast
  ultimately show ?case using Cons.IH [OF 2] by simp
qed simp

lemma pending_update [simp]: "i < length (mg_modules g) \<Longrightarrow> (\<And>m. mn_name (f m) = mn_name m) \<Longrightarrow>
    pending cx (update_node i f g, queue) = pending cx (g, queue)"
  by (simp add: pending_def update_node_names)

lemma follow_imports_pending:
  assumes "follow_imports cx i (g, queue) = Inr (g', queue')" "work_inv {} (g, i # queue)" "finite (loadable cx)"
  shows "pending cx (g', queue') < pending cx (g, i # queue)"
proof -
  have inv: "work_inv {i} (g, queue)" "i < length (mg_modules g)" using work_inv_pop [OF assms(2)] by auto
  have "pending cx (g', queue') \<le> pending cx (g, queue)"
  proof (cases "mn_impl_ast (mg_modules g ! i) = None \<and> mn_def_ast (mg_modules g ! i) = None")
    case True
    then show ?thesis using assms(1) inv(2) by (simp add: follow_imports_def get_at_def)
  next
    case False
    obtain "is" g1 ls where r: "resolve_all cx (node_import_names (mg_modules g ! i)) (g, queue) = Inr (is, (g1, queue'))"
      "g' = update_node i (\<lambda>m. m\<lparr>mn_imports := is, mn_local_modules := ls\<rparr>) g1" "mg_modules g1 ! i = mg_modules g ! i"
      "i < length (mg_modules g1)"
      by (rule follow_imports_step [OF assms(1) inv False])
    then show ?thesis using resolve_all_pending [OF assms(3) r(1) inv(1)] by simp
  qed
  then show ?thesis by (simp add: pending_def)
qed

lemma load_loop_returns: "work_inv {} w \<Longrightarrow> finite (loadable cx) \<Longrightarrow> \<exists>r. load_loop cx w = Some r"
proof (induction w rule: measure_induct_rule [of "pending cx"])
  case (less w)
  obtain g queue where w: "w = (g, queue)" by (cases w)
  show ?case
  proof (cases queue)
    case Nil
    then show ?thesis using w by (simp add: load_loop.simps)
  next
    case (Cons i below)
    show ?thesis
    proof (cases "follow_imports cx i (g, below)")
      case (Inl e)
      then show ?thesis using w Cons by (simp add: load_loop.simps)
    next
      case (Inr w')
      obtain g' queue' where w': "w' = (g', queue')" by (cases w')
      have inv: "work_inv {} (g, i # below)" using less.prems(1) w Cons by simp
      have "pending cx w' < pending cx w"
        using follow_imports_pending [OF _ inv less.prems(2)] Inr w w' Cons by simp
      moreover have "work_inv {} w'" using follow_imports_inv [OF _ inv] Inr w' by simp
      ultimately obtain r where "load_loop cx w' = Some r" using less.IH less.prems(2) by blast
      then show ?thesis using w Cons Inr by (simp add: load_loop.simps)
    qed
  qed
qed

lemma finite_names: "finite {p. is_file p} \<Longrightarrow> finite {n. is_file (dir @ [n @ suffix])}"
proof -
  assume "finite {p. is_file p}"
  then have "finite ((\<lambda>n. dir @ [n @ suffix]) -` {p. is_file p})" by (rule finite_vimageI) (simp add: inj_on_def)
  then show ?thesis by (simp add: vimage_def)
qed

lemma finite_found: "finite {p. is_file p} \<Longrightarrow> finite {n. find_def is_file sp n \<noteq> None}"
proof -
  assume fin: "finite {p. is_file p}"
  have "{n. find_def is_file sp n \<noteq> None} =
      (\<Union>dir \<in> set (sp_entries sp). {n. is_file (dir @ [n @ ''.def''])} \<union> {n. is_file (dir @ [n @ ''_types.def''])})"
    unfolding find_def_none by (auto simp: def_files_def)
  then show ?thesis using finite_names [OF fin] by simp
qed

lemma finder_find_names: "finder_find w n = Inr (Some p) \<Longrightarrow> n \<in> fst ` set (wf_names w)"
proof -
  assume f: "finder_find w n = Inr (Some p)"
  then obtain i where i: "binary_search (wf_names w) n = Some i" by (auto simp: finder_find_def split: option.splits)
  then have "fst (wf_names w ! i) = n" by (auto simp: binary_search_def Let_def split: if_splits)
  then show ?thesis using nth_mem [OF binary_search_range [OF i]] by force
qed

lemma finite_loadable:
  assumes "finite {p. lc_is_file cx p}"
  shows "finite (loadable cx)"
proof -
  have "loadable cx \<subseteq> set INTRINSIC_MODULES \<union> {n. find_def (lc_is_file cx) (lc_search_path cx) n \<noteq> None} \<union>
      (case lc_finder cx of None \<Rightarrow> {} | Some w \<Rightarrow> fst ` set (wf_names w))"
    using finder_find_names by (auto simp: loadable_def is_intrinsic_def list_ex_iff)
  moreover have "finite (case lc_finder cx of None \<Rightarrow> {} | Some w \<Rightarrow> fst ` set (wf_names w))" by (cases "lc_finder cx") auto
  ultimately show ?thesis using finite_found [OF assms] by (meson finite_UnI finite_set finite_subset)
qed

section \<open>Building the graph\<close>

lemma build_cases:
  assumes "build_module_graph_with_extra_roots cx entry roots = r"
  obtains (start) e where "rbind (load_entry cx entry) (\<lambda>w. rbind (resolve_all cx roots w) (\<lambda>(_, w'). Inr w')) = Inl e" "r = Some (Inl e)"
  | (loop) w where "work_inv {} w" "r = map_option (\<lambda>r. rbind r order_modules) (load_loop cx w)"
proof (cases "rbind (load_entry cx entry) (\<lambda>w. rbind (resolve_all cx roots w) (\<lambda>(_, w'). Inr w'))")
  case (Inl e)
  then show thesis using assms start by (simp add: build_module_graph_with_extra_roots_def)
next
  case (Inr w)
  obtain w0 where l: "load_entry cx entry = Inr w0" using Inr by (auto simp: rbind_def split: sum.splits)
  then obtain m where m: "w0 = (entry_graph m, [0])" "work_inv {} w0" using load_entry_inv entry_graph_inv by blast
  obtain "is" g queue where r: "resolve_all cx roots w0 = Inr (is, (g, queue))" "w = (g, queue)"
    using Inr l by (auto simp: rbind_def split: sum.splits)
  have "work_inv {} w" using resolve_all_inv [of cx roots "entry_graph m" "[0]" "is" g queue "{}"] r m by simp
  then show thesis using assms loop Inr by (simp add: build_module_graph_with_extra_roots_def)
qed

lemma nodes_ok_imports_in_range: "nodes_ok g \<Longrightarrow> imports_in_range g"
  by (simp add: nodes_ok_def imports_in_range_def)

lemma parse_system_import:
  assumes "map kind ts = [TKeyword KModule, TIdent ''A'', TSemicolon, TKeyword KImport,
       TIdent ''SYSTEM'', TSemicolon, TKeyword KEnd, TIdent ''A'', TDot, TEof]"
  shows "\<exists>m. parse_module_with_source (length ts) fmt dbg ts src = Inr m \<and> name_of_module m = ''A'' \<and> collect_top_imports m = [''SYSTEM''] \<and> module_kind_of m = MProgram"
proof -
  obtain t0 t1 t2 t3 t4 t5 t6 t7 t8 t9 where ts: "ts = [t0,t1,t2,t3,t4,t5,t6,t7,t8,t9]"
   and k: "kind t0 = TKeyword KModule" "kind t1 = TIdent ''A''" "kind t2 = TSemicolon" "kind t3 = TKeyword KImport"
      "kind t4 = TIdent ''SYSTEM''" "kind t5 = TSemicolon" "kind t6 = TKeyword KEnd" "kind t7 = TIdent ''A''" "kind t8 = TDot" "kind t9 = TEof"
    using assms by (auto simp: map_eq_Cons_conv)
  let ?p = "\<lambda>i. \<lparr>toks = ts, source = src, pos = i, real_text = fmt, debug_text = dbg\<rparr>"
  have 1: "parse_imports (Suc (Suc n)) (?p (Suc (Suc (Suc 0)))) = Inr ([IPlain [\<lparr>in_name = ''SYSTEM'', in_alias = None, in_span = tok_span t4\<rparr>]
      (between (tok_span t3) (span_end (tok_span t5)))], ?p 6)" for n
    using ts k by (simp add: plain_import_def imported_name_def skip_pragmas_def run_defs numeral_eq_Suc)
  have 2: "parse_top_decls (Suc n) True (?p 6) = Inr ([], ?p 6)" for n
    using ts k by (simp add: top_item_def Let_def run_defs)
  show ?thesis
    using ts k 1 [of 8] 2 [of 9] by (simp add: parse_module_with_source_def parser_new_def parse_module_def module_kind_kw_def optional_priority_def
        module_content_def optional_body_def expect_end_name_def ParserCore.expect_eof_def run_defs numeral_eq_Suc del: parse_top_decls.simps parse_imports.simps)
qed
text \<open>
  C8: The graph of a load links the modules: numbers are positions, each name leads to the one module
  of that name, every syntax tree is its module's, and the imports of a module are, in sorted order, the
  modules its trees import. Its order has every module once, each import before its importer unless
  the two are on a cycle of imports.\<close>

theorem loaded_graph_linked:
  assumes "build_module_graph_with_extra_roots cx entry roots = Some (Inr g)"
  shows "graph_ok g \<and> (\<forall>m \<in> set (mg_modules g). trees_named m \<and> followed g m) \<and>
    distinct (mg_topo_order g) \<and> set (mg_topo_order g) = {..<length (mg_modules g)} \<and>
    (\<forall>i < length (mg_modules g). \<forall>j \<in> set (import_lists g i).
       before (mg_topo_order g) j i \<or> (j, i) \<in> (edge_of (import_lists g))\<^sup>*)"
  using assms
proof (cases rule: build_cases)
  case (loop w)
  then obtain h where h: "load_loop cx w = Some (Inr h)" "order_modules h = Inr g"
    by (cases "load_loop cx w") (auto simp: rbind_def split: sum.splits)
  then have inv: "work_inv {} (h, [])" using load_loop_inv [OF h(1)] loop(1) by (simp add: loop_result_ok_def)
  then have "imports_in_range h" by (intro nodes_ok_imports_in_range) (simp add: work_inv_def)
  then obtain xs where xs: "topo_sort h = Some xs" "distinct xs" "set xs = {..<length (mg_modules h)}"
    "\<forall>i \<in> set xs. \<forall>j \<in> set (import_lists h i). before xs j i \<or> (j, i) \<in> (edge_of (import_lists h))\<^sup>*"
    using topo_sort_orders by blast
  have g: "g = h\<lparr>mg_topo_order := xs\<rparr>" using h(2) xs(1) by (simp add: order_modules_def)
  then have "import_lists g = import_lists h" "node_names g = node_names h" by (simp_all add: import_lists_def node_names_def fun_eq_iff)
  moreover have "graph_ok h" "\<forall>m \<in> set (mg_modules h). trees_named m" "\<forall>i < length (mg_modules h). followed h (mg_modules h ! i)"
    using inv by (simp_all add: work_inv_def nodes_ok_def)
  ultimately have "graph_ok g \<and> (\<forall>m \<in> set (mg_modules g). trees_named m \<and> followed g m)"
    using g by (simp add: graph_ok_def followed_def all_set_conv_all_nth)
  moreover note \<open>import_lists g = import_lists h\<close>
  ultimately show ?thesis using xs g by simp
qed simp

text \<open>A program that imports an intrinsic module, loaded.\<close>

definition system_program :: string where
  "system_program = ''MODULE A; IMPORT SYSTEM; END A.''"

definition system_context :: load_context where
  "system_context = \<lparr>lc_read = \<lambda>p. Inr system_program, lc_is_file = \<lambda>p. False, lc_search_path = search_path_new,
     lc_env = env_empty, lc_finder = None, lc_real_text = \<lambda>v. [], lc_debug_text = \<lambda>k. []\<rparr>"

lemma system_context_simps [simp]:
  "lc_read system_context p = Inr system_program" "lc_is_file system_context = (\<lambda>p. False)"
  "lc_search_path system_context = search_path_new" "lc_env system_context = env_empty" "lc_finder system_context = None"
  "lc_real_text system_context = (\<lambda>v. [])" "lc_debug_text system_context = (\<lambda>k. [])"
  by (simp_all add: system_context_def)

lemma system_program_parsed:
  "\<exists>m. parse_bytes_with_env system_context system_program p = Inr m \<and> name_of_module m = ''A'' \<and>
     collect_top_imports m = [''SYSTEM''] \<and> module_kind_of m = MProgram"
proof -
  obtain ts where ts: "tokenize system_program = Inr ts"
    "map kind ts = [TKeyword KModule, TIdent ''A'', TSemicolon, TKeyword KImport, TIdent ''SYSTEM'', TSemicolon,
       TKeyword KEnd, TIdent ''A'', TDot, TEof]"
    unfolding system_program_def by (simp add: lex_eval Let_def cong: rbind_weak_cong)
  have "from_utf8_lossy system_program = system_program"
    by (rule from_utf8_lossy_ascii) (simp add: system_program_def byte_def)
  moreover have "preprocess system_program env_empty = Inr system_program"
    by (simp add: preprocess_def system_program_def)
  moreover obtain m where "parse_module_with_source (length ts) (\<lambda>v. []) (\<lambda>k. []) ts system_program = Inr m"
      "name_of_module m = ''A''" "collect_top_imports m = [''SYSTEM'']" "module_kind_of m = MProgram"
    using parse_system_import [OF ts(2)] by blast
  ultimately show ?thesis using ts(1) by (simp add: parse_bytes_with_env_def rbind_def map_err_def)
qed

theorem loaded_graph_linked_witness:
  "\<exists>g. build_module_graph_with_extra_roots system_context [''A.mod''] [] = Some (Inr g) \<and>
     length (mg_modules g) = 2 \<and> followed g (mg_modules g ! 0)"
proof -
  obtain m where m: "parse_bytes_with_env system_context system_program [''A.mod''] = Inr m" "name_of_module m = ''A''"
     "collect_top_imports m = [''SYSTEM'']" "module_kind_of m = MProgram" using system_program_parsed by blast
  have d: "parse_def_with_hash system_context [''A.mod''] = Inr (m, hash_source system_program)"
    using m(1) by (simp add: parse_def_with_hash_def read_file_def rbind_def map_err_def)
  have "\<exists>g. build_module_graph_with_extra_roots system_context [''A.mod''] [] = Some (Inr g) \<and> length (mg_modules g) = 2"
    by (simp add: build_module_graph_with_extra_roots_def load_entry_def d m rbind_def Let_def add_module_def graph_new_def
      pair_entry_def_def find_def_def search_path_new_def load_loop.simps follow_imports_def get_at_def
      update_node_def node_import_names_def resolve_or_load_def graph_lookup_def is_intrinsic_def INTRINSIC_MODULES_def
      order_modules_def topo_sort_def upt_rec)
  then obtain g where g: "build_module_graph_with_extra_roots system_context [''A.mod''] [] = Some (Inr g)" "length (mg_modules g) = 2"
    by blast
  then show ?thesis using loaded_graph_linked [OF g(1)] by (intro exI [of _ g]) simp
qed



text \<open>
  C10: When the indices of the Windows definition finder are in its list, the loader never panics: no
  index out of the graph, no missing tree, no order out of range, and no panic of the parser on any bytes.\<close>

theorem loader_never_panics:
  assumes "finder_ok cx"
  shows "build_module_graph_with_extra_roots cx entry roots \<noteq> Some (Inl LoadPanic)"
proof (cases rule: build_cases [OF refl, of cx entry roots])
  case (1 e)
  have "e \<noteq> LoadPanic" using 1(1) load_entry_no_panic [of cx entry] resolve_all_no_panic [OF assms]
    by (auto simp: rbind_def split: sum.splits)
  then show ?thesis using 1(2) by simp
next
  case (2 w)
  have "rbind r order_modules \<noteq> Inl LoadPanic" if r: "load_loop cx w = Some r" for r
  proof (cases r)
    case (Inl e)
    then show ?thesis using load_loop_inv [OF r] 2(1) assms by (simp add: loop_result_ok_def rbind_def)
  next
    case (Inr g)
    then have "imports_in_range g" using load_loop_inv [OF r] 2(1)
      by (intro nodes_ok_imports_in_range) (simp add: loop_result_ok_def work_inv_def)
    then obtain xs where "topo_sort g = Some xs" using topo_sort_orders by blast
    then show ?thesis using Inr by (simp add: rbind_def order_modules_def)
  qed
  then show ?thesis using 2(2) by auto
qed

theorem loader_never_panics_witness:
  "build_module_graph_with_extra_roots
     \<lparr>lc_read = \<lambda>p. Inr ''MODULE'', lc_is_file = \<lambda>p. False, lc_search_path = search_path_new, lc_env = env_empty,
      lc_finder = Some (build_win32_finder (\<lambda>c. False) [''win''] [([''A_types.def''], ''DEFINITION MODULE A;'')]),
      lc_real_text = \<lambda>v. [], lc_debug_text = \<lambda>k. []\<rparr> [''A.mod''] [] \<noteq> Some (Inl LoadPanic)"
  by (rule loader_never_panics) (auto simp: finder_ok_def dest: built_finder_in_range)

end
