(* ===== verification/FlowCheck.thy ===== *)
theory FlowCheck
  imports SyntaxTree
begin

text \<open>
  The control-flow checks of the analyzer (\<open>newm2-sema/src/analyze.rs\<close>): whether a statement sequence can
  be left at its end (\<open>seq_completes\<close>, behind the definite-return check of function procedures), whether a
  LOOP holds an EXIT of its own, and the scan that keeps GUARD interface arms free of transfers out of them.
\<close>

section \<open>Calls that do not return\<close>

definition called_designator :: "expr \<Rightarrow> designator option" where
  "called_designator e = (case e of
     ECall callee args sp \<Rightarrow> (case callee of EDesignator d \<Rightarrow> Some d | _ \<Rightarrow> None)
   | EDesignator d \<Rightarrow> Some d
   | _ \<Rightarrow> None)"

definition called_name :: "designator \<Rightarrow> string option" where
  "called_name d =
     (if d_selectors d = [] then (if segments (d_base d) = [] then None else Some (last (segments (d_base d))))
      else case last (d_selectors d) of SField name sp \<Rightarrow> Some name | _ \<Rightarrow> None)"

definition is_noreturn_call :: "expr \<Rightarrow> bool" where
  "is_noreturn_call e = (case called_designator e of
     None \<Rightarrow> False
   | Some d \<Rightarrow> called_name d \<in> {Some ''HALT'', Some ''RAISE''})"

section \<open>Exits of a loop\<close>

fun stmt_has_exit :: "stmt \<Rightarrow> bool" where
  "stmt_has_exit (SExit sp) = True"
| "stmt_has_exit (SLoop b sp) = False"
| "stmt_has_exit (SIf arms els sp) =
     (list_ex (\<lambda>(c, b). list_ex stmt_has_exit b) arms \<or> (case els of None \<Rightarrow> False | Some b \<Rightarrow> list_ex stmt_has_exit b))"
| "stmt_has_exit (SCase e arms els sp) =
     (list_ex (\<lambda>a. case a of CaseArm ls b asp \<Rightarrow> list_ex stmt_has_exit b) arms \<or>
      (case els of None \<Rightarrow> False | Some b \<Rightarrow> list_ex stmt_has_exit b))"
| "stmt_has_exit (SGuard e arms els sp) =
     (list_ex (\<lambda>a. case a of GuardArm x xsp ty b asp \<Rightarrow> list_ex stmt_has_exit b) arms \<or>
      (case els of None \<Rightarrow> False | Some b \<Rightarrow> list_ex stmt_has_exit b))"
| "stmt_has_exit (SWhile c b sp) = list_ex stmt_has_exit b"
| "stmt_has_exit (SRepeat b c sp) = list_ex stmt_has_exit b"
| "stmt_has_exit (SFor x lo hi st b sp) = list_ex stmt_has_exit b"
| "stmt_has_exit (SWith d b sp) = list_ex stmt_has_exit b"
| "stmt_has_exit (SBlock (Block b ex fin bsp)) = list_ex stmt_has_exit b"
| "stmt_has_exit s = False"

definition loop_has_exit :: "stmt list \<Rightarrow> bool" where
  "loop_has_exit ss = list_ex stmt_has_exit ss"

section \<open>Falling through\<close>

fun stmt_completes :: "stmt \<Rightarrow> bool" where
  "stmt_completes (SReturn e sp) = False"
| "stmt_completes (SRaise e sp) = False"
| "stmt_completes (SRetry sp) = False"
| "stmt_completes (SExit sp) = False"
| "stmt_completes (SCall e sp) = (\<not> is_noreturn_call e)"
| "stmt_completes (SEmpty sp) = True"
| "stmt_completes (SAssign d e sp) = True"
| "stmt_completes (SIf arms els sp) =
     (case els of None \<Rightarrow> True
      | Some e \<Rightarrow> list_ex (\<lambda>(c, b). list_all stmt_completes b) arms \<or> list_all stmt_completes e)"
| "stmt_completes (SCase x arms els sp) =
     (list_ex (\<lambda>a. case a of CaseArm ls b asp \<Rightarrow> list_all stmt_completes b) arms \<or>
      (case els of None \<Rightarrow> False | Some e \<Rightarrow> list_all stmt_completes e))"
| "stmt_completes (SGuard x arms els sp) =
     (list_ex (\<lambda>a. case a of GuardArm y ysp ty b asp \<Rightarrow> list_all stmt_completes b) arms \<or>
      (case els of None \<Rightarrow> False | Some e \<Rightarrow> list_all stmt_completes e))"
| "stmt_completes (SWhile c b sp) = True"
| "stmt_completes (SRepeat b c sp) = True"
| "stmt_completes (SFor x lo hi st b sp) = True"
| "stmt_completes (SLoop b sp) = loop_has_exit b"
| "stmt_completes (SWith d b sp) = list_all stmt_completes b"
| "stmt_completes (SBlock (Block b ex fin bsp)) = list_all stmt_completes b"

definition seq_completes :: "stmt list \<Rightarrow> bool" where
  "seq_completes ss = list_all stmt_completes ss"

text \<open>The test of \<open>analyse_proc_body\<close>: is a function reported as able to reach its end?\<close>

definition reports_missing_return :: "bool \<Rightarrow> proc_body \<Rightarrow> bool" where
  "reports_missing_return has_result body = (case body of ProcBody ds (Block ss ex fin sp) \<Rightarrow> has_result \<and> seq_completes ss)"

section \<open>Transfers out of a GUARD arm\<close>

text \<open>\<open>find_map\<close>, and the \<open>scan\<close> of \<open>guard_arm_nonlocal_exit\<close> at a loop depth.\<close>

fun first_hit :: "span option list \<Rightarrow> span option" where
  "first_hit [] = None"
| "first_hit (None # hs) = first_hit hs"
| "first_hit (Some sp # hs) = Some sp"

fun scan_stmt :: "nat \<Rightarrow> stmt \<Rightarrow> span option" where
  "scan_stmt d (SReturn e sp) = Some sp"
| "scan_stmt d (SRaise e sp) = Some sp"
| "scan_stmt d (SRetry sp) = Some sp"
| "scan_stmt d (SExit sp) = (if d = 0 then Some sp else None)"
| "scan_stmt d (SIf arms els sp) =
     first_hit (map (\<lambda>(c, b). first_hit (map (scan_stmt d) b)) arms @
       [case els of None \<Rightarrow> None | Some b \<Rightarrow> first_hit (map (scan_stmt d) b)])"
| "scan_stmt d (SCase e arms els sp) =
     first_hit (map (\<lambda>a. case a of CaseArm ls b asp \<Rightarrow> first_hit (map (scan_stmt d) b)) arms @
       [case els of None \<Rightarrow> None | Some b \<Rightarrow> first_hit (map (scan_stmt d) b)])"
| "scan_stmt d (SGuard e arms els sp) =
     first_hit (map (\<lambda>a. case a of GuardArm x xsp ty b asp \<Rightarrow> first_hit (map (scan_stmt d) b)) arms @
       [case els of None \<Rightarrow> None | Some b \<Rightarrow> first_hit (map (scan_stmt d) b)])"
| "scan_stmt d (SWhile c b sp) = first_hit (map (scan_stmt (d + 1)) b)"
| "scan_stmt d (SRepeat b c sp) = first_hit (map (scan_stmt (d + 1)) b)"
| "scan_stmt d (SFor x lo hi st b sp) = first_hit (map (scan_stmt (d + 1)) b)"
| "scan_stmt d (SLoop b sp) = first_hit (map (scan_stmt (d + 1)) b)"
| "scan_stmt d (SWith x b sp) = first_hit (map (scan_stmt d) b)"
| "scan_stmt d (SBlock (Block b ex fin bsp)) =
     first_hit (first_hit (map (scan_stmt d) b) #
       map (\<lambda>a. case a of ExceptArm qs c asp \<Rightarrow> first_hit (map (scan_stmt d) c)) ex @
       [case fin of None \<Rightarrow> None | Some c \<Rightarrow> first_hit (map (scan_stmt d) c)])"
| "scan_stmt d s = None"

definition guard_arm_nonlocal_exit :: "stmt list \<Rightarrow> span option" where
  "guard_arm_nonlocal_exit body = first_hit (map (scan_stmt 0) body)"

end
