(* ===== verification/FlowSpec.thy ===== *)
theory FlowSpec
  imports FlowCheck
begin

text \<open>
  What the control-flow checks promise, against the ways a statement can end. Conditions, selectors and
  iteration counts are free, any evaluation may fault, and EXIT leaves the innermost loop of any kind, as
  the lowering's \<open>push_loop\<close> has it (\<open>newm2-ir/src/lower.rs\<close>). Handlers belong to a procedure body
  (\<open>lower_protected_wrapper\<close>); nested blocks run their statements and then their FINALLY part (\<open>lower_block\<close>).
\<close>

section \<open>How statements end\<close>

datatype ending = Falls | Exits | Returns | Raises | Retries | Faults

text \<open>\<open>ret e\<close>: the call \<open>e\<close> may return.\<close>

inductive may :: "(expr \<Rightarrow> bool) \<Rightarrow> stmt \<Rightarrow> ending \<Rightarrow> bool"
  and may_seq :: "(expr \<Rightarrow> bool) \<Rightarrow> stmt list \<Rightarrow> ending \<Rightarrow> bool"
  for ret where
  seq_end: "may_seq ret [] Falls"
| seq_stop: "may ret s e \<Longrightarrow> e \<noteq> Falls \<Longrightarrow> may_seq ret (s # ss) e"
| seq_next: "may ret s Falls \<Longrightarrow> may_seq ret ss e \<Longrightarrow> may_seq ret (s # ss) e"
| fault: "may ret s Faults"
| empty: "may ret (SEmpty sp) Falls"
| assign: "may ret (SAssign d x sp) Falls"
| call: "ret x \<Longrightarrow> may ret (SCall x sp) Falls"
| exit: "may ret (SExit sp) Exits"
| return: "may ret (SReturn x sp) Returns"
| raise: "may ret (SRaise x sp) Raises"
| retry: "may ret (SRetry sp) Retries"
| if_arm: "(c, b) \<in> set arms \<Longrightarrow> may_seq ret b e \<Longrightarrow> may ret (SIf arms els sp) e"
| if_else: "may_seq ret b e \<Longrightarrow> may ret (SIf arms (Some b) sp) e"
| if_skip: "may ret (SIf arms None sp) Falls"
| case_arm: "CaseArm ls b asp \<in> set arms \<Longrightarrow> may_seq ret b e \<Longrightarrow> may ret (SCase x arms els sp) e"
| case_else: "may_seq ret b e \<Longrightarrow> may ret (SCase x arms (Some b) sp) e"
| guard_arm: "GuardArm y ysp ty b asp \<in> set arms \<Longrightarrow> may_seq ret b e \<Longrightarrow> may ret (SGuard x arms els sp) e"
| guard_else: "may_seq ret b e \<Longrightarrow> may ret (SGuard x arms (Some b) sp) e"
| while_end: "may ret (SWhile c b sp) Falls"
| while_body: "may_seq ret b e \<Longrightarrow> e \<noteq> Falls \<Longrightarrow> e \<noteq> Exits \<Longrightarrow> may ret (SWhile c b sp) e"
| repeat_end: "may_seq ret b e \<Longrightarrow> e = Falls \<or> e = Exits \<Longrightarrow> may ret (SRepeat b c sp) Falls"
| repeat_body: "may_seq ret b e \<Longrightarrow> e \<noteq> Falls \<Longrightarrow> e \<noteq> Exits \<Longrightarrow> may ret (SRepeat b c sp) e"
| for_end: "may ret (SFor v lo hi st b sp) Falls"
| for_body: "may_seq ret b e \<Longrightarrow> e \<noteq> Falls \<Longrightarrow> e \<noteq> Exits \<Longrightarrow> may ret (SFor v lo hi st b sp) e"
| loop_exit: "may_seq ret b Exits \<Longrightarrow> may ret (SLoop b sp) Falls"
| loop_body: "may_seq ret b e \<Longrightarrow> e \<noteq> Falls \<Longrightarrow> e \<noteq> Exits \<Longrightarrow> may ret (SLoop b sp) e"
| with_body: "may_seq ret b e \<Longrightarrow> may ret (SWith d b sp) e"
| block_stop: "may_seq ret b e \<Longrightarrow> e \<noteq> Falls \<Longrightarrow> may ret (SBlock (Block b ex fin bsp)) e"
| block_end: "may_seq ret b Falls \<Longrightarrow> may ret (SBlock (Block b ex None bsp)) Falls"
| block_finally: "may_seq ret b Falls \<Longrightarrow> may_seq ret f e \<Longrightarrow> may ret (SBlock (Block b ex (Some f) bsp)) e"

text \<open>
  A procedure body falls off its end when its statements do, or when they raise and the handlers, which run
  one after the other, do.
\<close>

fun handler_stmts :: "except_arm \<Rightarrow> stmt list" where
  "handler_stmts (ExceptArm qs b sp) = b"

definition body_may_fall :: "(expr \<Rightarrow> bool) \<Rightarrow> proc_body \<Rightarrow> bool" where
  "body_may_fall ret body = (case body of ProcBody ds (Block ss ex fin sp) \<Rightarrow>
     may_seq ret ss Falls \<or>
     ex \<noteq> [] \<and> (may_seq ret ss Raises \<or> may_seq ret ss Faults) \<and> may_seq ret (concat (map handler_stmts ex)) Falls)"

section \<open>The checks are safe\<close>

text \<open>The calls the checks take for ones that do not return really do not.\<close>

definition noreturn_ok :: "(expr \<Rightarrow> bool) \<Rightarrow> bool" where
  "noreturn_ok ret \<longleftrightarrow> (\<forall>e. is_noreturn_call e \<longrightarrow> \<not> ret e)"

text \<open>Statements without nested blocks, the ones the parser builds.\<close>

fun blockless :: "stmt \<Rightarrow> bool" where
  "blockless (SBlock b) = False"
| "blockless (SIf arms els sp) =
     (list_all (\<lambda>(c, b). list_all blockless b) arms \<and> (case els of None \<Rightarrow> True | Some b \<Rightarrow> list_all blockless b))"
| "blockless (SCase e arms els sp) =
     (list_all (\<lambda>a. case a of CaseArm ls b asp \<Rightarrow> list_all blockless b) arms \<and>
      (case els of None \<Rightarrow> True | Some b \<Rightarrow> list_all blockless b))"
| "blockless (SGuard e arms els sp) =
     (list_all (\<lambda>a. case a of GuardArm x xsp ty b asp \<Rightarrow> list_all blockless b) arms \<and>
      (case els of None \<Rightarrow> True | Some b \<Rightarrow> list_all blockless b))"
| "blockless (SWhile c b sp) = list_all blockless b"
| "blockless (SRepeat b c sp) = list_all blockless b"
| "blockless (SFor x lo hi st b sp) = list_all blockless b"
| "blockless (SLoop b sp) = list_all blockless b"
| "blockless (SWith d b sp) = list_all blockless b"
| "blockless s = True"

lemma may_checked:
  assumes "noreturn_ok ret"
  shows "may ret s e \<Longrightarrow> blockless s \<Longrightarrow> (e = Exits \<longrightarrow> stmt_has_exit s) \<and> (e = Falls \<longrightarrow> stmt_completes s)"
    and "may_seq ret ss e \<Longrightarrow> list_all blockless ss \<Longrightarrow> (e = Exits \<longrightarrow> list_ex stmt_has_exit ss) \<and> (e = Falls \<longrightarrow> list_all stmt_completes ss)"
proof (induction rule: may_may_seq.inducts)
  case (call x sp)
  then show ?case using assms by (auto simp: noreturn_ok_def)
next
  case (if_arm c b arms e els sp)
  then show ?case by (auto simp: list_ex_iff list_all_iff split: option.splits intro!: bexI [of _ "(c, b)"])
next
  case (case_arm ls b asp arms e x els sp)
  then show ?case by (auto simp: list_ex_iff list_all_iff intro!: bexI [of _ "CaseArm ls b asp"])
next
  case (guard_arm y ysp ty b asp arms e x els sp)
  then show ?case by (auto simp: list_ex_iff list_all_iff intro!: bexI [of _ "GuardArm y ysp ty b asp"])
qed (auto simp: loop_has_exit_def)

lemma first_hit_None: "first_hit hs = None \<longleftrightarrow> (\<forall>h \<in> set hs. h = None)"
  by (induction hs rule: first_hit.induct) auto

text \<open>Endings that stay in the arm: falling through, a fault, and an exit of a loop of the arm.\<close>

definition stays :: "nat \<Rightarrow> ending \<Rightarrow> bool" where
  "stays d e \<longleftrightarrow> e = Falls \<or> e = Faults \<or> e = Exits \<and> 0 < d"

lemma may_scanned:
  "may ret s e \<Longrightarrow> scan_stmt d s = None \<Longrightarrow> stays d e"
  "may_seq ret ss e \<Longrightarrow> \<forall>s \<in> set ss. scan_stmt d s = None \<Longrightarrow> stays d e"
proof (induction arbitrary: d and d rule: may_may_seq.inducts)
  case (while_body b e c sp)
  then have "stays (d + 1) e" by (simp add: first_hit_None)
  then show ?case using while_body.hyps by (simp add: stays_def)
next
  case (repeat_body b e c sp)
  then have "stays (d + 1) e" by (simp add: first_hit_None)
  then show ?case using repeat_body.hyps by (simp add: stays_def)
next
  case (for_body b e v lo hi st sp)
  then have "stays (d + 1) e" by (simp add: first_hit_None)
  then show ?case using for_body.hyps by (simp add: stays_def)
next
  case (loop_body b e sp)
  then have "stays (d + 1) e" by (simp add: first_hit_None)
  then show ?case using loop_body.hyps by (simp add: stays_def)
next
  case (if_arm c b arms e els sp)
  then show ?case by (fastforce simp: first_hit_None)
next
  case (case_arm ls b asp arms e x els sp)
  then show ?case by (fastforce simp: first_hit_None)
next
  case (guard_arm y ysp ty b asp arms e x els sp)
  then show ?case by (fastforce simp: first_hit_None)
qed (auto simp: first_hit_None stays_def split: if_splits)



text \<open>
  C2: With handlers it is not safe: a function whose only statement is RETURN and whose EXCEPT part is
  empty is accepted, and falls off its end without a result when the returned expression faults.\<close>

theorem handled_function_falls_off:
  "\<exists>body. \<not> reports_missing_return True body \<and> body_may_fall ret body"
proof -
  let ?sp = "\<lparr>span_start = START, span_end = START\<rparr>"
  let ?b = "ProcBody [] (Block [SReturn (Some (ENil ?sp)) ?sp] [ExceptArm [] [] ?sp] None ?sp)"
  have "may_seq ret [SReturn (Some (ENil ?sp)) ?sp] Faults" by (rule seq_stop [OF fault]) simp
  then have "body_may_fall ret ?b" by (simp add: body_may_fall_def seq_end)
  then show ?thesis by (intro exI [of _ ?b]) (simp add: reports_missing_return_def seq_completes_def)
qed



end
