(* ===== verification/TypeRules.thy ===== *)
theory TypeRules
  imports Types Classes
begin

text \<open>
  The type rules of the analyzer (\<open>newm2-sema/src/analyze.rs\<close>): sizes of types, the families the checks
  ask for, compatibility of types and of expressions with types, conversions by VAL. Recursion along handles
  has no bound in the code, so the outer option says whether a call returns; the sum holds the panic of a
  dangling handle.
\<close>

section \<open>Answers\<close>

type_synonym 'a answer = "(type_panic + 'a) option"

definition answer :: "'a \<Rightarrow> 'a answer" where
  "answer x = Some (Inr x)"

definition abind :: "'a answer \<Rightarrow> ('a \<Rightarrow> 'b answer) \<Rightarrow> 'b answer" where
  "abind m f = Option.bind m (\<lambda>r. case r of Inl e \<Rightarrow> Some (Inl e) | Inr x \<Rightarrow> f x)"

lemma abind_simps [simp]: "abind (Some (Inl e)) f = Some (Inl e)" "abind (Some (Inr x)) f = f x" "abind None f = None"
  "abind (answer x) f = f x"
  by (simp_all add: abind_def answer_def)

lemma abind_mono [partial_function_mono]:
  assumes "mono_option m" "\<And>x. mono_option (\<lambda>g. f x g)"
  shows "mono_option (\<lambda>g. abind (m g) (\<lambda>x. f x g))"
  unfolding abind_def
  using assms(2) by (intro bind_mono [OF assms(1)]) (auto split: sum.split simp: monotone_def flat_ord_def)

definition kind_of :: "type_arena \<Rightarrow> type_id \<Rightarrow> type_kind answer" where
  "kind_of a ty = (case type_get a ty of None \<Rightarrow> Some (Inl IndexOutOfBounds) | Some k \<Rightarrow> Some (Inr k))"

section \<open>Sizes\<close>

definition builtin_size_bytes :: "builtin \<Rightarrow> int option" where
  "builtin_size_bytes b = Some
     (if b \<in> {BBoolean, BByte, BSysByte, BSysLoc, BAchar, BInteger8, BCardinal8} then 1
      else if b \<in> {BChar, BUchar, BInteger16, BCardinal16, BWord, BReal16} then 2
      else if b \<in> {BInteger32, BCardinal32, BDword, BReal32} then 4
      else if b \<in> {BComplex, BLongComplex} then 16
      else if b \<in> {BBitset, BSysBitset} then 32
      else 8)"

text \<open>The loop over the index types: counts are multiplied up, with a check at each step.\<close>

fun count_product :: "type_arena \<Rightarrow> type_id list \<Rightarrow> int \<Rightarrow> int option answer" where
  "count_product a [] n = answer (Some n)"
| "count_product a (i # is) n = abind (ordinal_cardinality a i) (\<lambda>c.
     case c of None \<Rightarrow> answer None
     | Some k \<Rightarrow> (case checked (n * k) of None \<Rightarrow> answer None | Some m \<Rightarrow> count_product a is m))"

partial_function (option) type_size_bytes :: "type_arena \<Rightarrow> type_id \<Rightarrow> int option answer" where
  "type_size_bytes a ty = abind (kind_of a ty) (\<lambda>k.
     case k of
       TkBuiltin b \<Rightarrow> answer (builtin_size_bytes b)
     | TkSubrange host lo hi \<Rightarrow> type_size_bytes a host
     | TkEnum n ns vs \<Rightarrow> answer (Some 4)
     | TkPointer b \<Rightarrow> answer (Some 8)
     | TkProc ps r \<Rightarrow> answer (Some 8)
     | TkSet p b \<Rightarrow> answer (Some 32)
     | TkArray is base \<Rightarrow> abind (type_size_bytes a base) (\<lambda>s.
         case s of None \<Rightarrow> answer None
         | Some sz \<Rightarrow> abind (count_product a is 1) (\<lambda>c.
             case c of None \<Rightarrow> answer None | Some n \<Rightarrow> answer (checked (n * sz))))
     | TkVector lanes base \<Rightarrow> abind (type_size_bytes a base) (\<lambda>s.
         case s of None \<Rightarrow> answer None | Some sz \<Rightarrow> answer (checked (sz * int (unat lanes))))
     | _ \<Rightarrow> answer None)"

text \<open>The multiplication by 8 of \<open>TBITSIZE\<close> is unchecked: it panics where it leaves 128 bits.\<close>

definition type_builtin_value :: "type_arena \<Rightarrow> string \<Rightarrow> type_id \<Rightarrow> int option answer" where
  "type_builtin_value a fname ty =
     (if fname = ''MAX'' then abind (ordinal_bounds a ty) (\<lambda>b. answer (map_option snd b))
      else if fname = ''MIN'' then abind (ordinal_bounds a ty) (\<lambda>b. answer (map_option fst b))
      else if fname \<in> {''SIZE'', ''TSIZE''} then type_size_bytes a ty
      else if fname = ''TBITSIZE'' then abind (type_size_bytes a ty) (\<lambda>s.
        case s of None \<Rightarrow> answer None
        | Some n \<Rightarrow> (case checked (n * 8) of None \<Rightarrow> Some (Inl ArithmeticOverflow) | Some m \<Rightarrow> answer (Some m)))
      else answer None)"

section \<open>Families of types\<close>

definition whole_builtins :: "builtin set" where
  "whole_builtins = {BInteger, BLongInt, BInteger8, BInteger16, BInteger32, BInteger64,
     BCardinal, BLongCard, BCardinal8, BCardinal16, BCardinal32, BCardinal64, BByte, BWord, BDword, BQword}"

definition char_builtins :: "builtin set" where
  "char_builtins = {BChar, BUchar, BAchar}"

definition builtin_in :: "builtin set \<Rightarrow> type_kind \<Rightarrow> bool" where
  "builtin_in B k = (case k of TkBuiltin b \<Rightarrow> b \<in> B | _ \<Rightarrow> False)"

definition enum_or_subrange :: "type_kind \<Rightarrow> bool" where
  "enum_or_subrange k = (case k of TkEnum n ns vs \<Rightarrow> True | TkSubrange h lo hi \<Rightarrow> True | _ \<Rightarrow> False)"

definition is_vector_kind :: "type_kind \<Rightarrow> bool" where
  "is_vector_kind k = (case k of TkVector l b \<Rightarrow> True | _ \<Rightarrow> False)"

definition on_kind :: "type_arena \<Rightarrow> type_id \<Rightarrow> (type_kind \<Rightarrow> bool) \<Rightarrow> bool answer" where
  "on_kind a ty P = abind (kind_of a ty) (\<lambda>k. answer (P k))"

definition is_boolean_type :: "type_arena \<Rightarrow> type_id \<Rightarrow> bool answer" where
  "is_boolean_type a ty = on_kind a ty (builtin_in {BBoolean})"

definition integer_family_kind :: "type_kind \<Rightarrow> bool" where
  "integer_family_kind k \<longleftrightarrow> enum_or_subrange k \<or>
     builtin_in (whole_builtins \<union> {BSysWord, BSysByte, BSysLoc, BAdrint, BAdrcard, BAddress, BSysAddress}) k"

definition is_integer_family_type :: "type_arena \<Rightarrow> type_id \<Rightarrow> bool answer" where
  "is_integer_family_type a ty = on_kind a ty integer_family_kind"

definition is_ordinal_type :: "type_arena \<Rightarrow> type_id \<Rightarrow> bool answer" where
  "is_ordinal_type a ty = on_kind a ty (\<lambda>k. integer_family_kind k \<or> builtin_in (char_builtins \<union> {BBoolean}) k)"

definition numeric_kind :: "type_kind \<Rightarrow> bool" where
  "numeric_kind k \<longleftrightarrow> is_vector_kind k \<or> enum_or_subrange k \<or>
     builtin_in (whole_builtins \<union> {BAddress, BSysAddress, BAdrint, BAdrcard, BReal, BLongReal, BReal32, BReal16,
       BComplex, BLongComplex}) k"

definition is_numeric_type :: "type_arena \<Rightarrow> type_id \<Rightarrow> bool answer" where
  "is_numeric_type a ty = on_kind a ty numeric_kind"

definition is_scalar_convertible_type :: "type_arena \<Rightarrow> type_id \<Rightarrow> bool answer" where
  "is_scalar_convertible_type a ty = on_kind a ty (\<lambda>k. integer_family_kind k \<or> builtin_in (char_builtins \<union> {BBoolean}) k \<or>
     numeric_kind k \<or> (case k of TkPointer b \<Rightarrow> True | _ \<Rightarrow> False) \<or> builtin_in {BReal, BLongReal} k)"

definition is_vector_type :: "type_arena \<Rightarrow> type_id \<Rightarrow> bool answer" where
  "is_vector_type a ty = on_kind a ty is_vector_kind"

definition is_real_type :: "type_arena \<Rightarrow> type_id \<Rightarrow> bool answer" where
  "is_real_type a ty = on_kind a ty (builtin_in {BReal, BLongReal, BReal32, BReal16})"

definition is_set_type :: "type_arena \<Rightarrow> type_id \<Rightarrow> bool answer" where
  "is_set_type a ty = on_kind a ty (\<lambda>k. (case k of TkSet p b \<Rightarrow> True | _ \<Rightarrow> False) \<or> builtin_in {BBitset, BSysBitset} k)"

definition array_element :: "type_kind \<Rightarrow> type_id option" where
  "array_element k = (case k of TkArray is b \<Rightarrow> Some b | TkOpenArray b \<Rightarrow> Some b | _ \<Rightarrow> None)"

definition is_char_or_string_type :: "type_arena \<Rightarrow> type_id \<Rightarrow> bool answer" where
  "is_char_or_string_type a ty = abind (kind_of a ty) (\<lambda>k.
     if builtin_in char_builtins k then answer True
     else case array_element k of None \<Rightarrow> answer False | Some b \<Rightarrow> on_kind a b (builtin_in char_builtins))"

partial_function (option) is_scalar_char_type :: "type_arena \<Rightarrow> type_id \<Rightarrow> bool answer" where
  "is_scalar_char_type a ty = abind (kind_of a ty) (\<lambda>k.
     case k of
       TkSubrange host lo hi \<Rightarrow> is_scalar_char_type a host
     | _ \<Rightarrow> answer (builtin_in char_builtins k))"

section \<open>Compatibility of types\<close>

text \<open>
  The arms of \<open>types_compatible\<close>: an answer, a comparison of two other types, or the question whether one
  class is a subclass of another.
\<close>

datatype compat_rule = CrAnswer bool | CrCompare type_id type_id | CrSubclass class_symbol_id class_symbol_id

definition compat_rule_of :: "type_id \<Rightarrow> type_id \<Rightarrow> type_kind \<Rightarrow> type_kind \<Rightarrow> compat_rule" where
  "compat_rule_of lhs rhs l r =
     (case (l, r) of
        (TkBuiltin a, TkBuiltin b) \<Rightarrow> CrAnswer (is_same_family a b)
      | (TkSet p a, TkSet q b) \<Rightarrow> CrCompare a b
      | (TkBuiltin b, TkSet p a) \<Rightarrow> CrAnswer (b \<in> {BBitset, BSysBitset})
      | (TkSet p a, TkBuiltin b) \<Rightarrow> CrAnswer (b \<in> {BBitset, BSysBitset})
      | (TkEnum n a vs, TkEnum m b ws) \<Rightarrow> CrAnswer (a = b)
      | (TkPointer a, TkBuiltin b) \<Rightarrow> CrAnswer (b \<in> {BNil, BAddress, BSysAddress})
      | (TkBuiltin b, TkPointer a) \<Rightarrow> CrAnswer (b \<in> {BNil, BAddress, BSysAddress})
      | (TkPointer a, TkPointer b) \<Rightarrow> CrCompare a b
      | (TkProc ps x, TkProc qs y) \<Rightarrow>
          CrAnswer (x = y \<and> length ps = length qs \<and>
            list_all (\<lambda>(p, q). pp_mode p = pp_mode q \<and> pp_ty p = pp_ty q) (zip ps qs))
      | (TkProc ps x, TkBuiltin b) \<Rightarrow> CrAnswer (b = BProc)
      | (TkBuiltin b, TkProc ps x) \<Rightarrow> CrAnswer (b = BProc)
      | (TkOpenArray e, TkOpenArray a) \<Rightarrow> CrCompare e a
      | (TkOpenArray e, TkArray is a) \<Rightarrow> CrCompare e a
      | (TkClass x, TkClass y) \<Rightarrow> CrSubclass y x
      | (TkClass x, TkBuiltin b) \<Rightarrow> CrAnswer (b \<in> {BNil, BAddress, BSysAddress})
      | (TkBuiltin b, TkClass x) \<Rightarrow> CrAnswer (b \<in> {BNil, BAddress, BSysAddress})
      | (TkSubrange host lo hi, _) \<Rightarrow> CrCompare host rhs
      | (_, TkSubrange host lo hi) \<Rightarrow> CrCompare lhs host
      | _ \<Rightarrow> CrAnswer False)"

partial_function (option) types_compatible :: "type_arena \<Rightarrow> class_arena \<Rightarrow> type_id \<Rightarrow> type_id \<Rightarrow> bool answer" where
  "types_compatible a cl lhs rhs =
     (if lhs = rhs then answer True
      else abind (kind_of a lhs) (\<lambda>l. abind (kind_of a rhs) (\<lambda>r.
        case compat_rule_of lhs rhs l r of
          CrAnswer b \<Rightarrow> answer b
        | CrCompare x y \<Rightarrow> types_compatible a cl x y
        | CrSubclass x y \<Rightarrow> class_is_subclass cl x y)))"

section \<open>Compatibility of expressions\<close>

definition any_of :: "bool answer \<Rightarrow> bool answer \<Rightarrow> bool answer" where
  "any_of m n = abind m (\<lambda>b. if b then answer True else n)"

definition both_of :: "bool answer \<Rightarrow> bool answer \<Rightarrow> bool answer" where
  "both_of m n = abind m (\<lambda>b. if b then n else answer False)"

text \<open>The second block of \<open>expr_compatible_with_type\<close>: an array is expected.\<close>

definition array_expected :: "type_arena \<Rightarrow> class_arena \<Rightarrow> type_id \<Rightarrow> type_id \<Rightarrow> bool answer" where
  "array_expected a cl expected actual = abind (kind_of a expected) (\<lambda>ek.
     case array_element ek of
       None \<Rightarrow> answer False
     | Some eb \<Rightarrow> abind (kind_of a actual) (\<lambda>ak.
         case array_element ak of
           Some b \<Rightarrow> types_compatible a cl eb b
         | None \<Rightarrow> abind (kind_of a eb) (\<lambda>k. answer (builtin_in char_builtins k \<and> builtin_in char_builtins ak))))"

definition flavor_fits :: "literal_flavor \<Rightarrow> type_kind \<Rightarrow> bool" where
  "flavor_fits f k = (case f of
     FlavorDefault \<Rightarrow> builtin_in char_builtins k
   | FlavorAchar \<Rightarrow> builtin_in {BChar, BAchar} k
   | FlavorUchar \<Rightarrow> builtin_in {BUchar} k)"

definition literal_fits :: "type_arena \<Rightarrow> literal_flavor \<Rightarrow> type_id \<Rightarrow> bool answer" where
  "literal_fits a f expected = abind (kind_of a expected) (\<lambda>k.
     case array_element k of None \<Rightarrow> answer False | Some b \<Rightarrow> on_kind a b (flavor_fits f))"

definition literal_compatible :: "type_arena \<Rightarrow> type_id \<Rightarrow> expr \<Rightarrow> bool answer" where
  "literal_compatible a expected e =
     (case e of
        EInteger v sp \<Rightarrow> is_integer_family_type a expected
      | EReal v sp \<Rightarrow> is_real_type a expected
      | EUnary op inner sp \<Rightarrow>
          (case inner of
             EReal v rsp \<Rightarrow> (if op \<in> {OpNeg, OpPos} then is_real_type a expected else answer False)
           | _ \<Rightarrow> answer False)
      | EString lit sp \<Rightarrow> literal_fits a (str_flavor lit) expected
      | EChar c sp \<Rightarrow> literal_fits a (char_flavor c) expected
      | _ \<Rightarrow> answer False)"

definition expr_compatible_with_type :: "type_arena \<Rightarrow> class_arena \<Rightarrow> type_id \<Rightarrow> expr \<Rightarrow> type_id \<Rightarrow> bool answer" where
  "expr_compatible_with_type a cl expected e actual =
     any_of (types_compatible a cl expected actual)
     (any_of (both_of (is_integer_family_type a expected) (is_integer_family_type a actual))
     (any_of (array_expected a cl expected actual)
        (literal_compatible a expected e)))"

definition is_integer_literal :: "expr \<Rightarrow> bool" where
  "is_integer_literal e = (case e of EInteger v sp \<Rightarrow> True | _ \<Rightarrow> False)"

section \<open>Conversions by VAL\<close>

datatype val_class = VsWhole | VsReal | VsChar | VsBoolean | VsEnumeration

definition builtin_val_class :: "builtin \<Rightarrow> val_class option" where
  "builtin_val_class b =
     (if b \<in> whole_builtins \<union> {BSysWord, BSysByte, BSysLoc, BBitset, BSysBitset} then Some VsWhole
      else if b \<in> {BReal, BLongReal, BReal32, BReal16} then Some VsReal
      else if b \<in> char_builtins then Some VsChar
      else if b = BBoolean then Some VsBoolean
      else None)"

partial_function (option) val_scalar_class :: "type_arena \<Rightarrow> type_id \<Rightarrow> val_class option answer" where
  "val_scalar_class a ty = abind (kind_of a ty) (\<lambda>k.
     case k of
       TkSubrange host lo hi \<Rightarrow> val_scalar_class a host
     | TkEnum n ns vs \<Rightarrow> answer (Some VsEnumeration)
     | TkSet p b \<Rightarrow> answer (Some VsWhole)
     | TkBuiltin b \<Rightarrow> answer (builtin_val_class b)
     | _ \<Rightarrow> answer None)"

definition is_val_pointer_like :: "type_arena \<Rightarrow> type_id \<Rightarrow> bool answer" where
  "is_val_pointer_like a ty = on_kind a ty (\<lambda>k.
     (case k of TkPointer b \<Rightarrow> True | TkProc ps r \<Rightarrow> True | _ \<Rightarrow> False) \<or>
     builtin_in {BProc, BAddress, BSysAddress, BAdrint, BAdrcard, BNil} k)"

fun class_converts :: "val_class \<Rightarrow> val_class \<Rightarrow> bool" where
  "class_converts VsWhole s = True"
| "class_converts VsReal s = (s \<in> {VsWhole, VsReal})"
| "class_converts VsChar s = (s \<in> {VsWhole, VsChar})"
| "class_converts VsBoolean s = (s \<in> {VsWhole, VsBoolean})"
| "class_converts VsEnumeration s = (s \<in> {VsWhole, VsEnumeration})"

definition is_whole :: "val_class option answer \<Rightarrow> bool answer" where
  "is_whole m = abind m (\<lambda>c. answer (c = Some VsWhole))"

definition val_conversion_allowed :: "type_arena \<Rightarrow> type_id \<Rightarrow> type_id \<Rightarrow> bool answer" where
  "val_conversion_allowed a target source =
     abind (is_val_pointer_like a target) (\<lambda>tp.
     abind (is_val_pointer_like a source) (\<lambda>sp.
       if tp \<and> sp then answer True
       else if tp then is_whole (val_scalar_class a source)
       else if sp then is_whole (val_scalar_class a target)
       else abind (val_scalar_class a target) (\<lambda>t.
         case t of
           None \<Rightarrow> answer False
         | Some tc \<Rightarrow> abind (val_scalar_class a source) (\<lambda>s.
             case s of None \<Rightarrow> answer False | Some sc \<Rightarrow> answer (class_converts tc sc)))))"

end
