(* ===== verification/TypeRulesSpec.thy ===== *)
theory TypeRulesSpec
  imports TypeRules TypesSpec
begin

text \<open>
  What the type rules amount to: compatibility does not see subranges, is symmetric apart from open arrays
  and classes, and is decided on every pair of types without endless chains of components; sizes of arrays
  are exact or absent.
\<close>

section \<open>Subranges\<close>

definition is_subrange :: "type_kind \<Rightarrow> bool" where
  "is_subrange k = (case k of TkSubrange h lo hi \<Rightarrow> True | _ \<Rightarrow> False)"

lemma is_subrange_simps [simp]: "is_subrange (TkSubrange h lo hi)"
  by (simp add: is_subrange_def)

text \<open>The type under a chain of subranges.\<close>

inductive root_of :: "type_arena \<Rightarrow> type_id \<Rightarrow> type_id \<Rightarrow> bool" for a where
  here: "type_get a t = Some k \<Longrightarrow> \<not> is_subrange k \<Longrightarrow> root_of a t t"
| host: "type_get a t = Some (TkSubrange h lo hi) \<Longrightarrow> root_of a h r \<Longrightarrow> root_of a t r"

lemma root_of_subrange: "type_get a t = Some (TkSubrange h lo hi) \<Longrightarrow> root_of a t r = root_of a h r"
  by (subst root_of.simps) simp

lemma root_of_other: "type_get a t = Some k \<Longrightarrow> \<not> is_subrange k \<Longrightarrow> root_of a t r = (r = t)"
  by (subst root_of.simps) auto

lemma root_of_unique: "root_of a t r \<Longrightarrow> root_of a t s \<Longrightarrow> r = s"
  by (induction rule: root_of.induct) (simp_all add: root_of_subrange root_of_other)

lemma root_of_host: "root_of a t r \<Longrightarrow> type_get a t = Some (TkSubrange h lo hi) \<Longrightarrow> root_of a h r"
  by (simp add: root_of_subrange)

lemma root_of_present: "root_of a t r \<Longrightarrow> \<exists>k. type_get a t = Some k"
  by (erule root_of.cases) auto

lemma types_compatible_same: "types_compatible a cl t t = answer True"
  by (subst types_compatible.simps) simp

lemma kind_of_present: "type_get a t = Some k \<Longrightarrow> kind_of a t = Some (Inr k)"
  by (simp add: kind_of_def)

lemma types_compatible_rule:
  "lhs \<noteq> rhs \<Longrightarrow> type_get a lhs = Some l \<Longrightarrow> type_get a rhs = Some r \<Longrightarrow>
   types_compatible a cl lhs rhs = (case compat_rule_of lhs rhs l r of
     CrAnswer b \<Rightarrow> answer b | CrCompare x y \<Rightarrow> types_compatible a cl x y | CrSubclass x y \<Rightarrow> class_is_subclass cl x y)"
  by (subst types_compatible.simps) (simp add: kind_of_present)

lemma compat_rule_subrange_left: "compat_rule_of lhs rhs (TkSubrange h lo hi) r = CrCompare h rhs"
  by (cases r) (simp_all add: compat_rule_of_def)

lemma compat_rule_subrange_right:
  "\<not> is_subrange l \<Longrightarrow> compat_rule_of lhs rhs l (TkSubrange h lo hi) = CrCompare lhs h"
  by (cases l) (simp_all add: compat_rule_of_def)

lemma compatible_host_left:
  "type_get a l = Some (TkSubrange h lo hi) \<Longrightarrow> l \<noteq> r \<Longrightarrow> type_get a r = Some k \<Longrightarrow>
   types_compatible a cl l r = types_compatible a cl h r"
  by (simp add: types_compatible_rule compat_rule_subrange_left)

lemma compatible_host_right:
  "type_get a l = Some k \<Longrightarrow> \<not> is_subrange k \<Longrightarrow> type_get a r = Some (TkSubrange h lo hi) \<Longrightarrow>
   types_compatible a cl l r = types_compatible a cl l h"
  by (subst types_compatible_rule) (auto simp: compat_rule_subrange_right)

lemma compatible_roots:
  "root_of a l k \<Longrightarrow> root_of a r m \<Longrightarrow> types_compatible a cl l r = types_compatible a cl k m"
proof (induction rule: root_of.induct)
  case (here l k)
  from here.prems show ?case
  proof (induction rule: root_of.induct)
    case (host r h lo hi m)
    then show ?case using compatible_host_right [OF here.hyps] by simp
  qed simp
next
  case (host l h lo hi k)
  obtain x where x: "type_get a r = Some x" using root_of_present [OF host.prems] by blast
  show ?case
  proof (cases "l = r")
    case True
    then have "k = m" using root_of_unique [OF root_of_host [OF host.prems]] host.hyps by simp
    then show ?thesis using True by (simp add: types_compatible_same)
  next
    case False
    then show ?thesis using compatible_host_left [OF host.hyps(1) False x] host.IH host.prems by simp
  qed
qed

section \<open>Symmetry\<close>

lemma same_family_symmetric: "is_same_family a b \<Longrightarrow> is_same_family b a"
  by (auto simp: is_same_family_def Let_def)

lemma same_params_symmetric:
  "length ps = length qs \<Longrightarrow> list_all (\<lambda>(p, q). pp_mode p = pp_mode q \<and> pp_ty p = pp_ty q) (zip ps qs) \<Longrightarrow>
   list_all (\<lambda>(p, q). pp_mode p = pp_mode q \<and> pp_ty p = pp_ty q) (zip qs ps)"
  by (induction ps qs rule: list_induct2) auto

lemma answer_symmetric:
  "compat_rule_of lhs rhs l r = CrAnswer True \<Longrightarrow> compat_rule_of rhs lhs r l = CrAnswer True"
  by (cases l; cases r) (auto simp: compat_rule_of_def same_family_symmetric same_params_symmetric)

text \<open>Neither an open array nor a class: the two rules that read their sides apart.\<close>

definition two_way :: "type_kind \<Rightarrow> bool" where
  "two_way k = (case k of TkOpenArray b \<Rightarrow> False | TkClass c \<Rightarrow> False | _ \<Rightarrow> True)"

lemma compare_symmetric:
  assumes "compat_rule_of lhs rhs l r = CrCompare x y" "two_way l" "two_way r"
  obtains "compat_rule_of rhs lhs r l = CrCompare y x"
  | lo hi where "l = TkSubrange x lo hi" "y = rhs"
  | lo hi where "r = TkSubrange y lo hi" "x = lhs"
  using assms by (cases l; cases r) (auto simp: compat_rule_of_def two_way_def split: if_splits)

lemma two_way_no_subclass: "two_way l \<Longrightarrow> compat_rule_of lhs rhs l r \<noteq> CrSubclass x y"
  by (cases l; cases r) (auto simp: compat_rule_of_def two_way_def)

definition rooted :: "type_arena \<Rightarrow> bool" where
  "rooted a \<longleftrightarrow> (\<forall>t k. type_get a t = Some k \<longrightarrow> two_way k \<and> (\<exists>r. root_of a t r))"

definition compat_flips :: "type_arena \<Rightarrow> class_arena \<Rightarrow> type_id \<Rightarrow> type_id \<Rightarrow> type_panic + bool \<Rightarrow> bool" where
  "compat_flips a cl lhs rhs r \<longleftrightarrow> (rooted a \<longrightarrow> r = Inr True \<longrightarrow> types_compatible a cl rhs lhs = answer True)"

lemma compatible_flips: "types_compatible a cl lhs rhs = Some r \<Longrightarrow> compat_flips a cl lhs rhs r"
proof (erule types_compatible.raw_induct [rotated])
  fix f :: "type_arena \<Rightarrow> class_arena \<Rightarrow> type_id \<Rightarrow> type_id \<Rightarrow> bool answer" and a cl lhs rhs res
  assume ih: "\<And>a cl lhs rhs res. f a cl lhs rhs = Some res \<Longrightarrow> compat_flips a cl lhs rhs res"
    and f: "(if lhs = rhs then answer True
      else abind (kind_of a lhs) (\<lambda>l. abind (kind_of a rhs) (\<lambda>r.
        case compat_rule_of lhs rhs l r of
          CrAnswer b \<Rightarrow> answer b
        | CrCompare x y \<Rightarrow> f a cl x y
        | CrSubclass x y \<Rightarrow> class_is_subclass cl x y))) = Some res"
  show "compat_flips a cl lhs rhs res"
    unfolding compat_flips_def
  proof (intro impI)
    assume a: "rooted a" and res: "res = Inr True"
    show "types_compatible a cl rhs lhs = answer True"
    proof (cases "lhs = rhs")
      case True
      then show ?thesis by (simp add: types_compatible_same)
    next
      case ne: False
      obtain l r where k: "type_get a lhs = Some l" "type_get a rhs = Some r"
        using f ne res by (auto simp: kind_of_def split: option.splits)
      have tw: "two_way l" "two_way r" and roots: "\<exists>x. root_of a lhs x" "\<exists>x. root_of a rhs x"
        using a k by (auto simp: rooted_def)
      have step: "(case compat_rule_of lhs rhs l r of CrAnswer b \<Rightarrow> answer b | CrCompare x y \<Rightarrow> f a cl x y
          | CrSubclass x y \<Rightarrow> class_is_subclass cl x y) = Some (Inr True)"
        using f ne res k by (simp add: kind_of_present)
      show ?thesis
      proof (cases "compat_rule_of lhs rhs l r")
        case (CrAnswer b)
        then have "compat_rule_of rhs lhs r l = CrAnswer True" using step answer_symmetric by (simp add: answer_def)
        then show ?thesis using types_compatible_rule [OF ne [symmetric] k(2,1)] by simp
      next
        case (CrSubclass x y)
        then show ?thesis using two_way_no_subclass [OF tw(1)] by blast
      next
        case (CrCompare x y)
        then have "compat_flips a cl x y (Inr True)" using ih step by simp
        then have yx: "types_compatible a cl y x = answer True" using a by (simp add: compat_flips_def)
        from compare_symmetric [OF CrCompare tw] show ?thesis
        proof cases
          case 1
          then show ?thesis using types_compatible_rule [OF ne [symmetric] k(2,1)] yx by simp
        next
          case (2 lo hi)
          obtain p q where "root_of a lhs p" "root_of a rhs q" using roots by blast
          then show ?thesis using yx 2 k(1) compatible_roots [of a rhs q lhs p cl] compatible_roots [of a rhs q x p cl]
              root_of_host [of a lhs p x lo hi] by simp
        next
          case (3 lo hi)
          obtain p q where "root_of a lhs p" "root_of a rhs q" using roots by blast
          then show ?thesis using yx 3 k(2) compatible_roots [of a rhs q lhs p cl] compatible_roots [of a y q lhs p cl]
              root_of_host [of a rhs q y lo hi] by simp
        qed
      qed
    qed
  qed
qed


text \<open>An index type of 1 to 10, the base of a subrange of it, and a pointer.\<close>

definition sample_arena :: type_arena where
  "sample_arena = \<lparr>kinds = [TkBuiltin BInteger, TkSubrange 0 1 10, TkBuiltin BNil, TkPointer 1], builtins = Map.empty\<rparr>"

lemma sample_kinds: "type_get sample_arena 0 = Some (TkBuiltin BInteger)" "type_get sample_arena 1 = Some (TkSubrange 0 1 10)"
  "type_get sample_arena 2 = Some (TkBuiltin BNil)" "type_get sample_arena 3 = Some (TkPointer 1)"
  by (simp_all add: sample_arena_def type_get_def slot_get_def get_at_def)

lemma sample_rooted: "rooted sample_arena"
proof -
  have "two_way k \<and> (\<exists>r. root_of sample_arena t r)" if t: "type_get sample_arena t = Some k" for t k
  proof -
    have "unat t < 4" using t by (auto simp: sample_arena_def type_get_def slot_get_Some_iff)
    then consider "unat t = unat (0 :: u32)" | "unat t = unat (1 :: u32)" | "unat t = unat (2 :: u32)" | "unat t = unat (3 :: u32)"
      by (cases "unat t = 0"; cases "unat t = 1"; cases "unat t = 2") auto
    then have "t \<in> {0, 1, 2, 3}" unfolding word_unat_eq_iff [symmetric] by cases auto
    moreover have "root_of sample_arena 0 0" "root_of sample_arena 2 2" "root_of sample_arena 3 3"
      by (rule root_of.here, rule sample_kinds, simp add: is_subrange_def)+
    moreover from this have "root_of sample_arena 1 0" using sample_kinds(2) by (simp add: root_of_subrange)
    ultimately show ?thesis using t sample_kinds by (auto simp: two_way_def)
  qed
  then show ?thesis by (simp add: rooted_def)
qed


section \<open>Termination\<close>

definition component_of :: "type_arena \<Rightarrow> type_id \<Rightarrow> type_id \<Rightarrow> bool" where
  "component_of a b t \<longleftrightarrow> (\<exists>k. type_get a t = Some k \<and>
     (case k of TkSubrange h lo hi \<Rightarrow> b = h | TkSet p e \<Rightarrow> b = e | TkPointer e \<Rightarrow> b = e | TkOpenArray e \<Rightarrow> b = e
        | TkArray is e \<Rightarrow> b = e | _ \<Rightarrow> False))"

lemma compare_components:
  assumes "compat_rule_of lhs rhs l r = CrCompare x y" "type_get a lhs = Some l" "type_get a rhs = Some r"
  shows "component_of a x lhs \<and> (component_of a y rhs \<or> y = rhs) \<or> x = lhs \<and> component_of a y rhs"
  using assms by (cases l; cases r) (auto simp: compat_rule_of_def component_of_def split: if_splits)

lemma compatible_returns:
  assumes cls: "\<And>x y. class_is_subclass cl x y \<noteq> None"
  shows "Wellfounded.accp (component_of a) l \<Longrightarrow> Wellfounded.accp (component_of a) r \<Longrightarrow> types_compatible a cl l r \<noteq> None"
proof (induction arbitrary: r rule: accp.induct)
  case (accI l)
  note left = accI.IH
  from accI.prems show ?case
  proof (induction rule: accp.induct)
    case (accI r)
    show ?case
    proof (cases "l = r")
      case False
      show ?thesis
      proof (cases "type_get a l"; cases "type_get a r")
        fix lk rk assume k: "type_get a l = Some lk" "type_get a r = Some rk"
        show ?thesis
        proof (cases "compat_rule_of l r lk rk")
          case (CrCompare x y)
          have "Wellfounded.accp (component_of a) r" by (rule accp.accI) (use accI.hyps in blast)
          then show ?thesis using compare_components [OF CrCompare k] left accI types_compatible_rule [OF False k, of cl] CrCompare
            by auto
        qed (use types_compatible_rule [OF False k, of cl] cls in \<open>simp_all add: answer_def\<close>)
      qed (use False in \<open>subst types_compatible.simps; simp add: kind_of_def\<close>)+
    qed (simp add: types_compatible_same answer_def)
  qed
qed

text \<open>
  C22: On types whose chains of components end, and classes whose chains of bases end, the comparison of
  types returns.\<close>

theorem types_compatible_returns:
  assumes "\<forall>x y. class_is_subclass cl x y \<noteq> None"
    and "Wellfounded.accp (component_of a) l" "Wellfounded.accp (component_of a) r"
  shows "\<exists>res. types_compatible a cl l r = Some res"
  using compatible_returns [of cl a l r] assms by auto

theorem types_compatible_returns_witness:
  "\<exists>res. types_compatible sample_arena class_arena_new 3 1 = Some res"
proof -
  have no: "\<not> component_of sample_arena b t" if "type_get sample_arena t = Some (TkBuiltin x)" for b t x
    using that by (simp add: component_of_def)
  have 0: "Wellfounded.accp (component_of sample_arena) 0" by (rule accp.accI) (use no sample_kinds in blast)
  have 1: "Wellfounded.accp (component_of sample_arena) 1"
    by (rule accp.accI) (use 0 sample_kinds in \<open>auto simp: component_of_def\<close>)
  have 3: "Wellfounded.accp (component_of sample_arena) 3"
    by (rule accp.accI) (use 1 sample_kinds in \<open>auto simp: component_of_def\<close>)
  have "class_is_subclass class_arena_new x y \<noteq> None" for x y
    by (simp add: class_is_subclass_def class_walk.simps class_arena_new_def class_at_def slot_get_def get_at_def)
  then show ?thesis using types_compatible_returns [OF _ 3 1, of class_arena_new] by blast
qed

definition self_pointer :: "type_arena \<Rightarrow> type_id \<Rightarrow> bool" where
  "self_pointer a t \<longleftrightarrow> type_get a t = Some (TkPointer t)"

lemma self_pointers_loop: "types_compatible a cl l r = Some y \<Longrightarrow> \<not> (self_pointer a l \<and> self_pointer a r \<and> l \<noteq> r)"
proof (erule types_compatible.raw_induct [rotated])
  fix f :: "type_arena \<Rightarrow> class_arena \<Rightarrow> type_id \<Rightarrow> type_id \<Rightarrow> bool answer" and a cl lhs rhs res
  assume ih: "\<And>a cl l r res. f a cl l r = Some res \<Longrightarrow> \<not> (self_pointer a l \<and> self_pointer a r \<and> l \<noteq> r)"
    and f: "(if lhs = rhs then answer True
      else abind (kind_of a lhs) (\<lambda>l. abind (kind_of a rhs) (\<lambda>r.
        case compat_rule_of lhs rhs l r of
          CrAnswer b \<Rightarrow> answer b
        | CrCompare x y \<Rightarrow> f a cl x y
        | CrSubclass x y \<Rightarrow> class_is_subclass cl x y))) = Some res"
  show "\<not> (self_pointer a lhs \<and> self_pointer a rhs \<and> lhs \<noteq> rhs)"
  proof
    assume p: "self_pointer a lhs \<and> self_pointer a rhs \<and> lhs \<noteq> rhs"
    then have "f a cl lhs rhs = Some res" using f by (auto simp: self_pointer_def kind_of_present compat_rule_of_def)
    then show False using ih p by blast
  qed
qed

text \<open>
  C3: Two pointer types that each point to themselves send the comparison into endless recursion.\<close>

theorem self_pointer_types_diverge:
  "let a = \<lparr>kinds = [TkPointer 0, TkPointer 1], builtins = Map.empty\<rparr> in types_compatible a cl 0 1 = None"
proof -
  let ?a = "\<lparr>kinds = [TkPointer 0, TkPointer 1], builtins = Map.empty\<rparr>"
  have "self_pointer ?a 0 \<and> self_pointer ?a 1" by (simp add: self_pointer_def type_get_def slot_get_def get_at_def)
  then have "types_compatible ?a cl 0 1 \<noteq> Some y" for y using self_pointers_loop [of ?a cl 0 1 y] by auto
  then have "types_compatible ?a cl 0 1 = None" by (metis not_None_eq)
  then show ?thesis by (simp add: Let_def)
qed

section \<open>Sizes\<close>

definition index_counts :: "type_arena \<Rightarrow> type_id list \<Rightarrow> int list \<Rightarrow> bool" where
  "index_counts a is cs \<longleftrightarrow> list_all2 (\<lambda>i c. ordinal_cardinality a i = answer (Some c) \<and> 1 \<le> c) is cs"

lemma checked_positive: "1 \<le> m \<Longrightarrow> m \<le> n \<Longrightarrow> checked m = None \<Longrightarrow> checked n = None"
  by (auto simp: checked_def in_i128_def i128_min_def split: if_splits)

lemma prod_list_positive: "\<forall>c \<in> set cs. 1 \<le> c \<Longrightarrow> 1 \<le> prod_list (cs :: int list)"
  by (induction cs) (auto intro: order_trans [OF _ mult_mono [of 1 _ 1, simplified]])

lemma index_counts_positive: "index_counts a is cs \<Longrightarrow> 1 \<le> prod_list cs"
  by (intro prod_list_positive) (auto simp: index_counts_def list_all2_conv_all_nth in_set_conv_nth)

lemma count_product_exact:
  "index_counts a is cs \<Longrightarrow> checked n = Some n \<Longrightarrow> 1 \<le> n \<Longrightarrow> count_product a is n = answer (checked (n * prod_list cs))"
proof (induction "is" arbitrary: cs n)
  case Nil
  then show ?case by (simp add: index_counts_def)
next
  case (Cons i "is")
  obtain c ds where cs: "cs = c # ds" "ordinal_cardinality a i = answer (Some c)" "1 \<le> c" "index_counts a is ds"
    using Cons.prems(1) by (auto simp: index_counts_def list_all2_Cons1)
  have pos: "1 \<le> n * c" using cs(3) Cons.prems(3) by (metis mult_mono mult_1 zero_le_one order_trans)
  show ?case
  proof (cases "checked (n * c)")
    case None
    have "n * c \<le> n * c * prod_list ds" using pos index_counts_positive [OF cs(4)] by (simp add: mult_le_cancel_left1)
    then have "checked (n * c * prod_list ds) = None" using checked_positive [OF pos] None by blast
    then show ?thesis using cs None by (simp add: mult.assoc)
  next
    case (Some m)
    then have "checked (n * c) = Some (n * c)" "m = n * c" by (auto simp: checked_def split: if_splits)
    then show ?thesis using cs Cons.IH [OF cs(4) _ pos] by (simp add: mult.assoc)
  qed
qed

text \<open>
  C23: The size of an array is the product of the counts of its index types and the size of its elements,
  or absent where that product leaves 128 bits: no step of the multiplication loses or wraps it.\<close>

theorem array_size_exact:
  assumes "type_get a ty = Some (TkArray is base)" "type_size_bytes a base = answer (Some sz)" "1 \<le> sz"
    and "index_counts a is cs"
  shows "type_size_bytes a ty = answer (checked (prod_list cs * sz))"
proof -
  have c: "count_product a is 1 = answer (checked (prod_list cs))"
    using count_product_exact [OF assms(4), of 1] by (simp add: checked_def in_i128_def i128_min_def i128_max_def)
  have size: "type_size_bytes a ty = abind (count_product a is 1) (\<lambda>c. case c of None \<Rightarrow> answer None | Some n \<Rightarrow> answer (checked (n * sz)))"
    by (subst type_size_bytes.simps) (simp add: kind_of_present [OF assms(1)] assms(2))
  show ?thesis
  proof (cases "checked (prod_list cs)")
    case None
    have "prod_list cs \<le> prod_list cs * sz"
      using index_counts_positive [OF assms(4)] assms(3) by (simp add: mult_le_cancel_left1)
    then show ?thesis using checked_positive [OF index_counts_positive [OF assms(4)] _ None] None size c by simp
  next
    case (Some n)
    then have "n = prod_list cs" by (simp add: checked_def split: if_splits)
    then show ?thesis using Some size c by simp
  qed
qed

theorem array_size_exact_witness:
  "let a = \<lparr>kinds = [TkBuiltin BInteger, TkSubrange 0 1 10, TkArray [1, 1] 0], builtins = Map.empty\<rparr>
   in type_size_bytes a 2 = answer (Some 800)"
proof -
  let ?a = "\<lparr>kinds = [TkBuiltin BInteger, TkSubrange 0 1 10, TkArray [1, 1] 0], builtins = Map.empty\<rparr>"
  have k: "type_get ?a 2 = Some (TkArray [1, 1] 0)" "type_get ?a 0 = Some (TkBuiltin BInteger)" "type_get ?a 1 = Some (TkSubrange 0 1 10)"
    by (simp_all add: type_get_def slot_get_def get_at_def)
  have b: "type_size_bytes ?a 0 = answer (Some 8)"
    by (subst type_size_bytes.simps) (simp add: kind_of_present [OF k(2)] builtin_size_bytes_def)
  have "ordinal_cardinality ?a 1 = answer (Some 10)"
    by (simp add: ordinal_cardinality_def ordinal_bounds.simps k(3) range_size_def checked_def in_i128_def i128_max_def i128_min_def answer_def)
  then have "index_counts ?a [1, 1] [10, 10]" by (simp add: index_counts_def)
  from array_size_exact [OF k(1) b _ this] show ?thesis
    by (simp add: Let_def checked_def in_i128_def i128_max_def i128_min_def)
qed

end
