(* ===== verification/Exceptions.thy ===== *)
theory Exceptions
  imports TextLines
begin

text \<open>
  The exceptions of the runtime (\<open>newm2-runtime/src/exceptions.rs\<close>) and the protected frames the lowering
  builds around a procedure body with an EXCEPT or FINALLY part (\<open>lower_protected_wrapper\<close> of
  \<open>newm2-ir/src/lower.rs\<close>). The thread-local \<open>CURRENT\<close> and the counter of sources are the state; an unwinding
  panic is an outcome. RETRY is not modelled.
\<close>

section \<open>State and operations\<close>

record payload =
  pl_source :: u64
  pl_number :: "32 word"
  pl_message :: string

record exc_state =
  xs_current :: "payload option"
  xs_next_source :: u64

text \<open>
  How code ends: at its end with a value, by a RETURN, unwinding with an exception, or unwinding with a payload
  that is none, the one of HALT or of a failed \<open>expect\<close>.
\<close>

datatype 'a ending = Returns 'a | Leaves | Unwinds payload | Halts | Panics

definition ASSERT_SOURCE :: u64 where "ASSERT_SOURCE = - 1"

definition M2_SOURCE :: u64 where "M2_SOURCE = - 2"

definition GUARD_SOURCE :: u64 where "GUARD_SOURCE = - 3"

definition exc_init :: exc_state where
  "exc_init = \<lparr>xs_current = None, xs_next_source = 1\<rparr>"

definition nm2_alloc_exception_source :: "exc_state \<Rightarrow> u64 \<times> exc_state" where
  "nm2_alloc_exception_source s = (xs_next_source s, s\<lparr>xs_next_source := xs_next_source s + 1\<rparr>)"

text \<open>The number is cut to 32 bits; \<open>message\<close> is the rendered text, capped by the caller.\<close>

definition nm2_raise :: "u64 \<Rightarrow> u64 \<Rightarrow> string \<Rightarrow> payload" where
  "nm2_raise source number message = \<lparr>pl_source = source, pl_number = ucast number, pl_message = message\<rparr>"

definition nm2_raise_m2 :: "u64 \<Rightarrow> payload" where
  "nm2_raise_m2 number = \<lparr>pl_source = M2_SOURCE, pl_number = ucast number, pl_message =
     (if number = 0 then ''array index out of range''
      else if number = 1 then ''value out of range''
      else if number = 2 then ''CASE selector matched no label''
      else if number = 6 \<or> number = 8 then ''division by zero''
      else ''M2 exception'')\<rparr>"

definition nm2_raise_guard :: payload where
  "nm2_raise_guard = \<lparr>pl_source = GUARD_SOURCE, pl_number = 0, pl_message = ''GUARD selector matched no arm''\<rparr>"

definition nm2_assert_failed :: "string \<Rightarrow> payload" where
  "nm2_assert_failed message = \<lparr>pl_source = ASSERT_SOURCE, pl_number = 0, pl_message = message\<rparr>"

definition nm2_reraise :: "exc_state \<Rightarrow> 'a ending \<times> exc_state" where
  "nm2_reraise s = (case xs_current s of
     None \<Rightarrow> (Panics, s)
   | Some p \<Rightarrow> (Unwinds p, s\<lparr>xs_current := None\<rparr>))"

definition nm2_exception_handled :: "exc_state \<Rightarrow> exc_state" where
  "nm2_exception_handled s = s\<lparr>xs_current := None\<rparr>"

definition nm2_current_number :: "exc_state \<Rightarrow> u64" where
  "nm2_current_number s = (case xs_current s of None \<Rightarrow> 0 | Some p \<Rightarrow> ucast (pl_number p))"

definition nm2_current_source :: "exc_state \<Rightarrow> u64" where
  "nm2_current_source s = (case xs_current s of None \<Rightarrow> 0 | Some p \<Rightarrow> pl_source p)"

definition nm2_is_current_source :: "u64 \<Rightarrow> exc_state \<Rightarrow> bool" where
  "nm2_is_current_source source s = (case xs_current s of None \<Rightarrow> False | Some p \<Rightarrow> pl_source p = source)"

definition nm2_is_exceptional_execution :: "exc_state \<Rightarrow> bool" where
  "nm2_is_exceptional_execution s \<longleftrightarrow> xs_current s \<noteq> None"

text \<open>The result is the source of the exception, 0 when the body returned; any other payload unwinds further.\<close>

definition nm2_run_protected :: "(exc_state \<Rightarrow> unit ending \<times> exc_state) \<Rightarrow> exc_state \<Rightarrow> u64 ending \<times> exc_state" where
  "nm2_run_protected body s = (case body s of
     (Returns u, s') \<Rightarrow> (Returns 0, s')
   | (Leaves, s') \<Rightarrow> (Returns 0, s')
   | (Unwinds p, s') \<Rightarrow> (Returns (pl_source p), s'\<lparr>xs_current := Some p\<rparr>)
   | (Halts, s') \<Rightarrow> (Halts, s')
   | (Panics, s') \<Rightarrow> (Panics, s'))"

section \<open>Descriptions\<close>

definition M2_EXCEPTION_NAMES :: "string list" where
  "M2_EXCEPTION_NAMES = [''indexException'', ''rangeException'', ''caseSelectException'', ''invalidLocation'',
     ''functionException'', ''wholeValueException'', ''wholeDivException'', ''realValueException'', ''realDivException'',
     ''complexValueException'', ''complexDivException'', ''protException'', ''sysException'', ''coException'', ''exException'']"

definition describe_exception :: "u64 \<Rightarrow> 32 word \<Rightarrow> string" where
  "describe_exception source number =
     (if source = ASSERT_SOURCE then ''failed ASSERT''
      else if source = GUARD_SOURCE then ''GUARD selector matched no arm''
      else if source = M2_SOURCE then
        (case get_at M2_EXCEPTION_NAMES (unat number) of
           Some name \<Rightarrow> ''M2EXCEPTION.'' @ name
         | None \<Rightarrow> ''M2EXCEPTION ordinal '' @ dec (unat number))
      else ''source '' @ dec (unat source) @ '' number '' @ dec (unat number))"

section \<open>Protected frames\<close>

text \<open>
  Code as far as exceptions see it: steps that change nothing here, RETURN, raising, HALT, sequences, and the
  call of a procedure with an EXCEPT part, whose arms run one after the other, or a FINALLY part, or both.
\<close>

datatype code =
    Skip
  | Leave
  | Raise payload
  | Halt
  | Seq code code
  | Protect code "code option" "code option"

definition exc_then :: "unit ending \<times> exc_state \<Rightarrow> (exc_state \<Rightarrow> unit ending \<times> exc_state) \<Rightarrow> unit ending \<times> exc_state" where
  "exc_then r f = (case r of (Returns u, s) \<Rightarrow> f s | _ \<Rightarrow> r)"

text \<open>The caller of the wrapper goes on after a RETURN in it.\<close>

definition at_call :: "unit ending \<Rightarrow> unit ending" where
  "at_call e = (case e of Leaves \<Rightarrow> Returns () | _ \<Rightarrow> e)"

text \<open>
  The wrapper after \<open>nm2_run_protected\<close>: with an EXCEPT part the handler runs when the result is not 0 and
  FINALLY follows; with FINALLY alone it runs on both ways and a raised exception is raised again. A RETURN in
  the handler or in FINALLY leaves the wrapper at once.
\<close>

definition with_handler :: "u64 \<Rightarrow> (exc_state \<Rightarrow> unit ending \<times> exc_state) \<Rightarrow> (exc_state \<Rightarrow> unit ending \<times> exc_state) \<Rightarrow>
    exc_state \<Rightarrow> unit ending \<times> exc_state" where
  "with_handler raised handler final s =
     (if raised = 0 then final s
      else exc_then (handler s) (\<lambda>s'. final (nm2_exception_handled s')))"

definition with_finally :: "u64 \<Rightarrow> (exc_state \<Rightarrow> unit ending \<times> exc_state) \<Rightarrow> exc_state \<Rightarrow> unit ending \<times> exc_state" where
  "with_finally raised final s =
     exc_then (final s) (\<lambda>s'. if raised = 0 then (Returns (), s') else nm2_reraise s')"

primrec exec :: "code \<Rightarrow> exc_state \<Rightarrow> unit ending \<times> exc_state" where
  "exec Skip = (\<lambda>s. (Returns (), s))"
| "exec Leave = (\<lambda>s. (Leaves, s))"
| "exec (Raise p) = (\<lambda>s. (Unwinds p, s))"
| "exec Halt = (\<lambda>s. (Halts, s))"
| "exec (Seq a b) = (\<lambda>s. exc_then (exec a s) (exec b))"
| "exec (Protect body handler final) = (\<lambda>s.
     let fin = (case map_option exec final of None \<Rightarrow> (\<lambda>t. (Returns (), t)) | Some f \<Rightarrow> f)
     in case nm2_run_protected (exec body) s of
       (Returns raised, s') \<Rightarrow>
         map_prod at_call (\<lambda>t. t)
           (case map_option exec handler of
              Some h \<Rightarrow> with_handler raised h fin s'
            | None \<Rightarrow> with_finally raised fin s')
     | (Leaves, s') \<Rightarrow> (Leaves, s')
     | (Unwinds p, s') \<Rightarrow> (Unwinds p, s')
     | (Halts, s') \<Rightarrow> (Halts, s')
     | (Panics, s') \<Rightarrow> (Panics, s'))"

section \<open>What frames mean\<close>

text \<open>
  The meaning without the runtime's state: an exception that reaches a frame with an EXCEPT part is handled
  by it, and FINALLY runs when the body or the handler ended or left by RETURN; a frame with FINALLY alone
  passes on the very exception it received.
\<close>

primrec meaning :: "code \<Rightarrow> unit ending" where
  "meaning Skip = Returns ()"
| "meaning Leave = Leaves"
| "meaning (Raise p) = Unwinds p"
| "meaning Halt = Halts"
| "meaning (Seq a b) = (if meaning a = Returns () then meaning b else meaning a)"
| "meaning (Protect body handler final) =
     (let fin = (case map_option meaning final of None \<Rightarrow> Returns () | Some f \<Rightarrow> f)
      in case meaning body of
           Unwinds p \<Rightarrow>
             (case map_option meaning handler of
                Some h \<Rightarrow> at_call (if at_call h = Returns () then fin else h)
              | None \<Rightarrow> if at_call fin = Returns () then Unwinds p else fin)
         | Halts \<Rightarrow> Halts
         | Panics \<Rightarrow> Panics
         | _ \<Rightarrow> at_call fin)"

text \<open>Code that leaves \<open>CURRENT\<close> alone: no frame in it catches anything.\<close>

primrec quiet :: "code \<Rightarrow> bool" where
  "quiet Skip = True"
| "quiet Leave = True"
| "quiet (Raise p) = True"
| "quiet Halt = True"
| "quiet (Seq a b) = (quiet a \<and> quiet b)"
| "quiet (Protect body handler final) = (quiet body \<and> (case meaning body of Unwinds p \<Rightarrow> False | _ \<Rightarrow> True) \<and>
     (case map_option quiet final of None \<Rightarrow> True | Some f \<Rightarrow> f))"

text \<open>
  Sources are not 0; a handler does not leave by RETURN a frame that has a FINALLY part; and a FINALLY part
  without EXCEPT is quiet and does not leave by RETURN.
\<close>

definition returns_inside :: "code option \<Rightarrow> code option \<Rightarrow> bool" where
  "returns_inside handler final = (case final of
     None \<Rightarrow> True
   | Some f \<Rightarrow> (case handler of Some h \<Rightarrow> meaning h \<noteq> Leaves | None \<Rightarrow> quiet f \<and> meaning f \<noteq> Leaves))"

primrec well_raised :: "code \<Rightarrow> bool" where
  "well_raised Skip = True"
| "well_raised Leave = True"
| "well_raised (Raise p) = (pl_source p \<noteq> 0)"
| "well_raised Halt = True"
| "well_raised (Seq a b) = (well_raised a \<and> well_raised b)"
| "well_raised (Protect body handler final) = (well_raised body \<and> returns_inside handler final \<and>
     (case map_option well_raised handler of None \<Rightarrow> True | Some h \<Rightarrow> h) \<and>
     (case map_option well_raised final of None \<Rightarrow> True | Some f \<Rightarrow> f))"

lemma at_call_simps [simp]: "at_call (Returns u) = Returns u" "at_call Leaves = Returns ()" "at_call (Unwinds p) = Unwinds p"
  "at_call Halts = Halts" "at_call Panics = Panics"
  by (simp_all add: at_call_def)

lemma at_call_idem [simp]: "at_call (at_call e) = at_call e"
  by (cases e) auto

lemma exc_then_simps [simp]: "exc_then (Returns u, s) f = f s" "exc_then (Leaves, s) f = (Leaves, s)"
  "exc_then (Unwinds p, s) f = (Unwinds p, s)" "exc_then (Halts, s) f = (Halts, s)" "exc_then (Panics, s) f = (Panics, s)"
  by (simp_all add: exc_then_def)

lemma exc_then_pair: "r = (e, s) \<Longrightarrow> e \<noteq> Returns () \<Longrightarrow> exc_then r f = (e, s)"
  by (cases e) auto

lemma at_call_cases: "at_call e = Returns () \<longleftrightarrow> e = Returns () \<or> e = Leaves"
  by (cases e) auto

lemma meaning_not_panics: "meaning c \<noteq> Panics"
proof (induction c)
  case (Protect body handler final)
  have fin: "(case map_option meaning final of None \<Rightarrow> Returns () | Some f \<Rightarrow> f) \<noteq> Panics"
    using Protect.IH(3) by (cases final) auto
  have h: "handler = Some h \<Longrightarrow> meaning h \<noteq> Panics" for h using Protect.IH(2) by auto
  have ac: "e \<noteq> Panics \<Longrightarrow> at_call e \<noteq> Panics" for e by (cases e) auto
  show ?case using Protect.IH(1) fin h ac by (cases handler; cases "meaning body") (auto simp: Let_def)
qed auto

lemma meaning_source: "well_raised c \<Longrightarrow> meaning c = Unwinds p \<Longrightarrow> pl_source p \<noteq> 0"
proof (induction c arbitrary: p)
  case (Seq a b)
  then show ?case by (cases "meaning a = Returns ()") auto
next
  case (Protect body handler final)
  have ac: "at_call e = Unwinds q \<longleftrightarrow> e = Unwinds q" for e q by (cases e) auto
  have fin: "(case map_option meaning final of None \<Rightarrow> Returns () | Some f \<Rightarrow> f) = Unwinds q \<Longrightarrow> pl_source q \<noteq> 0" for q
    using Protect.IH(3) Protect.prems(1) by (cases final) auto
  have hd: "handler = Some h \<Longrightarrow> meaning h = Unwinds q \<Longrightarrow> pl_source q \<noteq> 0" for h q
    using Protect.IH(2) Protect.prems(1) by auto
  have body: "meaning body = Unwinds q \<Longrightarrow> pl_source q \<noteq> 0" for q using Protect.IH(1) Protect.prems(1) by auto
  show ?case using Protect.prems(2) fin hd body
    by (cases handler; cases "meaning body") (auto simp: Let_def ac split: if_splits)
qed auto

definition exec_part :: "code option \<Rightarrow> exc_state \<Rightarrow> unit ending \<times> exc_state" where
  "exec_part final = (case map_option exec final of None \<Rightarrow> (\<lambda>t. (Returns (), t)) | Some f \<Rightarrow> f)"

definition meaning_part :: "code option \<Rightarrow> unit ending" where
  "meaning_part final = (case map_option meaning final of None \<Rightarrow> Returns () | Some f \<Rightarrow> f)"

lemmas part_defs = exec_part_def meaning_part_def

lemma exec_Protect: "exec (Protect body handler final) s = (case nm2_run_protected (exec body) s of
    (Returns raised, s') \<Rightarrow> map_prod at_call (\<lambda>t. t) (case handler of
        Some h \<Rightarrow> with_handler raised (exec h) (exec_part final) s'
      | None \<Rightarrow> with_finally raised (exec_part final) s')
  | (Leaves, s') \<Rightarrow> (Leaves, s') | (Unwinds p, s') \<Rightarrow> (Unwinds p, s') | (Halts, s') \<Rightarrow> (Halts, s') | (Panics, s') \<Rightarrow> (Panics, s'))"
  by (cases handler; cases final; cases "nm2_run_protected (exec body) s"; cases "fst (nm2_run_protected (exec body) s)")
    (simp_all add: exec_part_def Let_def)

lemma meaning_Protect: "meaning (Protect body handler final) = (case meaning body of
    Unwinds p \<Rightarrow> (case handler of
        Some h \<Rightarrow> at_call (if at_call (meaning h) = Returns () then meaning_part final else meaning h)
      | None \<Rightarrow> if at_call (meaning_part final) = Returns () then Unwinds p else meaning_part final)
  | Halts \<Rightarrow> Halts | Panics \<Rightarrow> Panics | _ \<Rightarrow> at_call (meaning_part final))"
  by (cases handler; cases final; cases "meaning body") (simp_all add: meaning_part_def Let_def)

lemma protected_body:
  assumes "exec body s = (meaning body, s1)"
  shows "nm2_run_protected (exec body) s = (case meaning body of
      Unwinds p \<Rightarrow> (Returns (pl_source p), s1\<lparr>xs_current := Some p\<rparr>)
    | Halts \<Rightarrow> (Halts, s1) | Panics \<Rightarrow> (Panics, s1) | _ \<Rightarrow> (Returns 0, s1))"
  using assms by (cases "meaning body") (simp_all add: nm2_run_protected_def)

lemma finally_ending:
  assumes "exec_part final t = (meaning_part final, t')"
  shows "with_finally 0 (exec_part final) t = (meaning_part final, t')"
  using assms by (cases "meaning_part final") (simp_all add: with_finally_def)

definition keeps_current :: "code \<Rightarrow> exc_state \<Rightarrow> exc_state \<Rightarrow> bool" where
  "keeps_current c s s' \<longleftrightarrow> (at_call (meaning c) = Returns () \<longrightarrow> xs_current s' = xs_current s)"

lemma exec_quiet: "quiet c \<Longrightarrow> \<exists>s'. exec c s = (meaning c, s') \<and> keeps_current c s s'"
proof (induction c arbitrary: s)
  case (Seq a b)
  obtain s1 where 1: "exec a s = (meaning a, s1)" "keeps_current a s s1" using Seq.IH(1) [of s] Seq.prems by auto
  obtain s2 where 2: "exec b s1 = (meaning b, s2)" "keeps_current b s1 s2" using Seq.IH(2) [of s1] Seq.prems by auto
  show ?case using 1 2 by (cases "meaning a") (auto simp: keeps_current_def)
next
  case (Protect body handler final)
  have qb: "quiet body" and nb: "\<And>p. meaning body \<noteq> Unwinds p" using Protect.prems by (auto split: ending.splits)
  obtain s1 where 1: "exec body s = (meaning body, s1)" "keeps_current body s s1" using Protect.IH(1) [OF qb, of s] by auto
  obtain s2 where 2: "exec_part final s1 = (meaning_part final, s2)"
      "at_call (meaning_part final) = Returns () \<longrightarrow> xs_current s2 = xs_current s1"
    using Protect.IH(3) [of _ s1] Protect.prems by (cases final) (auto simp: part_defs keeps_current_def)
  note run = protected_body [OF 1(1)]
  have w: "with_handler 0 h (exec_part final) s1 = (meaning_part final, s2)" for h using 2(1) by (simp add: with_handler_def)
  show ?case using 1(2) nb 2 w finally_ending [OF 2(1)] unfolding exec_Protect meaning_Protect run keeps_current_def
    by (cases "meaning body"; cases handler) (auto simp: meaning_Protect)
qed (auto simp: keeps_current_def)

text \<open>
  C15: Protected frames keep the meaning of exceptions: when no source is 0, no handler of a frame with a FINALLY
  part leaves by RETURN, and the FINALLY parts of frames without EXCEPT catch nothing and do not RETURN, then
  running code ends as it should, at its end, by RETURN or HALT, or with the very exception that escapes it,
  whatever exception was current before. In particular the runtime always finds the exception to raise again.\<close>

theorem frames_keep_exceptions:
  assumes "well_raised c"
  shows "fst (exec c s) = meaning c \<and> meaning c \<noteq> Panics"
proof (intro conjI meaning_not_panics)
  show "fst (exec c s) = meaning c"
    using assms
  proof (induction c arbitrary: s)
    case (Seq a b)
    have wf: "well_raised a" "well_raised b" using Seq.prems by auto
    obtain s1 where 1: "exec a s = (meaning a, s1)" using Seq.IH(1) [OF wf(1), of s] by (cases "exec a s") auto
    then show ?case using Seq.IH(2) [OF wf(2), of s1] by (cases "meaning a") auto
  next
    case (Protect body handler final)
    have wb: "well_raised body" and wi: "returns_inside handler final" using Protect.prems by auto
    have "fst (exec body s) = meaning body" by (rule Protect.IH(1) [OF wb])
    then obtain s1 where 1: "exec body s = (meaning body, s1)" by (cases "exec body s") auto
    note run = protected_body [OF 1]
    have fin: "fst (exec_part final t) = meaning_part final" for t
      using Protect.IH(3) Protect.prems by (cases final) (auto simp: part_defs)
    show ?case
    proof (cases "\<exists>p. meaning body = Unwinds p")
      case False
      have "fst (with_handler 0 h (exec_part final) s1) = meaning_part final" for h using fin by (simp add: with_handler_def)
      moreover have "fst (with_finally 0 (exec_part final) s1) = meaning_part final"
        using fin [of s1] finally_ending [of final s1] by (cases "exec_part final s1") auto
      ultimately show ?thesis using False unfolding exec_Protect meaning_Protect run
        by (cases "meaning body"; cases handler) auto
    next
      case True
      then obtain p where p: "meaning body = Unwinds p" by blast
      have src: "pl_source p \<noteq> 0" by (rule meaning_source [OF wb p])
      show ?thesis
      proof (cases handler)
        case (Some h)
        let ?t = "s1\<lparr>xs_current := Some p\<rparr>"
        have "fst (exec h ?t) = meaning h" using Protect.IH(2) [of h ?t] Protect.prems Some by auto
        then obtain s2 where h: "exec h ?t = (meaning h, s2)" by (cases "exec h ?t") auto
        have "final = None \<or> meaning h \<noteq> Leaves" using wi Some by (cases final) (auto simp: returns_inside_def)
        then have "fst (with_handler (pl_source p) (exec h) (exec_part final) ?t) =
            (if at_call (meaning h) = Returns () then meaning_part final else meaning h) \<or>
            fst (with_handler (pl_source p) (exec h) (exec_part final) ?t) = Leaves \<and> final = None \<and> meaning h = Leaves"
          using src fin h by (cases "meaning h") (auto simp: with_handler_def)
        then show ?thesis using p Some unfolding exec_Protect meaning_Protect run by (auto simp: meaning_part_def)
      next
        case None
        let ?t = "s1\<lparr>xs_current := Some p\<rparr>"
        have "\<exists>t'. exec_part final ?t = (meaning_part final, t') \<and> (at_call (meaning_part final) = Returns () \<longrightarrow> xs_current t' = Some p)"
          using wi None exec_quiet [of _ ?t] by (cases final) (auto simp: part_defs returns_inside_def keeps_current_def)
        moreover have "meaning_part final \<noteq> Leaves" using wi None by (cases final) (auto simp: part_defs returns_inside_def)
        ultimately show ?thesis using p None src unfolding exec_Protect meaning_Protect run
          by (cases "meaning_part final") (auto simp: with_finally_def nm2_reraise_def)
      qed
    qed
  qed auto
qed

definition sample_payload :: "u64 \<Rightarrow> payload" where
  "sample_payload source = nm2_raise source 7 ''e''"

theorem frames_keep_exceptions_witness:
  "fst (exec (Protect (Protect (Raise (sample_payload 1)) None (Some Skip)) (Some Skip) (Some Leave)) exc_init) = Returns ()"
  using frames_keep_exceptions [of "Protect (Protect (Raise (sample_payload 1)) None (Some Skip)) (Some Skip) (Some Leave)" exc_init]
  by (simp add: sample_payload_def nm2_raise_def returns_inside_def)


end
