(* ===== verification/HeapCheck.thy ===== *)
theory HeapCheck
  imports ModuleGraph "HOL-Library.AList" "HOL-Library.List_Lexorder" "HOL-Library.Char_ord"
begin

text \<open>
  The static NEW/DISPOSE analysis (\<open>newm2-sema/src/heapcheck.rs\<close>): a walk over each procedure body that
  keeps, for every simple pointer variable, whether it is allocated, disposed or unknown, and warns. The hash
  maps are association lists, the hash sets lists without repetition; the walk asks for no order of them. The
  diagnostics of the pass are in the state beside the variables. Message bytes are UTF-8.
\<close>

section \<open>State\<close>

datatype severity = SevError | SevWarning

record diagnostic =
  dg_severity :: severity
  dg_message :: string
  dg_span :: span
  dg_module :: nat

datatype alloc_state = Alloc | Disposed | Unknown

record vars =
  vs_st :: "(string \<times> alloc_state) list"
  vs_new_span :: "(string \<times> span) list"
  vs_escaped :: "string list"
  vs_diags :: "diagnostic list"

definition vars_new :: vars where
  "vars_new = \<lparr>vs_st = [], vs_new_span = [], vs_escaped = [], vs_diags = []\<rparr>"

definition st_of :: "vars \<Rightarrow> string \<Rightarrow> alloc_state option" where
  "st_of v p = map_of (vs_st v) p"

definition set_st :: "string \<Rightarrow> alloc_state \<Rightarrow> vars \<Rightarrow> vars" where
  "set_st p a v = v\<lparr>vs_st := AList.update p a (vs_st v)\<rparr>"

definition warn :: "nat \<Rightarrow> span \<Rightarrow> string \<Rightarrow> vars \<Rightarrow> vars" where
  "warn mid sp msg v = v\<lparr>vs_diags := vs_diags v @ [\<lparr>dg_severity = SevWarning, dg_message = msg, dg_span = sp, dg_module = mid\<rparr>]\<rparr>"

definition quoted :: "string \<Rightarrow> string" where
  "quoted p = [CHR 0x27] @ p @ [CHR 0x27]"

definition again_message :: "string \<Rightarrow> string" where
  "again_message p = quoted p @ '' is allocated again before the previous block is disposed '' @
     [CHR 0xE2, CHR 0x80, CHR 0x94] @ '' the old block leaks''"

definition double_message :: "string \<Rightarrow> string" where
  "double_message p = ''double DISPOSE of '' @ quoted p @ '' (already disposed)''"

definition use_message :: "string \<Rightarrow> string" where
  "use_message p = ''use of '' @ quoted p @ '' after DISPOSE (dangling pointer)''"

definition leak_message :: "string \<Rightarrow> string" where
  "leak_message p = quoted p @ '' is allocated here but never disposed (memory leak)''"

section \<open>Names in expressions\<close>

definition simple_designator :: "designator \<Rightarrow> string option" where
  "simple_designator d = (case (d_selectors d, segments (d_base d)) of ([], [x]) \<Rightarrow> Some x | _ \<Rightarrow> None)"

definition as_builtin_call :: "expr \<Rightarrow> (string \<times> expr list) option" where
  "as_builtin_call e = (case e of
     ECall callee args sp \<Rightarrow>
       (case callee of EDesignator d \<Rightarrow> map_option (\<lambda>x. (x, args)) (simple_designator d) | _ \<Rightarrow> None)
   | _ \<Rightarrow> None)"

definition simple_var :: "expr \<Rightarrow> (string \<times> span) option" where
  "simple_var e = (case e of EDesignator d \<Rightarrow> map_option (\<lambda>x. (x, d_span d)) (simple_designator d) | _ \<Rightarrow> None)"

section \<open>Uses\<close>

text \<open>The base of a designator: a use of a disposed variable, and an escape when it is the bare variable.\<close>

definition scan_base :: "nat \<Rightarrow> designator \<Rightarrow> vars \<Rightarrow> vars" where
  "scan_base mid d v = (case segments (d_base d) of
     [name] \<Rightarrow>
       (let w = (if st_of v name = Some Disposed then warn mid (d_span d) (use_message name) v else v)
        in if d_selectors d = [] then w\<lparr>vs_escaped := List.insert name (vs_escaped w)\<rparr> else w)
   | _ \<Rightarrow> v)"

fun scan_expr :: "nat \<Rightarrow> expr \<Rightarrow> vars \<Rightarrow> vars"
and scan_designator :: "nat \<Rightarrow> designator \<Rightarrow> vars \<Rightarrow> vars"
and scan_selector :: "nat \<Rightarrow> selector \<Rightarrow> vars \<Rightarrow> vars" where
  "scan_expr mid (EDesignator d) v = scan_designator mid d v"
| "scan_expr mid (ECall callee args sp) v =
     fold (scan_expr mid) args (if simple_var callee \<noteq> None then v else scan_expr mid callee v)"
| "scan_expr mid (EBinary opr l r sp) v = scan_expr mid r (scan_expr mid l v)"
| "scan_expr mid (EUnary opr x sp) v = scan_expr mid x v"
| "scan_expr mid e v = v"
| "scan_designator mid (Designator b ss sp) v = fold (scan_selector mid) ss (scan_base mid (Designator b ss sp) v)"
| "scan_selector mid (SIndex es sp) v = fold (scan_expr mid) es v"
| "scan_selector mid s v = v"

section \<open>Statements\<close>

text \<open>
  A branch is walked from the state before it; the names whose state differs after it are touched, and
  escapes, sites of NEW and diagnostics are kept.
\<close>

definition or_insert :: "string \<times> span \<Rightarrow> (string \<times> span) list \<Rightarrow> (string \<times> span) list" where
  "or_insert x m = (case map_of m (fst x) of None \<Rightarrow> m @ [x] | Some sp \<Rightarrow> m)"

definition scan_branch :: "(stmt \<Rightarrow> vars \<Rightarrow> vars) \<Rightarrow> stmt list \<Rightarrow> vars \<times> string list \<Rightarrow> vars \<times> string list" where
  "scan_branch f body vt =
     (let v = fst vt; c = fold f body v
      in (v\<lparr>vs_escaped := fold List.insert (vs_escaped c) (vs_escaped v),
            vs_new_span := fold or_insert (vs_new_span c) (vs_new_span v),
            vs_diags := vs_diags c\<rparr>,
          fold (\<lambda>(k, a) t. if map_of (vs_st v) k \<noteq> Some a then List.insert k t else t) (vs_st c) (snd vt)))"

definition scan_else :: "(stmt \<Rightarrow> vars \<Rightarrow> vars) \<Rightarrow> stmt list option \<Rightarrow> vars \<times> string list \<Rightarrow> vars \<times> string list" where
  "scan_else f els vt = (case els of None \<Rightarrow> vt | Some b \<Rightarrow> scan_branch f b vt)"

lemma scan_branch_cong [fundef_cong]:
  "body = body' \<Longrightarrow> vt = vt' \<Longrightarrow> (\<And>x. x \<in> set body' \<Longrightarrow> f x = g x) \<Longrightarrow> scan_branch f body vt = scan_branch g body' vt'"
  unfolding scan_branch_def by (simp cong: fold_cong)

lemma scan_else_cong [fundef_cong]:
  "els = els' \<Longrightarrow> vt = vt' \<Longrightarrow> (\<And>b x. els' = Some b \<Longrightarrow> x \<in> set b \<Longrightarrow> f x = g x) \<Longrightarrow> scan_else f els vt = scan_else g els' vt'"
  unfolding scan_else_def by (auto intro: scan_branch_cong split: option.split)

definition forget :: "vars \<times> string list \<Rightarrow> vars" where
  "forget vt = fold (\<lambda>p v. set_st p Unknown v) (snd vt) (fst vt)"

definition call_stmt :: "nat \<Rightarrow> expr \<Rightarrow> vars \<Rightarrow> vars" where
  "call_stmt mid e v =
     (case as_builtin_call e of
        Some (name, a # args) \<Rightarrow>
          (case simple_var a of
             Some (p, sp) \<Rightarrow>
               (if name = ''NEW'' then
                  fold (scan_expr mid) args
                    ((set_st p Alloc (if st_of v p = Some Alloc then warn mid sp (again_message p) v else v))
                       \<lparr>vs_new_span := AList.update p sp (vs_new_span v)\<rparr>)
                else if name = ''DISPOSE'' \<or> name = ''DESTROY'' then
                  fold (scan_expr mid) args
                    (set_st p Disposed (if st_of v p = Some Disposed then warn mid sp (double_message p) v else v))
                else scan_expr mid e v)
           | None \<Rightarrow> scan_expr mid e v)
      | _ \<Rightarrow> scan_expr mid e v)"

definition assign_stmt :: "nat \<Rightarrow> designator \<Rightarrow> expr \<Rightarrow> vars \<Rightarrow> vars" where
  "assign_stmt mid target value v =
     (let w = scan_designator mid target (scan_expr mid value v)
      in case simple_designator target of Some p \<Rightarrow> set_st p Unknown w | None \<Rightarrow> w)"

fun scan_stmt :: "nat \<Rightarrow> stmt \<Rightarrow> vars \<Rightarrow> vars" where
  "scan_stmt mid (SCall e sp) v = call_stmt mid e v"
| "scan_stmt mid (SAssign d e sp) v = assign_stmt mid d e v"
| "scan_stmt mid (SIf arms els sp) v =
     forget (scan_else (scan_stmt mid) els
       (fold (\<lambda>(c, b) (w, t). scan_branch (scan_stmt mid) b (scan_expr mid c w, t)) arms (v, [])))"
| "scan_stmt mid (SCase e arms els sp) v =
     forget (scan_else (scan_stmt mid) els
       (fold (\<lambda>a vt. case a of CaseArm ls b asp \<Rightarrow> scan_branch (scan_stmt mid) b vt) arms (scan_expr mid e v, [])))"
| "scan_stmt mid (SGuard e arms els sp) v =
     forget (scan_else (scan_stmt mid) els
       (fold (\<lambda>a vt. case a of GuardArm x xsp ty b asp \<Rightarrow> scan_branch (scan_stmt mid) b vt) arms (scan_expr mid e v, [])))"
| "scan_stmt mid (SWhile c b sp) v = forget (scan_branch (scan_stmt mid) b (scan_expr mid c v, []))"
| "scan_stmt mid (SRepeat b c sp) v =
     (case scan_branch (scan_stmt mid) b (v, []) of (w, t) \<Rightarrow> forget (scan_expr mid c w, t))"
| "scan_stmt mid (SFor x lo hi st b sp) v =
     forget (scan_branch (scan_stmt mid) b
       ((case st of None \<Rightarrow> (\<lambda>w. w) | Some e \<Rightarrow> scan_expr mid e) (scan_expr mid hi (scan_expr mid lo v)), []))"
| "scan_stmt mid (SLoop b sp) v = forget (scan_branch (scan_stmt mid) b (v, []))"
| "scan_stmt mid (SWith d b sp) v = forget (scan_branch (scan_stmt mid) b (scan_designator mid d v, []))"
| "scan_stmt mid (SReturn (Some e) sp) v = scan_expr mid e v"
| "scan_stmt mid (SRaise (Some e) sp) v = scan_expr mid e v"
| "scan_stmt mid (SBlock (Block b ex fin bsp)) v = fold (scan_stmt mid) b v"
| "scan_stmt mid s v = v"

definition scan_stmts :: "nat \<Rightarrow> stmt list \<Rightarrow> vars \<Rightarrow> vars" where
  "scan_stmts mid ss v = fold (scan_stmt mid) ss v"

section \<open>Leaks, procedures, modules\<close>

definition leaks :: "nat \<Rightarrow> string list \<Rightarrow> vars \<Rightarrow> string \<Rightarrow> vars \<Rightarrow> vars" where
  "leaks mid locals v name w =
     (if st_of v name = Some Alloc \<and> name \<in> set locals \<and> name \<notin> set (vs_escaped v) then
        (case map_of (vs_new_span v) name of Some sp \<Rightarrow> warn mid sp (leak_message name) w | None \<Rightarrow> w)
      else w)"

definition report_leaks :: "nat \<Rightarrow> string list \<Rightarrow> vars \<Rightarrow> vars" where
  "report_leaks mid locals v = fold (leaks mid locals v) (sort (remdups (map fst (vs_st v)))) v"

definition collect_var_names :: "decl list \<Rightarrow> string list" where
  "collect_var_names ds = fold (\<lambda>d out. case d of DVar vd \<Rightarrow> fold List.insert (vd_names vd) out | _ \<Rightarrow> out) ds []"

definition leak_candidates :: "param list \<Rightarrow> decl list \<Rightarrow> string list" where
  "leak_candidates ps ds = fold (\<lambda>p out. fold removeAll (pm_names p) out) ps (collect_var_names ds)"

definition check_body :: "nat \<Rightarrow> string list \<Rightarrow> stmt list \<Rightarrow> diagnostic list" where
  "check_body mid locals ss = vs_diags (report_leaks mid locals (scan_stmts mid ss vars_new))"

text \<open>Nested procedures follow the one they are in.\<close>

fun scan_decl :: "nat \<Rightarrow> decl \<Rightarrow> diagnostic list" where
  "scan_decl mid (DProcedure (ProcDecl name lnk ps ret attrs (Some (ProcBody ds (Block ss ex fin bsp))) fwd ext prs isf sp)) =
     check_body mid (leak_candidates ps ds) ss @ concat (map (scan_decl mid) ds)"
| "scan_decl mid d = []"

definition scan_decls :: "nat \<Rightarrow> decl list \<Rightarrow> diagnostic list" where
  "scan_decls mid ds = concat (map (scan_decl mid) ds)"

fun block_stmts :: "block \<Rightarrow> stmt list" where
  "block_stmts (Block ss ex fin sp) = ss"

fun check_module :: "nat \<Rightarrow> ast_module \<Rightarrow> diagnostic list" where
  "check_module mid (AstModule k name e prs imps ds body sp) =
     (case body of None \<Rightarrow> [] | Some b \<Rightarrow> vs_diags (scan_stmts mid (block_stmts b) vars_new)) @ scan_decls mid ds"

definition check_node :: "module_graph \<Rightarrow> nat \<Rightarrow> diagnostic list option" where
  "check_node g mid = (case graph_get g mid of
     None \<Rightarrow> None
   | Some node \<Rightarrow> Some
       (if mn_is_intrinsic node then []
        else case mn_impl_ast node of
               Some m \<Rightarrow> check_module mid m
             | None \<Rightarrow> (case mn_def_ast node of Some m \<Rightarrow> check_module mid m | None \<Rightarrow> [])))"

text \<open>\<open>None\<close> is the panic of an order that names a module out of range.\<close>

fun analyze_nodes :: "module_graph \<Rightarrow> nat list \<Rightarrow> diagnostic list option" where
  "analyze_nodes g [] = Some []"
| "analyze_nodes g (mid # mids) =
     Option.bind (check_node g mid) (\<lambda>ds. map_option (\<lambda>rest. ds @ rest) (analyze_nodes g mids))"

definition analyze_new_dispose :: "module_graph \<Rightarrow> diagnostic list option" where
  "analyze_new_dispose g = analyze_nodes g (mg_topo_order g)"

end
