(* ===== verification/HeapCheckSpec.thy ===== *)
theory HeapCheckSpec
  imports HeapCheck
begin

text \<open>
  What the warnings of the NEW/DISPOSE analysis mean, against the runs of a body: sequences of the operations
  on simple variables, with free conditions, selectors and iteration counts. EXIT leaves the innermost loop.
  Runs that end by RETURN or by an exception are not complete and not described.
\<close>

section \<open>Runs\<close>

datatype heap_event = News string | Disposes string | Sets string | Reads string

fun expr_events :: "expr \<Rightarrow> heap_event list"
and designator_events :: "designator \<Rightarrow> heap_event list"
and selector_events :: "selector \<Rightarrow> heap_event list"
and elem_events :: "set_elem \<Rightarrow> heap_event list" where
  "expr_events (EDesignator d) = designator_events d"
| "expr_events (ECall callee args sp) =
     (if simple_var callee \<noteq> None then [] else expr_events callee) @ concat (map expr_events args)"
| "expr_events (EBinary opr l r sp) = expr_events l @ expr_events r"
| "expr_events (EUnary opr x sp) = expr_events x"
| "expr_events (ESet b es sp) = concat (map elem_events es)"
| "expr_events e = []"
| "designator_events (Designator b ss sp) =
     (case simple_designator (Designator b ss sp) of Some p \<Rightarrow> [Reads p] | None \<Rightarrow> []) @ concat (map selector_events ss)"
| "selector_events (SIndex es sp) = concat (map expr_events es)"
| "selector_events s = []"
| "elem_events (Single e) = expr_events e"
| "elem_events (Range lo hi) = expr_events lo @ expr_events hi"

definition call_events :: "expr \<Rightarrow> heap_event list" where
  "call_events e =
     (case as_builtin_call e of
        Some (name, a # args) \<Rightarrow>
          (case simple_var a of
             Some (p, sp) \<Rightarrow>
               (if name = ''NEW'' then News p # concat (map expr_events args)
                else if name = ''DISPOSE'' \<or> name = ''DESTROY'' then Disposes p # concat (map expr_events args)
                else expr_events e)
           | None \<Rightarrow> expr_events e)
      | _ \<Rightarrow> expr_events e)"

definition assign_events :: "designator \<Rightarrow> expr \<Rightarrow> heap_event list" where
  "assign_events d e = expr_events e @ concat (map selector_events (d_selectors d)) @
     (case simple_designator d of Some p \<Rightarrow> [Sets p] | None \<Rightarrow> [])"

definition step_events :: "expr option \<Rightarrow> heap_event list" where
  "step_events st = (case st of None \<Rightarrow> [] | Some e \<Rightarrow> expr_events e)"

fun conds :: "(expr \<times> stmt list) list \<Rightarrow> heap_event list" where
  "conds [] = []"
| "conds (x # arms) = expr_events (fst x) @ conds arms"

text \<open>A run ends by falling through (\<open>True\<close>) or by an EXIT (\<open>False\<close>).\<close>

inductive run :: "stmt \<Rightarrow> heap_event list \<Rightarrow> bool \<Rightarrow> bool"
  and run_seq :: "stmt list \<Rightarrow> heap_event list \<Rightarrow> bool \<Rightarrow> bool" where
  seq_nil: "run_seq [] [] True"
| seq_next: "run s es True \<Longrightarrow> run_seq ss fs t \<Longrightarrow> run_seq (s # ss) (es @ fs) t"
| seq_exit: "run s es False \<Longrightarrow> run_seq (s # ss) es False"
| run_empty: "run (SEmpty sp) [] True"
| run_call: "run (SCall e sp) (call_events e) True"
| run_assign: "run (SAssign d e sp) (assign_events d e) True"
| run_exit: "run (SExit sp) [] False"
| if_arm: "arms = pre @ (c, b) # post \<Longrightarrow> run_seq b es t \<Longrightarrow>
     run (SIf arms els sp) (conds pre @ expr_events c @ es) t"
| if_else: "run_seq b es t \<Longrightarrow> run (SIf arms (Some b) sp) (conds arms @ es) t"
| if_skip: "run (SIf arms None sp) (conds arms) True"
| case_arm: "CaseArm ls b asp \<in> set arms \<Longrightarrow> run_seq b es t \<Longrightarrow> run (SCase x arms els sp) (expr_events x @ es) t"
| case_else: "run_seq b es t \<Longrightarrow> run (SCase x arms (Some b) sp) (expr_events x @ es) t"
| guard_arm: "GuardArm y ysp ty b asp \<in> set arms \<Longrightarrow> run_seq b es t \<Longrightarrow> run (SGuard x arms els sp) (expr_events x @ es) t"
| guard_else: "run_seq b es t \<Longrightarrow> run (SGuard x arms (Some b) sp) (expr_events x @ es) t"
| while_end: "run (SWhile c b sp) (expr_events c) True"
| while_next: "run_seq b es True \<Longrightarrow> run (SWhile c b sp) fs t \<Longrightarrow> run (SWhile c b sp) (expr_events c @ es @ fs) t"
| while_exit: "run_seq b es False \<Longrightarrow> run (SWhile c b sp) (expr_events c @ es) True"
| repeat_end: "run_seq b es True \<Longrightarrow> run (SRepeat b c sp) (es @ expr_events c) True"
| repeat_next: "run_seq b es True \<Longrightarrow> run (SRepeat b c sp) fs t \<Longrightarrow> run (SRepeat b c sp) (es @ expr_events c @ fs) t"
| repeat_exit: "run_seq b es False \<Longrightarrow> run (SRepeat b c sp) es True"
| for_rounds: "run (SWhile (ENil sp) b sp) es t \<Longrightarrow>
     run (SFor x lo hi st b sp) (expr_events lo @ expr_events hi @ step_events st @ es) t"
| loop_next: "run_seq b es True \<Longrightarrow> run (SLoop b sp) fs t \<Longrightarrow> run (SLoop b sp) (es @ fs) t"
| loop_exit: "run_seq b es False \<Longrightarrow> run (SLoop b sp) es True"
| with_body: "run_seq b es t \<Longrightarrow> run (SWith d b sp) (designator_events d @ es) t"

text \<open>The state of one variable along a run.\<close>

fun track :: "string \<Rightarrow> heap_event list \<Rightarrow> alloc_state \<Rightarrow> alloc_state" where
  "track p [] a = a"
| "track p (e # es) a = track p es
     (if e = News p then Alloc else if e = Disposes p then Disposed else if e = Sets p then Unknown else a)"

lemma track_append [simp]: "track p (es @ fs) a = track p fs (track p es a)"
  by (induction es arbitrary: a) auto

section \<open>Programs the analysis covers\<close>

text \<open>No EXIT, no nested block (the parser builds none), no elements in set constructors.\<close>

fun expr_plain :: "expr \<Rightarrow> bool"
and designator_plain :: "designator \<Rightarrow> bool"
and selector_plain :: "selector \<Rightarrow> bool" where
  "expr_plain (EDesignator d) = designator_plain d"
| "expr_plain (ECall callee args sp) = (expr_plain callee \<and> list_all expr_plain args)"
| "expr_plain (EBinary opr l r sp) = (expr_plain l \<and> expr_plain r)"
| "expr_plain (EUnary opr x sp) = expr_plain x"
| "expr_plain (ESet b es sp) = (es = [])"
| "expr_plain e = True"
| "designator_plain (Designator b ss sp) = list_all selector_plain ss"
| "selector_plain (SIndex es sp) = list_all expr_plain es"
| "selector_plain s = True"

definition step_plain :: "expr option \<Rightarrow> bool" where
  "step_plain st = (case st of None \<Rightarrow> True | Some e \<Rightarrow> expr_plain e)"

fun plain :: "stmt \<Rightarrow> bool" where
  "plain (SEmpty sp) = True"
| "plain (SCall e sp) = expr_plain e"
| "plain (SAssign d e sp) = (designator_plain d \<and> expr_plain e)"
| "plain (SIf arms els sp) = (list_all (\<lambda>(c, b). expr_plain c \<and> list_all plain b) arms \<and>
     (case els of None \<Rightarrow> True | Some b \<Rightarrow> list_all plain b))"
| "plain (SCase e arms els sp) = (expr_plain e \<and> list_all (\<lambda>a. case a of CaseArm ls b asp \<Rightarrow> list_all plain b) arms \<and>
     (case els of None \<Rightarrow> True | Some b \<Rightarrow> list_all plain b))"
| "plain (SGuard e arms els sp) = (expr_plain e \<and> list_all (\<lambda>a. case a of GuardArm x xsp ty b asp \<Rightarrow> list_all plain b) arms \<and>
     (case els of None \<Rightarrow> True | Some b \<Rightarrow> list_all plain b))"
| "plain (SWhile c b sp) = (expr_plain c \<and> list_all plain b)"
| "plain (SRepeat b c sp) = (expr_plain c \<and> list_all plain b)"
| "plain (SFor x lo hi st b sp) = (expr_plain lo \<and> expr_plain hi \<and> step_plain st \<and> list_all plain b)"
| "plain (SLoop b sp) = list_all plain b"
| "plain (SWith d b sp) = (designator_plain d \<and> list_all plain b)"
| "plain (SExit sp) = False"
| "plain (SBlock b) = False"
| "plain (SReturn e sp) = True"
| "plain (SRaise e sp) = True"
| "plain (SRetry sp) = True"

lemma plain_runs_through: "run s es t \<Longrightarrow> plain s \<Longrightarrow> t" "run_seq ss es t \<Longrightarrow> list_all plain ss \<Longrightarrow> t"
  by (induction rule: run_run_seq.inducts) (auto simp: list_all_iff)

section \<open>Expressions\<close>

lemma fold_keeps: "(\<And>x w. x \<in> set xs \<Longrightarrow> P w \<Longrightarrow> P (f x w)) \<Longrightarrow> P v \<Longrightarrow> P (fold f xs v)"
  by (induction xs arbitrary: v) auto

text \<open>The same table of states, and no fewer escapes.\<close>

definition same_states :: "vars \<Rightarrow> vars \<Rightarrow> bool" where
  "same_states v w \<longleftrightarrow> vs_st w = vs_st v \<and> set (vs_escaped v) \<subseteq> set (vs_escaped w)"

lemma same_states_refl [simp]: "same_states v v"
  by (simp add: same_states_def)

lemma same_states_trans: "same_states u v \<Longrightarrow> same_states v w \<Longrightarrow> same_states u w"
  by (auto simp: same_states_def)

lemma same_states_fold:
  "same_states u v \<Longrightarrow> (\<And>x w. x \<in> set xs \<Longrightarrow> same_states w (f x w)) \<Longrightarrow> same_states u (fold f xs v)"
  by (rule fold_keeps [where P = "same_states u"]) (auto intro: same_states_trans)

lemma scan_base_same: "same_states v (scan_base mid d v)"
  by (auto simp: same_states_def scan_base_def warn_def Let_def split: list.splits)

lemma scan_expr_same:
  "same_states v (scan_expr mid e v)" "same_states v (scan_designator mid d v)" "same_states v (scan_selector mid s v)"
proof (induction mid e v and mid d v and mid s v rule: scan_expr_scan_designator_scan_selector.induct)
  case (2 mid callee args sp v)
  then show ?case by (auto intro!: same_states_fold)
next
  case (3 mid opr l r sp v)
  then show ?case by (auto intro: same_states_trans)
next
  case (6 mid b ss sp v)
  then show ?case by (auto intro!: same_states_fold scan_base_same)
next
  case (7 mid es sp v)
  then show ?case by (auto intro!: same_states_fold)
qed auto

definition reads_escape :: "heap_event list \<Rightarrow> vars \<Rightarrow> bool" where
  "reads_escape es w \<longleftrightarrow> (\<forall>p. Reads p \<in> set es \<longrightarrow> p \<in> set (vs_escaped w))"

lemma reads_escape_simps [simp]: "reads_escape [] w" "reads_escape (es @ fs) w \<longleftrightarrow> reads_escape es w \<and> reads_escape fs w"
  "reads_escape (News p # es) w = reads_escape es w" "reads_escape (Disposes p # es) w = reads_escape es w"
  "reads_escape (Sets p # es) w = reads_escape es w"
  by (auto simp: reads_escape_def)

lemma reads_escape_same: "same_states v w \<Longrightarrow> reads_escape es v \<Longrightarrow> reads_escape es w"
  by (auto simp: reads_escape_def same_states_def)

lemma reads_escape_fold:
  assumes "\<And>x w. x \<in> set xs \<Longrightarrow> reads_escape (g x) (f x w)" "\<And>x w. x \<in> set xs \<Longrightarrow> same_states w (f x w)"
  shows "reads_escape (concat (map g xs)) (fold f xs v)"
  using assms
proof (induction xs arbitrary: v)
  case (Cons x xs)
  have "same_states (f x v) (fold f xs (f x v))" using Cons.prems(2) by (auto intro!: same_states_fold)
  then show ?case using Cons.IH [of "f x v"] Cons.prems reads_escape_same by auto
qed auto

lemma scan_base_reads:
  "reads_escape (case simple_designator d of Some p \<Rightarrow> [Reads p] | None \<Rightarrow> []) (scan_base mid d v)"
  by (auto simp: reads_escape_def scan_base_def simple_designator_def Let_def warn_def split: list.splits option.splits)

lemma scan_expr_reads:
  "expr_plain e \<Longrightarrow> reads_escape (expr_events e) (scan_expr mid e v)"
  "designator_plain d \<Longrightarrow> reads_escape (designator_events d) (scan_designator mid d v)"
  "selector_plain s \<Longrightarrow> reads_escape (selector_events s) (scan_selector mid s v)"
proof (induction mid e v and mid d v and mid s v rule: scan_expr_scan_designator_scan_selector.induct)
  case (2 mid callee args sp v)
  let ?w = "if simple_var callee \<noteq> None then v else scan_expr mid callee v"
  have "reads_escape (if simple_var callee \<noteq> None then [] else expr_events callee) ?w" using 2 by auto
  then have "reads_escape (if simple_var callee \<noteq> None then [] else expr_events callee) (fold (scan_expr mid) args ?w)"
    by (rule reads_escape_same [rotated]) (auto intro!: same_states_fold scan_expr_same)
  moreover have "reads_escape (concat (map expr_events args)) (fold (scan_expr mid) args ?w)"
    using 2 by (intro reads_escape_fold scan_expr_same) (auto simp: list_all_iff)
  ultimately show ?case by simp
next
  case (3 mid opr l r sp v)
  then show ?case using reads_escape_same [OF scan_expr_same(1)] by auto
next
  case (6 mid b ss sp v)
  let ?d = "Designator b ss sp"
  have "reads_escape (case simple_designator ?d of Some p \<Rightarrow> [Reads p] | None \<Rightarrow> []) (fold (scan_selector mid) ss (scan_base mid ?d v))"
    by (rule reads_escape_same [OF same_states_fold [OF same_states_refl] scan_base_reads]) (rule scan_expr_same)
  moreover have "reads_escape (concat (map selector_events ss)) (fold (scan_selector mid) ss (scan_base mid ?d v))"
    using 6 by (intro reads_escape_fold scan_expr_same) (auto simp: list_all_iff)
  ultimately show ?case by simp
next
  case (7 mid es sp v)
  then show ?case by (auto simp: list_all_iff intro!: reads_escape_fold scan_expr_same)
qed auto

lemma track_concat: "(\<And>x. x \<in> set xs \<Longrightarrow> track p (g x) a = a) \<Longrightarrow> track p (concat (map g xs)) a = a"
  by (induction xs) auto

lemma expr_events_quiet:
  "track p (expr_events e) a = a" "track p (designator_events d) a = a" "track p (selector_events s) a = a" "track p (elem_events x) a = a"
proof (induction e and d and s and x rule: expr_events_designator_events_selector_events_elem_events.induct)
qed (auto intro!: track_concat split: option.splits)

section \<open>Branches and joins\<close>

text \<open>A later state of the walk over the arms of a statement.\<close>

definition later :: "vars \<times> string list \<Rightarrow> vars \<times> string list \<Rightarrow> bool" where
  "later vt wt \<longleftrightarrow> same_states (fst vt) (fst wt) \<and> set (snd vt) \<subseteq> set (snd wt)"

lemma later_refl [simp]: "later vt vt"
  by (simp add: later_def)

lemma later_trans: "later ut vt \<Longrightarrow> later vt wt \<Longrightarrow> later ut wt"
  by (auto simp: later_def intro: same_states_trans)

lemma later_fold: "later ut vt \<Longrightarrow> (\<And>x wt. x \<in> set xs \<Longrightarrow> later wt (f x wt)) \<Longrightarrow> later ut (fold f xs vt)"
  by (rule fold_keeps [where P = "later ut"]) (auto intro: later_trans)

lemma set_fold_insert: "set (fold List.insert xs ys) = set xs \<union> set ys"
  by (induction xs arbitrary: ys) auto

lemma fold_touched:
  "set (fold (\<lambda>(k, a) t. if m k \<noteq> Some a then List.insert k t else t) xs t) = set t \<union> {k. \<exists>a. (k, a) \<in> set xs \<and> m k \<noteq> Some a}"
  by (induction xs arbitrary: t) (auto split: if_splits)

lemma scan_branch_later: "later vt (scan_branch f b vt)"
  by (auto simp: later_def scan_branch_def Let_def same_states_def set_fold_insert fold_touched)

lemma scan_else_later: "later vt (scan_else f els vt)"
  by (simp add: scan_else_def scan_branch_later split: option.split)

lemma forget_fields:
  "st_of (forget vt) p = (if p \<in> set (snd vt) then Some Unknown else st_of (fst vt) p)" "vs_escaped (forget vt) = vs_escaped (fst vt)"
proof -
  have "st_of (fold (\<lambda>q v. set_st q Unknown v) t v) p = (if p \<in> set t then Some Unknown else st_of v p) \<and>
      vs_escaped (fold (\<lambda>q v. set_st q Unknown v) t v) = vs_escaped v" for t v
    by (induction t arbitrary: v) (auto simp: st_of_def set_st_def update_conv')
  then show "st_of (forget vt) p = (if p \<in> set (snd vt) then Some Unknown else st_of (fst vt) p)"
    "vs_escaped (forget vt) = vs_escaped (fst vt)" by (simp_all add: forget_def)
qed

text \<open>Walking a statement loses no escape and no variable of the table.\<close>

definition grows :: "vars \<Rightarrow> vars \<Rightarrow> bool" where
  "grows v w \<longleftrightarrow> set (vs_escaped v) \<subseteq> set (vs_escaped w) \<and> (\<forall>p. st_of v p \<noteq> None \<longrightarrow> st_of w p \<noteq> None)"

lemma scan_grows_trans: "grows u v \<Longrightarrow> grows v w \<Longrightarrow> grows u w"
  by (auto simp: grows_def)

lemma grows_same: "same_states v w \<Longrightarrow> grows v w"
  by (simp add: grows_def same_states_def st_of_def)

lemma grows_forget:
  assumes "later (v, t) wt"
  shows "grows v (forget wt)"
proof -
  have "st_of (fst wt) = st_of v" using assms by (simp add: later_def same_states_def st_of_def fun_eq_iff)
  then show ?thesis using assms by (auto simp: grows_def forget_fields later_def same_states_def)
qed

lemma grows_fold: "(\<And>x w. x \<in> set xs \<Longrightarrow> grows w (f x w)) \<Longrightarrow> grows v (fold f xs v)"
  by (rule fold_keeps [where P = "grows v"]) (auto intro: scan_grows_trans simp: grows_same)

lemma scan_args_same: "same_states v (fold (scan_expr mid) args v)"
  by (auto intro: same_states_fold scan_expr_same)

lemma call_stmt_cases:
  obtains (new) p sp args where "call_events e = News p # concat (map expr_events args)" "expr_plain e \<Longrightarrow> list_all expr_plain args"
      "call_stmt mid e v = fold (scan_expr mid) args
         ((set_st p Alloc (if st_of v p = Some Alloc then warn mid sp (again_message p) v else v))
            \<lparr>vs_new_span := AList.update p sp (vs_new_span v)\<rparr>)"
  | (dispose) p sp args where "call_events e = Disposes p # concat (map expr_events args)" "expr_plain e \<Longrightarrow> list_all expr_plain args"
      "call_stmt mid e v = fold (scan_expr mid) args
         (set_st p Disposed (if st_of v p = Some Disposed then warn mid sp (double_message p) v else v))"
  | (plain) "call_events e = expr_events e" "call_stmt mid e v = scan_expr mid e v"
proof (cases "\<exists>name a args p sp. as_builtin_call e = Some (name, a # args) \<and> simple_var a = Some (p, sp)")
  case True
  then obtain name a args p sp where b: "as_builtin_call e = Some (name, a # args)" "simple_var a = Some (p, sp)" by blast
  have pl: "expr_plain e \<Longrightarrow> list_all expr_plain args"
    using b(1) by (auto simp: as_builtin_call_def split: expr.splits option.splits)
  consider "name = ''NEW''" | "name \<noteq> ''NEW''" "name = ''DISPOSE'' \<or> name = ''DESTROY''"
    | "name \<noteq> ''NEW''" "\<not> (name = ''DISPOSE'' \<or> name = ''DESTROY'')" by blast
  then show thesis
  proof cases
    case 1
    then show thesis using b pl by (intro new [of p args sp]) (simp_all add: call_events_def call_stmt_def)
  next
    case 2
    then show thesis using b pl by (intro dispose [of p args sp]) (auto simp: call_events_def call_stmt_def)
  next
    case 3
    then show thesis using b by (intro plain) (simp_all add: call_events_def call_stmt_def)
  qed
next
  case False
  have "call_events e = expr_events e \<and> call_stmt mid e v = scan_expr mid e v"
    using False by (auto simp: call_events_def call_stmt_def split: option.splits list.splits)
  then show thesis using plain by blast
qed

lemma call_stmt_grows: "grows v (call_stmt mid e v)"
proof (cases e mid v rule: call_stmt_cases)
  case (new p sp args)
  have "grows v ((set_st p Alloc (if st_of v p = Some Alloc then warn mid sp (again_message p) v else v))
      \<lparr>vs_new_span := AList.update p sp (vs_new_span v)\<rparr>)"
    by (auto simp: grows_def st_of_def set_st_def warn_def update_conv')
  then show ?thesis unfolding new(3) by (rule scan_grows_trans [OF _ grows_same [OF scan_args_same]])
next
  case (dispose p sp args)
  have "grows v (set_st p Disposed (if st_of v p = Some Disposed then warn mid sp (double_message p) v else v))"
    by (auto simp: grows_def st_of_def set_st_def warn_def update_conv')
  then show ?thesis unfolding dispose(3) by (rule scan_grows_trans [OF _ grows_same [OF scan_args_same]])
next
  case plain
  then show ?thesis by (simp add: grows_same scan_expr_same)
qed

lemma assign_stmt_grows: "grows v (assign_stmt mid d e v)"
proof -
  have "same_states v (scan_designator mid d (scan_expr mid e v))" by (rule same_states_trans [OF scan_expr_same(1) scan_expr_same(2)])
  then have 1: "grows v (scan_designator mid d (scan_expr mid e v))" by (rule grows_same)
  moreover have "grows w (set_st p a w)" for p a w by (auto simp: grows_def st_of_def set_st_def update_conv')
  ultimately show ?thesis by (auto simp: assign_stmt_def Let_def split: option.split intro: scan_grows_trans)
qed

lemma scan_arm_later: "later wt (scan_branch f b (scan_expr mid c (fst wt), snd wt))"
  by (rule later_trans [OF _ scan_branch_later]) (simp add: later_def scan_expr_same)

lemma if_arms_later: "later vt (fold (\<lambda>(c, b) (w, t). scan_branch f b (scan_expr mid c w, t)) arms vt)"
  by (rule later_fold) (auto split: prod.split simp: scan_arm_later [of "(w, t)" for w t, simplified])

lemma case_arms_later: "later vt (fold (\<lambda>a vt. case a of CaseArm ls b asp \<Rightarrow> scan_branch f b vt) arms vt)"
  by (rule later_fold) (auto split: case_arm.split simp: scan_branch_later)

lemma guard_arms_later: "later vt (fold (\<lambda>a vt. case a of GuardArm x xsp ty b asp \<Rightarrow> scan_branch f b vt) arms vt)"
  by (rule later_fold) (auto split: guard_arm.split simp: scan_branch_later)

lemma scan_stmt_grows: "grows v (scan_stmt mid s v)"
proof (induction mid s v rule: scan_stmt.induct)
  case (3 mid arms els sp v)
  show ?case unfolding scan_stmt.simps by (rule grows_forget [OF later_trans [OF if_arms_later scan_else_later]])
next
  case (4 mid e arms els sp v)
  show ?case unfolding scan_stmt.simps
    by (rule scan_grows_trans [OF grows_same [OF scan_expr_same(1)] grows_forget [OF later_trans [OF case_arms_later scan_else_later]]])
next
  case (5 mid e arms els sp v)
  show ?case unfolding scan_stmt.simps
    by (rule scan_grows_trans [OF grows_same [OF scan_expr_same(1)] grows_forget [OF later_trans [OF guard_arms_later scan_else_later]]])
next
  case (6 mid c b sp v)
  show ?case unfolding scan_stmt.simps
    by (rule scan_grows_trans [OF grows_same [OF scan_expr_same(1)] grows_forget [OF scan_branch_later]])
next
  case (7 mid b c sp v)
  obtain w t where b: "scan_branch (scan_stmt mid) b (v, []) = (w, t)" by fastforce
  have "later (v, []) (w, t)" using scan_branch_later [of "(v, [])" "scan_stmt mid" b] b by simp
  moreover have "later (w, t) (scan_expr mid c w, t)" by (simp add: later_def scan_expr_same)
  ultimately show ?case using b later_trans grows_forget by fastforce
next
  case (8 mid x lo hi st b sp v)
  let ?v = "(case st of None \<Rightarrow> (\<lambda>w. w) | Some e \<Rightarrow> scan_expr mid e) (scan_expr mid hi (scan_expr mid lo v))"
  have "same_states v ?v"
    by (cases st) (simp_all, (meson same_states_trans scan_expr_same(1))+)
  then show ?case unfolding scan_stmt.simps by (rule scan_grows_trans [OF grows_same grows_forget [OF scan_branch_later]])
next
  case (9 mid b sp v)
  show ?case unfolding scan_stmt.simps by (rule grows_forget [OF scan_branch_later])
next
  case (10 mid d b sp v)
  show ?case unfolding scan_stmt.simps
    by (rule scan_grows_trans [OF grows_same [OF scan_expr_same(2)] grows_forget [OF scan_branch_later]])
qed (auto intro: call_stmt_grows assign_stmt_grows grows_same scan_expr_same grows_fold)

section \<open>Runs are followed\<close>

definition agrees :: "alloc_state option \<Rightarrow> alloc_state \<Rightarrow> bool" where
  "agrees st a \<longleftrightarrow> st = None \<or> st = Some Unknown \<or> st = Some a"

lemma conds_append [simp]: "conds (as @ bs) = conds as @ conds bs"
  by (induction as) auto

definition conds_plain :: "(expr \<times> stmt list) list \<Rightarrow> bool" where
  "conds_plain arms \<longleftrightarrow> (\<forall>x \<in> set arms. expr_plain (fst x))"

lemma conds_plain_simps [simp]: "conds_plain []" "conds_plain (x # xs) \<longleftrightarrow> expr_plain (fst x) \<and> conds_plain xs"
  "conds_plain (xs @ ys) \<longleftrightarrow> conds_plain xs \<and> conds_plain ys"
  by (auto simp: conds_plain_def)

abbreviation walk_arms :: "(stmt \<Rightarrow> vars \<Rightarrow> vars) \<Rightarrow> nat \<Rightarrow> (expr \<times> stmt list) list \<Rightarrow> vars \<times> string list \<Rightarrow> vars \<times> string list" where
  "walk_arms f mid arms vt \<equiv> fold (\<lambda>(c, b) (w, t). scan_branch f b (scan_expr mid c w, t)) arms vt"

abbreviation walk_cases :: "(stmt \<Rightarrow> vars \<Rightarrow> vars) \<Rightarrow> case_arm list \<Rightarrow> vars \<times> string list \<Rightarrow> vars \<times> string list" where
  "walk_cases f arms vt \<equiv> fold (\<lambda>a vt. case a of CaseArm ls b asp \<Rightarrow> scan_branch f b vt) arms vt"

abbreviation walk_guards :: "(stmt \<Rightarrow> vars \<Rightarrow> vars) \<Rightarrow> guard_arm list \<Rightarrow> vars \<times> string list \<Rightarrow> vars \<times> string list" where
  "walk_guards f arms vt \<equiv> fold (\<lambda>a vt. case a of GuardArm x xsp ty b asp \<Rightarrow> scan_branch f b vt) arms vt"

lemma branch_touches:
  assumes "agrees (st_of (fold f b (fst vt)) p) a" "grows (fst vt) (fold f b (fst vt))" "later (scan_branch f b vt) wt"
  shows "p \<in> set (snd wt) \<or> agrees (st_of (fst vt) p) a"
proof (cases "st_of (fold f b (fst vt)) p")
  case None
  then have "st_of (fst vt) p = None" using assms(2) by (auto simp: grows_def)
  then show ?thesis by (simp add: agrees_def)
next
  case (Some x)
  then have "(p, x) \<in> set (vs_st (fold f b (fst vt)))" by (auto simp: st_of_def dest: map_of_SomeD)
  then have "st_of (fst vt) p = Some x \<or> p \<in> set (snd (scan_branch f b vt))"
    by (auto simp: scan_branch_def Let_def fold_touched st_of_def)
  then show ?thesis using assms(1,3) Some by (auto simp: agrees_def later_def)
qed

lemma forget_agrees:
  assumes "later vt wt" "p \<in> set (snd wt) \<or> agrees (st_of (fst vt) p) a"
  shows "agrees (st_of (forget wt) p) a"
proof -
  have "st_of (fst wt) p = st_of (fst vt) p" using assms(1) by (simp add: later_def same_states_def st_of_def)
  then show ?thesis using assms(2) by (auto simp: forget_fields agrees_def)
qed

lemma branch_reads:
  assumes "reads_escape es (fold f b (fst vt))" "later (scan_branch f b vt) wt"
  shows "reads_escape es (forget wt)"
  using assms by (auto simp: reads_escape_def forget_fields later_def same_states_def scan_branch_def Let_def set_fold_insert)

lemma reads_later: "reads_escape es (fst vt) \<Longrightarrow> later vt wt \<Longrightarrow> reads_escape es (forget wt)"
  by (auto simp: reads_escape_def forget_fields later_def same_states_def)

lemma states_of_expr [simp]: "st_of (scan_expr mid e v) p = st_of v p" "st_of (scan_designator mid d v) p = st_of v p"
  using scan_expr_same(1) [of v mid e] scan_expr_same(2) [of v mid d] by (simp_all add: st_of_def same_states_def)

lemma if_arm_final:
  "\<exists>vt. later (v, []) vt \<and> (conds_plain pre \<longrightarrow> reads_escape (conds pre) (fst vt)) \<and>
     later (scan_branch f b (scan_expr mid c (fst vt), snd vt)) (scan_else f els (walk_arms f mid (pre @ (c, b) # post) (v, [])))"
proof -
  let ?vt = "walk_arms f mid pre (v, [])"
  have reads: "conds_plain as \<Longrightarrow> reads_escape (conds as) (fst (walk_arms f mid as vt))" for as vt
  proof (induction as arbitrary: vt)
    case (Cons x as)
    obtain d e where x: "x = (d, e)" by fastforce
    let ?wt = "scan_branch f e (scan_expr mid d (fst vt), snd vt)"
    have "reads_escape (expr_events d) (scan_expr mid d (fst vt))" using Cons.prems x by (intro scan_expr_reads) simp
    moreover have "later (scan_expr mid d (fst vt), snd vt) (walk_arms f mid as ?wt)"
      by (rule later_trans [OF scan_branch_later if_arms_later])
    ultimately have "reads_escape (expr_events d) (fst (walk_arms f mid as ?wt))"
      by (auto simp: later_def intro: reads_escape_same)
    then show ?case using Cons x by (auto simp: case_prod_unfold)
  qed simp
  have "later (scan_branch f b (scan_expr mid c (fst ?vt), snd ?vt)) (scan_else f els (walk_arms f mid (pre @ (c, b) # post) (v, [])))"
    using later_trans [OF if_arms_later scan_else_later] by (auto simp: case_prod_unfold)
  then show ?thesis using reads if_arms_later by blast
qed

lemma conds_final: "conds_plain arms \<Longrightarrow> reads_escape (conds arms) (fst (walk_arms f mid arms (v, [])))"
proof (induction arms rule: rev_induct)
  case (snoc x arms)
  obtain c b where x: "x = (c, b)" by fastforce
  let ?vt = "walk_arms f mid arms (v, [])"
  have "reads_escape (conds arms) (fst ?vt)" using snoc by simp
  moreover have "reads_escape (expr_events c) (scan_expr mid c (fst ?vt))" using snoc.prems x by (intro scan_expr_reads) simp
  moreover have "later ?vt (scan_expr mid c (fst ?vt), snd ?vt)" by (simp add: later_def scan_expr_same)
  moreover have "later (scan_expr mid c (fst ?vt), snd ?vt) (scan_branch f b (scan_expr mid c (fst ?vt), snd ?vt))"
    by (rule scan_branch_later)
  ultimately show ?case using x reads_escape_same by (fastforce simp: later_def case_prod_unfold)
qed simp

lemma case_arm_final:
  assumes "CaseArm ls b asp \<in> set arms"
  shows "\<exists>vt. later vt0 vt \<and> later (scan_branch f b vt) (scan_else f els (walk_cases f arms vt0))"
proof -
  obtain pre post where arms: "arms = pre @ CaseArm ls b asp # post" using split_list [OF assms] by blast
  have "later (scan_branch f b (walk_cases f pre vt0)) (scan_else f els (walk_cases f arms vt0))"
    using later_trans [OF case_arms_later scan_else_later] by (simp add: arms)
  then show ?thesis using case_arms_later by blast
qed

lemma guard_arm_final:
  assumes "GuardArm y ysp ty b asp \<in> set arms"
  shows "\<exists>vt. later vt0 vt \<and> later (scan_branch f b vt) (scan_else f els (walk_guards f arms vt0))"
proof -
  obtain pre post where arms: "arms = pre @ GuardArm y ysp ty b asp # post" using split_list [OF assms] by blast
  have "later (scan_branch f b (walk_guards f pre vt0)) (scan_else f els (walk_guards f arms vt0))"
    using later_trans [OF guard_arms_later scan_else_later] by (simp add: arms)
  then show ?thesis using guard_arms_later by blast
qed

lemma events_quiet [simp]: "track p (conds arms) a = a" "track p (step_events st) a = a" "track p (concat (map expr_events args)) a = a"
  "track p (concat (map selector_events ss)) a = a"
  by (induction arms) (auto simp: expr_events_quiet step_events_def intro!: track_concat split: option.split)

declare expr_events_quiet [simp]

lemma states_of_fold [simp]: "st_of (fold (scan_expr mid) args v) p = st_of v p"
  using scan_args_same [of v mid args] by (simp add: st_of_def same_states_def)

lemma st_of_updates [simp]: "st_of (set_st q x v) p = (if p = q then Some x else st_of v p)"
  "st_of (warn mid sp msg v) p = st_of v p" "st_of (v\<lparr>vs_new_span := ns\<rparr>) p = st_of v p"
  by (auto simp: st_of_def set_st_def warn_def update_conv')

lemma call_agrees: "agrees (st_of v p) a \<Longrightarrow> agrees (st_of (call_stmt mid e v) p) (track p (call_events e) a)"
proof (cases e mid v rule: call_stmt_cases)
  case (new q sp args)
  assume "agrees (st_of v p) a"
  then show ?thesis unfolding new by (auto simp: agrees_def)
next
  case (dispose q sp args)
  assume "agrees (st_of v p) a"
  then show ?thesis unfolding dispose by (auto simp: agrees_def)
next
  case plain
  assume "agrees (st_of v p) a"
  then show ?thesis unfolding plain by simp
qed

lemma assign_agrees: "agrees (st_of v p) a \<Longrightarrow> agrees (st_of (assign_stmt mid d e v) p) (track p (assign_events d e) a)"
  by (cases "simple_designator d") (auto simp: assign_stmt_def assign_events_def Let_def agrees_def)

lemma scan_stmts_grows: "grows v (fold (scan_stmt mid) b v)"
  by (rule grows_fold) (rule scan_stmt_grows)

lemma body_agrees:
  assumes "agrees (st_of (fold (scan_stmt mid) b (fst vt)) p) a" "later (scan_branch (scan_stmt mid) b vt) wt"
  shows "agrees (st_of (forget wt) p) a"
  using forget_agrees [OF later_trans [OF scan_branch_later assms(2)]] branch_touches [OF assms(1) scan_stmts_grows assms(2)] by blast

lemma loop_agrees:
  assumes "agrees (st_of (fold (scan_stmt mid) b (fst vt)) p) a" "later (scan_branch (scan_stmt mid) b vt) wt"
    and "agrees (st_of (fst vt) p) a \<Longrightarrow> agrees (st_of (forget wt) p) a'"
  shows "agrees (st_of (forget wt) p) a'"
proof (cases "p \<in> set (snd wt)")
  case True
  then show ?thesis by (simp add: forget_fields agrees_def)
next
  case False
  then show ?thesis using branch_touches [OF assms(1) scan_stmts_grows assms(2)] assms(3) by blast
qed

lemma same_start: "later (v, t) wt \<Longrightarrow> st_of (fst wt) p = st_of v p"
  by (simp add: later_def same_states_def st_of_def)

lemma repeat_final:
  obtains wt where "scan_stmt mid (SRepeat b c sp) v = forget wt" "later (scan_branch (scan_stmt mid) b (v, [])) wt"
    "expr_plain c \<Longrightarrow> reads_escape (expr_events c) (forget wt)"
proof -
  obtain w t where b: "scan_branch (scan_stmt mid) b (v, []) = (w, t)" by fastforce
  let ?wt = "(scan_expr mid c w, t)"
  have "later (w, t) ?wt" by (simp add: later_def scan_expr_same)
  moreover have "reads_escape (expr_events c) (forget ?wt)" if "expr_plain c"
    using scan_expr_reads(1) [OF that, of mid w] by (intro reads_later [OF _ later_refl]) simp
  ultimately show thesis using b by (intro that [of ?wt]) simp_all
qed

lemma run_agrees:
  "run s es t \<Longrightarrow> plain s \<Longrightarrow> agrees (st_of v p) a \<Longrightarrow> agrees (st_of (scan_stmt mid s v) p) (track p es a)"
  "run_seq ss es t \<Longrightarrow> list_all plain ss \<Longrightarrow> agrees (st_of v p) a \<Longrightarrow> agrees (st_of (fold (scan_stmt mid) ss v) p) (track p es a)"
proof (induction arbitrary: v a and v a rule: run_run_seq.inducts)
  case (seq_exit s es ss)
  then show ?case using plain_runs_through(1) by fastforce
next
  case (run_call e sp)
  then show ?case by (simp add: call_agrees)
next
  case (run_assign d e sp)
  then show ?case by (simp add: assign_agrees)
next
  case (if_arm arms pre c b post es t els sp)
  obtain vt where vt: "later (v, []) vt"
      "later (scan_branch (scan_stmt mid) b (scan_expr mid c (fst vt), snd vt))
         (scan_else (scan_stmt mid) els (walk_arms (scan_stmt mid) mid arms (v, [])))"
    using if_arm_final [of v pre "scan_stmt mid" b mid c els post] if_arm.hyps(1) by blast
  have "agrees (st_of (fold (scan_stmt mid) b (scan_expr mid c (fst vt))) p) (track p es a)"
    using if_arm same_start [OF vt(1)] by (intro if_arm.IH) auto
  then show ?case using body_agrees [OF _ vt(2)] by simp
next
  case (if_else b es t arms sp)
  let ?vt = "walk_arms (scan_stmt mid) mid arms (v, [])"
  have "agrees (st_of (fold (scan_stmt mid) b (fst ?vt)) p) (track p es a)"
    using if_else same_start [OF if_arms_later] by (intro if_else.IH) auto
  then show ?case using body_agrees [OF _ later_refl] by (simp add: scan_else_def)
next
  case (if_skip arms sp)
  then show ?case using forget_agrees [OF if_arms_later [of "(v, [])"]] by (auto simp: scan_else_def)
next
  case (case_arm ls b asp arms es t x els sp)
  obtain vt where vt: "later (scan_expr mid x v, []) vt"
      "later (scan_branch (scan_stmt mid) b vt) (scan_else (scan_stmt mid) els (walk_cases (scan_stmt mid) arms (scan_expr mid x v, [])))"
    using case_arm_final [OF case_arm.hyps(1)] by blast
  have "agrees (st_of (fold (scan_stmt mid) b (fst vt)) p) (track p es a)"
    using case_arm same_start [OF vt(1)] by (intro case_arm.IH) (auto simp: list_all_iff)
  then show ?case using body_agrees [OF _ vt(2)] by simp
next
  case (case_else b es t x arms sp)
  let ?vt = "walk_cases (scan_stmt mid) arms (scan_expr mid x v, [])"
  have "agrees (st_of (fold (scan_stmt mid) b (fst ?vt)) p) (track p es a)"
    using case_else same_start [OF case_arms_later] by (intro case_else.IH) auto
  then show ?case using body_agrees [OF _ later_refl] by (simp add: scan_else_def)
next
  case (guard_arm y ysp ty b asp arms es t x els sp)
  obtain vt where vt: "later (scan_expr mid x v, []) vt"
      "later (scan_branch (scan_stmt mid) b vt) (scan_else (scan_stmt mid) els (walk_guards (scan_stmt mid) arms (scan_expr mid x v, [])))"
    using guard_arm_final [OF guard_arm.hyps(1)] by blast
  have "agrees (st_of (fold (scan_stmt mid) b (fst vt)) p) (track p es a)"
    using guard_arm same_start [OF vt(1)] by (intro guard_arm.IH) (auto simp: list_all_iff)
  then show ?case using body_agrees [OF _ vt(2)] by simp
next
  case (guard_else b es t x arms sp)
  let ?vt = "walk_guards (scan_stmt mid) arms (scan_expr mid x v, [])"
  have "agrees (st_of (fold (scan_stmt mid) b (fst ?vt)) p) (track p es a)"
    using guard_else same_start [OF guard_arms_later] by (intro guard_else.IH) auto
  then show ?case using body_agrees [OF _ later_refl] by (simp add: scan_else_def)
next
  case (while_end c b sp)
  then show ?case using forget_agrees [OF scan_branch_later] by simp
next
  case (while_next b es c sp fs t)
  have 1: "agrees (st_of (fold (scan_stmt mid) b (scan_expr mid c v)) p) (track p es a)"
    using while_next by (intro while_next.IH(1)) auto
  have 2: "agrees (st_of v p) (track p es a) \<Longrightarrow> agrees (st_of (scan_stmt mid (SWhile c b sp) v) p) (track p fs (track p es a))"
    using while_next.IH(2) while_next.prems(1) by blast
  show ?case
    using loop_agrees [of mid b "(scan_expr mid c v, [])" p "track p es a" _ "track p fs (track p es a)", OF _ later_refl] 1 2 by simp
next
  case (while_exit b es c sp)
  then show ?case using plain_runs_through(2) by fastforce
next
  case (repeat_end b es c sp)
  obtain wt where wt: "scan_stmt mid (SRepeat b c sp) v = forget wt" "later (scan_branch (scan_stmt mid) b (v, [])) wt"
    using repeat_final [of mid b c sp v] by blast
  show ?case using body_agrees [OF _ wt(2)] repeat_end wt(1) by simp
next
  case (repeat_next b es c sp fs t)
  obtain wt where wt: "scan_stmt mid (SRepeat b c sp) v = forget wt" "later (scan_branch (scan_stmt mid) b (v, [])) wt"
    using repeat_final [of mid b c sp v] by blast
  have 1: "agrees (st_of (fold (scan_stmt mid) b v) p) (track p es a)" using repeat_next by (intro repeat_next.IH(1)) auto
  have 2: "agrees (st_of v p) (track p es a) \<Longrightarrow> agrees (st_of (scan_stmt mid (SRepeat b c sp) v) p) (track p fs (track p es a))"
    using repeat_next.IH(2) repeat_next.prems(1) by blast
  show ?case
    using loop_agrees [of mid b "(v, [])" p "track p es a" wt "track p fs (track p es a)", OF _ wt(2)] 1 2 unfolding wt(1) by simp
next
  case (repeat_exit b es c sp)
  then show ?case using plain_runs_through(2) by fastforce
next
  case (for_rounds sp b es t x lo hi st)
  let ?v = "(case st of None \<Rightarrow> (\<lambda>w. w) | Some e \<Rightarrow> scan_expr mid e) (scan_expr mid hi (scan_expr mid lo v))"
  have "agrees (st_of ?v p) a" using for_rounds.prems by (simp split: option.split)
  then show ?case using for_rounds.IH [of ?v a] for_rounds.prems by simp
next
  case (loop_next b es sp fs t)
  have 1: "agrees (st_of (fold (scan_stmt mid) b v) p) (track p es a)" using loop_next by (intro loop_next.IH(1)) auto
  have 2: "agrees (st_of v p) (track p es a) \<Longrightarrow> agrees (st_of (scan_stmt mid (SLoop b sp) v) p) (track p fs (track p es a))"
    using loop_next.IH(2) loop_next.prems(1) by blast
  show ?case using loop_agrees [of mid b "(v, [])" p "track p es a" _ "track p fs (track p es a)", OF _ later_refl] 1 2 by simp
next
  case (loop_exit b es sp)
  then show ?case using plain_runs_through(2) by fastforce
next
  case (with_body b es t d sp)
  then show ?case using body_agrees [OF _ later_refl, of mid b "(scan_designator mid d v, [])"] by simp
qed auto

lemma call_stmt_reads: "expr_plain e \<Longrightarrow> reads_escape (call_events e) (call_stmt mid e v)"
proof (cases e mid v rule: call_stmt_cases)
  case (new p sp args)
  assume "expr_plain e"
  then show ?thesis using new(2) unfolding new(1,3)
    by (auto simp: list_all_iff intro!: reads_escape_fold scan_expr_reads scan_expr_same)
next
  case (dispose p sp args)
  assume "expr_plain e"
  then show ?thesis using dispose(2) unfolding dispose(1,3)
    by (auto simp: list_all_iff intro!: reads_escape_fold scan_expr_reads scan_expr_same)
next
  case plain
  assume "expr_plain e"
  then show ?thesis unfolding plain by (rule scan_expr_reads)
qed

lemma assign_reads:
  assumes "designator_plain d" "expr_plain e"
  shows "reads_escape (assign_events d e) (assign_stmt mid d e v)"
proof -
  let ?w = "scan_designator mid d (scan_expr mid e v)"
  have "reads_escape (expr_events e) ?w" by (rule reads_escape_same [OF scan_expr_same(2) scan_expr_reads(1) [OF assms(2)]])
  moreover have "reads_escape (concat (map selector_events (d_selectors d))) ?w"
    using scan_expr_reads(2) [OF assms(1), of mid "scan_expr mid e v"] by (cases d) simp
  ultimately have "reads_escape (assign_events d e) ?w" by (auto simp: assign_events_def split: option.split)
  moreover have "vs_escaped (assign_stmt mid d e v) = vs_escaped ?w"
    by (auto simp: assign_stmt_def Let_def set_st_def split: option.split)
  ultimately show ?thesis by (simp add: reads_escape_def)
qed

lemma grows_reads: "reads_escape es v \<Longrightarrow> grows v w \<Longrightarrow> reads_escape es w"
  by (auto simp: reads_escape_def grows_def)

lemma run_reads:
  "run s es t \<Longrightarrow> plain s \<Longrightarrow> reads_escape es (scan_stmt mid s v)"
  "run_seq ss es t \<Longrightarrow> list_all plain ss \<Longrightarrow> reads_escape es (fold (scan_stmt mid) ss v)"
proof (induction arbitrary: v and v rule: run_run_seq.inducts)
  case (seq_next s es ss fs t)
  then show ?case using grows_reads [OF _ scan_stmts_grows] by auto
next
  case (seq_exit s es ss)
  then show ?case using plain_runs_through(1) by fastforce
next
  case (run_call e sp)
  then show ?case by (simp add: call_stmt_reads)
next
  case (run_assign d e sp)
  then show ?case by (simp add: assign_reads)
next
  case (if_arm arms pre c b post es t els sp)
  let ?fin = "scan_else (scan_stmt mid) els (walk_arms (scan_stmt mid) mid arms (v, []))"
  have pl: "conds_plain pre" "expr_plain c" "list_all plain b"
    using if_arm.prems if_arm.hyps(1) by (auto simp: conds_plain_def list_all_iff)
  obtain vt where vt: "reads_escape (conds pre) (fst vt)" "later (scan_branch (scan_stmt mid) b (scan_expr mid c (fst vt), snd vt)) ?fin"
    using if_arm_final [of v pre "scan_stmt mid" b mid c els post] if_arm.hyps(1) pl(1) by blast
  let ?wt = "(scan_expr mid c (fst vt), snd vt)"
  have fin: "later ?wt ?fin" by (rule later_trans [OF scan_branch_later vt(2)])
  have "reads_escape (conds pre) (fst ?wt)" using reads_escape_same [OF scan_expr_same(1) vt(1)] by simp
  then have "reads_escape (conds pre) (forget ?fin)" by (rule reads_later [OF _ fin])
  moreover have "reads_escape (expr_events c) (forget ?fin)" by (rule reads_later [OF _ fin]) (simp add: scan_expr_reads pl(2))
  moreover have "reads_escape es (forget ?fin)" by (rule branch_reads [OF _ vt(2)]) (rule if_arm.IH [OF pl(3)])
  ultimately show ?case by simp
next
  case (if_else b es t arms sp)
  let ?vt = "walk_arms (scan_stmt mid) mid arms (v, [])"
  have "conds_plain arms" using if_else.prems by (auto simp: conds_plain_def list_all_iff)
  then have "reads_escape (conds arms) (fst ?vt)" by (rule conds_final)
  then have "reads_escape (conds arms) (forget (scan_branch (scan_stmt mid) b ?vt))" by (rule reads_later [OF _ scan_branch_later])
  moreover have "reads_escape es (forget (scan_branch (scan_stmt mid) b ?vt))"
    using if_else.prems by (intro branch_reads [OF if_else.IH later_refl]) simp
  ultimately show ?case by (simp add: scan_else_def)
next
  case (if_skip arms sp)
  have "conds_plain arms" using if_skip.prems by (auto simp: conds_plain_def list_all_iff)
  then show ?case using reads_later [OF conds_final later_refl] by (simp add: scan_else_def)
next
  case (case_arm ls b asp arms es t x els sp)
  let ?fin = "scan_else (scan_stmt mid) els (walk_cases (scan_stmt mid) arms (scan_expr mid x v, []))"
  obtain vt where vt: "later (scan_branch (scan_stmt mid) b vt) ?fin" using case_arm_final [OF case_arm.hyps(1)] by blast
  have "list_all plain b" using case_arm.prems case_arm.hyps(1) by (auto simp: list_all_iff)
  then have "reads_escape es (forget ?fin)" by (intro branch_reads [OF case_arm.IH vt])
  moreover have "reads_escape (expr_events x) (forget ?fin)"
    using case_arm.prems by (intro reads_later [OF _ later_trans [OF case_arms_later scan_else_later]]) (simp add: scan_expr_reads)
  ultimately show ?case by simp
next
  case (case_else b es t x arms sp)
  let ?fin = "scan_branch (scan_stmt mid) b (walk_cases (scan_stmt mid) arms (scan_expr mid x v, []))"
  have "reads_escape es (forget ?fin)" using case_else.prems by (intro branch_reads [OF case_else.IH later_refl]) simp
  moreover have "reads_escape (expr_events x) (forget ?fin)"
    using case_else.prems by (intro reads_later [OF _ later_trans [OF case_arms_later scan_branch_later]]) (simp add: scan_expr_reads)
  ultimately show ?case by (simp add: scan_else_def)
next
  case (guard_arm y ysp ty b asp arms es t x els sp)
  let ?fin = "scan_else (scan_stmt mid) els (walk_guards (scan_stmt mid) arms (scan_expr mid x v, []))"
  obtain vt where vt: "later (scan_branch (scan_stmt mid) b vt) ?fin" using guard_arm_final [OF guard_arm.hyps(1)] by blast
  have "list_all plain b" using guard_arm.prems guard_arm.hyps(1) by (auto simp: list_all_iff)
  then have "reads_escape es (forget ?fin)" by (intro branch_reads [OF guard_arm.IH vt])
  moreover have "reads_escape (expr_events x) (forget ?fin)"
    using guard_arm.prems by (intro reads_later [OF _ later_trans [OF guard_arms_later scan_else_later]]) (simp add: scan_expr_reads)
  ultimately show ?case by simp
next
  case (guard_else b es t x arms sp)
  let ?fin = "scan_branch (scan_stmt mid) b (walk_guards (scan_stmt mid) arms (scan_expr mid x v, []))"
  have "reads_escape es (forget ?fin)" using guard_else.prems by (intro branch_reads [OF guard_else.IH later_refl]) simp
  moreover have "reads_escape (expr_events x) (forget ?fin)"
    using guard_else.prems by (intro reads_later [OF _ later_trans [OF guard_arms_later scan_branch_later]]) (simp add: scan_expr_reads)
  ultimately show ?case by (simp add: scan_else_def)
next
  case (while_end c b sp)
  then show ?case using reads_later [OF _ scan_branch_later] by (simp add: scan_expr_reads)
next
  case (while_next b es c sp fs t)
  let ?vt = "(scan_expr mid c v, [])"
  have "reads_escape es (forget (scan_branch (scan_stmt mid) b ?vt))"
    using while_next.prems by (intro branch_reads [OF while_next.IH(1) later_refl]) simp
  moreover have "reads_escape (expr_events c) (forget (scan_branch (scan_stmt mid) b ?vt))"
    using while_next.prems by (intro reads_later [OF _ scan_branch_later]) (simp add: scan_expr_reads)
  moreover have "reads_escape fs (scan_stmt mid (SWhile c b sp) v)" using while_next by blast
  ultimately show ?case by simp
next
  case (while_exit b es c sp)
  then show ?case using plain_runs_through(2) by fastforce
next
  case (repeat_end b es c sp)
  obtain wt where wt: "scan_stmt mid (SRepeat b c sp) v = forget wt" "later (scan_branch (scan_stmt mid) b (v, [])) wt"
      "expr_plain c \<Longrightarrow> reads_escape (expr_events c) (forget wt)"
    using repeat_final [of mid b c sp v] by blast
  have "reads_escape es (forget wt)" using repeat_end.prems by (intro branch_reads [OF _ wt(2)] repeat_end.IH) simp
  then show ?case using wt repeat_end.prems by simp
next
  case (repeat_next b es c sp fs t)
  obtain wt where wt: "scan_stmt mid (SRepeat b c sp) v = forget wt" "later (scan_branch (scan_stmt mid) b (v, [])) wt"
      "expr_plain c \<Longrightarrow> reads_escape (expr_events c) (forget wt)"
    using repeat_final [of mid b c sp v] by blast
  have "reads_escape es (forget wt)" using repeat_next.prems by (intro branch_reads [OF _ wt(2)] repeat_next.IH(1)) simp
  moreover have "reads_escape fs (forget wt)" using repeat_next.IH(2) [OF repeat_next.prems, of v] wt(1) by simp
  ultimately show ?case using wt repeat_next.prems by simp
next
  case (repeat_exit b es c sp)
  then show ?case using plain_runs_through(2) by fastforce
next
  case (for_rounds sp b es t x lo hi st)
  let ?lo = "scan_expr mid lo v" let ?hi = "scan_expr mid hi ?lo"
  let ?v = "(case st of None \<Rightarrow> (\<lambda>w. w) | Some e \<Rightarrow> scan_expr mid e) ?hi"
  have "reads_escape (expr_events lo) ?hi" using for_rounds.prems
    by (intro reads_escape_same [OF scan_expr_same(1) scan_expr_reads(1)]) simp
  moreover have "reads_escape (expr_events hi) ?hi" using for_rounds.prems by (intro scan_expr_reads) simp
  moreover have "same_states ?hi ?v" by (simp add: scan_expr_same split: option.split)
  moreover have "reads_escape (step_events st) ?v" using for_rounds.prems
    by (auto simp: step_events_def step_plain_def intro: scan_expr_reads split: option.splits)
  ultimately have "reads_escape (expr_events lo @ expr_events hi @ step_events st) ?v" using reads_escape_same by auto
  then have "reads_escape (expr_events lo @ expr_events hi @ step_events st) (scan_stmt mid (SFor x lo hi st b sp) v)"
    unfolding scan_stmt.simps by (intro reads_later [OF _ scan_branch_later]) simp
  then show ?case using for_rounds.IH [of ?v] for_rounds.prems by simp
next
  case (loop_next b es sp fs t)
  have "reads_escape es (forget (scan_branch (scan_stmt mid) b (v, [])))"
    using loop_next.prems by (intro branch_reads [OF _ later_refl]) (simp add: loop_next.IH(1))
  then show ?case using loop_next.IH(2) [OF loop_next.prems, of v] by simp
next
  case (loop_exit b es sp)
  then show ?case using plain_runs_through(2) by fastforce
next
  case (with_body b es t d sp)
  let ?vt = "(scan_designator mid d v, [])"
  have "reads_escape es (forget (scan_branch (scan_stmt mid) b ?vt))"
    using with_body.prems by (intro branch_reads [OF _ later_refl]) (simp add: with_body.IH)
  moreover have "reads_escape (designator_events d) (forget (scan_branch (scan_stmt mid) b ?vt))"
    using with_body.prems by (intro reads_later [OF _ scan_branch_later]) (simp add: scan_expr_reads)
  ultimately show ?case by simp
qed simp_all

section \<open>Leaks\<close>

text \<open>The block of the last NEW is still there at the end of the run and its address was read nowhere.\<close>

definition leaked :: "string \<Rightarrow> heap_event list \<Rightarrow> bool" where
  "leaked p es \<longleftrightarrow> (\<exists>pre post. es = pre @ News p # post \<and> Disposes p \<notin> set post \<and> Sets p \<notin> set post) \<and> Reads p \<notin> set es"

lemma track_Alloc: "track p es a = Alloc \<Longrightarrow> a \<noteq> Alloc \<Longrightarrow>
    \<exists>pre post. es = pre @ News p # post \<and> Disposes p \<notin> set post \<and> Sets p \<notin> set post"
proof (induction es rule: rev_induct)
  case (snoc e es)
  show ?case
  proof (cases "e = News p")
    case True
    then show ?thesis by (intro exI [of _ es] exI [of _ "[]"]) simp
  next
    case False
    then have "track p es a = Alloc" "e \<noteq> Disposes p" "e \<noteq> Sets p" using snoc.prems(1) by (auto split: if_splits)
    then obtain pre post where "es = pre @ News p # post" "Disposes p \<notin> set post" "Sets p \<notin> set post"
      using snoc.IH snoc.prems(2) by blast
    then show ?thesis using \<open>e \<noteq> Disposes p\<close> \<open>e \<noteq> Sets p\<close> by (intro exI [of _ pre] exI [of _ "post @ [e]"]) auto
  qed
qed auto

lemma leaks_reported:
  "dg \<in> set (vs_diags (fold (leaks mid locals v) ns w)) \<Longrightarrow> dg \<in> set (vs_diags w) \<or>
    (\<exists>p \<in> set ns. p \<in> set locals \<and> st_of v p = Some Alloc \<and> p \<notin> set (vs_escaped v) \<and> dg_message dg = leak_message p)"
proof (induction ns arbitrary: w)
  case (Cons n ns)
  have "dg \<in> set (vs_diags (leaks mid locals v n w)) \<Longrightarrow> dg \<in> set (vs_diags w) \<or>
      n \<in> set locals \<and> st_of v n = Some Alloc \<and> n \<notin> set (vs_escaped v) \<and> dg_message dg = leak_message n"
    by (auto simp: leaks_def warn_def split: if_splits option.splits)
  then show ?case using Cons.IH [of "leaks mid locals v n w"] Cons.prems by (simp only: fold_simps list.set bex_simps) blast
qed simp


definition sample_span :: span where
  "sample_span = \<lparr>span_start = START, span_end = START\<rparr>"

definition sample_name :: "string \<Rightarrow> expr" where
  "sample_name x = EDesignator (Designator (simple x sample_span) [] sample_span)"

definition sample_call :: "string \<Rightarrow> string \<Rightarrow> stmt" where
  "sample_call f x = SCall (ECall (sample_name f) [sample_name x] sample_span) sample_span"

lemma sample_names [simp]: "simple_var (sample_name x) = Some (x, sample_span)" "expr_plain (sample_name x)"
  "as_builtin_call (ECall (sample_name f) args sp) = Some (f, args)"
  by (simp_all add: sample_name_def simple_var_def simple_designator_def as_builtin_call_def simple_def)

lemmas check_eval = check_body_def report_leaks_def leaks_def scan_stmts_def sample_call_def call_stmt_def call_events_def
  vars_new_def set_st_def st_of_def warn_def


text \<open>
  C2: The analysis raises false alarms. With an EXIT it reports a leak in a body whose run disposes of the block
  last, NEW(p); LOOP DISPOSE(p); EXIT; NEW(p) END. And assigning to a disposed pointer is reported as a use of
  it, though the run reads the pointer nowhere.\<close>

theorem heap_check_false_alarms:
  "(let loop = SLoop [sample_call ''DISPOSE'' ''p'', SExit sample_span, sample_call ''NEW'' ''p''] sample_span;
        body = [sample_call ''NEW'' ''p'', loop]
    in map dg_message (check_body 0 [''p''] body) = [leak_message ''p''] \<and> run_seq body [News ''p'', Disposes ''p''] True) \<and>
   (let body = [sample_call ''DISPOSE'' ''p'', SAssign (Designator (simple ''p'' sample_span) [] sample_span) (ENil sample_span) sample_span]
    in map dg_message (check_body 0 [''p''] body) = [use_message ''p''] \<and> run_seq body [Disposes ''p'', Sets ''p''] True)"
proof -
  have calls: "run (sample_call ''NEW'' ''p'') [News ''p''] True" "run (sample_call ''DISPOSE'' ''p'') [Disposes ''p''] True"
    using run_call [of "ECall (sample_name ''NEW'') [sample_name ''p''] sample_span" sample_span]
      run_call [of "ECall (sample_name ''DISPOSE'') [sample_name ''p''] sample_span" sample_span]
    by (simp_all add: sample_call_def call_events_def)
  have "run_seq [sample_call ''DISPOSE'' ''p'', SExit sample_span, sample_call ''NEW'' ''p''] ([Disposes ''p''] @ []) False"
    by (rule seq_next [OF calls(2) seq_exit [OF run_exit]])
  then have loop: "run (SLoop [sample_call ''DISPOSE'' ''p'', SExit sample_span, sample_call ''NEW'' ''p''] sample_span) [Disposes ''p''] True"
    by (simp add: loop_exit)
  have assign: "run (SAssign (Designator (simple ''p'' sample_span) [] sample_span) (ENil sample_span) sample_span) [Sets ''p''] True"
    using run_assign [of "Designator (simple ''p'' sample_span) [] sample_span" "ENil sample_span" sample_span]
    by (simp add: assign_events_def simple_designator_def simple_def)
  from seq_next [OF calls(1) seq_next [OF loop seq_nil]] seq_next [OF calls(2) seq_next [OF assign seq_nil]]
  show ?thesis
    by (simp add: check_eval Let_def scan_branch_def forget_def assign_stmt_def scan_base_def simple_designator_def simple_def or_insert_def)
qed

section \<open>Straight lines\<close>

text \<open>A sequence of NEW (\<open>True\<close>) and DISPOSE calls, and the last operation on a variable.\<close>

fun op_stmt :: "bool \<times> string \<times> span \<Rightarrow> stmt" where
  "op_stmt (alloc, p, sp) =
     SCall (ECall (sample_name (if alloc then ''NEW'' else ''DISPOSE'')) [EDesignator (Designator (simple p sp) [] sp)] sp) sp"

definition last_op :: "(bool \<times> string \<times> span) list \<Rightarrow> string \<Rightarrow> bool option" where
  "last_op ops p = map_of (rev (map (\<lambda>(alloc, q, sp). (q, alloc)) ops)) p"

definition alarm :: "nat \<Rightarrow> (bool \<times> string \<times> span) list \<Rightarrow> nat \<Rightarrow> diagnostic list" where
  "alarm mid ops i = (case ops ! i of (alloc, p, sp) \<Rightarrow>
     (if last_op (take i ops) p = Some alloc
      then [\<lparr>dg_severity = SevWarning, dg_message = (if alloc then again_message p else double_message p),
              dg_span = sp, dg_module = mid\<rparr>]
      else []))"

lemma op_call: "scan_stmt mid (op_stmt (alloc, p, sp)) v =
  (if alloc then (set_st p Alloc (if st_of v p = Some Alloc then warn mid sp (again_message p) v else v))
                    \<lparr>vs_new_span := AList.update p sp (vs_new_span v)\<rparr>
   else set_st p Disposed (if st_of v p = Some Disposed then warn mid sp (double_message p) v else v))"
  by (simp add: call_stmt_def simple_var_def simple_designator_def simple_def)

lemma straight_states:
  "st_of (scan_stmts mid (map op_stmt ops) vars_new) p = map_option (\<lambda>a. if a then Alloc else Disposed) (last_op ops p)"
proof (induction ops rule: rev_induct)
  case Nil
  then show ?case by (simp add: last_op_def scan_stmts_def st_of_def vars_new_def)
next
  case (snoc x ops)
  obtain alloc q sp where x: "x = (alloc, q, sp)" by (cases x)
  show ?case using snoc by (simp add: x last_op_def scan_stmts_def op_call del: op_stmt.simps scan_stmt.simps)
qed

text \<open>
  C20: On straight lines of NEW and DISPOSE the warnings are exact: one for every NEW of a variable whose last
  operation was NEW and every DISPOSE of one whose last operation was DISPOSE, in order, and no other.\<close>

theorem straight_line_exact:
  "vs_diags (scan_stmts mid (map op_stmt ops) vars_new) = concat (map (alarm mid ops) [0..<length ops])"
proof (induction ops rule: rev_induct)
  case Nil
  then show ?case by (simp add: scan_stmts_def vars_new_def)
next
  case (snoc x ops)
  obtain alloc q sp where x: "x = (alloc, q, sp)" by (cases x)
  have "alarm mid (ops @ [x]) i = alarm mid ops i" if "i < length ops" for i using that by (simp add: alarm_def nth_append)
  then have pre: "concat (map (alarm mid (ops @ [x])) [0..<length ops]) = concat (map (alarm mid ops) [0..<length ops])"
    by (intro arg_cong [of _ _ concat] map_cong refl) simp
  have step: "scan_stmts mid (map op_stmt (ops @ [x])) vars_new = scan_stmt mid (op_stmt x) (scan_stmts mid (map op_stmt ops) vars_new)"
    by (simp add: scan_stmts_def)
  have last: "alarm mid (ops @ [x]) (length ops) = (if last_op ops q = Some alloc
      then [\<lparr>dg_severity = SevWarning, dg_message = (if alloc then again_message q else double_message q),
              dg_span = sp, dg_module = mid\<rparr>] else [])"
    by (simp add: alarm_def x)
  have "concat (map (alarm mid (ops @ [x])) [0..<length (ops @ [x])]) =
      concat (map (alarm mid ops) [0..<length ops]) @ alarm mid (ops @ [x]) (length ops)"
    using pre by simp
  then show ?case unfolding step last using snoc straight_states [of mid ops q]
    by (cases "last_op ops q") (auto simp: x op_call warn_def set_st_def simp del: op_stmt.simps scan_stmt.simps)
qed

end
