(* ===== verification/Ir.thy ===== *)
theory Ir
  imports Types ConstEval
begin

text \<open>
  The intermediate representation (\<open>newm2-ir\<close>): constants, instructions and terminators (\<open>inst.rs\<close>), basic
  blocks (\<open>block.rs\<close>), functions with their reverse post-order (\<open>func.rs\<close>), modules (\<open>module.rs\<close>), and the
  builder of functions (\<open>builder.rs\<close>). Identifiers are 32-bit words. Indexing a list of blocks out of range is
  a panic, here \<open>None\<close>. Two modes of memory management are the ones of \<open>module.rs\<close>; the assembled ASM
  procedures of another crate are a parameter, the name of each.
\<close>

section \<open>Instructions\<close>

type_synonym value_id = u32

type_synonym block_id = u32

datatype const_val =
    IcInt int
  | IcReal f64
  | IcBool bool
  | IcChar nat
  | IcStr string
  | IcFuncRef string
  | IcGlobalRef string type_id
  | IcSizeOf type_id
  | IcAggregate const_value type_id
  | IcNil

datatype bin_op =
    BoAdd | BoSub | BoMul | BoDiv | BoMod | BoQuot | BoRem | BoSRem
  | BoBitAnd | BoBitOr | BoBitXor | BoShl | BoShr
  | BoEq | BoNe | BoLt | BoLe | BoGt | BoGe | BoULt | BoULe | BoUGt | BoUGe
  | BoAnd | BoOr
  | BoFAdd | BoFSub | BoFMul | BoFDiv

datatype un_op = UoNeg | UoFNeg | UoNot | UoAbs | UoCap

datatype set_op_kind = SoUnion | SoDifference | SoIntersection | SoSymDiff | SoMember

datatype cast_kind =
    CkIntTrunc | CkIntZeroExt | CkIntSignExt | CkIntToFloat | CkFloatToInt | CkFloatExt | CkFloatTrunc
  | CkBitCast | CkOrdToChar | CkCharToOrd | CkPtrToInt | CkIntToPtr | CkMemReinterpret

datatype vec_intrin = ViReduceAdd | ViFma | ViFabs

text \<open>The operands stand in the order of the fields.\<close>

datatype inst =
    IConst value_id const_val
  | ICopy value_id value_id
  | IAlloca value_id type_id
  | ILoad value_id value_id
  | IStore value_id value_id
  | IMemCopy value_id value_id type_id
  | IFieldPtr value_id value_id u32
  | IIndexPtr value_id value_id value_id type_id
  | ITypedPtr value_id value_id type_id
  | IUnary value_id un_op value_id
  | IBinary value_id bin_op value_id value_id
  | ICast value_id cast_kind value_id type_id
  | ICall "value_id option" value_id "value_id list"
  | IIndCall "value_id option" value_id type_id "value_id list"
  | ISetOp value_id set_op_kind value_id value_id
  | IAllocate value_id type_id
  | IDeallocate value_id
  | IGcRoot value_id
  | IGcSafePoint
  | IPin value_id
  | IUnpin value_id
  | INewProcess value_id value_id value_id value_id
  | ITransfer value_id value_id
  | IVecBuild value_id "value_id list" type_id
  | IVecExtract value_id value_id value_id
  | IVecInsert value_id value_id value_id value_id
  | IVecIntrinsic value_id vec_intrin "value_id list" type_id

datatype terminator =
    TGoto block_id
  | TCondBr value_id block_id block_id
  | TSwitch value_id "(int \<times> block_id) list" block_id
  | TReturn "value_id option"
  | TRaise value_id
  | THalt
  | TUnreachable

text \<open>The successors; those of a switch are sorted and without repetition.\<close>

fun succs :: "terminator \<Rightarrow> block_id list" where
  "succs (TGoto b) = [b]"
| "succs (TCondBr c t f) = [t, f]"
| "succs (TSwitch v arms d) = remdups_adj (sort (map snd arms @ [d]))"
| "succs t = []"

section \<open>Blocks, functions, modules\<close>

record basic_block =
  bb_id :: block_id
  bb_label :: "string option"
  bb_insts :: "inst list"
  bb_term :: terminator

definition block_new :: "block_id \<Rightarrow> basic_block" where
  "block_new i = \<lparr>bb_id = i, bb_label = None, bb_insts = [], bb_term = TUnreachable\<rparr>"

definition new_labeled :: "block_id \<Rightarrow> string \<Rightarrow> basic_block" where
  "new_labeled i label = \<lparr>bb_id = i, bb_label = Some label, bb_insts = [], bb_term = TUnreachable\<rparr>"

datatype ir_memory_mode = IrGc | IrNoGc

record loop_frame =
  exit_block :: block_id
  continue_block :: block_id

record ir_param =
  ip_name :: string
  ip_ty :: type_id
  ip_is_var :: bool

record func =
  fn_name :: string
  fn_params :: "ir_param list"
  fn_return_ty :: "type_id option"
  fn_blocks :: "basic_block list"
  fn_entry :: block_id
  fn_exit :: block_id
  fn_memory_mode :: ir_memory_mode
  fn_is_extern :: bool

definition get_block :: "func \<Rightarrow> block_id \<Rightarrow> basic_block option" where
  "get_block f i = get_at (fn_blocks f) (unat i)"

datatype global =
    GExternFunc string "string option" "string option" "ir_param list option" "type_id option" bool
  | GStatic string type_id "const_value option" bool
  | GStringConst string string
  | GClassDesc string "string list" bool
  | GTypeInfo string "string option" u64
  | GGuid string "8 word list"

record ir_module =
  im_name :: string
  im_globals :: "global list"
  im_funcs :: "func list"
  im_memory_mode :: ir_memory_mode
  im_asm_procs :: "string list"

definition ir_module_new :: "string \<Rightarrow> ir_memory_mode \<Rightarrow> ir_module" where
  "ir_module_new name mode = \<lparr>im_name = name, im_globals = [], im_funcs = [], im_memory_mode = mode, im_asm_procs = []\<rparr>"

definition is_asm_proc :: "ir_module \<Rightarrow> string \<Rightarrow> bool" where
  "is_asm_proc m name = list_ex (\<lambda>p. p = name) (im_asm_procs m)"

section \<open>Reverse post-order\<close>

text \<open>
  \<open>visited\<close> and \<open>order\<close> are the state; indexing \<open>visited\<close> out of range panics, before the comparison with the
  number of blocks. The depth is fuel: a block is entered once, so one more than the number of blocks is enough.
\<close>

type_synonym rpo_state = "bool list \<times> block_id list"

fun rpo_dfs :: "basic_block list \<Rightarrow> nat \<Rightarrow> block_id \<Rightarrow> rpo_state \<Rightarrow> rpo_state option"
and rpo_succs :: "basic_block list \<Rightarrow> nat \<Rightarrow> block_id list \<Rightarrow> rpo_state \<Rightarrow> rpo_state option" where
  "rpo_dfs blocks 0 b st = None"
| "rpo_dfs blocks (Suc n) b (visited, order) =
     (if length visited \<le> unat b then None
      else if visited ! unat b then Some (visited, order)
      else map_option (\<lambda>(visited', order'). (visited', order' @ [b]))
             (if unat b < length blocks
              then rpo_succs blocks n (succs (bb_term (blocks ! unat b))) (visited[unat b := True], order)
              else Some (visited[unat b := True], order)))"
| "rpo_succs blocks n [] st = Some st"
| "rpo_succs blocks n (s # ss) st = Option.bind (rpo_dfs blocks n s st) (rpo_succs blocks n ss)"

definition rpo :: "func \<Rightarrow> block_id list option" where
  "rpo f = (let n = length (fn_blocks f)
            in map_option (\<lambda>(visited, order). rev order) (rpo_dfs (fn_blocks f) (n + 1) (fn_entry f) (replicate n False, [])))"

section \<open>The builder\<close>

record builder =
  fb_name :: string
  fb_params :: "ir_param list"
  fb_return_ty :: "type_id option"
  fb_blocks :: "basic_block list"
  fb_current :: block_id
  fb_next_reg :: u32
  fb_loop_stack :: "loop_frame list"
  fb_memory_mode :: ir_memory_mode
  fb_entry :: block_id
  fb_exit :: block_id

definition builder_new :: "string \<Rightarrow> ir_param list \<Rightarrow> type_id option \<Rightarrow> ir_memory_mode \<Rightarrow> builder" where
  "builder_new name params ret mode =
     \<lparr>fb_name = name, fb_params = params, fb_return_ty = ret,
      fb_blocks = [new_labeled 0 ''entry'', new_labeled 1 ''exit''],
      fb_current = 0, fb_next_reg = 0, fb_loop_stack = [], fb_memory_mode = mode, fb_entry = 0, fb_exit = 1\<rparr>"

definition fresh_reg :: "builder \<Rightarrow> value_id \<times> builder" where
  "fresh_reg b = (fb_next_reg b, b\<lparr>fb_next_reg := fb_next_reg b + 1\<rparr>)"

definition new_block :: "string \<Rightarrow> builder \<Rightarrow> block_id \<times> builder" where
  "new_block label b =
     (let i = of_nat (length (fb_blocks b)) in (i, b\<lparr>fb_blocks := fb_blocks b @ [new_labeled i label]\<rparr>))"

definition switch_to :: "block_id \<Rightarrow> builder \<Rightarrow> builder" where
  "switch_to i b = b\<lparr>fb_current := i\<rparr>"

definition is_terminated :: "builder \<Rightarrow> bool option" where
  "is_terminated b = map_option (\<lambda>blk. bb_term blk \<noteq> TUnreachable) (get_at (fb_blocks b) (unat (fb_current b)))"

definition set_current :: "(basic_block \<Rightarrow> basic_block) \<Rightarrow> builder \<Rightarrow> builder" where
  "set_current f b = (let i = unat (fb_current b) in b\<lparr>fb_blocks := (fb_blocks b)[i := f (fb_blocks b ! i)]\<rparr>)"

definition push :: "inst \<Rightarrow> builder \<Rightarrow> builder option" where
  "push i b = map_option (\<lambda>t. if t then b else set_current (\<lambda>blk. blk\<lparr>bb_insts := bb_insts blk @ [i]\<rparr>) b) (is_terminated b)"

definition terminate :: "terminator \<Rightarrow> builder \<Rightarrow> builder option" where
  "terminate term b = map_option (\<lambda>t. if t then b else set_current (\<lambda>blk. blk\<lparr>bb_term := term\<rparr>) b) (is_terminated b)"

definition push_loop :: "loop_frame \<Rightarrow> builder \<Rightarrow> builder" where
  "push_loop fr b = b\<lparr>fb_loop_stack := fb_loop_stack b @ [fr]\<rparr>"

definition pop_loop :: "builder \<Rightarrow> loop_frame option \<times> builder" where
  "pop_loop b = (if fb_loop_stack b = [] then (None, b)
     else (Some (last (fb_loop_stack b)), b\<lparr>fb_loop_stack := butlast (fb_loop_stack b)\<rparr>))"

definition current_loop :: "builder \<Rightarrow> loop_frame option" where
  "current_loop b = (if fb_loop_stack b = [] then None else Some (last (fb_loop_stack b)))"

definition seal :: "type_id option \<Rightarrow> basic_block \<Rightarrow> basic_block" where
  "seal ret blk = (if bb_term blk = TUnreachable
     then blk\<lparr>bb_term := (if ret \<noteq> None then TUnreachable else TReturn None)\<rparr> else blk)"

definition finish :: "builder \<Rightarrow> func" where
  "finish b = \<lparr>fn_name = fb_name b, fn_params = fb_params b, fn_return_ty = fb_return_ty b,
     fn_blocks = map (seal (fb_return_ty b)) (fb_blocks b), fn_entry = fb_entry b, fn_exit = fb_exit b,
     fn_memory_mode = fb_memory_mode b, fn_is_extern = False\<rparr>"

end
