(* ===== verification/IrSpec.thy ===== *)
theory IrSpec
  imports Ir TopoSpec
begin

text \<open>
  What the builder writes, against the sequence of the calls made to it, and the reverse post-order of the
  functions it builds: a depth-first search like the ordering of the modules, to which it is reduced.
\<close>

section \<open>Calls of the builder\<close>

datatype builder_op =
    DoFresh
  | DoBlock string
  | DoSwitch block_id
  | DoPush inst
  | DoTerminate terminator
  | DoPushLoop loop_frame
  | DoPopLoop

fun apply_op :: "builder_op \<Rightarrow> builder \<Rightarrow> builder option" where
  "apply_op DoFresh b = Some (snd (fresh_reg b))"
| "apply_op (DoBlock label) b = Some (snd (new_block label b))"
| "apply_op (DoSwitch i) b = Some (switch_to i b)"
| "apply_op (DoPush i) b = push i b"
| "apply_op (DoTerminate t) b = terminate t b"
| "apply_op (DoPushLoop fr) b = Some (push_loop fr b)"
| "apply_op DoPopLoop b = Some (snd (pop_loop b))"

fun run_ops :: "builder_op list \<Rightarrow> builder \<Rightarrow> builder option" where
  "run_ops [] b = Some b"
| "run_ops (x # xs) b = Option.bind (apply_op x b) (run_ops xs)"

lemma run_ops_append: "run_ops (xs @ ys) b = Option.bind (run_ops xs b) (run_ops ys)"
  by (induction xs arbitrary: b) (auto split: bind_splits)

section \<open>What is written\<close>

text \<open>The instructions and terminators sent to each block, and the block that is active after the calls.\<close>

fun sent :: "nat \<Rightarrow> builder_op list \<Rightarrow> (nat \<times> (inst + terminator)) list" where
  "sent c [] = []"
| "sent c (DoSwitch i # ops) = sent (unat i) ops"
| "sent c (DoPush i # ops) = (c, Inl i) # sent c ops"
| "sent c (DoTerminate t # ops) = (c, Inr t) # sent c ops"
| "sent c (op # ops) = sent c ops"

fun active :: "nat \<Rightarrow> builder_op list \<Rightarrow> nat" where
  "active c [] = c"
| "active c (DoSwitch i # ops) = active (unat i) ops"
| "active c (op # ops) = active c ops"

definition sent_to :: "nat \<Rightarrow> builder_op list \<Rightarrow> (inst + terminator) list" where
  "sent_to k ops = map snd (filter (\<lambda>x. fst x = k) (sent 0 ops))"

text \<open>A block holds what was sent before the first terminator that seals it; the placeholder does not.\<close>

fun block_text :: "(inst + terminator) list \<Rightarrow> inst list \<times> terminator" where
  "block_text [] = ([], TUnreachable)"
| "block_text (Inl i # as) = (i # fst (block_text as), snd (block_text as))"
| "block_text (Inr t # as) = (if t = TUnreachable then block_text as else ([], t))"

lemma sent_append: "sent c (xs @ ys) = sent c xs @ sent (active c xs) ys"
  by (induction c xs rule: sent.induct) auto

lemma active_append: "active c (xs @ ys) = active (active c xs) ys"
  by (induction c xs rule: active.induct) auto

lemma block_text_snoc: "block_text (as @ [a]) =
    (if snd (block_text as) \<noteq> TUnreachable then block_text as
     else case a of Inl i \<Rightarrow> (fst (block_text as) @ [i], TUnreachable) | Inr t \<Rightarrow> (fst (block_text as), t))"
  by (induction as rule: block_text.induct) (auto split: sum.split)

definition built :: "builder_op list \<Rightarrow> builder \<Rightarrow> bool" where
  "built ops b \<longleftrightarrow> unat (fb_current b) = active 0 ops \<and> fb_entry b = 0 \<and> fb_exit b = 1 \<and>
     (\<forall>k < length (fb_blocks b). bb_insts (fb_blocks b ! k) = fst (block_text (sent_to k ops)) \<and>
        bb_term (fb_blocks b ! k) = snd (block_text (sent_to k ops)) \<and> bb_id (fb_blocks b ! k) = of_nat k) \<and>
     (\<forall>k \<ge> length (fb_blocks b). sent_to k ops = [])"

lemma sent_to_snoc: "sent_to k (ops @ [x]) = sent_to k ops @ map snd (filter (\<lambda>y. fst y = k) (sent (active 0 ops) [x]))"
  by (simp add: sent_to_def sent_append)

lemma active_write:
  assumes "is_terminated b = Some t" "built ops b"
  shows "active 0 ops < length (fb_blocks b)" "t \<longleftrightarrow> bb_term (fb_blocks b ! active 0 ops) \<noteq> TUnreachable"
  using assms by (auto simp: is_terminated_def built_def get_at_Some_iff split: if_splits)

lemma built_step:
  assumes "built ops b" "apply_op x b = Some b'"
  shows "built (ops @ [x]) b'"
proof (cases x)
  case (DoPush i)
  then obtain t where t: "is_terminated b = Some t"
      "b' = (if t then b else set_current (\<lambda>blk. blk\<lparr>bb_insts := bb_insts blk @ [i]\<rparr>) b)"
    using assms(2) by (auto simp: push_def)
  show ?thesis using assms(1) active_write [OF t(1) assms(1)] t(2) DoPush
    by (auto simp: built_def sent_to_snoc active_append block_text_snoc set_current_def Let_def nth_list_update)
next
  case (DoTerminate tm)
  then obtain t where t: "is_terminated b = Some t" "b' = (if t then b else set_current (\<lambda>blk. blk\<lparr>bb_term := tm\<rparr>) b)"
    using assms(2) by (auto simp: terminate_def)
  show ?thesis using assms(1) active_write [OF t(1) assms(1)] t(2) DoTerminate
    by (auto simp: built_def sent_to_snoc active_append block_text_snoc set_current_def Let_def nth_list_update)
next
  case (DoBlock label)
  then show ?thesis using assms
    by (auto simp: built_def sent_to_snoc active_append new_block_def Let_def nth_append new_labeled_def less_Suc_eq)
qed (use assms in \<open>auto simp: built_def sent_to_snoc active_append fresh_reg_def switch_to_def push_loop_def pop_loop_def split: if_splits\<close>)

lemma run_ops_built: "run_ops ops (builder_new name ps ret mode) = Some b \<Longrightarrow> built ops b"
proof (induction ops arbitrary: b rule: rev_induct)
  case Nil
  then show ?case by (auto simp: built_def builder_new_def sent_to_def new_labeled_def less_Suc_eq)
next
  case (snoc x ops)
  then show ?case by (auto simp: run_ops_append bind_eq_Some_conv intro: built_step)
qed

text \<open>
  C13: The builder writes into each block exactly what was sent to it while it was active, up to its first
  terminator, and the first terminator wins; code sent to a sealed block is dropped. Blocks have their positions
  as identifiers, and finishing only puts a RETURN into the unsealed blocks of a proper procedure.\<close>

theorem builder_writes:
  assumes "run_ops ops (builder_new name ps ret mode) = Some b" "k < length (fn_blocks (finish b))"
  shows "bb_id (fn_blocks (finish b) ! k) = of_nat k \<and>
    bb_insts (fn_blocks (finish b) ! k) = fst (block_text (sent_to k ops)) \<and>
    bb_term (fn_blocks (finish b) ! k) =
      (if snd (block_text (sent_to k ops)) = TUnreachable \<and> fb_return_ty b = None then TReturn None
       else snd (block_text (sent_to k ops)))"
proof -
  have k: "k < length (fb_blocks b)" using assms(2) by (simp add: finish_def)
  then show ?thesis using run_ops_built [OF assms(1)] by (simp add: built_def finish_def seal_def)
qed

section \<open>Reverse post-order\<close>

definition targets :: "basic_block list \<Rightarrow> nat \<Rightarrow> nat list" where
  "targets blocks i = (if i < length blocks then map unat (succs (bb_term (blocks ! i))) else [])"

definition known :: "mark list \<Rightarrow> bool list" where
  "known marks = map (\<lambda>m. m \<noteq> New) marks"

lemma known_simps [simp]: "length (known marks) = length marks" "i < length marks \<Longrightarrow> known marks ! i \<longleftrightarrow> marks ! i \<noteq> New"
  "known (marks[i := m]) = (known marks)[i := m \<noteq> New]"
  by (simp_all add: known_def map_update)

lemma visit_keeps:
  "visit imps n i st = Some st' \<Longrightarrow> length (fst st') = length (fst st) \<and>
     (\<forall>k < length (fst st). fst st ! k \<noteq> New \<longrightarrow> fst st' ! k \<noteq> New)"
  "visit_all f m cs su = Some st' \<Longrightarrow> length (fst st') = length (fst su) \<and>
     (\<forall>k < length (fst su). fst su ! k \<noteq> New \<longrightarrow> fst st' ! k \<noteq> New)"
proof (induction imps n i st and f m cs su arbitrary: st' and st' rule: visit_visit_all.induct)
  case (2 imps n i marks order)
  show ?case
  proof (cases "marks ! i = New")
    case True
    then obtain ms os where v: "visit_all imps n (imps i) (marks[i := Visiting], order) = Some (ms, os)"
        "st' = (ms[i := Done], os @ [i])" "i < length marks" using "2.prems" by (auto split: if_splits)
    have "length ms = length marks \<and> (\<forall>k < length marks. marks[i := Visiting] ! k \<noteq> New \<longrightarrow> ms ! k \<noteq> New)"
      using "2.IH" [OF _ _ v(1)] v(3) True by auto
    then show ?thesis using v(2,3) by (auto simp: nth_list_update)
  next
    case False
    then show ?thesis using "2.prems" by (auto split: if_splits)
  qed
next
  case (4 imps n c cs st)
  obtain st1 where 1: "visit imps n c st = Some st1" "visit_all imps n cs st1 = Some st'" using "4.prems" by (auto simp: bind_eq_Some_conv)
  show ?case using "4.IH"(1) [OF 1(1)] "4.IH"(2) [OF 1] by auto
qed auto

text \<open>The search over blocks is the visit of the module order, over the positions of the blocks.\<close>

lemma rpo_visit:
  "length marks = length blocks \<Longrightarrow> visit (targets blocks) n (unat b) (marks, map unat order) = Some st' \<Longrightarrow>
     visited = known marks \<Longrightarrow>
     \<exists>order'. rpo_dfs blocks n b (visited, order) = Some (known (fst st'), order') \<and> snd st' = map unat order'"
  "length marks = length blocks \<Longrightarrow> visit_all (targets blocks) n (map unat ss) (marks, map unat order) = Some st' \<Longrightarrow>
     visited = known marks \<Longrightarrow>
     \<exists>order'. rpo_succs blocks n ss (visited, order) = Some (known (fst st'), order') \<and> snd st' = map unat order'"
proof (induction blocks n b "(visited, order)" and blocks n ss "(visited, order)" arbitrary: visited order marks st' and visited order marks st'
    rule: rpo_dfs_rpo_succs.induct)
  case (2 blocks n b visited order)
  show ?case
  proof (cases "marks ! unat b = New")
    case True
    have b: "unat b < length marks" using "2.prems" by (auto split: if_splits)
    obtain ms os where v: "visit_all (targets blocks) n (targets blocks (unat b)) (marks[unat b := Visiting], map unat order) = Some (ms, os)"
        "st' = (ms[unat b := Done], os @ [unat b])" using "2.prems" True by (auto split: if_splits)
    have keep: "ms ! unat b \<noteq> New" "length ms = length marks" using visit_keeps(2) [OF v(1)] b by auto
    obtain order' where o: "rpo_succs blocks n (succs (bb_term (blocks ! unat b))) (visited[unat b := True], order) = Some (known ms, order')"
        "os = map unat order'"
      using "2.hyps" [of "marks[unat b := Visiting]" "(ms, os)"] v(1) b "2.prems" True by (auto simp: targets_def)
    have "(known ms)[unat b := True] = known ms" using keep b by (intro list_update_same_conv [THEN iffD2]) auto
    then show ?thesis using o v(2) b "2.prems" True by simp
  next
    case False
    then show ?thesis using "2.prems" by (auto split: if_splits)
  qed
next
  case (4 blocks n s ss visited order)
  obtain ms os where v: "visit (targets blocks) n (unat s) (marks, map unat order) = Some (ms, os)"
      "visit_all (targets blocks) n (map unat ss) (ms, os) = Some st'"
    using "4.prems"(2) by (auto simp: bind_eq_Some_conv)
  obtain o1 where o1: "rpo_dfs blocks n s (visited, order) = Some (known ms, o1)" "os = map unat o1"
    using "4.hyps"(1) [OF "4.prems"(1) v(1) "4.prems"(3)] by auto
  have "length ms = length blocks" using visit_keeps(1) [OF v(1)] "4.prems"(1) by simp
  then show ?case using "4.hyps"(2) [OF o1(1), of ms st'] v(2) o1 by simp
qed auto

text \<open>What a visit marks can be reached from where it starts, and what it finishes has only marked successors.\<close>

definition leaves_new :: "(nat \<Rightarrow> nat list) \<Rightarrow> nat set \<Rightarrow> mark list \<Rightarrow> mark list \<Rightarrow> bool" where
  "leaves_new imps starts ms ns \<longleftrightarrow> length ns = length ms \<and> (\<forall>k < length ms. ms ! k = New \<longrightarrow> ns ! k \<noteq> New \<longrightarrow>
     (\<exists>i \<in> starts. (i, k) \<in> (edge_of imps)\<^sup>*) \<and> (\<forall>j \<in> set (imps k). j < length ms \<and> ns ! j \<noteq> New))"

lemma leaves_newD: "leaves_new imps starts ms ns \<Longrightarrow> k < length ms \<Longrightarrow> ms ! k = New \<Longrightarrow> ns ! k \<noteq> New \<Longrightarrow>
    (\<exists>i \<in> starts. (i, k) \<in> (edge_of imps)\<^sup>*) \<and> (\<forall>j \<in> set (imps k). j < length ms \<and> ns ! j \<noteq> New)"
  unfolding leaves_new_def by blast

lemma visit_marked: "visit imps n i st = Some st' \<Longrightarrow> i < length (fst st) \<and> fst st' ! i \<noteq> New"
  by (cases n; cases st) (auto split: if_splits dest: visit_keeps(2))

lemma visit_all_marked: "visit_all imps n cs st = Some st' \<Longrightarrow> \<forall>c \<in> set cs. c < length (fst st) \<and> fst st' ! c \<noteq> New"
proof (induction cs arbitrary: st)
  case (Cons c cs)
  obtain st1 where 1: "visit imps n c st = Some st1" "visit_all imps n cs st1 = Some st'" using Cons.prems by (auto simp: bind_eq_Some_conv)
  show ?case using Cons.IH [OF 1(2)] visit_marked [OF 1(1)] visit_keeps(1) [OF 1(1)] visit_keeps(2) [OF 1(2)] by auto
qed simp

lemma visit_reaches:
  "visit imps n i st = Some st' \<Longrightarrow> leaves_new imps {i} (fst st) (fst st')"
  "visit_all f m cs su = Some st' \<Longrightarrow> leaves_new f (set cs) (fst su) (fst st')"
proof (induction imps n i st and f m cs su arbitrary: st' and st' rule: visit_visit_all.induct)
  case (2 imps n i marks order)
  show ?case
  proof (cases "marks ! i = New")
    case True
    obtain ms os where v: "visit_all imps n (imps i) (marks[i := Visiting], order) = Some (ms, os)"
        "st' = (ms[i := Done], os @ [i])" "i < length marks" using "2.prems" True by (auto split: if_splits)
    have below: "leaves_new imps (set (imps i)) (marks[i := Visiting]) ms" using "2.IH" [OF _ _ v(1)] v(3) True by auto
    have marked: "\<forall>c \<in> set (imps i). c < length marks \<and> ms ! c \<noteq> New" using visit_all_marked [OF v(1)] by simp
    have len: "length ms = length marks" using below by (simp add: leaves_new_def)
    have step: "(i, k) \<in> (edge_of imps)\<^sup>*" if "c \<in> set (imps i)" "(c, k) \<in> (edge_of imps)\<^sup>*" for c k
      using that converse_rtrancl_into_rtrancl [of i c "edge_of imps" k] by (simp add: edge_of_def)
    have "((i, k) \<in> (edge_of imps)\<^sup>*) \<and> (\<forall>j \<in> set (imps k). j < length marks \<and> ms[i := Done] ! j \<noteq> New)"
      if k: "k < length marks" "marks ! k = New" "ms[i := Done] ! k \<noteq> New" for k
    proof (cases "k = i")
      case True
      then show ?thesis using marked len v(3) by (auto simp: nth_list_update)
    next
      case False
      then have "(\<exists>c \<in> set (imps i). (c, k) \<in> (edge_of imps)\<^sup>*) \<and> (\<forall>j \<in> set (imps k). j < length marks \<and> ms ! j \<noteq> New)"
        using leaves_newD [OF below, of k] k by simp
      moreover have "ms[i := Done] ! j \<noteq> New" if "ms ! j \<noteq> New" for j using that by (cases "j = i"; cases "i < length ms") (auto simp: list_update_beyond not_less)
      ultimately show ?thesis using step by blast
    qed
    then have "leaves_new imps {i} marks (ms[i := Done])" unfolding leaves_new_def length_list_update len by blast
    then show ?thesis using v(2) by simp
  next
    case False
    then show ?thesis using "2.prems" by (auto simp: leaves_new_def split: if_splits)
  qed
next
  case (4 imps n c cs st)
  obtain st1 where 1: "visit imps n c st = Some st1" "visit_all imps n cs st1 = Some st'" using "4.prems" by (auto simp: bind_eq_Some_conv)
  have a: "leaves_new imps {c} (fst st) (fst st1)" and b: "leaves_new imps (set cs) (fst st1) (fst st')"
    using "4.IH"(1) [OF 1(1)] "4.IH"(2) [OF 1] by auto
  have keep: "k < length (fst st1) \<Longrightarrow> fst st1 ! k \<noteq> New \<Longrightarrow> fst st' ! k \<noteq> New" for k using visit_keeps(2) [OF 1(2)] by blast
  show ?case unfolding leaves_new_def
  proof (intro conjI allI impI)
    show "length (fst st') = length (fst st)" using a b by (simp add: leaves_new_def)
    fix k assume k: "k < length (fst st)" "fst st ! k = New" "fst st' ! k \<noteq> New"
    have len: "length (fst st1) = length (fst st)" using a by (simp add: leaves_new_def)
    have "(\<exists>i \<in> set (c # cs). (i, k) \<in> (edge_of imps)\<^sup>*) \<and> (\<forall>j \<in> set (imps k). j < length (fst st) \<and> fst st' ! j \<noteq> New)"
    proof (cases "fst st1 ! k = New")
      case True
      then show ?thesis using leaves_newD [OF b, of k] k len by simp
    next
      case False
      then show ?thesis using leaves_newD [OF a k(1,2)] keep len by simp
    qed
    then show "\<exists>i \<in> set (c # cs). (i, k) \<in> (edge_of imps)\<^sup>*" "\<forall>j \<in> set (imps k). j < length (fst st) \<and> fst st' ! j \<noteq> New" by blast+
  qed
qed (auto simp: leaves_new_def)

lemma rpo_dfs_last: "rpo_dfs blocks n b (v, o1) = Some (v', xs) \<Longrightarrow> \<not> v ! unat b \<Longrightarrow> \<exists>ys. xs = ys @ [b]"
  by (cases n) (auto split: if_splits)

lemma before_rev: "before xs a b \<Longrightarrow> before (rev xs) b a"
proof -
  assume "before xs a b"
  then obtain us vs where "xs = us @ b # vs" "a \<in> set us" by (auto simp: before_def)
  moreover from this obtain ps qs where "us = ps @ a # qs" by (auto dest: split_list)
  ultimately have "rev xs = (rev vs @ b # rev qs) @ a # rev ps" by simp
  then show ?thesis unfolding before_def by (intro exI [of _ "rev vs @ b # rev qs"] exI [of _ "rev ps"]) simp
qed

definition flow :: "func \<Rightarrow> (nat \<times> nat) set" where
  "flow f = {(i, j). i < length (fn_blocks f) \<and> j \<in> unat ` set (succs (bb_term (fn_blocks f ! i)))}"

lemma flow_edges: "flow f = edge_of (targets (fn_blocks f))"
  by (auto simp: flow_def edge_of_def targets_def split: if_splits)

text \<open>Terminators name blocks of the function.\<close>

definition closed_func :: "func \<Rightarrow> bool" where
  "closed_func f \<longleftrightarrow> unat (fn_entry f) < length (fn_blocks f) \<and>
     (\<forall>blk \<in> set (fn_blocks f). \<forall>s \<in> set (succs (bb_term blk)). unat s < length (fn_blocks f))"

definition in_flow_order :: "func \<Rightarrow> block_id list \<Rightarrow> bool" where
  "in_flow_order f xs \<longleftrightarrow> distinct xs \<and> xs \<noteq> [] \<and> hd xs = fn_entry f \<and>
     unat ` set xs = {j. (unat (fn_entry f), j) \<in> (flow f)\<^sup>*} \<and>
     (\<forall>i j. i \<in> unat ` set xs \<longrightarrow> (i, j) \<in> flow f \<longrightarrow> before (map unat xs) i j \<or> (j, i) \<in> (flow f)\<^sup>*)"

lemma rpo_orders:
  assumes "closed_func f"
  shows "\<exists>xs. rpo f = Some xs \<and> in_flow_order f xs"
proof -
  let ?n = "length (fn_blocks f)" and ?t = "targets (fn_blocks f)" and ?e = "unat (fn_entry f)"
  let ?new = "replicate ?n New"
  have e: "?e < ?n" and closed: "closed_imports ?n ?t"
    using assms by (auto simp: closed_func_def closed_imports_def targets_def)
  obtain st' where v: "visit ?t (?n + 1) ?e (?new, []) = Some st'" "visit_ok ?t st'" "extends (?new, []) st'"
    using visit_returns [OF closed e, of "(?new, [])" "?n + 1"] by (auto simp: visit_ok_start path_to_start fresh_start)
  obtain ms os where st: "st' = (ms, os)" by (cases st')
  have len: "length ms = ?n" using extends_length [OF v(3)] st by simp
  have reach: "leaves_new ?t {?e} ?new ms" using visit_reaches(1) [OF v(1)] st by simp
  have marked: "ms ! ?e \<noteq> New" using visit_marked [OF v(1)] st by simp
  obtain xs where xs: "rpo_dfs (fn_blocks f) (?n + 1) (fn_entry f) (replicate ?n False, []) = Some (known ms, xs)" "os = map unat xs"
    using rpo_visit(1) [of ?new "fn_blocks f" "?n + 1" "fn_entry f" "[]" "(ms, os)" "replicate ?n False"] v(1) st by (auto simp: known_def)
  have dn: "set os = {i. i < ?n \<and> ms ! i \<noteq> New}" "distinct os" "in_order ?t os"
  proof -
    have "ms ! i \<noteq> Visiting" if "i < ?n" for i using extends_marks [OF v(3), of i] that st by auto
    then have "(i < ?n \<and> ms ! i = Done) = (i < ?n \<and> ms ! i \<noteq> New)" for i by (cases "ms ! i") auto
    then show "set os = {i. i < ?n \<and> ms ! i \<noteq> New}" using v(2) st len by (simp add: visit_ok_def)
  qed (use v(2) st in \<open>simp_all add: visit_ok_def\<close>)
  have r: "(?e, k) \<in> (flow f)\<^sup>* \<and> (\<forall>j \<in> set (?t k). j < ?n \<and> ms ! j \<noteq> New)" if "k < ?n" "ms ! k \<noteq> New" for k
    using leaves_newD [OF reach, of k] that by (simp add: flow_edges)
  have last: "\<exists>ys. xs = ys @ [fn_entry f]"
    using rpo_dfs_last [OF xs(1)] e by simp
  have "unat ` set xs = {j. (?e, j) \<in> (flow f)\<^sup>*}"
  proof (intro equalityI subsetI)
    fix j assume "j \<in> unat ` set xs"
    then have "j < ?n" "ms ! j \<noteq> New" using dn(1) xs(2) by auto
    then show "j \<in> {j. (?e, j) \<in> (flow f)\<^sup>*}" using r by blast
  next
    fix j assume "j \<in> {j. (?e, j) \<in> (flow f)\<^sup>*}"
    then have "(?e, j) \<in> (flow f)\<^sup>*" by simp
    then have "j < ?n \<and> ms ! j \<noteq> New"
    proof (induction rule: rtrancl_induct)
      case base
      then show ?case using e marked by simp
    next
      case (step j k)
      have "k \<in> set (?t j)" using step.hyps(2) by (simp add: flow_edges edge_of_def)
      then show ?case using r step.IH by blast
    qed
    then show "j \<in> unat ` set xs" using dn(1) xs(2) by auto
  qed
  moreover have "before (map unat (rev xs)) i j \<or> (j, i) \<in> (flow f)\<^sup>*" if "i \<in> unat ` set xs" "(i, j) \<in> flow f" for i j
  proof -
    have "i \<in> set os" "j \<in> set (?t i)" using that xs(2) by (auto simp: flow_edges edge_of_def)
    then have "before os j i \<or> (j, i) \<in> (edge_of ?t)\<^sup>*" using dn(3) by (auto simp: in_order_def)
    then show ?thesis using before_rev [of os j i] xs(2) by (auto simp: flow_edges rev_map)
  qed
  moreover have "distinct xs" using dn(2) xs(2) by (simp add: distinct_map)
  ultimately have "in_flow_order f (rev xs)" using last by (auto simp: in_flow_order_def)
  moreover have "rpo f = Some (rev xs)" using xs(1) by (simp add: rpo_def Let_def)
  ultimately show ?thesis by blast
qed

section \<open>Functions that are built\<close>

text \<open>Calls that name only blocks there are, \<open>n\<close> so far, and do not allocate more than there are identifiers.\<close>

fun ops_ok :: "nat \<Rightarrow> builder_op list \<Rightarrow> bool" where
  "ops_ok n [] = (n \<le> 2 ^ 32)"
| "ops_ok n (DoBlock label # ops) = ops_ok (Suc n) ops"
| "ops_ok n (DoSwitch i # ops) = (unat i < n \<and> ops_ok n ops)"
| "ops_ok n (DoTerminate t # ops) = (list_all (\<lambda>s. unat s < n) (succs t) \<and> ops_ok n ops)"
| "ops_ok n (op # ops) = ops_ok n ops"

definition well_built :: "builder \<Rightarrow> bool" where
  "well_built b \<longleftrightarrow> unat (fb_current b) < length (fb_blocks b) \<and> unat (fb_entry b) < length (fb_blocks b) \<and>
     (\<forall>blk \<in> set (fb_blocks b). \<forall>s \<in> set (succs (bb_term blk)). unat s < length (fb_blocks b))"

lemma well_built_set_current:
  "well_built b \<Longrightarrow> \<forall>s \<in> set (succs (bb_term (g (fb_blocks b ! unat (fb_current b))))). unat s < length (fb_blocks b) \<Longrightarrow>
   well_built (set_current g b)"
  by (auto simp: well_built_def set_current_def Let_def dest!: set_update_subset_insert [THEN subsetD])

lemma apply_op_well_built:
  assumes "well_built b" "ops_ok (length (fb_blocks b)) (x # xs)"
  shows "\<exists>b'. apply_op x b = Some b' \<and> well_built b' \<and> ops_ok (length (fb_blocks b')) xs \<and> fb_entry b' = fb_entry b"
proof -
  have cur: "unat (fb_current b) < length (fb_blocks b)" using assms(1) by (simp add: well_built_def)
  obtain t where t: "is_terminated b = Some t" using cur by (simp add: is_terminated_def get_at_def)
  have same: "length (fb_blocks (set_current g b)) = length (fb_blocks b)" "fb_entry (set_current g b) = fb_entry b" for g
    by (simp_all add: set_current_def Let_def)
  show ?thesis
  proof (cases x)
    case (DoPush i)
    have "well_built (set_current (\<lambda>blk. blk\<lparr>bb_insts := bb_insts blk @ [i]\<rparr>) b)"
      using assms(1) cur by (intro well_built_set_current) (auto simp: well_built_def)
    then show ?thesis using assms t same DoPush by (auto simp: push_def)
  next
    case (DoTerminate tm)
    then show ?thesis using assms t same well_built_set_current [OF assms(1), of "\<lambda>blk. blk\<lparr>bb_term := tm\<rparr>"]
      by (auto simp: terminate_def list_all_iff)
  next
    case (DoBlock label)
    then show ?thesis using assms
      by (auto simp: well_built_def new_block_def Let_def new_labeled_def less_Suc_eq)
  qed (use assms in \<open>auto simp: well_built_def fresh_reg_def switch_to_def push_loop_def pop_loop_def\<close>)
qed

lemma run_ops_well_built:
  "well_built b \<Longrightarrow> ops_ok (length (fb_blocks b)) ops \<Longrightarrow> \<exists>b'. run_ops ops b = Some b' \<and> well_built b' \<and> fb_entry b' = fb_entry b"
proof (induction ops arbitrary: b)
  case (Cons x ops)
  obtain b1 where "apply_op x b = Some b1" "well_built b1" "ops_ok (length (fb_blocks b1)) ops" "fb_entry b1 = fb_entry b"
    using apply_op_well_built [OF Cons.prems] by blast
  then show ?case using Cons.IH [of b1] by auto
qed simp

lemma finish_closed: "well_built b \<Longrightarrow> closed_func (finish b)"
  by (auto simp: well_built_def closed_func_def finish_def seal_def)

text \<open>
  C14: A function built by calls that name only blocks there are is ordered well: the builder does not panic, and
  the reverse post-order of the function holds the blocks reachable from the entry, each once, the entry first,
  and every block before its successors except where a successor leads back to it.\<close>

theorem built_function_ordered:
  assumes "ops_ok 2 ops"
  shows "\<exists>b xs. run_ops ops (builder_new name ps ret mode) = Some b \<and> rpo (finish b) = Some xs \<and>
    in_flow_order (finish b) xs \<and> hd xs = 0"
proof -
  have "well_built (builder_new name ps ret mode)" "ops_ok (length (fb_blocks (builder_new name ps ret mode))) ops"
    "fb_entry (builder_new name ps ret mode) = 0"
    using assms by (auto simp: well_built_def builder_new_def new_labeled_def numeral_2_eq_2)
  then obtain b where b: "run_ops ops (builder_new name ps ret mode) = Some b" "well_built b" "fb_entry b = 0"
    using run_ops_well_built by metis
  obtain xs where "rpo (finish b) = Some xs" "in_flow_order (finish b) xs" using rpo_orders [OF finish_closed [OF b(2)]] by blast
  then show ?thesis using b(1,3) by (auto simp: in_flow_order_def finish_def)
qed

text \<open>A WHILE loop: entry, exit, condition, body.\<close>

definition while_ops :: "builder_op list" where
  "while_ops = [DoBlock ''while_cond'', DoBlock ''while_body'', DoTerminate (TGoto 2), DoSwitch 2, DoFresh,
     DoPush (IConst 0 (IcBool True)), DoTerminate (TCondBr 0 3 1), DoPush IGcSafePoint, DoSwitch 3, DoTerminate (TGoto 2)]"

lemma while_ops_run: "\<exists>b. run_ops while_ops (builder_new ''f'' [] None IrGc) = Some b \<and> length (fn_blocks (finish b)) = 4"
  by (simp add: while_ops_def fresh_reg_def new_block_def Let_def switch_to_def push_def terminate_def is_terminated_def
    set_current_def builder_new_def new_labeled_def get_at_def finish_def)

theorem builder_writes_witness:
  "\<exists>b. bb_insts (fn_blocks (finish b) ! 2) = [IConst 0 (IcBool True)] \<and> bb_term (fn_blocks (finish b) ! 2) = TCondBr 0 3 1"
proof -
  obtain b where b: "run_ops while_ops (builder_new ''f'' [] None IrGc) = Some b" "2 < length (fn_blocks (finish b))"
    using while_ops_run by auto
  from builder_writes [OF b] show ?thesis by (auto simp: sent_to_def while_ops_def)
qed

theorem built_function_ordered_witness:
  "\<exists>b xs. run_ops while_ops (builder_new ''f'' [] None IrGc) = Some b \<and> rpo (finish b) = Some xs \<and>
    in_flow_order (finish b) xs \<and> hd xs = 0"
  by (rule built_function_ordered) (simp add: while_ops_def)

end
