(* ===== verification/Spec2Isabelle.thy ===== *)
theory Spec2Isabelle
  imports LexerSpec DirectiveSpec ConstEvalSpec TypesSpec ScopesSpec ClassesSpec Iid ExprRoundTrip ParserReturns HeapGuardSpec GcSpec GcSafepoint LoaderSpec FlowSpec TypeRulesSpec Exceptions HeapCheckSpec IrSpec
begin

text \<open>
  A verification library for NewM2, a compiler for Modula-2 on Windows with its run-time system, written in
  Rust (crates under \<open>src/src/\<close>).

  The program. The driver loads a module graph (\<open>newm2-loader\<close>): each file is preprocessed and tokenized
  (\<open>newm2-lexer\<close>), parsed (\<open>newm2-parser\<close>) and entered into the graph; imports are resolved by a search path
  and by an index of generated Windows definitions; the modules are then ordered. The analyzer (\<open>newm2-sema\<close>)
  runs over the graph in that order, with an arena of types, an arena of scopes, an arena of classes and a
  constant evaluator. The lowering (\<open>newm2-ir\<close>) builds functions block by block, a back end
  (\<open>newm2-llvm\<close>) hands them to LLVM, and the program runs with \<open>newm2-runtime\<close>: collector, manual heap,
  exceptions.

  Conventions. A Rust string is the list of its UTF-8 bytes. Machine integers are words where the code wraps
  or casts them and numbers where it only counts; \<open>i128\<close> is an integer with the checks of the code. A
  \<open>Result\<close> is a sum, an \<open>Option\<close> an option, a panic an error of its own or \<open>None\<close>, as the theory says at
  its head. A \<open>HashMap\<close> read only by key is a map; where the code iterates one, the order is an argument.
  Recursion that the code leaves unbounded is \<open>partial_function (option)\<close>: the outer option says whether the
  call returns. The file system, the operating system, threads of others and the formatting of reals are
  parameters.

  Foundations. \<open>Prelude\<close> has the shared operations on bytes, options, results, digits and UTF-8; \<open>Utf8\<close> the
  facts on validity; \<open>TextLines\<close> lines, trimming and lossy decoding; \<open>Floats\<close> the reals of the front end.

  Lexer (\<open>newm2-lexer/src/lib.rs\<close>, \<open>token.rs\<close>). \<open>Source\<close>: positions and spans. \<open>Token\<close>: token kinds and the
  keyword tables. \<open>Lexer\<close>: the struct \<open>Lexer\<close> with one definition per method, up to \<open>tokenize\<close>. \<open>LexerSpec\<close>:
  the tokens form a chain over the source, errors are located, and lexing a spelling gives the tokens spelled.
  The loops are bounded by the bytes left.

  Preprocessor (\<open>preprocess.rs\<close>). \<open>Preprocess\<close>: the pass over bytes, the stack of open \<open>%IF\<close>s, and the
  expression parser, whose fuel is the length of the expression. \<open>PreprocessSpec\<close>: layout is kept, the
  errors are the code's own and the fuel is never exhausted, the fast path agrees. \<open>DirectiveSpec\<close>: the selected branches of a
  structured source are the output.

  Parser (\<open>newm2-parser/src/ast.rs\<close>, \<open>parser.rs\<close>). \<open>Ast\<close> and \<open>SyntaxTree\<close>: the tree. \<open>ParserCore\<close>: the token
  cursor and the shared routines. \<open>ParseExpr\<close>, \<open>ParseTypes\<close>, \<open>ParseStmt\<close>, \<open>ParseDecl\<close>: every routine of the
  parser in the order of the file. A routine takes fuel for its nesting; one more unit than there are tokens
  is enough and more changes nothing, which \<open>ParserLogic\<close> (a relation on pairs of runs) carries through
  \<open>ParseTypesSpec\<close>, \<open>ParseStmtSpec\<close> and \<open>ParseDeclSpec\<close>. \<open>ParserReturns\<close> puts the lexer in front: the parser returns on
  every text, an assembly body without END apart. \<open>ExprRoundTrip\<close>: an unparser of expressions and the proof
  that the parser reads its output back.

  Module loader (\<open>newm2-loader/src/graph.rs\<close>, \<open>loader.rs\<close>, \<open>search_path.rs\<close>, \<open>win32_finder.rs\<close>, \<open>cache.rs\<close>).
  \<open>ModuleGraph\<close>: nodes and the depth-first order, whose depth is bounded by the number of modules plus one.
  \<open>SearchPath\<close>, \<open>Win32Index\<close>, \<open>Cache\<close>: where modules are found, and the keys of the cache with their text form.
  \<open>Loader\<close>: pairing of definition and implementation, resolution of imports, the work list. \<open>TopoSpec\<close>: the
  order is topological up to cycles. \<open>LoaderSpec\<close>: the invariant of the graph, termination on finitely many files,
  freedom from panics.

  Analyzer (\<open>newm2-sema\<close>). \<open>ConstEval\<close> (\<open>constant.rs\<close>) and \<open>ConstEvalSpec\<close>: values are well formed, integer
  folding is exact. \<open>Arena\<close>: the locale of a growing vector addressed by 32-bit handles, interpreted for the
  three arenas. \<open>Types\<close>, \<open>TypesSpec\<close> (\<open>types.rs\<close>): kinds of types, builtins, ordinal bounds. \<open>Scopes\<close>, \<open>ScopesSpec\<close>
  (\<open>scope.rs\<close>): symbols and scopes; a locale of insertion-ordered tables; look-up finds the innermost
  declaration. \<open>Classes\<close>, \<open>ClassesSpec\<close> (\<open>class.rs\<close> and the class part of \<open>analyze.rs\<close>): layout, validation,
  stable vtable slots. \<open>Iid\<close> (\<open>iid.rs\<close>): interface identifiers. \<open>FlowCheck\<close>, \<open>FlowSpec\<close> (\<open>analyze.rs\<close>): the definite-return
  check and the scan of GUARD arms, sound for a semantics of how statements end. \<open>TypeRules\<close>,
  \<open>TypeRulesSpec\<close> (\<open>analyze.rs\<close>): sizes and compatibility of types. \<open>HeapCheck\<close>, \<open>HeapCheckSpec\<close> (\<open>heapcheck.rs\<close>): the
  NEW/DISPOSE analysis against the runs of a body.

  Intermediate representation (\<open>newm2-ir\<close>). \<open>Ir\<close>: instructions, blocks, functions and the builder
  (\<open>inst.rs\<close>, \<open>block.rs\<close>, \<open>func.rs\<close>, \<open>module.rs\<close>, \<open>builder.rs\<close>). \<open>IrSpec\<close>: what a sequence of builder calls leaves in each
  block, and the reverse post-order; the depth of its search is bounded by the number of blocks plus one.

  Run time (\<open>newm2-runtime\<close>). \<open>Gc\<close>, \<open>GcHeap\<close>, \<open>GcSafepoint\<close> (\<open>gc.rs\<close>): block headers and clusters over a memory of
  words, allocation, marking, sweeping, a whole collection, and the stop-the-world protocol as interleaved
  steps of threads. \<open>GcLayout\<close>, \<open>GcBlocks\<close>, \<open>GcMark\<close>, \<open>GcSweep\<close>, \<open>GcCollect\<close>, \<open>GcAlloc\<close>, \<open>GcSpec\<close>: the invariant of a cluster
  (tiling, bitmap, free list), reachability, and that a collection keeps exactly what is reachable.
  \<open>HeapGuard\<close>, \<open>HeapGuardSpec\<close> (\<open>heap.rs\<close>): the manual heap with its counting Bloom filter, and the once-only
  decision of the guard over threads. \<open>Exceptions\<close> (\<open>exceptions.rs\<close> and the protected wrapper of \<open>lower.rs\<close>):
  the current exception, protected calls, and the meaning of EXCEPT and FINALLY they implement under three
  conditions, each shown necessary.

  Not modelled. The passes of \<open>analyze.rs\<close> over declarations and statements, which bind names and report
  errors, and with them the lowering of statements in \<open>lower.rs\<close>: only their self-contained rules named above
  are. The LLVM back end and JIT memory (calls into a third-party library). Interface files
  (\<open>iface.rs\<close>, \<open>symcache.rs\<close>), a serialization. Console and file input and output, crash reports, COM glue
  and coroutines (operating-system calls). The driver, the build server and the test
  matrix (process control). Printers and dumps, editor services, and the off-line generator of Windows definitions. Within
  modelled parts: the collector's stack capture, clocks and report file; RETRY and the panic hook
  of exceptions; reading and writing of the index and key files; the Display of the loader's errors.
\<close>

end
